(* ===== verification/Offload_Prelude.thy ===== *)
theory Offload_Prelude
  imports Main "HOL-Library.Word"
begin

text \<open>
  Types and generic lemmas shared by every component of the development: the byte and
  machine-integer types the C++ uses, little-endian encodings, the decimal rendering done by
  \<^verbatim>\<open>std::to_string\<close>, and overwriting a range of a buffer through a moving pointer.
\<close>

unbundle bit_operations_syntax

named_theorems offload_simps \<open>unfolding rules of the driver model\<close>
named_theorems le_simps \<open>little-endian encodings and their lengths\<close>

type_synonym byte = "8 word"
type_synonym u32 = "32 word"
type_synonym u64 = "64 word"

lemma unat_below_exp: "unat (w :: 'a::len word) < 2 ^ LENGTH('a)"
  by (rule unsigned_less)

section \<open>Little-endian bytes\<close>

primrec le_bytes :: "nat \<Rightarrow> nat \<Rightarrow> byte list" where
  "le_bytes 0 v = []"
| "le_bytes (Suc n) v = of_nat v # le_bytes n (v div 256)"

primrec le_nat :: "byte list \<Rightarrow> nat" where
  "le_nat [] = 0"
| "le_nat (b # bs) = unat b + 256 * le_nat bs"

lemma length_le_bytes [simp, le_simps]: "length (le_bytes n v) = n"
  by (induction n arbitrary: v) auto

lemma unat_of_nat_byte: "unat (of_nat v :: byte) = v mod 256"
  by (simp add: unat_of_nat)

lemma le_nat_le_bytes [le_simps]: "le_nat (le_bytes n v) = v mod 256 ^ n"
proof (induction n arbitrary: v)
  case 0
  then show ?case by simp
next
  case (Suc n)
  have "v mod 256 ^ Suc n = 256 * (v div 256 mod 256 ^ n) + v mod 256"
    by (simp add: mod_mult2_eq)
  with Suc show ?case by (simp add: unat_of_nat_byte)
qed

lemma le_nat_bound: "le_nat bs < 256 ^ length bs"
proof (induction bs)
  case Nil
  then show ?case by simp
next
  case (Cons b bs)
  have "unat b < 256" using unat_below_exp [of b] by simp
  with Cons show ?case by simp
qed

lemma le_bytes_inject:
  assumes "v < 256 ^ n" and "u < 256 ^ n" and "le_bytes n v = le_bytes n u"
  shows "v = u"
  using assms by (metis le_nat_le_bytes mod_less)

lemma le_nat_append: "le_nat (xs @ ys) = le_nat xs + 256 ^ length xs * le_nat ys"
  by (induction xs) (auto simp: algebra_simps)

text \<open>The four and eight bytes a little-endian host stores for an integer.\<close>

definition le32 :: "u32 \<Rightarrow> byte list" where
  "le32 v = le_bytes 4 (unat v)"

definition le64 :: "u64 \<Rightarrow> byte list" where
  "le64 v = le_bytes 8 (unat v)"

definition of_le32 :: "byte list \<Rightarrow> u32" where
  "of_le32 bs = of_nat (le_nat bs)"

lemma length_le32 [simp, le_simps]: "length (le32 v) = 4"
  by (simp add: le32_def)

lemma length_le64 [simp, le_simps]: "length (le64 v) = 8"
  by (simp add: le64_def)

lemma of_le32_le32 [simp, le_simps]: "of_le32 (le32 v) = v"
proof -
  have "unat v < 256 ^ 4" using unat_below_exp [of v] by simp
  then show ?thesis by (simp add: of_le32_def le32_def le_nat_le_bytes)
qed

lemma le_nat_le32 [simp]: "le_nat (le32 v) = unat v"
proof -
  have "unat v < 256 ^ 4" using unat_below_exp [of v] by simp
  then show ?thesis by (simp add: le32_def le_nat_le_bytes)
qed

lemma le_nat_le64 [simp]: "le_nat (le64 v) = unat v"
proof -
  have "unat v < 256 ^ 8" using unat_below_exp [of v] by simp
  then show ?thesis by (simp add: le64_def le_nat_le_bytes)
qed

section \<open>Buffers\<close>

text \<open>\<open>overwrite buf i bs\<close>: the bytes \<open>bs\<close> stored into \<open>buf\<close> from index \<open>i\<close> on.\<close>

definition overwrite :: "'a list \<Rightarrow> nat \<Rightarrow> 'a list \<Rightarrow> 'a list" where
  "overwrite buf i bs = take i buf @ bs @ drop (i + length bs) buf"

lemma length_overwrite [simp]:
  "i + length bs \<le> length buf \<Longrightarrow> length (overwrite buf i bs) = length buf"
  by (simp add: overwrite_def)

lemma overwrite_Nil [simp]: "i \<le> length buf \<Longrightarrow> overwrite buf i [] = buf"
  by (simp add: overwrite_def)

lemma overwrite_all: "length bs = length buf \<Longrightarrow> overwrite buf 0 bs = bs"
  by (simp add: overwrite_def)

lemma overwrite_overwrite:
  assumes "i + length bs \<le> length buf"
  shows "overwrite (overwrite buf i bs) (i + length bs) cs = overwrite buf i (bs @ cs)"
proof -
  have "length (take i buf) = i" using assms by simp
  then show ?thesis using assms by (simp add: overwrite_def ac_simps)
qed

section \<open>Decimal rendering (\<^verbatim>\<open>std::to_string\<close>, \<^verbatim>\<open>%d\<close>)\<close>

definition digit_char :: "nat \<Rightarrow> char" where
  "digit_char d = char_of (48 + d)"

fun decimal_string :: "nat \<Rightarrow> string" where
  "decimal_string n =
     (if n < 10 then [digit_char n] else decimal_string (n div 10) @ [digit_char (n mod 10)])"

declare decimal_string.simps [simp del]

lemma decimal_string_nonempty [simp]: "decimal_string n \<noteq> []"
  by (subst decimal_string.simps) simp

section \<open>Words as addresses and sizes\<close>

lemma unat_of_nat64: "n < 2 ^ 64 \<Longrightarrow> unat (of_nat n :: u64) = n"
  by (simp add: unat_of_nat)

lemma unat_ucast_32_64 [simp]: "unat (ucast (v :: u32) :: u64) = unat v"
  using unat_below_exp [of v]
  by (simp add: unsigned_ucast_eq take_bit_nat_eq_self)

lemma of_int_of_nat_word: "(word_of_int (int n) :: 'a::len word) = of_nat n"
  by simp

text \<open>Transfer counts against the requested length.\<close>

lemma minus_one_le_uint [simp]: "(- 1 :: int) \<le> uint c"
  by (rule order_trans [OF _ uint_ge_0]) simp

lemma int_min_le_uint [simp]: "int (min k (unat c)) \<le> uint c"
proof -
  have "int (min k (unat c)) \<le> int (unat c)" by (simp only: of_nat_le_iff min.cobounded2)
  then show ?thesis by simp
qed

end
