(* ===== verification/Posix_Interface.thy ===== *)
theory Posix_Interface
  imports Offload_Prelude
begin

text \<open>
  The operating system as the driver sees it. The POSIX calls, the XDMA kernel driver behind the
  three device files and the steady clock are not code of this repository, so they are a parameter:
  a record of functions over an arbitrary world type \<open>'w\<close>, passed to every definition that makes
  a call. A call returns the C return value together with the new world; nothing is assumed here
  about either. What a proof relies on is a locale of the theory that makes the call.
\<close>

datatype open_flags = O_WRONLY | O_RDONLY | O_RDWR | O_WRONLY_CREAT_TRUNC nat

record 'w posix =
  os_open :: "string \<Rightarrow> open_flags \<Rightarrow> 'w \<Rightarrow> int \<times> 'w"
  os_close :: "int \<Rightarrow> 'w \<Rightarrow> 'w"
  os_pread :: "int \<Rightarrow> u64 \<Rightarrow> u64 \<Rightarrow> 'w \<Rightarrow> (int \<times> byte list) \<times> 'w"
  os_pwrite :: "int \<Rightarrow> byte list \<Rightarrow> u64 \<Rightarrow> 'w \<Rightarrow> int \<times> 'w"
  os_read :: "int \<Rightarrow> u64 \<Rightarrow> 'w \<Rightarrow> (int \<times> byte list) \<times> 'w"
  os_write :: "int \<Rightarrow> byte list \<Rightarrow> 'w \<Rightarrow> int \<times> 'w"
  os_fstat :: "int \<Rightarrow> 'w \<Rightarrow> (int \<times> u64) \<times> 'w"
  os_fsync :: "int \<Rightarrow> 'w \<Rightarrow> int \<times> 'w"
  os_strerror :: "'w \<Rightarrow> string"
  os_usleep :: "nat \<Rightarrow> 'w \<Rightarrow> 'w"
  os_now_ms :: "'w \<Rightarrow> u64 \<times> 'w"

text \<open>
  The arguments, in the order of the C prototypes: \<open>os_pread fd count offset\<close> and
  \<open>os_read fd count\<close> return the count and the bytes the kernel stored in the caller's buffer;
  \<open>os_pwrite fd bytes offset\<close> and \<open>os_write fd bytes\<close> get the bytes the pointer and the
  length describe; \<open>os_fstat\<close> returns its result and \<^verbatim>\<open>st_size\<close>. The offset is the 64-bit
  pattern that \<^verbatim>\<open>static_cast<off_t>\<close> reinterprets. \<open>os_strerror\<close> is
  \<^verbatim>\<open>strerror(errno)\<close> as it stands after the last call; the results of \<^verbatim>\<open>close\<close> and
  \<^verbatim>\<open>usleep\<close> are discarded everywhere in the sources, so they are not modelled.
\<close>

text \<open>\<^verbatim>\<open>leveldb::Status\<close>, by the constructors the driver uses.\<close>

datatype status = OK | IOError string | Corruption string | InvalidArgument string

primrec status_ok :: "status \<Rightarrow> bool" where
  "status_ok OK = True"
| "status_ok (IOError m) = False"
| "status_ok (Corruption m) = False"
| "status_ok (InvalidArgument m) = False"

lemma status_ok_iff [simp]: "status_ok s \<longleftrightarrow> s = OK"
  by (cases s) auto

end
