(* ===== verification/Xdma_Access.thy ===== *)
theory Xdma_Access
  imports Posix_Interface
begin

text \<open>
  \<^verbatim>\<open>driver/xdma_access.h\<close> and \<^verbatim>\<open>driver/xdma_access.cc\<close>: the low-level wrapper of the XDMA
  device files. Every member function is a definition over the object (record \<open>xdma\<close>), the
  operating system and its world. The two transfer loops may run forever (a transfer of length 0
  is neither an error nor progress), so they are \<^theory_text>\<open>partial_function (option)\<close>: None
  means that the call does not return.
\<close>

section \<open>The object\<close>

record xdma =
  h2c_dev :: string
  c2h_dev :: string
  user_dev :: string
  h2c_fd :: int
  c2h_fd :: int
  user_fd :: int
  last_error :: string

definition kDmaChunk :: u64 where
  "kDmaChunk = 4 * 1024 * 1024"

definition xdma_new :: "string \<Rightarrow> string \<Rightarrow> string \<Rightarrow> xdma" where
  "xdma_new h c u = \<lparr>h2c_dev = h, c2h_dev = c, user_dev = u,
     h2c_fd = -1, c2h_fd = -1, user_fd = -1, last_error = ''''\<rparr>"

definition set_error :: "string \<Rightarrow> xdma \<Rightarrow> xdma" where
  "set_error msg x = x\<lparr>last_error := msg\<rparr>"

definition get_error :: "xdma \<Rightarrow> string" where
  "get_error x = last_error x"

definition is_open :: "xdma \<Rightarrow> bool" where
  "is_open x \<longleftrightarrow> h2c_fd x \<ge> 0"

definition u64_string :: "u64 \<Rightarrow> string" where
  "u64_string v = decimal_string (unat v)"

section \<open>Open and Close\<close>

definition xdma_open :: "'w posix \<Rightarrow> xdma \<Rightarrow> 'w \<Rightarrow> bool \<times> xdma \<times> 'w" where
  "xdma_open os x w =
     (let (f1, w1) = os_open os (h2c_dev x) O_WRONLY w;
          x1 = x\<lparr>h2c_fd := f1\<rparr>
      in if f1 < 0
         then (False, set_error (''open '' @ h2c_dev x @ '': '' @ os_strerror os w1) x1, w1)
         else
           (let (f2, w2) = os_open os (c2h_dev x1) O_RDONLY w1;
                x2 = x1\<lparr>c2h_fd := f2\<rparr>
            in if f2 < 0
               then (False, set_error (''open '' @ c2h_dev x @ '': '' @ os_strerror os w2) x2, w2)
               else
                 (let (f3, w3) = os_open os (user_dev x2) O_RDWR w2;
                      x3 = x2\<lparr>user_fd := f3\<rparr>
                  in if f3 < 0
                     then (False, set_error (''open '' @ user_dev x @ '': '' @ os_strerror os w3) x3, w3)
                     else (True, x3, w3))))"

text \<open>Closing one descriptor: \<^verbatim>\<open>if (fd >= 0) { close(fd); fd = -1; }\<close>.\<close>

definition close_fd :: "'w posix \<Rightarrow> int \<Rightarrow> 'w \<Rightarrow> int \<times> 'w" where
  "close_fd os fd w = (if fd \<ge> 0 then (-1, os_close os fd w) else (fd, w))"

definition xdma_close :: "'w posix \<Rightarrow> xdma \<Rightarrow> 'w \<Rightarrow> xdma \<times> 'w" where
  "xdma_close os x w =
     (let (f1, w1) = close_fd os (h2c_fd x) w;
          (f2, w2) = close_fd os (c2h_fd x) w1;
          (f3, w3) = close_fd os (user_fd x) w2
      in (x\<lparr>h2c_fd := f1, c2h_fd := f2, user_fd := f3\<rparr>, w3))"

section \<open>Registers\<close>

definition write_reg :: "'w posix \<Rightarrow> xdma \<Rightarrow> u64 \<Rightarrow> u32 \<Rightarrow> 'w \<Rightarrow> bool \<times> xdma \<times> 'w" where
  "write_reg os x abs_addr value w =
     (let (n, w') = os_pwrite os (user_fd x) (le32 value) abs_addr w
      in if n \<noteq> 4
         then (False, set_error (''WriteReg @0x'' @ u64_string abs_addr @ '': '' @ os_strerror os w') x, w')
         else (True, x, w'))"

text \<open>
  \<^verbatim>\<open>ReadReg\<close> stores through \<^verbatim>\<open>uint32_t* value\<close>; \<open>old\<close> is what the variable held. A
  failing call may have stored some of the four bytes.
\<close>

definition read_reg :: "'w posix \<Rightarrow> xdma \<Rightarrow> u64 \<Rightarrow> u32 \<Rightarrow> 'w \<Rightarrow> bool \<times> u32 \<times> xdma \<times> 'w" where
  "read_reg os x abs_addr old w =
     (let ((n, bs), w') = os_pread os (user_fd x) 4 abs_addr w;
          v = of_le32 (overwrite (le32 old) 0 (take 4 bs))
      in if n \<noteq> 4
         then (False, v, set_error (''ReadReg @0x'' @ u64_string abs_addr @ '': '' @ os_strerror os w') x, w')
         else (True, v, x, w'))"

section \<open>DMA\<close>

text \<open>
  \<open>p\<close> is the memory from the moving pointer on, \<open>addr\<close> and \<open>remaining\<close> the loop's two
  counters, which wrap at 64 bits as in C++.
\<close>

partial_function (option) dma_to_device_loop ::
  "'w posix \<Rightarrow> xdma \<Rightarrow> byte list \<Rightarrow> u64 \<Rightarrow> u64 \<Rightarrow> 'w \<Rightarrow> (bool \<times> xdma \<times> 'w) option" where
  "dma_to_device_loop os x p addr remaining w =
     (if remaining > 0
      then
        (let chunk = (if remaining < kDmaChunk then remaining else kDmaChunk);
             (n, w') = os_pwrite os (h2c_fd x) (take (unat chunk) p) addr w
         in if n < 0
            then Some (False, set_error (''DmaToDevice @0x'' @ u64_string addr @ '': '' @ os_strerror os w') x, w')
            else dma_to_device_loop os x (drop (nat n) p) (addr + word_of_int n) (remaining - word_of_int n) w')
      else Some (True, x, w))"

lemmas to_device_loop_induct = dma_to_device_loop.raw_induct
  [where xa = "(((((os, x), p), a), r), w)" and P = P for os x p a r w P, unfolded prod.case]

definition dma_to_device ::
  "'w posix \<Rightarrow> xdma \<Rightarrow> u64 \<Rightarrow> byte list \<Rightarrow> u64 \<Rightarrow> 'w \<Rightarrow> (bool \<times> xdma \<times> 'w) option" where
  "dma_to_device os x ddr_addr data nbytes w = dma_to_device_loop os x data ddr_addr nbytes w"

text \<open>
  The buffer of the read direction is the caller's memory; the pointer is an index \<open>i\<close> into it.
\<close>

partial_function (option) dma_from_device_loop ::
  "'w posix \<Rightarrow> xdma \<Rightarrow> byte list \<Rightarrow> nat \<Rightarrow> u64 \<Rightarrow> u64 \<Rightarrow> 'w \<Rightarrow> (bool \<times> byte list \<times> xdma \<times> 'w) option" where
  "dma_from_device_loop os x buf i addr remaining w =
     (if remaining > 0
      then
        (let chunk = (if remaining < kDmaChunk then remaining else kDmaChunk);
             ((n, bs), w') = os_pread os (c2h_fd x) chunk addr w;
             buf' = overwrite buf i bs
         in if n < 0
            then Some (False, buf', set_error (''DmaFromDevice @0x'' @ u64_string addr @ '': '' @ os_strerror os w') x, w')
            else dma_from_device_loop os x buf' (i + nat n) (addr + word_of_int n) (remaining - word_of_int n) w')
      else Some (True, buf, x, w))"

lemmas from_device_loop_induct = dma_from_device_loop.raw_induct
  [where xa = "((((((os, x), b), i), a), r), w)" and P = P for os x b i a r w P, unfolded prod.case]

definition dma_from_device ::
  "'w posix \<Rightarrow> xdma \<Rightarrow> u64 \<Rightarrow> byte list \<Rightarrow> u64 \<Rightarrow> 'w \<Rightarrow> (bool \<times> byte list \<times> xdma \<times> 'w) option" where
  "dma_from_device os x ddr_addr data nbytes w = dma_from_device_loop os x data 0 ddr_addr nbytes w"

end
