(* ===== verification/Xdma_Transfer.thy ===== *)
theory Xdma_Transfer
  imports Xdma_Access
begin

text \<open>
  What the DMA loops of \<^verbatim>\<open>xdma_access.cc\<close> do over a device channel. The two directions are
  interfaces (locales): the kernel call the loop makes, and the laws of \<^verbatim>\<open>pwrite\<close> and
  \<^verbatim>\<open>pread\<close> on a character device it relies on, partial transfers included. A channel that may
  fail gives "error or complete transfer"; one that never fails extends it.
\<close>

section \<open>Generic facts of the loops\<close>

lemma chunk_bounds:
  assumes "(remaining :: u64) > 0"
  defines "c \<equiv> (if remaining < kDmaChunk then remaining else kDmaChunk)"
  shows "0 < unat c" and "unat c \<le> unat remaining" and "unat c \<le> 4194304"
proof -
  have k: "unat kDmaChunk = 4194304" by (simp add: kDmaChunk_def)
  have r: "0 < unat remaining" using assms(1) by (simp add: word_gt_0 unat_gt_0)
  show "0 < unat c" using k r by (auto simp: c_def)
  show "unat c \<le> unat remaining" by (auto simp: c_def not_less word_le_nat_alt)
  show "unat c \<le> 4194304" using k by (auto simp: c_def word_less_nat_alt)
qed

lemma remaining_step:
  assumes "0 \<le> n" and "nat n \<le> unat (remaining :: u64)"
  shows "unat (remaining - word_of_int n) = unat remaining - nat n"
proof -
  have lt: "nat n < 2 ^ 64" using assms(2) unat_below_exp [of remaining] by simp
  have "unat (word_of_int n :: u64) = nat n"
    using assms(1) lt by (metis int_nat_eq of_int_of_nat_word unat_of_nat64)
  moreover have "(word_of_int n :: u64) \<le> remaining"
    using calculation assms(2) by (simp add: word_le_nat_alt)
  ultimately show ?thesis by (simp add: unat_sub)
qed

lemma word_of_int_nat: "0 \<le> n \<Longrightarrow> (word_of_int n :: 'a::len word) = of_nat (nat n)"
  by (metis int_nat_eq of_int_of_nat_word)

text \<open>
  A kernel that accepts 0 bytes makes the loop spin: the code treats only negative results as
  errors, so nothing ever changes. \<open>R\<close> is any set of worlds closed under such calls.
\<close>

lemma to_device_loop_stuck:
  assumes ret: "dma_to_device_loop os x p addr remaining w = Some r"
  shows "R w \<longrightarrow> (\<forall>v. R v \<longrightarrow> (\<forall>bs a. fst (os_pwrite os (h2c_fd x) bs a v) = 0 \<and>
      R (snd (os_pwrite os (h2c_fd x) bs a v)))) \<longrightarrow> \<not> remaining > 0"
proof (induction rule: to_device_loop_induct [OF _ ret])
  case (1 f os x p addr remaining w r)
  show ?case
  proof (intro impI notI)
    assume R: "R w" and st: "\<forall>v. R v \<longrightarrow> (\<forall>bs a. fst (os_pwrite os (h2c_fd x) bs a v) = 0 \<and>
      R (snd (os_pwrite os (h2c_fd x) bs a v)))" and pos: "remaining > 0"
    let ?c = "if remaining < kDmaChunk then remaining else kDmaChunk"
    let ?pw = "os_pwrite os (h2c_fd x) (take (unat ?c) p) addr w"
    have fs: "fst ?pw = 0" and Rs: "R (snd ?pw)" using st R by auto
    have "f os x p addr remaining (snd ?pw) = Some r"
      using 1(2) pos fs by (simp add: Let_def case_prod_beta)
    then show False using 1(1) Rs st pos by blast
  qed
qed

lemma from_device_loop_stuck:
  assumes ret: "dma_from_device_loop os x buf i addr remaining w = Some r"
  shows "R w \<longrightarrow> (\<forall>v. R v \<longrightarrow> (\<forall>c a. fst (fst (os_pread os (c2h_fd x) c a v)) = 0 \<and>
      R (snd (os_pread os (c2h_fd x) c a v)))) \<longrightarrow> \<not> remaining > 0"
proof (induction rule: from_device_loop_induct [OF _ ret])
  case (1 f os x buf i addr remaining w r)
  show ?case
  proof (intro impI notI)
    assume R: "R w" and st: "\<forall>v. R v \<longrightarrow> (\<forall>c a. fst (fst (os_pread os (c2h_fd x) c a v)) = 0 \<and>
      R (snd (os_pread os (c2h_fd x) c a v)))" and pos: "remaining > 0"
    let ?c = "if remaining < kDmaChunk then remaining else kDmaChunk"
    let ?pr = "os_pread os (c2h_fd x) ?c addr w"
    have fs: "fst (fst ?pr) = 0" and Rs: "R (snd ?pr)" using st R by auto
    have "f os x (overwrite buf i (snd (fst ?pr))) i addr remaining (snd ?pr) = Some r"
      using 1(2) pos fs by (simp add: Let_def case_prod_beta)
    then show False using 1(1) Rs st pos by blast
  qed
qed

section \<open>Host to card\<close>

locale h2c_channel =
  fixes os :: "'w posix" and fd :: int
    and ready :: "'w \<Rightarrow> bool"
    and store :: "u64 \<Rightarrow> byte list \<Rightarrow> 'w \<Rightarrow> 'w"
  assumes pwrite_result: "ready w \<Longrightarrow> bs \<noteq> [] \<Longrightarrow> os_pwrite os fd bs a w = (n, w') \<Longrightarrow>
      n < 0 \<or> (0 < n \<and> nat n \<le> length bs \<and> w' = store a (take (nat n) bs) w)"
    and ready_store: "ready w \<Longrightarrow> ready (store a bs w)"
    and store_Nil: "ready w \<Longrightarrow> store a [] w = w"
    and store_append: "ready w \<Longrightarrow>
      store (a + of_nat (length bs)) cs (store a bs w) = store a (bs @ cs) w"
begin

text \<open>Some call on a ready channel is refused.\<close>

definition refusal :: bool where
  "refusal \<longleftrightarrow> (\<exists>bs a v. ready v \<and> bs \<noteq> [] \<and> fst (os_pwrite os fd bs a v) < 0)"

lemma to_device_loop:
  assumes "ready w" and "h2c_fd x = fd" and "unat remaining \<le> length p"
  shows "(\<exists>m w'. dma_to_device_loop os x p addr remaining w = Some (False, set_error m x, w') \<and> refusal) \<or>
    dma_to_device_loop os x p addr remaining w = Some (True, x, store addr (take (unat remaining) p) w)"
  using assms
proof (induction "unat remaining" arbitrary: p addr remaining w rule: less_induct)
  case less
  show ?case
  proof (cases "remaining > 0")
    case False
    then have "remaining = 0" by (simp add: word_gt_0)
    then show ?thesis using less.prems by (subst (1 2) dma_to_device_loop.simps) (simp add: store_Nil)
  next
    case True
    let ?c = "if remaining < kDmaChunk then remaining else kDmaChunk"
    note cb = chunk_bounds [OF True]
    let ?bs = "take (unat ?c) p"
    have len: "length ?bs = unat ?c" 
      using le_trans [OF cb(2) less.prems(3)] by (simp only: length_take min_absorb2)
    have ne: "?bs \<noteq> []" using len cb(1) by fastforce
    obtain n w1 where pw: "os_pwrite os fd ?bs addr w = (n, w1)" by fastforce
    have step: "dma_to_device_loop os x p addr remaining w =
       (if n < 0 then Some (False, set_error (''DmaToDevice @0x'' @ u64_string addr @ '': '' @ os_strerror os w1) x, w1)
        else dma_to_device_loop os x (drop (nat n) p) (addr + word_of_int n) (remaining - word_of_int n) w1)"
      using True pw less.prems(2) by (subst dma_to_device_loop.simps) (simp add: Let_def)
    show ?thesis
    proof (cases "n < 0")
      case True
      then have refusal using less.prems(1) pw ne unfolding refusal_def by (metis fst_conv)
      then show ?thesis using True step by auto
    next
      case False
      have n: "0 < n" "nat n \<le> unat ?c" and w1: "w1 = store addr (take (nat n) ?bs) w"
        using pwrite_result [OF less.prems(1) ne pw] False len by auto
      have w1': "w1 = store addr (take (nat n) p) w"
        using w1 n(2) by (simp add: min_def)
      have nr: "nat n \<le> unat remaining" using n(2) cb(2) by linarith
      have rem: "unat (remaining - word_of_int n) = unat remaining - nat n"
        using remaining_step [of n remaining] n(1) nr by simp
      have len1: "length (take (nat n) p) = nat n" using nr less.prems(3) by simp
      have r1: "ready w1" using w1' ready_store less.prems(1) by simp
      have IH: "(\<exists>m w'. dma_to_device_loop os x (drop (nat n) p) (addr + word_of_int n) (remaining - word_of_int n) w1
            = Some (False, set_error m x, w') \<and> refusal) \<or>
          dma_to_device_loop os x (drop (nat n) p) (addr + word_of_int n) (remaining - word_of_int n) w1
            = Some (True, x, store (addr + word_of_int n) (take (unat (remaining - word_of_int n)) (drop (nat n) p)) w1)"
        using n(1) nr rem less.prems by (intro less.hyps r1) auto
      have "store (addr + word_of_int n) (take (unat remaining - nat n) (drop (nat n) p)) w1 =
          store addr (take (nat n) p @ take (unat remaining - nat n) (drop (nat n) p)) w"
        using store_append [OF less.prems(1), of addr "take (nat n) p"]
        by (simp only: len1 w1' word_of_int_nat [OF less_imp_le [OF n(1)]])
      also have "take (nat n) p @ take (unat remaining - nat n) (drop (nat n) p) = take (unat remaining) p"
        using nr by (metis le_add_diff_inverse take_add)
      finally have eq: "store (addr + word_of_int n) (take (unat (remaining - word_of_int n)) (drop (nat n) p)) w1 =
          store addr (take (unat remaining) p) w" by (simp only: rem)
      have st': "dma_to_device_loop os x p addr remaining w =
        dma_to_device_loop os x (drop (nat n) p) (addr + word_of_int n) (remaining - word_of_int n) w1"
        using step False by simp
      show ?thesis using IH unfolding st' [symmetric] eq .
    qed
  qed
qed

lemma to_device:
  assumes "ready w" and "h2c_fd x = fd" and "length data < 2 ^ 64"
  shows "(\<exists>m w'. dma_to_device os x addr data (of_nat (length data)) w = Some (False, set_error m x, w') \<and> refusal) \<or>
    dma_to_device os x addr data (of_nat (length data)) w = Some (True, x, store addr data w)"
  using to_device_loop [of w x "of_nat (length data)" data addr] assms
  by (simp add: dma_to_device_def unat_of_nat64)

end

locale reliable_h2c = h2c_channel +
  assumes pwrite_accepts: "ready w \<Longrightarrow> bs \<noteq> [] \<Longrightarrow> 0 \<le> fst (os_pwrite os fd bs a w)"
begin

lemma to_device_ok:
  assumes "ready w" and "h2c_fd x = fd" and "length data < 2 ^ 64"
  shows "dma_to_device os x addr data (of_nat (length data)) w = Some (True, x, store addr data w)"
proof -
  have "\<not> refusal" unfolding refusal_def by (meson pwrite_accepts not_le)
  then show ?thesis using to_device [OF assms, of addr] by blast
qed

end

section \<open>Card to host\<close>

text \<open>
  \<open>same\<close> relates worlds that a read cannot tell apart: reading may change the world (a file
  offset, a statistic) but not what the channel delivers.
\<close>

locale c2h_channel =
  fixes os :: "'w posix" and fd :: int
    and ready :: "'w \<Rightarrow> bool"
    and fetch :: "u64 \<Rightarrow> nat \<Rightarrow> 'w \<Rightarrow> byte list"
    and same :: "'w \<Rightarrow> 'w \<Rightarrow> bool"
  assumes pread_result: "ready w \<Longrightarrow> 0 < c \<Longrightarrow> os_pread os fd c a w = ((n, bs), w') \<Longrightarrow>
      n < 0 \<and> length bs \<le> unat c \<or>
      0 < n \<and> nat n \<le> unat c \<and> bs = fetch a (nat n) w \<and> same w w'"
    and ready_same: "ready w \<Longrightarrow> same w w' \<Longrightarrow> ready w'"
    and fetch_same: "same w w' \<Longrightarrow> fetch a k w' = fetch a k w"
    and same_refl: "same w w"
    and same_trans: "same u v \<Longrightarrow> same v w \<Longrightarrow> same u w"
    and length_fetch: "length (fetch a k w) = k"
    and fetch_add: "fetch a (m + k) w = fetch a m w @ fetch (a + of_nat m) k w"
begin

definition refusal :: bool where
  "refusal \<longleftrightarrow> (\<exists>c a v. ready v \<and> 0 < c \<and> fst (fst (os_pread os fd c a v)) < 0)"

lemma from_device_loop:
  assumes "ready w" and "c2h_fd x = fd" and "length buf = i + unat remaining"
  shows "(\<exists>b m w'. dma_from_device_loop os x buf i addr remaining w = Some (False, b, set_error m x, w')
       \<and> length b = length buf \<and> refusal) \<or>
    (\<exists>w'. same w w' \<and> dma_from_device_loop os x buf i addr remaining w =
       Some (True, take i buf @ fetch addr (unat remaining) w, x, w'))"
  using assms
proof (induction "unat remaining" arbitrary: buf i addr remaining w rule: less_induct)
  case less
  show ?case
  proof (cases "remaining > 0")
    case False
    then have "remaining = 0" by (simp add: word_gt_0)
    moreover have "fetch addr 0 w = []" using length_fetch [of addr 0 w] by simp
    ultimately show ?thesis using less.prems
      by (subst (1 2) dma_from_device_loop.simps) (auto intro: same_refl)
  next
    case True
    let ?c = "if remaining < kDmaChunk then remaining else kDmaChunk"
    note cb = chunk_bounds [OF True]
    have c0: "0 < ?c" using cb(1) by (simp only: word_gt_0 unat_gt_0)
    obtain n bs w1 where pr: "os_pread os (c2h_fd x) ?c addr w = ((n, bs), w1)"
      by (metis prod.collapse)
    let ?buf = "overwrite buf i bs"
    have step: "dma_from_device_loop os x buf i addr remaining w =
       (if n < 0 then Some (False, ?buf, set_error (''DmaFromDevice @0x'' @ u64_string addr @ '': '' @ os_strerror os w1) x, w1)
        else dma_from_device_loop os x ?buf (i + nat n) (addr + word_of_int n) (remaining - word_of_int n) w1)"
      using True pr by (subst dma_from_device_loop.simps) (simp add: Let_def)
    have pr': "os_pread os fd ?c addr w = ((n, bs), w1)" using pr less.prems(2) by simp
    note law = pread_result [OF less.prems(1) c0 pr']
    have lbs: "length bs \<le> unat ?c" using law length_fetch by (auto split: if_splits)
    have lb: "length ?buf = length buf" using lbs cb(2) less.prems(3) by (intro length_overwrite) linarith
    show ?thesis
    proof (cases "n < 0")
      case True
      then have refusal using less.prems(1) c0 pr' unfolding refusal_def by (metis fst_conv)
      then show ?thesis using True step lb by auto
    next
      case False
      then have n: "0 < n" "nat n \<le> unat ?c" and bs: "bs = fetch addr (nat n) w" and sm: "same w w1"
        using law by auto
      have nr: "nat n \<le> unat remaining" using n(2) cb(2) by linarith
      have rem: "unat (remaining - word_of_int n) = unat remaining - nat n"
        using remaining_step [of n remaining] n(1) nr by simp
      have r1: "ready w1" using ready_same less.prems(1) sm by blast
      have tk: "take (i + nat n) ?buf = take i buf @ bs"
        using less.prems(3) by (simp add: overwrite_def bs length_fetch)
      have IH: "(\<exists>b m w'. dma_from_device_loop os x ?buf (i + nat n) (addr + word_of_int n) (remaining - word_of_int n) w1
            = Some (False, b, set_error m x, w') \<and> length b = length ?buf \<and> refusal) \<or>
          (\<exists>w'. same w1 w' \<and>
            dma_from_device_loop os x ?buf (i + nat n) (addr + word_of_int n) (remaining - word_of_int n) w1 =
            Some (True, take (i + nat n) ?buf @ fetch (addr + word_of_int n) (unat (remaining - word_of_int n)) w1, x, w'))"
        using n(1) nr rem lb less.prems by (intro less.hyps r1) auto
      have "fetch (addr + word_of_int n) (unat (remaining - word_of_int n)) w1 =
          fetch (addr + of_nat (nat n)) (unat remaining - nat n) w"
        by (simp only: rem fetch_same [OF sm]) (simp only: word_of_int_nat [OF less_imp_le [OF n(1)]])
      then have "take (i + nat n) ?buf @ fetch (addr + word_of_int n) (unat (remaining - word_of_int n)) w1 =
          take i buf @ fetch addr (nat n + (unat remaining - nat n)) w"
        by (simp only: tk) (simp only: bs fetch_add append_assoc)
      then have eq: "take (i + nat n) ?buf @ fetch (addr + word_of_int n) (unat (remaining - word_of_int n)) w1 =
          take i buf @ fetch addr (unat remaining) w"
        using nr by simp
      have st': "dma_from_device_loop os x buf i addr remaining w =
        dma_from_device_loop os x ?buf (i + nat n) (addr + word_of_int n) (remaining - word_of_int n) w1"
        using step False by simp
      show ?thesis
        using IH same_trans [OF sm] unfolding st' [symmetric] eq lb by metis
    qed
  qed
qed

lemma from_device:
  assumes "ready w" and "c2h_fd x = fd" and "length buf = unat nbytes"
  shows "(\<exists>b m w'. dma_from_device os x addr buf nbytes w = Some (False, b, set_error m x, w')
      \<and> length b = length buf \<and> refusal) \<or>
    (\<exists>w'. same w w' \<and> dma_from_device os x addr buf nbytes w = Some (True, fetch addr (unat nbytes) w, x, w'))"
  using from_device_loop [of w x buf 0 nbytes addr] assms by (simp add: dma_from_device_def)

end

locale reliable_c2h = c2h_channel +
  assumes pread_delivers: "ready w \<Longrightarrow> 0 < c \<Longrightarrow> 0 \<le> fst (fst (os_pread os fd c a w))"
begin

lemma from_device_ok:
  assumes "ready w" and "c2h_fd x = fd" and "length buf = unat nbytes"
  shows "\<exists>w'. same w w' \<and> dma_from_device os x addr buf nbytes w = Some (True, fetch addr (unat nbytes) w, x, w')"
proof -
  have "\<not> refusal" unfolding refusal_def by (meson pread_delivers not_le)
  then show ?thesis using from_device [OF assms, of addr] by blast
qed

end

end
