(* ===== verification/Host_Files.thy ===== *)
theory Host_Files
  imports Xdma_Transfer
begin

text \<open>
  \<^verbatim>\<open>ReadFile\<close> and \<^verbatim>\<open>WriteFile\<close> of \<^verbatim>\<open>driver/compaction_offload.cc\<close>. Both loops retry partial
  transfers and treat a result of 0 as an error, so, unlike the DMA loops, they always end
  when the kernel never reports more bytes than it was asked for. The laws of \<^verbatim>\<open>read\<close> and
  \<^verbatim>\<open>write\<close> on a regular file are two more interfaces.
\<close>

section \<open>ReadFile\<close>

partial_function (option) read_loop ::
  "'w posix \<Rightarrow> string \<Rightarrow> int \<Rightarrow> byte list \<Rightarrow> nat \<Rightarrow> u64 \<Rightarrow> 'w \<Rightarrow> (status \<times> byte list \<times> 'w) option" where
  "read_loop os path fd buf i remaining w =
     (if remaining > 0
      then
        (let ((n, bs), w') = os_read os fd remaining w;
             buf' = overwrite buf i bs
         in if n \<le> 0
            then (let w'' = os_close os fd w'
                  in Some (IOError (path @ '' read: '' @ os_strerror os w''), buf', w''))
            else read_loop os path fd buf' (i + nat n) (remaining - word_of_int n) w')
      else Some (OK, buf, os_close os fd w))"

definition read_file :: "'w posix \<Rightarrow> string \<Rightarrow> 'w \<Rightarrow> (status \<times> byte list \<times> 'w) option" where
  "read_file os path w =
     (let (fd, w1) = os_open os path O_RDONLY w
      in if fd < 0 then Some (IOError (path @ '': '' @ os_strerror os w1), [], w1)
         else
           (let ((rc, st_size), w2) = os_fstat os fd w1
            in if rc < 0
               then (let w3 = os_close os fd w2
                     in Some (IOError (path @ '' fstat: '' @ os_strerror os w3), [], w3))
               else read_loop os path fd (replicate (unat st_size) 0) 0 st_size w2))"

section \<open>WriteFile\<close>

partial_function (option) write_loop ::
  "'w posix \<Rightarrow> string \<Rightarrow> int \<Rightarrow> byte list \<Rightarrow> u64 \<Rightarrow> 'w \<Rightarrow> (status \<times> 'w) option" where
  "write_loop os path fd p remaining w =
     (if remaining > 0
      then
        (let (n, w') = os_write os fd (take (unat remaining) p) w
         in if n \<le> 0
            then (let w'' = os_close os fd w'
                  in Some (IOError (path @ '' write: '' @ os_strerror os w''), w''))
            else write_loop os path fd (drop (nat n) p) (remaining - word_of_int n) w')
      else Some (OK, w))"

definition write_file :: "'w posix \<Rightarrow> string \<Rightarrow> byte list \<Rightarrow> u64 \<Rightarrow> 'w \<Rightarrow> (status \<times> 'w) option" where
  "write_file os path data nbytes w =
     (let (fd, w1) = os_open os path (O_WRONLY_CREAT_TRUNC 420) w
      in if fd < 0 then Some (IOError (path @ '': '' @ os_strerror os w1), w1)
         else
           (case write_loop os path fd data nbytes w1 of
              None \<Rightarrow> None
            | Some (s, w2) \<Rightarrow>
                if s \<noteq> OK then Some (s, w2)
                else
                  (let (rc, w3) = os_fsync os fd w2
                   in if rc < 0
                      then (let w4 = os_close os fd w3
                            in Some (IOError (path @ '' fsync: '' @ os_strerror os w4), w4))
                      else Some (OK, os_close os fd w3))))"

section \<open>The loops end\<close>

lemma read_loop_returns:
  assumes sane: "\<And>c v. fst (fst (os_read os fd c v)) \<le> int (unat c)"
  shows "\<exists>r. read_loop os path fd buf i remaining w = Some r"
proof (induction "unat remaining" arbitrary: buf i remaining w rule: less_induct)
  case less
  obtain n bs w1 where r: "os_read os fd remaining w = ((n, bs), w1)" by (metis prod.collapse)
  show ?case
  proof (cases "remaining > 0 \<and> 0 < n")
    case True
    have n: "nat n \<le> unat remaining" using sane [of remaining w] r True by (simp add: nat_le_iff)
    then have "unat (remaining - word_of_int n) = unat remaining - nat n"
      using True by (intro remaining_step) auto
    then have "unat (remaining - word_of_int n) < unat remaining"
      using True n by linarith
    from less [OF this] obtain res where
      "read_loop os path fd (overwrite buf i bs) (i + nat n) (remaining - word_of_int n) w1 = Some res" by blast
    then show ?thesis using True r by (subst read_loop.simps) (simp add: Let_def del: split_paired_Ex)
  next
    case False
    then show ?thesis using r by (subst read_loop.simps) (auto simp: Let_def)
  qed
qed

lemma write_loop_returns:
  assumes sane: "\<And>bs v. fst (os_write os fd bs v) \<le> int (length bs)"
  shows "\<exists>r. write_loop os path fd p remaining w = Some r"
proof (induction "unat remaining" arbitrary: p remaining w rule: less_induct)
  case less
  obtain n w1 where r: "os_write os fd (take (unat remaining) p) w = (n, w1)" by fastforce
  show ?case
  proof (cases "remaining > 0 \<and> 0 < n")
    case True
    have "nat n \<le> length (take (unat remaining) p)"
      using sane [of "take (unat remaining) p" w] r by (simp add: nat_le_iff del: length_take)
    then have n: "nat n \<le> unat remaining" by simp
    then have "unat (remaining - word_of_int n) = unat remaining - nat n"
      using True by (intro remaining_step) auto
    then have "unat (remaining - word_of_int n) < unat remaining"
      using True n by linarith
    from less [OF this] obtain res where
      "write_loop os path fd (drop (nat n) p) (remaining - word_of_int n) w1 = Some res" by blast
    then show ?thesis using True r by (subst write_loop.simps) (simp add: Let_def del: split_paired_Ex)
  next
    case False
    then show ?thesis using r by (subst write_loop.simps) (auto simp: Let_def)
  qed
qed

section \<open>Reading through a descriptor\<close>

text \<open>
  \<open>rest\<close> is what the file holds from the descriptor's offset on, \<open>advance\<close> moves the offset.
\<close>

locale file_reader =
  fixes os :: "'w posix" and fd :: int
    and ready :: "'w \<Rightarrow> bool"
    and rest :: "'w \<Rightarrow> byte list"
    and advance :: "nat \<Rightarrow> 'w \<Rightarrow> 'w"
  assumes read_result: "ready w \<Longrightarrow> 0 < c \<Longrightarrow> os_read os fd c w = ((n, bs), w') \<Longrightarrow>
      n \<le> int (unat c) \<and> length bs \<le> unat c \<and>
      (0 < n \<longrightarrow> nat n \<le> length (rest w) \<and> bs = take (nat n) (rest w) \<and> w' = advance (nat n) w)"
    and ready_advance: "ready w \<Longrightarrow> ready (advance k w)"
    and rest_advance: "ready w \<Longrightarrow> rest (advance k w) = drop k (rest w)"
    and advance_0: "ready w \<Longrightarrow> advance 0 w = w"
    and advance_advance: "ready w \<Longrightarrow> advance k (advance m w) = advance (m + k) w"
begin

lemma read_loop_cases:
  assumes "ready w" and "length buf = i + unat remaining"
  shows "(\<exists>m b v. read_loop os path fd buf i remaining w = Some (IOError m, b, os_close os fd v)) \<or>
    unat remaining \<le> length (rest w) \<and>
    read_loop os path fd buf i remaining w =
      Some (OK, take i buf @ take (unat remaining) (rest w), os_close os fd (advance (unat remaining) w))"
  using assms
proof (induction "unat remaining" arbitrary: buf i remaining w rule: less_induct)
  case less
  obtain n bs w1 where r: "os_read os fd remaining w = ((n, bs), w1)" by (metis prod.collapse)
  show ?case
  proof (cases "remaining > 0")
    case False
    then have "remaining = 0" by (simp add: word_gt_0)
    then show ?thesis using less.prems by (subst (1 2) read_loop.simps) (simp add: advance_0)
  next
    case pos: True
    note law = read_result [OF less.prems(1) pos r]
    show ?thesis
    proof (cases "0 < n")
      case False
      then show ?thesis using r pos by (subst (1 2) read_loop.simps) (auto simp: Let_def)
    next
      case True
      let ?rem = "remaining - word_of_int n" and ?buf = "overwrite buf i bs"
      have st: "read_loop os path fd buf i remaining w =
          read_loop os path fd ?buf (i + nat n) ?rem w1"
        using pos True r by (subst read_loop.simps) (simp add: Let_def)
      have nr: "nat n \<le> unat remaining" and nl: "nat n \<le> length (rest w)"
        and bs: "bs = take (nat n) (rest w)" and w1: "w1 = advance (nat n) w"
        using law True by auto
      have rem: "unat ?rem = unat remaining - nat n"
        using remaining_step [of n remaining] True nr by simp
      have lbs: "length bs = nat n" using bs nl by simp
      have lb: "length ?buf = (i + nat n) + unat ?rem"
        using lbs less.prems(2) nr rem by (subst length_overwrite) auto
      have tk: "take (i + nat n) ?buf = take i buf @ bs"
        using less.prems(2) lbs by (simp add: overwrite_def)
      have rd: "ready w1" and rs: "rest w1 = drop (nat n) (rest w)"
        and ad: "advance (unat ?rem) w1 = advance (unat remaining) w"
        using w1 less.prems(1) ready_advance rest_advance advance_advance nr by (simp_all add: rem)
      have lt: "unat ?rem < unat remaining" using rem True nr by linarith
      have app: "take i buf @ bs @ take (unat ?rem) (rest w1) = take i buf @ take (unat remaining) (rest w)"
        unfolding bs rs rem using nr by (metis le_add_diff_inverse take_add)
      have le: "unat ?rem \<le> length (rest w1) \<longleftrightarrow> unat remaining \<le> length (rest w)"
        using rs rem nr nl by (simp add: le_diff_conv)
      from less.hyps [OF lt rd lb] show ?thesis
        unfolding st tk ad append_assoc app le .
    qed
  qed
qed

end

text \<open>A reader that delivers something as long as something is left.\<close>

locale reliable_reader = file_reader +
  assumes read_delivers: "ready w \<Longrightarrow> 0 < c \<Longrightarrow> rest w \<noteq> [] \<Longrightarrow> 0 < fst (fst (os_read os fd c w))"
begin

lemma read_loop_ok:
  assumes "ready w" and "length buf = i + unat remaining" and "unat remaining \<le> length (rest w)"
  shows "read_loop os path fd buf i remaining w =
      Some (OK, take i buf @ take (unat remaining) (rest w), os_close os fd (advance (unat remaining) w))"
  using assms
proof (induction "unat remaining" arbitrary: buf i remaining w rule: less_induct)
  case less
  obtain n bs w1 where r: "os_read os fd remaining w = ((n, bs), w1)" by (metis prod.collapse)
  show ?case
  proof (cases "remaining > 0")
    case False
    then have "remaining = 0" by (simp add: word_gt_0)
    then show ?thesis using less.prems by (subst read_loop.simps) (simp add: advance_0)
  next
    case pos: True
    then have "0 < unat remaining" by (simp add: word_gt_0 unat_gt_0)
    then have "rest w \<noteq> []" using less.prems(3) by auto
    from read_delivers [OF less.prems(1) pos this] r have n: "0 < n" by simp
    note law = read_result [OF less.prems(1) pos r]
    let ?rem = "remaining - word_of_int n" and ?buf = "overwrite buf i bs"
    have st: "read_loop os path fd buf i remaining w = read_loop os path fd ?buf (i + nat n) ?rem w1"
      using pos n r by (subst read_loop.simps) (simp add: Let_def)
    have nr: "nat n \<le> unat remaining" and nl: "nat n \<le> length (rest w)"
      and bs: "bs = take (nat n) (rest w)" and w1: "w1 = advance (nat n) w"
      using law n by auto
    have rem: "unat ?rem = unat remaining - nat n"
      using remaining_step [of n remaining] n nr by simp
    have lt: "unat ?rem < unat remaining" using rem n nr by linarith
    have rd: "ready w1" and rs: "rest w1 = drop (nat n) (rest w)"
      using w1 less.prems(1) ready_advance rest_advance by simp_all
    have lb: "length ?buf = (i + nat n) + unat ?rem"
      using bs nl less.prems(2) nr rem by (subst length_overwrite) auto
    have le: "unat ?rem \<le> length (rest w1)" using rs rem less.prems(3) by simp
    obtain res where ok: "read_loop os path fd ?buf (i + nat n) ?rem w1 = Some (OK, res)"
      using less.hyps [OF lt rd lb le] by blast
    then show ?thesis using read_loop_cases [OF less.prems(1,2), of path] st by auto
  qed
qed

end

section \<open>Writing through a descriptor\<close>

locale file_writer =
  fixes os :: "'w posix" and fd :: int
    and ready :: "'w \<Rightarrow> bool"
    and append :: "byte list \<Rightarrow> 'w \<Rightarrow> 'w"
  assumes write_result: "ready w \<Longrightarrow> bs \<noteq> [] \<Longrightarrow> os_write os fd bs w = (n, w') \<Longrightarrow>
      n \<le> int (length bs) \<and> (0 < n \<longrightarrow> w' = append (take (nat n) bs) w)"
    and ready_append: "ready w \<Longrightarrow> ready (append bs w)"
    and append_Nil: "ready w \<Longrightarrow> append [] w = w"
    and append_append: "ready w \<Longrightarrow> append cs (append bs w) = append (bs @ cs) w"
begin

text \<open>
  The loop writes everything, or stops at a refused call after some proper prefix.
\<close>

lemma write_loop_cases:
  assumes "ready w" and "unat remaining \<le> length p"
  shows "(\<exists>m k v. k < unat remaining \<and>
        fst (os_write os fd (take (unat remaining - k) (drop k p)) (append (take k p) w)) \<le> 0 \<and>
        v = snd (os_write os fd (take (unat remaining - k) (drop k p)) (append (take k p) w)) \<and>
        write_loop os path fd p remaining w = Some (IOError m, os_close os fd v)) \<or>
    write_loop os path fd p remaining w = Some (OK, append (take (unat remaining) p) w)"
  using assms
proof (induction "unat remaining" arbitrary: p remaining w rule: less_induct)
  case less
  obtain n w1 where r: "os_write os fd (take (unat remaining) p) w = (n, w1)" by fastforce
  show ?case
  proof (cases "remaining > 0")
    case False
    then have "remaining = 0" by (simp add: word_gt_0)
    then show ?thesis using less.prems by (subst (1 2) write_loop.simps) (simp add: append_Nil)
  next
    case pos: True
    then have p0: "0 < unat remaining" by (simp add: word_gt_0 unat_gt_0)
    then have ne: "take (unat remaining) p \<noteq> []" using less.prems(2) by auto
    note law = write_result [OF less.prems(1) ne r]
    show ?thesis
    proof (cases "0 < n")
      case False
      have "write_loop os path fd p remaining w =
          Some (IOError (path @ '' write: '' @ os_strerror os (os_close os fd w1)), os_close os fd w1)"
        using False r pos by (subst write_loop.simps) (simp add: Let_def)
      moreover have "append (take 0 p) w = w" using append_Nil less.prems(1) by simp
      ultimately show ?thesis using False r p0
        by (intro disjI1 exI [of _ _] exI [of _ 0] exI [of _ w1]) auto
    next
      case True
      let ?rem = "remaining - word_of_int n" and ?p = "drop (nat n) p"
      have st: "write_loop os path fd p remaining w = write_loop os path fd ?p ?rem w1"
        using pos True r by (subst write_loop.simps) (simp add: Let_def)
      have nr: "nat n \<le> unat remaining" using law less.prems(2) by (simp add: nat_le_iff)
      have w1: "w1 = append (take (nat n) p) w" using law True nr by (simp add: min_def)
      have rem: "unat ?rem = unat remaining - nat n"
        using remaining_step [of n remaining] True nr by simp
      have lt: "unat ?rem < unat remaining" using rem True nr by linarith
      have rd: "ready w1" using w1 ready_append less.prems(1) by simp
      have le: "unat ?rem \<le> length ?p" using rem less.prems(2) nr by simp
      have app: "append (take k ?p) w1 = append (take (nat n + k) p) w" for k
        using append_append [OF less.prems(1)] by (simp add: w1 take_add)
      have rest: "take (unat ?rem - k) (drop k ?p) = take (unat remaining - (nat n + k)) (drop (nat n + k) p)" for k
        by (simp add: rem add.commute)
      have full: "append (take (nat n + unat ?rem) p) w = append (take (unat remaining) p) w"
        using rem nr by simp
      have lk: "k < unat ?rem \<Longrightarrow> nat n + k < unat remaining" for k using rem by simp
      show ?thesis
        using less.hyps [OF lt rd le, unfolded app rest] lk unfolding full st by blast
    qed
  qed
qed

end

locale reliable_writer = file_writer +
  assumes write_accepts: "ready w \<Longrightarrow> bs \<noteq> [] \<Longrightarrow> 0 < fst (os_write os fd bs w)"
begin

lemma write_loop_ok:
  assumes "ready w" and "unat remaining \<le> length p"
  shows "write_loop os path fd p remaining w = Some (OK, append (take (unat remaining) p) w)"
proof -
  have "0 < fst (os_write os fd (take (unat remaining - k) (drop k p)) (append (take k p) w))"
    if "k < unat remaining" for k
    using that assms by (intro write_accepts ready_append) auto
  then show ?thesis using write_loop_cases [OF assms, of path] by (metis not_less)
qed

end

end
