(* ===== verification/Ddr_Memory.thy ===== *)
theory Ddr_Memory
  imports Offload_Prelude
begin

text \<open>
  The card's DDR as the two sides see it: a byte per 64-bit address. Writing and reading a range
  wraps at the end of the address space, as the address arithmetic of the code does.
\<close>

type_synonym ddr = "u64 \<Rightarrow> byte"

fun mem_write :: "ddr \<Rightarrow> u64 \<Rightarrow> byte list \<Rightarrow> ddr" where
  "mem_write m a [] = m"
| "mem_write m a (b # bs) = mem_write (m(a := b)) (a + 1) bs"

definition mem_read :: "ddr \<Rightarrow> u64 \<Rightarrow> nat \<Rightarrow> byte list" where
  "mem_read m a n = map (\<lambda>i. m (a + of_nat i)) [0..<n]"

lemma mem_write_append:
  "mem_write m a (bs @ cs) = mem_write (mem_write m a bs) (a + of_nat (length bs)) cs"
  by (induction bs arbitrary: m a) (simp_all add: ac_simps)

lemma length_mem_read [simp]: "length (mem_read m a n) = n"
  by (simp add: mem_read_def)

lemma mem_read_add: "mem_read m a (i + j) = mem_read m a i @ mem_read m (a + of_nat i) j"
  by (induction j) (simp_all add: mem_read_def ac_simps)

lemma mem_read_0 [simp]: "mem_read m a 0 = []"
  by (simp add: mem_read_def)

lemma mem_write_outside:
  "(\<And>i. i < length bs \<Longrightarrow> a + of_nat i \<noteq> b) \<Longrightarrow> mem_write m a bs b = m b"
proof (induction bs arbitrary: m a)
  case Nil
  then show ?case by simp
next
  case (Cons c cs)
  have "a + 1 + of_nat i \<noteq> b" if "i < length cs" for i
    using Cons.prems [of "Suc i"] that by (simp add: ac_simps)
  moreover have "a \<noteq> b" using Cons.prems [of 0] by simp
  ultimately show ?case using Cons.IH by simp
qed

lemma offset_inj:
  assumes "(a :: u64) + of_nat i = a + of_nat j" and "i < 2 ^ 64" and "j < 2 ^ 64"
  shows "i = j"
  using assms by (metis add_left_cancel unat_of_nat64)

lemma mem_write_inside:
  "i < length bs \<Longrightarrow> length bs \<le> 2 ^ 64 \<Longrightarrow> mem_write m a bs (a + of_nat i) = bs ! i"
proof (induction bs arbitrary: m a i)
  case Nil
  then show ?case by simp
next
  case (Cons c cs)
  show ?case
  proof (cases i)
    case 0
    have "a + 1 + of_nat k \<noteq> a" if "k < length cs" for k
      using offset_inj [of a "Suc k" 0] that Cons.prems(2) by (auto simp: ac_simps)
    then show ?thesis using 0 by (simp add: mem_write_outside)
  next
    case (Suc k)
    have "mem_write (m(a := c)) (a + 1) cs ((a + 1) + of_nat k) = cs ! k"
      using Cons.prems Suc by (intro Cons.IH) auto
    then show ?thesis by (simp add: Suc ac_simps)
  qed
qed

lemma mem_read_mem_write:
  "length bs \<le> 2 ^ 64 \<Longrightarrow> mem_read (mem_write m a bs) a (length bs) = bs"
  by (rule nth_equalityI) (auto simp: mem_read_def mem_write_inside)

text \<open>Two ranges of the address space with no byte in common.\<close>

definition disjoint_ranges :: "u64 \<Rightarrow> nat \<Rightarrow> u64 \<Rightarrow> nat \<Rightarrow> bool" where
  "disjoint_ranges a m b n \<longleftrightarrow> (\<forall>i<m. \<forall>j<n. a + of_nat i \<noteq> b + of_nat j)"

lemma mem_read_mem_write_disjoint:
  "disjoint_ranges a (length bs) b n \<Longrightarrow> mem_read (mem_write m a bs) b n = mem_read m b n"
  unfolding mem_read_def disjoint_ranges_def by (intro map_cong refl mem_write_outside) auto

lemma disjoint_rangesI:
  assumes "unat a + m \<le> unat b" and "unat b + n \<le> 2 ^ 64"
  shows "disjoint_ranges a m b n" and "disjoint_ranges b n a m"
proof -
  have "a + of_nat i \<noteq> b + of_nat j" if "i < m" "j < n" for i j
  proof -
    have "unat (a + of_nat i) = unat a + i"
      using that assms by (simp add: unat_word_ariths unat_of_nat mod_add_right_eq)
    moreover have "unat (b + of_nat j) = unat b + j"
      using that assms by (simp add: unat_word_ariths unat_of_nat mod_add_right_eq)
    ultimately show ?thesis using that assms by auto
  qed
  then show "disjoint_ranges a m b n" and "disjoint_ranges b n a m"
    unfolding disjoint_ranges_def by (blast, metis)
qed

end
