(* ===== verification/Axil_Registers.thy ===== *)
theory Axil_Registers
  imports Offload_Prelude
begin

text \<open>
  The AXI-Lite register file of \<^verbatim>\<open>organized/rtl_v2/cmpct_top.v\<close>: the ten shadow registers, the
  write and read decode, and the edge detection that turns a write of CTRL into a start or a clear
  pulse. One definition step is one complete bus transaction (all four byte strobes set, as a
  4-byte host write gives) followed by enough clock cycles for the delayed copies to settle.
\<close>

record axil_regs =
  r_ctrl :: u32
  r_done :: bool
  r_error :: bool
  r_src0_base :: u64
  r_src0_size :: u32
  r_src1_base :: u64
  r_src1_size :: u32
  r_dst_base :: u64
  r_dst_stride :: u32
  r_mid_base :: u64
  r_max_file_size :: u32

definition reset_regs :: axil_regs where
  "reset_regs = \<lparr>r_ctrl = 0, r_done = False, r_error = False, r_src0_base = 0, r_src0_size = 0,
     r_src1_base = 0, r_src1_size = 0, r_dst_base = 0, r_dst_stride = 0, r_mid_base = 0,
     r_max_file_size = 0\<rparr>"

text \<open>Writing one half of a 64-bit register.\<close>

definition set_lo :: "u64 \<Rightarrow> u32 \<Rightarrow> u64" where
  "set_lo r v = (r AND 0xFFFFFFFF00000000) OR ucast v"

definition set_hi :: "u64 \<Rightarrow> u32 \<Rightarrow> u64" where
  "set_hi r v = (r AND 0xFFFFFFFF) OR push_bit 32 (ucast v)"

definition get_lo :: "u64 \<Rightarrow> u32" where "get_lo r = ucast r"
definition get_hi :: "u64 \<Rightarrow> u32" where "get_hi r = ucast (drop_bit 32 r)"

definition axil_write :: "u32 \<Rightarrow> u32 \<Rightarrow> axil_regs \<Rightarrow> axil_regs" where
  "axil_write addr v r =
     (if addr = 0x0000 then r\<lparr>r_ctrl := v\<rparr>
      else if addr = 0x0008 then r\<lparr>r_src0_base := set_lo (r_src0_base r) v\<rparr>
      else if addr = 0x000C then r\<lparr>r_src0_base := set_hi (r_src0_base r) v\<rparr>
      else if addr = 0x0010 then r\<lparr>r_src0_size := v\<rparr>
      else if addr = 0x0014 then r\<lparr>r_src1_base := set_lo (r_src1_base r) v\<rparr>
      else if addr = 0x0018 then r\<lparr>r_src1_base := set_hi (r_src1_base r) v\<rparr>
      else if addr = 0x001C then r\<lparr>r_src1_size := v\<rparr>
      else if addr = 0x0020 then r\<lparr>r_dst_base := set_lo (r_dst_base r) v\<rparr>
      else if addr = 0x0024 then r\<lparr>r_dst_base := set_hi (r_dst_base r) v\<rparr>
      else if addr = 0x0028 then r\<lparr>r_dst_stride := v\<rparr>
      else if addr = 0x002C then r\<lparr>r_mid_base := set_lo (r_mid_base r) v\<rparr>
      else if addr = 0x0030 then r\<lparr>r_mid_base := set_hi (r_mid_base r) v\<rparr>
      else if addr = 0x0038 then r\<lparr>r_max_file_size := v\<rparr>
      else r)"

text \<open>\<^verbatim>\<open>r_ctrl[k] & ~ctrl_d\<close>: a pulse needs a rising edge of the control bit.\<close>

definition start_pulse :: "axil_regs \<Rightarrow> axil_regs \<Rightarrow> bool" where
  "start_pulse old new \<longleftrightarrow> bit (r_ctrl new) 0 \<and> \<not> bit (r_ctrl old) 0"

definition clear_pulse :: "axil_regs \<Rightarrow> axil_regs \<Rightarrow> bool" where
  "clear_pulse old new \<longleftrightarrow> bit (r_ctrl new) 1 \<and> \<not> bit (r_ctrl old) 1"

text \<open>Either pulse resets the latched DONE and ERROR bits.\<close>

definition pulse_status :: "axil_regs \<Rightarrow> axil_regs \<Rightarrow> axil_regs" where
  "pulse_status old new =
     (if start_pulse old new \<or> clear_pulse old new
      then new\<lparr>r_done := False, r_error := False\<rparr> else new)"

definition status_word :: "bool \<Rightarrow> axil_regs \<Rightarrow> u32" where
  "status_word busy r = of_bool busy OR (of_bool (r_done r) * 2) OR (of_bool (r_error r) * 4)"

text \<open>
  The read decode: the configuration shadows, STATUS, and the result registers the host driver
  reads (\<open>sizes\<close> is the engine's vector of SSTable sizes, \<open>count\<close> its length). The statistics
  of the engine (block pair count, byte and entry totals, cycle count and the per-block sizes from
  0x0100 on) are whatever the engine's counters hold: a parameter, by address.
\<close>

definition is_counter :: "u32 \<Rightarrow> bool" where
  "is_counter addr \<longleftrightarrow> 0x0100 \<le> addr \<and> addr < 0x0100 + 32 * 4 \<or>
     addr \<in> set [0x0034, 0x0040, 0x0044, 0x0048, 0x004C, 0x0050, 0x0054, 0x0058, 0x005C,
                  0x0060, 0x0064, 0x0068, 0x006C, 0x0070]"

definition axil_read ::
  "(u32 \<Rightarrow> u32) \<Rightarrow> bool \<Rightarrow> u32 \<Rightarrow> u32 list \<Rightarrow> axil_regs \<Rightarrow> u32 \<Rightarrow> u32" where
  "axil_read counters busy count sizes r addr =
     (if 0x0500 \<le> addr \<and> addr < 0x0500 + 64
      then (let i = unat (drop_bit 2 (addr - 0x0500)) in if i < length sizes then sizes ! i else 0)
      else if addr = 0x0000 then r_ctrl r
      else if addr = 0x0004 then status_word busy r
      else if addr = 0x0008 then get_lo (r_src0_base r)
      else if addr = 0x000C then get_hi (r_src0_base r)
      else if addr = 0x0010 then r_src0_size r
      else if addr = 0x0014 then get_lo (r_src1_base r)
      else if addr = 0x0018 then get_hi (r_src1_base r)
      else if addr = 0x001C then r_src1_size r
      else if addr = 0x0020 then get_lo (r_dst_base r)
      else if addr = 0x0024 then get_hi (r_dst_base r)
      else if addr = 0x0028 then r_dst_stride r
      else if addr = 0x002C then get_lo (r_mid_base r)
      else if addr = 0x0030 then get_hi (r_mid_base r)
      else if addr = 0x0038 then r_max_file_size r
      else if addr = 0x003C then count
      else if is_counter addr then counters addr
      else 0)"

lemma low_half_mask: "(0xFFFFFFFF :: u64) = mask 32"
  by (simp add: mask_eq_exp_minus_1)

lemma high_half_mask: "(0xFFFFFFFF00000000 :: u64) = NOT (mask 32)"
  by (simp add: mask_eq_exp_minus_1)

text \<open>Writing the low half, then the high half, gives the 64-bit value.\<close>

lemma set_hi_set_lo: "set_hi (set_lo r (get_lo a)) (get_hi a) = a"
  unfolding set_hi_def set_lo_def get_lo_def get_hi_def
  unfolding low_half_mask high_half_mask
  by (rule bit_word_eqI) (auto simp: bit_simps)

end
