(* ===== verification/Card_Model.thy ===== *)
theory Card_Model
  imports Host_Files Ddr_Memory Axil_Registers
begin

text \<open>
  A host with the card plugged in: the world on which the driver's interfaces are interpreted. The
  XDMA device files behave as \<^verbatim>\<open>driver/xdma_access.h\<close> documents (H2C and C2H address the DDR, the
  user file the registers), the registers are those of \<^verbatim>\<open>cmpct_top.v\<close>, and the compaction
  engine is a parameter: a function from the programmed registers and the DDR at the moment of the
  start pulse to a latency and a result. The model has the imperfections the driver has to cope with:
  transfers may be partial (\<open>c_xfer\<close>, 0 for a dead channel), the register file may refuse writes or
  reads, and the disk may be full.
\<close>

section \<open>The world\<close>

datatype dev = DevH2C | DevC2H | DevUser
datatype ofd = DevFd dev | FileFd string nat

record engine_result =
  er_latency :: nat
  er_error :: bool
  er_ddr :: ddr
  er_count :: u32
  er_sizes :: "u32 list"
  er_counters :: "u32 \<Rightarrow> u32"

type_synonym engine = "axil_regs \<Rightarrow> ddr \<Rightarrow> engine_result"

record card =
  c_files :: "string \<Rightarrow> byte list option"
  c_devs :: "string \<Rightarrow> dev option"
  c_fds :: "int \<Rightarrow> ofd option"
  c_next :: int
  c_ddr :: ddr
  c_regs :: axil_regs
  c_count :: u32
  c_sizes :: "u32 list"
  c_counters :: "u32 \<Rightarrow> u32"
  c_pending :: "(nat \<times> engine_result) option"
  c_clock :: nat
  c_xfer :: nat
  c_bar_wr :: bool
  c_bar_rd :: bool
  c_disk :: "nat option"
  c_errno :: string

section \<open>Registers and engine\<close>

definition card_reg_write :: "engine \<Rightarrow> u32 \<Rightarrow> u32 \<Rightarrow> card \<Rightarrow> card" where
  "card_reg_write eng addr v w =
     (let new = axil_write addr v (c_regs w);
          regs = pulse_status (c_regs w) new;
          w1 = w\<lparr>c_regs := regs\<rparr>;
          w2 = (if clear_pulse (c_regs w) new
                then w1\<lparr>c_pending := None, c_count := 0, c_sizes := []\<rparr> else w1);
          res = eng regs (c_ddr w2)
      in if start_pulse (c_regs w) new \<and> c_pending w2 = None
         then w2\<lparr>c_count := 0, c_sizes := [], c_pending := Some (c_clock w2 + er_latency res, res)\<rparr>
         else w2)"

definition card_reg_read :: "card \<Rightarrow> u32 \<Rightarrow> u32" where
  "card_reg_read w addr = axil_read (c_counters w) (c_pending w \<noteq> None) (c_count w) (c_sizes w) (c_regs w) addr"

definition card_settle :: "card \<Rightarrow> card" where
  "card_settle w =
     (case c_pending w of
        None \<Rightarrow> w
      | Some (t, res) \<Rightarrow>
          if t \<le> c_clock w
          then w\<lparr>c_pending := None, c_ddr := er_ddr res, c_count := er_count res, c_sizes := er_sizes res,
                 c_counters := er_counters res,
                 c_regs := (c_regs w)\<lparr>r_done := \<not> er_error res, r_error := er_error res\<rparr>\<rparr>
          else w)"

section \<open>System calls\<close>

definition card_alloc :: "ofd \<Rightarrow> card \<Rightarrow> int \<times> card" where
  "card_alloc f w = (c_next w, w\<lparr>c_fds := (c_fds w)(c_next w := Some f), c_next := c_next w + 1\<rparr>)"

definition card_open :: "string \<Rightarrow> open_flags \<Rightarrow> card \<Rightarrow> int \<times> card" where
  "card_open path flags w =
     (case c_devs w path of
        Some d \<Rightarrow> card_alloc (DevFd d) w
      | None \<Rightarrow>
          (case flags of
             O_WRONLY_CREAT_TRUNC m \<Rightarrow>
               card_alloc (FileFd path 0) (w\<lparr>c_files := (c_files w)(path := Some [])\<rparr>)
           | _ \<Rightarrow>
               if c_files w path = None then (-1, w\<lparr>c_errno := ''No such file or directory''\<rparr>)
               else card_alloc (FileFd path 0) w))"

definition card_close :: "int \<Rightarrow> card \<Rightarrow> card" where
  "card_close fd w = w\<lparr>c_fds := (c_fds w)(fd := None)\<rparr>"

definition card_fail :: "string \<Rightarrow> card \<Rightarrow> int \<times> card" where
  "card_fail e w = (-1, w\<lparr>c_errno := e\<rparr>)"

definition card_pwrite :: "engine \<Rightarrow> int \<Rightarrow> byte list \<Rightarrow> u64 \<Rightarrow> card \<Rightarrow> int \<times> card" where
  "card_pwrite eng fd bs off w =
     (case c_fds w fd of
        Some (DevFd DevH2C) \<Rightarrow>
          (int (min (length bs) (c_xfer w)),
           w\<lparr>c_ddr := mem_write (c_ddr w) off (take (min (length bs) (c_xfer w)) bs)\<rparr>)
      | Some (DevFd DevUser) \<Rightarrow>
          if c_bar_wr w \<and> length bs = 4 then (4, card_reg_write eng (ucast off) (of_le32 bs) w)
          else card_fail ''Input/output error'' w
      | _ \<Rightarrow> card_fail ''Bad file descriptor'' w)"

definition card_pread :: "int \<Rightarrow> u64 \<Rightarrow> u64 \<Rightarrow> card \<Rightarrow> (int \<times> byte list) \<times> card" where
  "card_pread fd cnt off w =
     (case c_fds w fd of
        Some (DevFd DevC2H) \<Rightarrow>
          ((int (min (unat cnt) (c_xfer w)), mem_read (c_ddr w) off (min (unat cnt) (c_xfer w))), w)
      | Some (DevFd DevUser) \<Rightarrow>
          if c_bar_rd w \<and> cnt = 4 then ((4, le32 (card_reg_read w (ucast off))), w)
          else ((-1, []), w\<lparr>c_errno := ''Input/output error''\<rparr>)
      | _ \<Rightarrow> ((-1, []), w\<lparr>c_errno := ''Bad file descriptor''\<rparr>))"

definition card_read :: "int \<Rightarrow> u64 \<Rightarrow> card \<Rightarrow> (int \<times> byte list) \<times> card" where
  "card_read fd cnt w =
     (case c_fds w fd of
        Some (FileFd path pos) \<Rightarrow>
          (case c_files w path of
             Some d \<Rightarrow>
               (let bs = take (unat cnt) (drop pos d)
                in ((int (length bs), bs), w\<lparr>c_fds := (c_fds w)(fd := Some (FileFd path (pos + length bs)))\<rparr>))
           | None \<Rightarrow> ((-1, []), w\<lparr>c_errno := ''Input/output error''\<rparr>))
      | _ \<Rightarrow> ((-1, []), w\<lparr>c_errno := ''Bad file descriptor''\<rparr>))"

definition card_put :: "int \<Rightarrow> byte list \<Rightarrow> card \<Rightarrow> card" where
  "card_put fd bs w =
     (case c_fds w fd of
        Some (FileFd path pos) \<Rightarrow>
          w\<lparr>c_files := (c_files w)(path := map_option (\<lambda>d. overwrite d pos bs) (c_files w path)),
            c_fds := (c_fds w)(fd := Some (FileFd path (pos + length bs))),
            c_disk := map_option (\<lambda>n. n - length bs) (c_disk w)\<rparr>
      | _ \<Rightarrow> w)"

definition card_write :: "int \<Rightarrow> byte list \<Rightarrow> card \<Rightarrow> int \<times> card" where
  "card_write fd bs w =
     (case c_fds w fd of
        Some (FileFd path pos) \<Rightarrow>
          (let k = (case c_disk w of None \<Rightarrow> length bs | Some n \<Rightarrow> min (length bs) n)
           in if k = 0 \<and> bs \<noteq> [] then card_fail ''No space left on device'' w
              else (int k, card_put fd (take k bs) w))
      | _ \<Rightarrow> card_fail ''Bad file descriptor'' w)"

definition card_fstat :: "int \<Rightarrow> card \<Rightarrow> (int \<times> u64) \<times> card" where
  "card_fstat fd w =
     (case c_fds w fd of
        Some (FileFd path pos) \<Rightarrow>
          (case c_files w path of Some d \<Rightarrow> ((0, of_nat (length d)), w) | None \<Rightarrow> ((0, 0), w))
      | Some (DevFd d) \<Rightarrow> ((0, 0), w)
      | None \<Rightarrow> ((-1, 0), w\<lparr>c_errno := ''Bad file descriptor''\<rparr>))"

definition card_usleep :: "nat \<Rightarrow> card \<Rightarrow> card" where
  "card_usleep us w = card_settle (w\<lparr>c_clock := c_clock w + us\<rparr>)"

definition card_now_ms :: "card \<Rightarrow> u64 \<times> card" where
  "card_now_ms w = (of_nat (min (c_clock w div 1000) (2 ^ 64 - 1)), w)"

definition card_os :: "engine \<Rightarrow> card posix" where
  "card_os eng = \<lparr>os_open = card_open, os_close = card_close, os_pread = card_pread,
     os_pwrite = card_pwrite eng, os_read = card_read, os_write = card_write,
     os_fstat = card_fstat, os_fsync = (\<lambda>fd w. (0, w)), os_strerror = c_errno,
     os_usleep = card_usleep, os_now_ms = card_now_ms\<rparr>"

lemma card_os_simps [simp]:
  "os_open (card_os eng) = card_open"
  "os_close (card_os eng) = card_close"
  "os_pread (card_os eng) = card_pread"
  "os_pwrite (card_os eng) = card_pwrite eng"
  "os_read (card_os eng) = card_read"
  "os_write (card_os eng) = card_write"
  "os_fstat (card_os eng) = card_fstat"
  "os_fsync (card_os eng) = (\<lambda>fd w. (0, w))"
  "os_strerror (card_os eng) = c_errno"
  "os_usleep (card_os eng) = card_usleep"
  "os_now_ms (card_os eng) = card_now_ms"
  by (simp_all add: card_os_def)

section \<open>The card provides the DMA channels\<close>

definition h2c_ready :: "int \<Rightarrow> card \<Rightarrow> bool" where
  "h2c_ready fd w \<longleftrightarrow> c_fds w fd = Some (DevFd DevH2C) \<and> 0 < c_xfer w"

definition ddr_store :: "u64 \<Rightarrow> byte list \<Rightarrow> card \<Rightarrow> card" where
  "ddr_store a bs w = w\<lparr>c_ddr := mem_write (c_ddr w) a bs\<rparr>"

interpretation card_h2c: reliable_h2c "card_os eng" fd "h2c_ready fd" ddr_store for eng fd
proof unfold_locales
  fix w bs a n w'
  assume r: "h2c_ready fd w" and ne: "bs \<noteq> []" and pw: "os_pwrite (card_os eng) fd bs a w = (n, w')"
  from r pw have n: "n = int (min (length bs) (c_xfer w))"
    and w': "w' = ddr_store a (take (min (length bs) (c_xfer w)) bs) w"
    by (auto simp: h2c_ready_def card_pwrite_def ddr_store_def)
  moreover have "0 < min (length bs) (c_xfer w)" using r ne by (simp add: h2c_ready_def)
  ultimately show "n < 0 \<or> 0 < n \<and> nat n \<le> length bs \<and> w' = ddr_store a (take (nat n) bs) w"
    by (simp only: nat_int of_nat_0_less_iff) simp
next
  fix w bs a
  assume "h2c_ready fd w"
  then show "h2c_ready fd (ddr_store a bs w)" by (simp add: h2c_ready_def ddr_store_def)
next
  fix w a
  show "ddr_store a [] w = w" by (simp add: ddr_store_def)
next
  fix w bs a cs
  show "ddr_store (a + of_nat (length bs)) cs (ddr_store a bs w) = ddr_store a (bs @ cs) w"
    by (simp add: ddr_store_def mem_write_append)
next
  fix w bs a
  assume "h2c_ready fd w"
  then show "0 \<le> fst (os_pwrite (card_os eng) fd bs a w)"
    by (simp add: h2c_ready_def card_pwrite_def)
qed

definition c2h_ready :: "int \<Rightarrow> card \<Rightarrow> bool" where
  "c2h_ready fd w \<longleftrightarrow> c_fds w fd = Some (DevFd DevC2H) \<and> 0 < c_xfer w"

definition ddr_fetch :: "u64 \<Rightarrow> nat \<Rightarrow> card \<Rightarrow> byte list" where
  "ddr_fetch a n w = mem_read (c_ddr w) a n"

interpretation card_c2h: reliable_c2h "card_os eng" fd "c2h_ready fd" ddr_fetch "(=)" for eng fd
proof unfold_locales
  fix w c a n bs w'
  assume r: "c2h_ready fd w" and c: "0 < c" and pr: "os_pread (card_os eng) fd c a w = ((n, bs), w')"
  from r pr have "n = int (min (unat c) (c_xfer w))"
    and "bs = ddr_fetch a (min (unat c) (c_xfer w)) w" and "w' = w"
    by (auto simp: c2h_ready_def card_pread_def ddr_fetch_def)
  moreover have "0 < min (unat c) (c_xfer w)" using r c by (simp add: c2h_ready_def word_gt_0 unat_gt_0)
  ultimately show "n < 0 \<and> length bs \<le> unat c \<or>
      0 < n \<and> nat n \<le> unat c \<and> bs = ddr_fetch a (nat n) w \<and> w = w'"
    by (simp only: nat_int of_nat_0_less_iff) simp
next
  fix w c a
  assume "c2h_ready fd w"
  then show "0 \<le> fst (fst (os_pread (card_os eng) fd c a w))"
    by (simp add: c2h_ready_def card_pread_def)
qed (simp_all add: ddr_fetch_def mem_read_add)

section \<open>The card provides regular files\<close>

definition reader_ready :: "int \<Rightarrow> card \<Rightarrow> bool" where
  "reader_ready fd w \<longleftrightarrow> (\<exists>path pos d. c_fds w fd = Some (FileFd path pos) \<and> c_files w path = Some d)"

definition file_rest :: "int \<Rightarrow> card \<Rightarrow> byte list" where
  "file_rest fd w =
     (case c_fds w fd of
        Some (FileFd path pos) \<Rightarrow> (case c_files w path of Some d \<Rightarrow> drop pos d | None \<Rightarrow> [])
      | _ \<Rightarrow> [])"

definition file_advance :: "int \<Rightarrow> nat \<Rightarrow> card \<Rightarrow> card" where
  "file_advance fd k w =
     (case c_fds w fd of
        Some (FileFd path pos) \<Rightarrow> w\<lparr>c_fds := (c_fds w)(fd := Some (FileFd path (pos + k)))\<rparr>
      | _ \<Rightarrow> w)"

interpretation card_reader: reliable_reader "card_os eng" fd "reader_ready fd" "file_rest fd" "file_advance fd"
  for eng fd
proof unfold_locales
  fix w c n bs w'
  assume r: "reader_ready fd w" and rd: "os_read (card_os eng) fd c w = ((n, bs), w')"
  from r obtain path pos d where fd: "c_fds w fd = Some (FileFd path pos)" and d: "c_files w path = Some d"
    by (auto simp: reader_ready_def)
  have bs: "bs = take (unat c) (drop pos d)" and n: "n = int (length bs)"
    and w': "w' = file_advance fd (length bs) w"
    using rd by (auto simp: card_read_def file_advance_def Let_def fd d)
  show "n \<le> int (unat c) \<and> length bs \<le> unat c \<and>
      (0 < n \<longrightarrow> nat n \<le> length (file_rest fd w) \<and> bs = take (nat n) (file_rest fd w) \<and> w' = file_advance fd (nat n) w)"
  proof (intro conjI impI)
    show lc: "length bs \<le> unat c" by (simp add: bs)
    then show "n \<le> int (unat c)" by (simp only: n of_nat_le_iff)
    show "nat n \<le> length (file_rest fd w)" by (simp add: n bs file_rest_def fd d)
    show "bs = take (nat n) (file_rest fd w)" by (simp add: n bs file_rest_def fd d min_def)
    show "w' = file_advance fd (nat n) w" by (simp only: w' n nat_int)
  qed
next
  fix w c
  assume "reader_ready fd w" and "0 < (c :: u64)" and "file_rest fd w \<noteq> []"
  then show "0 < fst (fst (os_read (card_os eng) fd c w))"
    by (auto simp: reader_ready_def card_read_def file_rest_def Let_def word_gt_0 unat_gt_0)
qed (auto simp: reader_ready_def file_rest_def file_advance_def fun_upd_idem ac_simps)

definition writer_ready :: "int \<Rightarrow> card \<Rightarrow> bool" where
  "writer_ready fd w \<longleftrightarrow>
     (\<exists>path d. c_fds w fd = Some (FileFd path (length d)) \<and> c_files w path = Some d)"

lemma card_put_append:
  "writer_ready fd w \<Longrightarrow> card_put fd cs (card_put fd bs w) = card_put fd (bs @ cs) w"
  by (auto simp: writer_ready_def card_put_def overwrite_def option.map_comp o_def add.assoc)

interpretation card_writer: file_writer "card_os eng" fd "writer_ready fd" "card_put fd" for eng fd
proof unfold_locales
  fix w bs n w'
  assume r: "writer_ready fd w" and ne: "bs \<noteq> []" and wr: "os_write (card_os eng) fd bs w = (n, w')"
  then show "n \<le> int (length bs) \<and> (0 < n \<longrightarrow> w' = card_put fd (take (nat n) bs) w)"
    by (auto simp: writer_ready_def card_write_def card_fail_def Let_def split: option.splits if_splits)
next
  fix w bs
  assume "writer_ready fd w"
  then show "writer_ready fd (card_put fd bs w)"
    by (auto simp: writer_ready_def card_put_def overwrite_def)
next
  fix w
  assume "writer_ready fd w"
  then show "card_put fd [] w = w"
    by (auto simp: writer_ready_def card_put_def overwrite_def fun_upd_idem option.map_ident)
qed (rule card_put_append)

interpretation card_writer_ok: reliable_writer "card_os eng" fd
    "\<lambda>w. writer_ready fd w \<and> c_disk w = None" "card_put fd" for eng fd
proof unfold_locales
  fix w bs n w'
  assume "writer_ready fd w \<and> c_disk w = None" and "bs \<noteq> []" and "os_write (card_os eng) fd bs w = (n, w')"
  then show "n \<le> int (length bs) \<and> (0 < n \<longrightarrow> w' = card_put fd (take (nat n) bs) w)"
    using card_writer.write_result by blast
next
  fix w bs
  assume "writer_ready fd w \<and> c_disk w = None"
  then show "writer_ready fd (card_put fd bs w) \<and> c_disk (card_put fd bs w) = None"
    using card_writer.ready_append by (auto simp: card_put_def split: option.splits ofd.splits)
next
  fix w and bs :: "byte list"
  assume "writer_ready fd w \<and> c_disk w = None" and "bs \<noteq> []"
  then show "0 < fst (os_write (card_os eng) fd bs w)"
    by (auto simp: writer_ready_def card_write_def)
qed (simp_all add: card_writer.append_Nil card_put_append)

section \<open>A concrete host\<close>

text \<open>
  A freshly started host with the default device files, two small input files and a card that
  moves at most \<open>x\<close> bytes per call. The theorems about the pipeline are instantiated on it.
\<close>

definition demo_devs :: "string \<Rightarrow> dev option" where
  "demo_devs p =
     (if p = ''/dev/xdma0_h2c_0'' then Some DevH2C
      else if p = ''/dev/xdma0_c2h_0'' then Some DevC2H
      else if p = ''/dev/xdma0_user'' then Some DevUser else None)"

definition demo_files :: "string \<Rightarrow> byte list option" where
  "demo_files p =
     (if p = ''a.ldb'' then Some [1, 2, 3] else if p = ''b.ldb'' then Some [4, 5] else None)"

definition demo_card :: "nat \<Rightarrow> card" where
  "demo_card x = \<lparr>c_files = demo_files, c_devs = demo_devs, c_fds = (\<lambda>_. None), c_next = 3,
     c_ddr = (\<lambda>_. 0), c_regs = reset_regs, c_count = 0, c_sizes = [], c_counters = (\<lambda>_. 0), c_pending = None, c_clock = 0,
     c_xfer = x, c_bar_wr = True, c_bar_rd = True, c_disk = None, c_errno = ''''\<rparr>"

lemmas demo_simps = demo_card_def demo_devs_def demo_files_def reset_regs_def

end
