(* ===== verification/Offload_Driver.thy ===== *)
theory Offload_Driver
  imports Host_Files
begin

text \<open>
  \<^verbatim>\<open>driver/compaction_offload.h\<close> and \<^verbatim>\<open>driver/compaction_offload.cc\<close>: configuration, register
  map, the footer scan, the size gate and the offload pipeline. Local objects are explicit: the
  \<^verbatim>\<open>XdmaAccess\<close> of \<^verbatim>\<open>RunOffloadCore\<close> is created on entry and its destructor runs on every
  return (\<open>leave\<close>). The results of \<^verbatim>\<open>WriteReg\<close> are discarded exactly where the code discards
  them.
\<close>

section \<open>Configuration\<close>

record config =
  cfg_h2c_dev :: string
  cfg_c2h_dev :: string
  cfg_user_dev :: string
  src0_ddr_base :: u64
  src1_ddr_base :: u64
  dst_ddr_base :: u64
  mid_ddr_base :: u64
  dst_blk_stride :: u32
  axil_base :: u64
  timeout_ms :: u32
  max_src_bytes :: u64
  max_out_bytes :: u64

definition default_config :: config where
  "default_config = \<lparr>
     cfg_h2c_dev = ''/dev/xdma0_h2c_0'',
     cfg_c2h_dev = ''/dev/xdma0_c2h_0'',
     cfg_user_dev = ''/dev/xdma0_user'',
     src0_ddr_base = 0x00000000,
     src1_ddr_base = 0x00100000,
     dst_ddr_base = 0x00200000,
     mid_ddr_base = 0x00300000,
     dst_blk_stride = 0x00010000,
     axil_base = 0x00000000,
     timeout_ms = 30000,
     max_src_bytes = 0x00100000,
     max_out_bytes = 0x00040000\<rparr>"

definition kMaxSstables :: u32 where "kMaxSstables = 16"

section \<open>Register map\<close>

definition kRegCtrl :: u64 where "kRegCtrl = 0x0000"
definition kRegStatus :: u64 where "kRegStatus = 0x0004"
definition kRegSrc0BaseLo :: u64 where "kRegSrc0BaseLo = 0x0008"
definition kRegSrc0BaseHi :: u64 where "kRegSrc0BaseHi = 0x000C"
definition kRegSrc0Size :: u64 where "kRegSrc0Size = 0x0010"
definition kRegSrc1BaseLo :: u64 where "kRegSrc1BaseLo = 0x0014"
definition kRegSrc1BaseHi :: u64 where "kRegSrc1BaseHi = 0x0018"
definition kRegSrc1Size :: u64 where "kRegSrc1Size = 0x001C"
definition kRegDstBaseLo :: u64 where "kRegDstBaseLo = 0x0020"
definition kRegDstBaseHi :: u64 where "kRegDstBaseHi = 0x0024"
definition kRegDstStride :: u64 where "kRegDstStride = 0x0028"
definition kRegMidBaseLo :: u64 where "kRegMidBaseLo = 0x002C"
definition kRegMidBaseHi :: u64 where "kRegMidBaseHi = 0x0030"
definition kRegMaxFileSize :: u64 where "kRegMaxFileSize = 0x0038"
definition kRegSstableCount :: u64 where "kRegSstableCount = 0x003C"
definition kRegSstableSizesBase :: u64 where "kRegSstableSizesBase = 0x0500"

definition kStatusBusy :: u32 where "kStatusBusy = 0x1"
definition kStatusDone :: u32 where "kStatusDone = 0x2"
definition kStatusError :: u32 where "kStatusError = 0x4"

lemmas reg_defs = kRegCtrl_def kRegStatus_def kRegSrc0BaseLo_def kRegSrc0BaseHi_def
  kRegSrc0Size_def kRegSrc1BaseLo_def kRegSrc1BaseHi_def kRegSrc1Size_def kRegDstBaseLo_def
  kRegDstBaseHi_def kRegDstStride_def kRegMidBaseLo_def kRegMidBaseHi_def kRegMaxFileSize_def
  kRegSstableCount_def kRegSstableSizesBase_def

section \<open>FindSStableEnd and CanOffload\<close>

definition kMagic :: "byte list" where
  "kMagic = [0x57, 0xfb, 0x80, 0x8b, 0x24, 0x75, 0x47, 0xdb]"

text \<open>The backwards loop: \<^verbatim>\<open>for (i = len; i >= 8; --i)\<close>.\<close>

fun find_end_loop :: "byte list \<Rightarrow> nat \<Rightarrow> nat" where
  "find_end_loop buf i =
     (if i < 8 then 0
      else if take 8 (drop (i - 8) buf) = kMagic then i
      else find_end_loop buf (i - 1))"

declare find_end_loop.simps [simp del]

definition find_sstable_end :: "byte list \<Rightarrow> nat \<Rightarrow> nat" where
  "find_sstable_end buf len = (if len < 8 then 0 else find_end_loop buf len)"

definition can_offload :: "config \<Rightarrow> u64 \<Rightarrow> u64 \<Rightarrow> bool" where
  "can_offload cfg src0_bytes src1_bytes \<longleftrightarrow>
     src0_bytes \<le> max_src_bytes cfg \<and> src1_bytes \<le> max_src_bytes cfg"

section \<open>Programming the engine\<close>

definition lo32 :: "u64 \<Rightarrow> u32" where "lo32 a = ucast (a AND 0xFFFFFFFF)"
definition hi32 :: "u64 \<Rightarrow> u32" where "hi32 a = ucast (drop_bit 32 a)"

text \<open>The twelve configuration writes, in source order, relative to \<^verbatim>\<open>axil_base\<close>.\<close>

definition register_program :: "config \<Rightarrow> u64 \<Rightarrow> u64 \<Rightarrow> u32 \<Rightarrow> (u64 \<times> u32) list" where
  "register_program cfg src0_size src1_size max_file_size =
     [(kRegSrc0BaseLo, lo32 (src0_ddr_base cfg)),
      (kRegSrc0BaseHi, hi32 (src0_ddr_base cfg)),
      (kRegSrc0Size, ucast src0_size),
      (kRegSrc1BaseLo, lo32 (src1_ddr_base cfg)),
      (kRegSrc1BaseHi, hi32 (src1_ddr_base cfg)),
      (kRegSrc1Size, ucast src1_size),
      (kRegDstBaseLo, lo32 (dst_ddr_base cfg)),
      (kRegDstBaseHi, hi32 (dst_ddr_base cfg)),
      (kRegDstStride, dst_blk_stride cfg),
      (kRegMidBaseLo, lo32 (mid_ddr_base cfg)),
      (kRegMidBaseHi, hi32 (mid_ddr_base cfg)),
      (kRegMaxFileSize, max_file_size)]"

text \<open>A run of \<^verbatim>\<open>WriteReg\<close> calls whose results are ignored.\<close>

fun write_regs :: "'w posix \<Rightarrow> u64 \<Rightarrow> (u64 \<times> u32) list \<Rightarrow> xdma \<Rightarrow> 'w \<Rightarrow> xdma \<times> 'w" where
  "write_regs os base [] x w = (x, w)"
| "write_regs os base ((off, v) # ps) x w =
     (case write_reg os x (base + off) v w of (_, x', w') \<Rightarrow> write_regs os base ps x' w')"

definition clear_engine :: "'w posix \<Rightarrow> u64 \<Rightarrow> xdma \<Rightarrow> 'w \<Rightarrow> xdma \<times> 'w" where
  "clear_engine os base x w =
     (case write_regs os base [(kRegCtrl, 0x2)] x w of
        (x1, w1) \<Rightarrow> write_regs os base [(kRegCtrl, 0x0)] x1 (os_usleep os 10000 w1))"

definition start_engine :: "'w posix \<Rightarrow> u64 \<Rightarrow> xdma \<Rightarrow> 'w \<Rightarrow> xdma \<times> 'w" where
  "start_engine os base x w = write_regs os base [(kRegCtrl, 0x1)] x w"

section \<open>Polling\<close>

text \<open>
  The \<^verbatim>\<open>do ... while\<close> of step 6, left by a failed read (\<open>Inl\<close>) or with the last status
  read (\<open>Inr\<close>). The clock is only consulted when neither DONE nor ERROR is set.
\<close>

partial_function (option) poll_loop ::
  "'w posix \<Rightarrow> u64 \<Rightarrow> u64 \<Rightarrow> u32 \<Rightarrow> xdma \<Rightarrow> 'w \<Rightarrow> ((status + u32) \<times> xdma \<times> 'w) option" where
  "poll_loop os base deadline status_reg x w =
     (let w1 = os_usleep os 1000 w;
          (ok, st, x1, w2) = read_reg os x (base + kRegStatus) status_reg w1
      in if \<not> ok
         then Some (Inl (IOError (''ReadReg STATUS failed: '' @ get_error x1)), x1, w2)
         else if st AND (kStatusDone OR kStatusError) = 0
         then (let (t, w3) = os_now_ms os w2
               in if t < deadline then poll_loop os base deadline st x1 w3
                  else Some (Inr st, x1, w3))
         else Some (Inr st, x1, w2))"

lemmas poll_loop_induct = poll_loop.raw_induct
  [where xa = "(((((os, b), d), st), x), w)" and P = P for os b d st x w P, unfolded prod.case]

definition poll_completion ::
  "'w posix \<Rightarrow> config \<Rightarrow> xdma \<Rightarrow> 'w \<Rightarrow> ((status + u32) \<times> xdma \<times> 'w) option" where
  "poll_completion os cfg x w =
     (let (t, w1) = os_now_ms os w
      in poll_loop os (axil_base cfg) (t + ucast (timeout_ms cfg)) 0 x w1)"

text \<open>The two checks after the loop: ERROR wins over DONE, neither is a timeout.\<close>

definition check_status :: "config \<Rightarrow> u32 \<Rightarrow> status" where
  "check_status cfg st =
     (if st AND kStatusError \<noteq> 0
      then IOError (''FPGA engine reported error (STATUS=0x'' @ decimal_string (unat st) @ '')'')
      else if st AND kStatusDone = 0
      then IOError (''FPGA engine timed out after '' @ decimal_string (unat (timeout_ms cfg)) @ '' ms'')
      else OK)"

section \<open>Reading the results\<close>

text \<open>The loop over \<^verbatim>\<open>sst_sizes\<close>: \<open>k\<close> entries from index \<open>i\<close> on; \<open>acc\<close> holds those read.\<close>

fun read_sizes ::
  "'w posix \<Rightarrow> u64 \<Rightarrow> nat \<Rightarrow> nat \<Rightarrow> u32 list \<Rightarrow> xdma \<Rightarrow> 'w \<Rightarrow> (status + u32 list) \<times> xdma \<times> 'w" where
  "read_sizes os base 0 i acc x w = (Inr acc, x, w)"
| "read_sizes os base (Suc k) i acc x w =
     (case read_reg os x (base + kRegSstableSizesBase + of_nat (i * 4)) 0 w of
        (ok, sz, x1, w1) \<Rightarrow>
          if \<not> ok
          then (Inl (IOError (''ReadReg SSTABLE_SIZES['' @ decimal_string i @ ''] failed'')), x1, w1)
          else if sz = 0
          then (Inl (Corruption (''sstable_sizes['' @ decimal_string i @ ''] is 0'')), x1, w1)
          else read_sizes os base k (Suc i) (acc @ [sz]) x1 w1)"

definition read_results ::
  "'w posix \<Rightarrow> u64 \<Rightarrow> xdma \<Rightarrow> 'w \<Rightarrow> (status + u32 list) \<times> xdma \<times> 'w" where
  "read_results os base x w =
     (case read_reg os x (base + kRegSstableCount) 0 w of
        (ok, cnt, x1, w1) \<Rightarrow>
          if \<not> ok then (Inl (IOError ''ReadReg SSTABLE_COUNT failed''), x1, w1)
          else if cnt = 0 \<or> cnt > kMaxSstables
          then (Inl (Corruption (''invalid sstable_count='' @ decimal_string (unat cnt))), x1, w1)
          else read_sizes os base (unat cnt) 0 [] x1 w1)"

definition align64 :: "u32 \<Rightarrow> u64" where
  "align64 sz = (ucast sz + 63) AND NOT 63"

text \<open>The loop of step 8; \<open>i\<close> is only used in the error message.\<close>

fun read_back ::
  "'w posix \<Rightarrow> config \<Rightarrow> nat \<Rightarrow> u64 \<Rightarrow> u32 list \<Rightarrow> byte list list \<Rightarrow> xdma \<Rightarrow> 'w
     \<Rightarrow> (status \<times> byte list list \<times> xdma \<times> 'w) option" where
  "read_back os cfg i ddr_offset [] outs x w = Some (OK, outs, x, w)"
| "read_back os cfg i ddr_offset (sz # szs) outs x w =
     (case dma_from_device os x (dst_ddr_base cfg + ddr_offset) (replicate (unat sz) 0) (ucast sz) w of
        None \<Rightarrow> None
      | Some (ok, buf, x1, w1) \<Rightarrow>
          if \<not> ok
          then Some (IOError (''DMA DST read SSTable['' @ decimal_string i @ ''] failed: '' @ get_error x1),
                     outs, x1, w1)
          else read_back os cfg (Suc i) (ddr_offset + align64 sz) szs (outs @ [buf]) x1 w1)"

section \<open>RunOffloadCore\<close>

text \<open>Every return of the core runs the destructor of the local \<^verbatim>\<open>XdmaAccess\<close>.\<close>

definition leave ::
  "'w posix \<Rightarrow> status \<Rightarrow> byte list list \<Rightarrow> xdma \<Rightarrow> 'w \<Rightarrow> (status \<times> byte list list \<times> 'w) option" where
  "leave os s outs x w = Some (s, outs, snd (xdma_close os x w))"

text \<open>Steps 6 to 8, from the started engine on.\<close>

definition collect_outputs ::
  "'w posix \<Rightarrow> config \<Rightarrow> xdma \<Rightarrow> 'w \<Rightarrow> (status \<times> byte list list \<times> 'w) option" where
  "collect_outputs os cfg x w =
     (case poll_completion os cfg x w of
        None \<Rightarrow> None
      | Some (Inl e, x1, w1) \<Rightarrow> leave os e [] x1 w1
      | Some (Inr st, x1, w1) \<Rightarrow>
          if check_status cfg st \<noteq> OK then leave os (check_status cfg st) [] x1 w1
          else
            (case read_results os (axil_base cfg) x1 w1 of
               (Inl e, x2, w2) \<Rightarrow> leave os e [] x2 w2
             | (Inr sizes, x2, w2) \<Rightarrow>
                 (case read_back os cfg 0 0 sizes [] x2 w2 of
                    None \<Rightarrow> None
                  | Some (s, outs, x3, w3) \<Rightarrow> leave os s outs x3 w3)))"

text \<open>Steps 3 to 5: clear, program, start.\<close>

definition launch_engine ::
  "'w posix \<Rightarrow> config \<Rightarrow> u64 \<Rightarrow> u64 \<Rightarrow> u32 \<Rightarrow> xdma \<Rightarrow> 'w \<Rightarrow> xdma \<times> 'w" where
  "launch_engine os cfg src0_size src1_size max_file_size x w =
     (let base = axil_base cfg;
          (x1, w1) = clear_engine os base x w;
          (x2, w2) = write_regs os base (register_program cfg src0_size src1_size max_file_size) x1 w1
      in start_engine os base x2 w2)"

definition run_offload_core ::
  "'w posix \<Rightarrow> config \<Rightarrow> byte list \<Rightarrow> byte list \<Rightarrow> u32 \<Rightarrow> 'w \<Rightarrow> (status \<times> byte list list \<times> 'w) option" where
  "run_offload_core os cfg src0_data src1_data max_file_size w =
     (let n0 = of_nat (length src0_data);
          n1 = of_nat (length src1_data);
          x0 = xdma_new (cfg_h2c_dev cfg) (cfg_c2h_dev cfg) (cfg_user_dev cfg);
          (opened, x1, w1) = xdma_open os x0 w
      in if \<not> opened
         then leave os (IOError (''XDMA open failed: '' @ get_error x1)) [] x1 w1
         else
           (case dma_to_device os x1 (src0_ddr_base cfg) src0_data n0 w1 of
              None \<Rightarrow> None
            | Some (ok0, x2, w2) \<Rightarrow>
                if \<not> ok0 then leave os (IOError (''DMA SRC0 failed: '' @ get_error x2)) [] x2 w2
                else
                  (case dma_to_device os x2 (src1_ddr_base cfg) src1_data n1 w2 of
                     None \<Rightarrow> None
                   | Some (ok1, x3, w3) \<Rightarrow>
                       if \<not> ok1 then leave os (IOError (''DMA SRC1 failed: '' @ get_error x3)) [] x3 w3
                       else
                         (case launch_engine os cfg n0 n1 max_file_size x3 w3 of
                            (x4, w4) \<Rightarrow> collect_outputs os cfg x4 w4))))"

section \<open>RunOffloadSplit and RunOffload\<close>

text \<open>
  \<open>outs\<close> is what the caller's vector holds; it is only touched once the core is entered (which
  clears it first).
\<close>

definition run_offload_split ::
  "'w posix \<Rightarrow> config \<Rightarrow> string \<Rightarrow> u64 \<Rightarrow> string \<Rightarrow> u64 \<Rightarrow> u32 \<Rightarrow> byte list list \<Rightarrow> 'w
     \<Rightarrow> (status \<times> byte list list \<times> 'w) option" where
  "run_offload_split os cfg src0_path src0_bytes src1_path src1_bytes max_file_size outs w =
     (if \<not> can_offload cfg src0_bytes src1_bytes
      then Some (InvalidArgument ''input SSTable too large for hardware offload'', outs, w)
      else
        (case read_file os src0_path w of
           None \<Rightarrow> None
         | Some (s0, src0_data, w1) \<Rightarrow>
             if s0 \<noteq> OK then Some (s0, outs, w1)
             else
               (case read_file os src1_path w1 of
                  None \<Rightarrow> None
                | Some (s1, src1_data, w2) \<Rightarrow>
                    if s1 \<noteq> OK then Some (s1, outs, w2)
                    else if length src0_data \<noteq> unat src0_bytes \<or> length src1_data \<noteq> unat src1_bytes
                    then Some (Corruption ''SSTable size mismatch after read'', outs, w2)
                    else run_offload_core os cfg src0_data src1_data max_file_size w2)))"

text \<open>\<open>out_size\<close> is the caller's variable, written only on success.\<close>

definition run_offload ::
  "'w posix \<Rightarrow> config \<Rightarrow> string \<Rightarrow> u64 \<Rightarrow> string \<Rightarrow> u64 \<Rightarrow> string \<Rightarrow> u64 \<Rightarrow> 'w
     \<Rightarrow> (status \<times> u64 \<times> 'w) option" where
  "run_offload os cfg src0_path src0_bytes src1_path src1_bytes out_path out_size w =
     (case run_offload_split os cfg src0_path src0_bytes src1_path src1_bytes 0 [] w of
        None \<Rightarrow> None
      | Some (s, outputs, w1) \<Rightarrow>
          if s \<noteq> OK then Some (s, out_size, w1)
          else
            (case outputs of
               [] \<Rightarrow> Some (Corruption ''hardware produced no output SSTables'', out_size, w1)
             | sst # _ \<Rightarrow>
                 (case write_file os out_path sst (of_nat (length sst)) w1 of
                    None \<Rightarrow> None
                  | Some (s', w2) \<Rightarrow>
                      if s' \<noteq> OK then Some (s', out_size, w2)
                      else Some (OK, of_nat (length sst), w2))))"

end
