(* ===== verification/Offload_Liveness.thy ===== *)
theory Offload_Liveness
  imports Offload_Driver
begin

text \<open>
  When the pipeline returns. The interface \<open>live_os\<close> is what the loops need of the operating
  system: a non-empty transfer either fails or makes progress and never reports more than was asked
  for, and the steady clock follows the sleeps. \<open>inv\<close> is the set of worlds in which this holds
  (it must be kept by every call), \<open>time\<close> the clock in milliseconds.
\<close>

locale live_os =
  fixes os :: "'w posix"
    and inv :: "'w \<Rightarrow> bool"
    and time :: "'w \<Rightarrow> nat"
  assumes pwrite_progress: "inv w \<Longrightarrow> bs \<noteq> [] \<Longrightarrow>
      fst (os_pwrite os fd bs a w) \<noteq> 0 \<and> fst (os_pwrite os fd bs a w) \<le> int (length bs)"
    and pread_progress: "inv w \<Longrightarrow> 0 < c \<Longrightarrow>
      fst (fst (os_pread os fd c a w)) \<noteq> 0 \<and> fst (fst (os_pread os fd c a w)) \<le> int (unat c)"
    and read_bounded: "inv w \<Longrightarrow> fst (fst (os_read os fd c w)) \<le> int (unat c)"
    and write_bounded: "inv w \<Longrightarrow> fst (os_write os fd bs w) \<le> int (length bs)"
    and inv_open: "inv w \<Longrightarrow> inv (snd (os_open os path fl w))"
    and inv_close: "inv w \<Longrightarrow> inv (os_close os fd w)"
    and inv_pwrite: "inv w \<Longrightarrow> inv (snd (os_pwrite os fd bs a w))"
    and inv_pread: "inv w \<Longrightarrow> inv (snd (os_pread os fd c a w))"
    and inv_read: "inv w \<Longrightarrow> inv (snd (os_read os fd c w))"
    and inv_write: "inv w \<Longrightarrow> inv (snd (os_write os fd bs w))"
    and inv_fstat: "inv w \<Longrightarrow> inv (snd (os_fstat os fd w))"
    and inv_usleep: "inv w \<Longrightarrow> inv (os_usleep os us w)"
    and inv_now: "inv w \<Longrightarrow> inv (snd (os_now_ms os w))"
    and time_usleep: "time w + us div 1000 \<le> time (os_usleep os us w)"
    and time_pread: "time w \<le> time (snd (os_pread os fd c a w))"
    and time_now: "time w \<le> time (snd (os_now_ms os w))"
    and clock_reached: "d \<le> time w \<Longrightarrow> d < 2 ^ 64 \<Longrightarrow> of_nat d \<le> fst (os_now_ms os w)"
begin

lemma to_device_loop_returns:
  assumes "inv w" and "unat remaining \<le> length p"
  shows "\<exists>ok x' w'. dma_to_device_loop os x p addr remaining w = Some (ok, x', w') \<and> inv w'"
  using assms
proof (induction "unat remaining" arbitrary: p addr remaining w rule: less_induct)
  case less
  show ?case
  proof (cases "remaining > 0")
    case False
    then show ?thesis using less.prems(1) by (subst dma_to_device_loop.simps) auto
  next
    case True
    let ?c = "if remaining < kDmaChunk then remaining else kDmaChunk"
    let ?bs = "take (unat ?c) p"
    note cb = chunk_bounds [OF True]
    have len: "length ?bs = unat ?c"
      using le_trans [OF cb(2) less.prems(2)] by (simp only: length_take min_absorb2)
    have ne: "?bs \<noteq> []" using len cb(1) by fastforce
    obtain n w1 where pw: "os_pwrite os (h2c_fd x) ?bs addr w = (n, w1)" by fastforce
    have n: "n \<noteq> 0" "n \<le> int (unat ?c)"
      using pwrite_progress [OF less.prems(1) ne, of "h2c_fd x" addr] pw len by simp_all
    have i1: "inv w1" using inv_pwrite [OF less.prems(1), of "h2c_fd x" ?bs addr] pw by simp
    show ?thesis
    proof (cases "n < 0")
      case neg: True
      then show ?thesis using True pw i1 by (subst dma_to_device_loop.simps) (simp add: Let_def ex_bool_eq)
    next
      case False
      let ?rem = "remaining - word_of_int n"
      have nr: "nat n \<le> unat remaining" using n(2) cb(2) nat_le_iff le_trans by blast
      have rem: "unat ?rem = unat remaining - nat n" using False nr by (intro remaining_step) auto
      have lt: "unat ?rem < unat remaining" using rem nr n(1) False by linarith
      have le: "unat ?rem \<le> length (drop (nat n) p)" using rem less.prems(2) by simp
      show ?thesis using less.hyps [OF lt i1 le, of "addr + word_of_int n"] True False pw
        by (subst dma_to_device_loop.simps) (simp add: Let_def)
    qed
  qed
qed

lemma from_device_loop_returns:
  assumes "inv w"
  shows "\<exists>ok b x' w'. dma_from_device_loop os x buf i addr remaining w = Some (ok, b, x', w') \<and> inv w'"
  using assms
proof (induction "unat remaining" arbitrary: buf i addr remaining w rule: less_induct)
  case less
  show ?case
  proof (cases "remaining > 0")
    case False
    then show ?thesis using less.prems by (subst dma_from_device_loop.simps) auto
  next
    case True
    let ?c = "if remaining < kDmaChunk then remaining else kDmaChunk"
    note cb = chunk_bounds [OF True]
    have c0: "0 < ?c" using cb(1) by (simp only: word_gt_0 unat_gt_0)
    obtain n bs w1 where pr: "os_pread os (c2h_fd x) ?c addr w = ((n, bs), w1)" by (metis prod.collapse)
    have n: "n \<noteq> 0" "n \<le> int (unat ?c)"
      using pread_progress [OF less.prems c0, of "c2h_fd x" addr] pr by simp_all
    have i1: "inv w1" using inv_pread [OF less.prems, of "c2h_fd x" ?c addr] pr by simp
    show ?thesis
    proof (cases "n < 0")
      case neg: True
      then show ?thesis using True pr i1 by (subst dma_from_device_loop.simps) (simp add: Let_def ex_bool_eq)
    next
      case False
      let ?rem = "remaining - word_of_int n"
      have nr: "nat n \<le> unat remaining" using n(2) cb(2) nat_le_iff le_trans by blast
      have rem: "unat ?rem = unat remaining - nat n" using False nr by (intro remaining_step) auto
      have lt: "unat ?rem < unat remaining" using rem nr n(1) False by linarith
      show ?thesis
        using less.hyps [OF lt i1, of "overwrite buf i bs" "i + nat n" "addr + word_of_int n"] True False pr
        by (subst dma_from_device_loop.simps) (simp add: Let_def)
    qed
  qed
qed

lemma read_loop_returns_inv:
  assumes "inv w"
  shows "\<exists>s b w'. read_loop os path fd buf i remaining w = Some (s, b, w') \<and> inv w'"
  using assms
proof (induction "unat remaining" arbitrary: buf i remaining w rule: less_induct)
  case less
  obtain n bs w1 where r: "os_read os fd remaining w = ((n, bs), w1)" by (metis prod.collapse)
  have i1: "inv w1" using inv_read [OF less.prems, of fd remaining] r by simp
  show ?case
  proof (cases "remaining > 0 \<and> 0 < n")
    case True
    let ?rem = "remaining - word_of_int n"
    have n: "nat n \<le> unat remaining"
      using read_bounded [OF less.prems, of fd remaining] r nat_le_iff by simp
    have rem: "unat ?rem = unat remaining - nat n" using True n by (intro remaining_step) auto
    have lt: "unat ?rem < unat remaining" using rem True n by linarith
    show ?thesis using less.hyps [OF lt i1, of "overwrite buf i bs" "i + nat n"] True r
      by (subst read_loop.simps) (simp add: Let_def)
  next
    case False
    then show ?thesis using r i1 less.prems inv_close by (subst read_loop.simps) (auto simp: Let_def)
  qed
qed

lemma read_file_returns:
  assumes "inv w"
  shows "\<exists>s d w'. read_file os path w = Some (s, d, w') \<and> inv w'"
proof -
  obtain fd w1 where op: "os_open os path O_RDONLY w = (fd, w1)" by fastforce
  obtain rc sz w2 where st: "os_fstat os fd w1 = ((rc, sz), w2)" by (metis prod.collapse)
  have i1: "inv w1" using inv_open [OF assms, of path O_RDONLY] op by simp
  then have i2: "inv w2" using inv_fstat [of w1 fd] st by simp
  show ?thesis
    using i1 i2 op st inv_close read_loop_returns_inv [OF i2, of path fd "replicate (unat sz) 0" 0 sz]
    by (simp add: read_file_def Let_def)
qed

lemma write_file_returns:
  assumes "inv w"
  shows "\<exists>r. write_file os path data n w = Some r"
proof -
  obtain fd w1 where op: "os_open os path (O_WRONLY_CREAT_TRUNC 420) w = (fd, w1)" by fastforce
  have i1: "inv w1" using inv_open [OF assms, of path "O_WRONLY_CREAT_TRUNC 420"] op by simp
  have "\<exists>s w'. write_loop os path fd p r w2 = Some (s, w')" if "inv w2" for p r w2
    using that
  proof (induction "unat r" arbitrary: p r w2 rule: less_induct)
    case less
    obtain k w3 where wr: "os_write os fd (take (unat r) p) w2 = (k, w3)" by fastforce
    have i3: "inv w3" using inv_write [OF less.prems, of fd "take (unat r) p"] wr by simp
    show ?case
    proof (cases "r > 0 \<and> 0 < k")
      case True
      let ?rem = "r - word_of_int k"
      have "nat k \<le> length (take (unat r) p)"
        using write_bounded [OF less.prems, of fd "take (unat r) p"] wr by (simp add: nat_le_iff del: length_take)
      then have n: "nat k \<le> unat r" by simp
      have rem: "unat ?rem = unat r - nat k" using True n by (intro remaining_step) auto
      have lt: "unat ?rem < unat r" using rem True n by linarith
      show ?thesis using less.hyps [OF lt i3, of "drop (nat k) p"] True wr
        by (subst write_loop.simps) (simp add: Let_def)
    next
      case False
      then show ?thesis using wr by (subst write_loop.simps) (auto simp: Let_def)
    qed
  qed
  from this [OF i1, of data n] obtain s w2 where "write_loop os path fd data n w1 = Some (s, w2)" by blast
  then show ?thesis using op by (auto simp: write_file_def Let_def split: prod.splits)
qed

lemma inv_write_regs: "inv w \<Longrightarrow> inv (snd (write_regs os base ps x w))"
proof (induction ps arbitrary: x w)
  case Nil
  then show ?case by simp
next
  case (Cons p ps)
  obtain off v where p: "p = (off, v)" by fastforce
  obtain ok x1 w1 where wr: "write_reg os x (base + off) v w = (ok, x1, w1)" by (metis prod.collapse)
  have "inv w1" using inv_pwrite [OF Cons.prems, of "user_fd x" "le32 v" "base + off"] wr
    by (auto simp: write_reg_def split: prod.splits if_splits)
  then show ?case using Cons.IH wr p by simp
qed

lemma inv_launch: "inv w \<Longrightarrow> launch_engine os cfg n0 n1 m x w = (x', w') \<Longrightarrow> inv w'"
  using inv_write_regs inv_usleep
  unfolding launch_engine_def clear_engine_def start_engine_def Let_def
  by (metis (no_types, lifting) case_prod_beta prod.collapse snd_conv)

lemma read_reg_effects:
  assumes "read_reg os x a old w = (ok, v, x', w')"
  shows "w' = snd (os_pread os (user_fd x) 4 a w)"
  using assms by (auto simp: read_reg_def Let_def split: prod.splits if_splits)

lemma poll_loop_returns:
  assumes "inv w"
  shows "\<exists>p x' w'. poll_loop os base deadline st x w = Some (p, x', w') \<and> inv w'"
  using assms
proof (induction "unat deadline - time w" arbitrary: st x w rule: less_induct)
  case less
  obtain ok st1 x1 w2 where rr: "read_reg os x (base + kRegStatus) st (os_usleep os 1000 w) = (ok, st1, x1, w2)"
    by (metis prod.collapse)
  obtain t w3 where now: "os_now_ms os w2 = (t, w3)" by fastforce
  have w2: "w2 = snd (os_pread os (user_fd x) 4 (base + kRegStatus) (os_usleep os 1000 w))"
    using rr by (rule read_reg_effects)
  have i2: "inv w2" unfolding w2 by (intro inv_pread inv_usleep less.prems)
  have i3: "inv w3" using inv_now [OF i2] now by simp
  have "time w + 1 \<le> time (os_usleep os 1000 w)" using time_usleep [of w 1000] by simp
  also have "\<dots> \<le> time w2" unfolding w2 by (rule time_pread)
  finally have tw: "time w + 1 \<le> time w2" .
  show ?case
  proof (cases "ok \<and> st1 AND (kStatusDone OR kStatusError) = 0 \<and> t < deadline")
    case True
    have "time w2 < unat deadline"
    proof (rule ccontr)
      assume "\<not> time w2 < unat deadline"
      then have "of_nat (unat deadline) \<le> fst (os_now_ms os w2)"
        using clock_reached [of "unat deadline" w2] unat_below_exp [of deadline] by simp
      then show False using True now leD by auto
    qed
    moreover have "time w2 \<le> time w3" using time_now [of w2] now by simp
    ultimately have "unat deadline - time w3 < unat deadline - time w" using tw by linarith
    from less.hyps [OF this i3] show ?thesis using rr now True
      by (subst poll_loop.simps) (simp add: Let_def)
  next
    case False
    then show ?thesis using rr now i2 i3 by (subst poll_loop.simps) (auto simp: Let_def)
  qed
qed

lemma inv_read_sizes:
  "inv w \<Longrightarrow> read_sizes os base k i acc x w = (r, x', w') \<Longrightarrow> inv w'"
proof (induction k arbitrary: i acc x w)
  case 0
  then show ?case by simp
next
  case (Suc k)
  obtain ok sz x1 w1 where rr: "read_reg os x (base + kRegSstableSizesBase + of_nat (i * 4)) 0 w = (ok, sz, x1, w1)"
    by (metis prod.collapse)
  have "inv w1" using read_reg_effects [OF rr] inv_pread Suc.prems(1) by simp
  then show ?case using Suc.IH Suc.prems(2) rr by (auto split: if_splits)
qed

lemma inv_read_results:
  assumes "inv w" and "read_results os base x w = (r, x', w')"
  shows "inv w'"
proof -
  obtain ok cnt x1 w1 where rr: "read_reg os x (base + kRegSstableCount) 0 w = (ok, cnt, x1, w1)"
    by (metis prod.collapse)
  have "inv w1" using read_reg_effects [OF rr] inv_pread assms(1) by simp
  then show ?thesis using assms(2) rr inv_read_sizes by (auto simp: read_results_def split: if_splits)
qed

lemma read_back_returns:
  "inv w \<Longrightarrow> \<exists>s os' x' w'. read_back os cfg i off szs outs x w = Some (s, os', x', w') \<and> inv w'"
proof (induction szs arbitrary: i off outs x w)
  case Nil
  then show ?case by simp
next
  case (Cons sz szs)
  obtain ok b x1 w1 where dma:
    "dma_from_device os x (dst_ddr_base cfg + off) (replicate (unat sz) 0) (ucast sz) w = Some (ok, b, x1, w1)"
    and i1: "inv w1"
    using from_device_loop_returns [OF Cons.prems] unfolding dma_from_device_def by blast
  then show ?case using Cons.IH [OF i1] by simp
qed

lemma inv_xdma_open: "inv w \<Longrightarrow> xdma_open os x w = (ok, x', w') \<Longrightarrow> inv w'"
  using inv_open unfolding xdma_open_def Let_def
  by (auto split: prod.splits if_splits) (metis snd_conv)+

lemma inv_close_fd: "inv w \<Longrightarrow> inv (snd (close_fd os fd w))"
  using inv_close by (simp add: close_fd_def)

lemma inv_leave: "inv w \<Longrightarrow> leave os s outs x w = Some (s', outs', w') \<Longrightarrow> inv w'"
  using inv_close_fd
  by (auto simp: leave_def xdma_close_def Let_def case_prod_beta)

lemma collect_outputs_returns:
  assumes "inv w"
  shows "\<exists>s outs w'. collect_outputs os cfg x w = Some (s, outs, w') \<and> inv w'"
proof -
  obtain t w0 where now: "os_now_ms os w = (t, w0)" by fastforce
  have i0: "inv w0" using inv_now [OF assms] now by simp
  obtain p x1 w1 where poll: "poll_completion os cfg x w = Some (p, x1, w1)" and i1: "inv w1"
    using poll_loop_returns [OF i0, of "axil_base cfg" "t + ucast (timeout_ms cfg)" 0 x] now
    unfolding poll_completion_def by auto
  obtain rr x2 w2 where res: "read_results os (axil_base cfg) x1 w1 = (rr, x2, w2)" by (metis prod.collapse)
  have i2: "inv w2" using i1 res by (rule inv_read_results)
  have lv: "\<exists>s' o' w'. leave os s outs y v = Some (s', o', w') \<and> inv w'" if "inv v" for s outs y v
    using that inv_leave by (simp add: leave_def)
  show ?thesis
  proof (cases p)
    case (Inl e)
    then show ?thesis using poll lv [OF i1] by (simp add: collect_outputs_def)
  next
    case (Inr st)
    show ?thesis
    proof (cases rr)
      case (Inl e)
      then show ?thesis using poll res \<open>p = Inr st\<close> lv [OF i1] lv [OF i2] by (simp add: collect_outputs_def)
    next
      case (Inr szs)
      obtain s outs x3 w3 where rb: "read_back os cfg 0 0 szs [] x2 w2 = Some (s, outs, x3, w3)" and i3: "inv w3"
        using read_back_returns [OF i2] by blast
      then show ?thesis using poll res \<open>p = Inr st\<close> Inr lv [OF i1] lv [OF i3] by (simp add: collect_outputs_def)
    qed
  qed
qed

lemma to_device_returns:
  assumes "inv w" and "length data < 2 ^ 64"
  shows "\<exists>ok x' w'. dma_to_device os x a data (of_nat (length data)) w = Some (ok, x', w') \<and> inv w'"
  using to_device_loop_returns [OF assms(1), of "of_nat (length data)" data x a] assms(2)
  by (simp add: dma_to_device_def unat_of_nat64)

lemma run_offload_core_returns:
  assumes "inv w" and l0: "length d0 < 2 ^ 64" and l1: "length d1 < 2 ^ 64"
  shows "\<exists>s outs w'. run_offload_core os cfg d0 d1 m w = Some (s, outs, w') \<and> inv w'"
proof -
  obtain opened x1 w1 where op:
    "xdma_open os (xdma_new (cfg_h2c_dev cfg) (cfg_c2h_dev cfg) (cfg_user_dev cfg)) w = (opened, x1, w1)"
    by (metis prod.collapse)
  have i1: "inv w1" using assms(1) op by (rule inv_xdma_open)
  have lv: "\<exists>s' o' w'. leave os s outs y v = Some (s', o', w') \<and> inv w'" if "inv v" for s outs y v
    using that inv_leave by (simp add: leave_def)
  obtain ok0 x2 w2 where t0: "dma_to_device os x1 (src0_ddr_base cfg) d0 (of_nat (length d0)) w1 = Some (ok0, x2, w2)"
    and i2: "inv w2" using to_device_returns [OF i1 l0] by blast
  obtain ok1 x3 w3 where t1: "dma_to_device os x2 (src1_ddr_base cfg) d1 (of_nat (length d1)) w2 = Some (ok1, x3, w3)"
    and i3: "inv w3" using to_device_returns [OF i2 l1] by blast
  obtain x4 w4 where la: "launch_engine os cfg (of_nat (length d0)) (of_nat (length d1)) m x3 w3 = (x4, w4)"
    by fastforce
  have i4: "inv w4" using i3 la by (rule inv_launch)
  show ?thesis
    using op t0 t1 la lv [OF i1] lv [OF i2] lv [OF i3] collect_outputs_returns [OF i4, of cfg x4]
    by (simp add: run_offload_core_def Let_def)
qed

lemma run_offload_returns:
  assumes "inv w"
  shows "\<exists>r. run_offload os cfg p0 b0 p1 b1 out sz w = Some r"
proof -
  obtain s0 d0 w1 where r0: "read_file os p0 w = Some (s0, d0, w1)" and i1: "inv w1"
    using read_file_returns [OF assms] by blast
  obtain s1 d1 w2 where r1: "read_file os p1 w1 = Some (s1, d1, w2)" and i2: "inv w2"
    using read_file_returns [OF i1] by blast
  have "\<exists>s outs w'. run_offload_split os cfg p0 b0 p1 b1 0 [] w = Some (s, outs, w') \<and> inv w'"
  proof (cases "s0 = OK \<and> s1 = OK \<and> length d0 = unat b0 \<and> length d1 = unat b1")
    case True
    then have "length d0 < 2 ^ 64" "length d1 < 2 ^ 64"
      using unat_below_exp [of b0] unat_below_exp [of b1] by simp_all
    then show ?thesis using run_offload_core_returns [OF i2] r0 r1 True assms
      by (simp add: run_offload_split_def)
  next
    case False
    then show ?thesis using r0 r1 assms i1 i2 by (simp add: run_offload_split_def)
  qed
  then obtain s outs w3 where "run_offload_split os cfg p0 b0 p1 b1 0 [] w = Some (s, outs, w3)" and "inv w3"
    by blast
  show ?thesis
  proof (cases "s = OK \<and> outs \<noteq> []")
    case True
    then obtain b bs where "outs = b # bs" by (cases outs) auto
    moreover obtain s' w4 where "write_file os out b (of_nat (length b)) w3 = Some (s', w4)"
      using write_file_returns [OF \<open>inv w3\<close>] by fastforce
    ultimately show ?thesis using True \<open>run_offload_split os cfg p0 b0 p1 b1 0 [] w = Some (s, outs, w3)\<close>
      by (cases "s' = OK") (simp_all add: run_offload_def)
  next
    case False
    then show ?thesis using \<open>run_offload_split os cfg p0 b0 p1 b1 0 [] w = Some (s, outs, w3)\<close>
      by (auto simp: run_offload_def split: list.splits)
  qed
qed

end

end
