(* ===== verification/Offload_Safety.thy ===== *)
theory Offload_Safety
  imports Offload_Driver
begin

text \<open>
  What the offload pipeline guarantees whatever the operating system and the card do: the footer
  scan is exact, success implies a bounded and non-empty result and a DONE status without ERROR,
  and every kind of failure is reported under one fixed class of status codes.
\<close>

section \<open>FindSStableEnd\<close>

definition magic_at :: "byte list \<Rightarrow> nat \<Rightarrow> bool" where
  "magic_at buf i \<longleftrightarrow> 8 \<le> i \<and> take 8 (drop (i - 8) buf) = kMagic"

lemma find_end_loop_greatest:
  "find_end_loop buf i =
     (if \<exists>j\<le>i. magic_at buf j then GREATEST j. j \<le> i \<and> magic_at buf j else 0)"
proof (induction i rule: less_induct)
  case (less i)
  consider (small) "i < 8" | (hit) "magic_at buf i" | (miss) "8 \<le> i" "\<not> magic_at buf i" by force
  then show ?case
  proof cases
    case small
    then have no: "\<not> (\<exists>j\<le>i. magic_at buf j)" by (auto simp: magic_at_def)
    show ?thesis unfolding if_not_P [OF no] using small by (subst find_end_loop.simps) simp
  next
    case hit
    then have "(GREATEST j. j \<le> i \<and> magic_at buf j) = i" by (intro Greatest_equality) auto
    then show ?thesis using hit by (subst find_end_loop.simps) (auto simp: magic_at_def)
  next
    case miss
    have eq: "j \<le> i \<and> magic_at buf j \<longleftrightarrow> j \<le> i - 1 \<and> magic_at buf j" for j
      using miss by (cases "j = i") auto
    have "find_end_loop buf i = find_end_loop buf (i - 1)"
      using miss by (subst find_end_loop.simps) (simp add: magic_at_def)
    also have "\<dots> = (if \<exists>j. j \<le> i - 1 \<and> magic_at buf j then GREATEST j. j \<le> i - 1 \<and> magic_at buf j else 0)"
      using less [of "i - 1"] miss by simp
    finally show ?thesis unfolding eq [symmetric] .
  qed
qed

lemma find_sstable_end_eq_loop: "find_sstable_end buf len = find_end_loop buf len"
  by (cases "len < 8") (simp_all add: find_sstable_end_def find_end_loop.simps [of buf len])

lemma find_sstable_end_greatest:
  "find_sstable_end buf len =
     (if \<exists>j\<le>len. magic_at buf j then GREATEST j. j \<le> len \<and> magic_at buf j else 0)"
  by (simp add: find_sstable_end_eq_loop find_end_loop_greatest)

lemma find_sstable_end_iff:
  "find_sstable_end buf len = n \<and> n \<noteq> 0 \<longleftrightarrow>
     n \<le> len \<and> magic_at buf n \<and> (\<forall>j. n < j \<and> j \<le> len \<longrightarrow> \<not> magic_at buf j)"
proof
  assume L: "find_sstable_end buf len = n \<and> n \<noteq> 0"
  then have ex: "\<exists>j. j \<le> len \<and> magic_at buf j" and n: "n = (GREATEST j. j \<le> len \<and> magic_at buf j)"
    by (auto simp: find_sstable_end_greatest split: if_splits)
  have "n \<le> len \<and> magic_at buf n"
    unfolding n using ex by (rule GreatestI_ex_nat [where b = len]) simp
  moreover have "j \<le> n" if "j \<le> len \<and> magic_at buf j" for j
    unfolding n using that by (rule Greatest_le_nat [where b = len]) simp
  ultimately show "n \<le> len \<and> magic_at buf n \<and> (\<forall>j. n < j \<and> j \<le> len \<longrightarrow> \<not> magic_at buf j)"
    by (meson not_le)
next
  assume R: "n \<le> len \<and> magic_at buf n \<and> (\<forall>j. n < j \<and> j \<le> len \<longrightarrow> \<not> magic_at buf j)"
  then have "(GREATEST j. j \<le> len \<and> magic_at buf j) = n"
    by (intro Greatest_equality) (auto simp: not_less [symmetric])
  then show "find_sstable_end buf len = n \<and> n \<noteq> 0"
    using R by (auto simp: find_sstable_end_greatest magic_at_def)
qed

lemma find_end_none:
  assumes "\<And>j. j \<le> len \<Longrightarrow> \<not> magic_at buf j"
  shows "find_sstable_end buf len = 0"
proof -
  have no: "\<not> (\<exists>j\<le>len. magic_at buf j)" using assms by blast
  show ?thesis unfolding find_sstable_end_greatest if_not_P [OF no] by simp
qed

lemma find_sstable_end_append_magic:
  "find_sstable_end (xs @ kMagic) (length (xs @ kMagic)) = length (xs @ kMagic)"
proof -
  have "length kMagic = 8" by (simp add: kMagic_def)
  then have "magic_at (xs @ kMagic) (length (xs @ kMagic))" by (simp add: magic_at_def)
  then show ?thesis using find_sstable_end_iff by (metis leD order_refl)
qed

text \<open>
  C27. \<^verbatim>\<open>FindSStableEnd\<close> returns the end of the last occurrence of the LevelDB magic in the
  first \<open>len\<close> bytes, and 0 exactly when there is none.
\<close>

theorem find_sstable_end_last:
  "find_sstable_end buf len =
     (if \<exists>j\<le>len. magic_at buf j then Max {j. j \<le> len \<and> magic_at buf j} else 0)"
proof (cases "\<exists>j\<le>len. magic_at buf j")
  case True
  let ?S = "{j. j \<le> len \<and> magic_at buf j}"
  have fin: "finite ?S" by simp
  then have "Max ?S \<in> ?S" using True by (intro Max_in) auto
  moreover have "\<forall>j. Max ?S < j \<and> j \<le> len \<longrightarrow> \<not> magic_at buf j"
    using Max_ge [OF fin] by (metis (mono_tags, lifting) leD mem_Collect_eq)
  ultimately have "find_sstable_end buf len = Max ?S"
    using find_sstable_end_iff [of buf len "Max ?S"] by blast
  then show ?thesis using True by simp
next
  case False
  then show ?thesis unfolding find_sstable_end_greatest if_not_P [OF False] by simp
qed

lemma magic_at_last:
  assumes "magic_at buf j" and "j \<le> length buf"
  shows "buf ! (j - 1) = 0xdb"
proof -
  have j: "8 \<le> j" and eq: "take 8 (drop (j - 8) buf) = kMagic" using assms(1) by (simp_all add: magic_at_def)
  have "take 8 (drop (j - 8) buf) ! 7 = buf ! (j - 8 + 7)" using j assms(2) by simp
  moreover have "j - 8 + 7 = j - 1" using j by simp
  ultimately show ?thesis using eq by (simp add: kMagic_def)
qed

lemma find_end_stale_tail:
  assumes "0xdb \<notin> set junk"
  shows "find_sstable_end (body @ kMagic @ junk) (length (body @ kMagic @ junk)) = length body + 8"
proof -
  let ?buf = "body @ kMagic @ junk"
  have len: "length kMagic = 8" by (simp add: kMagic_def)
  have "\<not> magic_at ?buf j" if "length body + 8 < j" "j \<le> length ?buf" for j
  proof
    assume "magic_at ?buf j"
    then have last: "?buf ! (j - 1) = 0xdb" using that(2) by (rule magic_at_last)
    define k where "k = j - (length body + 9)"
    have j: "j = length body + 8 + Suc k" and k: "k < length junk" using that len by (simp_all add: k_def)
    have "?buf ! (j - 1) = junk ! k" using j len by (simp add: nth_append)
    with last show False using assms k by (metis nth_mem)
  qed
  moreover have "magic_at ?buf (length body + 8)" using len by (simp add: magic_at_def)
  ultimately show ?thesis using find_sstable_end_iff [of ?buf "length ?buf" "length body + 8"] len by simp
qed

text \<open>
  On a complete table followed by stale bytes of the output buffer \<^verbatim>\<open>FindSStableEnd\<close> returns the
  size of the table, provided the last byte of the magic does not occur in the stale bytes (a
  zeroed buffer, for example).
\<close>

theorem find_sstable_end_stale_tail:
  assumes "0xdb \<notin> set junk"
  shows "find_sstable_end (body @ kMagic @ junk) (length (body @ kMagic @ junk)) = length body + 8"
  using assms by (rule find_end_stale_tail)

theorem find_sstable_end_stale_tail_witness:
  "find_sstable_end ([1, 2, 3] @ kMagic @ [0, 0, 0, 0]) (length ([1, 2, 3] @ kMagic @ [0, 0, 0, 0])) =
    length [1, 2, 3 :: byte] + 8"
  by (rule find_sstable_end_stale_tail) simp

section \<open>Status checks\<close>

lemma done_or_error_bits: "kStatusDone OR kStatusError = 6"
  by (simp add: kStatusDone_def kStatusError_def)

lemma and_two_iff: "(st :: u32) AND 2 = 0 \<longleftrightarrow> \<not> bit st 1"
  using and_exp_eq_0_iff_not_bit [of st 1] by simp

lemma and_four_iff: "(st :: u32) AND 4 = 0 \<longleftrightarrow> \<not> bit st 2"
  using and_exp_eq_0_iff_not_bit [of st 2] by simp

lemma check_status_OK: "check_status cfg st = OK \<longleftrightarrow> bit st 1 \<and> \<not> bit st 2"
  by (simp add: check_status_def kStatusDone_def kStatusError_def and_two_iff and_four_iff)

section \<open>What success means\<close>

lemma length_overwrite_ge: "length buf \<le> length (overwrite buf i bs)"
  by (simp add: overwrite_def)

lemma from_device_loop_grows:
  assumes "dma_from_device_loop os x buf i addr remaining w = Some r"
  shows "length buf \<le> length (fst (snd r))"
proof (induction rule: from_device_loop_induct [OF _ assms])
  case (1 f os x buf i addr remaining w r)
  let ?c = "if remaining < kDmaChunk then remaining else kDmaChunk"
  let ?pr = "os_pread os (c2h_fd x) ?c addr w"
  let ?buf = "overwrite buf i (snd (fst ?pr))"
  show ?case
  proof (cases "remaining > 0 \<and> 0 \<le> fst (fst ?pr)")
    case True
    then have "f os x ?buf (i + nat (fst (fst ?pr))) (addr + word_of_int (fst (fst ?pr)))
        (remaining - word_of_int (fst (fst ?pr))) (snd ?pr) = Some r"
      using 1(2) by (simp add: Let_def case_prod_beta)
    from 1(1) [OF this] show ?thesis using length_overwrite_ge le_trans by blast
  next
    case False
    then show ?thesis using 1(2) length_overwrite_ge [of buf i "snd (fst ?pr)"]
      by (auto simp: Let_def case_prod_beta split: if_splits)
  qed
qed

lemma dma_from_device_length:
  "dma_from_device os x a buf n w = Some (ok, b, x', w') \<Longrightarrow> length buf \<le> length b"
  using from_device_loop_grows by (fastforce simp: dma_from_device_def)

lemma read_sizes_Inr:
  "read_sizes os base k i acc x w = (Inr szs, x', w') \<Longrightarrow> (\<forall>s\<in>set acc. s \<noteq> 0) \<Longrightarrow>
    length szs = length acc + k \<and> (\<forall>s\<in>set szs. s \<noteq> 0)"
proof (induction k arbitrary: i acc x w)
  case 0
  then show ?case by simp
next
  case (Suc k)
  obtain ok sz x1 w1 where rr: "read_reg os x (base + kRegSstableSizesBase + of_nat (i * 4)) 0 w = (ok, sz, x1, w1)"
    by (metis prod.collapse)
  have "ok \<and> sz \<noteq> 0 \<and> read_sizes os base k (Suc i) (acc @ [sz]) x1 w1 = (Inr szs, x', w')"
    using Suc.prems(1) rr by (auto split: if_splits)
  with Suc.IH [of "Suc i" "acc @ [sz]" x1 w1] Suc.prems(2) show ?case by auto
qed

lemma read_results_Inr:
  assumes "read_results os base x w = (Inr szs, x', w')"
  shows "szs \<noteq> [] \<and> length szs \<le> 16 \<and> (\<forall>s\<in>set szs. s \<noteq> 0)"
proof -
  obtain ok cnt x1 w1 where rr: "read_reg os x (base + kRegSstableCount) 0 w = (ok, cnt, x1, w1)"
    by (metis prod.collapse)
  have cnt: "cnt \<noteq> 0" "cnt \<le> 16" and rs: "read_sizes os base (unat cnt) 0 [] x1 w1 = (Inr szs, x', w')"
    using assms rr by (auto simp: read_results_def kMaxSstables_def split: if_splits)
  have "length szs = unat cnt" and nz: "\<forall>s\<in>set szs. s \<noteq> 0"
    using read_sizes_Inr [OF rs] by auto
  moreover have "0 < unat cnt" using cnt(1) by (simp add: unat_gt_0)
  moreover have "unat cnt \<le> 16" using cnt(2) by (simp add: word_le_nat_alt)
  ultimately show ?thesis by auto
qed

lemma read_back_OK:
  "read_back os cfg i off szs outs x w = Some (OK, outs', x', w') \<Longrightarrow>
    (\<forall>s\<in>set szs. s \<noteq> 0) \<Longrightarrow> (\<forall>b\<in>set outs. b \<noteq> []) \<Longrightarrow>
    length outs' = length outs + length szs \<and> (\<forall>b\<in>set outs'. b \<noteq> [])"
proof (induction szs arbitrary: i off outs x w)
  case Nil
  then show ?case by simp
next
  case (Cons sz szs)
  from Cons.prems(1) obtain buf x1 w1 where
    dma: "dma_from_device os x (dst_ddr_base cfg + off) (replicate (unat sz) 0) (ucast sz) w = Some (True, buf, x1, w1)"
    and rest: "read_back os cfg (Suc i) (off + align64 sz) szs (outs @ [buf]) x1 w1 = Some (OK, outs', x', w')"
    by (auto split: option.splits if_splits)
  have "0 < unat sz" using Cons.prems(2) by (simp add: unat_gt_0)
  then have "buf \<noteq> []" using dma_from_device_length [OF dma] by auto
  with Cons.IH [OF rest] Cons.prems(2,3) show ?case by auto
qed

section \<open>Classes of failure\<close>

text \<open>The pipeline proper only ever fails with an I/O error or a corruption.\<close>

primrec core_failure :: "status \<Rightarrow> bool" where
  "core_failure OK = False"
| "core_failure (IOError m) = True"
| "core_failure (Corruption m) = True"
| "core_failure (InvalidArgument m) = False"

lemma core_failure_not_OK: "core_failure s \<Longrightarrow> s \<noteq> OK"
  by auto

lemma poll_loop_Inl:
  assumes "poll_loop os base deadline st x w = Some r"
  shows "case fst r of Inl e \<Rightarrow> core_failure e | Inr _ \<Rightarrow> True"
proof (induction rule: poll_loop_induct [OF _ assms])
  case (1 f os base deadline st x w r)
  obtain ok st1 x1 w2 where rr: "read_reg os x (base + kRegStatus) st (os_usleep os 1000 w) = (ok, st1, x1, w2)"
    by (metis prod.collapse)
  obtain t w3 where now: "os_now_ms os w2 = (t, w3)" by fastforce
  show ?case
  proof (cases "ok \<and> st1 AND (kStatusDone OR kStatusError) = 0 \<and> t < deadline")
    case True
    then have "f os base deadline st1 x1 w3 = Some r" using 1(2) rr now by (simp add: Let_def)
    then show ?thesis by (rule 1(1))
  next
    case False
    then show ?thesis using 1(2) rr now by (auto simp: Let_def split: if_splits)
  qed
qed

lemma poll_completion_Inl:
  "poll_completion os cfg x w = Some (Inl e, x1, w1) \<Longrightarrow> core_failure e"
  by (auto simp: poll_completion_def case_prod_beta dest: poll_loop_Inl)

lemma read_sizes_Inl:
  "read_sizes os base k i acc x w = (Inl e, x', w') \<Longrightarrow> core_failure e"
  by (induction k arbitrary: i acc x w) (auto split: if_splits prod.splits)

lemma read_results_Inl: "read_results os base x w = (Inl e, x', w') \<Longrightarrow> core_failure e"
  by (auto simp: read_results_def dest: read_sizes_Inl split: if_splits prod.splits)

lemma read_back_failure:
  "read_back os cfg i off szs outs x w = Some (s, outs', x', w') \<Longrightarrow> s = OK \<or> core_failure s"
  by (induction szs arbitrary: i off outs x w) (auto split: option.splits if_splits)

lemma check_status_failure: "check_status cfg st = OK \<or> core_failure (check_status cfg st)"
  by (simp add: check_status_def)

lemmas core_parts = poll_completion_Inl read_results_Inl read_back_failure

text \<open>The ways \<open>collect_outputs\<close> returns.\<close>

lemma collect_outputs_cases:
  assumes "collect_outputs os cfg x w = Some (s, outs, w')"
  obtains (failed) "core_failure s"
  | (completed) st x1 w1 szs x2 w2 x3 w3 where
      "poll_completion os cfg x w = Some (Inr st, x1, w1)" "check_status cfg st = OK"
      "read_results os (axil_base cfg) x1 w1 = (Inr szs, x2, w2)"
      "read_back os cfg 0 0 szs [] x2 w2 = Some (s, outs, x3, w3)" "s = OK"
proof -
  from assms obtain pr x1 w1 where poll: "poll_completion os cfg x w = Some (pr, x1, w1)"
    by (auto simp: collect_outputs_def split: option.splits)
  show thesis
  proof (cases pr)
    case (Inl e)
    then show thesis using assms poll poll_completion_Inl [of os cfg x w e x1 w1] failed
      by (simp add: collect_outputs_def leave_def)
  next
    case (Inr st)
    show thesis
    proof (cases "check_status cfg st = OK")
      case False
      then show thesis using assms poll Inr check_status_failure [of cfg st] failed
        by (simp add: collect_outputs_def leave_def)
    next
      case ok: True
      obtain rr x2 w2 where res: "read_results os (axil_base cfg) x1 w1 = (rr, x2, w2)" by (metis prod.collapse)
      show thesis
      proof (cases rr)
        case (Inl e)
        then show thesis using assms poll Inr ok res read_results_Inl [of os "axil_base cfg" x1 w1 e x2 w2] failed
          by (simp add: collect_outputs_def leave_def)
      next
        case (Inr szs)
        then obtain x3 w3 where rb: "read_back os cfg 0 0 szs [] x2 w2 = Some (s, outs, x3, w3)"
          using assms poll \<open>pr = Inr st\<close> ok res
          by (auto simp: collect_outputs_def leave_def split: option.splits)
        then show thesis
          using read_back_failure [OF rb] failed completed poll \<open>pr = Inr st\<close> ok res Inr by metis
      qed
    qed
  qed
qed

text \<open>The ways the core returns: it fails before the engine is started, or collects outputs.\<close>

lemma run_offload_core_cases:
  assumes "run_offload_core os cfg d0 d1 m w = Some (s, outs, w')"
  obtains (failed) "core_failure s" "outs = []"
  | (started) x1 w1 x2 w2 x3 w3 x4 w4 where
      "xdma_open os (xdma_new (cfg_h2c_dev cfg) (cfg_c2h_dev cfg) (cfg_user_dev cfg)) w = (True, x1, w1)"
      "dma_to_device os x1 (src0_ddr_base cfg) d0 (of_nat (length d0)) w1 = Some (True, x2, w2)"
      "dma_to_device os x2 (src1_ddr_base cfg) d1 (of_nat (length d1)) w2 = Some (True, x3, w3)"
      "launch_engine os cfg (of_nat (length d0)) (of_nat (length d1)) m x3 w3 = (x4, w4)"
      "collect_outputs os cfg x4 w4 = Some (s, outs, w')"
proof -
  obtain opened x1 w1 where op:
    "xdma_open os (xdma_new (cfg_h2c_dev cfg) (cfg_c2h_dev cfg) (cfg_user_dev cfg)) w = (opened, x1, w1)"
    by (metis prod.collapse)
  show thesis
  proof (cases "\<not> opened \<or> (\<exists>x2 w2. dma_to_device os x1 (src0_ddr_base cfg) d0 (of_nat (length d0)) w1 = Some (False, x2, w2))")
    case True
    then show thesis using assms op failed
      by (cases opened) (auto simp: run_offload_core_def leave_def Let_def)
  next
    case False
    then obtain x2 w2 where d0: "dma_to_device os x1 (src0_ddr_base cfg) d0 (of_nat (length d0)) w1 = Some (True, x2, w2)"
      using assms op by (auto simp: run_offload_core_def leave_def Let_def split: option.splits bool.splits if_splits)
    obtain ok x3 w3 where d1: "dma_to_device os x2 (src1_ddr_base cfg) d1 (of_nat (length d1)) w2 = Some (ok, x3, w3)"
      using assms op d0 False by (auto simp: run_offload_core_def leave_def Let_def split: option.splits)
    obtain x4 w4 where la: "launch_engine os cfg (of_nat (length d0)) (of_nat (length d1)) m x3 w3 = (x4, w4)"
      by fastforce
    show thesis
    proof (cases ok)
      case True
      then show thesis using assms op d0 d1 la False started
        by (simp add: run_offload_core_def leave_def Let_def)
    next
      case f: False
      then show thesis using assms op d0 d1 False failed
        by (auto simp: run_offload_core_def leave_def Let_def)
    qed
  qed
qed

section \<open>Guarantees of the pipeline\<close>

text \<open>
  C6. When \<^verbatim>\<open>RunOffloadCore\<close> reports OK, both sources were transferred completely before the engine was
  launched, the last STATUS read had DONE set and ERROR clear, and the caller holds between 1 and
  16 outputs, none of them empty. Nothing is assumed about the operating system or the card.
\<close>

theorem run_offload_core_success:
  assumes "run_offload_core os cfg d0 d1 m w = Some (OK, outs, w')"
  shows "1 \<le> length outs \<and> length outs \<le> 16 \<and> (\<forall>b\<in>set outs. b \<noteq> []) \<and>
    (\<exists>x1 w1 x2 w2 x3 w3 x4 w4 st x5 w5.
       dma_to_device os x1 (src0_ddr_base cfg) d0 (of_nat (length d0)) w1 = Some (True, x2, w2) \<and>
       dma_to_device os x2 (src1_ddr_base cfg) d1 (of_nat (length d1)) w2 = Some (True, x3, w3) \<and>
       launch_engine os cfg (of_nat (length d0)) (of_nat (length d1)) m x3 w3 = (x4, w4) \<and>
       poll_completion os cfg x4 w4 = Some (Inr st, x5, w5) \<and> bit st 1 \<and> \<not> bit st 2)"
  using assms
proof (cases rule: run_offload_core_cases)
  case failed
  then show ?thesis by simp
next
  case (started x1 w1 x2 w2 x3 w3 x4 w4)
  from started(5) show ?thesis
  proof (cases rule: collect_outputs_cases)
    case failed
    then show ?thesis by simp
  next
    case (completed st x5 w5 szs x6 w6 x7 w7)
    have szs: "szs \<noteq> [] \<and> length szs \<le> 16 \<and> (\<forall>s\<in>set szs. s \<noteq> 0)"
      using completed(3) by (rule read_results_Inr)
    then have "length outs = length szs \<and> (\<forall>b\<in>set outs. b \<noteq> [])"
      using read_back_OK [OF completed(4)] by simp
    then have outs: "1 \<le> length outs \<and> length outs \<le> 16 \<and> (\<forall>b\<in>set outs. b \<noteq> [])"
      using szs by (cases szs) auto
    have bits: "bit st 1" "\<not> bit st 2" using completed(2) by (simp_all add: check_status_OK)
    from outs show ?thesis
      by (intro conjI exI) (simp, simp, simp, rule started(2), rule started(3), rule started(4),
        rule completed(1), rule bits(1), rule bits(2))
  qed
qed

end
