(* ===== verification/Card_Engine.thy ===== *)
theory Card_Engine
  imports Card_Model Offload_Liveness Offload_Safety
begin

text \<open>
  The driver's steps on the card, one by one: the liveness interface is interpreted on the card's
  world, and the register programming, the polling loop, the result registers and the read-back
  are computed in closed form.
\<close>

section \<open>The card is a live system\<close>

definition card_live :: "card \<Rightarrow> bool" where
  "card_live w \<longleftrightarrow> 0 < c_xfer w"

lemma c_xfer_settle [simp]: "c_xfer (card_settle w) = c_xfer w"
  by (simp add: card_settle_def split: option.split)

lemma c_clock_settle [simp]: "c_clock (card_settle w) = c_clock w"
  by (simp add: card_settle_def split: option.split)

lemma c_xfer_reg_write [simp]: "c_xfer (card_reg_write eng a v w) = c_xfer w"
  by (simp add: card_reg_write_def Let_def)

lemma card_live_open: "card_live w \<Longrightarrow> card_live (snd (card_open path fl w))"
  by (auto simp: card_live_def card_open_def card_alloc_def split: option.splits open_flags.splits)

lemma card_pread_count:
  "fst (fst (card_pread fd c a w)) = int (min (unat c) (c_xfer w)) \<or>
   (c = 4 \<and> fst (fst (card_pread fd c a w)) = 4) \<or> fst (fst (card_pread fd c a w)) = -1"
  by (cases "c_fds w fd") (simp_all add: card_pread_def split: ofd.split dev.split)

interpretation card_live: live_os "card_os eng" card_live "\<lambda>w. c_clock w div 1000" for eng
proof unfold_locales
  fix w fd a and bs :: "byte list"
  assume "card_live w" and "bs \<noteq> []"
  then show "fst (os_pwrite (card_os eng) fd bs a w) \<noteq> 0 \<and>
      fst (os_pwrite (card_os eng) fd bs a w) \<le> int (length bs)"
    by (auto simp: card_live_def card_pwrite_def card_fail_def split: option.splits ofd.splits dev.splits)
next
  fix w fd a and c :: u64
  assume "card_live w" and "0 < c"
  then have pos: "0 < min (unat c) (c_xfer w)" by (simp add: card_live_def word_gt_0 unat_gt_0)
  consider "fst (fst (card_pread fd c a w)) = int (min (unat c) (c_xfer w))"
    | "c = 4 \<and> fst (fst (card_pread fd c a w)) = 4" | "fst (fst (card_pread fd c a w)) = -1"
    using card_pread_count [of fd c a w] by blast
  then show "fst (fst (os_pread (card_os eng) fd c a w)) \<noteq> 0 \<and>
      fst (fst (os_pread (card_os eng) fd c a w)) \<le> int (unat c)"
  proof cases
    case 1
    then show ?thesis using pos by (simp only: card_os_simps of_nat_le_iff of_nat_eq_0_iff) simp
  next
    case 3
    then show ?thesis by simp
  qed auto
next
  fix w fd and c :: u64
  show "fst (fst (os_read (card_os eng) fd c w)) \<le> int (unat c)"
    by (simp add: card_read_def Let_def split: option.splits ofd.splits)
next
  fix w fd bs
  show "fst (os_write (card_os eng) fd bs w) \<le> int (length bs)"
    by (simp add: card_write_def card_fail_def Let_def split: option.splits ofd.splits)
next
  fix w path fl
  assume "card_live w"
  then show "card_live (snd (os_open (card_os eng) path fl w))" using card_live_open by simp
next
  fix w fd bs a
  assume "card_live w"
  then show "card_live (snd (os_pwrite (card_os eng) fd bs a w))"
    by (auto simp: card_live_def card_pwrite_def card_fail_def split: option.splits ofd.splits dev.splits)
next
  fix w fd a and c :: u64
  assume "card_live w"
  then show "card_live (snd (os_pread (card_os eng) fd c a w))"
    by (auto simp: card_live_def card_pread_def split: option.splits ofd.splits dev.splits)
next
  fix w fd and c :: u64
  assume "card_live w"
  then show "card_live (snd (os_read (card_os eng) fd c w))"
    by (auto simp: card_live_def card_read_def Let_def split: option.splits ofd.splits)
next
  fix w fd bs
  assume "card_live w"
  then show "card_live (snd (os_write (card_os eng) fd bs w))"
    by (auto simp: card_live_def card_write_def card_put_def card_fail_def Let_def split: option.splits ofd.splits)
next
  fix w fd
  assume "card_live w"
  then show "card_live (snd (os_fstat (card_os eng) fd w))"
    by (auto simp: card_live_def card_fstat_def split: option.splits ofd.splits)
next
  fix w us
  show "c_clock w div 1000 + us div 1000 \<le> c_clock (os_usleep (card_os eng) us w) div 1000"
    by (simp add: card_usleep_def div_add1_eq [of "c_clock w" us])
next
  fix w fd c a
  show "c_clock w div 1000 \<le> c_clock (snd (os_pread (card_os eng) fd c a w)) div 1000"
    by (auto simp: card_pread_def split: option.splits ofd.splits dev.splits)
next
  fix d :: nat and w :: card
  assume "d \<le> c_clock w div 1000" and "d < (2::nat) ^ 64"
  then show "of_nat d \<le> fst (os_now_ms (card_os eng) w)"
    by (auto simp: card_now_ms_def word_le_nat_alt unat_of_nat64)
qed (auto simp: card_live_def card_close_def card_usleep_def card_now_ms_def)

section \<open>Programming the registers\<close>

text \<open>The user descriptor is open and the register file accepts writes.\<close>

definition regs_ready :: "xdma \<Rightarrow> card \<Rightarrow> bool" where
  "regs_ready x w \<longleftrightarrow> c_fds w (user_fd x) = Some (DevFd DevUser) \<and> c_bar_wr w"

text \<open>The register contents that \<^verbatim>\<open>RunOffloadCore\<close> means to leave behind.\<close>

definition programmed_regs :: "config \<Rightarrow> u64 \<Rightarrow> u64 \<Rightarrow> u32 \<Rightarrow> axil_regs" where
  "programmed_regs cfg n0 n1 m =
     \<lparr>r_ctrl = 1, r_done = False, r_error = False,
      r_src0_base = src0_ddr_base cfg, r_src0_size = ucast n0,
      r_src1_base = src1_ddr_base cfg, r_src1_size = ucast n1,
      r_dst_base = dst_ddr_base cfg, r_dst_stride = dst_blk_stride cfg,
      r_mid_base = mid_ddr_base cfg, r_max_file_size = m\<rparr>"

lemma write_reg_card:
  "regs_ready x w \<Longrightarrow> write_reg (card_os eng) x a v w = (True, x, card_reg_write eng (ucast a) v w)"
  by (simp add: write_reg_def regs_ready_def card_pwrite_def)

lemma regs_ready_write [simp]: "regs_ready x (card_reg_write eng a v w) = regs_ready x w"
  by (simp add: regs_ready_def card_reg_write_def Let_def)

lemma write_regs_card:
  "regs_ready x w \<Longrightarrow> write_regs (card_os eng) base ((off, v) # ps) x w =
     write_regs (card_os eng) base ps x (card_reg_write eng (ucast (base + off)) v w)"
  by (simp add: write_reg_card)

lemma axil_write_ctrl: "a \<noteq> 0 \<Longrightarrow> r_ctrl (axil_write a v r) = r_ctrl r"
  by (simp add: axil_write_def)

lemma card_reg_write_config:
  "a \<noteq> 0 \<Longrightarrow> card_reg_write eng a v w = w\<lparr>c_regs := axil_write a v (c_regs w)\<rparr>"
  by (auto simp: card_reg_write_def Let_def pulse_status_def start_pulse_def clear_pulse_def axil_write_ctrl)

lemma lo32_get_lo: "lo32 a = get_lo a"
  unfolding lo32_def get_lo_def low_half_mask by (rule bit_word_eqI) (simp add: bit_simps)

lemma hi32_get_hi: "hi32 a = get_hi a"
  by (simp add: hi32_def get_hi_def)

lemma regs_ready_regs [simp]: "regs_ready x (w\<lparr>c_regs := r\<rparr>) = regs_ready x w"
  by (simp add: regs_ready_def)

lemma ucast_reg_addresses:
  "ucast (kRegSrc0BaseLo) = (8 :: u32)" "ucast (kRegSrc0BaseHi) = (12 :: u32)"
  "ucast (kRegSrc0Size) = (16 :: u32)" "ucast (kRegSrc1BaseLo) = (20 :: u32)"
  "ucast (kRegSrc1BaseHi) = (24 :: u32)" "ucast (kRegSrc1Size) = (28 :: u32)"
  "ucast (kRegDstBaseLo) = (32 :: u32)" "ucast (kRegDstBaseHi) = (36 :: u32)"
  "ucast (kRegDstStride) = (40 :: u32)" "ucast (kRegMidBaseLo) = (44 :: u32)"
  "ucast (kRegMidBaseHi) = (48 :: u32)" "ucast (kRegMaxFileSize) = (56 :: u32)"
  "ucast (kRegCtrl) = (0 :: u32)" "ucast kRegStatus = (4 :: u32)" "ucast kRegSstableCount = (60 :: u32)"
  by (simp_all add: reg_defs)

lemma program_registers_card:
  assumes "regs_ready x w"
  shows "write_regs (card_os eng) 0 (register_program cfg n0 n1 m) x w =
    (x, w\<lparr>c_regs := (programmed_regs cfg n0 n1 m)\<lparr>r_ctrl := r_ctrl (c_regs w),
       r_done := r_done (c_regs w), r_error := r_error (c_regs w)\<rparr>\<rparr>)"
  using assms
  by (simp add: register_program_def write_regs_card ucast_reg_addresses card_reg_write_config
      del: write_regs.simps(2))
    (simp add: axil_write_def lo32_get_lo hi32_get_hi set_hi_set_lo programmed_regs_def)

lemma clear_write_card:
  assumes "\<not> bit (r_ctrl (c_regs w)) 1"
  shows "card_reg_write eng 0 2 w =
    w\<lparr>c_regs := (c_regs w)\<lparr>r_ctrl := 2, r_done := False, r_error := False\<rparr>,
      c_pending := None, c_count := 0, c_sizes := []\<rparr>"
  using assms
  by (simp add: card_reg_write_def Let_def pulse_status_def start_pulse_def clear_pulse_def axil_write_def)

lemma lower_write_card:
  "card_reg_write eng 0 0 w = w\<lparr>c_regs := (c_regs w)\<lparr>r_ctrl := 0\<rparr>\<rparr>"
  by (simp add: card_reg_write_def Let_def pulse_status_def start_pulse_def clear_pulse_def axil_write_def)

lemma start_write_card:
  assumes "\<not> bit (r_ctrl (c_regs w)) 0" and "c_pending w = None"
  shows "card_reg_write eng 0 1 w =
    (let regs = (c_regs w)\<lparr>r_ctrl := 1, r_done := False, r_error := False\<rparr>; res = eng regs (c_ddr w)
     in w\<lparr>c_regs := regs, c_count := 0, c_sizes := [], c_pending := Some (c_clock w + er_latency res, res)\<rparr>)"
  using assms
  by (simp add: card_reg_write_def Let_def pulse_status_def start_pulse_def clear_pulse_def axil_write_def)

lemma launch_engine_card:
  assumes ready: "regs_ready x w" and base: "axil_base cfg = 0"
    and ctrl: "\<not> bit (r_ctrl (c_regs w)) 1"
  shows "launch_engine (card_os eng) cfg n0 n1 m x w =
    (let regs = programmed_regs cfg n0 n1 m; res = eng regs (c_ddr w)
     in (x, w\<lparr>c_clock := c_clock w + 10000, c_regs := regs, c_count := 0, c_sizes := [],
              c_pending := Some (c_clock w + 10000 + er_latency res, res)\<rparr>))"
proof -
  let ?w1 = "w\<lparr>c_regs := (c_regs w)\<lparr>r_ctrl := 0, r_done := False, r_error := False\<rparr>,
      c_pending := None, c_count := 0, c_sizes := [], c_clock := c_clock w + 10000\<rparr>"
  have clear: "clear_engine (card_os eng) 0 x w = (x, ?w1)"
    using ready ctrl
    by (simp add: clear_engine_def write_regs_card ucast_reg_addresses clear_write_card
        card_usleep_def card_settle_def regs_ready_def lower_write_card del: write_regs.simps(2))
  have "regs_ready x ?w1" using ready by (simp add: regs_ready_def)
  note prog = program_registers_card [OF this, of eng cfg n0 n1 m]
  show ?thesis
    using ready
    by (simp add: launch_engine_def base clear prog start_engine_def write_regs_card regs_ready_def
        ucast_reg_addresses start_write_card programmed_regs_def Let_def del: write_regs.simps(2))
qed

section \<open>Polling the status register\<close>

definition status_ready :: "xdma \<Rightarrow> card \<Rightarrow> bool" where
  "status_ready x w \<longleftrightarrow> c_fds w (user_fd x) = Some (DevFd DevUser) \<and> c_bar_rd w"

definition card_finished :: "engine_result \<Rightarrow> nat \<Rightarrow> card \<Rightarrow> card" where
  "card_finished res t w =
     w\<lparr>c_clock := t, c_pending := None, c_ddr := er_ddr res, c_count := er_count res,
       c_sizes := er_sizes res, c_counters := er_counters res,
       c_regs := (c_regs w)\<lparr>r_done := \<not> er_error res, r_error := er_error res\<rparr>\<rparr>"

definition final_status :: "engine_result \<Rightarrow> u32" where
  "final_status res = (if er_error res then 4 else 2)"

lemma read_reg_card:
  "status_ready x w \<Longrightarrow> read_reg (card_os eng) x a old w = (True, card_reg_read w (ucast a), x, w)"
  by (simp add: read_reg_def status_ready_def card_pread_def overwrite_def Let_def)

lemma card_usleep_pending:
  "c_pending w = Some (T, res) \<Longrightarrow> card_usleep us w =
    (if T \<le> c_clock w + us then card_finished res (c_clock w + us) w else w\<lparr>c_clock := c_clock w + us\<rparr>)"
  by (simp add: card_usleep_def card_settle_def card_finished_def)

lemma status_ready_clock [simp]: "status_ready x (w\<lparr>c_clock := t\<rparr>) = status_ready x w"
  by (simp add: status_ready_def)

lemma status_ready_finished [simp]: "status_ready x (card_finished res t w) = status_ready x w"
  by (simp add: status_ready_def card_finished_def)

lemma status_busy:
  "c_pending w \<noteq> None \<Longrightarrow> \<not> r_done (c_regs w) \<Longrightarrow> \<not> r_error (c_regs w) \<Longrightarrow> card_reg_read w 4 = 1"
  by (simp add: card_reg_read_def axil_read_def status_word_def)

lemma status_finished: "card_reg_read (card_finished res t w) 4 = final_status res"
  by (simp add: card_reg_read_def axil_read_def status_word_def final_status_def card_finished_def)

lemma final_status_bits: "final_status res AND (kStatusDone OR kStatusError) \<noteq> 0"
  by (simp add: final_status_def kStatusDone_def kStatusError_def)

lemma busy_bits: "(1 :: u32) AND (kStatusDone OR kStatusError) = 0"
  by (simp add: kStatusDone_def kStatusError_def)

lemma poll_step_done:
  assumes "status_ready x w" and "c_pending w = Some (T, res)" and "T \<le> c_clock w + 1000"
  shows "poll_loop (card_os eng) 0 deadline st x w =
    Some (Inr (final_status res), x, card_finished res (c_clock w + 1000) w)"
  using assms
  by (subst poll_loop.simps)
    (simp add: card_usleep_pending read_reg_card ucast_reg_addresses status_finished final_status_bits)

lemma poll_step_busy:
  assumes "status_ready x w" and "c_pending w = Some (T, res)" and "\<not> T \<le> c_clock w + 1000"
    and "\<not> r_done (c_regs w)" and "\<not> r_error (c_regs w)"
    and deadline: "unat deadline = c_clock w div 1000 + n"
  shows "poll_loop (card_os eng) 0 deadline st x w =
    (let w1 = w\<lparr>c_clock := c_clock w + 1000\<rparr>
     in if 1 < n then poll_loop (card_os eng) 0 deadline 1 x w1 else Some (Inr 1, x, w1))"
proof -
  let ?w1 = "w\<lparr>c_clock := c_clock w + 1000\<rparr>"
  obtain t where now: "card_now_ms ?w1 = (t, ?w1)" by (simp add: card_now_ms_def)
  have "t = of_nat (min ((c_clock w + 1000) div 1000) (2 ^ 64 - 1))"
    using now by (simp add: card_now_ms_def)
  then have "unat t = min ((c_clock w + 1000) div 1000) (2 ^ 64 - 1)"
    by (simp only: unat_of_nat64) (simp add: unat_of_nat64 min_def)
  then have "t < deadline \<longleftrightarrow> 1 < n"
    using deadline unat_below_exp [of deadline] by (auto simp: word_less_nat_alt min_def)
  then show ?thesis using assms now
    by (subst poll_loop.simps)
      (simp add: card_usleep_pending read_reg_card ucast_reg_addresses status_busy busy_bits Let_def)
qed

text \<open>
  \<open>n\<close> is the number of milliseconds to the deadline. The loop polls at least once, every
  millisecond, and stops at the first poll at which the engine has finished.
\<close>

lemma poll_loop_card:
  assumes "status_ready x w" and "c_pending w = Some (T, res)"
    and "\<not> r_done (c_regs w)" and "\<not> r_error (c_regs w)"
    and "unat deadline = c_clock w div 1000 + n"
  shows "if T \<le> c_clock w + 1000 * max 1 n
    then \<exists>j. 1 \<le> j \<and> j \<le> max 1 n \<and> T \<le> c_clock w + 1000 * j \<and> (j = 1 \<or> c_clock w + 1000 * (j - 1) < T) \<and>
      poll_loop (card_os eng) 0 deadline st x w =
        Some (Inr (final_status res), x, card_finished res (c_clock w + 1000 * j) w)
    else poll_loop (card_os eng) 0 deadline st x w =
        Some (Inr 1, x, w\<lparr>c_clock := c_clock w + 1000 * max 1 n\<rparr>)"
  using assms
proof (induction n arbitrary: w st)
  case 0
  show ?case
  proof (cases "T \<le> c_clock w + 1000")
    case True
    then show ?thesis using poll_step_done [OF 0(1,2) True] by (auto intro!: exI [of _ 1])
  next
    case False
    then show ?thesis using poll_step_busy [OF 0(1,2) False 0(3,4,5)] by (simp add: Let_def)
  qed
next
  case (Suc n)
  show ?case
  proof (cases "T \<le> c_clock w + 1000")
    case True
    then show ?thesis using poll_step_done [OF Suc.prems(1,2) True] by (auto intro!: exI [of _ 1])
  next
    case False
    note step = poll_step_busy [OF Suc.prems(1,2) False Suc.prems(3,4,5), of eng st]
    let ?w1 = "w\<lparr>c_clock := c_clock w + 1000\<rparr>"
    show ?thesis
    proof (cases "n = 0")
      case True
      then show ?thesis using step False by (simp add: Let_def)
    next
      case pos: False
      have fin: "card_finished res t ?w1 = card_finished res t w" for t by (simp add: card_finished_def)
      have "unat deadline = c_clock ?w1 div 1000 + n" using Suc.prems(5) by simp
      note IH = Suc.IH [of ?w1 1, OF _ _ _ _ this]
      show ?thesis
      proof (cases "T \<le> c_clock ?w1 + 1000 * max 1 n")
        case True
        then obtain j where "1 \<le> j" "j \<le> max 1 n" "T \<le> c_clock ?w1 + 1000 * j"
          "j = 1 \<or> c_clock ?w1 + 1000 * (j - 1) < T"
          "poll_loop (card_os eng) 0 deadline 1 x ?w1 =
            Some (Inr (final_status res), x, card_finished res (c_clock ?w1 + 1000 * j) ?w1)"
          using IH Suc.prems by auto
        then show ?thesis using step True pos False fin
          by (intro if_P [THEN iffD2, rotated] exI [of _ "Suc j"]) (auto simp: Let_def algebra_simps)
      next
        case late: False
        then show ?thesis using IH Suc.prems step pos by (simp add: Let_def max_def)
      qed
    qed
  qed
qed

section \<open>Reading the results\<close>

text \<open>The results the engine left are readable: sizes within the 16 registers and not 0.\<close>

definition sane_result :: "engine_result \<Rightarrow> bool" where
  "sane_result res \<longleftrightarrow> \<not> er_error res \<and> er_sizes res \<noteq> [] \<and> length (er_sizes res) \<le> 16 \<and>
     er_count res = of_nat (length (er_sizes res)) \<and> 0 \<notin> set (er_sizes res)"

lemma size_register:
  assumes "i < 16"
  shows "card_reg_read w (ucast (0 + kRegSstableSizesBase + of_nat (i * 4) :: u64)) =
    (if i < length (c_sizes w) then c_sizes w ! i else 0)"
proof -
  have i: "i \<in> set [0..<16]" using assms by simp
  have "ucast (kRegSstableSizesBase + of_nat (i * 4) :: u64) = (0x500 + of_nat (i * 4) :: u32) \<and>
      (0x500 :: u32) \<le> 0x500 + of_nat (i * 4) \<and> (0x500 + of_nat (i * 4) :: u32) < 0x500 + 64 \<and>
      unat (drop_bit 2 (of_nat (i * 4) :: u32)) = i"
    using i unfolding reg_defs by (simp add: upt_rec) (elim disjE; simp)
  then show ?thesis by (simp add: card_reg_read_def axil_read_def Let_def)
qed

lemma read_sizes_card:
  assumes "status_ready x w" and "0 \<notin> set (c_sizes w)" and "length (c_sizes w) \<le> 16"
    and "i + k = length (c_sizes w)"
  shows "read_sizes (card_os eng) 0 k i (take i (c_sizes w)) x w = (Inr (c_sizes w), x, w)"
  using assms
proof (induction k arbitrary: i)
  case 0
  then show ?case by simp
next
  case (Suc k)
  then have i: "i < 16" "i < length (c_sizes w)" by simp_all
  then have "c_sizes w ! i \<noteq> 0" using Suc.prems(2) by (metis nth_mem)
  moreover have "take i (c_sizes w) @ [c_sizes w ! i] = take (Suc i) (c_sizes w)"
    using i by (simp add: take_Suc_conv_app_nth)
  ultimately show ?case using Suc.IH [of "Suc i"] Suc.prems i size_register [OF i(1), of w]
    by (simp add: read_reg_card)
qed

lemma read_results_card:
  assumes "status_ready x w" and "sane_result res" and "c_sizes w = er_sizes res" and "c_count w = er_count res"
  shows "read_results (card_os eng) 0 x w = (Inr (er_sizes res), x, w)"
proof -
  have len: "length (er_sizes res) \<le> 16" "er_sizes res \<noteq> []" using assms(2) by (auto simp: sane_result_def)
  then have u: "unat (er_count res) = length (er_sizes res)"
    using assms(2) by (simp add: sane_result_def unat_of_nat)
  then have "er_count res \<noteq> 0 \<and> \<not> er_count res > kMaxSstables"
    using len by (auto simp: kMaxSstables_def word_less_nat_alt)
  moreover have "card_reg_read w 60 = er_count res"
    using assms(4) by (simp add: card_reg_read_def axil_read_def)
  moreover have "read_sizes (card_os eng) 0 (length (er_sizes res)) 0 [] x w = (Inr (er_sizes res), x, w)"
    using read_sizes_card [of x w 0 "length (er_sizes res)" eng] assms len by (simp add: sane_result_def)
  ultimately show ?thesis using assms(1)
    by (simp add: read_results_def read_reg_card ucast_reg_addresses u)
qed

section \<open>The layout of the outputs\<close>

text \<open>What the driver reads back: one buffer per size, at 64-byte aligned offsets.\<close>

fun read_layout :: "ddr \<Rightarrow> u64 \<Rightarrow> u32 list \<Rightarrow> byte list list" where
  "read_layout d a [] = []"
| "read_layout d a (sz # szs) = mem_read d a (unat sz) # read_layout d (a + align64 sz) szs"

lemma read_back_card:
  assumes "c2h_ready (c2h_fd x) w"
  shows "read_back (card_os eng) cfg i off szs outs x w =
    Some (OK, outs @ read_layout (c_ddr w) (dst_ddr_base cfg + off) szs, x, w)"
  using assms
proof (induction szs arbitrary: i off outs)
  case Nil
  then show ?case by simp
next
  case (Cons sz szs)
  have "length (replicate (unat sz) (0 :: byte)) = unat (ucast sz :: u64)" by simp
  from card_c2h.from_device_ok [OF Cons.prems refl this, of eng "dst_ddr_base cfg + off"]
  have "dma_from_device (card_os eng) x (dst_ddr_base cfg + off) (replicate (unat sz) 0) (ucast sz) w =
      Some (True, mem_read (c_ddr w) (dst_ddr_base cfg + off) (unat sz), x, w)"
    by (auto simp: ddr_fetch_def)
  then show ?case using Cons by (simp add: add.assoc)
qed

end
