(* ===== verification/Card_Offload.thy ===== *)
theory Card_Offload
  imports Card_Engine
begin

text \<open>
  \<^verbatim>\<open>RunOffloadCore\<close> on the card, from the opening of the device files to the destructor: what
  it returns as a function of the engine's result.
\<close>

section \<open>Opening, loading, starting\<close>

text \<open>The configuration names the card's device files and everything works.\<close>

definition card_usable :: "config \<Rightarrow> card \<Rightarrow> bool" where
  "card_usable cfg w \<longleftrightarrow>
     c_devs w (cfg_h2c_dev cfg) = Some DevH2C \<and> c_devs w (cfg_c2h_dev cfg) = Some DevC2H \<and>
     c_devs w (cfg_user_dev cfg) = Some DevUser \<and> 0 \<le> c_next w \<and> 0 < c_xfer w \<and>
     c_bar_wr w \<and> c_bar_rd w \<and> axil_base cfg = 0 \<and> \<not> bit (r_ctrl (c_regs w)) 1"

text \<open>And the clock is far from its end.\<close>

definition card_wired :: "config \<Rightarrow> card \<Rightarrow> bool" where
  "card_wired cfg w \<longleftrightarrow> card_usable cfg w \<and> c_clock w < 2 ^ 62"

lemmas card_wired_defs = card_wired_def card_usable_def

definition card_opened :: "card \<Rightarrow> card" where
  "card_opened w = w\<lparr>c_fds := (c_fds w)(c_next w := Some (DevFd DevH2C), c_next w + 1 := Some (DevFd DevC2H),
     c_next w + 2 := Some (DevFd DevUser)), c_next := c_next w + 3\<rparr>"

definition opened_xdma :: "config \<Rightarrow> card \<Rightarrow> xdma" where
  "opened_xdma cfg w = (xdma_new (cfg_h2c_dev cfg) (cfg_c2h_dev cfg) (cfg_user_dev cfg))
     \<lparr>h2c_fd := c_next w, c2h_fd := c_next w + 1, user_fd := c_next w + 2\<rparr>"

lemma xdma_open_card:
  assumes "card_usable cfg w"
  shows "xdma_open (card_os eng) (xdma_new (cfg_h2c_dev cfg) (cfg_c2h_dev cfg) (cfg_user_dev cfg)) w =
    (True, opened_xdma cfg w, card_opened w)"
  using assms
  by (simp add: xdma_open_def xdma_new_def card_usable_def card_open_def card_alloc_def
      opened_xdma_def card_opened_def Let_def add.commute)

definition sources_loaded :: "config \<Rightarrow> byte list \<Rightarrow> byte list \<Rightarrow> ddr \<Rightarrow> ddr" where
  "sources_loaded cfg d0 d1 d = mem_write (mem_write d (src0_ddr_base cfg) d0) (src1_ddr_base cfg) d1"

text \<open>The result the engine computes for this call.\<close>

definition offload_result :: "engine \<Rightarrow> config \<Rightarrow> byte list \<Rightarrow> byte list \<Rightarrow> u32 \<Rightarrow> card \<Rightarrow> engine_result" where
  "offload_result eng cfg d0 d1 m w =
     eng (programmed_regs cfg (of_nat (length d0)) (of_nat (length d1)) m) (sources_loaded cfg d0 d1 (c_ddr w))"

definition card_started :: "engine \<Rightarrow> config \<Rightarrow> byte list \<Rightarrow> byte list \<Rightarrow> u32 \<Rightarrow> card \<Rightarrow> card" where
  "card_started eng cfg d0 d1 m w =
     (let res = offload_result eng cfg d0 d1 m w
      in (card_opened w)\<lparr>c_ddr := sources_loaded cfg d0 d1 (c_ddr w), c_clock := c_clock w + 10000,
           c_regs := programmed_regs cfg (of_nat (length d0)) (of_nat (length d1)) m, c_count := 0,
           c_sizes := [], c_pending := Some (c_clock w + 10000 + er_latency res, res)\<rparr>)"

lemma run_offload_core_card_started:
  assumes usable: "card_usable cfg w" and l0: "length d0 < 2 ^ 64" and l1: "length d1 < 2 ^ 64"
  shows "run_offload_core (card_os eng) cfg d0 d1 m w =
    collect_outputs (card_os eng) cfg (opened_xdma cfg w) (card_started eng cfg d0 d1 m w)"
proof -
  let ?x = "opened_xdma cfg w" and ?w1 = "card_opened w"
  let ?w2 = "ddr_store (src0_ddr_base cfg) d0 ?w1"
  let ?w3 = "ddr_store (src1_ddr_base cfg) d1 ?w2"
  have fd: "h2c_fd ?x = c_next w" "user_fd ?x = c_next w + 2" by (simp_all add: opened_xdma_def)
  have r1: "h2c_ready (c_next w) ?w1" using usable by (simp add: h2c_ready_def card_opened_def card_usable_def)
  then have r2: "h2c_ready (c_next w) ?w2" by (simp add: h2c_ready_def ddr_store_def)
  have regs: "regs_ready ?x ?w3" and ctrl: "\<not> bit (r_ctrl (c_regs ?w3)) 1"
    using usable fd by (simp_all add: regs_ready_def ddr_store_def card_opened_def card_usable_def)
  have base: "axil_base cfg = 0" using usable by (simp add: card_usable_def)
  show ?thesis
    unfolding run_offload_core_def Let_def xdma_open_card [OF usable]
    using card_h2c.to_device_ok [OF r1 fd(1) l0] card_h2c.to_device_ok [OF r2 fd(1) l1]
      launch_engine_card [OF regs base ctrl, of eng "of_nat (length d0)" "of_nat (length d1)" m]
    by (simp add: Let_def card_started_def offload_result_def sources_loaded_def ddr_store_def card_opened_def)
qed

definition card_closed :: "xdma \<Rightarrow> card \<Rightarrow> card" where
  "card_closed x w = w\<lparr>c_fds := (c_fds w)(h2c_fd x := None, c2h_fd x := None, user_fd x := None)\<rparr>"

lemma leave_card:
  "0 \<le> c_next w \<Longrightarrow> leave (card_os eng) s outs (opened_xdma cfg w) v =
     Some (s, outs, card_closed (opened_xdma cfg w) v)"
  by (simp add: leave_def xdma_close_def close_fd_def card_close_def card_closed_def opened_xdma_def Let_def)

lemma wired_usable: "card_wired cfg w \<Longrightarrow> card_usable cfg w"
  by (simp add: card_wired_def)

lemma poll_completion_card:
  fixes eng :: engine and d0 d1 :: "byte list" and m :: u32
  assumes wired: "card_wired cfg w"
  defines "v \<equiv> card_started eng cfg d0 d1 m w" and "res \<equiv> offload_result eng cfg d0 d1 m w"
    and "x \<equiv> opened_xdma cfg w"
  shows "if er_latency res \<le> 1000 * max 1 (unat (timeout_ms cfg))
    then \<exists>t. c_clock w + 10000 + er_latency res \<le> t \<and> t \<le> c_clock w + 11000 + er_latency res \<and>
      poll_completion (card_os eng) cfg x v = Some (Inr (final_status res), x, card_finished res t v)
    else poll_completion (card_os eng) cfg x v =
      Some (Inr 1, x, v\<lparr>c_clock := c_clock v + 1000 * max 1 (unat (timeout_ms cfg))\<rparr>)"
proof -
  let ?n = "unat (timeout_ms cfg)"
  have base: "axil_base cfg = 0" using wired by (simp add: card_wired_defs)
  have clk: "c_clock v = c_clock w + 10000" and pend: "c_pending v = Some (c_clock v + er_latency res, res)"
    and idle: "\<not> r_done (c_regs v)" "\<not> r_error (c_regs v)"
    by (simp_all add: v_def res_def card_started_def Let_def programmed_regs_def)
  have ready: "status_ready x v"
    using wired by (simp add: x_def v_def status_ready_def card_started_def opened_xdma_def card_opened_def
        card_wired_defs Let_def)
  have small: "c_clock v div 1000 < 2 ^ 62" "c_clock v div 1000 < 2 ^ 64 - 1" "?n < 2 ^ 32"
    using wired clk unat_below_exp [of "timeout_ms cfg"] by (auto simp: card_wired_defs)
  obtain t where now: "card_now_ms v = (t, v)" and t: "t = of_nat (min (c_clock v div 1000) (2 ^ 64 - 1))"
    by (simp add: card_now_ms_def)
  have ut: "unat t = c_clock v div 1000" using small(2) by (simp add: t unat_of_nat64 min_def)
  have "unat t + unat (ucast (timeout_ms cfg) :: u64) < 2 ^ 64" using ut small by simp
  then have "unat (t + ucast (timeout_ms cfg)) = c_clock v div 1000 + ?n"
    by (simp add: unat_word_ariths ut)
  note poll = poll_loop_card [OF ready pend idle this, of eng 0]
  have comp: "poll_completion (card_os eng) cfg x v = poll_loop (card_os eng) 0 (t + ucast (timeout_ms cfg)) 0 x v"
    by (simp add: poll_completion_def now base)
  show ?thesis
  proof (cases "er_latency res \<le> 1000 * max 1 ?n")
    case True
    then obtain j where "c_clock v + er_latency res \<le> c_clock v + 1000 * j"
      "j = 1 \<or> c_clock v + 1000 * (j - 1) < c_clock v + er_latency res"
      "poll_completion (card_os eng) cfg x v = Some (Inr (final_status res), x, card_finished res (c_clock v + 1000 * j) v)"
      using poll by (auto simp: comp)
    then show ?thesis using True by (auto simp: clk intro!: exI [of _ "c_clock v + 1000 * j"])
  next
    case False
    then show ?thesis using poll by (simp add: comp)
  qed
qed

section \<open>How a started run ends\<close>

text \<open>The three ways a started engine ends, as \<open>collect_outputs\<close> sees them.\<close>

lemma check_final_status: "check_status cfg (final_status res) = OK \<longleftrightarrow> \<not> er_error res"
  unfolding check_status_OK final_status_def by simp

lemma core_card_completes:
  assumes wired: "card_wired cfg w" and l0: "length d0 < 2 ^ 64" and l1: "length d1 < 2 ^ 64"
    and sane: "sane_result (offload_result eng cfg d0 d1 m w)"
    and intime: "er_latency (offload_result eng cfg d0 d1 m w) \<le> 1000 * max 1 (unat (timeout_ms cfg))"
  shows "\<exists>t. c_clock w \<le> t \<and> t \<le> c_clock w + 11000 + er_latency (offload_result eng cfg d0 d1 m w) \<and>
    run_offload_core (card_os eng) cfg d0 d1 m w =
    Some (OK, read_layout (er_ddr (offload_result eng cfg d0 d1 m w)) (dst_ddr_base cfg)
                (er_sizes (offload_result eng cfg d0 d1 m w)),
      card_closed (opened_xdma cfg w)
        (card_finished (offload_result eng cfg d0 d1 m w) t (card_started eng cfg d0 d1 m w)))"
proof -
  let ?res = "offload_result eng cfg d0 d1 m w" and ?x = "opened_xdma cfg w"
  let ?v = "\<lambda>t. card_finished ?res t (card_started eng cfg d0 d1 m w)"
  obtain t where late: "c_clock w + 10000 + er_latency ?res \<le> t" and soon: "t \<le> c_clock w + 11000 + er_latency ?res" and
    poll: "poll_completion (card_os eng) cfg ?x (card_started eng cfg d0 d1 m w) =
      Some (Inr (final_status ?res), ?x, ?v t)"
    using poll_completion_card [OF wired, of eng d0 d1 m] intime by auto
  have base: "axil_base cfg = 0" and next0: "0 \<le> c_next w" using wired by (simp_all add: card_wired_defs)
  have ready: "status_ready ?x (?v t)" "c2h_ready (c2h_fd ?x) (?v t)"
    using wired by (simp_all add: status_ready_def c2h_ready_def card_finished_def card_started_def
        opened_xdma_def card_opened_def card_wired_defs Let_def)
  have res: "c_sizes (?v t) = er_sizes ?res" "c_count (?v t) = er_count ?res" "c_ddr (?v t) = er_ddr ?res"
    by (simp_all add: card_finished_def)
  have ok: "check_status cfg (final_status ?res) = OK" using sane by (simp add: check_final_status sane_result_def)
  have "run_offload_core (card_os eng) cfg d0 d1 m w =
      Some (OK, read_layout (er_ddr ?res) (dst_ddr_base cfg) (er_sizes ?res), card_closed ?x (?v t))"
    by (simp add: run_offload_core_card_started [OF wired_usable [OF wired] l0 l1] collect_outputs_def poll ok base
        read_results_card [OF ready(1) sane res(1,2)] read_back_card [OF ready(2)] res(3) leave_card [OF next0])
  moreover have "c_clock w \<le> t" using late by simp
  moreover note soon
  ultimately show ?thesis by blast
qed

text \<open>C26. An engine that stops with its error bit set is reported as an I/O error, with no output.\<close>

theorem core_reports_engine_error:
  assumes wired: "card_wired cfg w" and l0: "length d0 < 2 ^ 64" and l1: "length d1 < 2 ^ 64"
    and err: "er_error (offload_result eng cfg d0 d1 m w)"
    and intime: "er_latency (offload_result eng cfg d0 d1 m w) \<le> 1000 * max 1 (unat (timeout_ms cfg))"
  shows "\<exists>w'. run_offload_core (card_os eng) cfg d0 d1 m w =
    Some (IOError ''FPGA engine reported error (STATUS=0x4)'', [], w')"
proof -
  let ?res = "offload_result eng cfg d0 d1 m w"
  obtain t where "poll_completion (card_os eng) cfg (opened_xdma cfg w) (card_started eng cfg d0 d1 m w) =
      Some (Inr (final_status ?res), opened_xdma cfg w, card_finished ?res t (card_started eng cfg d0 d1 m w))"
    using poll_completion_card [OF wired, of eng d0 d1 m] intime by auto
  moreover have "check_status cfg (final_status ?res) = IOError ''FPGA engine reported error (STATUS=0x4)''"
    using err by (simp add: check_status_def final_status_def kStatusError_def decimal_string.simps digit_char_def char_of_def bit_0)
  ultimately show ?thesis
    by (simp add: run_offload_core_card_started [OF wired_usable [OF wired] l0 l1] collect_outputs_def leave_def)
qed

theorem core_reports_engine_error_witness:
  "\<exists>w'. run_offload_core (card_os (\<lambda>r d. \<lparr>er_latency = 7, er_error = True, er_ddr = d, er_count = 0,
      er_sizes = [], er_counters = (\<lambda>_. 0)\<rparr>)) default_config [1, 2] [3] 0 (demo_card 1) =
    Some (IOError ''FPGA engine reported error (STATUS=0x4)'', [], w')"
  by (rule core_reports_engine_error)
    (simp_all add: card_wired_defs demo_simps default_config_def offload_result_def)

text \<open>An engine that is too slow: the core gives up and leaves it running.\<close>

lemma core_card_late:
  assumes wired: "card_wired cfg w" and l0: "length d0 < 2 ^ 64" and l1: "length d1 < 2 ^ 64"
    and late: "1000 * max 1 (unat (timeout_ms cfg)) < er_latency (offload_result eng cfg d0 d1 m w)"
  shows "run_offload_core (card_os eng) cfg d0 d1 m w =
    Some (IOError (''FPGA engine timed out after '' @ decimal_string (unat (timeout_ms cfg)) @ '' ms''), [],
      card_closed (opened_xdma cfg w) ((card_started eng cfg d0 d1 m w)
        \<lparr>c_clock := c_clock w + 10000 + 1000 * max 1 (unat (timeout_ms cfg))\<rparr>))"
proof -
  have "check_status cfg 1 = IOError (''FPGA engine timed out after '' @ decimal_string (unat (timeout_ms cfg)) @ '' ms'')"
    by (simp add: check_status_def kStatusError_def kStatusDone_def)
  moreover have "c_clock (card_started eng cfg d0 d1 m w) = c_clock w + 10000"
    by (simp add: card_started_def Let_def)
  moreover have "0 \<le> c_next w" using wired by (simp add: card_wired_defs)
  ultimately show ?thesis
    using poll_completion_card [OF wired, of eng d0 d1 m] late
    by (simp add: run_offload_core_card_started [OF wired_usable [OF wired] l0 l1] collect_outputs_def leave_card)
qed

text \<open>
  C25. An engine that needs longer than the configured time is given up: the core returns an I/O
  error after polling for exactly \<^verbatim>\<open>timeout_ms\<close> milliseconds (at least one).
\<close>

theorem core_reports_timeout:
  assumes "card_wired cfg w" and "length d0 < 2 ^ 64" and "length d1 < 2 ^ 64"
    and "1000 * max 1 (unat (timeout_ms cfg)) < er_latency (offload_result eng cfg d0 d1 m w)"
  shows "\<exists>w'. run_offload_core (card_os eng) cfg d0 d1 m w =
      Some (IOError (''FPGA engine timed out after '' @ decimal_string (unat (timeout_ms cfg)) @ '' ms''), [], w') \<and>
    c_clock w' = c_clock w + 10000 + 1000 * max 1 (unat (timeout_ms cfg))"
  using core_card_late [OF assms] by (simp add: card_closed_def)

theorem core_reports_timeout_witness:
  "\<exists>w'. run_offload_core (card_os (\<lambda>r d. \<lparr>er_latency = 30000001, er_error = False, er_ddr = d,
      er_count = 0, er_sizes = [], er_counters = (\<lambda>_. 0)\<rparr>)) default_config [1, 2] [3] 0 (demo_card 1) =
      Some (IOError (''FPGA engine timed out after '' @ decimal_string (unat (timeout_ms default_config)) @ '' ms''), [], w') \<and>
    c_clock w' = c_clock (demo_card 1) + 10000 + 1000 * max 1 (unat (timeout_ms default_config))"
  by (rule core_reports_timeout)
    (simp_all add: card_wired_defs demo_simps default_config_def offload_result_def)

end
