(* ===== verification/Card_Files.thy ===== *)
theory Card_Files
  imports Card_Model
begin

text \<open>
  \<^verbatim>\<open>ReadFile\<close> and \<^verbatim>\<open>WriteFile\<close> on the card's host: what they return and what they leave on
  the disk, a full disk included.
\<close>

lemma read_file_card:
  assumes dev: "c_devs w path = None" and held: "c_files w path = Some d"
    and len: "length d < 2 ^ 64" and next0: "0 \<le> c_next w"
  shows "read_file (card_os eng) path w =
    Some (OK, d, w\<lparr>c_fds := (c_fds w)(c_next w := None), c_next := c_next w + 1\<rparr>)"
proof -
  let ?fd = "c_next w"
  let ?w1 = "w\<lparr>c_fds := (c_fds w)(?fd := Some (FileFd path 0)), c_next := ?fd + 1\<rparr>"
  have op: "card_open path O_RDONLY w = (?fd, ?w1)" using dev held by (simp add: card_open_def card_alloc_def)
  have st: "card_fstat ?fd ?w1 = ((0, of_nat (length d)), ?w1)" using held by (simp add: card_fstat_def)
  have ready: "reader_ready ?fd ?w1" and rest: "file_rest ?fd ?w1 = d"
    using held by (auto simp: reader_ready_def file_rest_def)
  have n: "unat (of_nat (length d) :: u64) = length d" using len by (rule unat_of_nat64)
  have "read_loop (card_os eng) path ?fd (replicate (length d) 0) 0 (of_nat (length d)) ?w1 =
      Some (OK, d, card_close ?fd (file_advance ?fd (length d) ?w1))"
    using card_reader.read_loop_ok [OF ready, of "replicate (length d) 0" 0 "of_nat (length d)" eng path]
    by (simp add: n rest)
  moreover have "card_close ?fd (file_advance ?fd (length d) ?w1) =
      w\<lparr>c_fds := (c_fds w)(?fd := None), c_next := ?fd + 1\<rparr>"
    by (simp add: card_close_def file_advance_def)
  ultimately show ?thesis using next0 by (simp add: read_file_def op st n)
qed

lemma read_file_card_missing:
  assumes "c_devs w path = None" and "c_files w path = None"
  shows "read_file (card_os eng) path w =
    Some (IOError (path @ '': '' @ ''No such file or directory''), [], w\<lparr>c_errno := ''No such file or directory''\<rparr>)"
  using assms by (simp add: read_file_def card_open_def)

lemma write_file_card:
  assumes dev: "c_devs w path = None" and disk: "c_disk w = None"
    and len: "length data < 2 ^ 64" and next0: "0 \<le> c_next w"
  shows "write_file (card_os eng) path data (of_nat (length data)) w =
    Some (OK, w\<lparr>c_files := (c_files w)(path := Some data), c_fds := (c_fds w)(c_next w := None),
                c_next := c_next w + 1\<rparr>)"
proof -
  let ?fd = "c_next w"
  let ?w1 = "w\<lparr>c_files := (c_files w)(path := Some []), c_fds := (c_fds w)(?fd := Some (FileFd path 0)),
      c_next := ?fd + 1\<rparr>"
  have op: "card_open path (O_WRONLY_CREAT_TRUNC 420) w = (?fd, ?w1)"
    using dev by (simp add: card_open_def card_alloc_def)
  have ready: "writer_ready ?fd ?w1 \<and> c_disk ?w1 = None" using disk by (auto simp: writer_ready_def)
  have n: "unat (of_nat (length data) :: u64) = length data" using len by (rule unat_of_nat64)
  have "write_loop (card_os eng) path ?fd data (of_nat (length data)) ?w1 = Some (OK, card_put ?fd data ?w1)"
    using card_writer_ok.write_loop_ok [OF ready, of "of_nat (length data)" data eng path] by (simp add: n)
  moreover have "card_close ?fd (card_put ?fd data ?w1) =
      w\<lparr>c_files := (c_files w)(path := Some data), c_fds := (c_fds w)(?fd := None), c_next := ?fd + 1\<rparr>"
    using disk by (simp add: card_close_def card_put_def overwrite_def)
  ultimately show ?thesis using next0 by (simp add: write_file_def op)
qed

text \<open>A disk with room for \<open>k\<close> more bytes: the first \<open>k\<close> bytes stay behind.\<close>

lemma write_file_card_full:
  assumes dev: "c_devs w path = None" and disk: "c_disk w = Some k"
    and len: "length data < 2 ^ 64" and next0: "0 \<le> c_next w" and short: "k < length data"
  shows "\<exists>m w'. write_file (card_os eng) path data (of_nat (length data)) w = Some (IOError m, w') \<and>
    c_files w' = (c_files w)(path := Some (take k data)) \<and> c_fds w' = (c_fds w)(c_next w := None)"
proof -
  let ?fd = "c_next w"
  let ?w1 = "w\<lparr>c_files := (c_files w)(path := Some []), c_fds := (c_fds w)(?fd := Some (FileFd path 0)),
      c_next := ?fd + 1\<rparr>"
  have op: "card_open path (O_WRONLY_CREAT_TRUNC 420) w = (?fd, ?w1)"
    using dev by (simp add: card_open_def card_alloc_def)
  have n: "unat (of_nat (length data) :: u64) = length data" using len by (rule unat_of_nat64)
  have ne: "data \<noteq> []" and pos: "0 < (of_nat (length data) :: u64)" using short len
    by (auto simp: word_less_nat_alt n)
  let ?r = "of_nat (length data) - of_nat k :: u64"
  have r: "unat ?r = length data - k" and rpos: "0 < ?r"
    using short len by (simp_all add: unat_sub_if' unat_of_nat64 n word_less_nat_alt)
  let ?w2 = "card_put ?fd (take k data) ?w1"
  have w2: "c_files ?w2 = (c_files w)(path := Some (take k data))"
    "c_fds ?w2 = (c_fds w)(?fd := Some (FileFd path k))" "c_disk ?w2 = Some 0"
    using disk short by (simp_all add: card_put_def overwrite_def)
  have full: "card_write ?fd (take (length data - k) (drop k data)) ?w2 = card_fail ''No space left on device'' ?w2"
    using w2 short by (simp add: card_write_def)
  show ?thesis
  proof (cases "k = 0")
    case True
    then have "card_write ?fd data ?w1 = card_fail ''No space left on device'' ?w1"
      using disk ne by (simp add: card_write_def)
    then have "write_loop (card_os eng) path ?fd data (of_nat (length data)) ?w1 =
        Some (IOError (path @ '' write: '' @ ''No space left on device''),
          card_close ?fd (snd (card_fail ''No space left on device'' ?w1)))"
      using pos by (subst write_loop.simps) (simp add: n card_fail_def card_close_def)
    then show ?thesis using next0 True
      by (simp add: write_file_def op card_fail_def card_close_def)
  next
    case False
    have "card_write ?fd data ?w1 = (int k, ?w2)" using disk ne short False
      by (simp add: card_write_def min_def)
    then have "write_loop (card_os eng) path ?fd data (of_nat (length data)) ?w1 =
        write_loop (card_os eng) path ?fd (drop k data) ?r ?w2"
      using pos False by (subst write_loop.simps) (simp add: n)
    also have "\<dots> = Some (IOError (path @ '' write: '' @ ''No space left on device''),
          card_close ?fd (snd (card_fail ''No space left on device'' ?w2)))"
      using rpos r full by (subst write_loop.simps) (simp add: card_fail_def card_close_def)
    finally show ?thesis using next0 w2
      by (simp add: write_file_def op card_fail_def card_close_def)
  qed
qed

end
