(* ===== verification/Offload_Refinement.thy ===== *)
theory Offload_Refinement
  imports Card_Offload Card_Files
begin

text \<open>
  The contract between the driver and the engine, and the end-to-end theorems: an engine that
  merges, behind this driver, is a function from the two input files to the output buffers.
\<close>

section \<open>The output area\<close>

text \<open>
  Where the engine puts its outputs (the comment of step 8 of \<^verbatim>\<open>RunOffloadCore\<close>; the
  \<^verbatim>\<open>sst_base_offset\<close> arithmetic of \<^verbatim>\<open>cmpct_nblock_engine.v\<close>): each at the next multiple
  of 64 bytes after the previous one.
\<close>

fun place :: "ddr \<Rightarrow> u64 \<Rightarrow> byte list list \<Rightarrow> ddr" where
  "place d a [] = d"
| "place d a (b # bs) = place (mem_write d a b) (a + align64 (of_nat (length b))) bs"

definition padded :: "byte list \<Rightarrow> nat" where
  "padded b = (length b + 63) div 64 * 64"

lemma padded_ge: "length b \<le> padded b"
  by (simp add: padded_def)

lemma unat_align64: "unat (align64 sz) = (unat sz + 63) div 64 * 64"
proof -
  have "unat sz < 2 ^ 32" using unat_below_exp [of sz] by simp
  then have u: "unat (ucast sz + 63 :: u64) = unat sz + 63" by (simp add: unat_word_ariths)
  have m: "(unat sz + 63) mod 18446744073709551616 = unat sz + 63" using \<open>unat sz < 2 ^ 32\<close> by simp
  have "align64 sz = NOT (mask 6) AND (ucast sz + 63)"
    by (simp add: align64_def mask_eq_exp_minus_1 and.commute)
  also have "\<dots> = push_bit 6 (drop_bit 6 (ucast sz + 63))"
    by (rule bit_word_eqI) (auto simp: bit_simps)
  finally have "unat (align64 sz) = push_bit 6 (drop_bit 6 (unat sz + 63)) mod 2 ^ 64"
    by (simp add: unsigned_push_bit_eq unsigned_drop_bit_eq u m take_bit_eq_mod)
  also have "\<dots> = (unat sz + 63) div 64 * 64"
    using \<open>unat sz < 2 ^ 32\<close> by (simp add: push_bit_eq_mult drop_bit_eq_div)
  finally show ?thesis .
qed

lemma align64_padded: "length b < 2 ^ 32 \<Longrightarrow> align64 (of_nat (length b)) = of_nat (padded b)"
proof -
  assume len: "length b < 2 ^ 32"
  then have "padded b < 2 ^ 64" by (simp add: padded_def)
  then have "unat (of_nat (padded b) :: u64) = padded b" by (rule unat_of_nat64)
  with len show ?thesis
    by (simp only: word_unat_eq_iff unat_align64) (simp add: unat_of_nat padded_def)
qed

lemma place_outside:
  assumes "\<forall>b\<in>set bs. length b < 2 ^ 32" and "i < k" and "k + sum_list (map padded bs) \<le> 2 ^ 64"
  shows "place d (a + of_nat k) bs (a + of_nat i) = d (a + of_nat i)"
  using assms
proof (induction bs arbitrary: k d)
  case Nil
  then show ?case by simp
next
  case (Cons b bs)
  have al: "align64 (of_nat (length b)) = of_nat (padded b)" using Cons.prems(1) align64_padded by simp
  have "a + of_nat k + of_nat j \<noteq> a + of_nat i" if "j < length b" for j
  proof
    assume "a + of_nat k + of_nat j = a + of_nat i"
    then have "a + of_nat (k + j) = a + of_nat i" by (simp add: add.assoc)
    moreover have "k + j < 2 ^ 64" using that Cons.prems(3) padded_ge [of b] by simp
    ultimately have "k + j = i" using Cons.prems(2) by (intro offset_inj [of a]) auto
    then show False using Cons.prems(2) by simp
  qed
  then have "mem_write d (a + of_nat k) b (a + of_nat i) = d (a + of_nat i)" by (intro mem_write_outside) auto
  then show ?case
    using Cons.IH [of "k + padded b" "mem_write d (a + of_nat k) b"] Cons.prems by (simp add: al add.assoc)
qed

lemma read_layout_place:
  assumes "\<forall>b\<in>set bs. length b < 2 ^ 32" and "sum_list (map padded bs) \<le> 2 ^ 64"
  shows "read_layout (place d a bs) a (map (\<lambda>b. of_nat (length b)) bs) = bs"
  using assms
proof (induction bs arbitrary: a d)
  case Nil
  then show ?case by simp
next
  case (Cons b bs)
  let ?n = "padded b"
  have lb: "length b < 2 ^ 32" and al: "align64 (of_nat (length b)) = of_nat ?n"
    using Cons.prems(1) align64_padded by auto
  have "mem_read (place (mem_write d a b) (a + of_nat ?n) bs) a (length b) = mem_read (mem_write d a b) a (length b)"
    unfolding mem_read_def
  proof (intro map_cong refl)
    fix i assume "i \<in> set [0..<length b]"
    then have "i < ?n" using padded_ge [of b] by simp
    then show "place (mem_write d a b) (a + of_nat ?n) bs (a + of_nat i) = mem_write d a b (a + of_nat i)"
      using Cons.prems by (intro place_outside) auto
  qed
  also have "\<dots> = b" using lb by (intro mem_read_mem_write) simp
  finally show ?case using Cons lb by (simp add: al unat_of_nat)
qed

section \<open>The contract of the engine\<close>

text \<open>
  \<open>mg s0 s1 m\<close> is the abstract compaction: the output SSTables of the two inputs under the
  size limit \<open>m\<close>. An engine implements it within \<open>lat\<close> microseconds when it reads the inputs
  from the programmed source ranges, places the outputs at the programmed destination and reports
  their sizes.
\<close>

type_synonym merge_spec = "byte list \<Rightarrow> byte list \<Rightarrow> u32 \<Rightarrow> byte list list"

definition spec_outputs :: "merge_spec \<Rightarrow> axil_regs \<Rightarrow> ddr \<Rightarrow> byte list list" where
  "spec_outputs mg r d =
     mg (mem_read d (r_src0_base r) (unat (r_src0_size r)))
        (mem_read d (r_src1_base r) (unat (r_src1_size r))) (r_max_file_size r)"

definition spec_engine :: "merge_spec \<Rightarrow> nat \<Rightarrow> engine" where
  "spec_engine mg lat r d =
     (let outs = spec_outputs mg r d
      in \<lparr>er_latency = lat, er_error = False, er_ddr = place d (r_dst_base r) outs,
          er_count = of_nat (length outs), er_sizes = map (\<lambda>b. of_nat (length b)) outs,
          er_counters = (\<lambda>_. 0)\<rparr>)"

definition engine_implements :: "engine \<Rightarrow> merge_spec \<Rightarrow> nat \<Rightarrow> bool" where
  "engine_implements eng mg lat \<longleftrightarrow>
     (\<forall>r d. er_latency (eng r d) \<le> lat \<and> \<not> er_error (eng r d) \<and>
        er_ddr (eng r d) = place d (r_dst_base r) (spec_outputs mg r d) \<and>
        er_count (eng r d) = of_nat (length (spec_outputs mg r d)) \<and>
        er_sizes (eng r d) = map (\<lambda>b. of_nat (length b)) (spec_outputs mg r d))"

lemma spec_engine_implements: "engine_implements (spec_engine mg lat) mg lat"
  by (simp add: engine_implements_def spec_engine_def Let_def)

text \<open>What the driver can carry: 1 to 16 outputs, not empty, within the address space.\<close>

definition outputs_fit :: "byte list list \<Rightarrow> bool" where
  "outputs_fit outs \<longleftrightarrow> outs \<noteq> [] \<and> length outs \<le> 16 \<and>
     (\<forall>b\<in>set outs. b \<noteq> [] \<and> length b < 2 ^ 32)"

definition sources_fit :: "config \<Rightarrow> byte list \<Rightarrow> byte list \<Rightarrow> bool" where
  "sources_fit cfg d0 d1 \<longleftrightarrow> length d0 < 2 ^ 32 \<and> length d1 < 2 ^ 32 \<and>
     disjoint_ranges (src1_ddr_base cfg) (length d1) (src0_ddr_base cfg) (length d0)"

lemma padded_total:
  assumes "\<forall>b\<in>set bs. length b < 2 ^ 32" and "length bs \<le> 16"
  shows "sum_list (map padded bs) \<le> 2 ^ 64"
proof -
  have "padded b \<le> 2 ^ 33" if "b \<in> set bs" for b
    using assms(1) that by (auto simp: padded_def)
  then have "sum_list (map padded bs) \<le> sum_list (map (\<lambda>b. 2 ^ 33) bs)"
    by (intro sum_list_mono) auto
  also have "\<dots> \<le> 2 ^ 64" using assms(2) by (simp add: sum_list_triv)
  finally show ?thesis .
qed

lemma spec_outputs_loaded:
  assumes "sources_fit cfg d0 d1"
  shows "spec_outputs mg (programmed_regs cfg (of_nat (length d0)) (of_nat (length d1)) m)
    (sources_loaded cfg d0 d1 d) = mg d0 d1 m"
proof -
  have l: "length d0 < 2 ^ 32" "length d1 < 2 ^ 32"
    and dis: "disjoint_ranges (src1_ddr_base cfg) (length d1) (src0_ddr_base cfg) (length d0)"
    using assms by (simp_all add: sources_fit_def)
  have size: "unat (ucast (of_nat n :: u64) :: u32) = n" if "n < 2 ^ 32" for n
    using that by (simp add: unsigned_ucast_eq unat_of_nat take_bit_eq_mod)
  have "mem_read (sources_loaded cfg d0 d1 d) (src0_ddr_base cfg) (length d0) = d0"
    unfolding sources_loaded_def mem_read_mem_write_disjoint [OF dis]
    using l by (intro mem_read_mem_write) simp
  moreover have "mem_read (sources_loaded cfg d0 d1 d) (src1_ddr_base cfg) (length d1) = d1"
    unfolding sources_loaded_def using l by (intro mem_read_mem_write) simp
  ultimately show ?thesis
    using size [OF l(1)] size [OF l(2)] by (simp add: spec_outputs_def programmed_regs_def)
qed

lemma core_card_implements:
  assumes wired: "card_wired cfg w" and src: "sources_fit cfg d0 d1"
    and eng: "engine_implements eng mg lat" and lat: "lat \<le> 1000 * max 1 (unat (timeout_ms cfg))"
    and outs: "outputs_fit (mg d0 d1 m)"
  shows "\<exists>t. c_clock w \<le> t \<and> t \<le> c_clock w + 11000 + lat \<and>
    run_offload_core (card_os eng) cfg d0 d1 m w = Some (OK, mg d0 d1 m,
      card_closed (opened_xdma cfg w)
        (card_finished (offload_result eng cfg d0 d1 m w) t (card_started eng cfg d0 d1 m w)))"
proof -
  let ?res = "offload_result eng cfg d0 d1 m w"
  let ?d = "sources_loaded cfg d0 d1 (c_ddr w)"
  have res: "er_latency ?res \<le> lat" "\<not> er_error ?res"
    "er_ddr ?res = place ?d (dst_ddr_base cfg) (mg d0 d1 m)"
    "er_count ?res = of_nat (length (mg d0 d1 m))"
    "er_sizes ?res = map (\<lambda>b. of_nat (length b)) (mg d0 d1 m)"
    using eng spec_outputs_loaded [OF src, of mg m "c_ddr w"]
    by (simp_all add: engine_implements_def offload_result_def programmed_regs_def)
  have fit: "mg d0 d1 m \<noteq> []" "length (mg d0 d1 m) \<le> 16" "\<forall>b\<in>set (mg d0 d1 m). length b < 2 ^ 32"
    "\<forall>b\<in>set (mg d0 d1 m). b \<noteq> []"
    using outs by (auto simp: outputs_fit_def)
  have "(of_nat (length b) :: u32) \<noteq> 0" if "b \<in> set (mg d0 d1 m)" for b
  proof -
    have "unat (of_nat (length b) :: u32) = length b" using fit(3) that by (simp add: unat_of_nat)
    moreover have "length b \<noteq> 0" using fit(4) that by simp
    ultimately show ?thesis by force
  qed
  then have sane: "sane_result ?res" using fit(1,2) res(2,4,5) by (auto simp: sane_result_def)
  have intime: "er_latency ?res \<le> 1000 * max 1 (unat (timeout_ms cfg))" using res(1) lat by (rule order_trans)
  have "length d0 < 2 ^ 64" "length d1 < 2 ^ 64" using src by (simp_all add: sources_fit_def)
  from core_card_completes [OF wired this sane intime] obtain t where
    t: "c_clock w \<le> t" "t \<le> c_clock w + 11000 + er_latency ?res" and
    run: "run_offload_core (card_os eng) cfg d0 d1 m w = Some (OK, mg d0 d1 m,
      card_closed (opened_xdma cfg w) (card_finished ?res t (card_started eng cfg d0 d1 m w)))"
    by (simp only: res(3,5) read_layout_place [OF fit(3) padded_total [OF fit(3,2)]]) blast
  have "t \<le> c_clock w + 11000 + lat" using t(2) res(1) by linarith
  with t(1) run show ?thesis by blast
qed

section \<open>From files to files\<close>

text \<open>The two inputs are regular files with the sizes the caller says.\<close>

definition inputs_at :: "card \<Rightarrow> string \<Rightarrow> byte list \<Rightarrow> string \<Rightarrow> byte list \<Rightarrow> bool" where
  "inputs_at w p0 d0 p1 d1 \<longleftrightarrow> c_devs w p0 = None \<and> c_files w p0 = Some d0 \<and>
     c_devs w p1 = None \<and> c_files w p1 = Some d1"

text \<open>No descriptor at or above the next free one is in use.\<close>

definition fds_fresh :: "card \<Rightarrow> bool" where
  "fds_fresh w \<longleftrightarrow> 0 \<le> c_next w \<and> (\<forall>fd\<ge>c_next w. c_fds w fd = None)"

lemma split_card_implements:
  assumes wired: "card_wired cfg w" and fresh: "fds_fresh w" and src: "sources_fit cfg d0 d1"
    and ins: "inputs_at w p0 d0 p1 d1"
    and gate: "can_offload cfg (of_nat (length d0)) (of_nat (length d1))"
    and eng: "engine_implements eng mg lat" and lat: "lat \<le> 1000 * max 1 (unat (timeout_ms cfg))"
    and outs: "outputs_fit (mg d0 d1 m)"
  shows "\<exists>w'. run_offload_split (card_os eng) cfg p0 (of_nat (length d0)) p1 (of_nat (length d1)) m outs0 w =
      Some (OK, mg d0 d1 m, w') \<and> c_files w' = c_files w \<and> c_fds w' = c_fds w \<and> c_devs w' = c_devs w \<and>
      c_disk w' = c_disk w \<and> c_next w' = c_next w + 5 \<and> c_clock w' \<le> c_clock w + 11000 + lat"
proof -
  have l: "length d0 < 2 ^ 64" "length d1 < 2 ^ 64" using src by (simp_all add: sources_fit_def)
  let ?w1 = "w\<lparr>c_fds := (c_fds w)(c_next w := None), c_next := c_next w + 1\<rparr>"
  let ?w2 = "?w1\<lparr>c_fds := (c_fds ?w1)(c_next ?w1 := None), c_next := c_next ?w1 + 1\<rparr>"
  have r0: "read_file (card_os eng) p0 w = Some (OK, d0, ?w1)"
    using ins fresh l by (intro read_file_card) (simp_all add: inputs_at_def fds_fresh_def)
  have r1: "read_file (card_os eng) p1 ?w1 = Some (OK, d1, ?w2)"
    using ins fresh l by (intro read_file_card) (simp_all add: inputs_at_def fds_fresh_def)
  have "card_wired cfg ?w2" using wired by (simp add: card_wired_defs)
  from core_card_implements [OF this src eng lat, of m] outs obtain t where
    soon: "t \<le> c_clock w + 11000 + lat" and
    core: "run_offload_core (card_os eng) cfg d0 d1 m ?w2 = Some (OK, mg d0 d1 m,
      card_closed (opened_xdma cfg ?w2)
        (card_finished (offload_result eng cfg d0 d1 m ?w2) t (card_started eng cfg d0 d1 m ?w2)))"
    by auto
  have fds: "(c_fds w)(c_next w := None, c_next w + 1 := None, c_next w + 2 := None,
      c_next w + 3 := None, c_next w + 4 := None) = c_fds w"
    using fresh by (auto simp: fds_fresh_def fun_eq_iff)
  show ?thesis
    unfolding run_offload_split_def using gate r0 r1 core l fds soon
    by (simp add: unat_of_nat64 card_closed_def card_finished_def card_started_def card_opened_def
        opened_xdma_def Let_def add.assoc fun_upd_twist)
qed

text \<open>
  C1. End to end: when the engine implements the abstract compaction \<open>mg\<close> within the timeout, the
  inputs are files of the stated sizes that pass \<^verbatim>\<open>CanOffload\<close> and lie apart in the DDR, and
  there are 1 to 16 non-empty outputs, \<^verbatim>\<open>RunOffloadSplit\<close> returns OK with exactly the outputs
  \<open>mg\<close> prescribes, leaves every file as it was and every descriptor closed.
\<close>

theorem run_offload_split_computes_merge:
  assumes "card_wired cfg w" and "fds_fresh w" and "sources_fit cfg d0 d1"
    and "inputs_at w p0 d0 p1 d1"
    and "can_offload cfg (of_nat (length d0)) (of_nat (length d1))"
    and "engine_implements eng mg lat" and "lat \<le> 1000 * max 1 (unat (timeout_ms cfg))"
    and "outputs_fit (mg d0 d1 m)"
  shows "\<exists>w'. run_offload_split (card_os eng) cfg p0 (of_nat (length d0)) p1 (of_nat (length d1)) m outs0 w =
      Some (OK, mg d0 d1 m, w') \<and> c_files w' = c_files w \<and> c_fds w' = c_fds w"
  using split_card_implements [OF assms, of outs0] by blast

text \<open>An abstract compaction with two outputs, the conditions of the theorems on the concrete host.\<close>

definition demo_merge :: merge_spec where
  "demo_merge s0 s1 m = [s0 @ s1, s1 @ s0 @ s0]"

lemma demo_conditions:
  "card_wired default_config (demo_card 2)" "fds_fresh (demo_card 2)"
  "sources_fit default_config [1, 2, 3] [4, 5]"
  "inputs_at (demo_card 2) ''a.ldb'' [1, 2, 3] ''b.ldb'' [4, 5]"
  "can_offload default_config (of_nat (length [1, 2, 3 :: byte])) (of_nat (length [4, 5 :: byte]))"
  "engine_implements (spec_engine demo_merge 2500) demo_merge 2500"
  "2500 \<le> 1000 * max 1 (unat (timeout_ms default_config))"
  "outputs_fit (demo_merge [1, 2, 3] [4, 5] m)"
  by (simp_all add: card_wired_defs demo_simps default_config_def fds_fresh_def inputs_at_def
      can_offload_def spec_engine_implements outputs_fit_def demo_merge_def sources_fit_def
      disjoint_rangesI(2))

theorem run_offload_split_computes_merge_witness:
  "\<exists>w'. run_offload_split (card_os (spec_engine demo_merge 2500)) default_config
      ''a.ldb'' (of_nat (length [1, 2, 3 :: byte])) ''b.ldb'' (of_nat (length [4, 5 :: byte])) 4096 []
      (demo_card 2) =
      Some (OK, demo_merge [1, 2, 3] [4, 5] 4096, w') \<and>
    c_files w' = c_files (demo_card 2) \<and> c_fds w' = c_fds (demo_card 2)"
  by (rule run_offload_split_computes_merge [OF demo_conditions])

lemma run_offload_card:
  assumes "card_wired cfg w" and "fds_fresh w" and "sources_fit cfg d0 d1"
    and "inputs_at w p0 d0 p1 d1"
    and "can_offload cfg (of_nat (length d0)) (of_nat (length d1))"
    and "engine_implements eng mg lat" and "lat \<le> 1000 * max 1 (unat (timeout_ms cfg))"
    and "outputs_fit (mg d0 d1 0)" and "c_devs w out = None" and "c_disk w = None"
  shows "\<exists>w'. run_offload (card_os eng) cfg p0 (of_nat (length d0)) p1 (of_nat (length d1)) out sz w =
      Some (OK, of_nat (length (hd (mg d0 d1 0))), w') \<and>
      c_files w' = (c_files w)(out := Some (hd (mg d0 d1 0))) \<and> c_fds w' = c_fds w \<and>
      c_devs w' = c_devs w \<and> c_disk w' = None \<and> c_clock w' \<le> c_clock w + 11000 + lat"
proof -
  obtain w1 where
    split: "run_offload_split (card_os eng) cfg p0 (of_nat (length d0)) p1 (of_nat (length d1)) 0 [] w =
      Some (OK, mg d0 d1 0, w1)"
    and w1: "c_files w1 = c_files w" "c_fds w1 = c_fds w" "c_devs w1 = c_devs w" "c_disk w1 = c_disk w"
      "c_next w1 = c_next w + 5" "c_clock w1 \<le> c_clock w + 11000 + lat"
    using split_card_implements [OF assms(1-8), of "[]"] by blast
  obtain b bs where mg: "mg d0 d1 0 = b # bs" and len: "length b < 2 ^ 64"
    using assms(8) by (cases "mg d0 d1 0") (auto simp: outputs_fit_def)
  have "write_file (card_os eng) out b (of_nat (length b)) w1 =
      Some (OK, w1\<lparr>c_files := (c_files w1)(out := Some b), c_fds := (c_fds w1)(c_next w1 := None),
                  c_next := c_next w1 + 1\<rparr>)"
    using assms(2,9,10) w1 len by (intro write_file_card) (simp_all add: fds_fresh_def)
  moreover have "(c_fds w)(c_next w + 5 := None) = c_fds w"
    using assms(2) by (auto simp: fds_fresh_def fun_eq_iff)
  ultimately show ?thesis using split w1 assms(10) by (simp add: run_offload_def mg)
qed

text \<open>
  C23. Under the same conditions \<^verbatim>\<open>RunOffload\<close> writes the first output, and only the first, to
  \<^verbatim>\<open>out_path\<close> and reports its size: the other outputs of an engine that splits are lost although the
  call returns OK.
\<close>

theorem run_offload_keeps_first_output:
  assumes "card_wired cfg w" and "fds_fresh w" and "sources_fit cfg d0 d1"
    and "inputs_at w p0 d0 p1 d1"
    and "can_offload cfg (of_nat (length d0)) (of_nat (length d1))"
    and "engine_implements eng mg lat" and "lat \<le> 1000 * max 1 (unat (timeout_ms cfg))"
    and "outputs_fit (mg d0 d1 0)" and "c_devs w out = None" and "c_disk w = None"
  shows "\<exists>w'. run_offload (card_os eng) cfg p0 (of_nat (length d0)) p1 (of_nat (length d1)) out sz w =
      Some (OK, of_nat (length (hd (mg d0 d1 0))), w') \<and>
      c_files w' = (c_files w)(out := Some (hd (mg d0 d1 0))) \<and> c_fds w' = c_fds w"
  using run_offload_card [OF assms, of sz] by blast

theorem run_offload_keeps_first_output_witness:
  "\<exists>w'. run_offload (card_os (spec_engine demo_merge 2500)) default_config
      ''a.ldb'' (of_nat (length [1, 2, 3 :: byte])) ''b.ldb'' (of_nat (length [4, 5 :: byte])) ''out.ldb'' 0
      (demo_card 2) =
      Some (OK, of_nat (length (hd (demo_merge [1, 2, 3] [4, 5] 0))), w') \<and>
    c_files w' = (c_files (demo_card 2))(''out.ldb'' := Some (hd (demo_merge [1, 2, 3] [4, 5] 0))) \<and>
    c_fds w' = c_fds (demo_card 2)"
  by (rule run_offload_keeps_first_output [OF demo_conditions]) (simp_all add: demo_simps)

text \<open>
  With the default configuration, every pair of inputs that passes \<^verbatim>\<open>CanOffload\<close> fits: the two
  source buffers share no byte, and neither reaches the destination area.
\<close>

theorem default_layout_disjoint:
  assumes "can_offload default_config (of_nat (length d0)) (of_nat (length d1))"
    and "length d0 < 2 ^ 64" and "length d1 < 2 ^ 64"
  shows "sources_fit default_config d0 d1 \<and>
    disjoint_ranges (src0_ddr_base default_config) (length d0) (dst_ddr_base default_config) (2 ^ 20) \<and>
    disjoint_ranges (src1_ddr_base default_config) (length d1) (dst_ddr_base default_config) (2 ^ 20)"
proof -
  have l: "length d0 \<le> 2 ^ 20" "length d1 \<le> 2 ^ 20"
    using assms by (simp_all add: can_offload_def default_config_def word_le_nat_alt unat_of_nat64)
  have "disjoint_ranges (0x100000 :: u64) (length d1) 0 (length d0)"
    using l by (intro disjoint_rangesI(2)) simp_all
  moreover have "disjoint_ranges (0 :: u64) (length d0) 0x200000 (2 ^ 20)"
    using l by (intro disjoint_rangesI(1)) simp_all
  moreover have "disjoint_ranges (0x100000 :: u64) (length d1) 0x200000 (2 ^ 20)"
    using l by (intro disjoint_rangesI(1)) simp_all
  ultimately show ?thesis using l by (simp add: sources_fit_def default_config_def)
qed

theorem default_layout_disjoint_witness:
  "sources_fit default_config [1, 2, 3] [4, 5] \<and>
    disjoint_ranges (src0_ddr_base default_config) (length [1, 2, 3 :: byte]) (dst_ddr_base default_config) (2 ^ 20) \<and>
    disjoint_ranges (src1_ddr_base default_config) (length [4, 5 :: byte]) (dst_ddr_base default_config) (2 ^ 20)"
  by (rule default_layout_disjoint) (simp_all add: can_offload_def default_config_def)

end
