(* ===== verification/Offload_Outcomes.thy ===== *)
theory Offload_Outcomes
  imports Offload_Refinement Offload_Safety Offload_Liveness
begin

text \<open>
  What the caller of \<^verbatim>\<open>RunOffload\<close> can see when things go wrong: when the call returns at all, which
  failures carry which status code, and two faults the driver does not notice (a channel that
  moves nothing, a register file that refuses writes).
\<close>

section \<open>Termination\<close>

text \<open>
  C18. \<^verbatim>\<open>RunOffload\<close> returns, whatever the engine does (it may never finish, report nonsense or refuse
  register accesses), whatever the files hold and however full the disk is, as long as the DMA
  channels move at least one byte per call.
\<close>

theorem run_offload_terminates:
  assumes "0 < c_xfer w"
  shows "\<exists>s sz' w'. run_offload (card_os eng) cfg p0 b0 p1 b1 out sz w = Some (s, sz', w')"
  using card_live.run_offload_returns [of w eng cfg p0 b0 p1 b1 out sz] assms
  by (auto simp: card_live_def)

theorem run_offload_terminates_witness:
  "\<exists>s sz' w'. run_offload (card_os (\<lambda>r d. \<lparr>er_latency = 10 ^ 20, er_error = False, er_ddr = d,
      er_count = 0, er_sizes = [], er_counters = (\<lambda>_. 0)\<rparr>)) default_config ''a.ldb'' 3 ''b.ldb'' 2 ''out.ldb'' 0
      (demo_card 1 \<lparr>c_disk := Some 0\<rparr>) = Some (s, sz', w')"
  by (rule run_offload_terminates) (simp add: demo_card_def)

text \<open>
  C21. A DMA channel that accepts no byte and reports no error hangs the driver: \<^verbatim>\<open>DmaToDevice\<close>
  treats a transfer of length 0 neither as an error nor as progress, so the call never returns
  (there is no timeout around it).
\<close>

theorem dead_channel_hangs:
  assumes "card_wired cfg (w\<lparr>c_xfer := 1\<rparr>)" and "c_xfer w = 0"
    and "d0 \<noteq> []" and "length d0 < 2 ^ 64"
  shows "run_offload_core (card_os eng) cfg d0 d1 m w = None"
proof -
  let ?x = "opened_xdma cfg w" and ?w1 = "card_opened w"
  have op: "xdma_open (card_os eng) (xdma_new (cfg_h2c_dev cfg) (cfg_c2h_dev cfg) (cfg_user_dev cfg)) w =
      (True, ?x, ?w1)"
    using assms(1)
    by (simp add: xdma_open_def xdma_new_def card_wired_defs card_open_def card_alloc_def
        opened_xdma_def card_opened_def Let_def add.commute)
  have "dma_to_device (card_os eng) ?x (src0_ddr_base cfg) d0 (of_nat (length d0)) ?w1 = None"
  proof (rule ccontr)
    assume "dma_to_device (card_os eng) ?x (src0_ddr_base cfg) d0 (of_nat (length d0)) ?w1 \<noteq> None"
    then obtain r where ret: "dma_to_device_loop (card_os eng) ?x d0 (src0_ddr_base cfg) (of_nat (length d0)) ?w1 = Some r"
      by (auto simp: dma_to_device_def)
    let ?R = "\<lambda>v. c_fds v (h2c_fd ?x) = Some (DevFd DevH2C) \<and> c_xfer v = 0"
    have "?R ?w1" using assms(2) by (simp add: opened_xdma_def card_opened_def)
    moreover have "\<forall>v. ?R v \<longrightarrow> (\<forall>bs a. fst (os_pwrite (card_os eng) (h2c_fd ?x) bs a v) = 0 \<and>
        ?R (snd (os_pwrite (card_os eng) (h2c_fd ?x) bs a v)))"
      by (simp add: card_pwrite_def)
    ultimately have "\<not> (of_nat (length d0) :: u64) > 0"
      using to_device_loop_stuck [OF ret, of ?R] by blast
    moreover have "unat (of_nat (length d0) :: u64) = length d0" using assms(4) by (rule unat_of_nat64)
    ultimately show False using assms(3) by (simp add: word_gt_0 flip: unat_gt_0)
  qed
  then show ?thesis by (simp add: run_offload_core_def Let_def op)
qed

theorem dead_channel_hangs_witness:
  "run_offload_core (card_os (spec_engine demo_merge 0)) default_config [1, 2, 3] [4, 5] 0 (demo_card 0) = None"
  by (rule dead_channel_hangs) (simp_all add: card_wired_defs demo_simps default_config_def)

section \<open>The size gate\<close>

lemma run_offload_core_failure:
  "run_offload_core os cfg d0 d1 m w = Some (s, outs, w') \<Longrightarrow> s = OK \<or> core_failure s"
  by (erule run_offload_core_cases) (auto elim: collect_outputs_cases)

lemma read_loop_failure:
  assumes "read_loop os path fd buf i remaining w = Some r"
  shows "fst r = OK \<or> core_failure (fst r)"
proof (induction rule: read_loop.raw_induct [OF _ assms])
  case (1 f os path fd buf i remaining w r)
  obtain n bs w1 where rd: "os_read os fd remaining w = ((n, bs), w1)" by (metis prod.collapse)
  show ?case
  proof (cases "remaining > 0 \<and> 0 < n")
    case True
    then have "f os path fd (overwrite buf i bs) (i + nat n) (remaining - word_of_int n) w1 = Some r"
      using 1(2) rd by (simp add: Let_def)
    then show ?thesis by (rule 1(1))
  next
    case False
    then show ?thesis using 1(2) rd by (auto simp: Let_def split: if_splits)
  qed
qed

lemma read_file_failure:
  "read_file os path w = Some (s, d, w') \<Longrightarrow> s = OK \<or> core_failure s"
  by (auto simp: read_file_def Let_def split: prod.splits if_splits dest: read_loop_failure)

lemma write_loop_failure:
  assumes "write_loop os path fd p remaining w = Some r"
  shows "fst r = OK \<or> core_failure (fst r)"
proof (induction rule: write_loop.raw_induct [OF _ assms])
  case (1 f os path fd p remaining w r)
  obtain n w1 where wr: "os_write os fd (take (unat remaining) p) w = (n, w1)" by fastforce
  show ?case
  proof (cases "remaining > 0 \<and> 0 < n")
    case True
    then have "f os path fd (drop (nat n) p) (remaining - word_of_int n) w1 = Some r"
      using 1(2) wr by (simp add: Let_def)
    then show ?thesis by (rule 1(1))
  next
    case False
    then show ?thesis using 1(2) wr by (auto simp: Let_def split: if_splits)
  qed
qed

lemma write_file_failure:
  "write_file os path data n w = Some (s, w') \<Longrightarrow> s = OK \<or> core_failure s"
  by (auto simp: write_file_def Let_def split: prod.splits if_splits option.splits dest: write_loop_failure)

lemma run_offload_split_failure:
  assumes "run_offload_split os cfg p0 b0 p1 b1 m outs w = Some (s, outs', w')" and "can_offload cfg b0 b1"
  shows "s = OK \<or> core_failure s"
  using assms
  using read_file_failure [of os p0 w] read_file_failure [of os p1] run_offload_core_failure [of os cfg]
  by (fastforce simp: run_offload_split_def split: option.splits if_splits)

lemma core_failure_InvalidArgument: "s = OK \<or> core_failure s \<Longrightarrow> s \<noteq> InvalidArgument m"
  by auto

text \<open>
  C24. \<^verbatim>\<open>RunOffload\<close> fails with \<^verbatim>\<open>InvalidArgument\<close> exactly when \<^verbatim>\<open>CanOffload\<close> refuses the sizes,
  and then it has made no system call at all; and the caller's \<^verbatim>\<open>out_size\<close> only changes when the
  call returns OK. Nothing is assumed about the operating system or the card.
\<close>

theorem size_gate_exact:
  assumes "run_offload os cfg p0 b0 p1 b1 out sz w = Some (s, sz', w')"
  shows "((\<exists>m. s = InvalidArgument m) \<longleftrightarrow> \<not> can_offload cfg b0 b1) \<and>
    (\<not> can_offload cfg b0 b1 \<longrightarrow> w' = w) \<and> (s \<noteq> OK \<longrightarrow> sz' = sz)"
proof (cases "can_offload cfg b0 b1")
  case False
  then show ?thesis using assms by (auto simp: run_offload_def run_offload_split_def)
next
  case True
  from assms obtain s1 outs w1 where
    split: "run_offload_split os cfg p0 b0 p1 b1 0 [] w = Some (s1, outs, w1)"
    by (auto simp: run_offload_def split: option.splits)
  note s1 = run_offload_split_failure [OF split True]
  have "(s = OK \<or> core_failure s) \<and> (s \<noteq> OK \<longrightarrow> sz' = sz)"
    using assms s1 by (auto simp: run_offload_def split split: list.splits option.splits if_splits dest: write_file_failure)
  then show ?thesis using True core_failure_InvalidArgument by blast
qed

theorem size_gate_exact_witness:
  "\<exists>s sz' w'. run_offload (card_os (spec_engine demo_merge 0)) default_config ''a.ldb'' 0x100001 ''b.ldb'' 2
      ''out.ldb'' 5 (demo_card 1) = Some (s, sz', w') \<and> (\<exists>m. s = InvalidArgument m) \<and> w' = demo_card 1 \<and> sz' = 5"
proof -
  have run: "run_offload (card_os (spec_engine demo_merge 0)) default_config ''a.ldb'' 0x100001 ''b.ldb'' 2
      ''out.ldb'' 5 (demo_card 1) =
    Some (InvalidArgument ''input SSTable too large for hardware offload'', 5, demo_card 1)"
    by (simp add: run_offload_def run_offload_split_def can_offload_def default_config_def)
  show ?thesis using size_gate_exact [OF run] run by blast
qed

section \<open>Ignored register writes\<close>

lemma write_reg_dead:
  "c_fds w (user_fd x) = Some (DevFd DevUser) \<Longrightarrow> \<not> c_bar_wr w \<Longrightarrow>
    \<exists>m e. write_reg (card_os eng) x a v w = (False, x\<lparr>last_error := m\<rparr>, w\<lparr>c_errno := e\<rparr>)"
  by (auto simp: write_reg_def card_pwrite_def card_fail_def set_error_def)

lemma write_regs_dead:
  "c_fds w (user_fd x) = Some (DevFd DevUser) \<Longrightarrow> \<not> c_bar_wr w \<Longrightarrow>
    \<exists>m e. write_regs (card_os eng) base ps x w = (x\<lparr>last_error := m\<rparr>, w\<lparr>c_errno := e\<rparr>)"
proof (induction ps arbitrary: x w)
  case Nil
  have "x = x\<lparr>last_error := last_error x\<rparr>" "w = w\<lparr>c_errno := c_errno w\<rparr>" by simp_all
  then show ?case by (metis write_regs.simps(1))
next
  case (Cons p ps)
  obtain off v where p: "p = (off, v)" by fastforce
  obtain m e where wr: "write_reg (card_os eng) x (base + off) v w = (False, x\<lparr>last_error := m\<rparr>, w\<lparr>c_errno := e\<rparr>)"
    using write_reg_dead Cons.prems by blast
  show ?case using Cons.IH [of "w\<lparr>c_errno := e\<rparr>" "x\<lparr>last_error := m\<rparr>"] Cons.prems
    by (simp add: p wr)
qed

lemma launch_engine_dead:
  assumes "c_fds w (user_fd x) = Some (DevFd DevUser)" and "\<not> c_bar_wr w" and "c_pending w = None"
  shows "\<exists>m e. launch_engine (card_os eng) cfg n0 n1 k x w =
    (x\<lparr>last_error := m\<rparr>, w\<lparr>c_errno := e, c_clock := c_clock w + 10000\<rparr>)"
proof -
  let ?wr = "write_regs (card_os eng) (axil_base cfg)"
  obtain m1 e1 where s1: "?wr [(kRegCtrl, 0x2)] x w = (x\<lparr>last_error := m1\<rparr>, w\<lparr>c_errno := e1\<rparr>)"
    using write_regs_dead assms(1,2) by blast
  let ?w1 = "w\<lparr>c_errno := e1, c_clock := c_clock w + 10000\<rparr>" and ?x1 = "x\<lparr>last_error := m1\<rparr>"
  obtain m2 e2 where s2: "?wr [(kRegCtrl, 0x0)] ?x1 ?w1 = (?x1\<lparr>last_error := m2\<rparr>, ?w1\<lparr>c_errno := e2\<rparr>)"
    using write_regs_dead [of ?w1 ?x1 eng "axil_base cfg" "[(kRegCtrl, 0x0)]"] assms
    by (auto simp del: write_regs.simps)
  obtain m3 e3 where s3: "?wr (register_program cfg n0 n1 k) (x\<lparr>last_error := m2\<rparr>) (?w1\<lparr>c_errno := e2\<rparr>) =
      (x\<lparr>last_error := m3\<rparr>, ?w1\<lparr>c_errno := e3\<rparr>)"
    using write_regs_dead [of "?w1\<lparr>c_errno := e2\<rparr>" "x\<lparr>last_error := m2\<rparr>" eng "axil_base cfg" "register_program cfg n0 n1 k"] assms
    by (auto simp del: write_regs.simps)
  obtain m4 e4 where s4: "?wr [(kRegCtrl, 0x1)] (x\<lparr>last_error := m3\<rparr>) (?w1\<lparr>c_errno := e3\<rparr>) =
      (x\<lparr>last_error := m4\<rparr>, ?w1\<lparr>c_errno := e4\<rparr>)"
    using write_regs_dead [of "?w1\<lparr>c_errno := e3\<rparr>" "x\<lparr>last_error := m3\<rparr>" eng "axil_base cfg" "[(kRegCtrl, 0x1)]"] assms
    by (auto simp del: write_regs.simps)
  have us: "card_usleep 10000 (w\<lparr>c_errno := e1\<rparr>) = ?w1"
    using assms(3) by (simp add: card_usleep_def card_settle_def)
  have "launch_engine (card_os eng) cfg n0 n1 k x w = (x\<lparr>last_error := m4\<rparr>, ?w1\<lparr>c_errno := e4\<rparr>)"
    using s1 s2 s3 s4 us
    by (simp add: launch_engine_def clear_engine_def start_engine_def Let_def del: write_regs.simps)
  then show ?thesis by (intro exI [of _ m4] exI [of _ e4]) simp
qed

text \<open>
  C22. When the register file refuses writes, \<^verbatim>\<open>launch_engine\<close> (steps 3 to 5 of
  \<^verbatim>\<open>RunOffloadCore\<close>) has no effect on the engine, and nobody notices: a DONE bit and results left by
  an earlier run are read back and returned as the result of this one, with status OK.
\<close>

theorem stale_results_accepted:
  assumes wired: "card_wired cfg (w\<lparr>c_bar_wr := True\<rparr>)" and dead: "\<not> c_bar_wr w"
    and idle: "c_pending w = None" and stale: "r_done (c_regs w)" "\<not> r_error (c_regs w)"
    and sizes: "c_sizes w \<noteq> []" "length (c_sizes w) \<le> 16" "0 \<notin> set (c_sizes w)"
      "c_count w = of_nat (length (c_sizes w))"
    and l0: "length d0 < 2 ^ 64" and l1: "length d1 < 2 ^ 64"
  shows "\<exists>w'. run_offload_core (card_os eng) cfg d0 d1 m w =
      Some (OK, read_layout (sources_loaded cfg d0 d1 (c_ddr w)) (dst_ddr_base cfg) (c_sizes w), w')"
proof -
  let ?w0 = "w\<lparr>c_bar_wr := True\<rparr>"
  let ?x = "opened_xdma cfg w" and ?w1 = "card_opened w"
  let ?w2 = "ddr_store (src0_ddr_base cfg) d0 ?w1"
  let ?w3 = "ddr_store (src1_ddr_base cfg) d1 ?w2"
  have op: "xdma_open (card_os eng) (xdma_new (cfg_h2c_dev cfg) (cfg_c2h_dev cfg) (cfg_user_dev cfg)) w =
      (True, ?x, ?w1)"
    using wired
    by (simp add: xdma_open_def xdma_new_def card_wired_defs card_open_def card_alloc_def
        opened_xdma_def card_opened_def Let_def add.commute)
  have fd: "h2c_fd ?x = c_next w" "user_fd ?x = c_next w + 2" "c2h_fd ?x = c_next w + 1"
    by (simp_all add: opened_xdma_def)
  have r1: "h2c_ready (c_next w) ?w1" using wired by (simp add: h2c_ready_def card_opened_def card_wired_defs)
  then have r2: "h2c_ready (c_next w) ?w2" by (simp add: h2c_ready_def ddr_store_def)
  have u3: "c_fds ?w3 (user_fd ?x) = Some (DevFd DevUser)" and dead3: "\<not> c_bar_wr ?w3"
    and idle3: "c_pending ?w3 = None"
    using dead idle by (simp_all add: fd ddr_store_def card_opened_def)
  obtain m' e where la: "launch_engine (card_os eng) cfg (of_nat (length d0)) (of_nat (length d1)) m ?x ?w3 =
      (?x\<lparr>last_error := m'\<rparr>, ?w3\<lparr>c_errno := e, c_clock := c_clock ?w3 + 10000\<rparr>)"
    using launch_engine_dead [OF u3 dead3 idle3] by blast
  let ?x4 = "?x\<lparr>last_error := m'\<rparr>"
  let ?w4 = "?w3\<lparr>c_errno := e, c_clock := c_clock ?w3 + 10000\<rparr>"
  let ?w5 = "?w4\<lparr>c_clock := c_clock ?w4 + 1000\<rparr>"
  let ?res = "\<lparr>er_latency = 0, er_error = False, er_ddr = c_ddr ?w5, er_count = c_count w, er_sizes = c_sizes w, er_counters = c_counters w\<rparr>"
  have base: "axil_base cfg = 0" using wired by (simp add: card_wired_defs)
  have same: "c_regs ?w5 = c_regs w" "c_count ?w5 = c_count w" "c_sizes ?w5 = c_sizes w" "c_pending ?w5 = None"
    "c_ddr ?w5 = sources_loaded cfg d0 d1 (c_ddr w)"
    using idle by (simp_all add: ddr_store_def card_opened_def sources_loaded_def)
  have ready: "status_ready ?x4 ?w5" and c2h: "c2h_ready (c2h_fd ?x4) ?w5"
    using wired by (simp_all add: status_ready_def c2h_ready_def ddr_store_def card_opened_def opened_xdma_def
        card_wired_defs)
  have st: "card_reg_read ?w5 4 = 2"
    using stale same by (simp add: card_reg_read_def axil_read_def status_word_def)
  have sleep: "card_usleep 1000 ?w4 = ?w5"
    using idle3 by (simp add: card_usleep_def card_settle_def)
  have two: "(2 :: u32) AND (kStatusDone OR kStatusError) \<noteq> 0"
    by (simp add: kStatusDone_def kStatusError_def)
  have poll: "poll_completion (card_os eng) cfg ?x4 ?w4 = Some (Inr 2, ?x4, ?w5)"
    unfolding poll_completion_def card_os_simps card_now_ms_def prod.case Let_def base
    by (subst poll_loop.simps) (simp only: card_os_simps sleep Let_def read_reg_card [OF ready] prod.case
        add_0_left ucast_reg_addresses st two not_True_eq_False if_False)
  have ok: "check_status cfg 2 = OK" by (simp add: check_status_OK)
  have sane: "sane_result ?res" using sizes by (simp add: sane_result_def)
  have res: "read_results (card_os eng) 0 ?x4 ?w5 = (Inr (c_sizes w), ?x4, ?w5)"
    using read_results_card [OF ready sane] same by simp
  have rb: "read_back (card_os eng) cfg 0 0 (c_sizes w) [] ?x4 ?w5 =
      Some (OK, read_layout (sources_loaded cfg d0 d1 (c_ddr w)) (dst_ddr_base cfg) (c_sizes w), ?x4, ?w5)"
    using read_back_card [OF c2h, of eng cfg 0 0 "c_sizes w" "[]"] same(5) by simp
  have "collect_outputs (card_os eng) cfg ?x4 ?w4 =
      leave (card_os eng) OK (read_layout (sources_loaded cfg d0 d1 (c_ddr w)) (dst_ddr_base cfg) (c_sizes w)) ?x4 ?w5"
    by (simp only: collect_outputs_def poll option.case prod.case sum.case ok base res rb
        not_True_eq_False if_False simp_thms)
  then show ?thesis
    unfolding run_offload_core_def Let_def op
    using card_h2c.to_device_ok [OF r1 fd(1) l0] card_h2c.to_device_ok [OF r2 fd(1) l1] la
    by (simp add: leave_def)
qed

theorem stale_results_accepted_witness:
  "\<exists>w'. run_offload_core (card_os (spec_engine demo_merge 0)) default_config [1, 2, 3] [4, 5] 0
      (demo_card 1\<lparr>c_bar_wr := False, c_regs := reset_regs\<lparr>r_done := True\<rparr>, c_count := 1, c_sizes := [3]\<rparr>) =
    Some (OK, read_layout (sources_loaded default_config [1, 2, 3] [4, 5] (c_ddr (demo_card 1)))
      (dst_ddr_base default_config) [3], w')"
  using stale_results_accepted [of default_config
      "demo_card 1\<lparr>c_bar_wr := False, c_regs := reset_regs\<lparr>r_done := True\<rparr>, c_count := 1, c_sizes := [3]\<rparr>"
      "[1, 2, 3]" "[4, 5]" "spec_engine demo_merge 0" 0]
  by (simp add: card_wired_defs demo_simps default_config_def)

end
