(* ===== verification/Offload_Frame.thy ===== *)
theory Offload_Frame
  imports Offload_Outcomes
begin

text \<open>
  What the pipeline leaves alone. The interface \<open>frame_os\<close> names a part of the world that calls
  on open devices do not touch; its client lemmas carry that through every loop of the driver. On
  the card this gives the release of every descriptor on every path, failures included.
\<close>

section \<open>What the calls on open devices leave alone\<close>

text \<open>The descriptors of the object; only \<^verbatim>\<open>Open\<close> and \<^verbatim>\<open>Close\<close> change them.\<close>

definition fds :: "xdma \<Rightarrow> int \<times> int \<times> int" where
  "fds x = (h2c_fd x, c2h_fd x, user_fd x)"

lemma fds_set_error [simp]: "fds (set_error m x) = fds x"
  by (simp add: fds_def set_error_def)

definition keeps_pwrite :: "'w posix \<Rightarrow> ('w \<Rightarrow> 'p) \<Rightarrow> bool" where
  "keeps_pwrite os proj \<longleftrightarrow> (\<forall>fd bs a v. proj (snd (os_pwrite os fd bs a v)) = proj v)"

definition keeps_pread :: "'w posix \<Rightarrow> ('w \<Rightarrow> 'p) \<Rightarrow> bool" where
  "keeps_pread os proj \<longleftrightarrow> (\<forall>fd c a v. proj (snd (os_pread os fd c a v)) = proj v)"

definition keeps_time :: "'w posix \<Rightarrow> ('w \<Rightarrow> 'p) \<Rightarrow> bool" where
  "keeps_time os proj \<longleftrightarrow> (\<forall>us v. proj (os_usleep os us v) = proj v) \<and> (\<forall>v. proj (snd (os_now_ms os v)) = proj v)"

lemma keeps_pwriteD: "keeps_pwrite os proj \<Longrightarrow> os_pwrite os fd bs a v = (n, v') \<Longrightarrow> proj v' = proj v"
  by (metis keeps_pwrite_def snd_conv)

lemma keeps_preadD: "keeps_pread os proj \<Longrightarrow> os_pread os fd c a v = (r, v') \<Longrightarrow> proj v' = proj v"
  by (metis keeps_pread_def snd_conv)

lemma keeps_nowD: "keeps_time os proj \<Longrightarrow> os_now_ms os v = (t, v') \<Longrightarrow> proj v' = proj v"
  by (metis keeps_time_def snd_conv)

lemma to_device_loop_frame:
  assumes "dma_to_device_loop os x p addr remaining w = Some r"
  shows "keeps_pwrite os proj \<longrightarrow> proj (snd (snd r)) = proj w \<and> fds (fst (snd r)) = fds x"
proof (induction rule: to_device_loop_induct [OF _ assms])
  case (1 f os x p addr remaining w r)
  let ?c = "if remaining < kDmaChunk then remaining else kDmaChunk"
  obtain n w1 where pw: "os_pwrite os (h2c_fd x) (take (unat ?c) p) addr w = (n, w1)" by fastforce
  show ?case
  proof (cases "remaining > 0 \<and> 0 \<le> n")
    case True
    then have "f os x (drop (nat n) p) (addr + word_of_int n) (remaining - word_of_int n) w1 = Some r"
      using 1(2) pw by (simp add: Let_def)
    from 1(1) [OF this] show ?thesis using pw keeps_pwriteD by metis
  next
    case False
    then show ?thesis using 1(2) pw by (auto simp: Let_def dest: keeps_pwriteD split: if_splits)
  qed
qed

lemma from_device_loop_frame:
  assumes "dma_from_device_loop os x buf i addr remaining w = Some r"
  shows "keeps_pread os proj \<longrightarrow> proj (snd (snd (snd r))) = proj w \<and> fds (fst (snd (snd r))) = fds x"
proof (induction rule: from_device_loop_induct [OF _ assms])
  case (1 f os x buf i addr remaining w r)
  let ?c = "if remaining < kDmaChunk then remaining else kDmaChunk"
  obtain n bs w1 where pr: "os_pread os (c2h_fd x) ?c addr w = ((n, bs), w1)" by (metis prod.collapse)
  show ?case
  proof (cases "remaining > 0 \<and> 0 \<le> n")
    case True
    then have "f os x (overwrite buf i bs) (i + nat n) (addr + word_of_int n) (remaining - word_of_int n) w1 = Some r"
      using 1(2) pr by (simp add: Let_def)
    from 1(1) [OF this] show ?thesis using pr keeps_preadD by metis
  next
    case False
    then show ?thesis using 1(2) pr by (auto simp: Let_def dest: keeps_preadD split: if_splits)
  qed
qed

lemma read_reg_frame:
  "keeps_pread os proj \<Longrightarrow> read_reg os x a old w = (ok, v, x', w') \<Longrightarrow> proj w' = proj w \<and> fds x' = fds x"
  by (auto simp: read_reg_def Let_def dest: keeps_preadD split: prod.splits if_splits)

lemma poll_loop_frame:
  assumes "poll_loop os base deadline st x w = Some r"
  shows "keeps_pread os proj \<longrightarrow> keeps_time os proj \<longrightarrow>
    proj (snd (snd r)) = proj w \<and> fds (fst (snd r)) = fds x"
proof (induction rule: poll_loop_induct [OF _ assms])
  case (1 f os base deadline st x w r)
  obtain ok st1 x1 w2 where rr: "read_reg os x (base + kRegStatus) st (os_usleep os 1000 w) = (ok, st1, x1, w2)"
    by (metis prod.collapse)
  obtain t w3 where now: "os_now_ms os w2 = (t, w3)" by fastforce
  have k2: "proj w2 = proj w" "fds x1 = fds x" if "keeps_pread os proj" "keeps_time os proj"
    using read_reg_frame [OF that(1) rr] that(2) by (simp_all add: keeps_time_def)
  show ?case
  proof (cases "ok \<and> st1 AND (kStatusDone OR kStatusError) = 0 \<and> t < deadline")
    case True
    then have "f os base deadline st1 x1 w3 = Some r" using 1(2) rr now by (simp add: Let_def)
    from 1(1) [OF this] show ?thesis using k2 keeps_nowD [OF _ now, of proj] by auto
  next
    case False
    then show ?thesis using 1(2) rr now k2 keeps_nowD [OF _ now, of proj] by (auto simp: Let_def split: if_splits)
  qed
qed

locale frame_reads =
  fixes os :: "'w posix" and proj :: "'w \<Rightarrow> 'p"
  assumes keeps_reads: "keeps_pread os proj" "keeps_time os proj"
begin

lemma frame_from_device:
  "dma_from_device os x a buf n w = Some (ok, b, x', w') \<Longrightarrow> proj w' = proj w \<and> fds x' = fds x"
  using from_device_loop_frame [of os x buf 0 a n w "(ok, b, x', w')" proj] keeps_reads
  by (simp add: dma_from_device_def)

lemma frame_poll:
  "poll_completion os cfg x w = Some (p, x', w') \<Longrightarrow> proj w' = proj w \<and> fds x' = fds x"
  using keeps_reads
  by (auto simp: poll_completion_def split: prod.splits
      dest!: poll_loop_frame [where proj = proj] keeps_nowD [of os proj])

lemma frame_read_sizes:
  "read_sizes os base k i acc x w = (r, x', w') \<Longrightarrow> proj w' = proj w \<and> fds x' = fds x"
proof (induction k arbitrary: i acc x w)
  case 0
  then show ?case by simp
next
  case (Suc k)
  obtain ok sz x1 w1 where rr: "read_reg os x (base + kRegSstableSizesBase + of_nat (i * 4)) 0 w = (ok, sz, x1, w1)"
    by (metis prod.collapse)
  then show ?case using Suc read_reg_frame [OF keeps_reads(1) rr] by (auto split: if_splits)
qed

lemma frame_read_results:
  assumes "read_results os base x w = (r, x', w')"
  shows "proj w' = proj w \<and> fds x' = fds x"
proof -
  obtain ok cnt x1 w1 where rr: "read_reg os x (base + kRegSstableCount) 0 w = (ok, cnt, x1, w1)"
    by (metis prod.collapse)
  then show ?thesis using assms read_reg_frame [OF keeps_reads(1) rr] frame_read_sizes
    by (fastforce simp: read_results_def split: if_splits)
qed

lemma frame_read_back:
  "read_back os cfg i off szs outs x w = Some (s, outs', x', w') \<Longrightarrow> proj w' = proj w \<and> fds x' = fds x"
proof (induction szs arbitrary: i off outs x w)
  case Nil
  then show ?case by simp
next
  case (Cons sz szs)
  then obtain ok buf x1 w1 where
    dma: "dma_from_device os x (dst_ddr_base cfg + off) (replicate (unat sz) 0) (ucast sz) w = Some (ok, buf, x1, w1)"
    by (auto split: option.splits)
  show ?case
  proof (cases ok)
    case True
    then show ?thesis using Cons dma frame_from_device [OF dma] by fastforce
  next
    case False
    then show ?thesis using Cons.prems dma frame_from_device [OF dma] by simp
  qed
qed

lemma frame_collect:
  assumes "collect_outputs os cfg x w = Some (s, outs, w')"
  shows "\<exists>x1 w1. w' = snd (xdma_close os x1 w1) \<and> proj w1 = proj w \<and> fds x1 = fds x"
proof -
  from assms obtain p x1 w1 where poll: "poll_completion os cfg x w = Some (p, x1, w1)"
    by (auto simp: collect_outputs_def split: option.splits)
  obtain rr x2 w2 where res: "read_results os (axil_base cfg) x1 w1 = (rr, x2, w2)" by (metis prod.collapse)
  note f1 = frame_poll [OF poll] and f2 = frame_read_results [OF res]
  consider (early) "w' = snd (xdma_close os x1 w1)" | (bad) "w' = snd (xdma_close os x2 w2)"
    | (fetched) szs s3 o3 x3 w3 where "read_back os cfg 0 0 szs [] x2 w2 = Some (s3, o3, x3, w3)"
        "w' = snd (xdma_close os x3 w3)"
    using assms poll res
    by (auto simp: collect_outputs_def leave_def split: sum.splits if_splits option.splits prod.splits)
  then show ?thesis
  proof cases
    case early
    then show ?thesis using f1 by blast
  next
    case bad
    then show ?thesis using f1 f2 by metis
  next
    case fetched
    then show ?thesis using f1 f2 frame_read_back [OF fetched(1)] fetched(2) by metis
  qed
qed

end

text \<open>With the writes, the whole core keeps it.\<close>

locale frame_os = frame_reads +
  assumes keeps_writes: "keeps_pwrite os proj"
begin

lemma frame_to_device:
  "dma_to_device os x a d n w = Some (ok, x', w') \<Longrightarrow> proj w' = proj w \<and> fds x' = fds x"
  using to_device_loop_frame [of os x d a n w "(ok, x', w')" proj] keeps_writes by (simp add: dma_to_device_def)

lemma frame_write_regs:
  "write_regs os base ps x w = (x', w') \<Longrightarrow> proj w' = proj w \<and> fds x' = fds x"
proof (induction ps arbitrary: x w)
  case Nil
  then show ?case by simp
next
  case (Cons p ps)
  obtain off v where p: "p = (off, v)" by fastforce
  obtain ok x1 w1 where wr: "write_reg os x (base + off) v w = (ok, x1, w1)" by (metis prod.collapse)
  have "proj w1 = proj w \<and> fds x1 = fds x"
    using wr keeps_writes by (auto simp: write_reg_def dest: keeps_pwriteD split: prod.splits if_splits)
  then show ?case using Cons wr p by simp
qed

lemma frame_launch:
  assumes "launch_engine os cfg n0 n1 m x w = (x', w')"
  shows "proj w' = proj w \<and> fds x' = fds x"
proof -
  let ?b = "axil_base cfg"
  obtain x1 w1 where s1: "write_regs os ?b [(kRegCtrl, 0x2)] x w = (x1, w1)" by fastforce
  obtain x2 w2 where s2: "write_regs os ?b [(kRegCtrl, 0x0)] x1 (os_usleep os 10000 w1) = (x2, w2)" by fastforce
  obtain x3 w3 where s3: "write_regs os ?b (register_program cfg n0 n1 m) x2 w2 = (x3, w3)" by fastforce
  have s4: "write_regs os ?b [(kRegCtrl, 0x1)] x3 w3 = (x', w')"
    using assms s1 s2 s3
    by (simp add: launch_engine_def clear_engine_def start_engine_def Let_def del: write_regs.simps)
  have "proj (os_usleep os 10000 w1) = proj w1" using keeps_reads(2) by (simp add: keeps_time_def)
  then show ?thesis
    using frame_write_regs [OF s1] frame_write_regs [OF s2] frame_write_regs [OF s3] frame_write_regs [OF s4]
    by simp
qed

lemma frame_core:
  assumes "run_offload_core os cfg d0 d1 m w = Some (s, outs, w')"
    and op: "xdma_open os (xdma_new (cfg_h2c_dev cfg) (cfg_c2h_dev cfg) (cfg_user_dev cfg)) w = (opened, x, v)"
  shows "\<exists>x1 w1. w' = snd (xdma_close os x1 w1) \<and> proj w1 = proj v \<and> fds x1 = fds x"
proof (cases opened)
  case False
  then show ?thesis using assms by (auto simp: run_offload_core_def Let_def leave_def)
next
  case opened: True
  then obtain ok0 x2 w2 where d0: "dma_to_device os x (src0_ddr_base cfg) d0 (of_nat (length d0)) v = Some (ok0, x2, w2)"
    using assms by (auto simp: run_offload_core_def Let_def split: option.splits)
  note f2 = frame_to_device [OF d0]
  show ?thesis
  proof (cases ok0)
    case False
    then show ?thesis using assms opened d0 f2 by (auto simp: run_offload_core_def Let_def leave_def)
  next
    case True
    then obtain ok1 x3 w3 where d1: "dma_to_device os x2 (src1_ddr_base cfg) d1 (of_nat (length d1)) w2 = Some (ok1, x3, w3)"
      using assms opened d0 by (auto simp: run_offload_core_def Let_def split: option.splits)
    note f3 = frame_to_device [OF d1]
    obtain x4 w4 where la: "launch_engine os cfg (of_nat (length d0)) (of_nat (length d1)) m x3 w3 = (x4, w4)"
      by fastforce
    show ?thesis
    proof (cases ok1)
      case False
      then show ?thesis using assms opened d0 d1 True f2 f3 by (auto simp: run_offload_core_def Let_def leave_def)
    next
      case t1: True
      then have "collect_outputs os cfg x4 w4 = Some (s, outs, w')"
        using assms opened d0 d1 True la by (simp add: run_offload_core_def Let_def)
      from frame_collect [OF this] frame_launch [OF la] f2 f3 show ?thesis by metis
    qed
  qed
qed

end

section \<open>Descriptors on the card\<close>

text \<open>Open descriptors, files and device names: what the pipeline proper must not touch.\<close>

definition host_part ::
  "card \<Rightarrow> (int \<Rightarrow> ofd option) \<times> int \<times> (string \<Rightarrow> byte list option) \<times> (string \<Rightarrow> dev option)" where
  "host_part w = (c_fds w, c_next w, c_files w, c_devs w)"

lemma host_part_settle [simp]: "host_part (card_settle w) = host_part w"
  by (simp add: card_settle_def host_part_def split: option.split)

lemma host_part_reg_write [simp]: "host_part (card_reg_write eng a v w) = host_part w"
  by (simp add: card_reg_write_def host_part_def Let_def)

interpretation card_frame: frame_os "card_os eng" host_part for eng
proof
  show "keeps_pwrite (card_os eng) host_part"
    by (auto simp: keeps_pwrite_def card_pwrite_def card_fail_def host_part_def card_reg_write_def Let_def
        split: option.split ofd.split dev.split)
  show "keeps_pread (card_os eng) host_part"
    by (auto simp: keeps_pread_def card_pread_def host_part_def split: option.split ofd.split dev.split)
  show "keeps_time (card_os eng) host_part"
    by (auto simp: keeps_time_def card_usleep_def card_now_ms_def) (simp add: host_part_def)
qed

lemma card_open_fds:
  assumes "card_open path fl w = (fd, w1)" and "fds_fresh w"
  shows "(fd < 0 \<longrightarrow> c_fds w1 = c_fds w \<and> c_next w1 = c_next w) \<and>
    (0 \<le> fd \<longrightarrow> fd = c_next w \<and> c_next w1 = c_next w + 1 \<and> (\<exists>f. c_fds w1 = (c_fds w)(fd := Some f)))"
  using assms
  by (auto simp: card_open_def card_alloc_def fds_fresh_def split: option.splits open_flags.splits if_splits)

lemma close_fd_fds:
  "close_fd (card_os eng) fd w = (fd', w') \<Longrightarrow>
    c_fds w' = (if 0 \<le> fd then (c_fds w)(fd := None) else c_fds w) \<and> c_next w' = c_next w"
  by (auto simp: close_fd_def card_close_def split: if_splits)

text \<open>A world that differs from a fresh one only by descriptors that have been closed again.\<close>

definition released :: "card \<Rightarrow> card \<Rightarrow> bool" where
  "released w w' \<longleftrightarrow> c_fds w' = c_fds w \<and> c_next w \<le> c_next w' \<and> c_files w' = c_files w"

lemma released_refl [simp]: "released w w"
  by (simp add: released_def)

lemma released_trans: "released w v \<Longrightarrow> released v u \<Longrightarrow> released w u"
  by (auto simp: released_def)

lemma released_fresh: "released w w' \<Longrightarrow> fds_fresh w \<Longrightarrow> fds_fresh w'"
  by (auto simp: released_def fds_fresh_def)

lemma card_open_files:
  "card_open path fl w = (fd, w1) \<Longrightarrow> (\<nexists>k. fl = O_WRONLY_CREAT_TRUNC k) \<Longrightarrow> c_files w1 = c_files w"
  by (auto simp: card_open_def card_alloc_def split: option.splits open_flags.splits if_splits)

text \<open>Closing exactly the descriptors that \<^verbatim>\<open>Open\<close> got, however far it came.\<close>

lemma xdma_close_fds:
  "c_fds (snd (xdma_close (card_os eng) x w)) =
     (\<lambda>fd. if 0 \<le> fd \<and> (fd = h2c_fd x \<or> fd = c2h_fd x \<or> fd = user_fd x) then None else c_fds w fd)"
  "c_next (snd (xdma_close (card_os eng) x w)) = c_next w"
  "c_files (snd (xdma_close (card_os eng) x w)) = c_files w"
  by (auto simp: xdma_close_def close_fd_def card_close_def Let_def)

lemma xdma_open_fds:
  assumes "xdma_open (card_os eng) (xdma_new h c u) w = (opened, x, v)" and "fds_fresh w"
  shows "(\<forall>fd. c_fds v fd = (if 0 \<le> fd \<and> (fd = h2c_fd x \<or> fd = c2h_fd x \<or> fd = user_fd x) then c_fds v fd else c_fds w fd))
    \<and> (\<forall>fd. 0 \<le> fd \<and> (fd = h2c_fd x \<or> fd = c2h_fd x \<or> fd = user_fd x) \<longrightarrow> c_next w \<le> fd)
    \<and> c_next w \<le> c_next v \<and> c_files v = c_files w"
proof -
  obtain f1 w1 where o1: "card_open h O_WRONLY w = (f1, w1)" by fastforce
  obtain f2 w2 where o2: "card_open c O_RDONLY w1 = (f2, w2)" by fastforce
  obtain f3 w3 where o3: "card_open u O_RDWR w2 = (f3, w3)" by fastforce
  have fresh: "fds_fresh v'" if "card_open p fl u' = (fd, v')" "fds_fresh u'" for p fl u' fd v'
    using card_open_fds [OF that] that(2) by (cases "fd < 0") (auto simp: fds_fresh_def)
  note c1 = card_open_fds [OF o1 assms(2)] card_open_files [OF o1]
  note c2 = card_open_fds [OF o2 fresh [OF o1 assms(2)]] card_open_files [OF o2]
  note c3 = card_open_fds [OF o3 fresh [OF o2 fresh [OF o1 assms(2)]]] card_open_files [OF o3]
  have next0: "0 \<le> c_next w" using assms(2) by (simp add: fds_fresh_def)
  consider "f1 < 0" | "0 \<le> f1" "f2 < 0" | "0 \<le> f1" "0 \<le> f2" "f3 < 0" | "0 \<le> f1" "0 \<le> f2" "0 \<le> f3"
    by linarith
  then show ?thesis
  proof cases
    case 1
    then show ?thesis using assms(1) o1 c1 next0
      by (auto simp: xdma_open_def xdma_new_def set_error_def Let_def)
  next
    case 2
    then show ?thesis using assms(1) o1 o2 c1 c2 next0
      by (auto simp: xdma_open_def xdma_new_def set_error_def Let_def)
  next
    case 3
    then show ?thesis using assms(1) o1 o2 o3 c1 c2 c3 next0
      by (auto simp: xdma_open_def xdma_new_def set_error_def Let_def)
  next
    case 4
    then show ?thesis using assms(1) o1 o2 o3 c1 c2 c3 next0
      by (auto simp: xdma_open_def xdma_new_def set_error_def Let_def)
  qed
qed

lemma core_released:
  assumes run: "run_offload_core (card_os eng) cfg d0 d1 m w = Some (s, outs, w')" and fresh: "fds_fresh w"
  shows "released w w'"
proof -
  obtain opened x v where op:
    "xdma_open (card_os eng) (xdma_new (cfg_h2c_dev cfg) (cfg_c2h_dev cfg) (cfg_user_dev cfg)) w = (opened, x, v)"
    by (metis prod.collapse)
  obtain x1 w1 where w': "w' = snd (xdma_close (card_os eng) x1 w1)" and
    part: "host_part w1 = host_part v" and same: "fds x1 = fds x"
    using card_frame.frame_core [OF run op] by blast
  have eq: "h2c_fd x1 = h2c_fd x" "c2h_fd x1 = c2h_fd x" "user_fd x1 = user_fd x"
    "c_fds w1 = c_fds v" "c_next w1 = c_next v" "c_files w1 = c_files v"
    using part same by (simp_all add: fds_def host_part_def)
  note o = xdma_open_fds [OF op fresh]
  have "c_fds w' fd = c_fds w fd" for fd
  proof (cases "0 \<le> fd \<and> (fd = h2c_fd x \<or> fd = c2h_fd x \<or> fd = user_fd x)")
    case True
    then have "c_next w \<le> fd" using o by blast
    then have "c_fds w fd = None" using fresh by (simp add: fds_fresh_def)
    moreover have "c_fds w' fd = None" using True by (simp add: w' xdma_close_fds eq)
    ultimately show ?thesis by simp
  next
    case False
    then have "c_fds v fd = c_fds w fd" using o by metis
    then show ?thesis using False by (simp only: w' xdma_close_fds eq if_False)
  qed
  then show ?thesis using o by (auto simp: released_def w' xdma_close_fds(2,3) eq)
qed

text \<open>Reading a file moves the offset of its own descriptor and closes it.\<close>

lemma card_read_part:
  assumes "card_read fd c w = ((n, bs), w1)"
  shows "c_files w1 = c_files w \<and> c_next w1 = c_next w \<and> (c_fds w1)(fd := None) = (c_fds w)(fd := None) \<and>
    n \<le> int (unat c)"
  using assms by (auto simp: card_read_def Let_def split: option.splits ofd.splits)

lemma read_loop_part:
  assumes "read_loop (card_os eng) path fd buf i remaining w = Some (s, b, w')"
  shows "c_files w' = c_files w \<and> c_next w' = c_next w \<and> c_fds w' = (c_fds w)(fd := None)"
  using assms
proof (induction "unat remaining" arbitrary: buf i remaining w rule: less_induct)
  case less
  obtain n bs w1 where r: "card_read fd remaining w = ((n, bs), w1)" by (metis prod.collapse)
  note part = card_read_part [OF r]
  show ?case
  proof (cases "remaining > 0 \<and> 0 < n")
    case True
    let ?rem = "remaining - word_of_int n"
    have n: "nat n \<le> unat remaining" using part by (simp add: nat_le_iff)
    have "unat ?rem = unat remaining - nat n" using True n by (intro remaining_step) auto
    then have lt: "unat ?rem < unat remaining" using True n by linarith
    have "read_loop (card_os eng) path fd (overwrite buf i bs) (i + nat n) ?rem w1 = Some (s, b, w')"
      using less.prems True r by (subst (asm) read_loop.simps) (simp add: Let_def)
    from less.hyps [OF lt this] part show ?thesis by simp
  next
    case False
    then show ?thesis using less.prems part r
      by (subst (asm) read_loop.simps) (auto simp: Let_def card_close_def split: if_splits)
  qed
qed

lemma read_file_released:
  assumes "read_file (card_os eng) path w = Some (s, d, w')" and "fds_fresh w"
  shows "released w w'"
proof -
  obtain fd w1 where op: "card_open path O_RDONLY w = (fd, w1)" by fastforce
  note o = card_open_fds [OF op assms(2)] card_open_files [OF op]
  have next0: "c_fds w (c_next w) = None" "0 \<le> c_next w" using assms(2) by (simp_all add: fds_fresh_def)
  show ?thesis
  proof (cases "fd < 0")
    case True
    then show ?thesis using assms(1) op o by (auto simp: read_file_def released_def)
  next
    case False
    obtain rc sz w2 where st: "card_fstat fd w1 = ((rc, sz), w2)" by (metis prod.collapse)
    have w2: "c_fds w2 = c_fds w1" "c_files w2 = c_files w1" "c_next w2 = c_next w1"
      using st by (auto simp: card_fstat_def split: option.splits ofd.splits)
    have undo: "(c_fds w1)(fd := None) = c_fds w" using o False next0 by (auto simp: fun_eq_iff)
    show ?thesis
      using assms(1) op st False o w2 undo
      by (auto simp: read_file_def released_def card_close_def Let_def split: if_splits dest!: read_loop_part)
  qed
qed

section \<open>Writing the output\<close>

definition fd_names :: "int \<Rightarrow> string \<Rightarrow> card \<Rightarrow> bool" where
  "fd_names fd path w \<longleftrightarrow> (\<forall>p k. c_fds w fd = Some (FileFd p k) \<longrightarrow> p = path)"

lemma card_write_part:
  assumes "card_write fd bs w = (n, w1)" and "fd_names fd path w"
  shows "(c_fds w1)(fd := None) = (c_fds w)(fd := None) \<and> c_next w1 = c_next w \<and> n \<le> int (length bs) \<and>
    fd_names fd path w1 \<and> (\<forall>q. q \<noteq> path \<longrightarrow> c_files w1 q = c_files w q)"
  using assms
  by (auto simp: card_write_def card_put_def card_fail_def fd_names_def Let_def
      split: option.splits ofd.splits if_splits)

lemma write_loop_part:
  assumes "write_loop (card_os eng) path fd p remaining w = Some (s, w')" and "fd_names fd path w"
  shows "(c_fds w')(fd := None) = (c_fds w)(fd := None) \<and> (s \<noteq> OK \<longrightarrow> c_fds w' fd = None) \<and>
    c_next w' = c_next w \<and> (\<forall>q. q \<noteq> path \<longrightarrow> c_files w' q = c_files w q)"
  using assms
proof (induction "unat remaining" arbitrary: p remaining w rule: less_induct)
  case less
  obtain n w1 where wr: "card_write fd (take (unat remaining) p) w = (n, w1)" by fastforce
  note part = card_write_part [OF wr less.prems(2)]
  show ?case
  proof (cases "remaining > 0 \<and> 0 < n")
    case True
    let ?rem = "remaining - word_of_int n"
    have "nat n \<le> length (take (unat remaining) p)" using part by (simp add: nat_le_iff del: length_take)
    then have n: "nat n \<le> unat remaining" by simp
    have "unat ?rem = unat remaining - nat n" using True n by (intro remaining_step) auto
    then have lt: "unat ?rem < unat remaining" using True n by linarith
    have "write_loop (card_os eng) path fd (drop (nat n) p) ?rem w1 = Some (s, w')"
      using less.prems(1) True wr by (subst (asm) write_loop.simps) (simp add: Let_def)
    from less.hyps [OF lt this] part show ?thesis by simp
  next
    case False
    then show ?thesis using less.prems part wr
      by (subst (asm) write_loop.simps) (auto simp: Let_def card_close_def split: if_splits)
  qed
qed

lemma write_file_part:
  assumes "write_file (card_os eng) path data n w = Some (s, w')" and "fds_fresh w"
  shows "c_fds w' = c_fds w \<and> c_next w \<le> c_next w' \<and> (\<forall>q. q \<noteq> path \<longrightarrow> c_files w' q = c_files w q)"
proof -
  obtain fd w1 where op: "card_open path (O_WRONLY_CREAT_TRUNC 420) w = (fd, w1)" by fastforce
  note o = card_open_fds [OF op assms(2)]
  have fs: "\<forall>q. q \<noteq> path \<longrightarrow> c_files w1 q = c_files w q" and nm: "0 \<le> fd \<longrightarrow> fd_names fd path w1"
    using op by (auto simp: card_open_def card_alloc_def fd_names_def split: option.splits)
  have next0: "c_fds w (c_next w) = None" using assms(2) by (simp add: fds_fresh_def)
  show ?thesis
  proof (cases "fd < 0")
    case True
    then show ?thesis using assms(1) op o fs by (auto simp: write_file_def)
  next
    case False
    then obtain s2 w2 where lp: "write_loop (card_os eng) path fd data n w1 = Some (s2, w2)"
      using assms(1) op by (auto simp: write_file_def split: option.splits)
    have "fd_names fd path w1" using nm False by simp
    note part = write_loop_part [OF lp this]
    have nx: "c_next w \<le> c_next w1" using o False by simp
    have undo: "(c_fds w1)(fd := None) = c_fds w" using o False next0 by (auto simp: fun_eq_iff)
    show ?thesis
    proof (cases "s2 = OK")
      case True
      then show ?thesis using assms(1) op False lp part undo fs nx
        by (auto simp: write_file_def card_close_def)
    next
      case bad: False
      then have "w' = w2" using assms(1) op False lp by (auto simp: write_file_def)
      moreover have "(c_fds w2)(fd := None) = c_fds w2" using part bad by (metis fun_upd_triv)
      ultimately show ?thesis using part undo fs nx by simp
    qed
  qed
qed

lemma split_released:
  assumes "run_offload_split (card_os eng) cfg p0 b0 p1 b1 m outs0 w = Some (s, outs, w')" and "fds_fresh w"
  shows "released w w'"
proof (cases "can_offload cfg b0 b1")
  case False
  then show ?thesis using assms(1) by (simp add: run_offload_split_def)
next
  case True
  then obtain s0 d0 w1 where r0: "read_file (card_os eng) p0 w = Some (s0, d0, w1)"
    using assms(1) by (auto simp: run_offload_split_def split: option.splits)
  have rel1: "released w w1" using r0 assms(2) by (rule read_file_released)
  show ?thesis
  proof (cases "s0 = OK")
    case bad: False
    then show ?thesis using assms(1) True r0 rel1 by (simp add: run_offload_split_def)
  next
    case ok: True
    then obtain s1 d1 w2 where r1: "read_file (card_os eng) p1 w1 = Some (s1, d1, w2)"
      using assms(1) True r0 by (auto simp: run_offload_split_def split: option.splits)
    have fresh1: "fds_fresh w1" using rel1 assms(2) by (rule released_fresh)
    have "released w1 w2" using r1 fresh1 by (rule read_file_released)
    with rel1 have rel2: "released w w2" by (rule released_trans)
    then have "fds_fresh w2" using assms(2) by (rule released_fresh)
    with rel2 show ?thesis using assms(1) True r0 ok r1
      by (auto simp: run_offload_split_def split: if_splits intro: released_trans core_released)
  qed
qed

text \<open>
  C20. No path through \<^verbatim>\<open>RunOffload\<close> leaks a descriptor or touches a file other than
  \<^verbatim>\<open>out_path\<close>: whatever is missing, broken or full, and whatever the engine does, after the call
  exactly the descriptors open before are open, and every other file is as it was.
\<close>

theorem run_offload_releases:
  assumes "run_offload (card_os eng) cfg p0 b0 p1 b1 out sz w = Some (s, sz', w')" and "fds_fresh w"
  shows "c_fds w' = c_fds w \<and> (\<forall>q. q \<noteq> out \<longrightarrow> c_files w' q = c_files w q)"
proof -
  from assms(1) obtain s1 outs w1 where
    split: "run_offload_split (card_os eng) cfg p0 b0 p1 b1 0 [] w = Some (s1, outs, w1)"
    by (auto simp: run_offload_def split: option.splits)
  have rel: "released w w1" using split assms(2) by (rule split_released)
  then have fresh: "fds_fresh w1" using assms(2) by (rule released_fresh)
  show ?thesis
  proof (cases "s1 = OK \<and> outs \<noteq> []")
    case False
    then show ?thesis using assms(1) split rel by (auto simp: run_offload_def released_def split: list.splits if_splits)
  next
    case True
    then obtain b bs where outs: "outs = b # bs" by (cases outs) auto
    then obtain s2 where wf: "write_file (card_os eng) out b (of_nat (length b)) w1 = Some (s2, w')"
      using assms(1) split True by (auto simp: run_offload_def split: option.splits if_splits)
    show ?thesis using write_file_part [OF wf fresh] rel by (auto simp: released_def)
  qed
qed

theorem run_offload_releases_witness:
  "\<exists>s sz' w'. run_offload (card_os (\<lambda>r d. \<lparr>er_latency = 3, er_error = True, er_ddr = d, er_count = 9,
      er_sizes = [], er_counters = (\<lambda>_. 0)\<rparr>)) default_config ''a.ldb'' 3 ''b.ldb'' 2 ''out.ldb'' 0 (demo_card 1) = Some (s, sz', w') \<and>
    c_fds w' = (\<lambda>_. None) \<and> c_files w' ''a.ldb'' = Some [1, 2, 3]"
proof -
  have fresh: "fds_fresh (demo_card 1)" by (simp add: fds_fresh_def demo_card_def)
  have live: "card_live (demo_card 1)" by (simp add: card_live_def demo_card_def)
  obtain s sz' w' where run: "run_offload (card_os (\<lambda>r d. \<lparr>er_latency = 3, er_error = True, er_ddr = d,
      er_count = 9, er_sizes = [], er_counters = (\<lambda>_. 0)\<rparr>)) default_config ''a.ldb'' 3 ''b.ldb'' 2 ''out.ldb'' 0 (demo_card 1) =
      Some (s, sz', w')"
    using card_live.run_offload_returns [OF live] by (metis prod.collapse)
  show ?thesis using run_offload_releases [OF run fresh] run by (auto simp: demo_card_def demo_files_def)
qed

text \<open>
  A write that runs out of space is reported as an I/O error, but the output file has already been
  truncated and holds the part that fitted: \<^verbatim>\<open>out_path\<close> is not ``left unwritten''.
\<close>

theorem short_disk_truncates_output:
  assumes "c_devs w path = None" and "c_disk w = Some k" and "length data < 2 ^ 64"
    and "0 \<le> c_next w" and "k < length data"
  shows "\<exists>m w'. write_file (card_os eng) path data (of_nat (length data)) w = Some (IOError m, w') \<and>
    c_files w' path = Some (take k data)"
  using write_file_card_full [OF assms, of eng] by fastforce

theorem short_disk_truncates_output_witness:
  "\<exists>m w'. write_file (card_os (spec_engine demo_merge 0)) ''a.ldb'' [7, 8, 9] (of_nat (length [7, 8, 9 :: byte]))
      (demo_card 1\<lparr>c_disk := Some 2\<rparr>) = Some (IOError m, w') \<and> c_files w' ''a.ldb'' = Some (take 2 [7, 8, 9])"
  by (rule short_disk_truncates_output) (simp_all add: demo_simps)

section \<open>Transfers and registers\<close>

text \<open>
  C17. What \<^verbatim>\<open>DmaToDevice\<close> sends, \<^verbatim>\<open>DmaFromDevice\<close> gets back, byte for byte, however small the
  pieces are in which the channels move it, and nothing else in the DDR changes.
\<close>

theorem dma_round_trip:
  assumes "c_fds w (h2c_fd x) = Some (DevFd DevH2C)" and "c_fds w (c2h_fd x) = Some (DevFd DevC2H)"
    and "0 < c_xfer w" and "length data < 2 ^ 64" and "length buf = length data"
  shows "\<exists>w1. dma_to_device (card_os eng) x a data (of_nat (length data)) w = Some (True, x, w1) \<and>
    dma_from_device (card_os eng) x a buf (of_nat (length data)) w1 = Some (True, data, x, w1) \<and>
    (\<forall>b. (\<forall>i<length data. b \<noteq> a + of_nat i) \<longrightarrow> c_ddr w1 b = c_ddr w b)"
proof -
  let ?w1 = "ddr_store a data w"
  have n: "unat (of_nat (length data) :: u64) = length data" using assms(4) by (rule unat_of_nat64)
  have r: "h2c_ready (h2c_fd x) w" "c2h_ready (c2h_fd x) ?w1"
    using assms by (simp_all add: h2c_ready_def c2h_ready_def ddr_store_def)
  have "ddr_fetch a (length data) ?w1 = data"
    using assms(4) by (simp add: ddr_fetch_def ddr_store_def mem_read_mem_write)
  then have "dma_from_device (card_os eng) x a buf (of_nat (length data)) ?w1 = Some (True, data, x, ?w1)"
    using card_c2h.from_device_ok [OF r(2) refl, of buf "of_nat (length data)" eng a] assms(5) by (auto simp: n)
  moreover have "c_ddr ?w1 b = c_ddr w b" if "\<forall>i<length data. b \<noteq> a + of_nat i" for b
    using that by (auto simp: ddr_store_def intro!: mem_write_outside)
  ultimately show ?thesis using card_h2c.to_device_ok [OF r(1) refl assms(4), of eng a] by blast
qed

theorem dma_round_trip_witness:
  "\<exists>w1. dma_to_device (card_os (spec_engine demo_merge 0)) (opened_xdma default_config (demo_card 2)) 0xFFFFFFFFFFFFFFFE
      [1, 2, 3, 4, 5] (of_nat (length [1, 2, 3, 4, 5 :: byte])) (card_opened (demo_card 2)) =
      Some (True, opened_xdma default_config (demo_card 2), w1) \<and>
    dma_from_device (card_os (spec_engine demo_merge 0)) (opened_xdma default_config (demo_card 2)) 0xFFFFFFFFFFFFFFFE
      [0, 0, 0, 0, 0] (of_nat (length [1, 2, 3, 4, 5 :: byte])) w1 =
      Some (True, [1, 2, 3, 4, 5], opened_xdma default_config (demo_card 2), w1) \<and>
    (\<forall>b. (\<forall>i<length [1, 2, 3, 4, 5 :: byte]. b \<noteq> 0xFFFFFFFFFFFFFFFE + of_nat i) \<longrightarrow>
       c_ddr w1 b = c_ddr (card_opened (demo_card 2)) b)"
  by (rule dma_round_trip) (simp_all add: opened_xdma_def card_opened_def demo_card_def)

text \<open>
  C16. Steps 3 to 5 of \<^verbatim>\<open>RunOffloadCore\<close> leave exactly the configuration in the ten registers, the 64-bit
  bases recombined from their halves, whatever the registers held before; they abort a run
  still in progress, and start the engine once, on the DDR as it is at that moment. The only
  condition on the old contents is that the clear bit is not stuck (the driver itself leaves CTRL at 1).
\<close>

theorem launch_programs_engine:
  assumes "c_fds w (user_fd x) = Some (DevFd DevUser)" and "c_bar_wr w" and "axil_base cfg = 0"
    and "\<not> bit (r_ctrl (c_regs w)) 1"
  shows "\<exists>w'. launch_engine (card_os eng) cfg n0 n1 m x w = (x, w') \<and>
    c_regs w' = \<lparr>r_ctrl = 1, r_done = False, r_error = False,
      r_src0_base = src0_ddr_base cfg, r_src0_size = ucast n0,
      r_src1_base = src1_ddr_base cfg, r_src1_size = ucast n1,
      r_dst_base = dst_ddr_base cfg, r_dst_stride = dst_blk_stride cfg,
      r_mid_base = mid_ddr_base cfg, r_max_file_size = m\<rparr> \<and>
    c_ddr w' = c_ddr w \<and> c_count w' = 0 \<and> c_sizes w' = [] \<and>
    c_pending w' = Some (c_clock w + 10000 + er_latency (eng (c_regs w') (c_ddr w)), eng (c_regs w') (c_ddr w))"
  using launch_engine_card [of x w cfg eng n0 n1 m] assms
  by (simp add: regs_ready_def programmed_regs_def Let_def)

theorem launch_programs_engine_witness:
  "\<exists>w'. launch_engine (card_os (spec_engine demo_merge 9)) (default_config\<lparr>dst_ddr_base := 0x1234567890\<rparr>) 3 2 4096
      (opened_xdma default_config (demo_card 2))
      (card_opened (demo_card 2)\<lparr>c_regs := reset_regs\<lparr>r_ctrl := 1, r_dst_base := 0xFFFFFFFFFFFFFFFF\<rparr>\<rparr>) =
      (opened_xdma default_config (demo_card 2), w') \<and>
    r_dst_base (c_regs w') = 0x1234567890 \<and> c_pending w' \<noteq> None"
  using launch_programs_engine [of
      "card_opened (demo_card 2)\<lparr>c_regs := reset_regs\<lparr>r_ctrl := 1, r_dst_base := 0xFFFFFFFFFFFFFFFF\<rparr>\<rparr>"
      "opened_xdma default_config (demo_card 2)" "default_config\<lparr>dst_ddr_base := 0x1234567890\<rparr>"
      "spec_engine demo_merge 9" 3 2 4096]
  by (auto simp: opened_xdma_def card_opened_def demo_card_def default_config_def)

text \<open>The success theorem of the pipeline, on the concrete host.\<close>

theorem run_offload_core_success_witness:
  "\<exists>outs w'. run_offload_core (card_os (spec_engine demo_merge 2500)) default_config [1, 2, 3] [4, 5] 0 (demo_card 2) =
      Some (OK, outs, w') \<and> 1 \<le> length outs \<and> length outs \<le> 16 \<and> (\<forall>b\<in>set outs. b \<noteq> [])"
proof -
  obtain outs w' where run: "run_offload_core (card_os (spec_engine demo_merge 2500)) default_config
      [1, 2, 3] [4, 5] 0 (demo_card 2) = Some (OK, outs, w')"
    using core_card_implements [OF demo_conditions(1,3,6,7,8)] by blast
  from run_offload_core_success [OF run] show ?thesis using run by blast
qed

end
