(* ===== verification/Offload_History.thy ===== *)
theory Offload_History
  imports Offload_Frame
begin

text \<open>
  Sequences of calls. What file access leaves alone is one more interface; with those of the frame
  theory it shows that no call, however it ends, takes away what the next one needs. Histories of a
  host are an inductive relation, and the invariant is proved by rule induction over it.
\<close>

section \<open>What file access leaves alone\<close>

definition keeps_files :: "'w posix \<Rightarrow> ('w \<Rightarrow> 'p) \<Rightarrow> bool" where
  "keeps_files os proj \<longleftrightarrow>
     (\<forall>path fl v. proj (snd (os_open os path fl v)) = proj v) \<and> (\<forall>fd v. proj (os_close os fd v) = proj v) \<and>
     (\<forall>fd c v. proj (snd (os_read os fd c v)) = proj v) \<and> (\<forall>fd bs v. proj (snd (os_write os fd bs v)) = proj v) \<and>
     (\<forall>fd v. proj (snd (os_fstat os fd v)) = proj v) \<and> (\<forall>fd v. proj (snd (os_fsync os fd v)) = proj v)"

lemma keeps_filesD:
  assumes "keeps_files os proj"
  shows "os_open os path fl v = (fd, v') \<Longrightarrow> proj v' = proj v"
    and "proj (os_close os fd v) = proj v"
    and "os_read os fd c v = (r, v') \<Longrightarrow> proj v' = proj v"
    and "os_write os fd bs v = (n, v') \<Longrightarrow> proj v' = proj v"
    and "os_fstat os fd v = (t, v') \<Longrightarrow> proj v' = proj v"
    and "os_fsync os fd v = (n, v') \<Longrightarrow> proj v' = proj v"
  using assms unfolding keeps_files_def by (metis snd_conv)+

lemma read_loop_frame:
  assumes "read_loop os path fd buf i remaining w = Some r"
  shows "keeps_files os proj \<longrightarrow> proj (snd (snd r)) = proj w"
proof (induction rule: read_loop.raw_induct [OF _ assms])
  case (1 f os path fd buf i remaining w r)
  obtain n bs w1 where rd: "os_read os fd remaining w = ((n, bs), w1)" by (metis prod.collapse)
  show ?case
  proof (cases "remaining > 0 \<and> 0 < n")
    case True
    then have "f os path fd (overwrite buf i bs) (i + nat n) (remaining - word_of_int n) w1 = Some r"
      using 1(2) rd by (simp add: Let_def)
    from 1(1) [OF this] show ?thesis using keeps_filesD(3) rd by metis
  next
    case False
    then show ?thesis using 1(2) rd keeps_filesD(2,3) [of os proj]
      by (auto simp: Let_def split: if_splits)
  qed
qed

lemma write_loop_frame:
  assumes "write_loop os path fd p remaining w = Some r"
  shows "keeps_files os proj \<longrightarrow> proj (snd r) = proj w"
proof (induction rule: write_loop.raw_induct [OF _ assms])
  case (1 f os path fd p remaining w r)
  obtain n w1 where wr: "os_write os fd (take (unat remaining) p) w = (n, w1)" by fastforce
  show ?case
  proof (cases "remaining > 0 \<and> 0 < n")
    case True
    then have "f os path fd (drop (nat n) p) (remaining - word_of_int n) w1 = Some r"
      using 1(2) wr by (simp add: Let_def)
    from 1(1) [OF this] show ?thesis using keeps_filesD(4) wr by metis
  next
    case False
    then show ?thesis using 1(2) wr keeps_filesD(2,4) [of os proj]
      by (auto simp: Let_def split: if_splits)
  qed
qed

locale frame_files =
  fixes os :: "'w posix" and proj :: "'w \<Rightarrow> 'p"
  assumes keeps_files: "keeps_files os proj"
begin

lemma frame_read_file:
  assumes "read_file os path w = Some (s, d, w')"
  shows "proj w' = proj w"
proof -
  obtain fd w1 where op: "os_open os path O_RDONLY w = (fd, w1)" by fastforce
  obtain rc sz w2 where st: "os_fstat os fd w1 = ((rc, sz), w2)" by (metis prod.collapse)
  show ?thesis
    using assms keeps_filesD(1) [OF keeps_files op] keeps_filesD(2) [OF keeps_files] keeps_filesD(5) [OF keeps_files st]
      read_loop_frame [of os path fd "replicate (unat sz) 0" 0 sz w2 "(s, d, w')" proj] keeps_files
    by (auto simp: read_file_def op st Let_def split: if_splits)
qed

lemma frame_write_file:
  assumes "write_file os path data n w = Some (s, w')"
  shows "proj w' = proj w"
proof -
  obtain fd w1 where op: "os_open os path (O_WRONLY_CREAT_TRUNC 420) w = (fd, w1)" by fastforce
  show ?thesis
  proof (cases "fd < 0")
    case True
    then show ?thesis using assms keeps_filesD(1) [OF keeps_files op] by (auto simp: write_file_def op)
  next
    case False
    then obtain s2 w2 where lp: "write_loop os path fd data n w1 = Some (s2, w2)"
      using assms by (auto simp: write_file_def op split: option.splits)
    obtain rc w3 where fs: "os_fsync os fd w2 = (rc, w3)" by fastforce
    show ?thesis
      using assms False lp fs keeps_filesD(1) [OF keeps_files op] keeps_filesD(2) [OF keeps_files]
        keeps_filesD(6) [OF keeps_files fs] write_loop_frame [OF lp, of proj] keeps_files
      by (auto simp: write_file_def op Let_def split: if_splits)
  qed
qed

lemma frame_close: "proj (snd (xdma_close os x w)) = proj w"
  using keeps_filesD(2) [OF keeps_files] by (simp add: xdma_close_def close_fd_def Let_def)

end

section \<open>What keeps the card usable\<close>

text \<open>The device files, the health of the card and the control register.\<close>

definition usable_part :: "card \<Rightarrow> (string \<Rightarrow> dev option) \<times> nat \<times> bool \<times> bool \<times> u32" where
  "usable_part w = (c_devs w, c_xfer w, c_bar_wr w, c_bar_rd w, r_ctrl (c_regs w))"

interpretation card_files: frame_files "card_os eng" usable_part for eng
proof
  show "keeps_files (card_os eng) usable_part"
    by (auto simp: keeps_files_def usable_part_def card_open_def card_alloc_def card_close_def card_read_def
        card_write_def card_put_def card_fail_def card_fstat_def Let_def
        split: option.split ofd.split open_flags.split)
qed

interpretation card_reads: frame_reads "card_os eng" usable_part for eng
proof
  show "keeps_pread (card_os eng) usable_part"
    by (auto simp: keeps_pread_def card_pread_def usable_part_def split: option.split ofd.split dev.split)
  show "keeps_time (card_os eng) usable_part"
    by (auto simp: keeps_time_def card_usleep_def card_now_ms_def card_settle_def usable_part_def split: option.split)
qed

lemma card_usable_part:
  "usable_part w' = usable_part w \<Longrightarrow> 0 \<le> c_next w' \<Longrightarrow> card_usable cfg w \<Longrightarrow> card_usable cfg w'"
  by (simp add: usable_part_def card_usable_def)

lemma core_keeps_usable:
  assumes usable: "card_usable cfg w" and "length d0 < 2 ^ 64" and "length d1 < 2 ^ 64"
    and core: "run_offload_core (card_os eng) cfg d0 d1 m w = Some (s, outs, w')" and "0 \<le> c_next w'"
  shows "card_usable cfg w'"
proof -
  have "collect_outputs (card_os eng) cfg (opened_xdma cfg w) (card_started eng cfg d0 d1 m w) = Some (s, outs, w')"
    using core by (simp only: run_offload_core_card_started [OF assms(1-3)])
  from card_reads.frame_collect [OF this] obtain x1 w1 where
    "w' = snd (xdma_close (card_os eng) x1 w1)" "usable_part w1 = usable_part (card_started eng cfg d0 d1 m w)" by blast
  then have "usable_part w' = usable_part (card_started eng cfg d0 d1 m w)" by (simp add: card_files.frame_close)
  moreover have "card_usable cfg (card_started eng cfg d0 d1 m w)"
    using usable by (simp add: card_usable_def card_started_def card_opened_def programmed_regs_def Let_def)
  ultimately show ?thesis using card_usable_part assms(5) by blast
qed

lemma split_keeps_usable:
  assumes usable: "card_usable cfg w" and fresh: "fds_fresh w"
    and split: "run_offload_split (card_os eng) cfg p0 b0 p1 b1 m outs0 w = Some (s, outs, w')"
  shows "card_usable cfg w' \<and> fds_fresh w'"
proof -
  have fresh': "fds_fresh w'" using split_released [OF split fresh] fresh by (rule released_fresh)
  then have next0: "0 \<le> c_next w'" by (simp add: fds_fresh_def)
  have "card_usable cfg w'"
  proof (cases "can_offload cfg b0 b1")
    case False
    then show ?thesis using split usable by (simp add: run_offload_split_def)
  next
    case True
    then obtain s0 d0 w1 where r0: "read_file (card_os eng) p0 w = Some (s0, d0, w1)"
      using split by (auto simp: run_offload_split_def split: option.splits)
    have u1: "usable_part w1 = usable_part w" using r0 by (rule card_files.frame_read_file)
    have fresh1: "fds_fresh w1" using read_file_released [OF r0 fresh] fresh by (rule released_fresh)
    show ?thesis
    proof (cases "s0 = OK")
      case bad: False
      then have "w' = w1" using split True r0 by (simp add: run_offload_split_def)
      then show ?thesis using card_usable_part [OF u1] usable next0 by simp
    next
      case ok: True
      then obtain s1 d1 w2 where r1: "read_file (card_os eng) p1 w1 = Some (s1, d1, w2)"
        using split True r0 by (auto simp: run_offload_split_def split: option.splits)
      have u2: "usable_part w2 = usable_part w" using card_files.frame_read_file [OF r1] u1 by simp
      have "fds_fresh w2" using read_file_released [OF r1 fresh1] fresh1 by (rule released_fresh)
      then have us2: "card_usable cfg w2" using card_usable_part [OF u2 _ usable] by (simp add: fds_fresh_def)
      consider "w' = w2" | "length d0 = unat b0" "length d1 = unat b1"
          "run_offload_core (card_os eng) cfg d0 d1 m w2 = Some (s, outs, w')"
        using split True r0 ok r1 by (auto simp: run_offload_split_def split: if_splits)
      then show ?thesis
      proof cases
        case 1
        then show ?thesis using us2 by simp
      next
        case 2
        then have "length d0 < 2 ^ 64" "length d1 < 2 ^ 64"
          using unat_below_exp [of b0] unat_below_exp [of b1] by simp_all
        from core_keeps_usable [OF us2 this 2(3) next0] show ?thesis .
      qed
    qed
  qed
  then show ?thesis using fresh' by blast
qed


lemma offload_keeps_usable:
  assumes "card_usable cfg w" and "fds_fresh w"
    and run: "run_offload (card_os eng) cfg p0 b0 p1 b1 out sz w = Some (s, sz', w')"
  shows "card_usable cfg w' \<and> fds_fresh w'"
proof -
  from run obtain s1 outs w1 where
    split: "run_offload_split (card_os eng) cfg p0 b0 p1 b1 0 [] w = Some (s1, outs, w1)"
    by (auto simp: run_offload_def split: option.splits)
  note k1 = split_keeps_usable [OF assms(1,2) split]
  consider "w' = w1" | b s2 where "write_file (card_os eng) out b (of_nat (length b)) w1 = Some (s2, w')"
    using run split by (auto simp: run_offload_def split: option.splits list.splits if_splits)
  then show ?thesis
  proof cases
    case 1
    then show ?thesis using k1 by simp
  next
    case 2
    from write_file_part [OF 2] k1 have "c_fds w' = c_fds w1" "c_next w1 \<le> c_next w'" by blast+
    then have "fds_fresh w'" using k1 by (simp add: fds_fresh_def)
    then show ?thesis using card_usable_part [OF card_files.frame_write_file [OF 2]] k1 by (simp add: fds_fresh_def)
  qed
qed

section \<open>Histories\<close>

text \<open>
  What may happen on a host between two offloads: calls of the two entry points with any arguments
  and any outcome, the engine being a different one, right or wrong, at every call; time passing (an
  engine still running may finish), other sizes of partial transfers, files written or removed by
  others, and space appearing or vanishing on the disk.
\<close>

inductive host_history :: "config \<Rightarrow> card \<Rightarrow> card \<Rightarrow> bool" for cfg w0 where
  start: "host_history cfg w0 w0"
| offload: "host_history cfg w0 w \<Longrightarrow>
    run_offload (card_os eng) cfg p0 b0 p1 b1 out sz w = Some (s, sz', w') \<Longrightarrow> host_history cfg w0 w'"
| split: "host_history cfg w0 w \<Longrightarrow>
    run_offload_split (card_os eng) cfg p0 b0 p1 b1 m outs w = Some (s, outs', w') \<Longrightarrow> host_history cfg w0 w'"
| idle: "host_history cfg w0 w \<Longrightarrow> host_history cfg w0 (card_usleep us w)"
| traffic: "host_history cfg w0 w \<Longrightarrow> 0 < k \<Longrightarrow> host_history cfg w0 (w\<lparr>c_xfer := k\<rparr>)"
| files: "host_history cfg w0 w \<Longrightarrow> host_history cfg w0 (w\<lparr>c_files := fs, c_disk := d\<rparr>)"

lemma usleep_keeps_usable:
  "card_usable cfg w \<and> fds_fresh w \<Longrightarrow> card_usable cfg (card_usleep us w) \<and> fds_fresh (card_usleep us w)"
  by (auto simp: card_usleep_def card_settle_def card_usable_def fds_fresh_def split: option.split)

lemma history_usable:
  assumes "host_history cfg w0 w" and "card_usable cfg w0" and "fds_fresh w0"
  shows "card_usable cfg w \<and> fds_fresh w"
  using assms
proof (induction rule: host_history.induct)
  case start
  then show ?case by blast
next
  case (offload w eng p0 b0 p1 b1 out sz s sz' w')
  then show ?case using offload_keeps_usable by blast
next
  case (split w eng p0 b0 p1 b1 m outs s outs' w')
  then show ?case using split_keeps_usable by blast
next
  case (idle w us)
  then show ?case using usleep_keeps_usable by blast
next
  case (traffic w k)
  then show ?case by (simp add: card_usable_def fds_fresh_def)
next
  case (files w fs d)
  then show ?case by (simp add: card_usable_def fds_fresh_def)
qed

text \<open>
  C19. The driver is reusable: after any history of calls, whatever they returned (timeouts with the engine
  still running, engine errors, refused inputs, a full disk), the card is in a state in which the next
  \<^verbatim>\<open>RunOffloadSplit\<close> computes the merge of its inputs and leaves files and descriptors as they were.
\<close>

theorem offload_after_any_history:
  assumes "host_history cfg w0 w" and "card_usable cfg w0" and "fds_fresh w0" and "c_clock w < 2 ^ 62"
    and "sources_fit cfg d0 d1" and "inputs_at w p0 d0 p1 d1"
    and "can_offload cfg (of_nat (length d0)) (of_nat (length d1))"
    and "engine_implements eng mg lat" and "lat \<le> 1000 * max 1 (unat (timeout_ms cfg))"
    and "outputs_fit (mg d0 d1 m)"
  shows "\<exists>w'. run_offload_split (card_os eng) cfg p0 (of_nat (length d0)) p1 (of_nat (length d1)) m outs0 w =
      Some (OK, mg d0 d1 m, w') \<and> c_files w' = c_files w \<and> c_fds w' = c_fds w"
proof -
  have "card_wired cfg w" "fds_fresh w"
    using history_usable [OF assms(1-3)] assms(4) by (simp_all add: card_wired_def)
  from split_card_implements [OF this assms(5-10), of outs0] show ?thesis by blast
qed


text \<open>A history on the concrete host: an offload whose engine never finishes.\<close>

definition stuck_engine :: engine where
  "stuck_engine r d = \<lparr>er_latency = 10 ^ 20, er_error = False, er_ddr = d, er_count = 0, er_sizes = [],
     er_counters = (\<lambda>_. 0)\<rparr>"

lemma stuck_offload:
  "\<exists>s w. run_offload_split (card_os stuck_engine) default_config ''a.ldb'' 3 ''b.ldb'' 2 0 [] (demo_card 2) =
     Some (s, [], w) \<and> s \<noteq> OK \<and> c_clock w < 2 ^ 62 \<and> c_files w = demo_files \<and> c_devs w = demo_devs \<and>
     c_pending w \<noteq> None"
proof -
  let ?w = "demo_card 2" and ?os = "card_os stuck_engine"
  let ?w1 = "?w\<lparr>c_fds := (c_fds ?w)(c_next ?w := None), c_next := c_next ?w + 1\<rparr>"
  let ?w2 = "?w1\<lparr>c_fds := (c_fds ?w1)(c_next ?w1 := None), c_next := c_next ?w1 + 1\<rparr>"
  have r0: "read_file ?os ''a.ldb'' ?w = Some (OK, [1, 2, 3], ?w1)"
    by (rule read_file_card) (simp_all add: demo_simps)
  have r1: "read_file ?os ''b.ldb'' ?w1 = Some (OK, [4, 5], ?w2)"
    by (rule read_file_card) (simp_all add: demo_simps)
  have wired: "card_wired default_config ?w2"
    by (simp add: card_wired_defs demo_simps default_config_def)
  have late: "1000 * max 1 (unat (timeout_ms default_config)) <
      er_latency (offload_result stuck_engine default_config [1, 2, 3] [4, 5] 0 ?w2)"
    by (simp add: offload_result_def stuck_engine_def default_config_def)
  have len: "length [1, 2, 3 :: byte] < 2 ^ 64" "length [4, 5 :: byte] < 2 ^ 64" by simp_all
  note core = core_card_late [OF wired len late]
  have gate: "can_offload default_config 3 2" by (simp add: can_offload_def default_config_def)
  have sizes: "(length [1, 2, 3 :: byte] \<noteq> unat (3 :: u64) \<or> length [4, 5 :: byte] \<noteq> unat (2 :: u64)) = False"
    by simp
  let ?w3 = "card_closed (opened_xdma default_config ?w2)
    ((card_started stuck_engine default_config [1, 2, 3] [4, 5] 0 ?w2)
      \<lparr>c_clock := c_clock ?w2 + 10000 + 1000 * max 1 (unat (timeout_ms default_config))\<rparr>)"
  have "c_clock ?w3 < 2 ^ 62 \<and> c_files ?w3 = demo_files \<and> c_devs ?w3 = demo_devs \<and> c_pending ?w3 \<noteq> None"
    by (simp add: card_closed_def card_started_def card_opened_def demo_card_def default_config_def Let_def)
  moreover have "run_offload_split ?os default_config ''a.ldb'' 3 ''b.ldb'' 2 0 [] ?w =
      Some (IOError (''FPGA engine timed out after '' @ decimal_string (unat (timeout_ms default_config)) @ '' ms''), [], ?w3)"
    by (simp only: run_offload_split_def gate r0 r1 option.case prod.case core sizes simp_thms if_False)
  ultimately show ?thesis by blast
qed

theorem offload_after_any_history_witness:
  "\<exists>s w. run_offload_split (card_os stuck_engine) default_config ''a.ldb'' 3 ''b.ldb'' 2 0 [] (demo_card 2) =
        Some (s, [], w) \<and> s \<noteq> OK \<and> c_pending w \<noteq> None \<and>
    (\<exists>w'. run_offload_split (card_os (spec_engine demo_merge 2500)) default_config
      ''a.ldb'' (of_nat (length [1, 2, 3 :: byte])) ''b.ldb'' (of_nat (length [4, 5 :: byte])) 4096 [] w =
      Some (OK, demo_merge [1, 2, 3] [4, 5] 4096, w') \<and> c_files w' = c_files w \<and> c_fds w' = c_fds w)"
proof -
  obtain s w where run: "run_offload_split (card_os stuck_engine) default_config ''a.ldb'' 3 ''b.ldb'' 2 0 [] (demo_card 2) =
      Some (s, [], w)" and s: "s \<noteq> OK" and clk: "c_clock w < 2 ^ 62" and pend: "c_pending w \<noteq> None"
    and fs: "c_files w = demo_files" "c_devs w = demo_devs"
    using stuck_offload by blast
  have hist: "host_history default_config (demo_card 2) w"
    using host_history.split [OF host_history.start run] .
  have "card_usable default_config (demo_card 2)" using demo_conditions(1) by (rule wired_usable)
  moreover have "inputs_at w ''a.ldb'' [1, 2, 3] ''b.ldb'' [4, 5]"
    by (simp add: inputs_at_def fs demo_files_def demo_devs_def)
  ultimately show ?thesis
    using run s pend offload_after_any_history [OF hist _ demo_conditions(2) clk demo_conditions(3) _ demo_conditions(5-8)]
    by blast
qed

end
