(* ===== verification/Gen_Common.thy ===== *)
theory Gen_Common
  imports Offload_Prelude
begin

text \<open>
  What the three fixture generators \<^verbatim>\<open>organized/sim/integration/gen_real_sstable*.cc\<close> share:
  zero-padded numbers, internal keys, records, the block loops, and the \<^verbatim>\<open>.memh\<close> writer. The
  generators call LevelDB itself (\<^verbatim>\<open>util/coding.h\<close>, \<^verbatim>\<open>db/dbformat.h\<close>, the table classes), which
  is not part of the repository: it is a parameter, the record \<open>table_lib\<close>.
\<close>

section \<open>Strings and bytes\<close>

definition bytes_of :: "string \<Rightarrow> byte list" where
  "bytes_of s = map of_char s"

lemma length_bytes_of [simp]: "length (bytes_of s) = length s"
  by (simp add: bytes_of_def)

lemma bytes_of_append [simp]: "bytes_of (s @ t) = bytes_of s @ bytes_of t"
  by (simp add: bytes_of_def)

text \<open>\<^verbatim>\<open>%0kd\<close> of a non-negative number: the digits, with leading zeros up to the width.\<close>

definition pad0 :: "nat \<Rightarrow> nat \<Rightarrow> string" where
  "pad0 k n = (let s = decimal_string n in replicate (k - length s) (CHR ''0'') @ s)"

text \<open>The \<open>k\<close> low-order decimal digits.\<close>

primrec fixed_digits :: "nat \<Rightarrow> nat \<Rightarrow> string" where
  "fixed_digits 0 n = []"
| "fixed_digits (Suc k) n = fixed_digits k (n div 10) @ [digit_char (n mod 10)]"

lemma length_fixed_digits [simp]: "length (fixed_digits k n) = k"
  by (induction k arbitrary: n) auto

lemma fixed_digits_0: "fixed_digits k 0 = replicate k (CHR ''0'')"
proof (induction k)
  case 0
  then show ?case by simp
next
  case (Suc k)
  have "digit_char 0 = CHR ''0''" by (simp add: digit_char_def char_of_def bit_0)
  with Suc show ?case by (simp add: replicate_append_same)
qed

lemma length_decimal_string:
  "n < 10 ^ k \<Longrightarrow> 0 < k \<Longrightarrow> length (decimal_string n) \<le> k"
proof (induction n arbitrary: k rule: decimal_string.induct)
  case (1 n)
  show ?case
  proof (cases "n < 10")
    case True
    then show ?thesis using 1(3) by (subst decimal_string.simps) simp
  next
    case False
    obtain j where k: "k = Suc j" using 1(3) by (cases k) auto
    have "n div 10 < 10 ^ j" using 1(2) k by (simp add: less_mult_imp_div_less ac_simps)
    moreover have "0 < j" using False 1(2) k by (cases j) auto
    ultimately have "length (decimal_string (n div 10)) \<le> j" using 1(1) [OF False] by blast
    then show ?thesis using False k by (subst decimal_string.simps) simp
  qed
qed

text \<open>Up to the width, padding gives the fixed number of digits.\<close>

lemma pad0_fixed_digits: "n < 10 ^ k \<Longrightarrow> 0 < k \<Longrightarrow> pad0 k n = fixed_digits k n"
proof (induction n arbitrary: k rule: decimal_string.induct)
  case (1 n)
  obtain j where k: "k = Suc j" using 1(3) by (cases k) auto
  show ?case
  proof (cases "n < 10")
    case True
    then show ?thesis by (simp add: pad0_def decimal_string.simps k fixed_digits_0)
  next
    case False
    have d: "n div 10 < 10 ^ j" using 1(2) k by (simp add: less_mult_imp_div_less ac_simps)
    have j: "0 < j" using False 1(2) k by (cases j) auto
    have "pad0 k n = pad0 j (n div 10) @ [digit_char (n mod 10)]"
      using False by (simp add: pad0_def decimal_string.simps [of n] k Let_def)
    also have "\<dots> = fixed_digits k n" using 1(1) [OF False d j] k by simp
    finally show ?thesis .
  qed
qed

section \<open>Key order\<close>

text \<open>The bytewise order in which a table is built.\<close>

fun bytes_lt :: "byte list \<Rightarrow> byte list \<Rightarrow> bool" where
  "bytes_lt xs [] = False"
| "bytes_lt [] (y # ys) = True"
| "bytes_lt (x # xs) (y # ys) = (x < y \<or> x = y \<and> bytes_lt xs ys)"

lemma bytes_lt_append_eq_length:
  "length xs = length ys \<Longrightarrow>
    bytes_lt (xs @ s) (ys @ t) \<longleftrightarrow> bytes_lt xs ys \<or> xs = ys \<and> bytes_lt s t"
  by (induction xs ys rule: list_induct2) auto

lemma bytes_lt_same_prefix [simp]: "bytes_lt (xs @ s) (xs @ t) \<longleftrightarrow> bytes_lt s t"
  by (induction xs) auto

lemma bytes_lt_irrefl [simp]: "\<not> bytes_lt xs xs"
  by (induction xs) auto

lemma digit_byte: "d < 10 \<Longrightarrow> of_char (digit_char d) = (of_nat (48 + d) :: byte)"
proof -
  assume "d < 10"
  then have "of_char (char_of (48 + d)) = (48 + d :: nat)" by simp
  then show ?thesis by (metis digit_char_def of_nat_of_char)
qed

lemma digit_byte_less:
  assumes "c < d" and "d < 10"
  shows "(of_char (digit_char c) :: byte) < of_char (digit_char d)"
proof -
  have "unat (of_nat (48 + c) :: byte) = 48 + c" "unat (of_nat (48 + d) :: byte) = 48 + d"
    using assms by (simp_all only: unat_of_nat_byte) simp_all
  then show ?thesis using assms digit_byte [of c] digit_byte [of d]
    by (simp only: word_less_nat_alt)
qed

text \<open>Numbers of the same width sort like their digits.\<close>

lemma fixed_digits_less:
  "n < m \<Longrightarrow> m < 10 ^ k \<Longrightarrow> bytes_lt (bytes_of (fixed_digits k n)) (bytes_of (fixed_digits k m))"
proof (induction k arbitrary: n m)
  case 0
  then show ?case by simp
next
  case (Suc k)
  have m: "m div 10 < 10 ^ k" using Suc.prems(2) by (simp add: less_mult_imp_div_less ac_simps)
  consider "n div 10 < m div 10" | "n div 10 = m div 10" "n mod 10 < m mod 10"
  proof -
    have "n div 10 \<le> m div 10" using Suc.prems(1) by (simp add: div_le_mono)
    moreover have "n mod 10 < m mod 10" if "n div 10 = m div 10"
      using Suc.prems(1) that by (metis add_less_cancel_left div_mult_mod_eq)
    ultimately show thesis using that by fastforce
  qed
  then show ?case
  proof cases
    case 1
    then show ?thesis using Suc.IH [OF _ m] by (simp add: bytes_lt_append_eq_length bytes_of_def)
  next
    case 2
    then show ?thesis using digit_byte_less [of "n mod 10" "m mod 10"]
      by (simp add: bytes_of_def)
  qed
qed

lemma pad0_less:
  assumes "n < m" and "m < 10 ^ k" and "0 < k"
  shows "bytes_lt (bytes_of (p @ pad0 k n) @ s) (bytes_of (p @ pad0 k m) @ t)"
proof -
  have "n < 10 ^ k" using assms by simp
  then have "pad0 k n = fixed_digits k n" "pad0 k m = fixed_digits k m"
    using assms pad0_fixed_digits by simp_all
  then show ?thesis using fixed_digits_less [OF assms(1,2)]
    by (simp add: bytes_lt_append_eq_length)
qed

lemma length_pad0: "n < 10 ^ k \<Longrightarrow> 0 < k \<Longrightarrow> length (pad0 k n) = k"
  by (simp add: pad0_fixed_digits)

section \<open>The LevelDB library and the file system\<close>

text \<open>
  What the generators call: \<^verbatim>\<open>PutFixed64\<close> (the bytes it appends), \<^verbatim>\<open>kTypeValue\<close>, the writable file
  and \<^verbatim>\<open>TableBuilder\<close>, the random-access file, \<^verbatim>\<open>Table\<close> and its iterator, and the reading and
  writing of whole files. Each generator has at most one builder and one table open, so
  the handles are part of the world. A Status is reduced to \<^verbatim>\<open>ok()\<close>.
\<close>

record table_options =
  opt_block_size :: int
  opt_restart_interval :: int

record 'w table_lib =
  tl_put_fixed64 :: "u64 \<Rightarrow> byte list"
  tl_type_value :: byte
  tl_new_file :: "string \<Rightarrow> 'w \<Rightarrow> bool \<times> 'w"
  tl_builder :: "table_options \<Rightarrow> 'w \<Rightarrow> 'w"
  tl_add :: "byte list \<Rightarrow> byte list \<Rightarrow> 'w \<Rightarrow> 'w"
  tl_flush :: "'w \<Rightarrow> 'w"
  tl_finish :: "'w \<Rightarrow> bool \<times> 'w"
  tl_file_size :: "'w \<Rightarrow> u64"
  tl_close :: "'w \<Rightarrow> bool \<times> 'w"
  tl_new_random :: "string \<Rightarrow> 'w \<Rightarrow> bool \<times> 'w"
  tl_table_open :: "u64 \<Rightarrow> 'w \<Rightarrow> bool \<times> 'w"
  tl_seek_first :: "'w \<Rightarrow> 'w"
  tl_valid :: "'w \<Rightarrow> bool"
  tl_next :: "'w \<Rightarrow> 'w"
  tl_read_file :: "string \<Rightarrow> 'w \<Rightarrow> byte list"
  tl_write_text :: "string \<Rightarrow> string \<Rightarrow> 'w \<Rightarrow> 'w"
  tl_system :: "string \<Rightarrow> 'w \<Rightarrow> 'w"

section \<open>Records and blocks\<close>

record kv =
  kv_key :: "byte list"
  kv_value :: "byte list"

text \<open>\<^verbatim>\<open>MakeInternalKey\<close> with its default type.\<close>

definition make_internal_key :: "'w table_lib \<Rightarrow> string \<Rightarrow> u64 \<Rightarrow> byte list" where
  "make_internal_key lib user_key sq =
     bytes_of user_key @ tl_put_fixed64 lib (push_bit 8 sq OR ucast (tl_type_value lib))"

definition mk_kv :: "'w table_lib \<Rightarrow> string \<Rightarrow> u64 \<Rightarrow> string \<Rightarrow> kv" where
  "mk_kv lib user_key sq val = \<lparr>kv_key = make_internal_key lib user_key sq, kv_value = bytes_of val\<rparr>"

text \<open>
  Feeding a builder: \<^verbatim>\<open>Add\<close> for each record of a block, \<^verbatim>\<open>Flush\<close> after each block.
\<close>

definition add_block :: "'w table_lib \<Rightarrow> kv list \<Rightarrow> 'w \<Rightarrow> 'w" where
  "add_block lib blk w = tl_flush lib (fold (\<lambda>r. tl_add lib (kv_key r) (kv_value r)) blk w)"

definition add_blocks :: "'w table_lib \<Rightarrow> kv list list \<Rightarrow> 'w \<Rightarrow> 'w" where
  "add_blocks lib blks w = fold (add_block lib) blks w"

text \<open>The total of \<^verbatim>\<open>for (auto& b : blocks) n += b.size();\<close>.\<close>

definition count_records :: "'a list list \<Rightarrow> nat" where
  "count_records blks = fold (\<lambda>b n. n + length b) blks 0"

lemma count_records_concat: "count_records blks = length (concat blks)"
proof -
  have "fold (\<lambda>b n. n + length b) blks k = k + length (concat blks)" for k
    by (induction blks arbitrary: k) auto
  then show ?thesis by (simp add: count_records_def)
qed

section \<open>The \<^verbatim>\<open>.memh\<close> files\<close>

definition hex_digit :: "nat \<Rightarrow> char" where
  "hex_digit d = (if d < 10 then char_of (48 + d) else char_of (87 + d))"

fun hex_string :: "nat \<Rightarrow> string" where
  "hex_string n =
     (if n < 16 then [hex_digit n] else hex_string (n div 16) @ [hex_digit (n mod 16)])"

declare hex_string.simps [simp del]

text \<open>\<^verbatim>\<open>%0kx\<close>.\<close>

definition hex0 :: "nat \<Rightarrow> nat \<Rightarrow> string" where
  "hex0 k n = (let s = hex_string n in replicate (k - length s) (CHR ''0'') @ s)"

definition newline :: char where "newline = CHR 0x0A"

text \<open>The text \<^verbatim>\<open>WriteMemH\<close> produces for the bytes of a file; the address buffer has 16 bytes.\<close>

definition memh_text :: "byte list \<Rightarrow> u64 \<Rightarrow> string" where
  "memh_text bs base =
     ''@'' @ take 15 (hex0 8 (unat base)) @ [newline] @ concat (map (\<lambda>b. hex0 2 (unat b) @ [newline]) bs)"

definition write_memh :: "'w table_lib \<Rightarrow> string \<Rightarrow> string \<Rightarrow> u64 \<Rightarrow> 'w \<Rightarrow> 'w" where
  "write_memh lib sst_path memh_path base w =
     tl_write_text lib memh_path (memh_text (tl_read_file lib sst_path w) base) w"

end
