(* ===== verification/Gen_Keys.thy ===== *)
theory Gen_Keys
  imports Gen_Common
begin

text \<open>
  Internal keys built by the generators: user key, sequence number and the order a table requires.
  The documented behaviour of \<^verbatim>\<open>PutFixed64\<close> is a named hypothesis; what the generators promise about their
  key sequences is proved from it, once for all scenarios.
\<close>

section \<open>Reading an internal key\<close>

definition user_key :: "byte list \<Rightarrow> byte list" where
  "user_key k = take (length k - 8) k"

definition key_seq :: "byte list \<Rightarrow> nat" where
  "key_seq k = le_nat (drop (length k - 8) k) div 256"

text \<open>Documented behaviour of \<^verbatim>\<open>PutFixed64\<close>: the eight bytes, least significant first.\<close>

definition fixed64_ok :: "'w table_lib \<Rightarrow> bool" where
  "fixed64_ok lib \<longleftrightarrow> (\<forall>v. tl_put_fixed64 lib v = le64 v)"

lemma user_key_make:
  "fixed64_ok lib \<Longrightarrow> user_key (make_internal_key lib uk sq) = bytes_of uk"
  by (simp add: user_key_def make_internal_key_def fixed64_ok_def)

lemma pack_seq:
  fixes t :: byte and sq :: u64
  assumes "unat sq < 2 ^ 56"
  shows "unat (push_bit 8 sq OR ucast t) = unat sq * 256 + unat t"
proof -
  have t: "unat t < 256" using unat_below_exp [of t] by simp
  have dis: "push_bit 8 sq AND ucast t = 0"
  proof (rule bit_word_eqI)
    fix n
    show "bit (push_bit 8 sq AND (ucast t :: u64)) n = bit 0 n"
      using bit_imp_le_length [of t n] by (auto simp: bit_simps)
  qed
  have "push_bit 8 sq OR ucast t = push_bit 8 sq + ucast t"
    using disjunctive_add_eq_or [OF dis] by simp
  moreover have "unat (push_bit 8 sq) = unat sq * 256"
    using assms by (simp add: push_bit_eq_mult unat_word_ariths)
  moreover have "unat (ucast t :: u64) = unat t"
    using t by (simp add: unsigned_ucast_eq take_bit_nat_eq_self)
  ultimately show ?thesis using assms t by (simp add: unat_word_ariths)
qed

lemma key_seq_make:
  assumes "fixed64_ok lib" and "unat sq < 2 ^ 56"
  shows "key_seq (make_internal_key lib uk sq) = unat sq"
proof -
  have "unat (tl_type_value lib) < 256" using unat_below_exp [of "tl_type_value lib"] by simp
  then show ?thesis using assms
    by (simp add: key_seq_def make_internal_key_def fixed64_ok_def pack_seq)
qed

section \<open>Numbered keys\<close>

text \<open>
  A numbered source: the record of index \<open>i\<close> has the user key \<open>prefix\<close> followed by \<open>i\<close> in
  \<open>k\<close> digits.
\<close>

definition numbered :: "nat \<Rightarrow> string \<Rightarrow> (nat \<Rightarrow> kv) \<Rightarrow> 'w table_lib \<Rightarrow> bool" where
  "numbered k p f lib \<longleftrightarrow> (\<forall>i. \<exists>sq. kv_key (f i) = make_internal_key lib (p @ pad0 k i) sq)"

lemma numbered_mk_kv: "numbered k p (\<lambda>i. mk_kv lib (p @ pad0 k i) (sq i) (v i)) lib"
  by (auto simp: numbered_def mk_kv_def)

text \<open>A strictly increasing run of indices gives a strictly increasing run of keys.\<close>

definition table_sorted :: "kv list \<Rightarrow> bool" where
  "table_sorted rs \<longleftrightarrow> sorted_wrt bytes_lt (map kv_key rs)"

lemma numbered_sorted:
  assumes "numbered k p f lib" and "0 < k" and "sorted_wrt (<) is" and "\<forall>i\<in>set is. i < 10 ^ k"
  shows "table_sorted (map f is)"
proof -
  have "bytes_lt (kv_key (f i)) (kv_key (f j))" if "i < j" "j < 10 ^ k" for i j
    using assms(1) pad0_less [OF that assms(2)]
    by (metis numbered_def make_internal_key_def)
  then show ?thesis using assms(3,4)
    unfolding table_sorted_def sorted_wrt_map by (auto elim: sorted_wrt_mono_rel [rotated])
qed

lemma bytes_of_inject: "bytes_of s = bytes_of t \<longleftrightarrow> s = t"
proof -
  have "inj (of_char :: char \<Rightarrow> byte)"
  proof (rule injI)
    fix c d :: char
    assume "(of_char c :: byte) = of_char d"
    then have "unat (of_nat (of_char c) :: byte) = unat (of_nat (of_char d) :: byte)"
      by (simp only: of_nat_of_char)
    then have "of_char c mod 256 = (of_char d mod 256 :: nat)" by (simp only: unat_of_nat_byte)
    then show "c = d" by simp
  qed
  then show ?thesis by (simp add: bytes_of_def inj_map_eq_map)
qed

lemma numbered_user_key:
  assumes "fixed64_ok lib" and "numbered k p f lib"
  shows "user_key (kv_key (f i)) = bytes_of (p @ pad0 k i)"
  using assms user_key_make by (metis numbered_def)

lemma pad0_inject: "n < 10 ^ k \<Longrightarrow> m < 10 ^ k \<Longrightarrow> 0 < k \<Longrightarrow> pad0 k n = pad0 k m \<longleftrightarrow> n = m"
  using pad0_less [of n m k "[]" "[]" "[]"] pad0_less [of m n k "[]" "[]" "[]"]
  by (metis bytes_lt_irrefl linorder_neqE_nat)

lemma numbered_user_key_eq:
  assumes "fixed64_ok lib" and "numbered k p f lib" and "numbered k p g lib" and "0 < k"
    and "i < 10 ^ k" and "j < 10 ^ k"
  shows "user_key (kv_key (f i)) = user_key (kv_key (g j)) \<longleftrightarrow> i = j"
  using assms by (simp add: numbered_user_key bytes_of_inject pad0_inject)

lemma table_sorted_append_numbered:
  assumes f: "numbered k p f lib" and g: "numbered k p g lib" and "0 < k"
    and s: "sorted_wrt (<) (is @ js)" and b: "\<forall>i\<in>set (is @ js). i < 10 ^ k"
  shows "table_sorted (map f is @ map g js)"
proof -
  let ?h = "\<lambda>i. if i \<in> set is then f i else g i"
  have "numbered k p ?h lib" using f g by (simp add: numbered_def)
  then have "table_sorted (map ?h (is @ js))" using assms(3) s b by (rule numbered_sorted)
  moreover have "set is \<inter> set js = {}" using s by (auto simp: sorted_wrt_append)
  then have "map ?h is = map f is" "map ?h js = map g js" by (auto intro: map_cong)
  then have "map ?h (is @ js) = map f is @ map g js" by (simp only: map_append)
  ultimately show ?thesis by (simp only:)
qed

section \<open>The user keys of a source\<close>

definition user_keys :: "kv list \<Rightarrow> byte list set" where
  "user_keys rs = (\<lambda>r. user_key (kv_key r)) ` set rs"

lemma user_keys_numbered:
  "fixed64_ok lib \<Longrightarrow> numbered k p f lib \<Longrightarrow>
    user_keys (map f is) = (\<lambda>i. bytes_of (p @ pad0 k i)) ` set is"
  by (simp add: user_keys_def image_image numbered_user_key del: bytes_of_append)

lemma user_keys_append: "user_keys (rs @ ss) = user_keys rs \<union> user_keys ss"
  by (auto simp: user_keys_def)

lemma card_numbered_keys:
  assumes "\<forall>i\<in>I. i < 10 ^ k" and "0 < k"
  shows "card ((\<lambda>i. bytes_of (p @ pad0 k i)) ` I) = card I"
  using assms by (intro card_image inj_onI) (simp add: bytes_of_inject pad0_inject)

lemma seq_word: "0 \<le> i \<Longrightarrow> i < 2 ^ 56 \<Longrightarrow> unat (word_of_int i :: u64) = nat i"
  by (simp add: unat_eq_nat_uint uint_word_of_int_eq take_bit_eq_mod)

lemma key_seq_record:
  assumes "fixed64_ok lib" and "0 \<le> s" and "s < 2 ^ 56"
  shows "key_seq (kv_key (mk_kv lib uk (word_of_int s) v)) = nat s"
proof -
  have "unat (word_of_int s :: u64) = nat s" using assms(2,3) by (rule seq_word)
  moreover from this have "unat (word_of_int s :: u64) < 2 ^ 56" using assms(2,3) by (simp add: nat_less_iff)
  ultimately show ?thesis using key_seq_make [OF assms(1)] by (simp add: mk_kv_def)
qed

section \<open>Keys by index\<close>

text \<open>The records of a source next to the numbers in their user keys.\<close>

definition indexed :: "'w table_lib \<Rightarrow> nat \<Rightarrow> string \<Rightarrow> kv list \<Rightarrow> nat list \<Rightarrow> bool" where
  "indexed lib k p rs is \<longleftrightarrow>
     list_all2 (\<lambda>r i. \<exists>sq. kv_key r = make_internal_key lib (p @ pad0 k i) sq) rs is"

lemma indexed_append [intro]:
  "indexed lib k p rs is \<Longrightarrow> indexed lib k p ss js \<Longrightarrow> indexed lib k p (rs @ ss) (is @ js)"
  by (simp add: indexed_def list_all2_appendI)

lemma indexed_loops:
  "indexed lib k p (concat (map (\<lambda>b. map (\<lambda>r. mk_kv lib (p @ pad0 k (ix b r)) (sq b r) (v b r)) rs) bs))
     (concat (map (\<lambda>b. map (ix b) rs) bs))"
proof (induction bs)
  case Nil
  then show ?case by (simp add: indexed_def)
next
  case (Cons b bs)
  have "indexed lib k p (map (\<lambda>r. mk_kv lib (p @ pad0 k (ix b r)) (sq b r) (v b r)) rs) (map (ix b) rs)"
    by (auto simp: indexed_def mk_kv_def list_all2_map1 list_all2_map2 list_all2_same)
  then show ?case using Cons by auto
qed

lemma list_all2_partner: "list_all2 P xs ys \<Longrightarrow> x \<in> set xs \<Longrightarrow> \<exists>y\<in>set ys. P x y"
  by (induction rule: list_all2_induct) auto

lemma indexed_sorted:
  assumes "indexed lib k p rs is" and "0 < k" and "sorted_wrt (<) is" and "\<forall>i\<in>set is. i < 10 ^ k"
  shows "table_sorted rs"
  using assms unfolding indexed_def
proof (induction rule: list_all2_induct)
  case Nil
  then show ?case by (simp add: table_sorted_def)
next
  case (Cons r rs i "is")
  have "bytes_lt (kv_key r) (kv_key s)" if mem: "s \<in> set rs" for s
  proof -
    obtain j where j: "j \<in> set is" and s: "\<exists>sq. kv_key s = make_internal_key lib (p @ pad0 k j) sq"
      using list_all2_partner [OF Cons.hyps(2) mem] by blast
    then have "i < j" "j < 10 ^ k" using Cons.prems by auto
    then show ?thesis using pad0_less [of i j k p] Cons.hyps(1) s Cons.prems(1)
      by (auto simp: make_internal_key_def)
  qed
  then show ?case using Cons by (simp add: table_sorted_def)
qed

lemma indexed_user_keys:
  assumes "fixed64_ok lib" and "indexed lib k p rs is"
  shows "user_keys rs = (\<lambda>i. bytes_of (p @ pad0 k i)) ` set is"
  using assms(2) unfolding indexed_def user_keys_def
proof (induction rule: list_all2_induct)
  case Nil
  then show ?case by simp
next
  case (Cons r rs i "is")
  then have "user_key (kv_key r) = bytes_of (p @ pad0 k i)" using user_key_make [OF assms(1)] by metis
  with Cons show ?case by (simp del: bytes_of_append)
qed

lemma indexed_length: "indexed lib k p rs is \<Longrightarrow> length rs = length is"
  by (auto simp: indexed_def list_all2_lengthD)

section \<open>A concrete library\<close>

text \<open>A library whose \<^verbatim>\<open>PutFixed64\<close> is the documented one, over the trivial world.\<close>

definition le_lib :: "unit table_lib" where
  "le_lib = \<lparr>tl_put_fixed64 = le64, tl_type_value = 1, tl_new_file = (\<lambda>_ _. (True, ())),
     tl_builder = (\<lambda>_ _. ()), tl_add = (\<lambda>_ _ _. ()), tl_flush = (\<lambda>_. ()), tl_finish = (\<lambda>_. (True, ())),
     tl_file_size = (\<lambda>_. 1), tl_close = (\<lambda>_. (True, ())), tl_new_random = (\<lambda>_ _. (True, ())),
     tl_table_open = (\<lambda>_ _. (True, ())), tl_seek_first = (\<lambda>_. ()), tl_valid = (\<lambda>_. False),
     tl_next = (\<lambda>_. ()), tl_read_file = (\<lambda>_ _. []), tl_write_text = (\<lambda>_ _ _. ()), tl_system = (\<lambda>_ _. ())\<rparr>"

lemma le_lib_ok: "fixed64_ok le_lib"
  by (simp add: fixed64_ok_def le_lib_def)

end
