(* ===== verification/Gen_Memh.thy ===== *)
theory Gen_Memh
  imports Gen_Common
begin

text \<open>
  The \<^verbatim>\<open>.memh\<close> files as the simulator reads them, and the round trip with \<^verbatim>\<open>WriteMemH\<close>.
\<close>

text \<open>
  How a simulator reads such a file: a line of hexadecimal digits per byte, after a line with the
  load address.
\<close>

fun lines_of :: "string \<Rightarrow> string \<Rightarrow> string list" where
  "lines_of cur [] = (if cur = [] then [] else [cur])"
| "lines_of cur (c # cs) = (if c = newline then cur # lines_of [] cs else lines_of (cur @ [c]) cs)"

definition hex_value :: "char \<Rightarrow> nat" where
  "hex_value c = (let n = of_char c in if n < 58 then n - 48 else n - 87)"

definition parse_hex :: "string \<Rightarrow> nat" where
  "parse_hex s = foldl (\<lambda>a c. 16 * a + hex_value c) 0 s"

definition read_memh :: "string \<Rightarrow> u64 \<times> byte list" where
  "read_memh s =
     (case lines_of [] s of
        [] \<Rightarrow> (0, [])
      | l # ls \<Rightarrow> (of_nat (parse_hex (tl l)), map (\<lambda>h. of_nat (parse_hex h)) ls))"

lemma of_char_char_of_small: "n < 256 \<Longrightarrow> of_char (char_of n) = (n :: nat)"
  by simp

lemma hex_value_digit: "d < 16 \<Longrightarrow> hex_value (hex_digit d) = d"
  by (simp add: hex_value_def hex_digit_def)

lemma parse_hex_append: "parse_hex (s @ [c]) = 16 * parse_hex s + hex_value c"
  by (simp add: parse_hex_def)

lemma parse_hex_hex_string: "parse_hex (hex_string n) = n"
proof (induction n rule: hex_string.induct)
  case (1 n)
  show ?case
  proof (cases "n < 16")
    case True
    then show ?thesis by (subst hex_string.simps) (simp add: parse_hex_def hex_value_digit)
  next
    case False
    then show ?thesis using 1 by (subst hex_string.simps) (simp add: parse_hex_append hex_value_digit)
  qed
qed

lemma parse_hex_zeros: "parse_hex (replicate k (CHR ''0'') @ s) = parse_hex s"
proof -
  have "hex_value (CHR ''0'') = 0" by (simp add: hex_value_def)
  then have "foldl (\<lambda>a c. 16 * a + hex_value c) 0 (replicate k (CHR ''0'')) = 0" by (induction k) auto
  then show ?thesis by (simp add: parse_hex_def)
qed

lemma parse_hex_hex0: "parse_hex (hex0 k n) = n"
  by (simp add: hex0_def Let_def parse_hex_zeros parse_hex_hex_string)

lemma length_hex_string: "n < 16 ^ k \<Longrightarrow> 0 < k \<Longrightarrow> length (hex_string n) \<le> k"
proof (induction n arbitrary: k rule: hex_string.induct)
  case (1 n)
  show ?case
  proof (cases "n < 16")
    case True
    then show ?thesis using 1(3) by (subst hex_string.simps) simp
  next
    case False
    obtain j where k: "k = Suc j" using 1(3) by (cases k) auto
    have "n div 16 < 16 ^ j" using 1(2) k by (simp add: less_mult_imp_div_less ac_simps)
    moreover have "0 < j" using False 1(2) k by (cases j) auto
    ultimately have "length (hex_string (n div 16)) \<le> j" using 1(1) [OF False] by blast
    then show ?thesis using False k by (subst hex_string.simps) simp
  qed
qed

lemma newline_not_hex_digit: "d < 16 \<Longrightarrow> hex_digit d \<noteq> newline"
proof
  assume "d < 16" and "hex_digit d = newline"
  then have "of_char (hex_digit d) = (of_char newline :: nat)" by simp
  then show False using \<open>d < 16\<close> by (simp add: hex_digit_def newline_def split: if_splits)
qed

lemma newline_not_hex_string: "newline \<notin> set (hex_string n)"
proof (induction n rule: hex_string.induct)
  case (1 n)
  then show ?case using newline_not_hex_digit [of n] newline_not_hex_digit [of "n mod 16"]
    by (subst hex_string.simps) auto
qed

lemma newline_not_hex0: "newline \<notin> set (hex0 k n)"
  using newline_not_hex_string [of n] by (auto simp: hex0_def Let_def newline_def)

lemma lines_of_line:
  "newline \<notin> set l \<Longrightarrow> lines_of cur (l @ newline # rest) = (cur @ l) # lines_of [] rest"
  by (induction l arbitrary: cur) auto

lemma lines_of_bytes:
  "lines_of [] (concat (map (\<lambda>b. hex0 2 (unat b) @ [newline]) bs)) = map (\<lambda>b. hex0 2 (unat (b :: byte))) bs"
  by (induction bs) (simp_all add: lines_of_line newline_not_hex0)

text \<open>
  A simulator that loads the file \<^verbatim>\<open>WriteMemH\<close> wrote gets back the base address and every byte
  of the table, for all addresses below 16^15 (beyond that the 16-byte address buffer cuts off
  a digit).
\<close>

theorem memh_round_trip:
  assumes "unat base < 16 ^ 15"
  shows "read_memh (memh_text bs base) = (base, bs)"
proof -
  have "length (hex_string (unat base)) \<le> 15" using assms by (intro length_hex_string) simp_all
  then have "length (hex0 8 (unat base)) \<le> 15" by (simp add: hex0_def Let_def)
  then have "memh_text bs base = (CHR ''@'' # hex0 8 (unat base)) @ newline #
      concat (map (\<lambda>b. hex0 2 (unat b) @ [newline]) bs)"
    by (simp add: memh_text_def)
  moreover have "newline \<notin> set (CHR ''@'' # hex0 8 (unat base))"
    using newline_not_hex0 [of 8 "unat base"] by (auto simp: newline_def)
  ultimately have "lines_of [] (memh_text bs base) =
      (CHR ''@'' # hex0 8 (unat base)) # map (\<lambda>b. hex0 2 (unat b)) bs"
    using lines_of_line [of "CHR ''@'' # hex0 8 (unat base)" "[]"] lines_of_bytes [of bs] by simp
  then show ?thesis by (simp add: read_memh_def parse_hex_hex0 o_def)
qed

theorem memh_round_trip_witness:
  "read_memh (memh_text [0x57, 0x0A, 0xFF, 0x00] 0x10000) = (0x10000, [0x57, 0x0A, 0xFF, 0x00])"
  by (rule memh_round_trip) simp

end
