(* ===== verification/Gen_Real.thy ===== *)
theory Gen_Real
  imports Gen_Keys Gen_Memh
begin

text \<open>
  \<^verbatim>\<open>organized/sim/integration/gen_real_sstable.cc\<close>: two sources of 12 blocks with 4 records each,
  8 user keys in common, and the counters the simulation is checked against. Messages on the
  standard streams are not modelled.
\<close>

section \<open>The records\<close>

text \<open>The two nested loops, with the running \<^verbatim>\<open>key_idx\<close> as state.\<close>

fun record_loop :: "(nat \<Rightarrow> kv) \<Rightarrow> nat \<Rightarrow> nat \<Rightarrow> kv list \<times> nat" where
  "record_loop f 0 key_idx = ([], key_idx)"
| "record_loop f (Suc n) key_idx =
     (case record_loop f n (Suc key_idx) of (rs, k) \<Rightarrow> (f key_idx # rs, k))"

fun block_loop :: "(nat \<Rightarrow> kv) \<Rightarrow> nat \<Rightarrow> nat \<Rightarrow> nat \<Rightarrow> kv list list \<times> nat" where
  "block_loop f rpb 0 key_idx = ([], key_idx)"
| "block_loop f rpb (Suc n) key_idx =
     (case record_loop f rpb key_idx of
        (blk, k) \<Rightarrow> (case block_loop f rpb n k of (blks, k') \<Rightarrow> (blk # blks, k')))"

definition src0_record :: "'w table_lib \<Rightarrow> nat \<Rightarrow> kv" where
  "src0_record lib key_idx =
     (let uk = ''key_'' @ pad0 4 key_idx
      in mk_kv lib uk (word_of_int (1000 - int key_idx)) (''src0_val_'' @ uk))"

definition make_src0 :: "'w table_lib \<Rightarrow> kv list list" where
  "make_src0 lib = fst (block_loop (src0_record lib) 4 12 0)"

definition src1_old_record :: "'w table_lib \<Rightarrow> nat \<Rightarrow> kv" where
  "src1_old_record lib key_idx =
     (let uk = ''key_'' @ pad0 4 key_idx
      in mk_kv lib uk (word_of_int (500 - int key_idx)) (''src1_OLD_'' @ uk))"

definition src1_new_record :: "'w table_lib \<Rightarrow> nat \<Rightarrow> kv" where
  "src1_new_record lib key_idx =
     (let uk = ''key_'' @ pad0 4 key_idx
      in mk_kv lib uk (word_of_int (500 - (int key_idx - 1000))) (''src1_val_'' @ uk))"

definition make_src1 :: "'w table_lib \<Rightarrow> kv list list" where
  "make_src1 lib =
     fst (block_loop (src1_old_record lib) 4 2 0) @ fst (block_loop (src1_new_record lib) 4 10 1000)"

section \<open>Writing and reading a table\<close>

definition real_write_sstable ::
  "'w table_lib \<Rightarrow> string \<Rightarrow> kv list list \<Rightarrow> 'w \<Rightarrow> u64 \<times> 'w" where
  "real_write_sstable lib path blocks w =
     (let (ok, w1) = tl_new_file lib path w
      in if \<not> ok then (0, w1)
         else
           (let opts = \<lparr>opt_block_size = 256, opt_restart_interval = 16\<rparr>;
                (ok2, w2) = tl_finish lib (add_blocks lib blocks (tl_builder lib opts w1))
            in if \<not> ok2 then (0, w2)
               else
                 (let fsize = tl_file_size lib w2;
                      (ok3, w3) = tl_close lib w2
                  in if \<not> ok3 then (0, w3) else (fsize, w3))))"

text \<open>
  The iterator loop, which ends only if the iterator does. The comment of
  \<^verbatim>\<open>CountDataBlocks\<close> says blocks; it counts entries.
\<close>

partial_function (option) count_loop :: "'w table_lib \<Rightarrow> int \<Rightarrow> 'w \<Rightarrow> (int \<times> 'w) option" where
  "count_loop lib count w =
     (if tl_valid lib w then count_loop lib (count + 1) (tl_next lib w) else Some (count, w))"

definition count_data_blocks :: "'w table_lib \<Rightarrow> string \<Rightarrow> u64 \<Rightarrow> 'w \<Rightarrow> (int \<times> 'w) option" where
  "count_data_blocks lib path file_size w =
     (let (ok, w1) = tl_new_random lib path w
      in if \<not> ok then Some (-1, w1)
         else
           (let (ok2, w2) = tl_table_open lib file_size w1
            in if \<not> ok2 then Some (-1, w2) else count_loop lib 0 (tl_seek_first lib w2)))"

section \<open>The counters and the main program\<close>

definition real_dup_keys :: nat where "real_dup_keys = 8"

definition real_merged :: "nat \<Rightarrow> nat \<Rightarrow> nat" where
  "real_merged n0 n1 = n0 + n1 - real_dup_keys"

definition info_line :: "string \<Rightarrow> string \<Rightarrow> string" where
  "info_line name val = name @ ''='' @ val @ [newline]"

definition real_info_text :: "u64 \<Rightarrow> u64 \<Rightarrow> kv list list \<Rightarrow> kv list list \<Rightarrow> string" where
  "real_info_text size0 size1 blocks0 blocks1 =
     (let n0 = count_records blocks0; n1 = count_records blocks1
      in concat
        [info_line ''src0_size'' (decimal_string (unat size0)),
         info_line ''src1_size'' (decimal_string (unat size1)),
         info_line ''src0_base'' (''0x'' @ hex_string 0),
         info_line ''src1_base'' (''0x'' @ hex_string 0x10000),
         info_line ''src0_blocks'' (decimal_string (length blocks0)),
         info_line ''src1_blocks'' (decimal_string (length blocks1)),
         info_line ''src0_records'' (decimal_string n0),
         info_line ''src1_records'' (decimal_string n1),
         info_line ''duplicate_keys'' (decimal_string real_dup_keys),
         info_line ''expected_block_pairs'' (decimal_string (max (length blocks0) (length blocks1))),
         info_line ''expected_merge_decoded'' (decimal_string (n0 + n1)),
         info_line ''expected_merge_merged'' (decimal_string (real_merged n0 n1)),
         info_line ''expected_merge_dropped'' (decimal_string real_dup_keys)])"

text \<open>The exit code of \<^verbatim>\<open>main\<close>; None when a read-back loop does not end.\<close>

definition real_main :: "'w table_lib \<Rightarrow> 'w \<Rightarrow> (nat \<times> 'w) option" where
  "real_main lib w =
     (let w0 = tl_system lib ''mkdir -p fixtures'' w;
          src0 = make_src0 lib; src1 = make_src1 lib;
          path0 = ''fixtures/src0_real.sst''; path1 = ''fixtures/src1_real.sst'';
          (size0, w1) = real_write_sstable lib path0 src0 w0
      in if size0 = 0 then Some (1, w1)
         else
           (let (size1, w2) = real_write_sstable lib path1 src1 w1
            in if size1 = 0 then Some (1, w2)
               else
                 (case count_data_blocks lib path0 size0 w2 of
                    None \<Rightarrow> None
                  | Some (rb0, w3) \<Rightarrow>
                      (case count_data_blocks lib path1 size1 w3 of
                         None \<Rightarrow> None
                       | Some (rb1, w4) \<Rightarrow>
                           if rb0 \<noteq> int (count_records src0) \<or> rb1 \<noteq> int (count_records src1)
                           then Some (1, w4)
                           else
                             (let w5 = write_memh lib path0 ''fixtures/src0_real.memh'' 0 w4;
                                  w6 = write_memh lib path1 ''fixtures/src1_real.memh'' 0x10000 w5;
                                  w7 = tl_write_text lib ''fixtures/real_sstable_info.txt''
                                         (real_info_text size0 size1 src0 src1) w6
                              in Some (0, w7))))))"

section \<open>The loops in closed form\<close>

lemma record_loop_eq: "record_loop f n k = (map f [k..<k + n], k + n)"
  by (induction n arbitrary: k) (simp_all add: upt_rec)

lemma block_loop_eq:
  "concat (fst (block_loop f rpb n k)) = map f [k..<k + n * rpb] \<and>
   length (fst (block_loop f rpb n k)) = n \<and> snd (block_loop f rpb n k) = k + n * rpb"
proof (induction n arbitrary: k)
  case 0
  then show ?case by simp
next
  case (Suc n)
  have "[k..<k + rpb] @ [k + rpb..<k + rpb + n * rpb] = [k..<k + Suc n * rpb]"
    using upt_add_eq_append [of k "k + rpb" "n * rpb"] by (simp add: add.assoc)
  then show ?case using Suc [of "k + rpb"]
    by (simp add: record_loop_eq case_prod_beta add.assoc flip: map_append)
qed

lemma concat_make_src0: "concat (make_src0 lib) = map (src0_record lib) [0..<48]"
  using block_loop_eq [of "src0_record lib" 4 12 0] by (simp add: make_src0_def)

lemma concat_make_src1:
  "concat (make_src1 lib) = map (src1_old_record lib) [0..<8] @ map (src1_new_record lib) [1000..<1040]"
  using block_loop_eq [of "src1_old_record lib" 4 2 0] block_loop_eq [of "src1_new_record lib" 4 10 1000]
  by (simp add: make_src1_def)

lemma real_numbered:
  "numbered 4 ''key_'' (src0_record lib) lib"
  "numbered 4 ''key_'' (src1_old_record lib) lib"
  "numbered 4 ''key_'' (src1_new_record lib) lib"
  unfolding src0_record_def src1_old_record_def src1_new_record_def Let_def by (rule numbered_mk_kv)+

section \<open>What the sources promise\<close>

text \<open>
  Both record sequences of \<^verbatim>\<open>gen_real_sstable.cc\<close> are strictly increasing in the byte order of
  their internal keys, as \<^verbatim>\<open>TableBuilder::Add\<close> demands, whatever bytes \<^verbatim>\<open>PutFixed64\<close> appends;
  they have 12 blocks and 48 records each.
\<close>

theorem real_sources_sorted:
  "table_sorted (concat (make_src0 lib)) \<and> table_sorted (concat (make_src1 lib)) \<and>
   length (make_src0 lib) = 12 \<and> length (make_src1 lib) = 12 \<and>
   count_records (make_src0 lib) = 48 \<and> count_records (make_src1 lib) = 48"
proof -
  have "table_sorted (concat (make_src0 lib))"
    unfolding concat_make_src0 using real_numbered(1) by (rule numbered_sorted) (auto simp: sorted_wrt_upt)
  moreover have "table_sorted (concat (make_src1 lib))"
    unfolding concat_make_src1 using real_numbered(2,3)
    by (rule table_sorted_append_numbered) (auto simp: sorted_wrt_append)
  moreover have "length (make_src0 lib) = 12" "length (make_src1 lib) = 12"
    using block_loop_eq by (simp_all add: make_src0_def make_src1_def)
  ultimately show ?thesis by (simp add: count_records_concat concat_make_src0 concat_make_src1)
qed

lemma src0_seq: "fixed64_ok lib \<Longrightarrow> i \<le> 1000 \<Longrightarrow> key_seq (kv_key (src0_record lib i)) = 1000 - i"
  unfolding src0_record_def Let_def by (subst key_seq_record) auto

lemma src1_old_seq: "fixed64_ok lib \<Longrightarrow> i \<le> 500 \<Longrightarrow> key_seq (kv_key (src1_old_record lib i)) = 500 - i"
  unfolding src1_old_record_def Let_def by (subst key_seq_record) auto

text \<open>
  C37. The counters \<^verbatim>\<open>main\<close> writes to the info file are right: the two sources have exactly
  \<^verbatim>\<open>duplicate_keys\<close> = 8 user keys in common, \<^verbatim>\<open>expected_merge_merged\<close> = 88 is the number of
  different user keys, and every common key is newer (has the higher sequence number) in SRC0, so
  that it is the SRC1 version a merge must drop.
\<close>

theorem real_expected_counters:
  assumes "fixed64_ok lib"
  shows "card (user_keys (concat (make_src0 lib)) \<inter> user_keys (concat (make_src1 lib))) = real_dup_keys \<and>
    card (user_keys (concat (make_src0 lib) @ concat (make_src1 lib))) =
      real_merged (count_records (make_src0 lib)) (count_records (make_src1 lib)) \<and>
    (\<forall>r0\<in>set (concat (make_src0 lib)). \<forall>r1\<in>set (concat (make_src1 lib)).
       user_key (kv_key r0) = user_key (kv_key r1) \<longrightarrow> key_seq (kv_key r1) < key_seq (kv_key r0))"
proof (intro conjI ballI impI)
  let ?key = "\<lambda>i. bytes_of (''key_'' @ pad0 4 i)"
  note keys = user_keys_numbered [OF assms real_numbered(1)] user_keys_numbered [OF assms real_numbered(2)]
    user_keys_numbered [OF assms real_numbered(3)]
  have k0: "user_keys (concat (make_src0 lib)) = ?key ` {0..<48}"
    by (simp only: concat_make_src0 keys set_upt)
  have k1: "user_keys (concat (make_src1 lib)) = ?key ` ({0..<8} \<union> {1000..<1040})"
    by (simp only: concat_make_src1 user_keys_append keys image_Un set_upt)
  have inj: "inj_on ?key {i. i < 10 ^ 4}" by (rule inj_onI) (simp add: bytes_of_inject pad0_inject)
  have "?key ` {0..<48} \<inter> ?key ` ({0..<8} \<union> {1000..<1040}) = ?key ` ({0..<48} \<inter> ({0..<8} \<union> {1000..<1040}))"
    by (rule inj_on_image_Int [OF inj, symmetric]) auto
  also have "{0..<48} \<inter> ({0..<8} \<union> {1000..<1040}) = {0..<8 :: nat}" by auto
  finally have common: "?key ` {0..<48} \<inter> ?key ` ({0..<8} \<union> {1000..<1040}) = ?key ` {0..<8}" .
  show "card (user_keys (concat (make_src0 lib)) \<inter> user_keys (concat (make_src1 lib))) = real_dup_keys"
    unfolding k0 k1 common by (subst card_numbered_keys) (auto simp: real_dup_keys_def)
  have "{0..<48} \<union> ({0..<8} \<union> {1000..<1040}) = {0..<48} \<union> {1000..<1040 :: nat}" by auto
  then have "card ({0..<48} \<union> ({0..<8} \<union> {1000..<1040 :: nat})) = 88" by (simp add: card_Un_disjoint)
  then show "card (user_keys (concat (make_src0 lib) @ concat (make_src1 lib))) =
      real_merged (count_records (make_src0 lib)) (count_records (make_src1 lib))"
    unfolding user_keys_append k0 k1 image_Un [symmetric]
    by (subst card_numbered_keys)
      (auto simp: count_records_concat concat_make_src0 concat_make_src1 real_merged_def real_dup_keys_def)
next
  fix r0 r1
  assume "r0 \<in> set (concat (make_src0 lib))" and "r1 \<in> set (concat (make_src1 lib))"
    and same: "user_key (kv_key r0) = user_key (kv_key r1)"
  then obtain i where r0: "r0 = src0_record lib i" "i < 48" by (auto simp: concat_make_src0)
  from \<open>r1 \<in> _\<close> consider j where "r1 = src1_old_record lib j" "j < 8"
    | j where "r1 = src1_new_record lib j" "1000 \<le> j" "j < 1040"
    by (auto simp: concat_make_src1)
  then show "key_seq (kv_key r1) < key_seq (kv_key r0)"
  proof cases
    case 1
    then show ?thesis using r0 src0_seq [OF assms, of i] src1_old_seq [OF assms, of j] by simp
  next
    case 2
    then have "i = j"
      using same r0 numbered_user_key_eq [OF assms real_numbered(1,3), of i j] by simp
    then show ?thesis using 2 r0 by simp
  qed
qed

theorem real_expected_counters_witness:
  "card (user_keys (concat (make_src0 le_lib)) \<inter> user_keys (concat (make_src1 le_lib))) = 8"
  using real_expected_counters [OF le_lib_ok] by (simp add: real_dup_keys_def)

end
