(* ===== verification/Gen_Scenarios.thy ===== *)
theory Gen_Scenarios
  imports Gen_Keys Gen_Memh
begin

text \<open>
  \<^verbatim>\<open>organized/sim/integration/gen_real_sstable_scenarios.cc\<close>: five named scenarios, each a pair of
  sources and the counters expected of a merge, and the program that writes them out. The \<^verbatim>\<open>int\<close>
  counters of the source are incremented with every \<^verbatim>\<open>push_back\<close>, so they are the numbers of
  records; messages on the standard streams are not modelled.
\<close>

section \<open>Tables and values\<close>

definition scenario_write_sstable ::
  "'w table_lib \<Rightarrow> string \<Rightarrow> kv list list \<Rightarrow> int \<Rightarrow> int \<Rightarrow> 'w \<Rightarrow> u64 \<times> 'w" where
  "scenario_write_sstable lib path blocks block_size restart_interval w =
     (let (ok, w1) = tl_new_file lib path w
      in if \<not> ok then (0, w1)
         else
           (let opts = \<lparr>opt_block_size = block_size, opt_restart_interval = restart_interval\<rparr>;
                (ok2, w2) = tl_finish lib (add_blocks lib blocks (tl_builder lib opts w1))
            in if \<not> ok2 then (0, w2)
               else (tl_file_size lib w2, snd (tl_close lib w2))))"

text \<open>\<^verbatim>\<open>MakeValue\<close>: the \<^verbatim>\<open>while\<close> loop, then \<^verbatim>\<open>substr(0, size)\<close> with a size that is converted to unsigned.\<close>

function pad_value :: "string \<Rightarrow> int \<Rightarrow> string" where
  "pad_value val sz = (if int (length val) < sz then pad_value (val @ ''x'') sz else val)"
  by pat_completeness auto

termination by (relation "measure (\<lambda>(val, sz). nat (sz - int (length val)))") auto

declare pad_value.simps [simp del]

definition make_value :: "string \<Rightarrow> int \<Rightarrow> string" where
  "make_value prefix sz =
     (let val = pad_value prefix sz in if sz < 0 then val else take (nat sz) val)"

section \<open>The scenarios\<close>

record scenario =
  sc_name :: string
  sc_src0 :: "kv list list"
  sc_src1 :: "kv list list"
  sc_block_size :: int
  sc_merged :: nat
  sc_dropped :: nat

definition make_interleave :: "'w table_lib \<Rightarrow> scenario" where
  "make_interleave lib =
     (let rec0 = (\<lambda>b r. let idx0 = b * 8 + r * 2 + 2; uk0 = ''a_'' @ pad0 4 idx0
                        in mk_kv lib uk0 (word_of_int (1000 - int idx0)) (''v0_'' @ uk0));
          rec1 = (\<lambda>b r. let idx1 = b * 8 + r * 2 + 1; uk1 = ''a_'' @ pad0 4 idx1
                        in mk_kv lib uk1 (word_of_int (1000 - int idx1)) (''v1_'' @ uk1));
          src0 = map (\<lambda>b. map (rec0 b) [0..<4]) [0..<6];
          src1 = map (\<lambda>b. map (rec1 b) [0..<4]) [0..<6]
      in \<lparr>sc_name = ''interleave'', sc_src0 = src0, sc_src1 = src1, sc_block_size = 256,
          sc_merged = count_records src0 + count_records src1, sc_dropped = 0\<rparr>)"

definition make_heavy_dup_real :: "'w table_lib \<Rightarrow> scenario" where
  "make_heavy_dup_real lib =
     (let rec0 = (\<lambda>b r. let uk = ''k_'' @ pad0 4 (b * 4 + r)
                        in mk_kv lib uk (word_of_int (2000 - int (b * 4 + r))) (''s0_'' @ uk));
          old1 = (\<lambda>b r. let uk = ''k_'' @ pad0 4 (b * 4 + r)
                        in mk_kv lib uk (word_of_int (1000 - int (b * 4 + r))) (''s1_OLD_'' @ uk));
          uniq1 = (\<lambda>b r. let uk = ''k_'' @ pad0 4 (5000 + b * 4 + r)
                         in mk_kv lib uk (word_of_int (800 - int (b * 4 + r))) (''s1_uniq_'' @ uk));
          src0 = map (\<lambda>b. map (rec0 b) [0..<4]) [0..<6];
          dup1 = map (\<lambda>b. map (old1 b) [0..<4]) [0..<4];
          src1 = dup1 @ map (\<lambda>b. map (uniq1 b) [0..<4]) [0..<2];
          dups = count_records dup1
      in \<lparr>sc_name = ''heavy_dup_real'', sc_src0 = src0, sc_src1 = src1, sc_block_size = 256,
          sc_merged = count_records src0 + count_records src1 - dups, sc_dropped = dups\<rparr>)"

definition make_long_value :: "'w table_lib \<Rightarrow> scenario" where
  "make_long_value lib =
     (let idx0 = (\<lambda>b r. b * 6 + r * 2);
          vlen = (\<lambda>b r. 350 + int (idx0 b r mod 5) * 20);
          rec0 = (\<lambda>b r. let uk0 = ''lv_'' @ pad0 4 (idx0 b r)
                        in mk_kv lib uk0 (word_of_int (900 - int (idx0 b r)))
                             (make_value (''S0_'' @ uk0 @ ''_'') (vlen b r)));
          rec1 = (\<lambda>b r. let idx1 = b * 6 + r * 2 + 1; uk1 = ''lv_'' @ pad0 4 idx1
                        in mk_kv lib uk1 (word_of_int (900 - int idx1))
                             (make_value (''S1_'' @ uk1 @ ''_'') (vlen b r)));
          src0 = map (\<lambda>b. map (rec0 b) [0..<3]) [0..<4];
          src1 = map (\<lambda>b. map (rec1 b) [0..<3]) [0..<4]
      in \<lparr>sc_name = ''long_value'', sc_src0 = src0, sc_src1 = src1, sc_block_size = 2048,
          sc_merged = count_records src0 + count_records src1, sc_dropped = 0\<rparr>)"

definition make_asym_real :: "'w table_lib \<Rightarrow> scenario" where
  "make_asym_real lib =
     (let rec0 = (\<lambda>b r. let uk = ''ar_'' @ pad0 4 (b * 100 + r)
                        in mk_kv lib uk (word_of_int (500 - int (b * 4 + r))) (''s0_'' @ uk));
          rec1 = (\<lambda>b r. let uk = ''ar_'' @ pad0 4 (b * 100 + r + 50)
                        in mk_kv lib uk (word_of_int (400 - int (b * 4 + r))) (''s1_'' @ uk));
          src0 = map (\<lambda>b. map (rec0 b) [0..<4]) [0..<3];
          src1 = map (\<lambda>b. map (rec1 b) [0..<4]) [0..<8]
      in \<lparr>sc_name = ''asym_real'', sc_src0 = src0, sc_src1 = src1, sc_block_size = 256,
          sc_merged = count_records src0 + count_records src1, sc_dropped = 0\<rparr>)"

definition make_many_records :: "'w table_lib \<Rightarrow> scenario" where
  "make_many_records lib =
     (let rec0 = (\<lambda>b r. let idx = b * 32 + r * 2; uk0 = ''mr_'' @ pad0 4 idx
                        in mk_kv lib uk0 (word_of_int (700 - int idx)) (''s0_v_'' @ uk0));
          rec1 = (\<lambda>b r. let idx = b * 32 + r * 2; uk1 = ''mr_'' @ pad0 4 (idx + 1)
                        in mk_kv lib uk1 (word_of_int (700 - (int idx + 1))) (''s1_v_'' @ uk1));
          src0 = map (\<lambda>b. map (rec0 b) [0..<16]) [0..<2];
          src1 = map (\<lambda>b. map (rec1 b) [0..<16]) [0..<2]
      in \<lparr>sc_name = ''many_records'', sc_src0 = src0, sc_src1 = src1, sc_block_size = 2048,
          sc_merged = count_records src0 + count_records src1, sc_dropped = 0\<rparr>)"

section \<open>Writing a scenario, and the main program\<close>

definition scenario_line :: "string \<Rightarrow> string \<Rightarrow> string" where
  "scenario_line name val = name @ ''='' @ val @ [newline]"

definition scenario_info_text :: "scenario \<Rightarrow> u64 \<Rightarrow> u64 \<Rightarrow> string" where
  "scenario_info_text sc size0 size1 = concat
     [scenario_line ''scenario'' (sc_name sc),
      scenario_line ''src0_size'' (decimal_string (unat size0)),
      scenario_line ''src1_size'' (decimal_string (unat size1)),
      scenario_line ''src0_blocks'' (decimal_string (length (sc_src0 sc))),
      scenario_line ''src1_blocks'' (decimal_string (length (sc_src1 sc))),
      scenario_line ''src0_records'' (decimal_string (count_records (sc_src0 sc))),
      scenario_line ''src1_records'' (decimal_string (count_records (sc_src1 sc))),
      scenario_line ''block_pairs'' (decimal_string (max (length (sc_src0 sc)) (length (sc_src1 sc)))),
      scenario_line ''expected_merged'' (decimal_string (sc_merged sc)),
      scenario_line ''expected_dropped'' (decimal_string (sc_dropped sc))]"

definition generate_scenario :: "'w table_lib \<Rightarrow> scenario \<Rightarrow> 'w \<Rightarrow> 'w" where
  "generate_scenario lib sc w =
     (let w0 = tl_system lib ''mkdir -p fixtures'' w;
          src0_sst = ''fixtures/src0_'' @ sc_name sc @ ''.sst'';
          src1_sst = ''fixtures/src1_'' @ sc_name sc @ ''.sst'';
          src0_memh = ''fixtures/src0_'' @ sc_name sc @ ''.memh'';
          src1_memh = ''fixtures/src1_'' @ sc_name sc @ ''.memh'';
          (size0, w1) = scenario_write_sstable lib src0_sst (sc_src0 sc) (sc_block_size sc) 16 w0;
          (size1, w2) = scenario_write_sstable lib src1_sst (sc_src1 sc) (sc_block_size sc) 16 w1
      in if size0 = 0 \<or> size1 = 0 then w2
         else
           (let w3 = write_memh lib src0_sst src0_memh 0 w2;
                w4 = write_memh lib src1_sst src1_memh 0x10000 w3
            in tl_write_text lib (''fixtures/'' @ sc_name sc @ ''_info.txt'') (scenario_info_text sc size0 size1) w4))"

definition select_scenarios :: "'w table_lib \<Rightarrow> string \<Rightarrow> scenario list" where
  "select_scenarios lib target =
     (if target = ''interleave'' \<or> target = ''all'' then [make_interleave lib] else []) @
     (if target = ''heavy_dup_real'' \<or> target = ''all'' then [make_heavy_dup_real lib] else []) @
     (if target = ''long_value'' \<or> target = ''all'' then [make_long_value lib] else []) @
     (if target = ''asym_real'' \<or> target = ''all'' then [make_asym_real lib] else []) @
     (if target = ''many_records'' \<or> target = ''all'' then [make_many_records lib] else [])"

text \<open>\<open>args\<close> are the arguments after the program's name; the exit code comes first.\<close>

definition scenarios_main :: "'w table_lib \<Rightarrow> string list \<Rightarrow> 'w \<Rightarrow> nat \<times> 'w" where
  "scenarios_main lib args w =
     (let target = (case args of [] \<Rightarrow> ''all'' | a # _ \<Rightarrow> a);
          scs = select_scenarios lib target
      in if scs = [] then (1, w) else (0, fold (generate_scenario lib) scs w))"

section \<open>What the scenarios promise\<close>

text \<open>What a scenario with index lists \<open>is\<close> and \<open>js\<close> promises.\<close>

definition scenario_sorted :: "scenario \<Rightarrow> bool" where
  "scenario_sorted sc \<longleftrightarrow> table_sorted (concat (sc_src0 sc)) \<and> table_sorted (concat (sc_src1 sc))"

definition scenario_counts :: "scenario \<Rightarrow> bool" where
  "scenario_counts sc \<longleftrightarrow>
     card (user_keys (concat (sc_src0 sc)) \<inter> user_keys (concat (sc_src1 sc))) = sc_dropped sc \<and>
     card (user_keys (concat (sc_src0 sc) @ concat (sc_src1 sc))) = sc_merged sc"

lemma scenario_sortedI:
  assumes "indexed lib k p (concat (sc_src0 sc)) is" and "indexed lib k p (concat (sc_src1 sc)) js"
    and "0 < k" and "sorted_wrt (<) is" and "sorted_wrt (<) js" and "\<forall>i\<in>set (is @ js). i < 10 ^ k"
  shows "scenario_sorted sc"
  using assms indexed_sorted [OF assms(1)] indexed_sorted [OF assms(2)] by (simp add: scenario_sorted_def)

lemma scenario_countsI:
  assumes lib: "fixed64_ok lib"
    and i: "indexed lib k p (concat (sc_src0 sc)) is" and j: "indexed lib k p (concat (sc_src1 sc)) js"
    and "0 < k" and b: "\<forall>i\<in>set (is @ js). i < 10 ^ k"
    and "length (remdups (is @ js)) = sc_merged sc"
    and "length (remdups (filter (\<lambda>i. i \<in> set js) is)) = sc_dropped sc"
  shows "scenario_counts sc"
proof -
  let ?key = "\<lambda>i. bytes_of (p @ pad0 k i)"
  have inj: "inj_on ?key (set (is @ js))"
    using b assms(4) by (intro inj_onI) (simp add: bytes_of_inject pad0_inject)
  have "user_keys (concat (sc_src0 sc) @ concat (sc_src1 sc)) = ?key ` set (is @ js)"
    by (simp only: user_keys_append indexed_user_keys [OF lib i] indexed_user_keys [OF lib j] set_append image_Un)
  moreover have "user_keys (concat (sc_src0 sc)) \<inter> user_keys (concat (sc_src1 sc)) = ?key ` (set is \<inter> set js)"
    using inj by (simp only: indexed_user_keys [OF lib i] indexed_user_keys [OF lib j] set_append
        inj_on_image_Int [OF _ Un_upper1 Un_upper2])
  moreover have "card (?key ` set (is @ js)) = sc_merged sc"
    using card_image [OF inj] assms(6) by (simp only: length_remdups_card_conv)
  moreover have "card (?key ` (set is \<inter> set js)) = sc_dropped sc"
  proof -
    have "set is \<inter> set js = set (filter (\<lambda>i. i \<in> set js) is)" by auto
    moreover have "inj_on ?key (set is \<inter> set js)" by (rule inj_on_subset [OF inj]) auto
    ultimately show ?thesis using card_image assms(7) by (metis length_remdups_card_conv)
  qed
  ultimately show ?thesis by (simp only: scenario_counts_def)
qed

text \<open>The index lists of the ten sources.\<close>

lemma interleave_indexed:
  "indexed lib 4 ''a_'' (concat (sc_src0 (make_interleave lib))) (concat (map (\<lambda>b. map (\<lambda>r. b * 8 + r * 2 + 2) [0..<4]) [0..<6]))"
  "indexed lib 4 ''a_'' (concat (sc_src1 (make_interleave lib))) (concat (map (\<lambda>b. map (\<lambda>r. b * 8 + r * 2 + 1) [0..<4]) [0..<6]))"
  by (simp_all only: make_interleave_def Let_def scenario.select_convs indexed_loops)

lemma heavy_dup_real_indexed:
  "indexed lib 4 ''k_'' (concat (sc_src0 (make_heavy_dup_real lib))) (concat (map (\<lambda>b. map (\<lambda>r. b * 4 + r) [0..<4]) [0..<6]))"
  "indexed lib 4 ''k_'' (concat (sc_src1 (make_heavy_dup_real lib)))
     (concat (map (\<lambda>b. map (\<lambda>r. b * 4 + r) [0..<4]) [0..<4]) @ concat (map (\<lambda>b. map (\<lambda>r. 5000 + b * 4 + r) [0..<4]) [0..<2]))"
  unfolding make_heavy_dup_real_def Let_def scenario.select_convs concat_append
  by (rule indexed_loops, intro indexed_append indexed_loops)

lemma long_value_indexed:
  "indexed lib 4 ''lv_'' (concat (sc_src0 (make_long_value lib))) (concat (map (\<lambda>b. map (\<lambda>r. b * 6 + r * 2) [0..<3]) [0..<4]))"
  "indexed lib 4 ''lv_'' (concat (sc_src1 (make_long_value lib))) (concat (map (\<lambda>b. map (\<lambda>r. b * 6 + r * 2 + 1) [0..<3]) [0..<4]))"
  by (simp_all only: make_long_value_def Let_def scenario.select_convs indexed_loops)

lemma asym_real_indexed:
  "indexed lib 4 ''ar_'' (concat (sc_src0 (make_asym_real lib))) (concat (map (\<lambda>b. map (\<lambda>r. b * 100 + r) [0..<4]) [0..<3]))"
  "indexed lib 4 ''ar_'' (concat (sc_src1 (make_asym_real lib))) (concat (map (\<lambda>b. map (\<lambda>r. b * 100 + r + 50) [0..<4]) [0..<8]))"
  by (simp_all only: make_asym_real_def Let_def scenario.select_convs indexed_loops)

lemma many_records_indexed:
  "indexed lib 4 ''mr_'' (concat (sc_src0 (make_many_records lib))) (concat (map (\<lambda>b. map (\<lambda>r. b * 32 + r * 2) [0..<16]) [0..<2]))"
  "indexed lib 4 ''mr_'' (concat (sc_src1 (make_many_records lib))) (concat (map (\<lambda>b. map (\<lambda>r. b * 32 + r * 2 + 1) [0..<16]) [0..<2]))"
  by (simp_all only: make_many_records_def Let_def scenario.select_convs indexed_loops)

lemmas scenario_indexed = interleave_indexed heavy_dup_real_indexed long_value_indexed asym_real_indexed
  many_records_indexed

lemma scenarios_sorted_each:
  "scenario_sorted (make_interleave lib)" "scenario_sorted (make_heavy_dup_real lib)"
  "scenario_sorted (make_long_value lib)" "scenario_sorted (make_asym_real lib)"
  "scenario_sorted (make_many_records lib)"
  by (rule scenario_sortedI [OF interleave_indexed] scenario_sortedI [OF heavy_dup_real_indexed]
      scenario_sortedI [OF long_value_indexed] scenario_sortedI [OF asym_real_indexed]
      scenario_sortedI [OF many_records_indexed]; simp add: upt_rec)+

lemma count_records_loops [simp]: "count_records (map (\<lambda>b. map (g b) rs) bs) = length bs * length rs"
  by (simp add: count_records_concat length_concat o_def sum_list_triv)

lemma count_records_append [simp]: "count_records (xs @ ys) = count_records xs + count_records ys"
  by (simp add: count_records_concat)

lemma scenario_numbers:
  "sc_merged (make_interleave lib) = 48" "sc_dropped (make_interleave lib) = 0"
  "sc_merged (make_heavy_dup_real lib) = 32" "sc_dropped (make_heavy_dup_real lib) = 16"
  "sc_merged (make_long_value lib) = 24" "sc_dropped (make_long_value lib) = 0"
  "sc_merged (make_asym_real lib) = 44" "sc_dropped (make_asym_real lib) = 0"
  "sc_merged (make_many_records lib) = 64" "sc_dropped (make_many_records lib) = 0"
  by (simp_all only: make_interleave_def make_heavy_dup_real_def make_long_value_def make_asym_real_def
      make_many_records_def Let_def scenario.select_convs count_records_loops count_records_append length_upt)
    simp_all

lemma scenarios_counts_each:
  assumes "fixed64_ok lib"
  shows "scenario_counts (make_interleave lib)" "scenario_counts (make_heavy_dup_real lib)"
    "scenario_counts (make_long_value lib)" "scenario_counts (make_asym_real lib)"
    "scenario_counts (make_many_records lib)"
  by (rule scenario_countsI [OF assms interleave_indexed] scenario_countsI [OF assms heavy_dup_real_indexed]
      scenario_countsI [OF assms long_value_indexed] scenario_countsI [OF assms asym_real_indexed]
      scenario_countsI [OF assms many_records_indexed]; simp add: upt_rec scenario_numbers)+

section \<open>Theorems about the scenarios\<close>

lemma select_scenarios_cases:
  "sc \<in> set (select_scenarios lib target) \<Longrightarrow>
    sc \<in> {make_interleave lib, make_heavy_dup_real lib, make_long_value lib, make_asym_real lib, make_many_records lib}"
  by (auto simp: select_scenarios_def split: if_splits)

text \<open>
  Every scenario the program can select has both sources strictly increasing in the byte order
  of their internal keys, as \<^verbatim>\<open>TableBuilder::Add\<close> demands.
\<close>

theorem scenarios_sorted:
  "\<forall>sc\<in>set (select_scenarios lib target). scenario_sorted sc"
  using scenarios_sorted_each select_scenarios_cases by blast

theorem scenarios_sorted_witness:
  "make_asym_real le_lib \<in> set (select_scenarios le_lib ''all'') \<and> scenario_sorted (make_asym_real le_lib)"
proof -
  have "make_asym_real le_lib \<in> set (select_scenarios le_lib ''all'')" by (simp add: select_scenarios_def)
  then show ?thesis using scenarios_sorted by blast
qed

text \<open>
  C38. The counters of every scenario are right: \<^verbatim>\<open>expected_dropped\<close> is the number of user keys that occur in
  both sources, \<^verbatim>\<open>expected_merged\<close> the number of different user keys.
\<close>

theorem scenario_counters:
  assumes "fixed64_ok lib" and "sc \<in> set (select_scenarios lib target)"
  shows "card (user_keys (concat (sc_src0 sc)) \<inter> user_keys (concat (sc_src1 sc))) = sc_dropped sc \<and>
    card (user_keys (concat (sc_src0 sc) @ concat (sc_src1 sc))) = sc_merged sc"
  using scenarios_counts_each [OF assms(1)] select_scenarios_cases [OF assms(2)]
  unfolding scenario_counts_def by blast

theorem scenario_counters_witness:
  "card (user_keys (concat (sc_src0 (make_heavy_dup_real le_lib))) \<inter>
      user_keys (concat (sc_src1 (make_heavy_dup_real le_lib)))) = 16"
  using scenario_counters [OF le_lib_ok, of "make_heavy_dup_real le_lib" "''heavy_dup_real''"]
  by (simp add: select_scenarios_def scenario_numbers)

text \<open>The sequence numbers of two nested loops lie between the bounds of their expression.\<close>

lemma seq_loops:
  assumes "fixed64_ok lib" and "0 \<le> lo" and "hi < 2 ^ 56"
    and "\<forall>b\<in>set bs. \<forall>r\<in>set rs. lo \<le> sq b r \<and> sq b r \<le> hi"
  shows "\<forall>x\<in>set (concat (map (\<lambda>b. map (\<lambda>r. mk_kv lib (uk b r) (word_of_int (sq b r)) (v b r)) rs) bs)).
    lo \<le> int (key_seq (kv_key x)) \<and> int (key_seq (kv_key x)) \<le> hi"
proof -
  have "int (key_seq (kv_key (mk_kv lib (uk b r) (word_of_int (sq b r)) (v b r)))) = sq b r"
    if "b \<in> set bs" "r \<in> set rs" for b r
  proof -
    have "lo \<le> sq b r" "sq b r \<le> hi" using assms(4) that by auto
    then show ?thesis using key_seq_record [OF assms(1), of "sq b r"] assms(2,3) by simp
  qed
  then show ?thesis using assms(4) by auto
qed

text \<open>
  In the duplicate scenario every record of SRC0 is newer than every record of SRC1, so a merge that
  keeps the newest version of a key drops exactly the SRC1 copies.
\<close>

theorem heavy_dup_newer:
  assumes "fixed64_ok lib"
    and "r0 \<in> set (concat (sc_src0 (make_heavy_dup_real lib)))"
    and "r1 \<in> set (concat (sc_src1 (make_heavy_dup_real lib)))"
  shows "key_seq (kv_key r1) < key_seq (kv_key r0)"
proof -
  have "\<forall>x\<in>set (concat (sc_src0 (make_heavy_dup_real lib))).
      1977 \<le> int (key_seq (kv_key x)) \<and> int (key_seq (kv_key x)) \<le> 2000"
    unfolding make_heavy_dup_real_def Let_def scenario.select_convs
    by (rule seq_loops [OF assms(1)]) auto
  moreover have "\<forall>x\<in>set (concat (sc_src1 (make_heavy_dup_real lib))).
      0 \<le> int (key_seq (kv_key x)) \<and> int (key_seq (kv_key x)) \<le> 1000"
    unfolding make_heavy_dup_real_def Let_def scenario.select_convs concat_append set_append ball_Un
    by (intro conjI seq_loops [OF assms(1)]) auto
  ultimately have "1977 \<le> int (key_seq (kv_key r0))" "int (key_seq (kv_key r1)) \<le> 1000"
    using assms(2,3) by blast+
  then show ?thesis by linarith
qed

theorem heavy_dup_newer_witness:
  "hd (concat (sc_src1 (make_heavy_dup_real le_lib))) \<in> set (concat (sc_src1 (make_heavy_dup_real le_lib))) \<and>
   key_seq (kv_key (hd (concat (sc_src1 (make_heavy_dup_real le_lib))))) <
     key_seq (kv_key (hd (concat (sc_src0 (make_heavy_dup_real le_lib)))))"
proof -
  let ?s0 = "concat (sc_src0 (make_heavy_dup_real le_lib))" and ?s1 = "concat (sc_src1 (make_heavy_dup_real le_lib))"
  have "?s0 \<noteq> []" "?s1 \<noteq> []"
    using indexed_length [OF heavy_dup_real_indexed(1) [of le_lib]] indexed_length [OF heavy_dup_real_indexed(2) [of le_lib]]
    by (auto simp add: upt_rec simp del: concat_eq_Nil_conv)
  then show ?thesis using heavy_dup_newer [OF le_lib_ok] by (meson hd_in_set)
qed

lemma pad_value_eq: "pad_value val sz = val @ replicate (nat (sz - int (length val))) (CHR ''x'')"
proof (induction val sz rule: pad_value.induct)
  case (1 val sz)
  show ?case
  proof (cases "int (length val) < sz")
    case True
    then have "nat (sz - int (length val)) = Suc (nat (sz - int (length (val @ ''x''))))" by simp
    then show ?thesis using 1 [OF True] True by (subst pad_value.simps) simp
  next
    case False
    then show ?thesis by (subst pad_value.simps) simp
  qed
qed

text \<open>
  \<^verbatim>\<open>MakeValue\<close> returns a string of exactly the requested length: the prefix cut off, or the
  prefix filled up with \<^verbatim>\<open>x\<close>.
\<close>

theorem make_value_length:
  assumes "0 \<le> sz"
  shows "length (make_value prefix sz) = nat sz \<and>
    make_value prefix sz = take (nat sz) prefix @ replicate (nat sz - length prefix) (CHR ''x'')"
  using assms by (auto simp: make_value_def pad_value_eq Let_def nat_diff_distrib')

theorem make_value_length_witness:
  "length (make_value ''S0_lv_0004_'' 430) = nat 430 \<and>
    make_value ''S0_lv_0004_'' 430 = take (nat 430) ''S0_lv_0004_'' @ replicate (nat 430 - length ''S0_lv_0004_'') (CHR ''x'')"
  by (rule make_value_length) simp

text \<open>
  The long-value scenario keeps every pair of blocks, keys and values together, below the
  4096 bytes of the output stage; the values have 350 to 430 bytes (the program's header comment
  promises ``up to 900'').
\<close>

theorem long_value_fits:
  assumes "fixed64_ok lib" and "i < 4"
  shows "sum_list (map (\<lambda>r. length (kv_key r) + length (kv_value r))
      (sc_src0 (make_long_value lib) ! i @ sc_src1 (make_long_value lib) ! i)) < 4096 \<and>
    (\<forall>r\<in>set (sc_src0 (make_long_value lib) ! i @ sc_src1 (make_long_value lib) ! i).
       350 \<le> length (kv_value r) \<and> length (kv_value r) \<le> 430)"
proof -
  let ?sc = "make_long_value lib"
  have len: "length (tl_put_fixed64 lib v) = 8" for v using assms(1) by (simp add: fixed64_ok_def)
  have kl: "length (kv_key (mk_kv lib (''lv_'' @ pad0 4 k) sq v)) = 15" if "k < 10000" for k sq v
    using that by (simp add: mk_kv_def make_internal_key_def len length_pad0)
  have vl: "length (kv_value (mk_kv lib uk sq (make_value q (350 + int (k mod 5) * 20)))) = 350 + k mod 5 * 20"
    for uk sq q k
    by (simp add: mk_kv_def make_value_def pad_value_eq Let_def nat_add_distrib nat_mult_distrib)
  have m: "k mod 5 \<le> 4" for k :: nat by (simp add: less_Suc_eq_le [symmetric])
  have small: "length (kv_key r) = 15 \<and> 350 \<le> length (kv_value r) \<and> length (kv_value r) \<le> 430"
    if "r \<in> set (sc_src0 ?sc ! i @ sc_src1 ?sc ! i)" for r
  proof -
    from that assms(2) obtain j where j: "j < 3" and
      "r = mk_kv lib (''lv_'' @ pad0 4 (i * 6 + j * 2)) (word_of_int (900 - int (i * 6 + j * 2)))
          (make_value (''S0_'' @ (''lv_'' @ pad0 4 (i * 6 + j * 2)) @ ''_'') (350 + int ((i * 6 + j * 2) mod 5) * 20)) \<or>
       r = mk_kv lib (''lv_'' @ pad0 4 (i * 6 + j * 2 + 1)) (word_of_int (900 - int (i * 6 + j * 2 + 1)))
          (make_value (''S1_'' @ (''lv_'' @ pad0 4 (i * 6 + j * 2 + 1)) @ ''_'') (350 + int ((i * 6 + j * 2) mod 5) * 20))"
      by (auto simp: make_long_value_def Let_def)
    then show ?thesis using assms(2) kl [of "i * 6 + j * 2"] kl [of "i * 6 + j * 2 + 1"] m [of "i * 6 + j * 2"]
      by (elim disjE) (simp_all only: vl, simp_all)
  qed
  let ?rs = "sc_src0 ?sc ! i @ sc_src1 ?sc ! i"
  have "length ?rs = 6" using assms(2) by (simp add: make_long_value_def Let_def)
  moreover have "sum_list (map (\<lambda>r. length (kv_key r) + length (kv_value r)) ?rs) \<le> sum_list (map (\<lambda>r. 445) ?rs)"
    using small by (intro sum_list_mono) fastforce
  ultimately have "sum_list (map (\<lambda>r. length (kv_key r) + length (kv_value r)) ?rs) < 4096"
    by (simp only: sum_list_triv) simp
  then show ?thesis using small by blast
qed

theorem long_value_fits_witness:
  "sum_list (map (\<lambda>r. length (kv_key r) + length (kv_value r))
    (sc_src0 (make_long_value le_lib) ! 3 @ sc_src1 (make_long_value le_lib) ! 3)) < 4096"
  using long_value_fits [OF le_lib_ok, of 3] by simp


text \<open>
  The program exits with 1, having done nothing, exactly when its first argument is not one of
  the six names; without an argument it generates all five scenarios.
\<close>

theorem scenarios_main_dispatch:
  "(fst (scenarios_main lib args w) = 1 \<longleftrightarrow>
      (\<exists>a as. args = a # as \<and> a \<notin> {''interleave'', ''heavy_dup_real'', ''long_value'', ''asym_real'',
         ''many_records'', ''all''})) \<and>
   (fst (scenarios_main lib args w) = 1 \<longrightarrow> snd (scenarios_main lib args w) = w) \<and>
   map sc_name (select_scenarios lib ''all'') =
     [''interleave'', ''heavy_dup_real'', ''long_value'', ''asym_real'', ''many_records'']"
  by (auto simp: scenarios_main_def select_scenarios_def Let_def make_interleave_def make_heavy_dup_real_def
      make_long_value_def make_asym_real_def make_many_records_def split: list.splits)

theorem scenarios_main_dispatch_witness:
  "fst (scenarios_main le_lib [''nope''] ()) = 1 \<and> fst (scenarios_main le_lib [''long_value''] ()) \<noteq> 1"
  using scenarios_main_dispatch [of le_lib "[''nope'']" "()"] scenarios_main_dispatch [of le_lib "[''long_value'']" "()"]
  by simp

end
