(* ===== verification/Gen_Gb.thy ===== *)
theory Gen_Gb
  imports Gen_Keys
begin

text \<open>
  \<^verbatim>\<open>organized/sim/integration/gen_real_sstable_gb.cc\<close>: the stress generator with its command
  line. The sizes are C \<^verbatim>\<open>int\<close>s; products are taken without overflow (2^31 records are far
  outside what the program can write).
\<close>

section \<open>The command line\<close>

record gb_options =
  gb_blocks :: int
  gb_rpb :: int
  gb_vsize :: int
  gb_bsize :: int
  gb_outdir :: string

definition gb_defaults :: gb_options where
  "gb_defaults = \<lparr>gb_blocks = 200, gb_rpb = 20, gb_vsize = 48, gb_bsize = 1500, gb_outdir = ''fixtures_gb''\<rparr>"

text \<open>\<^verbatim>\<open>atoi\<close>: white space, a sign, digits; whatever follows is ignored.\<close>

definition is_digit :: "char \<Rightarrow> bool" where
  "is_digit c \<longleftrightarrow> (48 :: nat) \<le> of_char c \<and> (of_char c :: nat) \<le> 57"

definition is_space :: "char \<Rightarrow> bool" where
  "is_space c \<longleftrightarrow> (of_char c :: nat) = 32 \<or> (9 \<le> (of_char c :: nat) \<and> (of_char c :: nat) \<le> 13)"

definition digits_value :: "string \<Rightarrow> int" where
  "digits_value s = foldl (\<lambda>a c. 10 * a + (of_char c - 48)) 0 (takeWhile is_digit s)"

definition atoi :: "string \<Rightarrow> int" where
  "atoi s =
     (case dropWhile is_space s of
        [] \<Rightarrow> 0
      | c # cs \<Rightarrow>
          if c = CHR ''-'' then - digits_value cs
          else if c = CHR ''+'' then digits_value cs
          else digits_value (c # cs))"

text \<open>The argument loop; None is the exit of \<^verbatim>\<open>-h\<close>.\<close>

fun gb_args :: "gb_options \<Rightarrow> string list \<Rightarrow> gb_options option" where
  "gb_args opts [] = Some opts"
| "gb_args opts [a] = (if a = ''-h'' then None else Some opts)"
| "gb_args opts (a # v # rest) =
     (if a = ''--blocks'' then gb_args (opts\<lparr>gb_blocks := atoi v\<rparr>) rest
      else if a = ''--rpb'' then gb_args (opts\<lparr>gb_rpb := atoi v\<rparr>) rest
      else if a = ''--vsize'' then gb_args (opts\<lparr>gb_vsize := atoi v\<rparr>) rest
      else if a = ''--bsize'' then gb_args (opts\<lparr>gb_bsize := atoi v\<rparr>) rest
      else if a = ''--outdir'' then gb_args (opts\<lparr>gb_outdir := v\<rparr>) rest
      else if a = ''-h'' then None
      else gb_args opts (v # rest))"

section \<open>Records\<close>

text \<open>
  \<^verbatim>\<open>snprintf(&val[0], n, ...)\<close>: at most \<open>n - 1\<close> characters and the terminating NUL, nothing at
  all for \<open>n = 0\<close>.
\<close>

definition snprintf_into :: "string \<Rightarrow> nat \<Rightarrow> string \<Rightarrow> string" where
  "snprintf_into buf n s = (if n = 0 then buf else overwrite buf 0 (take (n - 1) s @ [CHR 0x00]))"

definition gb_value :: "nat \<Rightarrow> string \<Rightarrow> nat \<Rightarrow> string" where
  "gb_value value_size tag idx =
     (let val = replicate value_size (CHR ''V'')
      in snprintf_into val (min (length val) 16) (tag @ pad0 7 idx))"

definition gb_record :: "'w table_lib \<Rightarrow> nat \<Rightarrow> string \<Rightarrow> string \<Rightarrow> nat \<Rightarrow> kv" where
  "gb_record lib value_size prefix tag idx =
     mk_kv lib (prefix @ pad0 7 idx) (word_of_int (100000 - int idx)) (gb_value value_size tag idx)"

definition gb_blocks_of ::
  "'w table_lib \<Rightarrow> string \<Rightarrow> string \<Rightarrow> nat \<Rightarrow> nat \<Rightarrow> nat \<Rightarrow> kv list list" where
  "gb_blocks_of lib prefix tag n_blocks rpb value_size =
     map (\<lambda>b. map (\<lambda>r. gb_record lib value_size prefix tag (b * rpb + r)) [0..<rpb]) [0..<n_blocks]"

definition gb_src0 :: "'w table_lib \<Rightarrow> nat \<Rightarrow> nat \<Rightarrow> nat \<Rightarrow> kv list list" where
  "gb_src0 lib = gb_blocks_of lib ''a_'' ''s0v_''"

definition gb_src1 :: "'w table_lib \<Rightarrow> nat \<Rightarrow> nat \<Rightarrow> nat \<Rightarrow> kv list list" where
  "gb_src1 lib = gb_blocks_of lib ''b_'' ''s1v_''"

section \<open>The main program\<close>

definition gb_write_sstable ::
  "'w table_lib \<Rightarrow> string \<Rightarrow> kv list list \<Rightarrow> int \<Rightarrow> 'w \<Rightarrow> u64 \<times> 'w" where
  "gb_write_sstable lib path blocks block_size w =
     (let (ok, w1) = tl_new_file lib path w
      in if \<not> ok then (0, w1)
         else
           (let opts = \<lparr>opt_block_size = block_size, opt_restart_interval = 16\<rparr>;
                (ok2, w2) = tl_finish lib (add_blocks lib blocks (tl_builder lib opts w1))
            in if \<not> ok2 then (0, w2)
               else (tl_file_size lib w2, snd (tl_close lib w2))))"

definition signed_string :: "int \<Rightarrow> string" where
  "signed_string i = (if i < 0 then ''-'' @ decimal_string (nat (- i)) else decimal_string (nat i))"

definition gb_line :: "string \<Rightarrow> string \<Rightarrow> string" where
  "gb_line name val = name @ ''='' @ val @ [newline]"

definition gb_info_text :: "string \<Rightarrow> string \<Rightarrow> u64 \<Rightarrow> u64 \<Rightarrow> int \<Rightarrow> nat \<Rightarrow> nat \<Rightarrow> string" where
  "gb_info_text path0 path1 size0 size1 n_blocks total0 total1 = concat
     [gb_line ''src0_path'' path0, gb_line ''src1_path'' path1,
      gb_line ''src0_size'' (decimal_string (unat size0)),
      gb_line ''src1_size'' (decimal_string (unat size1)),
      gb_line ''n_blocks'' (signed_string n_blocks),
      gb_line ''src0_records'' (decimal_string total0),
      gb_line ''src1_records'' (decimal_string total1),
      gb_line ''expected_pairs'' (signed_string n_blocks),
      gb_line ''expected_decoded'' (decimal_string (total0 + total1)),
      gb_line ''expected_merged'' (decimal_string (total0 + total1)),
      gb_line ''expected_dropped'' ''0'']"

text \<open>None is the exception of \<^verbatim>\<open>std::string(value_size, 'V')\<close> for a negative size.\<close>

definition gb_main :: "'w table_lib \<Rightarrow> string list \<Rightarrow> 'w \<Rightarrow> (nat \<times> 'w) option" where
  "gb_main lib args w =
     (case gb_args gb_defaults args of
        None \<Rightarrow> Some (0, w)
      | Some opts \<Rightarrow>
          (let w0 = tl_system lib (''mkdir -p '' @ gb_outdir opts) w
           in if gb_vsize opts < 0 then None
              else
                (let nb = nat (gb_blocks opts); rpb = nat (gb_rpb opts); vs = nat (gb_vsize opts);
                     src0 = gb_src0 lib nb rpb vs; src1 = gb_src1 lib nb rpb vs;
                     path0 = gb_outdir opts @ ''/src0_gb.sst''; path1 = gb_outdir opts @ ''/src1_gb.sst'';
                     (size0, w1) = gb_write_sstable lib path0 src0 (gb_bsize opts) w0;
                     (size1, w2) = gb_write_sstable lib path1 src1 (gb_bsize opts) w1
                 in if size0 = 0 \<or> size1 = 0 then Some (1, w2)
                    else Some (0, tl_write_text lib (gb_outdir opts @ ''/gb_sstable_info.txt'')
                           (gb_info_text path0 path1 size0 size1 (gb_blocks opts)
                              (count_records src0) (count_records src1)) w2))))"

section \<open>What the generator promises\<close>

lemma concat_loops: "concat (map (\<lambda>b. map (\<lambda>r. f (b * n + r)) [0..<n]) [0..<m]) = map f [0..<m * n]"
proof (induction m)
  case 0
  then show ?case by simp
next
  case (Suc m)
  have "concat (map (\<lambda>b. map (\<lambda>r. f (b * n + r)) [0..<n]) [0..<Suc m]) =
      map f [0..<m * n] @ map (\<lambda>r. f (m * n + r)) [0..<n]"
    using Suc by simp
  also have "map (\<lambda>r. f (m * n + r)) [0..<n] = map f [m * n..<m * n + n]"
    by (rule nth_equalityI) simp_all
  also have "map f [0..<m * n] @ map f [m * n..<m * n + n] = map f [0..<m * n + n]"
    using upt_add_eq_append [of 0 "m * n" n] by simp
  finally show ?case by (simp add: add.commute)
qed

lemma concat_gb_blocks:
  "concat (gb_blocks_of lib p t m n v) = map (gb_record lib v p t) [0..<m * n]"
  by (simp add: gb_blocks_of_def concat_loops)

lemma gb_numbered: "numbered 7 p (gb_record lib v p t) lib"
  unfolding gb_record_def by (rule numbered_mk_kv)

lemma gb_keys_apart:
  "bytes_lt (kv_key (gb_record lib v ''a_'' t i)) (kv_key (gb_record lib v' ''b_'' t' j))"
  by (simp add: gb_record_def mk_kv_def make_internal_key_def bytes_of_def)

text \<open>
  Up to ten million records per source the stress generator produces one strictly increasing
  sequence, SRC0 before SRC1: each table can be built, the sources share no user key, and
  \<^verbatim>\<open>expected_merged\<close> = decoded with no drops is right. The number of records is blocks times
  records per block.
\<close>

theorem gb_sorted:
  assumes "m * n \<le> 10 ^ 7"
  shows "table_sorted (concat (gb_src0 lib m n v) @ concat (gb_src1 lib m n v)) \<and>
    count_records (gb_src0 lib m n v) = m * n \<and> count_records (gb_src1 lib m n v) = m * n"
proof -
  have "table_sorted (concat (gb_blocks_of lib p t m n v))" for p t
    unfolding concat_gb_blocks using gb_numbered
    by (rule numbered_sorted) (use assms in \<open>auto simp: sorted_wrt_upt\<close>)
  moreover have "\<forall>r0\<in>set (concat (gb_src0 lib m n v)). \<forall>r1\<in>set (concat (gb_src1 lib m n v)).
      bytes_lt (kv_key r0) (kv_key r1)"
    unfolding gb_src0_def gb_src1_def concat_gb_blocks using gb_keys_apart by auto
  ultimately show ?thesis
    by (auto simp: gb_src0_def gb_src1_def table_sorted_def sorted_wrt_append count_records_concat concat_gb_blocks)
qed

theorem gb_sorted_witness:
  "table_sorted (concat (gb_src0 le_lib 200 20 48) @ concat (gb_src1 le_lib 200 20 48)) \<and>
    count_records (gb_src0 le_lib 200 20 48) = 200 * 20 \<and> count_records (gb_src1 le_lib 200 20 48) = 200 * 20"
  by (rule gb_sorted) simp

text \<open>
  Beyond ten million records the seven-digit user keys no longer sort in the order in which they are
  generated (``a_10000000'' comes before ``a_9999999''), so the table cannot be built.
\<close>

theorem gb_unsorted_beyond_width:
  assumes "10 ^ 7 < m * n"
  shows "\<not> table_sorted (concat (gb_src0 lib m n v))"
proof
  assume "table_sorted (concat (gb_src0 lib m n v))"
  then have s: "sorted_wrt bytes_lt (map (\<lambda>i. kv_key (gb_record lib v ''a_'' ''s0v_'' i)) [0..<m * n])"
    by (simp add: table_sorted_def gb_src0_def concat_gb_blocks o_def)
  have "bytes_lt (kv_key (gb_record lib v ''a_'' ''s0v_'' 9999999)) (kv_key (gb_record lib v ''a_'' ''s0v_'' 10000000))"
    using sorted_wrt_nth_less [OF s, of 9999999 10000000] assms by simp
  moreover have "pad0 7 9999999 = ''9999999''" "pad0 7 10000000 = ''10000000''"
    by (simp_all add: pad0_def decimal_string.simps digit_char_def char_of_def bit_0 Let_def)
  ultimately show False
    by (simp add: gb_record_def mk_kv_def make_internal_key_def bytes_of_def)
qed

theorem gb_unsorted_beyond_width_witness:
  "\<not> table_sorted (concat (gb_src0 le_lib 500001 20 48))"
  by (rule gb_unsorted_beyond_width) simp

lemma key_seq_make_mod:
  assumes "fixed64_ok lib"
  shows "key_seq (make_internal_key lib uk sq) = unat sq mod 2 ^ 56"
proof -
  let ?x = "push_bit 8 sq OR ucast (tl_type_value lib) :: u64"
  have "drop_bit 8 ?x = take_bit 56 sq"
  proof (rule bit_word_eqI)
    fix n
    show "bit (drop_bit 8 ?x) n = bit (take_bit 56 sq) n"
      using bit_imp_le_length [of "tl_type_value lib" "8 + n"] by (auto simp: bit_simps)
  qed
  moreover have "unat (drop_bit 8 ?x) = unat ?x div 256" by (simp add: drop_bit_eq_div unat_div_distrib)
  moreover have "unat (take_bit 56 sq) = unat sq mod 2 ^ 56"
    by (simp add: take_bit_eq_mod unat_mod_distrib)
  ultimately show ?thesis using assms by (simp add: key_seq_def make_internal_key_def fixed64_ok_def)
qed

lemma unat_word_of_int_mod: "unat (word_of_int z :: u64) mod 2 ^ 56 = nat (z mod 2 ^ 56)"
proof -
  have "int (unat (word_of_int z :: u64) mod 2 ^ 56) = uint (word_of_int z :: u64) mod 2 ^ 56"
    by (simp add: zmod_int)
  also have "\<dots> = z mod 2 ^ 64 mod 2 ^ 56" by (simp add: uint_word_of_int_eq take_bit_eq_mod)
  also have "\<dots> = z mod 2 ^ 56" by (rule mod_mod_cancel) simp
  finally show ?thesis by simp
qed

text \<open>
  The sequence number of record \<open>i\<close> is 100000 - \<open>i\<close> as long as that is not negative. From record
  100001 on (5001 blocks of the default size are enough) the negative \<^verbatim>\<open>int\<close> wraps to 64 bits and
  the shift by 8 drops its top byte: the sequence numbers jump to the top of the 56-bit range.
\<close>

theorem gb_sequence_numbers:
  assumes "fixed64_ok lib" and "i < 2 ^ 31"
  shows "key_seq (kv_key (gb_record lib v p t i)) =
    (if i \<le> 100000 then 100000 - i else 2 ^ 56 + 100000 - i)"
proof -
  have "key_seq (kv_key (gb_record lib v p t i)) = nat ((100000 - int i) mod 2 ^ 56)"
    using assms(1) by (simp only: gb_record_def mk_kv_def kv.select_convs key_seq_make_mod unat_word_of_int_mod)
  moreover have "(100000 - int i) mod 2 ^ 56 = (if i \<le> 100000 then 100000 - int i else 2 ^ 56 + 100000 - int i)"
  proof (cases "i \<le> 100000")
    case True
    then show ?thesis by simp
  next
    case False
    have "(100000 - int i) mod 2 ^ 56 = (100000 - int i + 2 ^ 56) mod 2 ^ 56" by (simp only: mod_add_self2)
    also have "\<dots> = 100000 - int i + 2 ^ 56" using False assms(2) by (intro mod_pos_pos_trivial) simp_all
    finally show ?thesis using False by simp
  qed
  ultimately show ?thesis using assms(2) by auto
qed

theorem gb_sequence_numbers_witness:
  "key_seq (kv_key (gb_record le_lib 48 ''a_'' ''s0v_'' 100020)) =
    (if 100020 \<le> (100000 :: nat) then 100000 - 100020 else 2 ^ 56 + 100000 - 100020)"
  by (rule gb_sequence_numbers [OF le_lib_ok]) simp

text \<open>
  Every value has exactly the requested size; when that is at least 16, it holds the text
  \<^verbatim>\<open>s0v_NNNNNNN\<close> with the record's number, a NUL, and the filler.
\<close>

theorem gb_value_shape:
  assumes "idx < 10 ^ 7" and "16 \<le> n" and "length tag = 4"
  shows "length (gb_value n tag idx) = n \<and>
    gb_value n tag idx = tag @ pad0 7 idx @ [CHR 0x00] @ replicate (n - 12) (CHR ''V'')"
  using assms by (auto simp: gb_value_def snprintf_into_def Let_def overwrite_def length_pad0)

theorem gb_value_shape_witness:
  "length (gb_value 48 ''s0v_'' 1234) = 48 \<and>
    gb_value 48 ''s0v_'' 1234 = ''s0v_'' @ pad0 7 1234 @ [CHR 0x00] @ replicate (48 - 12) (CHR ''V'')"
  by (rule gb_value_shape) simp_all

end
