(* ===== verification/Sstable_Block.thy ===== *)
theory Sstable_Block
  imports Offload_Prelude
begin

text \<open>
  The block format of the SSTables the card reads and writes, as the fixture builder of
  \<^verbatim>\<open>driver/test_board_integration.cc\<close> produces it: variable-length integers, prefix-compressed
  entries with restart points, and reference decoders with their round trips.
\<close>

section \<open>Variable-length integers\<close>

lemma unat_drop7: "unat (drop_bit 7 (v :: u64)) = unat v div 128"
  by (simp add: drop_bit_eq_div unat_div_distrib)

function varint :: "u64 \<Rightarrow> byte list" where
  "varint v =
     (let b = ucast (v AND 0x7F); v' = drop_bit 7 v
      in if v' \<noteq> 0 then (b OR 0x80) # varint v' else [b])"
  by pat_completeness auto

termination
proof (relation "measure unat")
  fix v b v'
  assume "(v' :: u64) = drop_bit 7 v" and "v' \<noteq> 0"
  then have "0 < unat v div 128" by (metis unat_drop7 unat_gt_0)
  then show "(v', v) \<in> measure unat" by (simp add: \<open>v' = _\<close> unat_drop7)
qed simp

declare varint.simps [simp del]

fun decode_varint :: "byte list \<Rightarrow> (nat \<times> byte list) option" where
  "decode_varint [] = None"
| "decode_varint (b # bs) =
     (if b < 0x80 then Some (unat b, bs)
      else (case decode_varint bs of
              None \<Rightarrow> None
            | Some (n, rest) \<Rightarrow> Some (unat b - 128 + 128 * n, rest)))"

lemma low7: "unat (ucast (v AND 0x7F) :: byte) = unat (v :: u64) mod 128"
proof -
  have "v AND 0x7F = take_bit 7 v" by (simp add: take_bit_eq_mask mask_eq_exp_minus_1)
  then have "unat (v AND 0x7F) = unat v mod 128" by (simp add: take_bit_eq_mod unat_mod_distrib)
  then show ?thesis by (simp add: unsigned_ucast_eq take_bit_eq_mod mod_mod_cancel)
qed

lemma high_bit:
  fixes b :: byte
  assumes "unat b < 128"
  shows "unat (b OR 0x80) = unat b + 128"
proof -
  have "b AND 0x80 = 0"
  proof -
    have "b = take_bit 7 b" using assms
      by (simp add: word_unat_eq_iff take_bit_eq_mod unat_mod_distrib)
    then have "\<not> bit b 7" by (metis bit_take_bit_iff less_irrefl)
    then show ?thesis using and_exp_eq_0_iff_not_bit [of b 7] by simp
  qed
  then have "b OR 0x80 = b + 0x80" by (simp add: disjunctive_add_eq_or)
  then show ?thesis using assms by (simp add: unat_word_ariths)
qed

lemma decode_varint_varint: "decode_varint (varint v @ rest) = Some (unat v, rest)"
proof (induction v rule: varint.induct)
  case (1 v)
  let ?b = "ucast (v AND 0x7F) :: byte"
  have b: "unat ?b = unat v mod 128" by (rule low7)
  then have lt: "unat ?b < 128" by simp
  show ?case
  proof (cases "drop_bit 7 v = 0")
    case True
    then have "unat v div 128 = 0" by (metis unat_drop7 unat_0)
    then have "unat v < 128" by simp
    then show ?thesis using True b lt by (subst varint.simps) (simp add: word_less_nat_alt)
  next
    case False
    have hb: "unat (?b OR 0x80) = unat ?b + 128" using lt by (rule high_bit)
    then have "\<not> ?b OR 0x80 < 0x80" by (simp add: word_less_nat_alt)
    moreover have "decode_varint (varint (drop_bit 7 v) @ rest) = Some (unat v div 128, rest)"
      using 1 False by (simp add: unat_drop7)
    ultimately show ?thesis using False hb b
      by (subst varint.simps) (simp add: Let_def)
  qed
qed

lemma varint_nonempty [simp]: "varint v \<noteq> []"
  by (subst varint.simps) (simp add: Let_def)

lemma length_varint: "unat v < 128 ^ k \<Longrightarrow> 0 < k \<Longrightarrow> length (varint v) \<le> k"
proof (induction v arbitrary: k rule: varint.induct)
  case (1 v)
  obtain j where k: "k = Suc j" using 1(3) by (cases k) auto
  show ?case
  proof (cases "drop_bit 7 v = 0")
    case True
    then show ?thesis using k by (subst varint.simps) (simp add: Let_def)
  next
    case False
    have lt: "unat (drop_bit 7 v) < 128 ^ j" using 1(2) k by (simp add: unat_drop7 less_mult_imp_div_less ac_simps)
    have "0 < unat (drop_bit 7 v)" using False by (simp only: unat_gt_0) simp
    then have "0 < j" using lt by (cases j) auto
    with lt have "length (varint (drop_bit 7 v)) \<le> j" using 1(1) False by simp
    then show ?thesis using False k by (subst varint.simps) (simp add: Let_def)
  qed
qed

lemma length_varint_le_10: "length (varint v) \<le> 10"
proof -
  have "unat v < 2 ^ 64" using unat_below_exp [of v] by simp
  also have "(2 :: nat) ^ 64 \<le> 128 ^ 10" by simp
  finally show ?thesis by (intro length_varint) simp_all
qed

section \<open>Blocks\<close>

type_synonym entry = "byte list \<times> byte list"

text \<open>The \<^verbatim>\<open>while\<close> loop that counts the shared prefix.\<close>

fun shared_len :: "byte list \<Rightarrow> byte list \<Rightarrow> nat" where
  "shared_len (p # ps) (k # ks) = (if p = k then Suc (shared_len ps ks) else 0)"
| "shared_len _ _ = 0"

text \<open>The entry loop: index, previous key, the output so far and the restart offsets.\<close>

fun encode_entries ::
  "nat \<Rightarrow> nat \<Rightarrow> byte list \<Rightarrow> entry list \<Rightarrow> byte list \<Rightarrow> u32 list \<Rightarrow> byte list \<times> u32 list" where
  "encode_entries ri idx prev [] buf restarts = (buf, restarts)"
| "encode_entries ri idx prev ((k, v) # recs) buf restarts =
     (let (shared, restarts') =
            (if idx mod ri = 0 then (0, restarts @ [of_nat (length buf)])
             else (shared_len prev k, restarts))
      in encode_entries ri (Suc idx) k recs
           (buf @ varint (of_nat shared) @ varint (of_nat (length k - shared)) @ varint (of_nat (length v)) @
            drop shared k @ v)
           restarts')"

definition encode_block :: "entry list \<Rightarrow> nat \<Rightarrow> byte list" where
  "encode_block recs ri =
     (if recs = [] then [0, 0, 0, 0]
      else (let (buf, restarts) = encode_entries ri 0 [] recs [] []
            in buf @ concat (map le32 restarts) @ le32 (of_nat (length restarts))))"

text \<open>
  The reference decoder: the entries up to the restart array, whose length is the last word.
  \<open>n\<close> bounds the number of entries.
\<close>

fun decode_entries :: "nat \<Rightarrow> byte list \<Rightarrow> byte list \<Rightarrow> entry list option" where
  "decode_entries n prev [] = Some []"
| "decode_entries 0 prev (b # bs) = None"
| "decode_entries (Suc n) prev (b # bs) =
     (case decode_varint (b # bs) of
        None \<Rightarrow> None
      | Some (shared, r1) \<Rightarrow>
          (case decode_varint r1 of
             None \<Rightarrow> None
           | Some (rest, r2) \<Rightarrow>
               (case decode_varint r2 of
                  None \<Rightarrow> None
                | Some (vlen, r3) \<Rightarrow>
                    if length prev < shared \<or> length r3 < rest + vlen then None
                    else
                      (let k = take shared prev @ take rest r3; v = take vlen (drop rest r3)
                       in map_option (\<lambda>es. (k, v) # es) (decode_entries n k (drop (rest + vlen) r3))))))"

definition decode_block :: "byte list \<Rightarrow> entry list option" where
  "decode_block raw =
     (let n = length raw in
      if n < 4 then None
      else
        (let cnt = le_nat (drop (n - 4) raw) in
         if n < 4 * cnt + 4 then None
         else decode_entries n [] (take (n - 4 - 4 * cnt) raw)))"

section \<open>Round trip of a block\<close>

definition entry_shared :: "nat \<Rightarrow> nat \<Rightarrow> byte list \<Rightarrow> byte list \<Rightarrow> nat" where
  "entry_shared ri idx prev k = (if idx mod ri = 0 then 0 else shared_len prev k)"

definition entry_bytes :: "nat \<Rightarrow> entry \<Rightarrow> byte list" where
  "entry_bytes shared e =
     varint (of_nat shared) @ varint (of_nat (length (fst e) - shared)) @ varint (of_nat (length (snd e))) @
     drop shared (fst e) @ snd e"

fun entries_bytes :: "nat \<Rightarrow> nat \<Rightarrow> byte list \<Rightarrow> entry list \<Rightarrow> byte list" where
  "entries_bytes ri idx prev [] = []"
| "entries_bytes ri idx prev (e # es) =
     entry_bytes (entry_shared ri idx prev (fst e)) e @ entries_bytes ri (Suc idx) (fst e) es"

lemma encode_entries_fst:
  "fst (encode_entries ri idx prev recs buf rs) = buf @ entries_bytes ri idx prev recs"
proof (induction recs arbitrary: idx prev buf rs)
  case Nil
  then show ?case by simp
next
  case (Cons e es)
  obtain k v where "e = (k, v)" by fastforce
  then show ?case by (cases "idx mod ri = 0") (simp_all add: Cons entry_bytes_def entry_shared_def)
qed

lemma encode_entries_snd:
  "length (snd (encode_entries ri idx prev recs buf rs)) \<le> length rs + length recs"
proof (induction recs arbitrary: idx prev buf rs)
  case Nil
  then show ?case by simp
next
  case (Cons e es)
  obtain k v where e: "e = (k, v)" by fastforce
  have "length (snd (encode_entries ri (Suc idx) k es b rs')) \<le> length rs' + length es" for b rs'
    by (rule Cons.IH)
  note this [THEN le_trans]
  then show ?case by (cases "idx mod ri = 0") (simp_all add: e)
qed

lemma shared_len_le: "shared_len p k \<le> length p" "shared_len p k \<le> length k"
  by (induction p k rule: shared_len.induct) auto

lemma shared_len_take: "take (shared_len p k) p = take (shared_len p k) k"
  by (induction p k rule: shared_len.induct) auto

lemma decode_entry:
  assumes "shared \<le> length prev" and "take shared prev = take shared k" and "shared \<le> length k"
    and "length k < 2 ^ 64" and "length v < 2 ^ 64"
  shows "decode_entries (Suc n) prev (entry_bytes shared (k, v) @ rest) =
    map_option (\<lambda>es. (k, v) # es) (decode_entries n k rest)"
proof -
  have u: "unat (of_nat shared :: u64) = shared" "unat (of_nat (length k - shared) :: u64) = length k - shared"
    "unat (of_nat (length v) :: u64) = length v"
    by (rule unat_of_nat64, use assms in simp)+
  let ?r3 = "drop shared k @ v @ rest"
  let ?r2 = "varint (of_nat (length v)) @ ?r3"
  let ?r1 = "varint (of_nat (length k - shared)) @ ?r2"
  have bytes: "entry_bytes shared (k, v) @ rest = varint (of_nat shared) @ ?r1"
    by (simp add: entry_bytes_def)
  have d0: "decode_varint (varint (of_nat shared) @ ?r1) = Some (shared, ?r1)"
    by (simp only: decode_varint_varint u)
  have d1: "decode_varint ?r1 = Some (length k - shared, ?r2)" by (simp only: decode_varint_varint u)
  have d2: "decode_varint ?r2 = Some (length v, ?r3)" by (simp only: decode_varint_varint u)
  obtain b bs where cons: "varint (of_nat shared) @ ?r1 = b # bs"
    by (metis varint_nonempty append_is_Nil_conv neq_Nil_conv)
  have key: "take shared prev @ take (length k - shared) ?r3 = k" using assms(2,3) by simp
  have val: "take (length v) (drop (length k - shared) ?r3) = v" by simp
  have rst: "drop (length k - shared + length v) ?r3 = rest" by simp
  have fits: "(length prev < shared \<or> length ?r3 < length k - shared + length v) = False" using assms(1) by simp
  show ?thesis unfolding bytes cons
    by (simp only: decode_entries.simps d0 [unfolded cons] option.case prod.case d1 d2 Let_def fits if_False
        key val rst)
qed

definition entries_small :: "entry list \<Rightarrow> bool" where
  "entries_small es \<longleftrightarrow> (\<forall>e\<in>set es. length (fst e) < 2 ^ 64 \<and> length (snd e) < 2 ^ 64)"

lemma decode_entries_bytes:
  assumes "entries_small recs" and "length recs \<le> n"
  shows "decode_entries n prev (entries_bytes ri idx prev recs) = Some recs"
  using assms
proof (induction recs arbitrary: n idx prev)
  case Nil
  then show ?case by simp
next
  case (Cons e es)
  obtain k v where e: "e = (k, v)" by fastforce
  obtain m where n: "n = Suc m" using Cons.prems(2) by (cases n) auto
  let ?s = "entry_shared ri idx prev k"
  have s: "?s \<le> length prev" "take ?s prev = take ?s k" "?s \<le> length k"
    by (simp_all add: entry_shared_def shared_len_le shared_len_take)
  have small: "length k < 2 ^ 64" "length v < 2 ^ 64" using Cons.prems(1) by (simp_all add: entries_small_def e)
  have "decode_entries m k (entries_bytes ri (Suc idx) k es) = Some es"
    using Cons.IH [of m k "Suc idx"] Cons.prems n by (simp add: entries_small_def)
  then show ?case using decode_entry [OF s small] by (simp add: e n)
qed

lemma length_entry_bytes: "3 \<le> length (entry_bytes s e)"
proof -
  have "1 \<le> length (varint x)" for x by (simp add: Suc_leI)
  then show ?thesis unfolding entry_bytes_def length_append
    by (smt (verit) add_mono numeral_3_eq_3 One_nat_def add_Suc le_add1 order_trans plus_1_eq_Suc add_0)
qed

lemma length_entries_bytes: "length recs \<le> length (entries_bytes ri idx prev recs)"
proof (induction recs arbitrary: idx prev)
  case Nil
  then show ?case by simp
next
  case (Cons e es)
  have "1 + length es \<le> length (entry_bytes (entry_shared ri idx prev (fst e)) e) +
      length (entries_bytes ri (Suc idx) (fst e) es)"
    using length_entry_bytes [of "entry_shared ri idx prev (fst e)" e] Cons [of "Suc idx" "fst e"] by linarith
  then show ?case by simp
qed

lemma length_concat_le32 [simp]: "length (concat (map le32 rs)) = 4 * length rs"
  by (induction rs) auto

lemma decode_encode_block:
  assumes "entries_small recs" and "length recs < 2 ^ 32"
  shows "decode_block (encode_block recs ri) = Some recs"
proof (cases "recs = []")
  case True
  then show ?thesis by (simp add: encode_block_def decode_block_def Let_def)
next
  case False
  obtain buf rs where enc: "encode_entries ri 0 [] recs [] [] = (buf, rs)" by fastforce
  have buf: "buf = entries_bytes ri 0 [] recs" using encode_entries_fst [of ri 0 "[]" recs "[]" "[]"] enc by simp
  have "length rs \<le> length recs" using encode_entries_snd [of ri 0 "[]" recs "[]" "[]"] enc by simp
  then have u: "unat (of_nat (length rs) :: u32) = length rs" using assms(2) by (simp add: unat_of_nat)
  let ?raw = "buf @ concat (map le32 rs) @ le32 (of_nat (length rs))"
  have raw: "encode_block recs ri = ?raw" using False enc by (simp add: encode_block_def)
  have len: "length ?raw = length buf + 4 * length rs + 4" by simp
  have "drop (length ?raw - 4) ?raw = le32 (of_nat (length rs))" by simp
  then have cnt: "le_nat (drop (length ?raw - 4) ?raw) = length rs" by (simp only: le_nat_le32 u)
  have "take (length ?raw - 4 - 4 * length rs) ?raw = buf" by simp
  moreover have "decode_entries (length ?raw) [] buf = Some recs"
    unfolding buf using length_entries_bytes [of recs ri 0 "[]"]
    by (intro decode_entries_bytes assms(1)) simp
  ultimately show ?thesis unfolding raw decode_block_def Let_def cnt using len by simp
qed

section \<open>Restart points\<close>

lemma entries_bytes_split:
  "entries_bytes ri idx prev (xs @ ys) =
     entries_bytes ri idx prev xs @ entries_bytes ri (idx + length xs) (last (prev # map fst xs)) ys"
  by (induction xs arbitrary: idx prev) simp_all

lemma entries_bytes_restart:
  "idx mod ri = 0 \<Longrightarrow> entries_bytes ri idx prev es = entries_bytes ri idx prev' es"
  by (cases es) (simp_all add: entry_shared_def)

lemma encode_restarts:
  assumes "r \<in> set (snd (encode_entries ri idx prev recs buf rs))"
  shows "r \<in> set rs \<or> (\<exists>j<length recs. (idx + j) mod ri = 0 \<and>
    r = of_nat (length buf + length (entries_bytes ri idx prev (take j recs))))"
  using assms
proof (induction recs arbitrary: idx prev buf rs)
  case Nil
  then show ?case by simp
next
  case (Cons e es)
  obtain k v where e: "e = (k, v)" by fastforce
  let ?s = "entry_shared ri idx prev k"
  let ?rs = "if idx mod ri = 0 then rs @ [of_nat (length buf)] else rs"
  have step: "encode_entries ri idx prev (e # es) buf rs =
      encode_entries ri (Suc idx) k es (buf @ entry_bytes ?s (k, v)) ?rs"
    by (cases "idx mod ri = 0") (simp_all add: e entry_shared_def entry_bytes_def)
  from Cons.prems have "r \<in> set (snd (encode_entries ri (Suc idx) k es (buf @ entry_bytes ?s (k, v)) ?rs))"
    by (simp only: step)
  from Cons.IH [OF this] show ?case
  proof (elim disjE exE conjE)
    assume "r \<in> set ?rs"
    then have "r \<in> set rs \<or> idx mod ri = 0 \<and> r = of_nat (length buf)" by (auto split: if_splits)
    then show ?case
    proof
      assume "idx mod ri = 0 \<and> r = of_nat (length buf)"
      then show ?case by (intro disjI2 exI [of _ 0]) simp
    qed simp
  next
    fix j
    assume "j < length es" and "(Suc idx + j) mod ri = 0"
      and "r = of_nat (length (buf @ entry_bytes ?s (k, v)) + length (entries_bytes ri (Suc idx) k (take j es)))"
    then show ?case by (intro disjI2 exI [of _ "Suc j"]) (simp add: e add.assoc)
  qed
qed

text \<open>
  Every restart offset of a block is the position of an entry whose key is stored in full: decoding
  from there, with no previous key, yields the remaining entries.
\<close>

theorem restart_points:
  assumes "encode_entries ri 0 [] recs [] [] = (buf, restarts)" and "entries_small recs"
    and "length buf < 2 ^ 32" and "r \<in> set restarts"
  shows "\<exists>j<length recs. j mod ri = 0 \<and>
    decode_entries (length recs) [] (drop (unat r) buf) = Some (drop j recs)"
proof -
  have buf: "buf = entries_bytes ri 0 [] recs"
    using encode_entries_fst [of ri 0 "[]" recs "[]" "[]"] assms(1) by simp
  obtain j where j: "j < length recs" "j mod ri = 0"
    and r: "r = of_nat (length (entries_bytes ri 0 [] (take j recs)))"
    using encode_restarts [of r ri 0 "[]" recs "[]" "[]"] assms(1,4) by auto
  let ?p = "entries_bytes ri 0 [] (take j recs)"
  let ?q = "entries_bytes ri j [] (drop j recs)"
  have "buf = ?p @ ?q"
    using entries_bytes_split [of ri 0 "[]" "take j recs" "drop j recs"] j entries_bytes_restart [OF j(2)]
    by (simp add: buf min_absorb2 less_imp_le)
  moreover from this have "unat r = length ?p" using assms(3) by (simp add: r unat_of_nat)
  moreover have "entries_small (drop j recs)"
    using assms(2) by (auto simp: entries_small_def dest: in_set_dropD)
  then have "decode_entries (length recs) [] ?q = Some (drop j recs)"
    by (intro decode_entries_bytes) auto
  ultimately show ?thesis using j by auto
qed

theorem restart_points_witness:
  "\<exists>j<length [([1, 2, 3 :: byte], [9 :: byte]), ([1, 2, 4], [8]), ([1, 3], [7])]. j mod 2 = 0 \<and>
    decode_entries (length [([1, 2, 3 :: byte], [9 :: byte]), ([1, 2, 4], [8]), ([1, 3], [7])]) [] (drop (unat (12 :: u32)) [0, 3, 1, 1, 2, 3, 9, 2, 1, 1, 4, 8, 0, 2, 1, 1, 3, 7]) =
      Some (drop j [([1, 2, 3], [9]), ([1, 2, 4], [8]), ([1, 3], [7])])"
proof -
  let ?recs = "[([1, 2, 3 :: byte], [9 :: byte]), ([1, 2, 4], [8]), ([1, 3], [7])]"
  have enc: "encode_entries 2 0 [] ?recs [] [] = ([0, 3, 1, 1, 2, 3, 9, 2, 1, 1, 4, 8, 0, 2, 1, 1, 3, 7], [0, 12])"
    by (simp add: varint.simps Let_def)
  show ?thesis by (rule restart_points [OF enc]) (simp_all add: entries_small_def)
qed

text \<open>
  Decoding an encoded block gives back its entries, for every restart interval: prefix
  compression and restart points lose nothing.
\<close>

theorem block_round_trip:
  assumes "entries_small recs" and "length recs < 2 ^ 32"
  shows "decode_block (encode_block recs ri) = Some recs"
  using assms by (rule decode_encode_block)

theorem block_round_trip_witness:
  "decode_block (encode_block [([1, 2, 3 :: byte], [9]), ([1, 2, 4], [8]), ([1, 3], [7])] 2) =
    Some [([1, 2, 3], [9]), ([1, 2, 4], [8]), ([1, 3], [7])]"
  by (rule block_round_trip) (simp_all add: entries_small_def)

end
