(* ===== verification/Sstable_Table.thy ===== *)
theory Sstable_Table
  imports Sstable_Block "HOL-Library.List_Lexorder" "HOL-Library.Product_Lexorder"
begin

text \<open>
  The SSTable layout of the fixture builder in \<^verbatim>\<open>driver/test_board_integration.cc\<close>: data blocks with
  their trailers, the sorted index block, the empty metaindex block and the 48-byte footer; and
  a reference reader.
\<close>

section \<open>Building\<close>

definition block_handle :: "nat \<Rightarrow> nat \<Rightarrow> byte list" where
  "block_handle off sz = varint (of_nat off) @ varint (of_nat sz)"

definition block_with_trailer :: "byte list \<Rightarrow> byte list" where
  "block_with_trailer d = d @ [0] @ [0, 0, 0, 0]"

text \<open>The loop over the data blocks: the file so far and the handles.\<close>

fun place_blocks ::
  "nat \<Rightarrow> entry list list \<Rightarrow> byte list \<Rightarrow> (nat \<times> nat) list \<Rightarrow> byte list \<times> (nat \<times> nat) list" where
  "place_blocks ri [] buf offs = (buf, offs)"
| "place_blocks ri (recs # blocks) buf offs =
     (let raw = encode_block recs ri
      in place_blocks ri blocks (buf @ block_with_trailer raw) (offs @ [(length buf, length raw)]))"

definition last_key :: "entry list \<Rightarrow> byte list" where
  "last_key recs = fold (\<lambda>r l. if l < fst r then fst r else l) recs []"

definition table_magic :: u64 where "table_magic = 0xdb4775248b80fb57"

text \<open>
  The two board tests have the same builder up to the magic number they put into the footer.
\<close>

definition build_table :: "u64 \<Rightarrow> entry list list \<Rightarrow> nat \<Rightarrow> byte list" where
  "build_table magic blocks ri =
     (let (buf, offs) = place_blocks ri blocks [] [];
          idx_entries = map2 (\<lambda>recs (off, sz). (last_key recs, block_handle off sz)) blocks offs;
          idx_raw = encode_block (sort idx_entries) 1;
          idx_off = length buf;
          buf1 = buf @ block_with_trailer idx_raw;
          meta_raw = encode_block [] 1;
          meta_off = length buf1;
          buf2 = buf1 @ block_with_trailer meta_raw;
          header = block_handle meta_off (length meta_raw) @ block_handle idx_off (length idx_raw);
          header1 = header @ replicate (40 - length header) 0
      in buf2 @ header1 @ le64 magic)"

definition build_sstable :: "entry list list \<Rightarrow> nat \<Rightarrow> byte list" where
  "build_sstable = build_table table_magic"

section \<open>Reading\<close>

definition read_handle :: "byte list \<Rightarrow> ((nat \<times> nat) \<times> byte list) option" where
  "read_handle bs =
     (case decode_varint bs of
        None \<Rightarrow> None
      | Some (off, r) \<Rightarrow> map_option (\<lambda>(sz, r'). ((off, sz), r')) (decode_varint r))"

definition read_block :: "byte list \<Rightarrow> nat \<times> nat \<Rightarrow> entry list option" where
  "read_block bytes h =
     (if fst h + snd h \<le> length bytes then decode_block (take (snd h) (drop (fst h) bytes)) else None)"

fun read_blocks :: "byte list \<Rightarrow> entry list \<Rightarrow> entry list list option" where
  "read_blocks bytes [] = Some []"
| "read_blocks bytes ((k, h) # es) =
     (case read_handle h of
        None \<Rightarrow> None
      | Some (bh, _) \<Rightarrow>
          (case read_block bytes bh of
             None \<Rightarrow> None
           | Some b \<Rightarrow> map_option (\<lambda>bs. b # bs) (read_blocks bytes es)))"

definition read_table :: "byte list \<Rightarrow> entry list list option" where
  "read_table bytes =
     (if length bytes < 48 then None
      else
        (let footer = drop (length bytes - 48) bytes
         in if drop 40 footer \<noteq> le64 table_magic then None
            else
              (case read_handle footer of
                 None \<Rightarrow> None
               | Some (_, r) \<Rightarrow>
                   (case read_handle r of
                      None \<Rightarrow> None
                    | Some (h, _) \<Rightarrow>
                        (case read_block bytes h of
                           None \<Rightarrow> None
                         | Some es \<Rightarrow> read_blocks bytes es)))))"

section \<open>The parts of a table\<close>

lemma read_handle_block_handle:
  assumes "off < 2 ^ 64" and "sz < 2 ^ 64"
  shows "read_handle (block_handle off sz @ rest) = Some ((off, sz), rest)"
  using assms by (simp add: read_handle_def block_handle_def decode_varint_varint unat_of_nat64)

lemma length_block_handle: "length (block_handle off sz) \<le> 20"
  using length_varint_le_10 [of "of_nat off"] length_varint_le_10 [of "of_nat sz"]
  by (simp add: block_handle_def)

definition framed :: "nat \<Rightarrow> entry list list \<Rightarrow> byte list" where
  "framed ri blocks = concat (map (\<lambda>r. block_with_trailer (encode_block r ri)) blocks)"

fun handles :: "nat \<Rightarrow> nat \<Rightarrow> entry list list \<Rightarrow> (nat \<times> nat) list" where
  "handles ri pos [] = []"
| "handles ri pos (r # rs) =
     (pos, length (encode_block r ri)) # handles ri (pos + length (encode_block r ri) + 5) rs"

lemma length_trailer [simp]: "length (block_with_trailer d) = length d + 5"
  by (simp add: block_with_trailer_def)

lemma place_blocks_eq:
  "place_blocks ri blocks buf offs = (buf @ framed ri blocks, offs @ handles ri (length buf) blocks)"
  by (induction blocks arbitrary: buf offs) (simp_all add: framed_def Let_def add.assoc)

lemma length_handles [simp]: "length (handles ri pos blocks) = length blocks"
  by (induction blocks arbitrary: pos) simp_all

definition index_entries :: "nat \<Rightarrow> entry list list \<Rightarrow> entry list" where
  "index_entries ri blocks =
     map2 (\<lambda>recs (off, sz). (last_key recs, block_handle off sz)) blocks (handles ri 0 blocks)"

definition footer_of :: "u64 \<Rightarrow> nat \<Rightarrow> nat \<Rightarrow> byte list" where
  "footer_of magic idx_off idx_sz =
     (let header = block_handle (idx_off + idx_sz + 5) 4 @ block_handle idx_off idx_sz
      in header @ replicate (40 - length header) 0 @ le64 magic)"

lemma build_table_parts:
  "build_table magic blocks ri =
     (let idx = encode_block (sort (index_entries ri blocks)) 1
      in framed ri blocks @ block_with_trailer idx @ block_with_trailer [0, 0, 0, 0] @
         footer_of magic (length (framed ri blocks)) (length idx))"
proof -
  define idx where "idx = encode_block (sort (index_entries ri blocks)) 1"
  have meta: "encode_block [] 1 = [0, 0, 0, 0]" by (simp add: encode_block_def)
  have four: "length [0, 0, 0, 0 :: byte] = 4" by simp
  have idx': "encode_block (sort (map2 (\<lambda>recs (off, sz). (last_key recs, block_handle off sz)) blocks
      (handles ri 0 blocks))) 1 = idx"
    by (simp only: idx_def index_entries_def)
  show ?thesis
    unfolding build_table_def place_blocks_eq Let_def prod.case append_Nil list.size(3) idx' idx_def [symmetric] meta four
    by (simp add: footer_of_def Let_def add.assoc)
qed

lemmas build_sstable_parts = build_table_parts [of table_magic, folded build_sstable_def]

lemma length_footer: "length (footer_of magic off sz) = 48"
  using length_block_handle [of "off + sz + 5" 4] length_block_handle [of off sz]
  by (simp add: footer_of_def Let_def)

end
