(* ===== verification/Sstable_Roundtrip.thy ===== *)
theory Sstable_Roundtrip
  imports Sstable_Table Offload_Safety
begin

text \<open>
  Properties of the tables that the fixture builder of \<^verbatim>\<open>driver/test_board_integration.cc\<close>
  makes: the footer, what the host-side \<^verbatim>\<open>FindSStableEnd\<close> finds in them, and the round trip:
  a reader that starts from the footer, walks the index block and decodes every data block
  gets the records back.
\<close>

section \<open>The footer\<close>

lemma table_magic_bytes: "le64 table_magic = kMagic"
proof -
  have e: "(8 :: nat) = Suc (Suc (Suc (Suc (Suc (Suc (Suc (Suc 0)))))))" by simp
  show ?thesis unfolding le64_def e le_bytes.simps by (simp add: table_magic_def kMagic_def)
qed

lemma table_ends_in_magic: "\<exists>body. build_sstable blocks ri = body @ kMagic"
  by (simp add: build_sstable_parts Let_def footer_of_def table_magic_bytes flip: append_assoc)

lemma find_end_table:
  "find_sstable_end (build_sstable blocks ri) (length (build_sstable blocks ri)) = length (build_sstable blocks ri)"
  using table_ends_in_magic [of blocks ri] find_sstable_end_append_magic by metis

text \<open>
  Every table ends in a 48-byte footer (the \<^verbatim>\<open>assert\<close> of the builder never fires), and
  \<^verbatim>\<open>FindSStableEnd\<close> on the table returns its length.
\<close>

theorem table_footer:
  "\<exists>body. build_sstable blocks ri = body @ footer_of table_magic (length (framed ri blocks))
      (length (encode_block (sort (index_entries ri blocks)) 1)) \<and>
    length (footer_of table_magic (length (framed ri blocks)) (length (encode_block (sort (index_entries ri blocks)) 1))) = 48 \<and>
    find_sstable_end (build_sstable blocks ri) (length (build_sstable blocks ri)) = length (build_sstable blocks ri)"
proof -
  let ?idx = "encode_block (sort (index_entries ri blocks)) 1"
  let ?f = "footer_of table_magic (length (framed ri blocks)) (length ?idx)"
  have parts: "build_sstable blocks ri = (framed ri blocks @ block_with_trailer ?idx @ block_with_trailer [0, 0, 0, 0]) @ ?f"
    by (simp add: build_sstable_parts Let_def)
  then show ?thesis using length_footer find_end_table by blast
qed

section \<open>Round trip of a table\<close>

lemma read_block_at:
  assumes "bytes = pre @ raw @ rest"
  shows "read_block bytes (length pre, length raw) = decode_block raw"
  using assms by (simp add: read_block_def)

definition blocks_small :: "entry list list \<Rightarrow> bool" where
  "blocks_small blocks \<longleftrightarrow> (\<forall>b\<in>set blocks. entries_small b \<and> length b < 2 ^ 32)"

lemma read_blocks_index:
  assumes "blocks_small blocks" and "bytes = pre @ framed ri blocks @ rest" and "length bytes < 2 ^ 64"
  shows "read_blocks bytes (map2 (\<lambda>recs (off, sz). (last_key recs, block_handle off sz)) blocks
    (handles ri (length pre) blocks)) = Some blocks"
  using assms
proof (induction blocks arbitrary: pre)
  case Nil
  then show ?case by simp
next
  case (Cons b bs)
  let ?raw = "encode_block b ri"
  have bytes: "bytes = pre @ ?raw @ ([0] @ [0, 0, 0, 0] @ framed ri bs @ rest)"
    and bytes': "bytes = (pre @ block_with_trailer ?raw) @ framed ri bs @ rest"
    using Cons.prems(2) by (simp_all add: framed_def block_with_trailer_def)
  have "length pre < 2 ^ 64" "length ?raw < 2 ^ 64" using Cons.prems(3) by (simp_all add: bytes)
  then have h: "read_handle (block_handle (length pre) (length ?raw)) = Some ((length pre, length ?raw), [])"
    using read_handle_block_handle [of "length pre" "length ?raw" "[]"] by simp
  have "decode_block ?raw = Some b"
    using Cons.prems(1) by (intro decode_encode_block) (simp_all add: blocks_small_def)
  then have r: "read_block bytes (length pre, length ?raw) = Some b" using read_block_at [OF bytes] by simp
  have "read_blocks bytes (map2 (\<lambda>recs (off, sz). (last_key recs, block_handle off sz)) bs
      (handles ri (length (pre @ block_with_trailer ?raw)) bs)) = Some bs"
    using Cons.prems by (intro Cons.IH bytes') (simp_all add: blocks_small_def)
  then show ?case using h r by (simp add: add.assoc)
qed


lemma last_key_cases: "last_key recs = [] \<or> last_key recs \<in> fst ` set recs"
proof -
  have "fold (\<lambda>r l. if l < fst r then fst r else l) recs l = l \<or>
      fold (\<lambda>r l. if l < fst r then fst r else l) recs l \<in> fst ` set recs" for l
    by (induction recs arbitrary: l) (auto split: if_splits)
  then show ?thesis unfolding last_key_def by blast
qed

lemma index_entries_fst: "map fst (index_entries ri blocks) = map last_key blocks"
proof -
  have "map fst (map2 (\<lambda>recs (off, sz). (last_key recs, block_handle off sz)) bs (handles ri pos bs)) =
      map last_key bs" for bs pos
    by (induction bs arbitrary: pos) auto
  then show ?thesis by (simp only: index_entries_def)
qed

lemma index_entries_small:
  assumes "blocks_small blocks"
  shows "entries_small (index_entries ri blocks)"
  unfolding entries_small_def
proof (intro ballI conjI)
  fix e assume e: "e \<in> set (index_entries ri blocks)"
  then obtain b off sz where b: "b \<in> set blocks" and ek: "e = (last_key b, block_handle off sz)"
    by (auto simp: index_entries_def dest: set_zip_leftD)
  have "entries_small b" using assms b by (simp add: blocks_small_def)
  then show "length (fst e) < 2 ^ 64"
    using last_key_cases [of b] by (auto simp: ek entries_small_def)
  show "length (snd e) < 2 ^ 64" using length_block_handle [of off sz] by (simp add: ek)
qed

lemma sorted_index:
  assumes "sorted_wrt (<) (map last_key blocks)"
  shows "sort (index_entries ri blocks) = index_entries ri blocks"
proof (rule sorted_sort_id)
  have "sorted_wrt (\<lambda>x y. fst x < fst y) (index_entries ri blocks)"
    using assms by (simp only: sorted_wrt_map [symmetric] index_entries_fst)
  then show "sorted (index_entries ri blocks)"
    by (rule sorted_wrt_mono_rel [rotated]) (auto simp: less_eq_prod_def)
qed

lemma read_build_sstable:
  assumes "blocks_small blocks" and "length blocks < 2 ^ 32" and "sorted_wrt (<) (map last_key blocks)"
    and "length (build_sstable blocks ri) < 2 ^ 64"
  shows "read_table (build_sstable blocks ri) = Some blocks"
proof -
  let ?t = "build_sstable blocks ri" and ?es = "index_entries ri blocks"
  let ?idx = "encode_block ?es 1"
  let ?pre = "framed ri blocks"
  let ?meta = "block_with_trailer [0, 0, 0, 0]"
  let ?f = "footer_of table_magic (length ?pre) (length ?idx)"
  have t: "?t = ?pre @ ?idx @ ([0] @ [0, 0, 0, 0] @ ?meta @ ?f)"
    by (simp add: build_sstable_parts sorted_index [OF assms(3)] Let_def) (simp add: block_with_trailer_def)
  have t': "?t = (?pre @ block_with_trailer ?idx @ ?meta) @ ?f"
    by (simp add: build_sstable_parts sorted_index [OF assms(3)] Let_def)
  have len: "length ?t = length ?pre + length ?idx + 10 + 4 + 48"
    unfolding t' by (simp add: length_footer)
  then have small: "length ?pre < 2 ^ 64" "length ?idx < 2 ^ 64" "length ?pre + length ?idx + 5 < 2 ^ 64"
    using assms(4) by simp_all
  have footer: "drop (length ?t - 48) ?t = ?f" unfolding t' by (simp add: length_footer)
  let ?h0 = "block_handle (length ?pre + length ?idx + 5) 4" and ?h1 = "block_handle (length ?pre) (length ?idx)"
  let ?pad = "replicate (40 - length (?h0 @ ?h1)) 0"
  have f: "?f = (?h0 @ ?h1 @ ?pad) @ le64 table_magic" by (simp add: footer_of_def Let_def)
  have "length (?h0 @ ?h1 @ ?pad) = 40"
    using length_block_handle [of "length ?pre + length ?idx + 5" 4] length_block_handle [of "length ?pre" "length ?idx"]
    by simp
  then have magic: "drop 40 ?f = le64 table_magic" unfolding f by (simp del: append_assoc)
  have h0: "read_handle ?f = Some ((length ?pre + length ?idx + 5, 4), ?h1 @ ?pad @ le64 table_magic)"
    unfolding f append_assoc using small(3) by (intro read_handle_block_handle) simp_all
  have h1: "read_handle (?h1 @ ?pad @ le64 table_magic) = Some ((length ?pre, length ?idx), ?pad @ le64 table_magic)"
    using small by (intro read_handle_block_handle)
  have "length ?es < 2 ^ 32" using assms(2) by (simp add: index_entries_def)
  then have "decode_block ?idx = Some ?es"
    using index_entries_small [OF assms(1)] by (intro decode_encode_block)
  then have idx: "read_block ?t (length ?pre, length ?idx) = Some ?es" using read_block_at [OF t] by simp
  have "?t = [] @ ?pre @ (?idx @ [0] @ [0, 0, 0, 0] @ ?meta @ ?f)" using t by simp
  from read_blocks_index [OF assms(1) this assms(4)]
  have blocks: "read_blocks ?t ?es = Some blocks" by (simp only: index_entries_def list.size(3))
  have long: "\<not> length ?t < 48" using len by simp
  show ?thesis
    unfolding read_table_def Let_def footer
    by (simp only: long if_False magic not_True_eq_False simp_thms h0 h1 option.case prod.case idx blocks)
qed

text \<open>
  C39. Reading a table that the builder wrote gives back its blocks, entry by entry, when the blocks are
  given in the order of their last keys, as for every table that is built in key order.
\<close>

theorem table_round_trip:
  assumes "blocks_small blocks" and "length blocks < 2 ^ 32" and "sorted_wrt (<) (map last_key blocks)"
    and "length (build_sstable blocks ri) < 2 ^ 64"
  shows "read_table (build_sstable blocks ri) = Some blocks"
  using assms by (rule read_build_sstable)

theorem table_round_trip_witness:
  "read_table (build_sstable [[([1, 2, 3], [9]), ([1, 2, 4], [8])], [([1, 3], [7])]] 2) =
    Some [[([1, 2, 3], [9]), ([1, 2, 4], [8])], [([1, 3], [7 :: byte])]]"
proof (rule table_round_trip)
  show "length (build_sstable [[([1, 2, 3], [9]), ([1, 2, 4], [8])], [([1, 3], [7])]] 2) < 2 ^ 64"
    by (simp add: build_sstable_parts Let_def framed_def index_entries_def length_footer last_key_def
        encode_block_def varint.simps block_handle_def del: One_nat_def)
qed (simp_all add: blocks_small_def entries_small_def last_key_def)

end
