(* ===== verification/Sstable_Keys.thy ===== *)
theory Sstable_Keys
  imports Sstable_Roundtrip Gen_Keys "HOL-Library.Multiset"
begin

text \<open>
  Internal keys of the board tests' fixtures, tables whose records are given in key order, and upper
  bounds for the sizes of encoded blocks and tables.
\<close>

section \<open>Internal keys\<close>

text \<open>The loop of \<^verbatim>\<open>ikey\<close>: \<open>n\<close> bytes of the tag, least significant first.\<close>

fun push_tag :: "nat \<Rightarrow> u64 \<Rightarrow> byte list \<Rightarrow> byte list" where
  "push_tag 0 tag k = k"
| "push_tag (Suc n) tag k = push_tag n (drop_bit 8 tag) (k @ [ucast (tag AND 0xFF)])"

definition ikey :: "byte list \<Rightarrow> u64 \<Rightarrow> byte \<Rightarrow> byte list" where
  "ikey uk sq vtype = push_tag 8 (push_bit 8 sq OR ucast vtype) uk"

lemma low_byte: "ucast ((v :: u64) AND 0xFF) = (of_nat (unat v) :: byte)"
proof -
  have "v AND 0xFF = take_bit 8 v" by (simp add: take_bit_eq_mask mask_eq_exp_minus_1)
  then have "unat (v AND 0xFF) = unat v mod 256" by (simp add: take_bit_eq_mod unat_mod_distrib)
  then have "unat (ucast (v AND 0xFF) :: byte) = unat v mod 256"
    by (simp add: unsigned_ucast_eq take_bit_eq_mod mod_mod_cancel)
  then show ?thesis by (metis unat_of_nat_byte word_unat_eq_iff)
qed

lemma push_tag_eq: "push_tag n tag k = k @ le_bytes n (unat tag)"
proof (induction n arbitrary: tag k)
  case 0
  then show ?case by simp
next
  case (Suc n)
  have "unat (drop_bit 8 tag) = unat tag div 256" by (simp add: drop_bit_eq_div unat_div_distrib)
  with Suc show ?case by (simp add: low_byte)
qed

lemma ikey_le64: "ikey uk sq vt = uk @ le64 (push_bit 8 sq OR ucast vt)"
  by (simp add: ikey_def push_tag_eq le64_def)

text \<open>It is the internal key of the generators, with the documented \<^verbatim>\<open>PutFixed64\<close>.\<close>

lemma ikey_make: "ikey (bytes_of uk) sq 1 = make_internal_key le_lib uk sq"
  by (simp add: ikey_le64 make_internal_key_def le_lib_def)

section \<open>Key order\<close>

lemma bytes_lt_less: "bytes_lt xs ys \<longleftrightarrow> xs < ys"
  by (induction xs ys rule: bytes_lt.induct) auto

definition as_kv :: "entry \<Rightarrow> kv" where
  "as_kv e = \<lparr>kv_key = fst e, kv_value = snd e\<rparr>"

lemma table_sorted_entries: "table_sorted (map as_kv es) \<longleftrightarrow> sorted_wrt (<) (map fst es)"
  by (simp add: table_sorted_def bytes_lt_less [abs_def] as_kv_def o_def)

section \<open>Tables in key order\<close>

lemma last_key_sorted:
  assumes "sorted_wrt (<) (map fst es)" and "es \<noteq> []"
  shows "last_key es = fst (last es)"
proof -
  have "fold (\<lambda>r l. if l < fst r then fst r else l) es l = fst (last es)"
    if "sorted_wrt (<) (map fst es)" and "es \<noteq> []" and "l \<le> fst (last es)" for l
    using that
  proof (induction es arbitrary: l)
    case Nil
    then show ?case by simp
  next
    case (Cons e es)
    show ?case
    proof (cases "es = []")
      case True
      then show ?thesis using Cons.prems(3) by auto
    next
      case False
      then have "fst e < fst (last es)" using Cons.prems(1) by auto
      then have "(if l < fst e then fst e else l) \<le> fst (last es)" using Cons.prems(3) False by auto
      with False Cons.prems(1) have
        "fold (\<lambda>r l. if l < fst r then fst r else l) es (if l < fst e then fst e else l) = fst (last es)"
        by (intro Cons.IH) auto
      then show ?thesis using False by simp
    qed
  qed
  from this [OF assms] show ?thesis by (simp add: last_key_def)
qed

lemma last_keys_sorted:
  assumes "sorted_wrt (<) (map fst (concat blocks))" and "[] \<notin> set blocks"
  shows "sorted_wrt (<) (map last_key blocks)"
  using assms
proof (induction blocks)
  case Nil
  then show ?case by simp
next
  case (Cons b bs)
  have b: "b \<noteq> []" "sorted_wrt (<) (map fst b)" "sorted_wrt (<) (map fst (concat bs))"
    and ord: "\<forall>x\<in>set b. \<forall>y\<in>set (concat bs). fst x < fst y"
    using Cons.prems by (auto simp: sorted_wrt_append)
  have "last_key b < last_key c" if c: "c \<in> set bs" for c
  proof -
    have ne: "c \<noteq> []" using c Cons.prems(2) by auto
    have "sorted_wrt (<) (map fst c)" using b(3) c
      by (induction bs) (auto simp: sorted_wrt_append)
    then have "last_key c = fst (last c)" using ne by (rule last_key_sorted)
    moreover have "last b \<in> set b" "last c \<in> set (concat bs)" using b(1) ne c by (auto intro!: bexI [of _ c])
    ultimately show ?thesis using ord last_key_sorted [OF b(2,1)] by metis
  qed
  then show ?case using Cons.IH b(3) Cons.prems(2) by simp
qed

section \<open>Sizes\<close>

lemma length_entry_bytes_le: "length (entry_bytes s e) \<le> 30 + length (fst e) + length (snd e)"
  using length_varint_le_10 [of "of_nat s"] length_varint_le_10 [of "of_nat (length (fst e) - s)"]
    length_varint_le_10 [of "of_nat (length (snd e))"]
  by (simp add: entry_bytes_def)

definition entries_size :: "entry list \<Rightarrow> nat" where
  "entries_size es = sum_list (map (\<lambda>e. 34 + length (fst e) + length (snd e)) es)"

lemma length_entries_bytes_le:
  "length (entries_bytes ri idx prev es) + 4 * length es \<le> entries_size es"
proof (induction es arbitrary: idx prev)
  case Nil
  then show ?case by (simp add: entries_size_def)
next
  case (Cons e es)
  show ?case
    using length_entry_bytes_le [of "entry_shared ri idx prev (fst e)" e] Cons.IH [of "Suc idx" "fst e"]
    by (simp add: entries_size_def algebra_simps)
qed

lemma length_encode_block_le: "length (encode_block es ri) \<le> entries_size es + 4"
proof (cases "es = []")
  case True
  then show ?thesis by (simp add: encode_block_def)
next
  case False
  obtain buf rs where enc: "encode_entries ri 0 [] es [] [] = (buf, rs)" by fastforce
  have "buf = entries_bytes ri 0 [] es" using encode_entries_fst [of ri 0 "[]" es "[]" "[]"] enc by simp
  moreover have "length rs \<le> length es" using encode_entries_snd [of ri 0 "[]" es "[]" "[]"] enc by simp
  moreover have "length (encode_block es ri) = length buf + 4 * length rs + 4"
    using enc False by (simp add: encode_block_def)
  ultimately show ?thesis using length_entries_bytes_le [of ri 0 "[]" es] by simp
qed

lemma length_framed_le: "length (framed ri blocks) \<le> sum_list (map (\<lambda>b. entries_size b + 9) blocks)"
proof (induction blocks)
  case Nil
  then show ?case by (simp add: framed_def)
next
  case (Cons b bs)
  then show ?case using length_encode_block_le [of b ri] by (simp add: framed_def)
qed

lemma index_entries_size:
  "entries_size (index_entries ri blocks) \<le> sum_list (map (\<lambda>b. 54 + length (last_key b)) blocks)"
proof -
  have "entries_size (map2 (\<lambda>recs (off, sz). (last_key recs, block_handle off sz)) bs (handles ri pos bs)) \<le>
      sum_list (map (\<lambda>b. 54 + length (last_key b)) bs)" for bs pos
  proof (induction bs arbitrary: pos)
    case Nil
    then show ?case by (simp add: entries_size_def)
  next
    case (Cons b bs)
    then show ?case
      using length_block_handle [of pos "length (encode_block b ri)"]
        Cons [of "pos + length (encode_block b ri) + 5"]
      unfolding entries_size_def handles.simps zip_Cons_Cons list.map sum_list.Cons prod.case fst_conv snd_conv
      by linarith
  qed
  then show ?thesis by (simp only: index_entries_def)
qed

lemma entries_size_sort: "entries_size (sort es) = entries_size es"
proof -
  have "mset (sort es) = mset es" by simp
  then have "sum_mset (image_mset f (mset (sort es))) = sum_mset (image_mset f (mset es))" for f :: "entry \<Rightarrow> nat"
    by (simp only:)
  then show ?thesis by (simp add: entries_size_def sum_mset_sum_list [symmetric] del: sum_mset_sum_list)
qed

definition table_size :: "entry list list \<Rightarrow> nat" where
  "table_size blocks = sum_list (map (\<lambda>b. entries_size b + length (last_key b) + 63) blocks) + 66"

lemma length_build_table_le: "length (build_table magic blocks ri) \<le> table_size blocks"
proof -
  let ?idx = "encode_block (sort (index_entries ri blocks)) 1"
  have "length (build_table magic blocks ri) = length (framed ri blocks) + length ?idx + 62"
    by (simp add: build_table_parts Let_def length_footer)
  moreover have "length ?idx \<le> sum_list (map (\<lambda>b. 54 + length (last_key b)) blocks) + 4"
    using length_encode_block_le [of "sort (index_entries ri blocks)" 1] index_entries_size [of ri blocks]
    by (simp add: entries_size_sort)
  moreover have "sum_list (map (\<lambda>b. entries_size b + 9) blocks) + sum_list (map (\<lambda>b. 54 + length (last_key b)) blocks) =
      sum_list (map (\<lambda>b. entries_size b + length (last_key b) + 63) blocks)"
    unfolding sum_list_addf [symmetric] by (rule arg_cong [where f = sum_list]) (auto intro: map_cong)
  ultimately show ?thesis using length_framed_le [of ri blocks] unfolding table_size_def by linarith
qed

section \<open>Exact sizes\<close>

definition plain_size :: "entry list \<Rightarrow> nat" where
  "plain_size es = sum_list (map (\<lambda>e. length (entry_bytes 0 e) + 4) es)"

lemma entries_bytes_plain: "entries_bytes 1 idx prev es = concat (map (entry_bytes 0) es)"
  by (induction es arbitrary: idx prev) (simp_all add: entry_shared_def)

lemma encode_entries_restarts:
  "length (snd (encode_entries 1 idx prev es buf rs)) = length rs + length es"
proof (induction es arbitrary: idx prev buf rs)
  case Nil
  then show ?case by simp
next
  case (Cons e es)
  obtain k v where "e = (k, v)" by fastforce
  then show ?case using Cons by simp
qed

lemma length_encode_plain: "length (encode_block es 1) = plain_size es + 4"
proof (cases "es = []")
  case True
  then show ?thesis by (simp add: encode_block_def plain_size_def)
next
  case False
  obtain buf rs where enc: "encode_entries 1 0 [] es [] [] = (buf, rs)" by fastforce
  have "buf = concat (map (entry_bytes 0) es)"
    using encode_entries_fst [of 1 0 "[]" es "[]" "[]"] enc by (simp add: entries_bytes_plain del: One_nat_def)
  then have "length buf = sum_list (map (\<lambda>e. length (entry_bytes 0 e)) es)" by (simp add: length_concat o_def)
  moreover have "length rs = length es" using encode_entries_restarts [of 0 "[]" es "[]" "[]"] enc by simp
  moreover have "length (encode_block es 1) = length buf + 4 * length rs + 4"
    using enc False by (simp add: encode_block_def del: One_nat_def)
  ultimately show ?thesis by (simp add: plain_size_def sum_list_addf sum_list_triv)
qed

lemma plain_size_sort: "plain_size (sort es) = plain_size es"
proof -
  have "sum_mset (image_mset f (mset (sort es))) = sum_mset (image_mset f (mset es))" for f :: "entry \<Rightarrow> nat"
    by simp
  then show ?thesis by (simp add: plain_size_def sum_mset_sum_list [symmetric] del: sum_mset_sum_list)
qed

lemma length_build_table:
  "length (build_table magic blocks ri) = length (framed ri blocks) + plain_size (index_entries ri blocks) + 66"
  by (simp add: build_table_parts Let_def length_footer length_encode_plain plain_size_sort del: One_nat_def)

text \<open>A table of two blocks is longer than a table of either.\<close>

lemma length_varint_0: "length (varint 0) = 1"
  by (simp add: varint.simps)

lemma length_varint_ge: "1 \<le> length (varint v)"
  by (simp add: Suc_leI)

lemma two_blocks_longer:
  "length (build_table magic [a] ri) < length (build_table magic [a, b] ri)"
  "length (build_table magic [b] ri) < length (build_table magic [a, b] ri)"
proof -
  let ?h = "block_handle 0 (length (encode_block a ri))"
  let ?k = "block_handle 0 (length (encode_block b ri))"
    and ?k' = "block_handle (length (encode_block a ri) + 5) (length (encode_block b ri))"
  have idx: "index_entries ri [a] = [(last_key a, ?h)]" "index_entries ri [b] = [(last_key b, ?k)]"
    "index_entries ri [a, b] = [(last_key a, ?h), (last_key b, ?k')]"
    by (simp_all add: index_entries_def)
  have vs: "length ?k \<le> length ?k'" using length_varint_ge by (simp add: block_handle_def length_varint_0)
  have eb: "length (entry_bytes 0 (k, v)) \<le> length (entry_bytes 0 (k, v')) + 9"
    if "length v \<le> length v'" for k v v' :: "byte list"
    using that length_varint_le_10 [of "of_nat (length v)"] length_varint_ge [of "of_nat (length v')"]
    by (simp add: entry_bytes_def)
  have pos: "4 \<le> length (encode_block a ri)"
    by (simp add: encode_block_def case_prod_beta)
  show "length (build_table magic [a] ri) < length (build_table magic [a, b] ri)"
    by (simp add: length_build_table idx plain_size_def framed_def)
  show "length (build_table magic [b] ri) < length (build_table magic [a, b] ri)"
    using eb [OF vs, of "last_key b"] pos length_entry_bytes [of 0 "(last_key a, ?h)"]
    by (simp add: length_build_table idx plain_size_def framed_def)
qed

end
