(* ===== verification/Board_Fixtures.thy ===== *)
theory Board_Fixtures
  imports Sstable_Keys
begin

text \<open>
  The fixtures of the two board tests: \<^verbatim>\<open>make_asymmetric_fixtures\<close> of
  \<^verbatim>\<open>driver/test_board_integration.cc\<close>, \<^verbatim>\<open>make_src0_split\<close> and \<^verbatim>\<open>make_src1_split\<close> of
  \<^verbatim>\<open>driver/test_split_board.cc\<close>; the contents the tests rely on, and what a table reader makes of them.
\<close>

section \<open>Records\<close>

text \<open>
  A record of a fixture: \<^verbatim>\<open>{ikey(uk, seq), prefix + uk}\<close> with \<^verbatim>\<open>uk\<close> printed as \<^verbatim>\<open>key_%04d\<close>.
\<close>

definition fixture_rec :: "string \<Rightarrow> nat \<Rightarrow> u64 \<Rightarrow> entry" where
  "fixture_rec p i sq = (let uk = bytes_of (''key_'' @ pad0 4 i) in (ikey uk sq 1, bytes_of p @ uk))"

section \<open>The asymmetric pair of sources\<close>

definition asym_src0 :: "entry list list" where
  "asym_src0 =
     [map (\<lambda>i. fixture_rec ''v0_'' i (of_nat (20 + i))) [0, 1, 2, 3],
      map (\<lambda>i. fixture_rec ''v0_'' i (of_nat (24 + i - 10))) [10, 11, 12, 13]]"

definition asym_src1 :: "entry list list" where
  "asym_src1 =
     [map (\<lambda>i. fixture_rec ''v1_'' i (of_nat i)) [4, 5, 6],
      map (\<lambda>i. fixture_rec ''v1_'' i (of_nat (i - 7))) [14, 15, 16],
      map (\<lambda>i. fixture_rec ''v1_'' i (of_nat (i - 10))) [20, 21, 22],
      map (\<lambda>i. fixture_rec ''v1_'' i (of_nat (i - 17))) [30, 31, 32]]"

definition make_asymmetric_fixtures :: "byte list \<times> byte list" where
  "make_asymmetric_fixtures = (build_sstable asym_src0 2, build_sstable asym_src1 2)"

section \<open>The sources of the split test\<close>

definition fixture_magic :: u64 where "fixture_magic = 0x57fb808b24e46a97"

definition split_sstable :: "entry list list \<Rightarrow> nat \<Rightarrow> byte list" where
  "split_sstable = build_table fixture_magic"

definition split_src0 :: "entry list list" where
  "split_src0 =
     map (\<lambda>blk. map (\<lambda>i. let idx = blk * 4 + i in fixture_rec ''val_'' idx (of_nat (100 + idx))) [0..<4]) [0..<4]"

definition make_src0_split :: "byte list" where
  "make_src0_split = split_sstable split_src0 2"

definition split_src1 :: "entry list list" where
  "split_src1 =
     (let dup_keys = [1, 5, 9, 13]
      in map (\<lambda>blk. [fixture_rec ''old_'' (dup_keys ! blk) (of_nat (50 + blk)),
                     fixture_rec ''old_'' (16 + blk) (of_nat (60 + blk))]) [0..<4])"

definition make_src1_split :: "byte list" where
  "make_src1_split = split_sstable split_src1 2"

section \<open>Their keys\<close>

lemma fixture_rec_key:
  "kv_key (as_kv (fixture_rec p i sq)) = make_internal_key le_lib (''key_'' @ pad0 4 i) sq"
  by (simp only: as_kv_def fixture_rec_def Let_def kv.simps fst_conv ikey_make)

lemma indexed_fixture:
  "indexed le_lib 4 ''key_'' [] []"
  "indexed le_lib 4 ''key_'' rs is \<Longrightarrow> indexed le_lib 4 ''key_'' (as_kv (fixture_rec p i sq) # rs) (i # is)"
  by (auto simp: indexed_def fixture_rec_key)

text \<open>The numbers in the user keys, in the order of the records.\<close>

definition asym0_ids :: "nat list" where "asym0_ids = [0, 1, 2, 3, 10, 11, 12, 13]"
definition asym1_ids :: "nat list" where "asym1_ids = [4, 5, 6, 14, 15, 16, 20, 21, 22, 30, 31, 32]"
definition split0_ids :: "nat list" where "split0_ids = [0, 1, 2, 3, 4, 5, 6, 7, 8, 9, 10, 11, 12, 13, 14, 15]"
definition split1_ids :: "nat list" where "split1_ids = [1, 16, 5, 17, 9, 18, 13, 19]"

lemmas ids_defs = asym0_ids_def asym1_ids_def split0_ids_def split1_ids_def

lemma upt4: "[0..<4] = [0, 1, 2, 3 :: nat]"
  by (simp add: upt_conv_Cons)

lemma sources_indexed:
  "indexed le_lib 4 ''key_'' (map as_kv (concat asym_src0)) asym0_ids"
  "indexed le_lib 4 ''key_'' (map as_kv (concat asym_src1)) asym1_ids"
  "indexed le_lib 4 ''key_'' (map as_kv (concat split_src0)) split0_ids"
  "indexed le_lib 4 ''key_'' (map as_kv (concat split_src1)) split1_ids"
  unfolding asym_src0_def asym_src1_def split_src0_def split_src1_def ids_defs upt4 Let_def
  by (simp_all add: indexed_fixture numeral_2_eq_2)


lemma ids_bounds:
  "\<forall>i\<in>set asym0_ids. i < 10 ^ 4" "\<forall>i\<in>set asym1_ids. i < 10 ^ 4"
  "\<forall>i\<in>set split0_ids. i < 10 ^ 4" "\<forall>i\<in>set split1_ids. i < 10 ^ 4"
  by (simp_all add: ids_defs)

lemma ids_sorted:
  "sorted_wrt (<) asym0_ids" "sorted_wrt (<) asym1_ids" "sorted_wrt (<) split0_ids"
  by (simp_all add: ids_defs)

lemma sources_sorted:
  "table_sorted (map as_kv (concat asym_src0))" "table_sorted (map as_kv (concat asym_src1))"
  "table_sorted (map as_kv (concat split_src0))"
  by (rule indexed_sorted [OF sources_indexed(1) _ ids_sorted(1) ids_bounds(1)]
      indexed_sorted [OF sources_indexed(2) _ ids_sorted(2) ids_bounds(2)]
      indexed_sorted [OF sources_indexed(3) _ ids_sorted(3) ids_bounds(3)], simp)+

definition source_keys :: "entry list list \<Rightarrow> byte list set" where
  "source_keys blocks = user_keys (map as_kv (concat blocks))"

lemma source_keys_ids:
  assumes "indexed le_lib 4 ''key_'' (map as_kv (concat b0)) is" and "indexed le_lib 4 ''key_'' (map as_kv (concat b1)) js"
    and "\<forall>i\<in>set is. i < 10 ^ 4" and "\<forall>i\<in>set js. i < 10 ^ 4"
  shows "card (source_keys b0 \<inter> source_keys b1) = card (set is \<inter> set js)"
    and "card (source_keys b0 \<union> source_keys b1) = card (set is \<union> set js)"
proof -
  let ?k = "\<lambda>i. bytes_of (''key_'' @ pad0 4 i)"
  have u: "source_keys b0 = ?k ` set is" "source_keys b1 = ?k ` set js"
    unfolding source_keys_def
    using indexed_user_keys [OF le_lib_ok assms(1)] indexed_user_keys [OF le_lib_ok assms(2)] by (simp_all only:)
  have "inj_on ?k (set is \<union> set js)"
    using assms(3,4) by (intro inj_onI) (auto simp: bytes_of_inject pad0_inject simp del: bytes_of_append)
  then have i: "?k ` set is \<inter> ?k ` set js = ?k ` (set is \<inter> set js)" by (simp only: inj_on_image_Int Un_upper1 Un_upper2)
  show "card (source_keys b0 \<inter> source_keys b1) = card (set is \<inter> set js)"
    unfolding u i using assms(3) by (intro card_numbered_keys) auto
  show "card (source_keys b0 \<union> source_keys b1) = card (set is \<union> set js)"
    unfolding u image_Un [symmetric] using assms(3,4) by (intro card_numbered_keys) auto
qed

text \<open>
  What the board tests expect of the engine's counters is what the fixtures hold: 8 and 12 records with
  20 different user keys and none in common; 16 and 8 records with 20 different user keys, 4 of
  them in both sources.
\<close>

theorem fixture_counters:
  "count_records asym_src0 = 8 \<and> count_records asym_src1 = 12 \<and>
   card (source_keys asym_src0 \<inter> source_keys asym_src1) = 0 \<and>
   card (source_keys asym_src0 \<union> source_keys asym_src1) = 20 \<and>
   count_records split_src0 = 16 \<and> count_records split_src1 = 8 \<and>
   card (source_keys split_src0 \<inter> source_keys split_src1) = 4 \<and>
   card (source_keys split_src0 \<union> source_keys split_src1) = 20"
proof -
  have "length (concat asym_src0) = 8" "length (concat asym_src1) = 12"
    "length (concat split_src0) = 16" "length (concat split_src1) = 8"
    using sources_indexed [THEN indexed_length] by (simp_all add: ids_defs)
  moreover have "card (set asym0_ids \<inter> set asym1_ids) = 0" "card (set asym0_ids \<union> set asym1_ids) = 20"
    "card (set split0_ids \<inter> set split1_ids) = 4" "card (set split0_ids \<union> set split1_ids) = 20"
    by (simp_all add: ids_defs card_insert_if)
  ultimately show ?thesis
    unfolding count_records_concat
      source_keys_ids [OF sources_indexed(1,2) ids_bounds(1,2)] source_keys_ids [OF sources_indexed(3,4) ids_bounds(3,4)]
    by blast
qed


section \<open>What a LevelDB reader makes of the tables\<close>

lemma entries_size_le:
  assumes "\<forall>e\<in>set es. length (fst e) \<le> k \<and> length (snd e) \<le> v"
  shows "entries_size es \<le> length es * (34 + k + v)"
  using assms
proof (induction es)
  case Nil
  then show ?case by (simp add: entries_size_def)
next
  case (Cons e es)
  then have "entries_size es \<le> length es * (34 + k + v)" "length (fst e) \<le> k" "length (snd e) \<le> v" by simp_all
  then show ?case by (simp add: entries_size_def)
qed

lemma table_size_le:
  assumes "\<forall>e\<in>set (concat blocks). length (fst e) \<le> k \<and> length (snd e) \<le> v"
  shows "table_size blocks \<le> length (concat blocks) * (34 + k + v) + length blocks * (k + 63) + 66"
proof -
  have "sum_list (map (\<lambda>b. entries_size b + length (last_key b) + 63) blocks) \<le>
      length (concat blocks) * (34 + k + v) + length blocks * (k + 63)"
    using assms
  proof (induction blocks)
    case Nil
    then show ?case by simp
  next
    case (Cons b bs)
    have "entries_size b \<le> length b * (34 + k + v)" using Cons.prems by (intro entries_size_le) auto
    moreover have "length (last_key b) \<le> k"
    proof (cases "last_key b = []")
      case False
      then obtain e where "e \<in> set b" "last_key b = fst e" using last_key_cases [of b] by blast
      then show ?thesis using Cons.prems by simp
    qed simp
    moreover have "sum_list (map (\<lambda>b. entries_size b + length (last_key b) + 63) bs) \<le>
        length (concat bs) * (34 + k + v) + length bs * (k + 63)"
      using Cons.prems by (intro Cons.IH) auto
    ultimately show ?case by (simp add: add_mult_distrib add_mult_distrib2)
  qed
  then show ?thesis by (simp add: table_size_def)
qed

text \<open>Blocks of short records in key order.\<close>

lemma sorted_table_reads:
  assumes "sorted_wrt (<) (map fst (concat blocks))" and "[] \<notin> set blocks"
    and "\<forall>e\<in>set (concat blocks). length (fst e) \<le> 100 \<and> length (snd e) \<le> 100"
    and "length (concat blocks) \<le> 100" and "length blocks \<le> 100"
  shows "read_table (build_sstable blocks ri) = Some blocks"
proof (rule read_build_sstable)
  have "length b \<le> 100" if "b \<in> set blocks" for b
    using assms(4) that by (auto dest: split_list)
  then show "blocks_small blocks"
    using assms(3) by (fastforce simp: blocks_small_def entries_small_def)
  show "length blocks < 2 ^ 32" using assms(5) by simp
  show "sorted_wrt (<) (map last_key blocks)" using assms(1,2) by (rule last_keys_sorted)
  have "table_size blocks \<le> 100 * 234 + 100 * 163 + 66"
    using table_size_le [OF assms(3)] mult_right_mono [OF assms(4), of 234] mult_right_mono [OF assms(5), of 163]
    by simp
  then show "length (build_sstable blocks ri) < 2 ^ 64"
    using length_build_table_le [of table_magic blocks ri] by (simp add: build_sstable_def)
qed

lemma fixture_rec_short:
  assumes "i < 10 ^ 4" and "length p \<le> 10"
  shows "length (fst (fixture_rec p i sq)) \<le> 100" "length (snd (fixture_rec p i sq)) \<le> 100"
  using assms length_pad0 [of i 4] by (simp_all add: fixture_rec_def ikey_le64 Let_def)

lemma asym_tables:
  "read_table (build_sstable asym_src0 ri) = Some asym_src0"
  "read_table (build_sstable asym_src1 ri) = Some asym_src1"
proof -
  have short: "\<forall>e\<in>set (concat asym_src0). length (fst e) \<le> 100 \<and> length (snd e) \<le> 100"
    "\<forall>e\<in>set (concat asym_src1). length (fst e) \<le> 100 \<and> length (snd e) \<le> 100"
    by (simp_all add: asym_src0_def asym_src1_def fixture_rec_short)
  have "length (concat asym_src0) \<le> 100" "length (concat asym_src1) \<le> 100"
    "length asym_src0 \<le> 100" "length asym_src1 \<le> 100" "[] \<notin> set asym_src0" "[] \<notin> set asym_src1"
    by (simp_all add: asym_src0_def asym_src1_def)
  then show "read_table (build_sstable asym_src0 ri) = Some asym_src0"
    "read_table (build_sstable asym_src1 ri) = Some asym_src1"
    using short sources_sorted(1,2) by (simp_all only: sorted_table_reads table_sorted_entries not_False_eq_True)
qed

text \<open>
  The asymmetric fixtures are tables: their records are in strictly increasing key order, and a
  reader gets them back block by block.
\<close>

theorem asymmetric_fixtures_readable:
  "table_sorted (map as_kv (concat asym_src0)) \<and> table_sorted (map as_kv (concat asym_src1)) \<and>
   read_table (fst make_asymmetric_fixtures) = Some asym_src0 \<and>
   read_table (snd make_asymmetric_fixtures) = Some asym_src1"
  using sources_sorted(1,2) asym_tables [of 2] by (simp add: make_asymmetric_fixtures_def)

lemma build_table_magic_bytes: "drop (length (build_table magic blocks ri) - 8) (build_table magic blocks ri) = le64 magic"
proof -
  obtain pre where "build_table magic blocks ri = pre @ le64 magic"
    by (simp add: build_table_parts Let_def footer_of_def flip: append_assoc)
  then show ?thesis by simp
qed

text \<open>A reader insists on the magic of LevelDB.\<close>

lemma read_table_magic:
  assumes "read_table bytes \<noteq> None"
  shows "drop (length bytes - 8) bytes = le64 table_magic"
proof -
  have "\<not> length bytes < 48" and m: "drop 40 (drop (length bytes - 48) bytes) = le64 table_magic"
    using assms by (auto simp: read_table_def Let_def split: if_splits)
  then have "40 + (length bytes - 48) = length bytes - 8" by simp
  then show ?thesis using m by (simp only: drop_drop)
qed

lemma fixture_magic_differs: "le64 fixture_magic \<noteq> le64 table_magic"
proof
  assume "le64 fixture_magic = le64 table_magic"
  then have "unat fixture_magic = unat table_magic" by (metis le_nat_le64)
  then show False by (simp add: fixture_magic_def table_magic_def)
qed

text \<open>
  The sources of the split test are not LevelDB tables: their footers carry another magic number, so a
  reader rejects them, and the second one is not in key order.
\<close>

theorem split_fixtures_not_tables:
  "read_table make_src0_split = None \<and> read_table make_src1_split = None \<and>
   table_sorted (map as_kv (concat split_src0)) \<and> \<not> table_sorted (map as_kv (concat split_src1))"
proof -
  have "read_table (split_sstable blocks 2) = None" for blocks
    using read_table_magic [of "split_sstable blocks 2"] build_table_magic_bytes [of fixture_magic blocks 2]
      fixture_magic_differs by (metis split_sstable_def)
  moreover have "\<not> table_sorted (map as_kv (concat split_src1))"
  proof
    let ?k = "\<lambda>i sq. fst (fixture_rec ''old_'' i sq)"
    assume "table_sorted (map as_kv (concat split_src1))"
    then have "bytes_lt (?k 16 60) (?k 5 51)"
      unfolding table_sorted_entries by (simp add: split_src1_def upt4 Let_def bytes_lt_less)
    moreover have "bytes_lt (?k 5 51) (?k 16 60)"
      using pad0_less [of 5 16 4 "''key_''" "le64 _" "le64 _"]
      by (simp add: fixture_rec_def ikey_le64 Let_def)
    ultimately show False by (simp add: bytes_lt_less)
  qed
  ultimately show ?thesis using sources_sorted(3) by (simp add: make_src0_split_def make_src1_split_def)
qed

end
