(* ===== verification/Split_Test.thy ===== *)
theory Split_Test
  imports Board_Fixtures Offload_Safety
begin

text \<open>
  \<^verbatim>\<open>driver/test_split_board.cc\<close>: the board test of the split feature, which drives the card through
  \<^verbatim>\<open>XdmaAccess\<close> itself. Checks are counted in the record \<open>tally\<close> (the globals \<^verbatim>\<open>g_pass\<close> and \<^verbatim>\<open>g_fail\<close>);
  the labels and all other output are left out. Values that are only printed are still read,
  since reading a register is a system call.
\<close>

section \<open>Counting the checks\<close>

record tally =
  g_pass :: nat
  g_fail :: nat

definition check :: "bool \<Rightarrow> tally \<Rightarrow> tally" where
  "check c t = (if c then t\<lparr>g_pass := g_pass t + 1\<rparr> else t\<lparr>g_fail := g_fail t + 1\<rparr>)"

definition check_eq :: "u32 \<Rightarrow> u32 \<Rightarrow> tally \<Rightarrow> tally" where
  "check_eq got exp t = check (got = exp) t"

definition check_ge :: "u32 \<Rightarrow> u32 \<Rightarrow> tally \<Rightarrow> tally" where
  "check_ge got minv t = check (got \<ge> minv) t"

definition check_gt0 :: "u32 \<Rightarrow> tally \<Rightarrow> tally" where
  "check_gt0 got t = check (got > 0) t"

text \<open>\<^verbatim>\<open>g_fail++\<close> where a phase gives up.\<close>

definition count_fail :: "tally \<Rightarrow> tally" where
  "count_fail t = t\<lparr>g_fail := g_fail t + 1\<rparr>"

section \<open>Registers\<close>

definition kRegBlockPairOut :: u64 where "kRegBlockPairOut = 0x0034"
definition kRegSrc0Decoded :: u64 where "kRegSrc0Decoded = 0x0040"
definition kRegSrc1Decoded :: u64 where "kRegSrc1Decoded = 0x0044"
definition kRegMrgMerged :: u64 where "kRegMrgMerged = 0x0058"
definition kRegMrgDropped :: u64 where "kRegMrgDropped = 0x005C"
definition kRegS5Input :: u64 where "kRegS5Input = 0x0060"
definition kRegS5Encoded :: u64 where "kRegS5Encoded = 0x0064"
definition kRegS5Written :: u64 where "kRegS5Written = 0x006C"
definition kRegPerfCycles :: u64 where "kRegPerfCycles = 0x0070"

lemmas counter_reg_defs = kRegBlockPairOut_def kRegSrc0Decoded_def kRegSrc1Decoded_def
  kRegMrgMerged_def kRegMrgDropped_def kRegS5Input_def kRegS5Encoded_def kRegS5Written_def kRegPerfCycles_def

text \<open>\<^verbatim>\<open>reg_read\<close> starts from 0 and ignores failures; \<^verbatim>\<open>reg_write\<close> ignores them too.\<close>

definition reg_read :: "'w posix \<Rightarrow> u64 \<Rightarrow> u64 \<Rightarrow> xdma \<Rightarrow> 'w \<Rightarrow> u32 \<times> xdma \<times> 'w" where
  "reg_read os base off x w = (case read_reg os x (base + off) 0 w of (_, v, x', w') \<Rightarrow> (v, x', w'))"

definition reg_write :: "'w posix \<Rightarrow> u64 \<Rightarrow> u64 \<Rightarrow> u32 \<Rightarrow> xdma \<Rightarrow> 'w \<Rightarrow> xdma \<times> 'w" where
  "reg_write os base off v x w = (case write_reg os x (base + off) v w of (_, x', w') \<Rightarrow> (x', w'))"

fun reg_writes :: "'w posix \<Rightarrow> u64 \<Rightarrow> (u64 \<times> u32) list \<Rightarrow> xdma \<Rightarrow> 'w \<Rightarrow> xdma \<times> 'w" where
  "reg_writes os base [] x w = (x, w)"
| "reg_writes os base ((off, v) # ps) x w =
     (case reg_write os base off v x w of (x', w') \<Rightarrow> reg_writes os base ps x' w')"

section \<open>The footers of the output area\<close>

fun find_ends_loop :: "byte list \<Rightarrow> nat \<Rightarrow> nat \<Rightarrow> nat list" where
  "find_ends_loop buf i 0 = []"
| "find_ends_loop buf i (Suc n) =
     (if take 8 (drop (i - 8) buf) = kMagic then i # find_ends_loop buf (Suc i) n
      else find_ends_loop buf (Suc i) n)"

text \<open>The loop runs from 8 to \<open>len\<close>.\<close>

definition find_all_sstable_ends :: "byte list \<Rightarrow> nat \<Rightarrow> nat list" where
  "find_all_sstable_ends buf len = (if len < 8 then [] else find_ends_loop buf 8 (len - 7))"

section \<open>One phase\<close>

definition kSrc0Ddr :: u64 where "kSrc0Ddr = 0x00000000"
definition kSrc1Ddr :: u64 where "kSrc1Ddr = 0x00100000"
definition kDstDdr :: u64 where "kDstDdr = 0x00200000"
definition kMidDdr :: u64 where "kMidDdr = 0x00300000"
definition kDstStride :: u32 where "kDstStride = 0x00010000"
definition dst_fill :: nat where "dst_fill = 0x40000"

record phase_expect =
  exp_pairs :: u32
  exp_s0_dec :: u32
  exp_s1_dec :: u32
  exp_mrg_merged :: u32
  exp_mrg_dropped :: u32
  exp_s5_input :: u32
  exp_s5_encoded :: u32
  exp_min_sst_count :: u32

definition phase_program :: "byte list \<Rightarrow> byte list \<Rightarrow> u32 \<Rightarrow> (u64 \<times> u32) list" where
  "phase_program src0 src1 max_file_size =
     [(kRegSrc0BaseLo, ucast kSrc0Ddr),
      (kRegSrc0BaseHi, ucast (drop_bit 32 kSrc0Ddr)),
      (kRegSrc0Size, of_nat (length src0)),
      (kRegSrc1BaseLo, ucast kSrc1Ddr),
      (kRegSrc1BaseHi, ucast (drop_bit 32 kSrc1Ddr)),
      (kRegSrc1Size, of_nat (length src1)),
      (kRegDstBaseLo, ucast kDstDdr),
      (kRegDstBaseHi, ucast (drop_bit 32 kDstDdr)),
      (kRegDstStride, kDstStride),
      (kRegMidBaseLo, ucast kMidDdr),
      (kRegMidBaseHi, ucast (drop_bit 32 kMidDdr)),
      (kRegMaxFileSize, max_file_size)]"

text \<open>The polling loop; unlike the driver's it goes on when a read fails.\<close>

partial_function (option) phase_poll ::
  "'w posix \<Rightarrow> u64 \<Rightarrow> u64 \<Rightarrow> xdma \<Rightarrow> 'w \<Rightarrow> (u32 \<times> xdma \<times> 'w) option" where
  "phase_poll os base deadline x w =
     (let w1 = os_usleep os 1000 w;
          (st, x1, w2) = reg_read os base kRegStatus x w1
      in if st AND (kStatusDone OR kStatusError) = 0
         then (let (t, w3) = os_now_ms os w2
               in if t < deadline then phase_poll os base deadline x1 w3 else Some (st, x1, w3))
         else Some (st, x1, w2))"

text \<open>The counters with their expected values, in the order in which they are read.\<close>

definition phase_counters :: "phase_expect \<Rightarrow> (u64 \<times> u32) list" where
  "phase_counters e =
     [(kRegBlockPairOut, exp_pairs e), (kRegSrc0Decoded, exp_s0_dec e), (kRegSrc1Decoded, exp_s1_dec e),
      (kRegMrgMerged, exp_mrg_merged e), (kRegMrgDropped, exp_mrg_dropped e),
      (kRegS5Input, exp_s5_input e), (kRegS5Encoded, exp_s5_encoded e)]"

fun check_counters ::
  "'w posix \<Rightarrow> u64 \<Rightarrow> (u64 \<times> u32) list \<Rightarrow> tally \<Rightarrow> xdma \<Rightarrow> 'w \<Rightarrow> tally \<times> xdma \<times> 'w" where
  "check_counters os base [] t x w = (t, x, w)"
| "check_counters os base ((reg, exp) # rs) t x w =
     (case reg_read os base reg x w of (v, x1, w1) \<Rightarrow> check_counters os base rs (check_eq v exp t) x1 w1)"

text \<open>The loop over the sizes: \<open>n\<close> rounds are left, the total is only printed.\<close>

fun check_sizes :: "'w posix \<Rightarrow> u64 \<Rightarrow> nat \<Rightarrow> nat \<Rightarrow> tally \<Rightarrow> xdma \<Rightarrow> 'w \<Rightarrow> tally \<times> xdma \<times> 'w" where
  "check_sizes os base 0 i t x w = (t, x, w)"
| "check_sizes os base (Suc n) i t x w =
     (case reg_read os base (kRegSstableSizesBase + of_nat (i * 4)) x w of
        (sz, x1, w1) \<Rightarrow> check_sizes os base n (Suc i) (check_gt0 sz t) x1 w1)"

text \<open>After DONE: counters, sizes, the output area. \<open>prev_fail\<close> is \<^verbatim>\<open>g_fail\<close> at the start.\<close>

definition phase_verify ::
  "'w posix \<Rightarrow> u64 \<Rightarrow> phase_expect \<Rightarrow> nat \<Rightarrow> tally \<Rightarrow> xdma \<Rightarrow> 'w \<Rightarrow> (bool \<times> tally \<times> xdma \<times> 'w) option" where
  "phase_verify os base e prev_fail t x w =
     (let (perf, x1, w1) = reg_read os base kRegPerfCycles x w;
          (t2, x2, w2) = check_counters os base (phase_counters e) t x1 w1;
          (wr, x3, w3) = reg_read os base kRegS5Written x2 w2;
          t3 = check_gt0 wr t2;
          (cnt, x4, w4) = reg_read os base kRegSstableCount x3 w3;
          t4 = check_ge cnt (exp_min_sst_count e) t3;
          (t5, x5, w5) = check_sizes os base (min (unat cnt) 8) 0 t4 x4 w4
      in case dma_from_device os x5 kDstDdr (replicate dst_fill 0) (of_nat dst_fill) w5 of
           None \<Rightarrow> None
         | Some (ok, out, x6, w6) \<Rightarrow>
             if \<not> ok then Some (False, count_fail t5, x6, w6)
             else
               (let ends = find_all_sstable_ends out dst_fill;
                    t6 = check (unat cnt \<le> length ends) t5;
                    t7 = (if ends \<noteq> [] then check (48 < ends ! 0) t6 else t6)
                in Some (g_fail t7 = prev_fail, t7, x6, w6)))"

text \<open>The end of the polling: error, timeout or done.\<close>

definition phase_collect ::
  "'w posix \<Rightarrow> u64 \<Rightarrow> phase_expect \<Rightarrow> nat \<Rightarrow> tally \<Rightarrow> xdma \<Rightarrow> 'w \<Rightarrow> (bool \<times> tally \<times> xdma \<times> 'w) option" where
  "phase_collect os base e prev_fail t x w =
     (let (now, w1) = os_now_ms os w
      in case phase_poll os base (now + 30000) x w1 of
           None \<Rightarrow> None
         | Some (st, x2, w2) \<Rightarrow>
             if st AND kStatusError \<noteq> 0
             then (let (a, x3, w3) = reg_read os base kRegBlockPairOut x2 w2;
                       (b, x4, w4) = reg_read os base kRegPerfCycles x3 w3
                   in Some (False, count_fail t, x4, w4))
             else if st AND kStatusDone = 0 then Some (False, count_fail t, x2, w2)
             else phase_verify os base e prev_fail t x2 w2)"

definition run_phase ::
  "'w posix \<Rightarrow> u64 \<Rightarrow> byte list \<Rightarrow> byte list \<Rightarrow> u32 \<Rightarrow> phase_expect \<Rightarrow> tally \<Rightarrow> xdma \<Rightarrow> 'w
     \<Rightarrow> (bool \<times> tally \<times> xdma \<times> 'w) option" where
  "run_phase os base src0 src1 max_file_size e t x w =
     (let (x1, w1) = reg_write os base kRegCtrl 0x2 x w;
          (x2, w2) = reg_write os base kRegCtrl 0x0 x1 (os_usleep os 10000 w1);
          w3 = os_usleep os 5000 w2
      in case dma_to_device os x2 kSrc0Ddr src0 (of_nat (length src0)) w3 of
           None \<Rightarrow> None
         | Some (ok0, x4, w4) \<Rightarrow>
             if \<not> ok0 then Some (False, count_fail t, x4, w4)
             else
               (case dma_to_device os x4 kSrc1Ddr src1 (of_nat (length src1)) w4 of
                  None \<Rightarrow> None
                | Some (ok1, x5, w5) \<Rightarrow>
                    if \<not> ok1 then Some (False, count_fail t, x5, w5)
                    else
                      (case dma_to_device os x5 kDstDdr (replicate dst_fill 0xA5) (of_nat dst_fill) w5 of
                         None \<Rightarrow> None
                       | Some (_, x6, w6) \<Rightarrow>
                           (let (x7, w7) = reg_writes os base (phase_program src0 src1 max_file_size) x6 w6;
                                (x8, w8) = reg_write os base kRegCtrl 0x1 x7 w7
                            in phase_collect os base e (g_fail t) t x8 w8))))"

section \<open>The program\<close>

definition split_expect :: "u32 \<Rightarrow> phase_expect" where
  "split_expect n = \<lparr>exp_pairs = 4, exp_s0_dec = 16, exp_s1_dec = 8, exp_mrg_merged = 20,
     exp_mrg_dropped = 4, exp_s5_input = 20, exp_s5_encoded = 20, exp_min_sst_count = n\<rparr>"

text \<open>The four phases: size limit and least number of outputs.\<close>

definition split_phases :: "(u32 \<times> u32) list" where
  "split_phases = [(0, 1), (4200, 2), (4400, 2), (10000, 1)]"

fun run_phases ::
  "'w posix \<Rightarrow> (u32 \<times> u32) list \<Rightarrow> tally \<Rightarrow> xdma \<Rightarrow> 'w \<Rightarrow> (tally \<times> xdma \<times> 'w) option" where
  "run_phases os [] t x w = Some (t, x, w)"
| "run_phases os ((m, n) # ps) t x w =
     (case run_phase os 0 make_src0_split make_src1_split m (split_expect n) t x w of
        None \<Rightarrow> None
      | Some (_, t', x', w') \<Rightarrow> run_phases os ps t' x' w')"

text \<open>The exit code, the counted checks, and the world after the destructor of \<^verbatim>\<open>XdmaAccess\<close>.\<close>

definition split_main :: "'w posix \<Rightarrow> 'w \<Rightarrow> (nat \<times> tally \<times> 'w) option" where
  "split_main os w =
     (let t0 = \<lparr>g_pass = 0, g_fail = 0\<rparr>;
          x0 = xdma_new ''/dev/xdma0_h2c_0'' ''/dev/xdma0_c2h_0'' ''/dev/xdma0_user'';
          (opened, x1, w1) = xdma_open os x0 w
      in if \<not> opened then Some (1, t0, snd (xdma_close os x1 w1))
         else
           (case run_phases os split_phases t0 x1 w1 of
              None \<Rightarrow> None
            | Some (t, x2, w2) \<Rightarrow>
                Some (if g_fail t = 0 then 0 else 1, t, snd (xdma_close os x2 w2))))"

section \<open>What a verdict means\<close>

lemma g_fail_check: "g_fail (check c t) = (if c then g_fail t else Suc (g_fail t))"
  by (simp add: check_def)

lemma check_pass: "c \<Longrightarrow> check c t = t\<lparr>g_pass := g_pass t + 1\<rparr>"
  by (simp add: check_def)

lemma check_fails: "g_fail t \<le> g_fail (check c t)"
  by (simp add: check_def)

lemma check_counters_fails: "check_counters os base rs t x w = (t', x', w') \<Longrightarrow> g_fail t \<le> g_fail t'"
proof (induction rs arbitrary: t x w)
  case Nil
  then show ?case by simp
next
  case (Cons r rs)
  obtain reg ex where r: "r = (reg, ex)" by fastforce
  obtain v x1 w1 where rd: "reg_read os base reg x w = (v, x1, w1)" using prod_cases3 by blast
  have "g_fail (check_eq v ex t) \<le> g_fail t'" using Cons rd by (simp add: r)
  moreover have "g_fail t \<le> g_fail (check_eq v ex t)" by (simp add: check_eq_def check_fails)
  ultimately show ?case by simp
qed

lemma check_sizes_fails: "check_sizes os base n i t x w = (t', x', w') \<Longrightarrow> g_fail t \<le> g_fail t'"
proof (induction n arbitrary: i t x w)
  case 0
  then show ?case by simp
next
  case (Suc n)
  obtain v x1 w1 where rd: "reg_read os base (kRegSstableSizesBase + of_nat (i * 4)) x w = (v, x1, w1)"
    using prod_cases3 by blast
  have "g_fail (check_gt0 v t) \<le> g_fail t'" using Suc.IH [of "Suc i" "check_gt0 v t" x1 w1] Suc.prems rd
    by simp
  moreover have "g_fail t \<le> g_fail (check_gt0 v t)" by (simp add: check_gt0_def check_fails)
  ultimately show ?case by simp
qed

text \<open>A phase that reports no failure counts none; one that reports failure counts at least one.\<close>

definition verdict :: "tally \<Rightarrow> bool \<times> tally \<times> 'x \<Rightarrow> bool" where
  "verdict t r \<longleftrightarrow> g_fail t \<le> g_fail (fst (snd r)) \<and> (fst r \<longleftrightarrow> g_fail (fst (snd r)) = g_fail t)"


lemma verdict_giveup: "verdict t (False, count_fail t, y)"
  by (simp add: verdict_def count_fail_def)

lemma verdict_fails: "g_fail t \<le> g_fail t' \<Longrightarrow> verdict t (g_fail t' = g_fail t, t', y)"
  by (simp add: verdict_def)

lemma phase_verify_verdict:
  assumes "phase_verify os base e (g_fail t) t x w = Some r"
  shows "verdict t r"
proof -
  obtain perf x1 w1 where r1: "reg_read os base kRegPerfCycles x w = (perf, x1, w1)" using prod_cases3 by blast
  obtain t2 x2 w2 where r2: "check_counters os base (phase_counters e) t x1 w1 = (t2, x2, w2)" using prod_cases3 by blast
  obtain wr x3 w3 where r3: "reg_read os base kRegS5Written x2 w2 = (wr, x3, w3)" using prod_cases3 by blast
  obtain cnt x4 w4 where r4: "reg_read os base kRegSstableCount x3 w3 = (cnt, x4, w4)" using prod_cases3 by blast
  let ?t4 = "check_ge cnt (exp_min_sst_count e) (check_gt0 wr t2)"
  obtain t5 x5 w5 where r5: "check_sizes os base (min (unat cnt) 8) 0 ?t4 x4 w4 = (t5, x5, w5)" using prod_cases3 by blast
  have "g_fail t \<le> g_fail t2" using r2 by (rule check_counters_fails)
  also have "\<dots> \<le> g_fail (check_gt0 wr t2)" by (simp only: check_gt0_def check_fails)
  also have "\<dots> \<le> g_fail ?t4" by (simp only: check_ge_def check_fails)
  also have "\<dots> \<le> g_fail t5" using r5 by (rule check_sizes_fails)
  finally have t5: "g_fail t \<le> g_fail t5" .
  obtain ok out x6 w6 where
    dma: "dma_from_device os x5 kDstDdr (replicate dst_fill 0) (of_nat dst_fill) w5 = Some (ok, out, x6, w6)"
    using assms by (auto simp: phase_verify_def r1 r2 r3 r4 r5 split: option.splits)
  show ?thesis
  proof (cases ok)
    case False
    then show ?thesis using assms t5 by (auto simp: phase_verify_def r1 r2 r3 r4 r5 dma verdict_def count_fail_def)
  next
    case True
    let ?ends = "find_all_sstable_ends out dst_fill"
    let ?t6 = "check (unat cnt \<le> length ?ends) t5"
    let ?t7 = "if ?ends \<noteq> [] then check (48 < ?ends ! 0) ?t6 else ?t6"
    have "g_fail t \<le> g_fail ?t6" using t5 check_fails [of t5 "unat cnt \<le> length ?ends"] by linarith
    moreover have "g_fail ?t6 \<le> g_fail ?t7" using check_fails [of ?t6] by simp
    ultimately have "g_fail t \<le> g_fail ?t7" by linarith
    moreover have "r = (g_fail ?t7 = g_fail t, ?t7, x6, w6)"
      using assms True by (simp add: phase_verify_def r1 r2 r3 r4 r5 dma Let_def)
    ultimately show ?thesis by (simp only: verdict_fails)
  qed
qed

lemma phase_collect_verdict:
  assumes "phase_collect os base e (g_fail t) t x w = Some r"
  shows "verdict t r"
proof -
  obtain now w1 where r1: "os_now_ms os w = (now, w1)" by fastforce
  obtain st x2 w2 where poll: "phase_poll os base (now + 30000) x w1 = Some (st, x2, w2)"
    using assms by (auto simp: phase_collect_def r1 split: option.splits)
  obtain a x3 w3 where r3: "reg_read os base kRegBlockPairOut x2 w2 = (a, x3, w3)" using prod_cases3 by blast
  obtain b x4 w4 where r4: "reg_read os base kRegPerfCycles x3 w3 = (b, x4, w4)" using prod_cases3 by blast
  have "phase_verify os base e (g_fail t) t x w = Some r \<Longrightarrow> verdict t r" for x w
    by (rule phase_verify_verdict)
  with assms show ?thesis
    by (auto simp: phase_collect_def r1 poll r3 r4 verdict_giveup split: if_splits)
qed

lemma run_phase_verdict_lemma:
  assumes "run_phase os base src0 src1 m e t x w = Some r"
  shows "verdict t r"
proof -
  obtain x1 w1 where r1: "reg_write os base kRegCtrl 0x2 x w = (x1, w1)" by fastforce
  obtain x2 w2 where r2: "reg_write os base kRegCtrl 0x0 x1 (os_usleep os 10000 w1) = (x2, w2)" by fastforce
  have "phase_collect os base e (g_fail t) t x w = Some r \<Longrightarrow> verdict t r" for x w
    by (rule phase_collect_verdict)
  with assms show ?thesis
    by (auto simp: run_phase_def r1 r2 Let_def verdict_giveup split: option.splits if_splits prod.splits)
qed

text \<open>
  A phase of the split test returns true exactly when it has counted no failure, whatever the
  operating system and the card do; so a phase that gives up early (a failed transfer, an engine
  error, a timeout) is never lost.
\<close>

theorem run_phase_verdict:
  assumes "run_phase os base src0 src1 m e t x w = Some (ok, t', x', w')"
  shows "g_fail t \<le> g_fail t' \<and> (ok \<longleftrightarrow> g_fail t' = g_fail t)"
  using run_phase_verdict_lemma [OF assms] by (simp add: verdict_def)

text \<open>The exit code is 0 exactly when every phase that ran returned true.\<close>

fun all_phases_ok ::
  "'w posix \<Rightarrow> (u32 \<times> u32) list \<Rightarrow> tally \<Rightarrow> xdma \<Rightarrow> 'w \<Rightarrow> bool" where
  "all_phases_ok os [] t x w = True"
| "all_phases_ok os ((m, n) # ps) t x w =
     (case run_phase os 0 make_src0_split make_src1_split m (split_expect n) t x w of
        None \<Rightarrow> False
      | Some (ok, t', x', w') \<Rightarrow> ok \<and> all_phases_ok os ps t' x' w')"

lemma run_phases_verdict:
  "run_phases os ps t x w = Some (t', x', w') \<Longrightarrow>
    g_fail t \<le> g_fail t' \<and> (all_phases_ok os ps t x w \<longleftrightarrow> g_fail t' = g_fail t)"
proof (induction ps arbitrary: t x w)
  case Nil
  then show ?case by simp
next
  case (Cons p ps)
  obtain m n where p: "p = (m, n)" by fastforce
  from Cons.prems obtain ok t1 x1 w1 where
    ph: "run_phase os 0 make_src0_split make_src1_split m (split_expect n) t x w = Some (ok, t1, x1, w1)"
    and rest: "run_phases os ps t1 x1 w1 = Some (t', x', w')"
    by (auto simp: p split: option.splits)
  have "verdict t (ok, t1, x1, w1)" using ph by (rule run_phase_verdict_lemma)
  then have "g_fail t \<le> g_fail t1" "ok \<longleftrightarrow> g_fail t1 = g_fail t" by (simp_all add: verdict_def)
  with Cons.IH [OF rest] show ?case by (auto simp: p ph)
qed

text \<open>
  The split test exits with 0 exactly when the devices could be opened and all four phases passed.
\<close>

theorem split_main_exit_code:
  assumes "split_main os w = Some (code, t, w')"
  shows "code = 0 \<longleftrightarrow>
    (case xdma_open os (xdma_new ''/dev/xdma0_h2c_0'' ''/dev/xdma0_c2h_0'' ''/dev/xdma0_user'') w of
       (opened, x1, w1) \<Rightarrow> opened \<and> all_phases_ok os split_phases \<lparr>g_pass = 0, g_fail = 0\<rparr> x1 w1)"
proof -
  obtain opened x1 w1 where
    op: "xdma_open os (xdma_new ''/dev/xdma0_h2c_0'' ''/dev/xdma0_c2h_0'' ''/dev/xdma0_user'') w = (opened, x1, w1)"
    using prod_cases3 by blast
  show ?thesis
  proof (cases opened)
    case False
    then show ?thesis using assms op by (auto simp: split_main_def)
  next
    case True
    then obtain t2 x2 w2 where
      ph: "run_phases os split_phases \<lparr>g_pass = 0, g_fail = 0\<rparr> x1 w1 = Some (t2, x2, w2)"
      using assms op by (auto simp: split_main_def split: option.splits)
    have "code = (if g_fail t2 = 0 then 0 else 1)" using assms op ph True by (auto simp: split_main_def)
    then show ?thesis using op True run_phases_verdict [OF ph] by simp
  qed
qed

section \<open>Footers\<close>

lemma find_ends_loop_filter:
  "find_ends_loop buf i n = filter (\<lambda>j. take 8 (drop (j - 8) buf) = kMagic) [i..<i + n]"
proof (induction n arbitrary: i)
  case 0
  then show ?case by simp
next
  case (Suc n)
  have "[i..<i + Suc n] = i # [Suc i..<Suc i + n]" by (simp add: upt_rec)
  then show ?case by (simp only: find_ends_loop.simps Suc filter.simps)
qed

lemma find_all_ends_filter: "find_all_sstable_ends buf len = filter (magic_at buf) [8..<Suc len]"
proof -
  have "find_ends_loop buf 8 (len - 7) = filter (magic_at buf) [8..<8 + (len - 7)]"
    unfolding find_ends_loop_filter by (rule filter_cong) (auto simp: magic_at_def)
  then show ?thesis by (simp add: find_all_sstable_ends_def)
qed

lemma find_all_ends_set: "set (find_all_sstable_ends buf len) = {j. j \<le> len \<and> magic_at buf j}"
  by (auto simp: find_all_ends_filter magic_at_def)

lemma find_all_ends_sorted: "sorted_wrt (<) (find_all_sstable_ends buf len)"
  unfolding find_all_ends_filter by (intro sorted_wrt_filter) (rule sorted_wrt_upt)

lemma sorted_last_ge: "sorted_wrt (<) (xs :: nat list) \<Longrightarrow> x \<in> set xs \<Longrightarrow> x \<le> last xs"
  by (induction xs) (auto simp: order.strict_implies_order)

text \<open>
  The two footer scans agree: the forward scan of the split test returns all positions in order, and its
  last element is what the driver's backward scan \<^verbatim>\<open>FindSStableEnd\<close> returns; when it finds none, the
  driver returns 0.
\<close>

theorem footer_scans_agree:
  "set (find_all_sstable_ends buf len) = {j. j \<le> len \<and> magic_at buf j} \<and>
   sorted_wrt (<) (find_all_sstable_ends buf len) \<and>
   find_sstable_end buf len =
     (if find_all_sstable_ends buf len = [] then 0 else last (find_all_sstable_ends buf len))"
proof -
  let ?ends = "find_all_sstable_ends buf len"
  have "find_sstable_end buf len = (if ?ends = [] then 0 else last ?ends)"
  proof (cases "?ends = []")
    case True
    then have "\<not> magic_at buf j" if "j \<le> len" for j using find_all_ends_set [of buf len] that by auto
    then show ?thesis using True find_end_none by simp
  next
    case False
    then have l: "last ?ends \<le> len" "magic_at buf (last ?ends)"
      using last_in_set [OF False] find_all_ends_set [of buf len] by auto
    moreover have "\<not> magic_at buf j" if "last ?ends < j" "j \<le> len" for j
      using that sorted_last_ge [OF find_all_ends_sorted, of j buf len] find_all_ends_set [of buf len] by auto
    ultimately show ?thesis using find_sstable_end_iff [of buf len "last ?ends"] False by simp
  qed
  then show ?thesis using find_all_ends_set find_all_ends_sorted by blast
qed

end
