(* ===== verification/Split_Card.thy ===== *)
theory Split_Card
  imports Split_Test Card_Offload
begin

text \<open>
  The split test on the card: its polling loop follows the driver's, and a phase is computed in closed
  form, from the engine's result to the verdict.
\<close>

section \<open>The two polling loops\<close>

text \<open>A kernel that reports four bytes has stored four bytes.\<close>

definition full_reads :: "'w posix \<Rightarrow> bool" where
  "full_reads os \<longleftrightarrow> (\<forall>fd a w. fst (fst (os_pread os fd 4 a w)) = 4 \<longrightarrow> 4 \<le> length (snd (fst (os_pread os fd 4 a w))))"

lemma read_reg_old:
  assumes "full_reads os" and "read_reg os x a old w = (True, v, x', w')"
  shows "read_reg os x a old' w = (True, v, x', w')"
proof -
  obtain n bs w1 where pr: "os_pread os (user_fd x) 4 a w = ((n, bs), w1)" using prod_cases3 by (metis prod.exhaust)
  then have n: "n = 4" and v: "v = of_le32 (overwrite (le32 old) 0 (take 4 bs))" and r: "x' = x" "w' = w1"
    using assms(2) by (auto simp: read_reg_def Let_def split: if_splits)
  have "4 \<le> length bs" using assms(1) pr n unfolding full_reads_def by (metis fst_conv snd_conv)
  then have "overwrite (le32 o') 0 (take 4 bs) = take 4 bs" for o' by (intro overwrite_all) simp
  then show ?thesis using pr n v r by (simp add: read_reg_def)
qed

text \<open>
  Whenever the driver's polling loop ends with a status, the test's loop ends with the same one, in the
  same world.
\<close>

lemma phase_poll_follows_loop:
  assumes "poll_loop os base deadline st x w = Some r"
  shows "full_reads os \<longrightarrow> (\<forall>s x1 w1. r = (Inr s, x1, w1) \<longrightarrow> phase_poll os base deadline x w = Some (s, x1, w1))"
proof (induction rule: poll_loop_induct [OF _ assms])
  case (1 f os base deadline st x w r)
  show ?case
  proof (intro impI allI)
    fix s x0 w0
    assume full: "full_reads os" and r: "r = (Inr s, x0, w0)"
    obtain ok st1 x1 w2 where rr: "read_reg os x (base + kRegStatus) st (os_usleep os 1000 w) = (ok, st1, x1, w2)"
      by (metis prod.collapse)
    obtain t w3 where now: "os_now_ms os w2 = (t, w3)" by fastforce
    have ok: ok using 1(2) r rr by (auto simp: Let_def split: if_splits)
    with rr have "read_reg os x (base + kRegStatus) st (os_usleep os 1000 w) = (True, st1, x1, w2)" by simp
    from read_reg_old [OF full this]
    have "read_reg os x (base + kRegStatus) 0 (os_usleep os 1000 w) = (True, st1, x1, w2)" .
    then have rd: "reg_read os base kRegStatus x (os_usleep os 1000 w) = (st1, x1, w2)"
      by (simp add: reg_read_def)
    show "phase_poll os base deadline x w = Some (s, x0, w0)"
    proof (cases "st1 AND (kStatusDone OR kStatusError) = 0 \<and> t < deadline")
      case True
      then have "f os base deadline st1 x1 w3 = Some r" using 1(2) rr now ok by (simp add: Let_def)
      from 1(1) [OF this] have "phase_poll os base deadline x1 w3 = Some (s, x0, w0)" using full r by simp
      then show ?thesis using True by (subst phase_poll.simps) (simp add: rd now)
    next
      case False
      have step: "phase_poll os base deadline x w =
          (if st1 AND (kStatusDone OR kStatusError) = 0 then Some (st1, x1, w3) else Some (st1, x1, w2))"
        using False by (subst phase_poll.simps) (simp add: rd now)
      from False have "r = (Inr st1, x1, if st1 AND (kStatusDone OR kStatusError) = 0 then w3 else w2)"
        using 1(2) ok by (simp add: rr now split: if_splits)
      then show ?thesis using r step by simp
    qed
  qed
qed

lemmas phase_poll_follows = phase_poll_follows_loop [rule_format]

section \<open>Register access on the card\<close>

lemma card_full_reads: "full_reads (card_os eng)"
proof -
  have "4 \<le> length (snd (fst (card_pread fd 4 a w)))" if "fst (fst (card_pread fd 4 a w)) = 4" for fd a w
    using that by (auto simp: card_pread_def min_def split: option.splits ofd.splits dev.splits if_splits)
  then show ?thesis by (simp add: full_reads_def)
qed

lemma reg_write_card:
  "regs_ready x w \<Longrightarrow> reg_write (card_os eng) 0 off v x w = (x, card_reg_write eng (ucast off) v w)"
  by (simp add: reg_write_def write_reg_card)

lemma reg_read_card:
  "status_ready x w \<Longrightarrow> reg_read (card_os eng) 0 off x w = (card_reg_read w (ucast off), x, w)"
  by (simp add: reg_read_def read_reg_card)

lemma reg_writes_write_regs: "reg_writes os base ps x w = write_regs os base ps x w"
proof (induction ps arbitrary: x w)
  case Nil
  then show ?case by simp
next
  case (Cons p ps)
  obtain off v where p: "p = (off, v)" by fastforce
  obtain ok x1 w1 where wr: "write_reg os x (base + off) v w = (ok, x1, w1)" using prod_cases3 by blast
  show ?case using Cons by (simp add: p reg_write_def wr)
qed

text \<open>The program of the test is that of the driver for the default configuration.\<close>

lemma phase_program_register_program:
  "phase_program s0 s1 m =
     register_program default_config (of_nat (length s0)) (of_nat (length s1)) m"
proof -
  have "(ucast (of_nat n :: u64) :: u32) = of_nat n" for n
    by (rule bit_word_eqI) (auto simp: bit_simps)
  then show ?thesis
    by (simp add: phase_program_def register_program_def default_config_def kSrc0Ddr_def kSrc1Ddr_def kDstDdr_def
        kMidDdr_def kDstStride_def lo32_def hi32_def)
qed


section \<open>Checks over registers that keep still\<close>

text \<open>After DONE the registers no longer change: every read gives \<open>rd\<close> and leaves the world alone.\<close>

definition still_regs :: "'w posix \<Rightarrow> (u64 \<Rightarrow> u32) \<Rightarrow> xdma \<Rightarrow> 'w \<Rightarrow> bool" where
  "still_regs os rd x w \<longleftrightarrow> (\<forall>off. reg_read os 0 off x w = (rd off, x, w))"

lemma check_counters_still:
  assumes "still_regs os rd x w"
  shows "\<exists>t'. check_counters os 0 rs t x w = (t', x, w) \<and> g_fail t \<le> g_fail t' \<and>
    (g_fail t' = g_fail t \<longleftrightarrow> (\<forall>(reg, ex)\<in>set rs. rd reg = ex))"
proof (induction rs arbitrary: t)
  case Nil
  then show ?case by simp
next
  case (Cons r rs)
  obtain reg ex where r: "r = (reg, ex)" by fastforce
  let ?t1 = "check_eq (rd reg) ex t"
  obtain t' where IH: "check_counters os 0 rs ?t1 x w = (t', x, w)" "g_fail ?t1 \<le> g_fail t'"
    "g_fail t' = g_fail ?t1 \<longleftrightarrow> (\<forall>(reg, ex)\<in>set rs. rd reg = ex)"
    using Cons.IH [of ?t1] by (elim exE conjE)
  have rd: "reg_read os 0 reg x w = (rd reg, x, w)" using assms by (simp only: still_regs_def)
  have step: "check_counters os 0 (r # rs) t x w = (t', x, w)"
    by (simp only: r check_counters.simps rd prod.case IH(1))
  have t1: "g_fail ?t1 = (if rd reg = ex then g_fail t else Suc (g_fail t))" by (simp only: check_eq_def g_fail_check)
  have all: "(\<forall>(reg, ex)\<in>set (r # rs). rd reg = ex) \<longleftrightarrow> rd reg = ex \<and> (\<forall>(reg, ex)\<in>set rs. rd reg = ex)"
    by (simp add: r)
  have "g_fail t \<le> g_fail t' \<and> (g_fail t' = g_fail t \<longleftrightarrow> (\<forall>(reg, ex)\<in>set (r # rs). rd reg = ex))"
    unfolding all using t1 IH(2,3) by (simp split: if_splits)
  then show ?case using step by (intro exI [of _ t']) (simp only: simp_thms)
qed

lemma check_sizes_still:
  assumes "still_regs os rd x w"
  shows "\<exists>t'. check_sizes os 0 n i t x w = (t', x, w) \<and> g_fail t \<le> g_fail t' \<and>
    (g_fail t' = g_fail t \<longleftrightarrow> (\<forall>j. i \<le> j \<and> j < i + n \<longrightarrow> 0 < rd (kRegSstableSizesBase + of_nat (j * 4))))"
proof (induction n arbitrary: i t)
  case 0
  then show ?case by auto
next
  case (Suc n)
  let ?v = "rd (kRegSstableSizesBase + of_nat (i * 4))"
  let ?t1 = "check_gt0 ?v t"
  obtain t' where IH: "check_sizes os 0 n (Suc i) ?t1 x w = (t', x, w)" "g_fail ?t1 \<le> g_fail t'"
    "g_fail t' = g_fail ?t1 \<longleftrightarrow>
      (\<forall>j. Suc i \<le> j \<and> j < Suc i + n \<longrightarrow> 0 < rd (kRegSstableSizesBase + of_nat (j * 4)))"
    using Suc by blast
  have split: "(\<forall>j. i \<le> j \<and> j < i + Suc n \<longrightarrow> P j) \<longleftrightarrow> P i \<and> (\<forall>j. Suc i \<le> j \<and> j < Suc i + n \<longrightarrow> P j)" for P
    by (metis add_Suc_right add_Suc Suc_le_eq le_eq_less_or_eq less_add_same_cancel1 zero_less_Suc)
  have rd: "reg_read os 0 (kRegSstableSizesBase + of_nat (i * 4)) x w = (?v, x, w)"
    using assms by (simp only: still_regs_def)
  have step: "check_sizes os 0 (Suc n) i t x w = (t', x, w)"
    by (simp only: check_sizes.simps rd prod.case IH(1))
  have t1: "g_fail ?t1 = (if 0 < ?v then g_fail t else Suc (g_fail t))" by (simp only: check_gt0_def g_fail_check)
  show ?case
    by (rule exI [of _ t']) (use step t1 IH(2,3) split [of "\<lambda>j. 0 < rd (kRegSstableSizesBase + of_nat (j * 4))"] in
      \<open>simp split: if_splits\<close>)
qed

text \<open>What the phase requires of the register values \<open>rd\<close> and of the output area.\<close>

definition phase_accepts :: "phase_expect \<Rightarrow> (u64 \<Rightarrow> u32) \<Rightarrow> byte list \<Rightarrow> bool" where
  "phase_accepts e rd out \<longleftrightarrow>
     (\<forall>(reg, ex)\<in>set (phase_counters e). rd reg = ex) \<and> 0 < rd kRegS5Written \<and>
     exp_min_sst_count e \<le> rd kRegSstableCount \<and>
     (\<forall>j<min (unat (rd kRegSstableCount)) 8. 0 < rd (kRegSstableSizesBase + of_nat (j * 4))) \<and>
     unat (rd kRegSstableCount) \<le> card {j. j \<le> dst_fill \<and> magic_at out j} \<and>
     (\<forall>j\<le>48. \<not> magic_at out j)"


lemma find_all_ends_card: "length (find_all_sstable_ends buf len) = card {j. j \<le> len \<and> magic_at buf j}"
proof -
  have "distinct (find_all_sstable_ends buf len)"
    by (simp only: find_all_ends_filter distinct_filter distinct_upt)
  then show ?thesis by (metis distinct_card find_all_ends_set)
qed

lemma first_end_late:
  assumes "48 \<le> len" and "find_all_sstable_ends buf len \<noteq> []"
  shows "48 < find_all_sstable_ends buf len ! 0 \<longleftrightarrow> (\<forall>j\<le>48. \<not> magic_at buf j)"
proof -
  obtain e es where ends: "find_all_sstable_ends buf len = e # es" using assms(2) by (meson list.exhaust)
  then have set: "{j. j \<le> len \<and> magic_at buf j} = set (e # es)" using find_all_ends_set [of buf len] by simp
  have e: "e \<le> len" "magic_at buf e" and least: "\<forall>j\<in>set es. e < j"
    using set find_all_ends_sorted [of buf len] by (auto simp: ends)
  show ?thesis
  proof
    assume "48 < find_all_sstable_ends buf len ! 0"
    then have "48 < e" by (simp add: ends)
    show "\<forall>j\<le>48. \<not> magic_at buf j"
    proof (intro allI impI notI)
      fix j assume "j \<le> 48" and "magic_at buf j"
      then have "j \<in> set (e # es)" unfolding set [symmetric] using assms(1) by simp
      then show False using \<open>48 < e\<close> \<open>j \<le> 48\<close> least by auto
    qed
  next
    assume "\<forall>j\<le>48. \<not> magic_at buf j"
    then have "\<not> e \<le> 48" using e(2) by blast
    then show "48 < find_all_sstable_ends buf len ! 0" by (simp add: ends)
  qed
qed

lemma fails_chain: "a \<le> b \<Longrightarrow> b \<le> c \<Longrightarrow> c = a \<longleftrightarrow> b = a \<and> c = b" for a b c :: nat
  by auto

lemma phase_verify_still:
  assumes still: "still_regs os rd x w"
    and dma: "dma_from_device os x kDstDdr (replicate dst_fill 0) (of_nat dst_fill) w = Some (True, out, x, w)"
  shows "\<exists>t'. phase_verify os 0 e (g_fail t) t x w = Some (phase_accepts e rd out, t', x, w)"
proof -
  have rd: "reg_read os 0 off x w = (rd off, x, w)" for off using still by (simp only: still_regs_def)
  obtain t2 where t2: "check_counters os 0 (phase_counters e) t x w = (t2, x, w)" "g_fail t \<le> g_fail t2"
    "g_fail t2 = g_fail t \<longleftrightarrow> (\<forall>(reg, ex)\<in>set (phase_counters e). rd reg = ex)"
    using check_counters_still [OF still, of "phase_counters e" t] by (elim exE conjE)
  let ?cnt = "rd kRegSstableCount" and ?ends = "find_all_sstable_ends out dst_fill"
  let ?t3 = "check_gt0 (rd kRegS5Written) t2"
  let ?t4 = "check_ge ?cnt (exp_min_sst_count e) ?t3"
  obtain t5 where t5: "check_sizes os 0 (min (unat ?cnt) 8) 0 ?t4 x w = (t5, x, w)" "g_fail ?t4 \<le> g_fail t5"
    "g_fail t5 = g_fail ?t4 \<longleftrightarrow> (\<forall>j. 0 \<le> j \<and> j < 0 + min (unat ?cnt) 8 \<longrightarrow> 0 < rd (kRegSstableSizesBase + of_nat (j * 4)))"
    using check_sizes_still [OF still, of "min (unat ?cnt) 8" 0 ?t4] by (elim exE conjE)
  let ?t6 = "check (unat ?cnt \<le> length ?ends) t5"
  let ?t7 = "if ?ends \<noteq> [] then check (48 < ?ends ! 0) ?t6 else ?t6"
  have res: "phase_verify os 0 e (g_fail t) t x w = Some (g_fail ?t7 = g_fail t, ?t7, x, w)"
    unfolding phase_verify_def rd Let_def prod.case t2(1) t5(1) dma by simp
  have t3: "g_fail t2 \<le> g_fail ?t3" "g_fail ?t3 = g_fail t2 \<longleftrightarrow> 0 < rd kRegS5Written"
    and t4: "g_fail ?t3 \<le> g_fail ?t4" "g_fail ?t4 = g_fail ?t3 \<longleftrightarrow> exp_min_sst_count e \<le> ?cnt"
    and t6: "g_fail t5 \<le> g_fail ?t6" "g_fail ?t6 = g_fail t5 \<longleftrightarrow> unat ?cnt \<le> length ?ends"
    by (simp_all add: check_gt0_def check_ge_def g_fail_check)
  have t7: "g_fail ?t6 \<le> g_fail ?t7" "g_fail ?t7 = g_fail ?t6 \<longleftrightarrow> (?ends \<noteq> [] \<longrightarrow> 48 < ?ends ! 0)"
    by (simp_all add: g_fail_check)
  note up = t2(2) order_trans [OF t2(2) t3(1)]
  have up4: "g_fail t \<le> g_fail ?t4" using up(2) t4(1) by (rule order_trans)
  have up5: "g_fail t \<le> g_fail t5" using up4 t5(2) by (rule order_trans)
  have up6: "g_fail t \<le> g_fail ?t6" using up5 t6(1) by (rule order_trans)
  have late: "(?ends \<noteq> [] \<longrightarrow> 48 < ?ends ! 0) \<longleftrightarrow> (\<forall>j\<le>48. \<not> magic_at out j)"
  proof (cases "?ends = []")
    case True
    have "j \<notin> {j. j \<le> dst_fill \<and> magic_at out j}" for j
      using find_all_ends_set [of out dst_fill] True by simp
    moreover have "48 \<le> dst_fill" by (simp add: dst_fill_def)
    ultimately have "\<forall>j\<le>48. \<not> magic_at out j" by (simp only: mem_Collect_eq) (meson order_trans)
    then show ?thesis using True by simp
  next
    case False
    then show ?thesis using first_end_late [of dst_fill out] by (simp add: dst_fill_def)
  qed
  have sizes: "(\<forall>j. 0 \<le> j \<and> j < 0 + n \<longrightarrow> P j) \<longleftrightarrow> (\<forall>j<n. P j)" for n :: nat and P by simp
  have "g_fail ?t7 = g_fail t \<longleftrightarrow> phase_accepts e rd out"
    unfolding phase_accepts_def find_all_ends_card [symmetric] late [symmetric]
      fails_chain [OF up6 t7(1)] fails_chain [OF up5 t6(1)] fails_chain [OF up4 t5(2)]
      fails_chain [OF up(2) t4(1)] fails_chain [OF up(1) t3(1)] t2(3) t3(2) t4(2) t5(3) t6(2) t7(2) sizes
    by (simp only: conj_assoc)
  then show ?thesis using res by simp
qed


section \<open>A phase on the card\<close>

text \<open>The device files are open, the card works, and the clear bit is not stuck.\<close>

definition phase_ready :: "xdma \<Rightarrow> card \<Rightarrow> bool" where
  "phase_ready x w \<longleftrightarrow>
     c_fds w (h2c_fd x) = Some (DevFd DevH2C) \<and> c_fds w (c2h_fd x) = Some (DevFd DevC2H) \<and>
     c_fds w (user_fd x) = Some (DevFd DevUser) \<and> 0 < c_xfer w \<and> c_bar_wr w \<and> c_bar_rd w \<and>
     \<not> bit (r_ctrl (c_regs w)) 1 \<and> c_clock w < 2 ^ 62"

definition phase_cleared :: "card \<Rightarrow> card" where
  "phase_cleared w = w\<lparr>c_regs := (c_regs w)\<lparr>r_ctrl := 0, r_done := False, r_error := False\<rparr>,
     c_pending := None, c_count := 0, c_sizes := [], c_clock := c_clock w + 15000\<rparr>"

lemma phase_clear_card:
  assumes "phase_ready x w"
  shows "reg_write (card_os eng) 0 kRegCtrl 2 x w = (x, card_reg_write eng 0 2 w)"
    and "reg_write (card_os eng) 0 kRegCtrl 0 x (card_usleep 10000 (card_reg_write eng 0 2 w)) =
      (x, card_reg_write eng 0 0 (card_usleep 10000 (card_reg_write eng 0 2 w)))"
    and "card_usleep 5000 (card_reg_write eng 0 0 (card_usleep 10000 (card_reg_write eng 0 2 w))) = phase_cleared w"
proof -
  have ready: "regs_ready x w" and ctrl: "\<not> bit (r_ctrl (c_regs w)) 1"
    using assms by (simp_all add: phase_ready_def regs_ready_def)
  show "reg_write (card_os eng) 0 kRegCtrl 2 x w = (x, card_reg_write eng 0 2 w)"
    using ready by (simp add: reg_write_card ucast_reg_addresses)
  have "regs_ready x (card_usleep 10000 (card_reg_write eng 0 2 w))"
    using ready by (simp add: clear_write_card [OF ctrl] card_usleep_def card_settle_def regs_ready_def)
  then show "reg_write (card_os eng) 0 kRegCtrl 0 x (card_usleep 10000 (card_reg_write eng 0 2 w)) =
      (x, card_reg_write eng 0 0 (card_usleep 10000 (card_reg_write eng 0 2 w)))"
    by (simp add: reg_write_card ucast_reg_addresses)
  show "card_usleep 5000 (card_reg_write eng 0 0 (card_usleep 10000 (card_reg_write eng 0 2 w))) = phase_cleared w"
    by (simp add: clear_write_card [OF ctrl] lower_write_card card_usleep_def card_settle_def phase_cleared_def)
qed

definition phase_ddr :: "byte list \<Rightarrow> byte list \<Rightarrow> ddr \<Rightarrow> ddr" where
  "phase_ddr s0 s1 d = mem_write (sources_loaded default_config s0 s1 d) kDstDdr (replicate dst_fill 0xA5)"

definition phase_regs :: "byte list \<Rightarrow> byte list \<Rightarrow> u32 \<Rightarrow> axil_regs" where
  "phase_regs s0 s1 m = programmed_regs default_config (of_nat (length s0)) (of_nat (length s1)) m"

definition phase_result :: "engine \<Rightarrow> byte list \<Rightarrow> byte list \<Rightarrow> u32 \<Rightarrow> card \<Rightarrow> engine_result" where
  "phase_result eng s0 s1 m w = eng (phase_regs s0 s1 m) (phase_ddr s0 s1 (c_ddr w))"

definition phase_started :: "engine \<Rightarrow> byte list \<Rightarrow> byte list \<Rightarrow> u32 \<Rightarrow> card \<Rightarrow> card" where
  "phase_started eng s0 s1 m w =
     (let res = phase_result eng s0 s1 m w
      in w\<lparr>c_ddr := phase_ddr s0 s1 (c_ddr w), c_regs := phase_regs s0 s1 m, c_count := 0, c_sizes := [],
           c_clock := c_clock w + 15000, c_pending := Some (c_clock w + 15000 + er_latency res, res)\<rparr>)"

lemma run_phase_started:
  assumes ready: "phase_ready x w" and l0: "length s0 < 2 ^ 64" and l1: "length s1 < 2 ^ 64"
  shows "run_phase (card_os eng) 0 s0 s1 m e t x w =
    phase_collect (card_os eng) 0 e (g_fail t) t x (phase_started eng s0 s1 m w)"
proof -
  let ?w3 = "phase_cleared w"
  let ?w4 = "ddr_store kSrc0Ddr s0 ?w3"
  let ?w5 = "ddr_store kSrc1Ddr s1 ?w4"
  let ?w6 = "ddr_store kDstDdr (replicate dst_fill 0xA5) ?w5"
  have r: "h2c_ready (h2c_fd x) ?w3" "h2c_ready (h2c_fd x) ?w4" "h2c_ready (h2c_fd x) ?w5"
    using ready by (simp_all add: h2c_ready_def phase_ready_def phase_cleared_def ddr_store_def)
  have "length (replicate dst_fill (0xA5 :: byte)) < 2 ^ 64" by (simp add: dst_fill_def)
  note dma = card_h2c.to_device_ok [OF r(1) refl l0] card_h2c.to_device_ok [OF r(2) refl l1]
    card_h2c.to_device_ok [OF r(3) refl this, unfolded length_replicate]
  have regs: "regs_ready x ?w6"
    using ready by (simp add: regs_ready_def phase_ready_def phase_cleared_def ddr_store_def)
  let ?p = "\<lambda>w. w\<lparr>c_regs := (phase_regs s0 s1 m)\<lparr>r_ctrl := r_ctrl (c_regs w),
     r_done := r_done (c_regs w), r_error := r_error (c_regs w)\<rparr>\<rparr>"
  have prog: "reg_writes (card_os eng) 0 (phase_program s0 s1 m) x ?w6 = (x, ?p ?w6)"
    unfolding reg_writes_write_regs phase_program_register_program phase_regs_def
    by (rule program_registers_card [OF regs])
  have "regs_ready x (?p ?w6)" using regs by simp
  then have start: "reg_write (card_os eng) 0 kRegCtrl 1 x (?p ?w6) = (x, card_reg_write eng 0 1 (?p ?w6))"
    by (simp add: reg_write_card ucast_reg_addresses)
  have "card_reg_write eng 0 1 (?p ?w6) = phase_started eng s0 s1 m w"
    by (subst start_write_card)
      (simp_all add: phase_cleared_def ddr_store_def phase_started_def phase_result_def phase_regs_def
        programmed_regs_def phase_ddr_def sources_loaded_def default_config_def kSrc0Ddr_def kSrc1Ddr_def Let_def)
  then show ?thesis
    unfolding run_phase_def Let_def card_os_simps phase_clear_card [OF ready] prod.case dma option.case
    by (simp add: prog start)
qed


text \<open>What a register holds once the engine has finished with \<open>res\<close>.\<close>

definition result_regs :: "axil_regs \<Rightarrow> engine_result \<Rightarrow> u64 \<Rightarrow> u32" where
  "result_regs r res off =
     axil_read (er_counters res) False (er_count res) (er_sizes res)
       (r\<lparr>r_done := \<not> er_error res, r_error := er_error res\<rparr>) (ucast off)"

lemma still_regs_finished:
  assumes "status_ready x (card_finished res t w)"
  shows "still_regs (card_os eng) (result_regs (c_regs w) res) x (card_finished res t w)"
  unfolding still_regs_def reg_read_card [OF assms]
  by (simp add: card_reg_read_def card_finished_def result_regs_def)

lemma phase_now:
  assumes "c_clock w < 2 ^ 63"
  shows "\<exists>t. card_now_ms w = (t, w) \<and> unat (t + 30000) = c_clock w div 1000 + 30000"
proof -
  have small: "c_clock w div 1000 \<le> c_clock w" by (rule div_le_dividend)
  have "unat (of_nat (c_clock w div 1000) :: u64) = c_clock w div 1000"
    using assms small by (intro unat_of_nat64) simp
  moreover have "c_clock w div 1000 + 30000 < 2 ^ 64" using assms small by simp
  ultimately have "unat (of_nat (c_clock w div 1000) + 30000 :: u64) = c_clock w div 1000 + 30000"
    by (simp add: unat_word_ariths)
  moreover have "min (c_clock w div 1000) (2 ^ 64 - 1) = c_clock w div 1000" using assms small by simp
  ultimately show ?thesis by (simp only: card_now_ms_def prod.inject simp_thms ex_simps)
qed

lemma run_phase_card_done:
  assumes ready: "phase_ready x w" and l0: "length s0 < 2 ^ 64" and l1: "length s1 < 2 ^ 64"
    and ok: "\<not> er_error (phase_result eng s0 s1 m w)"
    and intime: "er_latency (phase_result eng s0 s1 m w) \<le> 30000000"
  shows "\<exists>t' w'. run_phase (card_os eng) 0 s0 s1 m e t x w =
    Some (phase_accepts e (result_regs (phase_regs s0 s1 m) (phase_result eng s0 s1 m w))
            (mem_read (er_ddr (phase_result eng s0 s1 m w)) kDstDdr dst_fill), t', x, w')"
proof -
  let ?res = "phase_result eng s0 s1 m w" and ?v = "phase_started eng s0 s1 m w"
  have st: "status_ready x ?v" and pend: "c_pending ?v = Some (c_clock ?v + er_latency ?res, ?res)"
    and idle: "\<not> r_done (c_regs ?v)" "\<not> r_error (c_regs ?v)" and regs: "c_regs ?v = phase_regs s0 s1 m"
    using ready by (simp_all add: status_ready_def phase_ready_def phase_started_def Let_def phase_regs_def
        programmed_regs_def)
  have "c_clock ?v < 2 ^ 63" using ready by (simp add: phase_ready_def phase_started_def Let_def)
  then obtain now where now: "card_now_ms ?v = (now, ?v)"
    and dl: "unat (now + 30000) = c_clock ?v div 1000 + 30000"
    using phase_now by blast
  obtain T where "poll_loop (card_os eng) 0 (now + 30000) 0 x ?v =
      Some (Inr (final_status ?res), x, card_finished ?res T ?v)"
    using poll_loop_card [OF st pend idle dl, of eng 0] intime by auto
  from phase_poll_follows [OF this card_full_reads refl]
  have poll: "phase_poll (card_os eng) 0 (now + 30000) x ?v =
      Some (final_status ?res, x, card_finished ?res T ?v)" .
  have bits: "final_status ?res AND kStatusError = 0" "final_status ?res AND kStatusDone \<noteq> 0"
    using ok by (simp_all add: final_status_def kStatusError_def kStatusDone_def)
  have "status_ready x (card_finished ?res T ?v)" using st by simp
  note still = still_regs_finished [OF this, of eng, unfolded regs]
  have c2h: "c2h_ready (c2h_fd x) (card_finished ?res T ?v)"
    using ready by (simp add: c2h_ready_def phase_ready_def card_finished_def phase_started_def Let_def)
  have "length (replicate dst_fill (0 :: byte)) = unat (of_nat dst_fill :: u64)" by (simp add: dst_fill_def)
  from card_c2h.from_device_ok [OF c2h refl this, of eng kDstDdr]
  have "dma_from_device (card_os eng) x kDstDdr (replicate dst_fill 0) (of_nat dst_fill) (card_finished ?res T ?v) =
      Some (True, mem_read (er_ddr ?res) kDstDdr dst_fill, x, card_finished ?res T ?v)"
    by (auto simp: ddr_fetch_def card_finished_def dst_fill_def)
  from phase_verify_still [OF still this] obtain t' where
    ver: "phase_verify (card_os eng) 0 e (g_fail t) t x (card_finished ?res T ?v) =
      Some (phase_accepts e (result_regs (phase_regs s0 s1 m) ?res) (mem_read (er_ddr ?res) kDstDdr dst_fill),
        t', x, card_finished ?res T ?v)"
    by blast
  have "run_phase (card_os eng) 0 s0 s1 m e t x w =
      phase_verify (card_os eng) 0 e (g_fail t) t x (card_finished ?res T ?v)"
    unfolding run_phase_started [OF ready l0 l1] phase_collect_def card_os_simps now Let_def prod.case poll
      option.case bits(1)
    using bits(2) by simp
  then show ?thesis unfolding ver by blast
qed


text \<open>Engine errors and timeouts fail the phase.\<close>

lemma run_phase_card_failed:
  assumes ready: "phase_ready x w" and l0: "length s0 < 2 ^ 64" and l1: "length s1 < 2 ^ 64"
    and bad: "er_error (phase_result eng s0 s1 m w) \<or> 30000000 < er_latency (phase_result eng s0 s1 m w)"
  shows "\<exists>w'. run_phase (card_os eng) 0 s0 s1 m e t x w = Some (False, count_fail t, x, w')"
proof -
  let ?res = "phase_result eng s0 s1 m w" and ?v = "phase_started eng s0 s1 m w"
  have st: "status_ready x ?v" and pend: "c_pending ?v = Some (c_clock ?v + er_latency ?res, ?res)"
    and idle: "\<not> r_done (c_regs ?v)" "\<not> r_error (c_regs ?v)"
    using ready by (simp_all add: status_ready_def phase_ready_def phase_started_def Let_def phase_regs_def
        programmed_regs_def)
  have "c_clock ?v < 2 ^ 63" using ready by (simp add: phase_ready_def phase_started_def Let_def)
  then obtain now where now: "card_now_ms ?v = (now, ?v)"
    and dl: "unat (now + 30000) = c_clock ?v div 1000 + 30000"
    using phase_now by blast
  show ?thesis
  proof (cases "er_latency ?res \<le> 30000000")
    case True
    then obtain T where "poll_loop (card_os eng) 0 (now + 30000) 0 x ?v =
        Some (Inr (final_status ?res), x, card_finished ?res T ?v)"
      using poll_loop_card [OF st pend idle dl, of eng 0] by auto
    from phase_poll_follows [OF this card_full_reads refl]
    have poll: "phase_poll (card_os eng) 0 (now + 30000) x ?v =
        Some (final_status ?res, x, card_finished ?res T ?v)" .
    have bit: "final_status ?res AND kStatusError \<noteq> 0"
      using bad True by (simp add: final_status_def kStatusError_def)
    have "status_ready x (card_finished ?res T ?v)" using st by simp
    note rd = reg_read_card [OF this, of eng]
    show ?thesis
      unfolding run_phase_started [OF ready l0 l1] phase_collect_def card_os_simps now Let_def prod.case poll
        option.case if_P [OF bit] rd by blast
  next
    case False
    then obtain v' where "poll_loop (card_os eng) 0 (now + 30000) 0 x ?v = Some (Inr 1, x, v')"
      using poll_loop_card [OF st pend idle dl, of eng 0] by auto
    from phase_poll_follows [OF this card_full_reads refl]
    have poll: "phase_poll (card_os eng) 0 (now + 30000) x ?v = Some (1, x, v')" .
    have bits: "\<not> (1 :: u32) AND kStatusError \<noteq> 0" "(1 :: u32) AND kStatusDone = 0"
      by (simp_all add: kStatusError_def kStatusDone_def)
    show ?thesis
      unfolding run_phase_started [OF ready l0 l1] phase_collect_def card_os_simps now Let_def prod.case poll
        option.case if_not_P [OF bits(1)] if_P [OF bits(2)] by blast
  qed
qed

text \<open>
  C28. On a working card a phase of the split test passes exactly when the engine finishes within 30 seconds
  without error, its counters, output count and sizes are as expected, there are at least
  as many footers in the output area as outputs, and no footer within the first 48 bytes.
\<close>

theorem run_phase_decides:
  assumes "phase_ready x w" and "length s0 < 2 ^ 64" and "length s1 < 2 ^ 64"
  shows "\<exists>ok t' w'. run_phase (card_os eng) 0 s0 s1 m e t x w = Some (ok, t', x, w') \<and>
    (ok \<longleftrightarrow>
      (let res = phase_result eng s0 s1 m w
       in \<not> er_error res \<and> er_latency res \<le> 30000000 \<and>
          phase_accepts e (result_regs (phase_regs s0 s1 m) res) (mem_read (er_ddr res) kDstDdr dst_fill)))"
proof -
  let ?res = "phase_result eng s0 s1 m w"
  show ?thesis
  proof (cases "er_error ?res \<or> 30000000 < er_latency ?res")
    case True
    then show ?thesis using run_phase_card_failed [OF assms True, of e t] by (auto simp: Let_def)
  next
    case False
    then have "\<not> er_error ?res" "er_latency ?res \<le> 30000000" by simp_all
    then show ?thesis using run_phase_card_done [OF assms, of eng m e t] by (simp add: Let_def)
  qed
qed

section \<open>A phase that passes\<close>

text \<open>A result that passes: one output of 108 bytes that ends in the magic.\<close>

definition pass_ddr :: ddr where
  "pass_ddr a = (let i = unat (a - kDstDdr) in if 100 \<le> i \<and> i < 108 then kMagic ! (i - 100) else 0)"

definition pass_counters :: "u32 \<Rightarrow> u32" where
  "pass_counters a =
     (if a = 0x34 then 4 else if a = 0x40 then 16 else if a = 0x44 then 8 else if a = 0x58 then 20
      else if a = 0x5C then 4 else if a = 0x60 then 20 else if a = 0x64 then 20 else if a = 0x6C then 700 else 0)"

definition pass_engine :: engine where
  "pass_engine r d = \<lparr>er_latency = 4000, er_error = False, er_ddr = pass_ddr, er_count = 1, er_sizes = [108],
     er_counters = pass_counters\<rparr>"

lemma pass_out_nth: "i < dst_fill \<Longrightarrow> mem_read pass_ddr kDstDdr dst_fill ! i =
    (if 100 \<le> i \<and> i < 108 then kMagic ! (i - 100) else 0)"
proof -
  assume "i < dst_fill"
  then have "unat (of_nat i :: u64) = i" by (intro unat_of_nat64) (simp add: dst_fill_def)
  then show ?thesis using \<open>i < dst_fill\<close> by (simp add: mem_read_def pass_ddr_def Let_def)
qed

lemma pass_accepted:
  "phase_accepts (split_expect 1) (result_regs (phase_regs s0 s1 m) (pass_engine r d))
     (mem_read (er_ddr (pass_engine r d)) kDstDdr dst_fill)"
proof -
  let ?out = "mem_read pass_ddr kDstDdr dst_fill" and ?rd = "result_regs (phase_regs s0 s1 m) (pass_engine r d)"
  have len: "length ?out = dst_fill" by (simp add: mem_read_def)
  have fill: "108 \<le> dst_fill" by (simp add: dst_fill_def)
  have k: "length kMagic = 8" by (simp add: kMagic_def)
  have "take 8 (drop 100 ?out) = kMagic"
  proof (rule nth_equalityI)
    show "length (take 8 (drop 100 ?out)) = length kMagic" using fill by (simp add: len k)
    fix i assume "i < length (take 8 (drop 100 ?out))"
    then have "i < 8" by simp
    then show "take 8 (drop 100 ?out) ! i = kMagic ! i" using fill by (simp add: len pass_out_nth)
  qed
  then have hit: "108 \<in> {j. j \<le> dst_fill \<and> magic_at ?out j}" using fill by (simp add: magic_at_def)
  have "finite {j. j \<le> dst_fill \<and> magic_at ?out j}" by simp
  then have "card {j. j \<le> dst_fill \<and> magic_at ?out j} \<noteq> 0" using hit by (metis card_0_eq empty_iff)
  then have card: "1 \<le> card {j. j \<le> dst_fill \<and> magic_at ?out j}" by (simp only: Suc_le_eq One_nat_def neq0_conv)
  have late: "\<not> magic_at ?out j" if j: "j \<le> 48" for j
  proof
    assume "magic_at ?out j"
    moreover from this have "8 \<le> j" by (simp add: magic_at_def)
    moreover have "j \<le> length ?out" using j fill by (simp add: len)
    ultimately have "?out ! (j - 1) = 0xdb" by (intro magic_at_last)
    moreover have "?out ! (j - 1) = 0" using j fill by (subst pass_out_nth) auto
    ultimately show False by simp
  qed
  have regs: "?rd kRegSstableCount = 1" "0 < ?rd kRegS5Written" "0 < ?rd kRegSstableSizesBase"
    "\<forall>(reg, ex)\<in>set (phase_counters (split_expect 1)). ?rd reg = ex"
    by (simp_all add: result_regs_def pass_engine_def axil_read_def kRegSstableCount_def kRegS5Written_def
        kRegSstableSizesBase_def phase_counters_def counter_reg_defs split_expect_def is_counter_def pass_counters_def)
  then show ?thesis using card late
    by (simp add: phase_accepts_def split_expect_def pass_engine_def)
qed

theorem run_phase_decides_witness:
  "\<exists>t' w'. run_phase (card_os pass_engine) 0 [1, 2] [3] 4200 (split_expect 1) \<lparr>g_pass = 0, g_fail = 0\<rparr>
     (opened_xdma default_config (demo_card 2)) (card_opened (demo_card 2)) =
     Some (True, t', opened_xdma default_config (demo_card 2), w')"
proof -
  have "phase_ready (opened_xdma default_config (demo_card 2)) (card_opened (demo_card 2))"
    by (simp add: phase_ready_def opened_xdma_def card_opened_def demo_simps)
  from run_phase_decides [OF this, of "[1, 2]" "[3]" pass_engine 4200 "split_expect 1" "\<lparr>g_pass = 0, g_fail = 0\<rparr>"]
  show ?thesis using pass_accepted by (simp add: phase_result_def Let_def pass_engine_def)
qed

theorem split_main_exit_code_witness:
  "\<exists>code t w'. split_main (card_os pass_engine) (demo_card 2\<lparr>c_devs := (\<lambda>_. None)\<rparr>) = Some (code, t, w') \<and> code \<noteq> 0"
proof -
  let ?os = "card_os pass_engine" and ?w = "demo_card 2\<lparr>c_devs := (\<lambda>_. None)\<rparr>"
  have op: "\<exists>x1 w1. xdma_open ?os (xdma_new ''/dev/xdma0_h2c_0'' ''/dev/xdma0_c2h_0'' ''/dev/xdma0_user'') ?w = (False, x1, w1)"
    by (simp add: xdma_open_def xdma_new_def card_open_def demo_simps)
  then obtain code t w' where "split_main ?os ?w = Some (code, t, w')" by (auto simp: split_main_def)
  moreover from split_main_exit_code [OF this] have "code \<noteq> 0" using op by auto
  ultimately show ?thesis by blast
qed

end
