(* ===== verification/Board_Test.thy ===== *)
theory Board_Test
  imports Split_Test
begin

text \<open>
  \<^verbatim>\<open>driver/test_board_integration.cc\<close>: the unit tests of the driver and its two board tests. Checks
  are counted as in the split test; labels and other output are left out. The C streams and LevelDB's
  table reader are parameters.
\<close>

section \<open>Parameters\<close>

text \<open>
  C streams and file system calls of the test: \<^verbatim>\<open>fopen(path, "wb")\<close>, \<^verbatim>\<open>fwrite\<close>, \<^verbatim>\<open>fclose\<close>, the reading
  of a whole file through \<^verbatim>\<open>std::ifstream\<close>, and \<^verbatim>\<open>unlink\<close>. The results of \<^verbatim>\<open>fwrite\<close> and \<^verbatim>\<open>fclose\<close> are
  ignored by the test.
\<close>

record ('w, 'h) stdio =
  io_fopen_wb :: "string \<Rightarrow> 'w \<Rightarrow> 'h option \<times> 'w"
  io_fwrite :: "'h \<Rightarrow> byte list \<Rightarrow> 'w \<Rightarrow> 'w"
  io_fclose :: "'h \<Rightarrow> 'w \<Rightarrow> 'w"
  io_slurp :: "string \<Rightarrow> 'w \<Rightarrow> byte list option"
  io_unlink :: "string \<Rightarrow> 'w \<Rightarrow> 'w"

text \<open>
  LevelDB's table reader with paranoid checks: opening a file, opening the table in it (which gives an
  iterator), the iterator, \<^verbatim>\<open>ParseInternalKey\<close> (the user key) and the comparator.
\<close>

record ('w, 'i) table_reader =
  tr_open_file :: "string \<Rightarrow> 'w \<Rightarrow> bool"
  tr_open_table :: "string \<Rightarrow> u64 \<Rightarrow> 'w \<Rightarrow> 'i option"
  tr_first :: "'i \<Rightarrow> 'i"
  tr_last :: "'i \<Rightarrow> 'i"
  tr_valid :: "'i \<Rightarrow> bool"
  tr_next :: "'i \<Rightarrow> 'i"
  tr_key :: "'i \<Rightarrow> byte list"
  tr_ok :: "'i \<Rightarrow> bool"
  tr_parse :: "byte list \<Rightarrow> byte list option"
  tr_compare :: "byte list \<Rightarrow> byte list \<Rightarrow> int"

section \<open>Helpers\<close>

definition write_tmp :: "('w, 'h) stdio \<Rightarrow> string \<Rightarrow> byte list \<Rightarrow> 'w \<Rightarrow> bool \<times> 'w" where
  "write_tmp io path data w =
     (case io_fopen_wb io path w of
        (None, w1) \<Rightarrow> (False, w1)
      | (Some h, w1) \<Rightarrow> (True, io_fclose io h (io_fwrite io h data w1)))"

text \<open>
  The scan over all entries: number of entries so far, first and last user key, and the key before.
\<close>

partial_function (option) scan_table ::
  "('w, 'i) table_reader \<Rightarrow> 'i \<Rightarrow> nat \<Rightarrow> byte list \<Rightarrow> byte list \<Rightarrow> byte list option \<Rightarrow> tally
     \<Rightarrow> (nat \<times> byte list \<times> byte list \<times> tally \<times> 'i) option" where
  "scan_table rd it n first lst prev t =
     (if tr_valid rd it
      then
        (case tr_parse rd (tr_key rd it) of
           None \<Rightarrow> Some (n, first, lst, check False t, it)
         | Some uk \<Rightarrow>
             (let t1 = check True t;
                  t2 = (case prev of None \<Rightarrow> t1 | Some p \<Rightarrow> check (tr_compare rd p (tr_key rd it) < 0) t1)
              in scan_table rd (tr_next rd it) (n + 1) (if n = 0 then uk else first) uk
                   (Some (tr_key rd it)) t2))
      else Some (n, first, lst, t, it))"

definition check_leveldb_table ::
  "('w, 'i) table_reader \<Rightarrow> string \<Rightarrow> u64 \<Rightarrow> nat \<Rightarrow> string \<Rightarrow> string \<Rightarrow> tally \<Rightarrow> 'w \<Rightarrow> tally option" where
  "check_leveldb_table rd path file_size expected first_key last_key_exp t w =
     (let t1 = check (tr_open_file rd path w) t
      in if \<not> tr_open_file rd path w then Some t1
         else
           (case tr_open_table rd path file_size w of
              None \<Rightarrow> Some (check False t1)
            | Some it0 \<Rightarrow>
                (let it1 = tr_first rd it0;
                     t2 = check (tr_valid rd it1) (check True t1)
                 in case scan_table rd it1 0 [] [] None t2 of
                      None \<Rightarrow> None
                    | Some (n, first, lst, t3, it2) \<Rightarrow>
                        (let t4 = check (tr_ok rd it2) t3;
                             t5 = check (n = expected) t4;
                             t6 = check (first = bytes_of first_key) t5;
                             t7 = check (lst = bytes_of last_key_exp) t6;
                             it3 = tr_last rd it2;
                             t8 = check (tr_valid rd it3) t7;
                             t9 = (if tr_valid rd it3
                                   then (case tr_parse rd (tr_key rd it3) of
                                           None \<Rightarrow> check False t8
                                         | Some uk \<Rightarrow> check (uk = bytes_of last_key_exp) (check True t8))
                                   else t8)
                         in Some (check (tr_ok rd it3) t9)))))"

section \<open>Unit tests\<close>

text \<open>U1, \<^verbatim>\<open>FindSStableEnd\<close>.\<close>

definition unit_find_end :: "tally \<Rightarrow> tally" where
  "unit_find_end t =
     (let buf = overwrite (replicate 256 0xAB) 100 kMagic;
          t1 = check (find_sstable_end buf (length buf) = 108) t;
          buf2 = overwrite (replicate 64 0) 56 kMagic;
          t2 = check (find_sstable_end buf2 (length buf2) = 64) t1;
          buf3 = replicate 32 0;
          t3 = check (find_sstable_end buf3 (length buf3) = 0) t2;
          src0 = fst make_asymmetric_fixtures
      in check (find_sstable_end src0 (length src0) = length src0) t3)"

text \<open>U2, \<^verbatim>\<open>CanOffload\<close> of the singleton, which has the default configuration.\<close>

definition unit_can_offload :: "tally \<Rightarrow> tally" where
  "unit_can_offload t =
     (let t1 = check (can_offload default_config 512 1024) t;
          t2 = check (can_offload default_config (1024 * 1024) (1024 * 1024)) t1;
          t3 = check (\<not> can_offload default_config (1024 * 1024 + 1) 0) t2
      in check (\<not> can_offload default_config 0 (1024 * 1024 + 1)) t3)"

text \<open>U3, a driver with device paths that do not exist.\<close>

definition bad_config :: config where
  "bad_config = default_config\<lparr>cfg_h2c_dev := ''/dev/no_such_h2c'', cfg_c2h_dev := ''/dev/no_such_c2h'',
     cfg_user_dev := ''/dev/no_such_user''\<rparr>"

definition is_io_error :: "status \<Rightarrow> bool" where
  "is_io_error s = (case s of IOError _ \<Rightarrow> True | _ \<Rightarrow> False)"

definition unit_graceful_fail :: "'w posix \<Rightarrow> ('w, 'h) stdio \<Rightarrow> tally \<Rightarrow> 'w \<Rightarrow> (tally \<times> 'w) option" where
  "unit_graceful_fail os io t w =
     (let (src0, src1) = make_asymmetric_fixtures;
          (_, w1) = write_tmp io ''/tmp/cmpct_test_src0.bin'' src0 w;
          (_, w2) = write_tmp io ''/tmp/cmpct_test_src1.bin'' src1 w1
      in case run_offload os bad_config ''/tmp/cmpct_test_src0.bin'' (of_nat (length src0))
                ''/tmp/cmpct_test_src1.bin'' (of_nat (length src1)) ''/tmp/cmpct_test_out.bin'' 0 w2 of
           None \<Rightarrow> None
         | Some (s, _, w3) \<Rightarrow>
             Some (check (is_io_error s) (check (s \<noteq> OK) t),
                   io_unlink io ''/tmp/cmpct_test_src1.bin'' (io_unlink io ''/tmp/cmpct_test_src0.bin'' w3)))"

text \<open>U4, two tables against the table of their blocks.\<close>

definition premerge_a :: "entry list" where
  "premerge_a = map (\<lambda>i. fixture_rec ''v0_'' i (of_nat (20 + i))) [0, 1]"

definition premerge_b :: "entry list" where
  "premerge_b = map (\<lambda>i. fixture_rec ''v0_'' i (of_nat (24 + i - 10))) [10, 11]"

definition unit_premerge :: "tally \<Rightarrow> tally" where
  "unit_premerge t =
     (let sub_a = build_sstable [premerge_a] 2;
          sub_b = build_sstable [premerge_b] 2;
          merged = build_sstable [premerge_a, premerge_b] 2;
          t1 = check (length sub_a > 0) t;
          t2 = check (length sub_b > 0) t1;
          t3 = check (length merged > 0) t2;
          t4 = check (length merged > length sub_a) t3;
          t5 = check (length merged > length sub_b) t4;
          t6 = check (find_sstable_end merged (length merged) = length merged) t5
      in check (can_offload default_config (of_nat (length merged)) 568) t6)"

definition run_unit_tests :: "'w posix \<Rightarrow> ('w, 'h) stdio \<Rightarrow> tally \<Rightarrow> 'w \<Rightarrow> (tally \<times> 'w) option" where
  "run_unit_tests os io t w =
     (case unit_graceful_fail os io (unit_can_offload (unit_find_end t)) w of
        None \<Rightarrow> None
      | Some (t1, w1) \<Rightarrow> Some (unit_premerge t1, w1))"

section \<open>Board tests\<close>

text \<open>What is checked of an output file: the footer at its end.\<close>

definition ends_in_magic :: "byte list \<Rightarrow> bool" where
  "ends_in_magic buf \<longleftrightarrow> 8 \<le> length buf \<and> take 8 (drop (length buf - 8) buf) = kMagic"

definition verify_board_output ::
  "('w, 'h) stdio \<Rightarrow> ('w, 'i) table_reader \<Rightarrow> string \<Rightarrow> u64 \<Rightarrow> tally \<Rightarrow> 'w \<Rightarrow> tally option" where
  "verify_board_output io rd out_path out_size t w =
     (let t1 = check (out_size > 0) t;
          t2 = check (out_size \<le> max_out_bytes default_config) t1
      in case io_slurp io out_path w of
           None \<Rightarrow> Some (check False t2)
         | Some out \<Rightarrow>
             (let t3 = check (length out = unat out_size) t2;
                  t4 = check (find_sstable_end out (length out) = unat out_size) t3;
                  t5 = check (ends_in_magic out) t4
              in check_leveldb_table rd out_path out_size 20 ''key_0000'' ''key_0032'' t5 w))"

text \<open>The label \<^verbatim>\<open>cleanup\<close>: the output stays for inspection when something failed.\<close>

definition cleanup :: "('w, 'h) stdio \<Rightarrow> string \<Rightarrow> string \<Rightarrow> string \<Rightarrow> bool \<Rightarrow> 'w \<Rightarrow> 'w" where
  "cleanup io p0 p1 out drop_out w =
     (let w1 = io_unlink io p1 (io_unlink io p0 w) in if drop_out then io_unlink io out w1 else w1)"

definition run_board_test ::
  "'w posix \<Rightarrow> ('w, 'h) stdio \<Rightarrow> ('w, 'i) table_reader \<Rightarrow> tally \<Rightarrow> 'w \<Rightarrow> (tally \<times> 'w) option" where
  "run_board_test os io rd t w =
     (let (src0, src1) = make_asymmetric_fixtures;
          p0 = ''/tmp/cmpct_board_src0.ldb''; p1 = ''/tmp/cmpct_board_src1.ldb''; out = ''/tmp/cmpct_board_out.ldb'';
          (ok0, w1) = write_tmp io p0 src0 w;
          (ok1, w2) = (if ok0 then write_tmp io p1 src1 w1 else (False, w1))
      in if \<not> ok1 then Some (count_fail t, w2)
         else
           (case run_offload os default_config p0 (of_nat (length src0)) p1 (of_nat (length src1)) out 0 w2 of
              None \<Rightarrow> None
            | Some (s, out_size, w3) \<Rightarrow>
                if s \<noteq> OK
                then Some (count_fail t, cleanup io p0 p1 out (g_fail (count_fail t) = 0) w3)
                else
                  (case verify_board_output io rd out out_size t w3 of
                     None \<Rightarrow> None
                   | Some t1 \<Rightarrow> Some (t1, cleanup io p0 p1 out (g_fail t1 = 0) w3))))"

definition verify_multi_output ::
  "('w, 'h) stdio \<Rightarrow> ('w, 'i) table_reader \<Rightarrow> string \<Rightarrow> u64 \<Rightarrow> tally \<Rightarrow> 'w \<Rightarrow> tally option" where
  "verify_multi_output io rd out_path out_size t w =
     (let t1 = check (out_size > 0) t
      in case io_slurp io out_path w of
           None \<Rightarrow> Some (check False t1)
         | Some out \<Rightarrow>
             (let t2 = check (find_sstable_end out (length out) = unat out_size) t1;
                  t3 = check (ends_in_magic out) t2
              in check_leveldb_table rd out_path out_size 20 ''key_0000'' ''key_0032'' t3 w))"

definition multi_a :: "entry list" where
  "multi_a = map (\<lambda>i. fixture_rec ''v0_'' i (of_nat (20 + i))) [0, 1, 2, 3]"

definition multi_b :: "entry list" where
  "multi_b = map (\<lambda>i. fixture_rec ''v0_'' i (of_nat (24 + i - 10))) [10, 11, 12, 13]"

definition run_board_test_multi ::
  "'w posix \<Rightarrow> ('w, 'h) stdio \<Rightarrow> ('w, 'i) table_reader \<Rightarrow> tally \<Rightarrow> 'w \<Rightarrow> (tally \<times> 'w) option" where
  "run_board_test_multi os io rd t w =
     (let prev_fail = g_fail t;
          merged_src0 = build_sstable [multi_a, multi_b] 2;
          src1 = snd make_asymmetric_fixtures;
          p0 = ''/tmp/cmpct_b2_merged_src0.ldb''; p1 = ''/tmp/cmpct_b2_src1.ldb''; out = ''/tmp/cmpct_b2_out.ldb'';
          (ok0, w1) = write_tmp io p0 merged_src0 w;
          (ok1, w2) = (if ok0 then write_tmp io p1 src1 w1 else (False, w1))
      in if \<not> ok1 then Some (count_fail t, w2)
         else
           (case run_offload os default_config p0 (of_nat (length merged_src0)) p1 (of_nat (length src1)) out 0 w2 of
              None \<Rightarrow> None
            | Some (s, out_size, w3) \<Rightarrow>
                if s \<noteq> OK
                then Some (count_fail t, cleanup io p0 p1 out (g_fail (count_fail t) = prev_fail) w3)
                else
                  (case verify_multi_output io rd out out_size t w3 of
                     None \<Rightarrow> None
                   | Some t1 \<Rightarrow> Some (t1, cleanup io p0 p1 out (g_fail t1 = prev_fail) w3))))"

section \<open>The program\<close>

text \<open>\<open>args\<close> are the arguments after the program's name.\<close>

definition board_main ::
  "'w posix \<Rightarrow> ('w, 'h) stdio \<Rightarrow> ('w, 'i) table_reader \<Rightarrow> string list \<Rightarrow> 'w \<Rightarrow> (nat \<times> tally \<times> 'w) option" where
  "board_main os io rd args w =
     (let board = (''--board'' \<in> set args)
      in case run_unit_tests os io \<lparr>g_pass = 0, g_fail = 0\<rparr> w of
           None \<Rightarrow> None
         | Some (t1, w1) \<Rightarrow>
             (case (if board
                    then (case run_board_test os io rd t1 w1 of
                            None \<Rightarrow> None
                          | Some (t2, w2) \<Rightarrow> run_board_test_multi os io rd t2 w2)
                    else Some (t1, w1)) of
                None \<Rightarrow> None
              | Some (t, w') \<Rightarrow> Some (if g_fail t = 0 then 0 else 1, t, w')))"

end
