(* ===== verification/Board_Verdict.thy ===== *)
theory Board_Verdict
  imports Board_Test
begin

text \<open>
  What \<^verbatim>\<open>check_leveldb_table\<close> of the board integration test decides: the keys an iterator shows, and the
  equivalence of the counted checks with a description of the table.
\<close>

section \<open>Walking an iterator\<close>

text \<open>The keys an iterator shows, in order, until it is no longer valid.\<close>

fun iterates :: "('w, 'i) table_reader \<Rightarrow> 'i \<Rightarrow> byte list list \<Rightarrow> bool" where
  "iterates rd it [] \<longleftrightarrow> \<not> tr_valid rd it"
| "iterates rd it (k # ks) \<longleftrightarrow> tr_valid rd it \<and> tr_key rd it = k \<and> iterates rd (tr_next rd it) ks"

text \<open>Every key comes before the next one; \<open>prev\<close> is the key before the first, if there is one.\<close>

fun ascending :: "('w, 'i) table_reader \<Rightarrow> byte list option \<Rightarrow> byte list list \<Rightarrow> bool" where
  "ascending rd prev [] \<longleftrightarrow> True"
| "ascending rd prev (k # ks) \<longleftrightarrow>
     (case prev of None \<Rightarrow> True | Some p \<Rightarrow> tr_compare rd p k < 0) \<and> ascending rd (Some k) ks"

definition well_read :: "('w, 'i) table_reader \<Rightarrow> 'i \<Rightarrow> byte list option \<Rightarrow> byte list list \<Rightarrow> byte list list \<Rightarrow> bool" where
  "well_read rd it prev ks uks \<longleftrightarrow>
     iterates rd it ks \<and> ascending rd prev ks \<and> map (tr_parse rd) ks = map Some uks"

lemma well_read_Nil [simp]: "well_read rd it prev [] uks \<longleftrightarrow> \<not> tr_valid rd it \<and> uks = []"
  by (auto simp: well_read_def)

lemma well_read_Cons:
  "well_read rd it prev (k # ks) uks \<longleftrightarrow> tr_valid rd it \<and> tr_key rd it = k \<and>
     (case prev of None \<Rightarrow> True | Some p \<Rightarrow> tr_compare rd p k < 0) \<and>
     (\<exists>u us. uks = u # us \<and> tr_parse rd k = Some u \<and> well_read rd (tr_next rd it) (Some k) ks us)"
  by (auto simp: well_read_def Cons_eq_map_conv)

text \<open>The checks of a scan: one for every key, one more for every key that has one before it.\<close>

definition scan_checks :: "byte list option \<Rightarrow> byte list list \<Rightarrow> nat" where
  "scan_checks prev ks = 2 * length ks - (if prev = None \<and> ks \<noteq> [] then 1 else 0)"

lemma scan_well_read:
  assumes "well_read rd it prev ks uks"
  shows "scan_table rd it n first lst prev t =
    Some (n + length ks, if n = 0 \<and> ks \<noteq> [] then hd uks else first, if ks = [] then lst else last uks,
      t\<lparr>g_pass := g_pass t + scan_checks prev ks\<rparr>, (tr_next rd ^^ length ks) it)"
  using assms
proof (induction ks arbitrary: it n first lst prev t uks)
  case Nil
  then show ?case by (subst scan_table.simps) (simp add: scan_checks_def)
next
  case (Cons k ks)
  then obtain u us where here: "tr_valid rd it" "tr_key rd it = k" "tr_parse rd k = Some u" and uks: "uks = u # us"
    and ord: "case prev of None \<Rightarrow> True | Some p \<Rightarrow> tr_compare rd p k < 0"
    and rest: "well_read rd (tr_next rd it) (Some k) ks us"
    by (auto simp: well_read_Cons)
  have "us = [] \<longleftrightarrow> ks = []" using rest by (auto simp: well_read_def)
  then show ?case
    using ord
    by (subst scan_table.simps)
      (cases prev; simp add: here uks Cons.IH [OF rest] check_pass scan_checks_def funpow_swap1 Let_def)
qed

lemma scan_table_sound:
  assumes "scan_table rd it n first lst prev t = Some r"
  shows "case r of (m, f, l, t', e) \<Rightarrow> g_fail t \<le> g_fail t' \<and>
    (g_fail t' = g_fail t \<longrightarrow> (\<exists>ks uks. well_read rd it prev ks uks))"
proof (induction rule: scan_table.raw_induct [OF _ assms])
  case (1 g rd it n first lst prev t r)
  show ?case
  proof (cases "tr_valid rd it")
    case False
    then have "r = (n, first, lst, t, it)" using 1(2) by simp
    then show ?thesis using False by (auto intro!: exI [of _ "[]"])
  next
    case True
    show ?thesis
    proof (cases "tr_parse rd (tr_key rd it)")
      case None
      then show ?thesis using 1(2) True by (auto simp: g_fail_check)
    next
      case (Some uk)
      let ?t2 = "case prev of None \<Rightarrow> check True t | Some p \<Rightarrow> check (tr_compare rd p (tr_key rd it) < 0) (check True t)"
      have rec: "g rd (tr_next rd it) (n + 1) (if n = 0 then uk else first) uk (Some (tr_key rd it)) ?t2 = Some r"
        using 1(2) True Some by (simp add: Let_def)
      obtain m f l t' e where r: "r = (m, f, l, t', e)" by (cases r)
      have ih: "g_fail ?t2 \<le> g_fail t'"
        "g_fail t' = g_fail ?t2 \<longrightarrow> (\<exists>ks uks. well_read rd (tr_next rd it) (Some (tr_key rd it)) ks uks)"
        using 1(1) [OF rec] by (simp_all add: r)
      have le: "g_fail t \<le> g_fail ?t2" by (simp add: g_fail_check split: option.split)
      have "\<exists>ks uks. well_read rd it prev ks uks" if eq: "g_fail t' = g_fail t"
      proof -
        have e2: "g_fail t' = g_fail ?t2" and e3: "g_fail ?t2 = g_fail t" using eq ih(1) le by linarith+
        obtain ks uks where "well_read rd (tr_next rd it) (Some (tr_key rd it)) ks uks" using ih(2) e2 by blast
        then have "well_read rd it prev (tr_key rd it # ks) (uk # uks)"
          using e3 True Some by (auto simp: well_read_Cons g_fail_check split: option.splits if_splits)
        then show ?thesis by blast
      qed
      then show ?thesis using ih(1) le by (auto simp: r)
    qed
  qed
qed

section \<open>What the check of a table decides\<close>

text \<open>The iterator after the scan, and after \<^verbatim>\<open>SeekToLast\<close>.\<close>

definition table_as_expected ::
  "('w, 'i) table_reader \<Rightarrow> string \<Rightarrow> u64 \<Rightarrow> nat \<Rightarrow> string \<Rightarrow> string \<Rightarrow> 'w \<Rightarrow> byte list list \<Rightarrow> byte list list \<Rightarrow> bool" where
  "table_as_expected rd path file_size expected first_key last_key_exp w ks uks \<longleftrightarrow>
     tr_open_file rd path w \<and>
     (case tr_open_table rd path file_size w of
        None \<Rightarrow> False
      | Some it \<Rightarrow>
          (let e = (tr_next rd ^^ length ks) (tr_first rd it); z = tr_last rd e
           in well_read rd (tr_first rd it) None ks uks \<and> ks \<noteq> [] \<and> length ks = expected \<and>
              hd uks = bytes_of first_key \<and> last uks = bytes_of last_key_exp \<and>
              tr_ok rd e \<and> tr_valid rd z \<and> tr_parse rd (tr_key rd z) = Some (bytes_of last_key_exp) \<and> tr_ok rd z))"

lemma well_read_valid: "well_read rd it prev ks uks \<Longrightarrow> tr_valid rd it \<longleftrightarrow> ks \<noteq> []"
  by (cases ks) (auto simp: well_read_Cons)

lemma check_table_passes:
  assumes "table_as_expected rd path sz n f l w ks uks"
  shows "check_leveldb_table rd path sz n f l t w = Some (t\<lparr>g_pass := g_pass t + 2 * n + 10\<rparr>)"
proof -
  obtain it where op: "tr_open_file rd path w" "tr_open_table rd path sz w = Some it"
    and wr: "well_read rd (tr_first rd it) None ks uks" and rest: "ks \<noteq> []" "length ks = n"
      "hd uks = bytes_of f" "last uks = bytes_of l"
    using assms by (auto simp: table_as_expected_def Let_def split: option.splits)
  let ?e = "(tr_next rd ^^ length ks) (tr_first rd it)"
  have z: "tr_ok rd ?e" "tr_valid rd (tr_last rd ?e)" "tr_parse rd (tr_key rd (tr_last rd ?e)) = Some (bytes_of l)"
    "tr_ok rd (tr_last rd ?e)"
    using assms op rest(2) by (simp_all add: table_as_expected_def Let_def)
  have "0 < length ks" using rest(1) by simp
  then show ?thesis
    using well_read_valid [OF wr] rest z
    by (simp add: check_leveldb_table_def op scan_well_read [OF wr] Let_def check_pass scan_checks_def)
qed

lemma check_table_rejects:
  assumes "check_leveldb_table rd path sz n f l t w = Some t'"
  shows "g_fail t \<le> g_fail t' \<and> (g_fail t' = g_fail t \<longrightarrow> (\<exists>ks uks. table_as_expected rd path sz n f l w ks uks))"
proof (cases "tr_open_file rd path w")
  case False
  then show ?thesis using assms by (auto simp: check_leveldb_table_def check_def)
next
  case op: True
  show ?thesis
  proof (cases "tr_open_table rd path sz w")
    case None
    then show ?thesis using assms op by (auto simp: check_leveldb_table_def check_def)
  next
    case (Some it)
    let ?it1 = "tr_first rd it"
    let ?t2 = "check (tr_valid rd ?it1) (check True (check True t))"
    obtain m f' l' t3 e where scan: "scan_table rd ?it1 0 [] [] None ?t2 = Some (m, f', l', t3, e)"
      using assms op Some by (auto simp: check_leveldb_table_def Let_def split: option.splits)
    let ?z = "tr_last rd e"
    let ?t8 = "check (tr_valid rd ?z) (check (l' = bytes_of l) (check (f' = bytes_of f) (check (m = n) (check (tr_ok rd e) t3))))"
    let ?t9 = "if tr_valid rd ?z then (case tr_parse rd (tr_key rd ?z) of None \<Rightarrow> check False ?t8
        | Some uk \<Rightarrow> check (uk = bytes_of l) (check True ?t8)) else ?t8"
    have t': "t' = check (tr_ok rd ?z) ?t9"
      using assms op Some scan by (simp add: check_leveldb_table_def Let_def)
    have t2: "g_fail t \<le> g_fail ?t2" and "g_fail ?t2 \<le> g_fail t3" and t3:
      "g_fail t3 = g_fail ?t2 \<longrightarrow> (\<exists>ks uks. well_read rd ?it1 None ks uks)"
      using scan_table_sound [OF scan] by (simp_all add: g_fail_check)
    moreover have t8: "g_fail t3 \<le> g_fail ?t8" by (simp add: g_fail_check)
    moreover have t9: "g_fail ?t8 \<le> g_fail ?t9" by (simp add: g_fail_check split: option.split)
    moreover have t10: "g_fail ?t9 \<le> g_fail t'" unfolding t' by (simp only: g_fail_check split: if_split) simp
    ultimately have mono: "g_fail t \<le> g_fail t'" by linarith
    moreover have "\<exists>ks uks. table_as_expected rd path sz n f l w ks uks" if eq: "g_fail t' = g_fail t"
    proof -
      have eqs: "g_fail ?t2 = g_fail t" "g_fail t3 = g_fail ?t2" "g_fail ?t8 = g_fail t3" "g_fail ?t9 = g_fail ?t8"
        "g_fail t' = g_fail ?t9"
        using eq t2 \<open>g_fail ?t2 \<le> g_fail t3\<close> t8 t9 t10 by linarith+
      obtain ks uks where wr: "well_read rd ?it1 None ks uks" using t3 eqs(2) by blast
      have valid: "ks \<noteq> []" using eqs(1) well_read_valid [OF wr] by (simp add: g_fail_check split: if_splits)
      have res: "m = length ks" "f' = hd uks" "l' = last uks" "e = (tr_next rd ^^ length ks) ?it1"
        using scan valid unfolding scan_well_read [OF wr] by auto
      have z: "tr_valid rd ?z" "l' = bytes_of l" "f' = bytes_of f" "m = n" "tr_ok rd e"
        using eqs(3) by (auto simp: g_fail_check split: if_splits)
      have "tr_parse rd (tr_key rd ?z) = Some (bytes_of l)"
        using eqs(4) z(1) by (cases "tr_parse rd (tr_key rd ?z)") (auto simp: check_def split: if_splits)
      moreover have "tr_ok rd ?z" using eqs(5) unfolding t' by (simp only: g_fail_check split: if_splits)
      ultimately have "table_as_expected rd path sz n f l w ks uks"
        unfolding table_as_expected_def Let_def using op Some wr valid res z by simp
      then show ?thesis by blast
    qed
    ultimately show ?thesis by blast
  qed
qed

text \<open>
  C30. \<^verbatim>\<open>check_leveldb_table\<close> adds no failure exactly when the table opens and its iterator shows the
  expected number of well-formed internal keys, each before the next one, from the expected first to
  the expected last user key, and \<^verbatim>\<open>SeekToLast\<close> finds that last key again, without a bad status.
\<close>

theorem check_table_decides:
  assumes "check_leveldb_table rd path sz n f l t w = Some t'"
  shows "g_fail t' = g_fail t \<longleftrightarrow> (\<exists>ks uks. table_as_expected rd path sz n f l w ks uks)"
proof
  assume "g_fail t' = g_fail t"
  then show "\<exists>ks uks. table_as_expected rd path sz n f l w ks uks" using check_table_rejects [OF assms] by blast
next
  assume "\<exists>ks uks. table_as_expected rd path sz n f l w ks uks"
  then obtain ks uks where "table_as_expected rd path sz n f l w ks uks" by blast
  from check_table_passes [OF this, of t] show "g_fail t' = g_fail t" using assms by simp
qed

end
