(* ===== verification/Board_Card.thy ===== *)
theory Board_Card
  imports Board_Verdict Offload_History
begin

text \<open>
  The board integration test on the card's host: its unit tests pass on every host, and its board tests
  pass when the engine computes the compaction of the fixtures.
\<close>

section \<open>Streams on the card's host\<close>

text \<open>A handle is the path; writing appends, closing does nothing more.\<close>

definition card_io :: "(card, string) stdio" where
  "card_io = \<lparr>io_fopen_wb = (\<lambda>path w. (Some path, w\<lparr>c_files := (c_files w)(path := Some [])\<rparr>)),
     io_fwrite = (\<lambda>path bs w. w\<lparr>c_files := (c_files w)(path := map_option (\<lambda>d. d @ bs) (c_files w path))\<rparr>),
     io_fclose = (\<lambda>path w. w),
     io_slurp = (\<lambda>path w. c_files w path),
     io_unlink = (\<lambda>path w. w\<lparr>c_files := (c_files w)(path := None)\<rparr>)\<rparr>"

lemma write_tmp_card: "write_tmp card_io path d w = (True, w\<lparr>c_files := (c_files w)(path := Some d)\<rparr>)"
  by (simp add: write_tmp_def card_io_def)

section \<open>The unit tests\<close>

lemma unit_find_end_passes: "unit_find_end t = t\<lparr>g_pass := g_pass t + 4\<rparr>"
proof -
  let ?buf = "overwrite (replicate 256 0xAB) 100 kMagic" and ?buf2 = "overwrite (replicate 64 0) 56 kMagic"
  have k: "length kMagic = 8" by (simp add: kMagic_def)
  have b1: "?buf = replicate 100 0xAB @ kMagic @ replicate 148 0xAB" and b2: "?buf2 = replicate 56 0 @ kMagic"
    by (simp_all add: overwrite_def k)
  have "0xdb \<notin> set (replicate 148 (0xAB :: byte))" by simp
  from find_end_stale_tail [OF this, of "replicate 100 0xAB"]
  have u1: "find_sstable_end ?buf (length ?buf) = 108" unfolding b1 length_replicate by simp
  have u2: "find_sstable_end ?buf2 (length ?buf2) = 64"
    unfolding b2 using find_sstable_end_append_magic [of "replicate 56 0"] by (simp add: k)
  have u3: "find_sstable_end (replicate 32 0) (length (replicate 32 (0 :: byte))) = 0"
  proof (rule find_end_none)
    fix j assume "j \<le> length (replicate 32 (0 :: byte))"
    then show "\<not> magic_at (replicate 32 0) j" using magic_at_last [of "replicate 32 0" j] by auto
  qed
  show ?thesis
    unfolding unit_find_end_def Let_def u1 u2 u3 by (simp add: check_pass make_asymmetric_fixtures_def find_end_table)
qed

lemma unit_can_offload_passes: "unit_can_offload t = t\<lparr>g_pass := g_pass t + 4\<rparr>"
  by (simp add: unit_can_offload_def check_pass can_offload_def default_config_def)

lemma premerge_small: "length (build_sstable [premerge_a, premerge_b] 2) \<le> 1000"
proof -
  have short: "\<forall>e\<in>set (concat [premerge_a, premerge_b]). length (fst e) \<le> 16 \<and> length (snd e) \<le> 11"
    using length_pad0 [of _ 4] by (simp add: premerge_a_def premerge_b_def fixture_rec_def ikey_le64 Let_def)
  have "table_size [premerge_a, premerge_b] \<le> 4 * (34 + 16 + 11) + 2 * (16 + 63) + 66"
    using table_size_le [OF short] by (simp add: premerge_a_def premerge_b_def)
  then show ?thesis
    using length_build_table_le [of table_magic "[premerge_a, premerge_b]" 2] by (simp add: build_sstable_def)
qed

lemma length_build_sstable_pos: "0 < length (build_sstable blocks ri)"
  by (simp add: build_sstable_def length_build_table del: length_greater_0_conv)

lemma unit_premerge_passes: "unit_premerge t = t\<lparr>g_pass := g_pass t + 7\<rparr>"
proof -
  let ?m = "build_sstable [premerge_a, premerge_b] 2"
  have "can_offload default_config (of_nat (length ?m)) 568"
    using premerge_small by (simp add: can_offload_def default_config_def word_le_nat_alt unat_of_nat64)
  moreover have "length (build_sstable [premerge_a] 2) < length ?m" "length (build_sstable [premerge_b] 2) < length ?m"
    using two_blocks_longer by (simp_all add: build_sstable_def)
  ultimately show ?thesis
    unfolding unit_premerge_def Let_def
    by (simp add: check_pass length_build_sstable_pos find_end_table del: length_greater_0_conv)
qed

text \<open>A host without the devices of the bad configuration: \<^verbatim>\<open>RunOffload\<close> reads both inputs and fails at \<^verbatim>\<open>Open\<close>.\<close>

definition host_same :: "card \<Rightarrow> card \<Rightarrow> bool" where
  "host_same w w' \<longleftrightarrow> c_devs w' = c_devs w \<and> c_disk w' = c_disk w \<and> c_clock w' = c_clock w \<and>
     (fds_fresh w \<longrightarrow> fds_fresh w') \<and> (\<forall>cfg. card_usable cfg w \<longrightarrow> card_usable cfg w')"

lemma host_same_trans: "host_same u v \<Longrightarrow> host_same v w \<Longrightarrow> host_same u w"
  by (simp add: host_same_def)

lemma host_same_files [simp]: "host_same w (w\<lparr>c_files := fs\<rparr>)"
  by (simp add: host_same_def fds_fresh_def card_usable_def)

lemma missing_device_fails:
  assumes ins: "inputs_at w p0 d0 p1 d1" and next0: "0 \<le> c_next w"
    and len: "length d0 < 2 ^ 64" "length d1 < 2 ^ 64"
    and gate: "can_offload cfg (of_nat (length d0)) (of_nat (length d1))"
    and dev: "c_devs w (cfg_h2c_dev cfg) = None" "c_files w (cfg_h2c_dev cfg) = None"
  shows "\<exists>msg w'. run_offload (card_os eng) cfg p0 (of_nat (length d0)) p1 (of_nat (length d1)) out sz w =
    Some (IOError msg, sz, w') \<and> c_files w' = c_files w \<and> host_same w w'"
proof -
  let ?w1 = "w\<lparr>c_fds := (c_fds w)(c_next w := None), c_next := c_next w + 1\<rparr>"
  let ?w2 = "?w1\<lparr>c_fds := (c_fds ?w1)(c_next ?w1 := None), c_next := c_next ?w1 + 1\<rparr>"
  have r0: "read_file (card_os eng) p0 w = Some (OK, d0, ?w1)"
    using ins next0 len by (intro read_file_card) (simp_all add: inputs_at_def)
  have r1: "read_file (card_os eng) p1 ?w1 = Some (OK, d1, ?w2)"
    using ins next0 len by (intro read_file_card) (simp_all add: inputs_at_def)
  have "\<exists>msg e. run_offload_core (card_os eng) cfg d0 d1 0 ?w2 = Some (IOError msg, [], ?w2\<lparr>c_errno := e\<rparr>)"
    using dev by (simp add: run_offload_core_def xdma_open_def xdma_new_def card_open_def leave_def xdma_close_def
        close_fd_def set_error_def Let_def) blast
  then obtain msg e where core: "run_offload_core (card_os eng) cfg d0 d1 0 ?w2 = Some (IOError msg, [], ?w2\<lparr>c_errno := e\<rparr>)"
    by blast
  have sizes: "(length d0 \<noteq> unat (of_nat (length d0) :: u64) \<or> length d1 \<noteq> unat (of_nat (length d1) :: u64)) = False"
    using len by (simp add: unat_of_nat64)
  have "run_offload_split (card_os eng) cfg p0 (of_nat (length d0)) p1 (of_nat (length d1)) 0 [] w =
      Some (IOError msg, [], ?w2\<lparr>c_errno := e\<rparr>)"
    by (simp only: run_offload_split_def gate r0 r1 option.case prod.case core sizes simp_thms if_True if_False)
  moreover have "c_files (?w2\<lparr>c_errno := e\<rparr>) = c_files w \<and> host_same w (?w2\<lparr>c_errno := e\<rparr>)"
    by (simp add: host_same_def fds_fresh_def card_usable_def)
  ultimately show ?thesis by (simp add: run_offload_def)
qed

text \<open>The paths under \<^verbatim>\<open>/tmp\<close> are not devices, and the device of the bad configuration does not exist.\<close>

definition test_host :: "card \<Rightarrow> bool" where
  "test_host w \<longleftrightarrow> fds_fresh w \<and> (\<forall>p. take 5 p = ''/tmp/'' \<longrightarrow> c_devs w p = None) \<and>
     c_devs w ''/dev/no_such_h2c'' = None \<and> c_files w ''/dev/no_such_h2c'' = None"

lemma asym_tables_short:
  "length (fst make_asymmetric_fixtures) \<le> 10000" "length (snd make_asymmetric_fixtures) \<le> 10000"
proof -
  have "\<forall>e\<in>set (concat asym_src0). length (fst e) \<le> 16 \<and> length (snd e) \<le> 11"
    "\<forall>e\<in>set (concat asym_src1). length (fst e) \<le> 16 \<and> length (snd e) \<le> 11"
    using length_pad0 [of _ 4] by (simp_all add: asym_src0_def asym_src1_def fixture_rec_def ikey_le64 Let_def)
  from this [THEN table_size_le] have "table_size asym_src0 \<le> 10000" "table_size asym_src1 \<le> 10000"
    by (simp_all add: asym_src0_def asym_src1_def)
  then show "length (fst make_asymmetric_fixtures) \<le> 10000" "length (snd make_asymmetric_fixtures) \<le> 10000"
    using length_build_table_le [of table_magic asym_src0 2] length_build_table_le [of table_magic asym_src1 2]
    by (simp_all add: make_asymmetric_fixtures_def build_sstable_def)
qed

lemma short_gate:
  assumes "length d0 \<le> 10000" and "length d1 \<le> 10000" and "max_src_bytes cfg = 0x100000"
  shows "can_offload cfg (of_nat (length d0)) (of_nat (length d1))"
  using assms by (simp add: can_offload_def word_le_nat_alt unat_of_nat64)

lemma unit_graceful_fail_passes:
  assumes "test_host w"
  shows "\<exists>w'. unit_graceful_fail (card_os eng) card_io t w = Some (t\<lparr>g_pass := g_pass t + 2\<rparr>, w') \<and>
    c_files w' = (c_files w)(''/tmp/cmpct_test_src0.bin'' := None, ''/tmp/cmpct_test_src1.bin'' := None) \<and> host_same w w'"
proof -
  let ?p0 = "''/tmp/cmpct_test_src0.bin''" and ?p1 = "''/tmp/cmpct_test_src1.bin''"
  obtain d0 d1 where f: "make_asymmetric_fixtures = (d0, d1)" by fastforce
  have l: "length d0 \<le> 10000" "length d1 \<le> 10000" using asym_tables_short by (simp_all add: f)
  let ?w2 = "w\<lparr>c_files := (c_files w)(?p0 := Some d0, ?p1 := Some d1)\<rparr>"
  have "inputs_at ?w2 ?p0 d0 ?p1 d1" using assms by (simp add: inputs_at_def test_host_def)
  moreover have "0 \<le> c_next ?w2" "c_devs ?w2 (cfg_h2c_dev bad_config) = None" "c_files ?w2 (cfg_h2c_dev bad_config) = None"
    using assms by (simp_all add: test_host_def fds_fresh_def bad_config_def)
  moreover have "can_offload bad_config (of_nat (length d0)) (of_nat (length d1))"
    using l by (intro short_gate) (simp_all add: bad_config_def default_config_def)
  ultimately obtain msg w3 where run: "run_offload (card_os eng) bad_config ?p0 (of_nat (length d0)) ?p1
      (of_nat (length d1)) ''/tmp/cmpct_test_out.bin'' 0 ?w2 = Some (IOError msg, 0, w3)"
    and w3: "c_files w3 = c_files ?w2" "host_same ?w2 w3"
    using missing_device_fails [of ?w2 ?p0 d0 ?p1 d1 bad_config eng] l by fastforce
  let ?w4 = "w3\<lparr>c_files := (c_files w3)(?p0 := None, ?p1 := None)\<rparr>"
  have "host_same w ?w4" using host_same_trans [OF host_same_trans [OF host_same_files w3(2)] host_same_files] .
  moreover have "c_files ?w4 = (c_files w)(?p0 := None, ?p1 := None)" using w3(1) by (simp add: fun_upd_twist)
  moreover have "unit_graceful_fail (card_os eng) card_io t w = Some (t\<lparr>g_pass := g_pass t + 2\<rparr>, ?w4)"
    by (simp add: unit_graceful_fail_def f write_tmp_card run check_pass is_io_error_def) (simp add: card_io_def)
  ultimately show ?thesis by blast
qed

lemma unit_tests_card:
  assumes "test_host w"
  shows "\<exists>w'. run_unit_tests (card_os eng) card_io t w = Some (t\<lparr>g_pass := g_pass t + 17\<rparr>, w') \<and>
    c_files w' = (c_files w)(''/tmp/cmpct_test_src0.bin'' := None, ''/tmp/cmpct_test_src1.bin'' := None) \<and> host_same w w'"
proof -
  have "unit_can_offload (unit_find_end t) = t\<lparr>g_pass := g_pass t + 8\<rparr>"
    by (simp add: unit_find_end_passes unit_can_offload_passes)
  then show ?thesis
    using unit_graceful_fail_passes [OF assms, of eng "t\<lparr>g_pass := g_pass t + 8\<rparr>"]
    by (auto simp: run_unit_tests_def unit_premerge_passes)
qed

text \<open>
  On a host without the devices of the bad configuration the test program, started without
  \<^verbatim>\<open>--board\<close>, passes all its 17 checks, exits with 0 and removes the files it made.
\<close>

theorem unit_tests_pass:
  assumes "test_host w" and "''--board'' \<notin> set args"
  shows "\<exists>w'. board_main (card_os eng) card_io rd args w = Some (0, \<lparr>g_pass = 17, g_fail = 0\<rparr>, w') \<and>
    c_files w' = (c_files w)(''/tmp/cmpct_test_src0.bin'' := None, ''/tmp/cmpct_test_src1.bin'' := None)"
  using assms unit_tests_card [OF assms(1), of eng "\<lparr>g_pass = 0, g_fail = 0\<rparr>"]
  by (auto simp: board_main_def)

section \<open>Offloading on the board\<close>

definition board_host :: "card \<Rightarrow> bool" where
  "board_host w \<longleftrightarrow> fds_fresh w \<and> (\<forall>p. take 5 p = ''/tmp/'' \<longrightarrow> c_devs w p = None) \<and>
     c_disk w = None \<and> card_usable default_config w"

lemma board_host_files [simp]: "board_host (w\<lparr>c_files := fs\<rparr>) = board_host w"
  by (simp add: board_host_def fds_fresh_def card_usable_def)

lemma offload_on_board:
  assumes host: "board_host w" and clk: "c_clock w < 2 ^ 62"
    and tmp: "take 5 p0 = ''/tmp/''" "take 5 p1 = ''/tmp/''" "take 5 out = ''/tmp/''" and ne: "p0 \<noteq> p1"
    and short: "length d0 \<le> 10000" "length d1 \<le> 10000"
    and eng: "engine_implements eng mg lat" "lat \<le> 30000000" and outs: "mg d0 d1 0 = [o1]"
    and len: "0 < length o1" "length o1 < 2 ^ 32"
  defines "v \<equiv> w\<lparr>c_files := (c_files w)(p0 := Some d0, p1 := Some d1)\<rparr>"
  shows "\<exists>w'. run_offload (card_os eng) default_config p0 (of_nat (length d0)) p1 (of_nat (length d1)) out 0 v =
      Some (OK, of_nat (length o1), w') \<and> c_files w' = (c_files v)(out := Some o1) \<and> board_host w' \<and>
      c_clock w' \<le> c_clock w + 11000 + lat"
proof -
  have host': "board_host v" and clk': "c_clock v = c_clock w" using host by (simp_all add: v_def)
  have wired: "card_wired default_config v" and fresh: "fds_fresh v" and disk: "c_disk v = None"
    and devs: "\<And>p. take 5 p = ''/tmp/'' \<Longrightarrow> c_devs v p = None"
    using host' clk clk' by (simp_all add: board_host_def card_wired_def)
  have gate: "can_offload default_config (of_nat (length d0)) (of_nat (length d1))"
    using short by (intro short_gate) (simp_all add: default_config_def)
  have fit: "sources_fit default_config d0 d1"
    unfolding sources_fit_def default_config_def using short by (auto intro!: disjoint_rangesI(2))
  have ins: "inputs_at v p0 d0 p1 d1" using devs tmp ne by (simp add: inputs_at_def v_def)
  have lat: "lat \<le> 1000 * max 1 (unat (timeout_ms default_config))" using eng(2) by (simp add: default_config_def)
  have ofit: "outputs_fit (mg d0 d1 0)" using len by (simp add: outputs_fit_def outs)
  obtain w' where run: "run_offload (card_os eng) default_config p0 (of_nat (length d0)) p1 (of_nat (length d1)) out 0 v =
      Some (OK, of_nat (length o1), w')" and fs: "c_files w' = (c_files v)(out := Some o1)"
    and rest: "c_devs w' = c_devs v" "c_disk w' = None" "c_clock w' \<le> c_clock w + 11000 + lat"
    using run_offload_card [OF wired fresh fit ins gate eng(1) lat ofit devs [OF tmp(3)] disk, of 0] clk'
    by (auto simp: outs)
  have "card_usable default_config w' \<and> fds_fresh w'"
    by (rule offload_keeps_usable [OF wired_usable [OF wired] fresh run])
  then have "board_host w'" using devs rest(1,2) by (simp add: board_host_def)
  with run fs rest(3) show ?thesis by blast
qed

text \<open>What the board tests want of the output: within the limit, a footer, and the 20 keys.\<close>

definition output_accepted :: "(card, 'i) table_reader \<Rightarrow> byte list \<Rightarrow> bool" where
  "output_accepted rd out \<longleftrightarrow> length out \<le> 0x40000 \<and> ends_in_magic out \<and>
     (\<forall>path w. c_files w path = Some out \<longrightarrow>
        (\<exists>ks uks. table_as_expected rd path (of_nat (length out)) 20 ''key_0000'' ''key_0032'' w ks uks))"

lemma length_kMagic: "length kMagic = 8"
  by (simp add: kMagic_def)

lemma find_end_magic:
  assumes "ends_in_magic out"
  shows "find_sstable_end out (length out) = length out"
proof -
  have "take 8 (drop (length out - 8) out) = drop (length out - 8) out" using assms by (simp add: ends_in_magic_def length_kMagic)
  then have "out = take (length out - 8) out @ kMagic" using assms by (metis append_take_drop_id ends_in_magic_def)
  then show ?thesis using find_sstable_end_append_magic by metis
qed

lemma verify_outputs_pass:
  assumes ok: "output_accepted rd out" and there: "c_files w path = Some out" and sz: "sz = of_nat (length out)"
  shows "verify_board_output card_io rd path sz t w = Some (t\<lparr>g_pass := g_pass t + 55\<rparr>)"
    and "verify_multi_output card_io rd path sz t w = Some (t\<lparr>g_pass := g_pass t + 53\<rparr>)"
proof -
  have len: "8 \<le> length out" "length out \<le> 0x40000" and magic: "ends_in_magic out"
    using ok by (simp_all add: output_accepted_def ends_in_magic_def length_kMagic)
  have n: "unat sz = length out" using len by (simp add: sz unat_of_nat64)
  have "0 < unat sz" unfolding n using len(1) by linarith
  then have pos: "0 < sz" by (simp add: word_less_nat_alt)
  have bound: "sz \<le> max_out_bytes default_config" using len by (simp add: word_le_nat_alt n default_config_def)
  obtain ks uks where "table_as_expected rd path sz 20 ''key_0000'' ''key_0032'' w ks uks"
    using ok there unfolding output_accepted_def sz by blast
  note chk = check_table_passes [OF this]
  have slurp: "io_slurp card_io path w = Some out" using there by (simp add: card_io_def)
  show "verify_board_output card_io rd path sz t w = Some (t\<lparr>g_pass := g_pass t + 55\<rparr>)"
    "verify_multi_output card_io rd path sz t w = Some (t\<lparr>g_pass := g_pass t + 53\<rparr>)"
    unfolding verify_board_output_def verify_multi_output_def Let_def slurp option.case n find_end_magic [OF magic] chk
    by (simp_all add: check_pass pos bound magic)
qed

lemma cleanup_card:
  "cleanup card_io p0 p1 out True w = w\<lparr>c_files := (c_files w)(p0 := None, p1 := None, out := None)\<rparr>"
  by (simp add: cleanup_def card_io_def Let_def)

lemma board_tests_host_same:
  assumes "board_host w" and "host_same w w'"
  shows "board_host w'" and "c_clock w' = c_clock w"
  using assms by (simp_all add: board_host_def host_same_def)

section \<open>The board tests\<close>

lemma multi_source: "build_sstable [multi_a, multi_b] 2 = fst make_asymmetric_fixtures"
  by (simp add: make_asymmetric_fixtures_def asym_src0_def multi_a_def multi_b_def)

lemma accepted_length: "output_accepted rd out \<Longrightarrow> 0 < length out \<and> length out < 2 ^ 32"
  by (auto simp: output_accepted_def ends_in_magic_def)

lemma run_board_test_passes:
  assumes host: "board_host w" and clk: "c_clock w < 2 ^ 62" and t: "g_fail t = 0"
    and eng: "engine_implements eng mg lat" "lat \<le> 30000000"
    and outs: "mg (fst make_asymmetric_fixtures) (snd make_asymmetric_fixtures) 0 = [out]"
    and ok: "output_accepted rd out"
  shows "\<exists>w'. run_board_test (card_os eng) card_io rd t w = Some (t\<lparr>g_pass := g_pass t + 55\<rparr>, w') \<and>
    c_files w' = (c_files w)(''/tmp/cmpct_board_src0.ldb'' := None, ''/tmp/cmpct_board_src1.ldb'' := None,
      ''/tmp/cmpct_board_out.ldb'' := None) \<and> board_host w' \<and> c_clock w' \<le> c_clock w + 11000 + lat"
proof -
  let ?p0 = "''/tmp/cmpct_board_src0.ldb''" and ?p1 = "''/tmp/cmpct_board_src1.ldb''" and ?out = "''/tmp/cmpct_board_out.ldb''"
  obtain d0 d1 where f: "make_asymmetric_fixtures = (d0, d1)" by fastforce
  have l: "length d0 \<le> 10000" "length d1 \<le> 10000" using asym_tables_short by (simp_all add: f)
  have mg: "mg d0 d1 0 = [out]" using outs by (simp add: f)
  let ?v = "w\<lparr>c_files := (c_files w)(?p0 := Some d0, ?p1 := Some d1)\<rparr>"
  obtain w3 where run: "run_offload (card_os eng) default_config ?p0 (of_nat (length d0)) ?p1 (of_nat (length d1)) ?out 0 ?v =
      Some (OK, of_nat (length out), w3)" and fs: "c_files w3 = (c_files ?v)(?out := Some out)"
    and w3: "board_host w3" "c_clock w3 \<le> c_clock w + 11000 + lat"
    using offload_on_board [OF host clk _ _ _ _ l eng mg, of ?p0 ?p1 ?out] accepted_length [OF ok] by auto
  have there: "c_files w3 ?out = Some out" by (simp add: fs)
  note ver = verify_outputs_pass(1) [OF ok there refl]
  let ?w4 = "w3\<lparr>c_files := (c_files w3)(?p0 := None, ?p1 := None, ?out := None)\<rparr>"
  have "run_board_test (card_os eng) card_io rd t w = Some (t\<lparr>g_pass := g_pass t + 55\<rparr>, ?w4)"
    by (simp add: run_board_test_def f write_tmp_card run ver t cleanup_card)
  moreover have "c_files ?w4 = (c_files w)(?p0 := None, ?p1 := None, ?out := None)" by (simp add: fs fun_upd_twist)
  ultimately show ?thesis using w3 by (intro exI [of _ ?w4]) simp
qed

lemma run_board_test_multi_passes:
  assumes host: "board_host w" and clk: "c_clock w < 2 ^ 62"
    and eng: "engine_implements eng mg lat" "lat \<le> 30000000"
    and outs: "mg (fst make_asymmetric_fixtures) (snd make_asymmetric_fixtures) 0 = [out]"
    and ok: "output_accepted rd out"
  shows "\<exists>w'. run_board_test_multi (card_os eng) card_io rd t w = Some (t\<lparr>g_pass := g_pass t + 53\<rparr>, w') \<and>
    c_files w' = (c_files w)(''/tmp/cmpct_b2_merged_src0.ldb'' := None, ''/tmp/cmpct_b2_src1.ldb'' := None,
      ''/tmp/cmpct_b2_out.ldb'' := None)"
proof -
  let ?p0 = "''/tmp/cmpct_b2_merged_src0.ldb''" and ?p1 = "''/tmp/cmpct_b2_src1.ldb''" and ?out = "''/tmp/cmpct_b2_out.ldb''"
  obtain d0 d1 where f: "make_asymmetric_fixtures = (d0, d1)" by fastforce
  have m: "build_sstable [multi_a, multi_b] 2 = d0" using multi_source by (simp add: f)
  have l: "length d0 \<le> 10000" "length d1 \<le> 10000" using asym_tables_short by (simp_all add: f)
  have mg: "mg d0 d1 0 = [out]" using outs by (simp add: f)
  let ?v = "w\<lparr>c_files := (c_files w)(?p0 := Some d0, ?p1 := Some d1)\<rparr>"
  obtain w3 where run: "run_offload (card_os eng) default_config ?p0 (of_nat (length d0)) ?p1 (of_nat (length d1)) ?out 0 ?v =
      Some (OK, of_nat (length out), w3)" and fs: "c_files w3 = (c_files ?v)(?out := Some out)"
    using offload_on_board [OF host clk _ _ _ _ l eng mg, of ?p0 ?p1 ?out] accepted_length [OF ok] by auto
  have there: "c_files w3 ?out = Some out" by (simp add: fs)
  note ver = verify_outputs_pass(2) [OF ok there refl]
  let ?w4 = "w3\<lparr>c_files := (c_files w3)(?p0 := None, ?p1 := None, ?out := None)\<rparr>"
  have "run_board_test_multi (card_os eng) card_io rd t w = Some (t\<lparr>g_pass := g_pass t + 53\<rparr>, ?w4)"
    by (simp add: run_board_test_multi_def f m write_tmp_card run ver cleanup_card)
  moreover have "c_files ?w4 = (c_files w)(?p0 := None, ?p1 := None, ?out := None)" by (simp add: fs fun_upd_twist)
  ultimately show ?thesis by blast
qed

text \<open>
  C29. With \<^verbatim>\<open>--board\<close>, on a host with a working card whose engine computes a compaction that turns the
  two fixtures into one table the test accepts, all 125 checks of the program pass and it exits with 0.
\<close>

theorem board_tests_pass:
  assumes "test_host w" and "board_host w" and "c_clock w < 2 ^ 61"
    and "engine_implements eng mg lat" and "lat \<le> 30000000"
    and "mg (fst make_asymmetric_fixtures) (snd make_asymmetric_fixtures) 0 = [out]"
    and "output_accepted rd out" and "''--board'' \<in> set args"
  shows "\<exists>w'. board_main (card_os eng) card_io rd args w = Some (0, \<lparr>g_pass = 125, g_fail = 0\<rparr>, w')"
proof -
  obtain w1 where u: "run_unit_tests (card_os eng) card_io \<lparr>g_pass = 0, g_fail = 0\<rparr> w = Some (\<lparr>g_pass = 17, g_fail = 0\<rparr>, w1)"
    and same: "host_same w w1"
    using unit_tests_card [OF assms(1), of eng "\<lparr>g_pass = 0, g_fail = 0\<rparr>"] by auto
  have w1: "board_host w1" "c_clock w1 < 2 ^ 62"
    using board_tests_host_same [OF assms(2) same] assms(3) by simp_all
  obtain w2 where b: "run_board_test (card_os eng) card_io rd \<lparr>g_pass = 17, g_fail = 0\<rparr> w1 =
      Some (\<lparr>g_pass = 72, g_fail = 0\<rparr>, w2)" and w2: "board_host w2" "c_clock w2 \<le> c_clock w1 + 11000 + lat"
    using run_board_test_passes [OF w1 _ assms(4-7), of "\<lparr>g_pass = 17, g_fail = 0\<rparr>"] by auto
  have "c_clock w2 < 2 ^ 62"
    using w2(2) assms(3,5) board_tests_host_same(2) [OF assms(2) same] by simp
  from run_board_test_multi_passes [OF w2(1) this assms(4-7), of "\<lparr>g_pass = 72, g_fail = 0\<rparr>"]
  show ?thesis using assms(8) u b by (auto simp: board_main_def)
qed

end
