(* ===== verification/Board_Compaction.thy ===== *)
theory Board_Compaction
  imports Board_Card
begin

text \<open>
  A compaction of tables and a reader of tables with which the board tests pass: the merge of two tables in
  key order that keeps the newest record of every user key, and a reader over decoded tables. A reader
  like this one is what the test's calls into LevelDB rely on; it does not look at checksums.
\<close>

section \<open>An interface for table iterators\<close>

text \<open>\<open>at ks n it\<close>: the iterator stands at position \<open>n\<close> of the keys \<open>ks\<close>, behind the last key when \<open>n\<close> is their number.\<close>

locale table_cursor =
  fixes rd :: "('w, 'i) table_reader" and at :: "byte list list \<Rightarrow> nat \<Rightarrow> 'i \<Rightarrow> bool"
  assumes valid: "at ks n it \<Longrightarrow> tr_valid rd it \<longleftrightarrow> n < length ks"
    and key: "at ks n it \<Longrightarrow> n < length ks \<Longrightarrow> tr_key rd it = ks ! n"
    and step: "at ks n it \<Longrightarrow> n < length ks \<Longrightarrow> at ks (Suc n) (tr_next rd it)"
    and seek_first: "at ks n it \<Longrightarrow> at ks 0 (tr_first rd it)"
    and seek_last: "at ks n it \<Longrightarrow> at ks (length ks - 1) (tr_last rd it)"
    and healthy: "at ks n it \<Longrightarrow> tr_ok rd it"
begin

lemma iterates_from:
  assumes "at ks n it" and "n \<le> length ks"
  shows "iterates rd it (drop n ks)"
  using assms
proof (induction "length ks - n" arbitrary: n it)
  case 0
  then show ?case using valid by simp
next
  case (Suc d)
  then have n: "n < length ks" by simp
  then have "iterates rd (tr_next rd it) (drop (Suc n) ks)" using Suc step by auto
  then show ?case using Suc n valid key by (simp flip: Cons_nth_drop_Suc)
qed

lemma steps: "at ks n it \<Longrightarrow> n + m \<le> length ks \<Longrightarrow> at ks (n + m) ((tr_next rd ^^ m) it)"
  using step by (induction m) auto

lemma presents_keys:
  assumes op: "tr_open_file rd path w" "tr_open_table rd path sz w = Some it" and it: "at ks n it"
    and asc: "ascending rd None ks" and parse: "map (tr_parse rd) ks = map Some uks"
    and ne: "ks \<noteq> []" and ends: "hd uks = bytes_of f" "last uks = bytes_of l"
  shows "table_as_expected rd path sz (length ks) f l w ks uks"
proof -
  let ?i = "tr_first rd it"
  let ?e = "(tr_next rd ^^ length ks) ?i"
  have i: "at ks 0 ?i" using it by (rule seek_first)
  have e: "at ks (length ks) ?e" using steps [OF i, of "length ks"] by simp
  then have z: "at ks (length ks - 1) (tr_last rd ?e)" by (rule seek_last)
  have pos: "length ks - 1 < length ks" using ne by simp
  have "tr_key rd (tr_last rd ?e) = last ks" using key [OF z pos] ne by (simp add: last_conv_nth)
  moreover have "tr_parse rd (last ks) = Some (last uks)"
    using ne arg_cong [OF parse, of last] by (metis last_map map_is_Nil_conv parse)
  moreover have "well_read rd ?i None ks uks"
    using iterates_from [OF i] asc parse by (simp add: well_read_def)
  ultimately show ?thesis
    using op ne ends healthy [OF e] healthy [OF z] valid [OF z] pos by (simp add: table_as_expected_def Let_def)
qed

end

section \<open>A reader over decoded tables\<close>

text \<open>\<^verbatim>\<open>ParseInternalKey\<close> and the order of internal keys: user key first, then the newer tag.\<close>

definition parse_key :: "byte list \<Rightarrow> byte list option" where
  "parse_key k = (if 8 \<le> length k \<and> k ! (length k - 8) \<le> 1 then Some (user_key k) else None)"

definition key_tag :: "byte list \<Rightarrow> nat" where
  "key_tag k = le_nat (drop (length k - 8) k)"

definition compare_keys :: "byte list \<Rightarrow> byte list \<Rightarrow> int" where
  "compare_keys a b =
     (if user_key a < user_key b then -1
      else if user_key b < user_key a then 1
      else int (key_tag b) - int (key_tag a))"

definition plain_reader :: "(card, byte list list \<times> nat) table_reader" where
  "plain_reader = \<lparr>tr_open_file = (\<lambda>path w. c_files w path \<noteq> None),
     tr_open_table = (\<lambda>path sz w. case c_files w path of
         None \<Rightarrow> None
       | Some d \<Rightarrow> if length d = unat sz then map_option (\<lambda>bs. (map fst (concat bs), 0)) (read_table d) else None),
     tr_first = (\<lambda>(ks, n). (ks, 0)), tr_last = (\<lambda>(ks, n). (ks, length ks - 1)),
     tr_valid = (\<lambda>(ks, n). n < length ks), tr_next = (\<lambda>(ks, n). (ks, Suc n)), tr_key = (\<lambda>(ks, n). ks ! n),
     tr_ok = (\<lambda>it. True), tr_parse = parse_key, tr_compare = compare_keys\<rparr>"

interpretation plain: table_cursor plain_reader "\<lambda>ks n it. it = (ks, n)"
  by unfold_locales (simp_all add: plain_reader_def)

section \<open>The compaction\<close>

text \<open>Both inputs are in the order of their user keys, without a user key twice.\<close>

fun newest_merge :: "entry list \<Rightarrow> entry list \<Rightarrow> entry list" where
  "newest_merge [] ys = ys"
| "newest_merge xs [] = xs"
| "newest_merge (x # xs) (y # ys) =
     (if user_key (fst x) < user_key (fst y) then x # newest_merge xs (y # ys)
      else if user_key (fst y) < user_key (fst x) then y # newest_merge (x # xs) ys
      else (if key_tag (fst x) < key_tag (fst y) then y else x) # newest_merge xs ys)"

definition by_user_key :: "entry list \<Rightarrow> bool" where
  "by_user_key es \<longleftrightarrow> sorted_wrt (<) (map (\<lambda>e. user_key (fst e)) es)"

lemma newest_merge_keys:
  "(\<lambda>e. user_key (fst e)) ` set (newest_merge xs ys) = (\<lambda>e. user_key (fst e)) ` (set xs \<union> set ys)"
  by (induction xs ys rule: newest_merge.induct) (auto simp: image_Un)

lemma by_user_key_Cons:
  "by_user_key (x # xs) \<longleftrightarrow> (\<forall>k\<in>(\<lambda>e. user_key (fst e)) ` set xs. user_key (fst x) < k) \<and> by_user_key xs"
  by (simp add: by_user_key_def)

lemma newest_merge_sorted: "by_user_key xs \<Longrightarrow> by_user_key ys \<Longrightarrow> by_user_key (newest_merge xs ys)"
proof (induction xs ys rule: newest_merge.induct)
  case (3 x xs y ys)
  let ?u = "\<lambda>e. user_key (fst e)"
  have xs: "\<forall>k\<in>?u ` set xs. ?u x < k" "by_user_key xs" and ys: "\<forall>k\<in>?u ` set ys. ?u y < k" "by_user_key ys"
    using 3(4,5) unfolding by_user_key_Cons by blast+
  consider "?u x < ?u y" | "?u y < ?u x" | "?u x = ?u y" by fastforce
  then show ?case
  proof cases
    case 1
    then have "\<forall>k\<in>?u ` (set xs \<union> set (y # ys)). ?u x < k" using xs(1) ys(1) by auto
    then show ?thesis using 1 3(1) xs(2) 3(5) by (simp only: newest_merge.simps if_True by_user_key_Cons newest_merge_keys) simp
  next
    case 2
    then have "\<forall>k\<in>?u ` (set (x # xs) \<union> set ys). ?u y < k" using xs(1) ys(1) by auto
    moreover have "\<not> ?u x < ?u y" using 2 by auto
    ultimately show ?thesis using 2 3(2) ys(2) 3(4) by (simp only: newest_merge.simps if_True if_False by_user_key_Cons newest_merge_keys) simp
  next
    case 3
    then have "\<forall>k\<in>?u ` (set xs \<union> set ys). ?u x < k" "\<not> ?u x < ?u y" "\<not> ?u y < ?u x" using xs(1) ys(1) by auto
    then show ?thesis
      using 3 "3.IH"(3) xs(2) ys(2)
      by (simp only: newest_merge.simps if_False by_user_key_Cons newest_merge_keys) (simp split: if_split)
  qed
qed simp_all

definition compaction :: merge_spec where
  "compaction s0 s1 m =
     (case (read_table s0, read_table s1) of
        (Some b0, Some b1) \<Rightarrow> [build_sstable [newest_merge (concat b0) (concat b1)] 16]
      | _ \<Rightarrow> [])"

section \<open>The compaction of the fixtures\<close>

definition merged_asym :: "entry list" where
  "merged_asym =
     map (\<lambda>i. fixture_rec ''v0_'' i (of_nat (20 + i))) [0, 1, 2, 3] @
     map (\<lambda>i. fixture_rec ''v1_'' i (of_nat i)) [4, 5, 6] @
     map (\<lambda>i. fixture_rec ''v0_'' i (of_nat (24 + i - 10))) [10, 11, 12, 13] @
     map (\<lambda>i. fixture_rec ''v1_'' i (of_nat (i - 7))) [14, 15, 16] @
     map (\<lambda>i. fixture_rec ''v1_'' i (of_nat (i - 10))) [20, 21, 22] @
     map (\<lambda>i. fixture_rec ''v1_'' i (of_nat (i - 17))) [30, 31, 32]"

definition merged_ids :: "nat list" where
  "merged_ids = [0, 1, 2, 3, 4, 5, 6, 10, 11, 12, 13, 14, 15, 16, 20, 21, 22, 30, 31, 32]"

lemma user_key_fixture: "user_key (fst (fixture_rec p i sq)) = bytes_of (''key_'' @ pad0 4 i)"
  by (simp add: user_key_def fixture_rec_def ikey_le64 Let_def)

lemma fixture_key_less:
  assumes "i < 10 ^ 4" and "j < 10 ^ 4"
  shows "bytes_of (''key_'' @ pad0 4 i) < bytes_of (''key_'' @ pad0 4 j) \<longleftrightarrow> i < j"
proof -
  have less: "bytes_of (''key_'' @ pad0 4 a) < bytes_of (''key_'' @ pad0 4 b)" if "a < b" "b < 10 ^ 4" for a b
    using pad0_less [OF that, of "''key_''" "[]" "[]"] by (simp add: bytes_lt_less)
  consider "i < j" | "j < i" | "i = j" by linarith
  then show ?thesis
  proof cases
    case 2
    from less [OF this assms(1)] show ?thesis using 2 by (meson less_not_sym)
  qed (use less assms in blast)+
qed

lemma fixture_less:
  "i < 10 ^ 4 \<Longrightarrow> j < 10 ^ 4 \<Longrightarrow>
    user_key (fst (fixture_rec p i sq)) < user_key (fst (fixture_rec q j sr)) \<longleftrightarrow> i < j"
  by (simp only: user_key_fixture fixture_key_less)

lemma newest_merge_asym: "newest_merge (concat asym_src0) (concat asym_src1) = merged_asym"
  unfolding asym_src0_def asym_src1_def merged_asym_def by (simp add: fixture_less)

lemma tag_type_byte: "le64 (push_bit 8 sq OR 1) ! 0 = 1"
proof -
  have "(of_nat (unat (push_bit 8 sq OR 1 :: u64)) :: byte) = ucast (push_bit 8 sq OR 1 :: u64)" by (simp add: of_nat_unat)
  also have "\<dots> = 1"
    by (rule bit_word_eqI) (auto simp: bit_simps bit_1_iff)
  finally have low: "(of_nat (unat (push_bit 8 sq OR 1 :: u64)) :: byte) = 1" .
  have "le_bytes 8 n ! 0 = of_nat n" for n using le_bytes.simps(2) [of 7 n] by simp
  from this [of "unat (push_bit 8 sq OR 1)"] low show ?thesis unfolding le64_def by (rule trans)
qed

lemma parse_key_fixture: "parse_key (fst (fixture_rec p i sq)) = Some (bytes_of (''key_'' @ pad0 4 i))"
proof -
  let ?uk = "bytes_of (''key_'' @ pad0 4 i)"
  have k: "fst (fixture_rec p i sq) = ?uk @ le64 (push_bit 8 sq OR 1)"
    by (simp add: fixture_rec_def ikey_le64 Let_def)
  then have "fst (fixture_rec p i sq) ! length ?uk = 1" unfolding k nth_append using tag_type_byte by simp
  moreover have "length (fst (fixture_rec p i sq)) - 8 = length ?uk" "8 \<le> length (fst (fixture_rec p i sq))"
    unfolding k by simp_all
  ultimately show ?thesis unfolding parse_key_def user_key_fixture by simp
qed

lemma plain_sel [simp]: "tr_parse plain_reader = parse_key" "tr_compare plain_reader = compare_keys"
  by (simp_all add: plain_reader_def)

lemma compare_fixture:
  "i < j \<Longrightarrow> j < 10 ^ 4 \<Longrightarrow> compare_keys (fst (fixture_rec p i sq)) (fst (fixture_rec q j sr)) = -1"
  by (simp add: compare_keys_def fixture_less)

lemma merged_ascending: "ascending plain_reader None (map fst merged_asym)"
  by (simp add: merged_asym_def compare_fixture)

lemma merged_parses:
  "map (tr_parse plain_reader) (map fst merged_asym) = map Some (map (\<lambda>i. bytes_of (''key_'' @ pad0 4 i)) merged_ids)"
  by (simp add: merged_asym_def merged_ids_def parse_key_fixture del: bytes_of_append)

text \<open>However the engine cuts the merged records into blocks.\<close>

lemma merged_reads:
  assumes "concat blocks = merged_asym" and "[] \<notin> set blocks" and "length blocks \<le> 20"
  shows "read_table (build_sstable blocks ri) = Some blocks"
proof (rule sorted_table_reads)
  have "indexed le_lib 4 ''key_'' (map as_kv merged_asym) merged_ids"
    unfolding merged_asym_def merged_ids_def by (simp add: indexed_fixture numeral_2_eq_2)
  then have "table_sorted (map as_kv merged_asym)"
    by (rule indexed_sorted) (simp_all add: merged_ids_def)
  then show "sorted_wrt (<) (map fst (concat blocks))" unfolding assms(1) by (simp add: table_sorted_entries)
  show "\<forall>e\<in>set (concat blocks). length (fst e) \<le> 100 \<and> length (snd e) \<le> 100"
    unfolding assms(1) by (simp add: merged_asym_def fixture_rec_short)
  show "length (concat blocks) \<le> 100" unfolding assms(1) by (simp add: merged_asym_def)
qed (use assms in simp_all)

lemma pad0_ends: "pad0 4 0 = ''0000''" "pad0 4 32 = ''0032''"
proof -
  have "replicate 3 c = [c, c, c]" "replicate 2 c = [c, c]" for c :: char
    by (simp_all add: numeral_3_eq_3 numeral_2_eq_2)
  then show "pad0 4 0 = ''0000''" "pad0 4 32 = ''0032''"
    by (simp_all add: pad0_def decimal_string.simps digit_char_def char_of_def bit_0)
qed

lemma merged_accepted:
  assumes "concat blocks = merged_asym" and "[] \<notin> set blocks" and "length blocks \<le> 20"
  shows "output_accepted plain_reader (build_sstable blocks 16)"
proof -
  let ?out = "build_sstable blocks 16"
  have "\<forall>e\<in>set (concat blocks). length (fst e) \<le> 100 \<and> length (snd e) \<le> 100"
    unfolding assms(1) by (simp add: merged_asym_def fixture_rec_short)
  from table_size_le [OF this] have "table_size blocks \<le> 10000"
    using assms(3) unfolding assms(1) by (simp add: merged_asym_def)
  then have len: "length ?out \<le> 10000"
    using length_build_table_le [of table_magic blocks 16] by (simp add: build_sstable_def)
  obtain body where body: "?out = body @ kMagic" using table_ends_in_magic by blast
  have "ends_in_magic ?out" unfolding body by (simp add: ends_in_magic_def length_kMagic)
  moreover have "table_as_expected plain_reader path (of_nat (length ?out)) 20 ''key_0000'' ''key_0032'' w
      (map fst merged_asym) (map (\<lambda>i. bytes_of (''key_'' @ pad0 4 i)) merged_ids)"
    if held: "c_files w path = Some ?out" for path w
  proof -
    have "table_as_expected plain_reader path (of_nat (length ?out)) (length (map fst merged_asym)) ''key_0000'' ''key_0032'' w
      (map fst merged_asym) (map (\<lambda>i. bytes_of (''key_'' @ pad0 4 i)) merged_ids)"
    proof (rule plain.presents_keys [OF _ _ refl merged_ascending merged_parses])
      show "tr_open_file plain_reader path w" using held by (simp add: plain_reader_def)
      show "tr_open_table plain_reader path (of_nat (length ?out)) w = Some (map fst merged_asym, 0)"
        using held len by (simp add: plain_reader_def merged_reads [OF assms] assms(1) unat_of_nat64)
    qed (simp_all add: merged_asym_def merged_ids_def pad0_ends)
    moreover have "length (map fst merged_asym) = 20" by (simp add: merged_asym_def)
    ultimately show ?thesis by (simp only:)
  qed
  ultimately show ?thesis using len unfolding output_accepted_def by fastforce
qed

lemma merged_table_accepted: "output_accepted plain_reader (build_sstable [merged_asym] 16)"
  by (rule merged_accepted) (simp_all add: merged_asym_def)

lemma compaction_fixtures:
  "compaction (fst make_asymmetric_fixtures) (snd make_asymmetric_fixtures) m = [build_sstable [merged_asym] 16]"
  using asym_tables [of 2] by (simp add: compaction_def make_asymmetric_fixtures_def newest_merge_asym)

section \<open>The board tests pass\<close>

lemma demo_host: "test_host (demo_card 2)" "board_host (demo_card 2)"
proof -
  have "c_devs (demo_card 2) p = None" if "take 5 p = ''/tmp/''" for p
    using that by (auto simp: demo_simps)
  then show "test_host (demo_card 2)" "board_host (demo_card 2)"
    using demo_conditions(2) wired_usable [OF demo_conditions(1)]
    by (simp_all add: test_host_def board_host_def demo_simps)
qed

theorem unit_tests_pass_witness:
  "\<exists>w'. board_main (card_os (spec_engine compaction 2500)) card_io plain_reader [''-v''] (demo_card 2) =
      Some (0, \<lparr>g_pass = 17, g_fail = 0\<rparr>, w') \<and>
    c_files w' = (c_files (demo_card 2))(''/tmp/cmpct_test_src0.bin'' := None, ''/tmp/cmpct_test_src1.bin'' := None)"
  by (rule unit_tests_pass [OF demo_host(1)]) simp

theorem check_table_decides_witness:
  "\<exists>w t'. check_leveldb_table plain_reader ''t.ldb'' (of_nat (length (build_sstable [merged_asym] 16))) 20
      ''key_0000'' ''key_0032'' \<lparr>g_pass = 0, g_fail = 0\<rparr> w = Some t' \<and>
    (g_fail t' = 0 \<longleftrightarrow> (\<exists>ks uks. table_as_expected plain_reader ''t.ldb''
      (of_nat (length (build_sstable [merged_asym] 16))) 20 ''key_0000'' ''key_0032'' w ks uks))"
proof -
  let ?out = "build_sstable [merged_asym] 16" and ?t = "\<lparr>g_pass = 0, g_fail = 0\<rparr>"
  let ?w = "(demo_card 2)\<lparr>c_files := [''t.ldb'' \<mapsto> ?out]\<rparr>"
  have "c_files ?w ''t.ldb'' = Some ?out" by simp
  then obtain ks uks where
    "table_as_expected plain_reader ''t.ldb'' (of_nat (length ?out)) 20 ''key_0000'' ''key_0032'' ?w ks uks"
    using merged_table_accepted unfolding output_accepted_def by blast
  note run = check_table_passes [OF this, of ?t]
  from check_table_decides [OF run] run show ?thesis by (intro exI conjI) (assumption, simp)
qed

end
