(* ===== verification/Record_Merge.thy ===== *)
theory Record_Merge
  imports Board_Compaction
begin

text \<open>
  What the compaction engine computes, at the level of records: the merger takes the smaller of two records
  and drops a record whose user key is the one before it; the matcher pairs the blocks of the two tables by
  their position, and every pair is merged on its own, seeded with the last user key of the pair before.
  The functions here are the abstract side of the refinements of \<^verbatim>\<open>cmpct_merger.v\<close> and
  \<^verbatim>\<open>cmpct_desc_matcher.v\<close>; this theory says when they compute the merge of the two tables.
\<close>

section \<open>Merging two sorted sources\<close>

definition before :: "entry \<Rightarrow> entry \<Rightarrow> bool" where
  "before x y \<longleftrightarrow> user_key (fst x) < user_key (fst y) \<or>
     user_key (fst x) = user_key (fst y) \<and> key_tag (fst y) \<le> key_tag (fst x)"

fun weave :: "entry list \<Rightarrow> entry list \<Rightarrow> entry list" where
  "weave [] ys = ys"
| "weave xs [] = xs"
| "weave (x # xs) (y # ys) = (if before x y then x # weave xs (y # ys) else y # weave (x # xs) ys)"

fun fresh :: "byte list option \<Rightarrow> entry list \<Rightarrow> entry list" where
  "fresh prev [] = []"
| "fresh prev (z # zs) =
     (if prev = Some (user_key (fst z)) then fresh prev zs else z # fresh (Some (user_key (fst z))) zs)"

definition merge_records :: "byte list option \<Rightarrow> entry list \<Rightarrow> entry list \<Rightarrow> entry list" where
  "merge_records prev xs ys = fresh prev (weave xs ys)"

fun last_user_key :: "byte list option \<Rightarrow> entry list \<Rightarrow> byte list option" where
  "last_user_key prev [] = prev"
| "last_user_key prev (z # zs) = last_user_key (Some (user_key (fst z))) zs"

lemma weave_Nil2 [simp]: "weave xs [] = xs"
  by (cases xs) simp_all

lemma mset_weave [simp]: "mset (weave xs ys) = mset xs + mset ys"
  by (induction xs ys rule: weave.induct) simp_all

lemma set_weave [simp]: "set (weave xs ys) = set xs \<union> set ys"
  by (simp flip: set_mset_mset)

lemma length_weave [simp]: "length (weave xs ys) = length xs + length ys"
  by (simp flip: size_mset)

lemma before_total: "before x y \<or> before y x"
  by (auto simp: before_def)

lemma before_refl [simp]: "before x x"
  by (simp add: before_def)

lemma before_trans: "before x y \<Longrightarrow> before y z \<Longrightarrow> before x z"
  by (auto simp: before_def)

definition sorted_source :: "entry list \<Rightarrow> bool" where
  "sorted_source xs \<longleftrightarrow> sorted_wrt before xs"

lemma sorted_weave: "sorted_source xs \<Longrightarrow> sorted_source ys \<Longrightarrow> sorted_source (weave xs ys)"
  unfolding sorted_source_def
proof (induction xs ys rule: weave.induct)
  case (3 x xs y ys)
  show ?case
  proof (cases "before x y")
    case True
    then have "\<forall>z\<in>set (y # ys). before x z" using "3.prems"(2) before_trans by auto
    then show ?thesis using True 3 by auto
  next
    case False
    then have "before y x" using before_total by blast
    then have "\<forall>z\<in>set (x # xs). before y z" using "3.prems"(1) before_trans by auto
    then show ?thesis using False 3 by auto
  qed
qed simp_all

section \<open>Dropping superseded records\<close>

lemma fresh_subseq: "set (fresh prev zs) \<subseteq> set zs"
  by (induction prev zs rule: fresh.induct) auto

lemma fresh_sorted:
  assumes "sorted_source zs" and "\<And>u. prev = Some u \<Longrightarrow> \<forall>z\<in>set zs. u \<le> user_key (fst z)"
  shows "by_user_key (fresh prev zs) \<and> (\<forall>u. prev = Some u \<longrightarrow> (\<forall>z\<in>set (fresh prev zs). u < user_key (fst z)))"
  using assms
proof (induction prev zs rule: fresh.induct)
  case (2 prev z zs)
  have zs: "sorted_source zs" and le: "\<forall>w\<in>set zs. user_key (fst z) \<le> user_key (fst w)"
    using "2.prems"(1) by (auto simp: sorted_source_def before_def)
  show ?case
  proof (cases "prev = Some (user_key (fst z))")
    case True
    then show ?thesis using 2(1) zs "2.prems"(2) by simp
  next
    case False
    have ih: "by_user_key (fresh (Some (user_key (fst z))) zs)"
      "\<forall>w\<in>set (fresh (Some (user_key (fst z))) zs). user_key (fst z) < user_key (fst w)"
      using 2(2) [OF False zs] le by auto
    have "u < user_key (fst w)" if "prev = Some u" "w \<in> set (fresh prev (z # zs))" for u w
    proof -
      have "u \<le> user_key (fst z)" "u \<noteq> user_key (fst z)" using "2.prems"(2) that(1) False by auto
      then have "u < user_key (fst z)" by (rule le_neq_trans)
      then show ?thesis using that(2) ih(2) False by (auto intro: less_trans)
    qed
    then show ?thesis using False ih by (auto simp: by_user_key_Cons)
  qed
qed (simp add: by_user_key_def)

lemma fresh_append: "fresh prev (xs @ ys) = fresh prev xs @ fresh (last_user_key prev xs) ys"
  by (induction prev xs rule: last_user_key.induct) auto

text \<open>What stays is, for every user key, the first of its records, which in a sorted source is the newest.\<close>

lemma fresh_newest:
  assumes "sorted_source zs" and "z \<in> set zs" and "\<And>u. prev = Some u \<Longrightarrow> \<forall>w\<in>set zs. u \<le> user_key (fst w)"
  shows "prev = Some (user_key (fst z)) \<or>
    (\<exists>w\<in>set (fresh prev zs). user_key (fst w) = user_key (fst z) \<and> key_tag (fst z) \<le> key_tag (fst w))"
  using assms
proof (induction prev zs rule: fresh.induct)
  case (2 prev a zs)
  have zs: "sorted_source zs" and le: "\<forall>w\<in>set zs. user_key (fst a) \<le> user_key (fst w)"
    and first: "\<forall>w\<in>set zs. before a w"
    using "2.prems"(1) by (auto simp: sorted_source_def before_def)
  show ?case
  proof (cases "prev = Some (user_key (fst a))")
    case True
    then show ?thesis using 2(1) zs "2.prems"(2,3) by auto
  next
    case False
    show ?thesis
    proof (cases "z = a \<or> user_key (fst z) = user_key (fst a)")
      case True
      then have "key_tag (fst z) \<le> key_tag (fst a)" using first "2.prems"(2) by (auto simp: before_def)
      then show ?thesis using False True by auto
    next
      case neq: False
      then have "z \<in> set zs" using "2.prems"(2) by auto
      from 2(2) [OF False zs this] le neq show ?thesis using False by auto
    qed
  qed
qed simp

section \<open>Against the merge of tables\<close>

lemma sorted_source_Cons: "sorted_source (x # xs) \<longleftrightarrow> (\<forall>w\<in>set xs. before x w) \<and> sorted_source xs"
  by (simp add: sorted_source_def)

lemma by_user_key_sorted: "by_user_key xs \<Longrightarrow> sorted_source xs"
  by (induction xs) (auto simp: by_user_key_Cons sorted_source_Cons before_def, simp add: sorted_source_def)

lemma fresh_new: "\<forall>z\<in>set zs. prev \<noteq> Some (user_key (fst z)) \<Longrightarrow> fresh prev zs = fresh None zs"
  by (cases zs) auto

lemma fresh_distinct:
  "by_user_key zs \<Longrightarrow> \<forall>z\<in>set zs. prev \<noteq> Some (user_key (fst z)) \<Longrightarrow> fresh prev zs = zs"
proof (induction zs arbitrary: prev)
  case (Cons z zs)
  have "fresh (Some (user_key (fst z))) zs = zs" using Cons.prems(1) by (intro Cons.IH) (auto simp: by_user_key_Cons)
  then show ?case using Cons.prems(2) by simp
qed simp

lemma merge_records_newest:
  assumes "by_user_key xs" and "by_user_key ys" and "\<forall>z\<in>set xs \<union> set ys. prev \<noteq> Some (user_key (fst z))"
  shows "merge_records prev xs ys = newest_merge xs ys"
  using assms unfolding merge_records_def
proof (induction xs ys arbitrary: prev rule: newest_merge.induct)
  case (1 ys)
  then show ?case by (simp add: fresh_distinct)
next
  case (2 x xs)
  then show ?case by (simp add: fresh_distinct del: fresh.simps)
next
  case (3 x xs y ys)
  let ?u = "\<lambda>e. user_key (fst e)"
  have xs: "\<forall>w\<in>set xs. ?u x < ?u w" "by_user_key xs" and ys: "\<forall>w\<in>set ys. ?u y < ?u w" "by_user_key ys"
    using "3.prems"(1,2) by (auto simp: by_user_key_Cons)
  have new: "prev \<noteq> Some (?u x)" "prev \<noteq> Some (?u y)" using "3.prems"(3) by auto
  consider "?u x < ?u y" | "?u y < ?u x" | "?u x = ?u y" by fastforce
  then show ?case
  proof cases
    case 1
    have "fresh (Some (?u x)) (weave xs (y # ys)) = newest_merge xs (y # ys)"
      using 1 xs ys "3.prems" by (intro "3.IH"(1)) auto
    then show ?thesis using 1 new by (simp add: before_def)
  next
    case 2
    then have lt: "\<not> ?u x < ?u y" "\<not> before x y" by (auto simp: before_def)
    have "fresh (Some (?u y)) (weave (x # xs) ys) = newest_merge (x # xs) ys"
      using 2 lt xs ys "3.prems" by (intro "3.IH"(2)) auto
    then show ?thesis using 2 lt new by simp
  next
    case 3
    have ih: "fresh (Some (?u y)) (weave xs ys) = newest_merge xs ys"
      using 3 xs ys by (intro "3.IH"(3)) auto
    have one: "weave xs (y # ys) = y # weave xs ys"
      using 3 xs by (cases xs) (auto simp: before_def)
    have two: "weave (x # xs) ys = x # weave xs ys"
      using 3 ys by (cases ys) (auto simp: before_def)
    show ?thesis
    proof (cases "key_tag (fst y) \<le> key_tag (fst x)")
      case True
      then have "before x y" using 3 by (simp add: before_def)
      then show ?thesis using 3 True new one ih by simp
    next
      case False
      then have "\<not> before x y" using 3 by (simp add: before_def)
      then show ?thesis using 3 False new two ih by simp
    qed
  qed
qed

section \<open>Pairs of blocks\<close>

fun pair_up :: "'a list \<Rightarrow> 'a list \<Rightarrow> 'a \<Rightarrow> ('a \<times> 'a) list" where
  "pair_up [] [] z = []"
| "pair_up (x # xs) [] z = (x, z) # pair_up xs [] z"
| "pair_up [] (y # ys) z = (z, y) # pair_up [] ys z"
| "pair_up (x # xs) (y # ys) z = (x, y) # pair_up xs ys z"

fun merge_pairs :: "byte list option \<Rightarrow> (entry list \<times> entry list) list \<Rightarrow> entry list list" where
  "merge_pairs prev [] = []"
| "merge_pairs prev ((xs, ys) # ps) =
     merge_records prev xs ys # merge_pairs (last_user_key prev (weave xs ys)) ps"

definition pair_records :: "entry list \<times> entry list \<Rightarrow> entry set" where
  "pair_records p = set (fst p) \<union> set (snd p)"

definition strictly_before :: "entry \<Rightarrow> entry \<Rightarrow> bool" where
  "strictly_before x y \<longleftrightarrow> before x y \<and> \<not> before y x"

definition aligned :: "(entry list \<times> entry list) list \<Rightarrow> bool" where
  "aligned ps \<longleftrightarrow> sorted_wrt (\<lambda>p q. \<forall>x\<in>pair_records p. \<forall>y\<in>pair_records q. strictly_before x y) ps"

lemma weave_append:
  assumes "\<forall>x\<in>set xs \<union> set ys. \<forall>y\<in>set xs' \<union> set ys'. strictly_before x y"
  shows "weave (xs @ xs') (ys @ ys') = weave xs ys @ weave xs' ys'"
  using assms
proof (induction xs ys rule: weave.induct)
  case (1 ys)
  then show ?case
  proof (induction ys)
    case (Cons y ys)
    then show ?case by (cases xs') (auto simp: strictly_before_def)
  qed simp
next
  case (2 x xs)
  have "weave (zs @ xs') ys' = zs @ weave xs' ys'" if "\<forall>z\<in>set zs. \<forall>y\<in>set ys'. strictly_before z y" for zs
    using that by (induction zs) (cases ys'; auto simp: strictly_before_def)+
  from this [of "x # xs"] 2 show ?case by simp
next
  case (3 x xs y ys)
  then show ?case by auto
qed

lemma pair_up_concat:
  "concat (map fst (pair_up xs ys [])) = concat xs" "concat (map snd (pair_up xs ys [])) = concat ys"
  by (induction xs ys "[] :: 'a list" rule: pair_up.induct) simp_all

lemma merge_pairs_append:
  assumes "aligned ps"
  shows "concat (merge_pairs prev ps) = merge_records prev (concat (map fst ps)) (concat (map snd ps))"
  using assms
proof (induction prev ps rule: merge_pairs.induct)
  case (2 prev xs ys ps)
  have "\<forall>x\<in>set xs \<union> set ys. \<forall>y\<in>set (concat (map fst ps)) \<union> set (concat (map snd ps)). strictly_before x y"
    using "2.prems" by (auto simp: aligned_def pair_records_def)
  then show ?case using 2 by (simp add: merge_records_def weave_append fresh_append aligned_def)
qed (simp add: merge_records_def)

lemma merge_pairs_tables:
  assumes "aligned (pair_up b0 b1 [])" and "by_user_key (concat b0)" and "by_user_key (concat b1)"
  shows "concat (merge_pairs None (pair_up b0 b1 [])) = newest_merge (concat b0) (concat b1)"
  using assms by (simp add: merge_pairs_append pair_up_concat merge_records_newest)

end
