(* ===== verification/Pair_Compaction.thy ===== *)
theory Pair_Compaction
  imports Record_Merge
begin

text \<open>
  The engine as the board tests see it: a table with one merged block for every pair of blocks. The fixtures
  of the board test are aligned, so that the test passes and cannot tell this from the merge of the tables.
\<close>

section \<open>The engine as a compaction of tables\<close>

text \<open>One output, which holds one block for every pair of blocks.\<close>

definition pairwise_compaction :: merge_spec where
  "pairwise_compaction s0 s1 m =
     (case (read_table s0, read_table s1) of
        (Some b0, Some b1) \<Rightarrow> [build_sstable (merge_pairs None (pair_up b0 b1 [])) 16]
      | _ \<Rightarrow> [])"

text \<open>The fixtures of the board test are aligned, so that the test cannot tell the difference.\<close>

lemma fixture_key_eq:
  "i < 10 ^ 4 \<Longrightarrow> j < 10 ^ 4 \<Longrightarrow> bytes_of (''key_'' @ pad0 4 i) = bytes_of (''key_'' @ pad0 4 j) \<longleftrightarrow> i = j"
  using fixture_key_less [of i j] fixture_key_less [of j i] by (metis less_irrefl linorder_neqE_nat)

lemma key_tag_fixture: "key_tag (fst (fixture_rec p i sq)) = unat (push_bit 8 sq OR 1 :: u64)"
proof -
  have "fst (fixture_rec p i sq) = bytes_of (''key_'' @ pad0 4 i) @ le64 (push_bit 8 sq OR 1)"
    by (simp add: fixture_rec_def ikey_le64 Let_def)
  then show ?thesis by (simp add: key_tag_def)
qed

lemma before_fixture:
  "i < 10 ^ 4 \<Longrightarrow> j < 10 ^ 4 \<Longrightarrow> before (fixture_rec p i sq) (fixture_rec q j sr) \<longleftrightarrow>
     i < j \<or> i = j \<and> unat (push_bit 8 sr OR 1 :: u64) \<le> unat (push_bit 8 sq OR 1 :: u64)"
  unfolding before_def user_key_fixture key_tag_fixture by (simp only: fixture_key_less fixture_key_eq)

lemma fixture_user_key_eq:
  "i < 10 ^ 4 \<Longrightarrow> j < 10 ^ 4 \<Longrightarrow>
    user_key (fst (fixture_rec p i sq)) = user_key (fst (fixture_rec q j sr)) \<longleftrightarrow> i = j"
  by (simp only: user_key_fixture fixture_key_eq)

lemma strictly_before_fixture:
  "i < j \<Longrightarrow> j < 10 ^ 4 \<Longrightarrow> strictly_before (fixture_rec p i sq) (fixture_rec q j sr)"
  by (simp add: strictly_before_def before_fixture)

lemma asym_aligned: "aligned (pair_up asym_src0 asym_src1 [])"
  by (simp add: asym_src0_def asym_src1_def aligned_def pair_records_def strictly_before_fixture)

lemma asym_by_user_key: "by_user_key (concat asym_src0)" "by_user_key (concat asym_src1)"
  by (simp_all add: asym_src0_def asym_src1_def by_user_key_def fixture_less)

lemma asym_pairs: "concat (merge_pairs None (pair_up asym_src0 asym_src1 [])) = merged_asym"
  using merge_pairs_tables [OF asym_aligned asym_by_user_key] newest_merge_asym by simp

lemma pairwise_fixtures:
  "pairwise_compaction (fst make_asymmetric_fixtures) (snd make_asymmetric_fixtures) m =
    [build_sstable (merge_pairs None (pair_up asym_src0 asym_src1 [])) 16]"
  using asym_tables [of 2] by (simp add: pairwise_compaction_def make_asymmetric_fixtures_def)

lemma pairwise_accepted: "output_accepted plain_reader (build_sstable (merge_pairs None (pair_up asym_src0 asym_src1 [])) 16)"
  by (rule merged_accepted [OF asym_pairs])
    (simp_all add: asym_src0_def asym_src1_def merge_records_def before_fixture fixture_user_key_eq)

theorem board_tests_pass_witness:
  "\<exists>w'. board_main (card_os (spec_engine pairwise_compaction 2500)) card_io plain_reader [''--board''] (demo_card 2) =
    Some (0, \<lparr>g_pass = 125, g_fail = 0\<rparr>, w')"
  by (rule board_tests_pass [where mg = pairwise_compaction, OF demo_host _ spec_engine_implements _ pairwise_fixtures pairwise_accepted])
    (simp_all add: demo_simps)

text \<open>
  When no record of a block sorts behind a record of a later pair, merging block by block, each pair
  seeded with the last user key of the pair before, computes the merge of the two tables: in key order,
  one record for every user key, the newest.
\<close>

theorem aligned_blocks_merge:
  assumes "aligned (pair_up b0 b1 [])" and "by_user_key (concat b0)" and "by_user_key (concat b1)"
  shows "concat (merge_pairs None (pair_up b0 b1 [])) = newest_merge (concat b0) (concat b1) \<and>
    by_user_key (concat (merge_pairs None (pair_up b0 b1 [])))"
  using merge_pairs_tables [OF assms] newest_merge_sorted [OF assms(2,3)] by simp

theorem aligned_blocks_merge_witness:
  "concat (merge_pairs None (pair_up asym_src0 asym_src1 [])) = newest_merge (concat asym_src0) (concat asym_src1) \<and>
    by_user_key (concat (merge_pairs None (pair_up asym_src0 asym_src1 [])))"
  by (rule aligned_blocks_merge [OF asym_aligned asym_by_user_key])

end
