(* ===== verification/Nblock_Engine.thy ===== *)
theory Nblock_Engine
  imports Offload_Prelude
begin

text \<open>
  The block-pair scheduler \<^verbatim>\<open>organized/rtl_v2/cmpct_nblock_engine.v\<close> as \<^verbatim>\<open>cmpct_engine.v\<close> instantiates it
  (\<^verbatim>\<open>USE_DESC_STREAM = 1\<close>, 32 block pairs, 16 SSTables, a margin of 4096): all its registers and, as
  \<open>nblock_step\<close>, what one rising clock edge does to them. Every right-hand side reads the registers as
  they were before the edge, and a later assignment to a register wins over an earlier one, as
  non-blocking assignments do. What the pair chain, the assembler and the descriptor matcher drive is the
  input of a step. The data path (the multiplexed AXI channels) has no registers here and is left out.
\<close>

section \<open>Inputs\<close>

type_synonym u16 = "16 word"

definition MAX_BLOCK_PAIRS :: nat where "MAX_BLOCK_PAIRS = 32"
definition MAX_SSTABLES :: nat where "MAX_SSTABLES = 16"
definition SPLIT_TAIL_MARGIN :: u32 where "SPLIT_TAIL_MARGIN = 4096"

lemmas nb_param_defs = MAX_BLOCK_PAIRS_def MAX_SSTABLES_def SPLIT_TAIL_MARGIN_def

record descriptor =
  d_src0_addr :: u64
  d_src0_size :: u32
  d_src1_addr :: u64
  d_src1_size :: u32

text \<open>The user key of the last record of a pair, with which the next pair drops its duplicates.\<close>

record prev_key =
  pk_valid :: bool
  pk_len :: u16
  pk_bytes :: "512 word"

text \<open>What the chain reports of one pair, and the totals of a run.\<close>

record pair_counts =
  c_source0_decoded :: u32
  c_source1_decoded :: u32
  c_source0_bytes :: u32
  c_source1_bytes :: u32
  c_merge_output :: u32
  c_merge_decoded :: u32
  c_merge_merged :: u32
  c_merge_dropped :: u32
  c_stage5_input :: u32
  c_stage5_encoded :: u32
  c_stage5_bytes :: u32
  c_stage5_written :: u32

definition no_counts :: pair_counts where
  "no_counts = \<lparr>c_source0_decoded = 0, c_source1_decoded = 0, c_source0_bytes = 0, c_source1_bytes = 0,
     c_merge_output = 0, c_merge_decoded = 0, c_merge_merged = 0, c_merge_dropped = 0,
     c_stage5_input = 0, c_stage5_encoded = 0, c_stage5_bytes = 0, c_stage5_written = 0\<rparr>"

text \<open>The bytes written are not what the chain reports: the size of the block and its trailer stand for them.\<close>

definition add_counts :: "pair_counts \<Rightarrow> pair_counts \<Rightarrow> pair_counts" where
  "add_counts t c =
     \<lparr>c_source0_decoded = c_source0_decoded t + c_source0_decoded c,
      c_source1_decoded = c_source1_decoded t + c_source1_decoded c,
      c_source0_bytes = c_source0_bytes t + c_source0_bytes c,
      c_source1_bytes = c_source1_bytes t + c_source1_bytes c,
      c_merge_output = c_merge_output t + c_merge_output c,
      c_merge_decoded = c_merge_decoded t + c_merge_decoded c,
      c_merge_merged = c_merge_merged t + c_merge_merged c,
      c_merge_dropped = c_merge_dropped t + c_merge_dropped c,
      c_stage5_input = c_stage5_input t + c_stage5_input c,
      c_stage5_encoded = c_stage5_encoded t + c_stage5_encoded c,
      c_stage5_bytes = c_stage5_bytes t + c_stage5_bytes c,
      c_stage5_written = c_stage5_written t + c_stage5_bytes c + 5\<rparr>"

record nb_in =
  i_rstn :: bool
  i_clear :: bool
  i_start :: bool
  i_max_file_size :: u32
  i_desc_valid :: bool
  i_desc :: descriptor
  i_desc_last :: bool
  i_enc_done :: bool
  i_done :: bool
  i_error :: bool
  i_counts :: pair_counts
  i_last_key_len :: u16
  i_last_key :: "512 word"
  i_prev_key :: prev_key
  i_asm_done :: bool
  i_asm_error :: bool
  i_asm_bytes :: u32

section \<open>Registers\<close>

text \<open>The eleven states; the values 11 to 15 of the four-bit register are never assigned.\<close>

datatype nb_state =
    St_Idle | St_Clear | St_Start | St_Wait | St_Assemble | St_Split_Asm | St_Split_Reset | St_Pop
  | St_Wait_Last | St_Wait_Split | St_Pipe_Restart

text \<open>The metadata port of the assembler: address, offset, size and last key of a block.\<close>

record block_meta =
  m_addr :: byte
  m_offset :: u64
  m_size :: u32
  m_keylen :: u16
  m_keybytes :: "512 word"

record nblock =
  nb_state :: nb_state
  nb_inner_clear :: bool
  nb_inner_start :: bool
  nb_front_clear :: bool
  nb_front_start :: bool
  nb_asm_start :: bool
  nb_meta_wr_en :: bool
  nb_meta :: block_meta
  nb_done_d :: bool
  nb_enc_done_d :: bool
  nb_wr_pending :: bool
  nb_pipeline_restart :: bool
  nb_wr_done_pending :: bool
  nb_front_start_pending :: bool
  nb_next_desc :: descriptor
  nb_next_is_last :: bool
  nb_prefetched :: bool
  nb_current :: descriptor
  nb_is_last :: bool
  nb_seed :: prev_key
  nb_block_bytes :: "u32 list"
  nb_running :: u64
  nb_assemble_mode :: bool
  nb_max_file_size :: u32
  nb_split_threshold :: u32
  nb_split_enabled :: bool
  nb_sst_base :: u64
  nb_blocks_in_sst :: u32
  nb_first_block :: u32
  nb_sizes :: "u32 list"
  nb_block_pair_count :: u32
  nb_busy :: bool
  nb_done :: bool
  nb_error :: bool
  nb_active_block :: u32
  nb_blocks_completed :: u32
  nb_total_bytes :: u32
  nb_count :: u32
  nb_totals :: pair_counts

definition no_prev_key :: prev_key where
  "no_prev_key = \<lparr>pk_valid = False, pk_len = 0, pk_bytes = 0\<rparr>"

text \<open>What reset, clear and start have in common.\<close>

definition nb_zeroed :: "nblock \<Rightarrow> nblock" where
  "nb_zeroed s = s\<lparr>nb_wr_pending := False, nb_pipeline_restart := False, nb_wr_done_pending := False,
     nb_block_pair_count := 0, nb_seed := no_prev_key, nb_active_block := 0, nb_blocks_completed := 0,
     nb_running := 0, nb_assemble_mode := False, nb_total_bytes := 0, nb_count := 0, nb_sst_base := 0,
     nb_blocks_in_sst := 0, nb_first_block := 0, nb_totals := no_counts,
     nb_block_bytes := replicate MAX_BLOCK_PAIRS 0, nb_sizes := replicate MAX_SSTABLES 0\<rparr>"

text \<open>
  Reset and \<^verbatim>\<open>clear\<close> assign the same registers; \<^verbatim>\<open>front_start_pending\<close>, \<^verbatim>\<open>desc_prefetched\<close> and the
  descriptors are not among them.
\<close>

definition nb_cleared :: "nblock \<Rightarrow> nblock" where
  "nb_cleared s = (nb_zeroed s)\<lparr>nb_state := St_Idle, nb_inner_clear := False, nb_inner_start := False,
     nb_front_clear := False, nb_front_start := False, nb_asm_start := False, nb_meta_wr_en := False,
     nb_done_d := False, nb_enc_done_d := False, nb_busy := False, nb_done := False, nb_error := False,
     nb_max_file_size := 0, nb_split_threshold := 0, nb_split_enabled := False\<rparr>"

section \<open>One clock edge\<close>

definition done_edge :: "nb_in \<Rightarrow> nblock \<Rightarrow> bool" where
  "done_edge i s \<longleftrightarrow> i_done i \<and> \<not> nb_done_d s"

definition enc_edge :: "nb_in \<Rightarrow> nblock \<Rightarrow> bool" where
  "enc_edge i s \<longleftrightarrow> i_enc_done i \<and> \<not> nb_enc_done_d s"

definition desc_ready :: "nblock \<Rightarrow> bool" where
  "desc_ready s \<longleftrightarrow> nb_state s = St_Pop \<and> \<not> nb_prefetched s \<or>
     nb_state s = St_Wait \<and> \<not> nb_prefetched s \<and> \<not> nb_is_last s \<and> 0 < nb_active_block s"

text \<open>The assignments before the \<^verbatim>\<open>case\<close>: pulses fall, inputs are sampled, a descriptor is prefetched.\<close>

definition nb_defaults :: "nb_in \<Rightarrow> nblock \<Rightarrow> nblock" where
  "nb_defaults i s =
     (let t = s\<lparr>nb_inner_clear := False, nb_inner_start := False, nb_front_clear := False,
            nb_front_start := nb_front_start_pending s, nb_front_start_pending := False,
            nb_asm_start := False, nb_meta_wr_en := False, nb_done_d := i_done i, nb_enc_done_d := i_enc_done i,
            nb_done := False, nb_error := False,
            nb_wr_pending := (nb_wr_pending s \<and> \<not> done_edge i s)\<rparr>
      in if nb_state s = St_Wait \<and> i_desc_valid i \<and> desc_ready s \<and> \<not> nb_prefetched s
         then t\<lparr>nb_next_desc := i_desc i, nb_next_is_last := i_desc_last i, nb_prefetched := True\<rparr>
         else t)"

definition nb_fail :: "nblock \<Rightarrow> nblock" where
  "nb_fail t = t\<lparr>nb_busy := False, nb_error := True, nb_state := St_Idle\<rparr>"

definition nb_begin :: "nb_in \<Rightarrow> nblock \<Rightarrow> nblock" where
  "nb_begin i t = (nb_zeroed t)\<lparr>nb_state := St_Pop, nb_busy := True, nb_is_last := False,
     nb_max_file_size := i_max_file_size i, nb_split_enabled := (i_max_file_size i > SPLIT_TAIL_MARGIN),
     nb_split_threshold := i_max_file_size i - SPLIT_TAIL_MARGIN,
     nb_front_start_pending := False, nb_prefetched := False\<rparr>"

definition take_prefetched :: "nblock \<Rightarrow> nblock \<Rightarrow> nblock" where
  "take_prefetched s t = t\<lparr>nb_current := nb_next_desc s, nb_is_last := nb_next_is_last s, nb_prefetched := False\<rparr>"

definition pop_target :: "nblock \<Rightarrow> nb_state" where
  "pop_target s = (if nb_pipeline_restart s then St_Pipe_Restart else St_Clear)"

definition nb_pop :: "nb_in \<Rightarrow> nblock \<Rightarrow> nblock \<Rightarrow> nblock" where
  "nb_pop i s t =
     (if nb_prefetched s then (take_prefetched s t)\<lparr>nb_state := pop_target s\<rparr>
      else if i_desc_valid i
      then t\<lparr>nb_current := i_desc i, nb_is_last := i_desc_last i, nb_state := pop_target s\<rparr>
      else t)"

text \<open>The end of the encoding of a pair: bookkeeping, then the choice of what comes next.\<close>

definition align64_up :: "u64 \<Rightarrow> u64" where
  "align64_up v = (v + 63) AND NOT 63"

definition nb_book :: "nb_in \<Rightarrow> nblock \<Rightarrow> nblock \<Rightarrow> nblock" where
  "nb_book i s t =
     (let n = c_stage5_bytes (i_counts i) + 5
      in t\<lparr>nb_block_bytes := (nb_block_bytes s)[unat (nb_blocks_in_sst s) := n],
           nb_meta_wr_en := True,
           nb_meta := \<lparr>m_addr = ucast (nb_blocks_in_sst s), m_offset = nb_running s, m_size = n,
              m_keylen = i_last_key_len i, m_keybytes = i_last_key i\<rparr>,
           nb_running := align64_up (nb_running s + ucast n),
           nb_blocks_in_sst := nb_blocks_in_sst s + 1, nb_blocks_completed := nb_blocks_completed s + 1,
           nb_totals := add_counts (nb_totals s) (i_counts i), nb_seed := i_prev_key i\<rparr>)"

text \<open>The comparison sees the offset without the block that has just been encoded.\<close>

definition split_due :: "nblock \<Rightarrow> bool" where
  "split_due s \<longleftrightarrow> nb_split_enabled s \<and> nb_split_threshold s \<le> (ucast (nb_running s) :: u32) \<or>
     of_nat MAX_BLOCK_PAIRS \<le> nb_blocks_in_sst s + 1"

definition nb_encoded :: "nb_in \<Rightarrow> nblock \<Rightarrow> nblock \<Rightarrow> nblock" where
  "nb_encoded i s t =
     (let b = nb_book i s t
      in if nb_is_last s then b\<lparr>nb_wr_done_pending := done_edge i s, nb_state := St_Wait_Last\<rparr>
         else if split_due s then b\<lparr>nb_wr_done_pending := done_edge i s, nb_state := St_Wait_Split\<rparr>
         else
           (let p = b\<lparr>nb_wr_pending := True, nb_pipeline_restart := True, nb_active_block := nb_active_block s + 1\<rparr>
            in if nb_prefetched s then (take_prefetched s p)\<lparr>nb_state := St_Pipe_Restart\<rparr>
               else p\<lparr>nb_state := St_Pop\<rparr>))"

definition nb_wait :: "nb_in \<Rightarrow> nblock \<Rightarrow> nblock \<Rightarrow> nblock" where
  "nb_wait i s t = (if i_error i then nb_fail t else if enc_edge i s then nb_encoded i s t else t)"

text \<open>Waiting for the write engine before the assembler starts; \<open>asm\<close> is the state to go to.\<close>

definition nb_wait_write :: "nb_state \<Rightarrow> nb_in \<Rightarrow> nblock \<Rightarrow> nblock \<Rightarrow> nblock" where
  "nb_wait_write asm i s t =
     (if i_error i then nb_fail t
      else if done_edge i s \<or> nb_wr_done_pending s
      then (if nb_wr_pending s then t\<lparr>nb_wr_done_pending := False, nb_wr_pending := False\<rparr>
            else t\<lparr>nb_wr_done_pending := False, nb_assemble_mode := True, nb_asm_start := True, nb_state := asm\<rparr>)
      else t)"

definition sst_size :: "nb_in \<Rightarrow> nblock \<Rightarrow> u32" where
  "sst_size i s = ucast (nb_running s) + i_asm_bytes i"

definition nb_assemble :: "nb_in \<Rightarrow> nblock \<Rightarrow> nblock \<Rightarrow> nblock" where
  "nb_assemble i s t =
     (if i_asm_error i then (nb_fail t)\<lparr>nb_assemble_mode := False\<rparr>
      else if i_asm_done i
      then t\<lparr>nb_sizes := (nb_sizes s)[unat (nb_count s) := sst_size i s], nb_total_bytes := sst_size i s,
             nb_count := nb_count s + 1, nb_busy := False, nb_done := True, nb_assemble_mode := False,
             nb_state := St_Idle\<rparr>
      else t)"

definition nb_split_asm :: "nb_in \<Rightarrow> nblock \<Rightarrow> nblock \<Rightarrow> nblock" where
  "nb_split_asm i s t =
     (if i_asm_error i then (nb_fail t)\<lparr>nb_assemble_mode := False\<rparr>
      else if i_asm_done i
      then t\<lparr>nb_sizes := (nb_sizes s)[unat (nb_count s) := sst_size i s], nb_count := nb_count s + 1,
             nb_sst_base := align64_up (nb_sst_base s + ucast (sst_size i s)), nb_assemble_mode := False,
             nb_state := St_Split_Reset\<rparr>
      else t)"

definition nb_split_reset :: "nblock \<Rightarrow> nblock \<Rightarrow> nblock" where
  "nb_split_reset s t = t\<lparr>nb_running := 0, nb_blocks_in_sst := 0, nb_first_block := nb_active_block s + 1,
     nb_block_bytes := replicate MAX_BLOCK_PAIRS 0, nb_active_block := nb_active_block s + 1, nb_state := St_Pop\<rparr>"

definition nb_case :: "nb_in \<Rightarrow> nblock \<Rightarrow> nblock \<Rightarrow> nblock" where
  "nb_case i s t =
     (case nb_state s of
        St_Idle \<Rightarrow> if i_start i \<and> \<not> nb_busy s then nb_begin i t else t
      | St_Pop \<Rightarrow> nb_pop i s t
      | St_Clear \<Rightarrow> t\<lparr>nb_inner_clear := True, nb_state := St_Start\<rparr>
      | St_Start \<Rightarrow> t\<lparr>nb_inner_start := True, nb_state := St_Wait\<rparr>
      | St_Wait \<Rightarrow> nb_wait i s t
      | St_Wait_Last \<Rightarrow> nb_wait_write St_Assemble i s t
      | St_Wait_Split \<Rightarrow> nb_wait_write St_Split_Asm i s t
      | St_Pipe_Restart \<Rightarrow> t\<lparr>nb_front_clear := True, nb_front_start_pending := True,
          nb_pipeline_restart := False, nb_state := St_Wait\<rparr>
      | St_Assemble \<Rightarrow> nb_assemble i s t
      | St_Split_Asm \<Rightarrow> nb_split_asm i s t
      | St_Split_Reset \<Rightarrow> nb_split_reset s t)"

definition nblock_step :: "nb_in \<Rightarrow> nblock \<Rightarrow> nblock" where
  "nblock_step i s = (if \<not> i_rstn i \<or> i_clear i then nb_cleared s else nb_case i s (nb_defaults i s))"

end
