(* ===== verification/Nblock_Tables.thy ===== *)
theory Nblock_Tables
  imports Nblock_Engine Card_Engine
begin

text \<open>
  Runs of the block-pair scheduler and the tables they make: an invariant over all runs that ties the
  scheduler's offsets to the driver's read-back.
\<close>

section \<open>Alignment\<close>

lemma and_not_63: "(v :: u64) AND NOT 63 = v - take_bit 6 v"
proof -
  have m: "(63 :: u64) = mask 6" by (simp add: mask_eq_exp_minus_1)
  have "(v AND NOT (mask 6)) AND take_bit 6 v = 0" by (rule bit_word_eqI) (auto simp: bit_simps)
  then have "(v AND NOT (mask 6)) + take_bit 6 v = (v AND NOT (mask 6)) OR take_bit 6 v" by (rule disjunctive_add_eq_or)
  also have "\<dots> = v" by (rule bit_word_eqI) (auto simp: bit_simps)
  finally show ?thesis by (simp add: m eq_diff_eq)
qed

definition aligned64 :: "u64 \<Rightarrow> bool" where
  "aligned64 v \<longleftrightarrow> take_bit 6 v = 0"

lemma unat_take_bit_6: "unat (take_bit 6 (v :: u64)) = unat v mod 64"
  by (simp add: take_bit_eq_mod unat_mod_distrib)

lemma take_bit_aligned:
  assumes "aligned64 b"
  shows "take_bit 6 (b + y) = take_bit 6 y"
proof -
  have "unat b mod 64 = 0" using assms unat_take_bit_6 [of b] by (simp add: aligned64_def)
  then have "(unat b + unat y) mod 64 = unat y mod 64" by (simp add: mod_add_left_eq [of "unat b", symmetric])
  moreover have "unat (b + y) mod 64 = (unat b + unat y) mod 64"
    by (simp add: unat_word_ariths mod_mod_cancel)
  ultimately show ?thesis unfolding word_unat_eq_iff unat_take_bit_6 by simp
qed

lemma aligned64_add: "aligned64 a \<Longrightarrow> aligned64 b \<Longrightarrow> aligned64 (a + b)"
  using take_bit_aligned [of a b] by (simp add: aligned64_def)

lemma align64_up_add: "aligned64 b \<Longrightarrow> align64_up (b + y) = b + align64_up y"
  unfolding align64_up_def and_not_63 using take_bit_aligned [of b "y + 63"] by (simp add: ac_simps)

lemma aligned64_up: "aligned64 (align64_up v)"
proof -
  have m: "(63 :: u64) = mask 6" by (simp add: mask_eq_exp_minus_1)
  show ?thesis unfolding aligned64_def align64_up_def m by (rule bit_word_eqI) (auto simp: bit_simps)
qed

lemma align64_eq: "align64 sz = align64_up (ucast sz)"
  by (simp add: align64_def align64_up_def)

text \<open>The places of consecutive tables, with the driver's own step from one to the next.\<close>

definition lay :: "u32 list \<Rightarrow> u64" where
  "lay szs = foldl (\<lambda>off sz. off + align64 sz) 0 szs"

lemma lay_Nil [simp]: "lay [] = 0"
  by (simp add: lay_def)

lemma lay_snoc [simp]: "lay (szs @ [sz]) = lay szs + align64 sz"
  by (simp add: lay_def)

lemma lay_Cons: "lay (sz # szs) = align64 sz + lay szs"
proof -
  have "foldl (\<lambda>off sz. off + align64 sz) a szs = a + foldl (\<lambda>off sz. off + align64 sz) 0 szs" for a
    by (induction szs rule: rev_induct) simp_all
  from this [of "align64 sz"] show ?thesis by (simp add: lay_def)
qed

lemma aligned64_lay: "aligned64 (lay szs)"
  by (induction szs rule: rev_induct) (simp_all only: lay_Nil lay_snoc aligned64_add align64_eq aligned64_up, simp add: aligned64_def)

lemma read_layout_lay:
  assumes "\<forall>i<length h. fst (h ! i) = lay (map snd (take i h))"
  shows "read_layout d a (map snd h) = map (\<lambda>(off, sz). mem_read d (a + off) (unat sz)) h"
proof -
  have "read_layout d a szs = map (\<lambda>i. mem_read d (a + lay (take i szs)) (unat (szs ! i))) [0..<length szs]" for szs
  proof (induction szs arbitrary: a)
    case Nil
    then show ?case by simp
  next
    case (Cons sz szs)
    have "[0..<length (sz # szs)] = 0 # map Suc [0..<length szs]" by (simp add: upt_conv_Cons map_Suc_upt del: upt_Suc)
    then show ?case by (simp add: Cons.IH lay_Cons add.assoc del: upt_Suc)
  qed
  then have "read_layout d a (map snd h) = map (\<lambda>i. mem_read d (a + fst (h ! i)) (unat (snd (h ! i)))) [0..<length h]"
    using assms by (auto simp: take_map)
  also have "\<dots> = map (\<lambda>(off, sz). mem_read d (a + off) (unat sz)) (map ((!) h) [0..<length h])"
    unfolding map_map comp_def by (intro map_cong refl) (simp add: case_prod_beta)
  finally show ?thesis by (simp only: map_nth)
qed

section \<open>Runs\<close>

text \<open>What an edge adds to the tables of a run: place and size of the one the assembler has finished.\<close>

definition next_tables :: "nb_in \<Rightarrow> nblock \<Rightarrow> (u64 \<times> u32) list \<Rightarrow> (u64 \<times> u32) list" where
  "next_tables i s h =
     (if \<not> i_rstn i \<or> i_clear i then []
      else case nb_state s of
        St_Idle \<Rightarrow> if i_start i \<and> \<not> nb_busy s then [] else h
      | St_Assemble \<Rightarrow> if \<not> i_asm_error i \<and> i_asm_done i then h @ [(nb_sst_base s, sst_size i s)] else h
      | St_Split_Asm \<Rightarrow> if \<not> i_asm_error i \<and> i_asm_done i then h @ [(nb_sst_base s, sst_size i s)] else h
      | _ \<Rightarrow> h)"

text \<open>The blocks whose encoding has been seen and whose write has not.\<close>

definition encodes :: "nb_in \<Rightarrow> nblock \<Rightarrow> bool" where
  "encodes i s \<longleftrightarrow> nb_state s = St_Wait \<and> \<not> i_error i \<and> enc_edge i s"

definition next_writes :: "nb_in \<Rightarrow> nblock \<Rightarrow> nat \<Rightarrow> nat" where
  "next_writes i s p =
     (if \<not> i_rstn i \<or> i_clear i \<or> nb_state s = St_Idle \<and> i_start i \<and> \<not> nb_busy s then 0
      else p + of_bool (encodes i s) - of_bool (done_edge i s))"

text \<open>Runs from reset whose inputs satisfy \<open>P\<close>, with the tables and the open writes so far.\<close>

inductive nb_run :: "(nb_in \<Rightarrow> nblock \<Rightarrow> nat \<Rightarrow> bool) \<Rightarrow> nblock \<Rightarrow> (u64 \<times> u32) list \<Rightarrow> nat \<Rightarrow> bool" for P where
  reset: "nb_run P (nb_cleared s) [] 0"
| edge: "nb_run P s h p \<Longrightarrow> P i s p \<Longrightarrow> nb_run P (nblock_step i s) (next_tables i s h) (next_writes i s p)"

lemma nb_defaults_sel [simp]:
  "nb_state (nb_defaults i s) = nb_state s" "nb_busy (nb_defaults i s) = nb_busy s"
  "nb_count (nb_defaults i s) = nb_count s" "nb_sizes (nb_defaults i s) = nb_sizes s"
  "nb_sst_base (nb_defaults i s) = nb_sst_base s" "nb_running (nb_defaults i s) = nb_running s"
  "nb_blocks_in_sst (nb_defaults i s) = nb_blocks_in_sst s" "nb_block_bytes (nb_defaults i s) = nb_block_bytes s"
  "nb_split_enabled (nb_defaults i s) = nb_split_enabled s" "nb_split_threshold (nb_defaults i s) = nb_split_threshold s"
  "nb_max_file_size (nb_defaults i s) = nb_max_file_size s" "nb_wr_done_pending (nb_defaults i s) = nb_wr_done_pending s"
  "nb_wr_pending (nb_defaults i s) = (nb_wr_pending s \<and> \<not> done_edge i s)"
  by (simp_all add: nb_defaults_def Let_def)

lemmas nb_step_defs = nblock_step_def nb_case_def nb_pop_def nb_wait_def nb_encoded_def nb_book_def
  nb_wait_write_def nb_assemble_def nb_split_asm_def nb_split_reset_def nb_fail_def nb_begin_def take_prefetched_def
  pop_target_def nb_cleared_def nb_zeroed_def Let_def

section \<open>The invariant of the tables\<close>

definition encoding :: "nblock \<Rightarrow> bool" where
  "encoding s \<longleftrightarrow> nb_state s \<in> {St_Pop, St_Clear, St_Start, St_Wait, St_Pipe_Restart}"

definition tables_inv :: "nblock \<Rightarrow> (u64 \<times> u32) list \<Rightarrow> bool" where
  "tables_inv s h \<longleftrightarrow>
     (nb_busy s \<longleftrightarrow> nb_state s \<noteq> St_Idle) \<and> length (nb_sizes s) = 16 \<and> nb_count s = of_nat (length h) \<and>
     (length h \<le> 16 \<longrightarrow> take (length h) (nb_sizes s) = map snd h) \<and>
     (\<forall>i<length h. fst (h ! i) = lay (map snd (take i h))) \<and>
     (nb_busy s \<longrightarrow> nb_sst_base s = lay (map snd h))"

lemma tables_snoc:
  assumes inv: "tables_inv s h" and busy: "nb_busy s"
    and t: "nb_sizes t = (nb_sizes s)[unat (nb_count s) := sz]" "nb_count t = nb_count s + 1"
      "nb_busy t \<longleftrightarrow> nb_state t \<noteq> St_Idle" "nb_busy t \<longrightarrow> nb_sst_base t = align64_up (nb_sst_base s + ucast sz)"
  shows "tables_inv t (h @ [(nb_sst_base s, sz)])"
proof -
  have base: "nb_sst_base s = lay (map snd h)" and cnt: "nb_count s = of_nat (length h)" and len: "length (nb_sizes s) = 16"
    and old: "length h \<le> 16 \<longrightarrow> take (length h) (nb_sizes s) = map snd h"
    and places: "\<forall>i<length h. fst (h ! i) = lay (map snd (take i h))"
    using inv busy by (simp_all add: tables_inv_def)
  have "take (Suc (length h)) (nb_sizes t) = map snd h @ [sz]" if "Suc (length h) \<le> 16"
  proof -
    have "unat (nb_count s) = length h" using that by (simp add: cnt unat_of_nat)
    then show ?thesis using that old len by (simp add: t(1) take_Suc_conv_app_nth)
  qed
  moreover have "align64_up (nb_sst_base s + ucast sz) = lay (map snd h @ [sz])"
    unfolding base using aligned64_lay by (simp add: align64_up_add align64_eq)
  ultimately show ?thesis
    using t len cnt places base by (auto simp: tables_inv_def nth_append less_Suc_eq)
qed

lemma tables_inv_edge:
  assumes inv: "tables_inv s h"
  shows "tables_inv (nblock_step i s) (next_tables i s h)"
proof (cases "\<not> i_rstn i \<or> i_clear i")
  case True
  then show ?thesis by (simp add: nblock_step_def next_tables_def tables_inv_def nb_cleared_def nb_zeroed_def MAX_SSTABLES_def)
next
  case run: False
  have busy: "nb_busy s \<longleftrightarrow> nb_state s \<noteq> St_Idle" using inv by (simp add: tables_inv_def)
  show ?thesis
  proof (cases "nb_state s")
    case St_Idle
    then show ?thesis using run inv
      by (simp add: nblock_step_def nb_case_def next_tables_def nb_begin_def nb_zeroed_def tables_inv_def MAX_SSTABLES_def)
  next
    case St_Assemble
    show ?thesis
    proof (cases "\<not> i_asm_error i \<and> i_asm_done i")
      case True
      then show ?thesis using run St_Assemble busy
        by (auto simp: nblock_step_def nb_case_def next_tables_def nb_assemble_def intro!: tables_snoc [OF inv])
    next
      case False
      then show ?thesis using run St_Assemble inv
        by (auto simp: nblock_step_def nb_case_def next_tables_def nb_assemble_def nb_fail_def tables_inv_def)
    qed
  next
    case St_Split_Asm
    show ?thesis
    proof (cases "\<not> i_asm_error i \<and> i_asm_done i")
      case True
      then show ?thesis using run St_Split_Asm busy
        by (auto simp: nblock_step_def nb_case_def next_tables_def nb_split_asm_def intro!: tables_snoc [OF inv])
    next
      case False
      then show ?thesis using run St_Split_Asm inv
        by (auto simp: nblock_step_def nb_case_def next_tables_def nb_split_asm_def nb_fail_def tables_inv_def)
    qed
  next
    case St_Wait
    then show ?thesis using run inv
      by (simp add: nblock_step_def nb_case_def next_tables_def nb_wait_def nb_encoded_def nb_book_def nb_fail_def
          take_prefetched_def tables_inv_def Let_def)
  qed (use run inv in \<open>simp_all add: nblock_step_def nb_case_def next_tables_def nb_pop_def pop_target_def
      take_prefetched_def nb_wait_write_def nb_split_reset_def nb_fail_def tables_inv_def\<close>)
qed

lemma tables_inv_run: "nb_run P s h p \<Longrightarrow> tables_inv s h"
proof (induction rule: nb_run.induct)
  case (reset s)
  show ?case by (simp add: tables_inv_def nb_cleared_def nb_zeroed_def MAX_SSTABLES_def)
next
  case (edge s h p i)
  then show ?case by (intro tables_inv_edge)
qed

text \<open>
  C31. The scheduler and the driver agree on the place of every table: whatever the chain, the
  assembler and the matcher do, after a run with at most 16 tables the count and size registers describe
  exactly the tables that were assembled, and the driver's read-back, which only knows the sizes, reads
  each of them from where the scheduler put it.
\<close>

theorem scheduler_places_for_driver:
  assumes "nb_run P s h p" and "length h \<le> 16"
  shows "nb_count s = of_nat (length h) \<and> take (length h) (nb_sizes s) = map snd h \<and>
    read_layout d a (map snd h) = map (\<lambda>(off, sz). mem_read d (a + off) (unat sz)) h"
proof -
  have "tables_inv s h" using assms(1) by (rule tables_inv_run)
  then show ?thesis using assms(2) read_layout_lay [of h d a] by (simp add: tables_inv_def)
qed

end
