(* ===== verification/Merger_Rtl.thy ===== *)
theory Merger_Rtl
  imports Nblock_Engine
begin

text \<open>
  The record merger \<^verbatim>\<open>organized/rtl_v2/cmpct_merger.v\<close> with the parameters \<^verbatim>\<open>cmpct_pair_chain.v\<close> gives it
  (user keys of 64 bytes, keys of 72, values of 1024, records of 2048): all its registers, its output
  wires and, as \<open>mg_step\<close>, what one rising clock edge does. The code writes every state once for source 0
  and once for source 1; here the source is an argument, \<open>False\<close> for source 0. Every right-hand side reads
  the registers before the edge, and a later assignment wins. The profiling counters, which are only
  compiled for simulation, are left out.
\<close>

section \<open>Parameters, inputs and registers\<close>

definition MAX_USER_KEY_BYTES :: nat where "MAX_USER_KEY_BYTES = 64"
definition MAX_KEY_BYTES :: u16 where "MAX_KEY_BYTES = 72"
definition MAX_VALUE_BYTES :: u16 where "MAX_VALUE_BYTES = 1024"
definition MAX_RECORD_BYTES :: u32 where "MAX_RECORD_BYTES = 2048"
definition COPY_CHUNK :: nat where "COPY_CHUNK = 4"

lemmas mg_param_defs = MAX_USER_KEY_BYTES_def MAX_KEY_BYTES_def MAX_VALUE_BYTES_def MAX_RECORD_BYTES_def COPY_CHUNK_def

record mg_beat =
  bt_data :: u64
  bt_keep :: byte
  bt_last :: bool

record mg_port =
  pt_done :: bool
  pt_rec_valid :: bool
  pt_key_len :: u16
  pt_value_len :: u16
  pt_valid :: bool
  pt_beat :: mg_beat

record mg_in =
  g_rstn :: bool
  g_clear :: bool
  g_start :: bool
  g_seed :: prev_key
  g_port0 :: mg_port
  g_port1 :: mg_port
  g_rec_ready :: bool
  g_axis_ready :: bool

definition port :: "bool \<Rightarrow> mg_in \<Rightarrow> mg_port" where
  "port b i = (if b then g_port1 i else g_port0 i)"

text \<open>\<open>Mg_Fetch\<close>, \<open>Mg_Check_Keep\<close> and \<open>Mg_Finalize\<close> are states the optimisations have left unused.\<close>

datatype mg_state =
    Mg_Idle | Mg_Fetch | Mg_Wait bool | Mg_Capture bool | Mg_Cmp_Setup | Mg_Check_Keep | Mg_Finalize
  | Mg_Emit_Header | Mg_Emit_Payload | Mg_Copy_Prev_Key | Mg_Stream_Value | Mg_Drain_Value

record mg_side =
  sd_buf :: bool
  sd_done :: bool
  sd_pre :: bool
  sd_key_len :: u16
  sd_value_len :: u16
  sd_ukey_len :: u16
  sd_total :: u32
  sd_tag :: u64
  sd_mem :: "byte list"

record mg_counts =
  mc_decoded :: u32
  mc_merged :: u32
  mc_dropped :: u32
  mc_values :: u32
  mc_deletes :: u32
  mc_ukey_total :: u32
  mc_value_total :: u32
  mc_last_ukey_len :: u16
  mc_last_sequence :: "56 word"
  mc_last_type :: byte
  mc_last_keep :: bool

record merger =
  mg_state :: mg_state
  mg_busy :: bool
  mg_done :: bool
  mg_error :: bool
  mg_side0 :: mg_side
  mg_side1 :: mg_side
  mg_have_prev :: bool
  mg_prev_len :: u16
  mg_prev_mem :: "byte list"
  mg_sel :: bool
  mg_keep :: bool
  mg_cmp_index :: u16
  mg_emit_index :: u32
  mg_cap_index :: u32
  mg_sel_ukey_len :: u16
  mg_sel_key_len :: u16
  mg_sel_value_len :: u16
  mg_found_r :: bool
  mg_lt_r :: bool
  mg_all_done_r :: bool
  mg_diff0_r :: bool
  mg_diff1_r :: bool
  mg_prev_state :: mg_state
  mg_counts :: mg_counts
  mg_out_bytes :: u32

definition side :: "bool \<Rightarrow> merger \<Rightarrow> mg_side" where
  "side b s = (if b then mg_side1 s else mg_side0 s)"

definition put_side :: "bool \<Rightarrow> mg_side \<Rightarrow> merger \<Rightarrow> merger" where
  "put_side b d s = (if b then s\<lparr>mg_side1 := d\<rparr> else s\<lparr>mg_side0 := d\<rparr>)"

section \<open>Bytes\<close>

definition byte_of :: "'a::len word \<Rightarrow> nat \<Rightarrow> byte" where
  "byte_of w k = ucast (drop_bit (8 * k) w)"

primrec pack_bytes :: "byte list \<Rightarrow> 'a::len word" where
  "pack_bytes [] = 0"
| "pack_bytes (b # bs) = ucast b OR push_bit 8 (pack_bytes bs)"

text \<open>The number of bytes a beat carries: the bits of \<^verbatim>\<open>tkeep\<close> that are set.\<close>

definition keep_count :: "byte \<Rightarrow> nat" where
  "keep_count k = length (filter (bit k) [0..<8])"

definition beat_len :: "mg_beat \<Rightarrow> u32" where
  "beat_len x = of_nat (keep_count (bt_keep x))"

text \<open>A read behind the end of a key memory is undefined in Verilog; every such bit is masked by its length.\<close>

definition mem_get :: "byte list \<Rightarrow> nat \<Rightarrow> byte" where
  "mem_get m n = (if n < length m then m ! n else 0)"

definition set_tag_byte :: "nat \<Rightarrow> byte \<Rightarrow> u64 \<Rightarrow> u64" where
  "set_tag_byte j b w = (w AND NOT (push_bit (8 * j) (mask 8))) OR push_bit (8 * j) (ucast b)"

section \<open>Handshakes\<close>

definition can_prefetch :: "bool \<Rightarrow> merger \<Rightarrow> bool" where
  "can_prefetch b s \<longleftrightarrow> \<not> sd_buf (side b s) \<and> \<not> sd_done (side b s) \<and> \<not> sd_pre (side b s) \<and>
     (mg_state s = Mg_Capture (\<not> b) \<or> mg_state s = Mg_Cmp_Setup \<or>
      mg_state s = Mg_Emit_Header \<or> mg_state s = Mg_Emit_Payload \<or>
      mg_state s = Mg_Stream_Value \<and> mg_sel s = (\<not> b) \<or> mg_state s = Mg_Drain_Value \<and> mg_sel s = (\<not> b) \<or>
      mg_state s = Mg_Copy_Prev_Key)"

definition rec_ready :: "bool \<Rightarrow> merger \<Rightarrow> bool" where
  "rec_ready b s \<longleftrightarrow> mg_busy s \<and> \<not> mg_error s \<and>
     (mg_state s = Mg_Wait b \<and> \<not> sd_pre (side b s) \<or> can_prefetch b s)"

definition axis_ready :: "bool \<Rightarrow> mg_in \<Rightarrow> merger \<Rightarrow> bool" where
  "axis_ready b i s \<longleftrightarrow> mg_busy s \<and> \<not> mg_error s \<and>
     (mg_state s = Mg_Capture b \<or> mg_state s = Mg_Stream_Value \<and> mg_sel s = b \<and> g_axis_ready i \<or>
      mg_state s = Mg_Drain_Value \<and> mg_sel s = b)"

definition accept_header :: "bool \<Rightarrow> mg_in \<Rightarrow> merger \<Rightarrow> bool" where
  "accept_header b i s \<longleftrightarrow> pt_rec_valid (port b i) \<and> rec_ready b s"

definition accept_payload :: "bool \<Rightarrow> mg_in \<Rightarrow> merger \<Rightarrow> bool" where
  "accept_payload b i s \<longleftrightarrow> pt_valid (port b i) \<and> axis_ready b i s \<and> bit (bt_keep (pt_beat (port b i))) 0"

section \<open>The outputs\<close>

definition sel_beat :: "mg_in \<Rightarrow> merger \<Rightarrow> mg_beat" where
  "sel_beat i s = pt_beat (port (mg_sel s) i)"

definition emit_remaining_key :: "merger \<Rightarrow> u32" where
  "emit_remaining_key s = ucast (mg_sel_key_len s) - mg_emit_index s"

definition emit_word_bytes :: "merger \<Rightarrow> u32" where
  "emit_word_bytes s =
     (if 8 \<le> emit_remaining_key s then 8 else ucast (ucast (emit_remaining_key s) :: 4 word))"

definition emit_byte :: "merger \<Rightarrow> nat \<Rightarrow> byte" where
  "emit_byte s k =
     (if mg_emit_index s + of_nat k < ucast (mg_sel_ukey_len s)
      then mem_get (sd_mem (side (mg_sel s) s)) (unat (ucast (mg_emit_index s) + of_nat k :: byte))
      else byte_of (sd_tag (side (mg_sel s) s)) (min 7 (unat (mg_emit_index s + of_nat k - ucast (mg_sel_ukey_len s)))))"

definition emit_word :: "merger \<Rightarrow> u64" where
  "emit_word s = fold (\<lambda>k w. w OR push_bit (8 * k) (ucast (emit_byte s k))) [0..<8] 0"

definition keep_of_count :: "u32 \<Rightarrow> byte" where
  "keep_of_count n =
     (if 8 \<le> n then 0b11111111
      else if n = 7 then 0b01111111
      else if n = 6 then 0b00111111
      else if n = 5 then 0b00011111
      else if n = 4 then 0b00001111
      else if n = 3 then 0b00000111
      else if n = 2 then 0b00000011 else 0b00000001)"

definition emit_keep :: "merger \<Rightarrow> byte" where
  "emit_keep s = keep_of_count (emit_word_bytes s)"

definition m_rec_valid :: "merger \<Rightarrow> bool" where
  "m_rec_valid s \<longleftrightarrow> mg_busy s \<and> \<not> mg_error s \<and> mg_state s = Mg_Emit_Header"

definition m_valid :: "mg_in \<Rightarrow> merger \<Rightarrow> bool" where
  "m_valid i s \<longleftrightarrow> mg_busy s \<and> \<not> mg_error s \<and>
     (mg_state s = Mg_Emit_Payload \<or> mg_state s = Mg_Stream_Value \<and> pt_valid (port (mg_sel s) i))"

definition last_key_word :: "merger \<Rightarrow> bool" where
  "last_key_word s \<longleftrightarrow> ucast (mg_sel_key_len s) \<le> mg_emit_index s + emit_word_bytes s"

definition last_value_beat :: "mg_in \<Rightarrow> merger \<Rightarrow> bool" where
  "last_value_beat i s \<longleftrightarrow> ucast (mg_sel_value_len s) \<le> mg_emit_index s + beat_len (sel_beat i s)"

definition m_beat :: "mg_in \<Rightarrow> merger \<Rightarrow> mg_beat" where
  "m_beat i s =
     \<lparr>bt_data = (if mg_state s = Mg_Stream_Value then bt_data (sel_beat i s) else emit_word s),
      bt_keep = (if mg_state s = Mg_Stream_Value then bt_keep (sel_beat i s) else emit_keep s),
      bt_last = (mg_state s = Mg_Emit_Payload \<and> mg_sel_value_len s = 0 \<and> last_key_word s \<or>
         mg_state s = Mg_Stream_Value \<and> pt_valid (port (mg_sel s) i) \<and> last_value_beat i s)\<rparr>"

text \<open>The user key of the last record, with which the scheduler seeds the next pair.\<close>

definition final_prev_key :: "merger \<Rightarrow> prev_key" where
  "final_prev_key s = \<lparr>pk_valid = mg_have_prev s, pk_len = mg_prev_len s, pk_bytes = pack_bytes (mg_prev_mem s)\<rparr>"

section \<open>The comparators\<close>

definition cmp_pos :: "merger \<Rightarrow> nat \<Rightarrow> u16" where
  "cmp_pos s k = mg_cmp_index s + of_nat k"

definition key_at :: "byte list \<Rightarrow> u16 \<Rightarrow> byte" where
  "key_at m p = mem_get m (unat (ucast p :: byte))"

text \<open>The loop runs downwards, so that the lowest differing position is the one that stays.\<close>

definition compare_at :: "merger \<Rightarrow> u16 \<Rightarrow> bool \<times> bool \<Rightarrow> bool \<times> bool" where
  "compare_at s p r =
     (if p < sd_ukey_len (mg_side0 s) \<and> p < sd_ukey_len (mg_side1 s) \<and>
         key_at (sd_mem (mg_side0 s)) p \<noteq> key_at (sd_mem (mg_side1 s)) p
      then (True, key_at (sd_mem (mg_side0 s)) p < key_at (sd_mem (mg_side1 s)) p) else r)"

definition first_difference :: "merger \<Rightarrow> bool \<times> bool" where
  "first_difference s = foldr (\<lambda>k. compare_at s (cmp_pos s k)) [0..<MAX_USER_KEY_BYTES] (False, False)"

definition cmp01_all_done :: "merger \<Rightarrow> bool" where
  "cmp01_all_done s \<longleftrightarrow>
     (ucast (min (sd_ukey_len (mg_side0 s)) (sd_ukey_len (mg_side1 s))) :: u32)
       \<le> ucast (mg_cmp_index s) + of_nat MAX_USER_KEY_BYTES"

definition differs_at :: "merger \<Rightarrow> mg_side \<Rightarrow> u16 \<Rightarrow> bool" where
  "differs_at s d p \<longleftrightarrow> p < sd_ukey_len d \<and> key_at (sd_mem d) p \<noteq> key_at (mg_prev_mem s) p"

definition differs_from_prev :: "bool \<Rightarrow> merger \<Rightarrow> bool" where
  "differs_from_prev b s \<longleftrightarrow> list_ex (\<lambda>k. differs_at s (side b s) (cmp_pos s k)) [0..<MAX_USER_KEY_BYTES]"

definition cmp_pipe_valid :: "merger \<Rightarrow> bool" where
  "cmp_pipe_valid s \<longleftrightarrow> mg_prev_state s = mg_state s \<and> mg_state s = Mg_Cmp_Setup"

definition next_sel_valid :: "merger \<Rightarrow> bool" where
  "next_sel_valid s \<longleftrightarrow> \<not> sd_buf (mg_side0 s) \<or> \<not> sd_buf (mg_side1 s) \<or> mg_found_r s \<or> mg_all_done_r s"

definition next_sel_src :: "merger \<Rightarrow> bool" where
  "next_sel_src s =
     (if \<not> sd_buf (mg_side0 s) then True
      else if \<not> sd_buf (mg_side1 s) then False
      else if mg_found_r s then \<not> mg_lt_r s
      else if mg_all_done_r s then
        (if sd_ukey_len (mg_side0 s) \<noteq> sd_ukey_len (mg_side1 s)
         then \<not> sd_ukey_len (mg_side0 s) < sd_ukey_len (mg_side1 s)
         else \<not> sd_tag (mg_side1 s) \<le> sd_tag (mg_side0 s))
      else False)"

definition next_keep :: "merger \<Rightarrow> bool" where
  "next_keep s \<longleftrightarrow> \<not> mg_have_prev s \<or> sd_ukey_len (side (next_sel_src s) s) \<noteq> mg_prev_len s \<or>
     (if next_sel_src s then mg_diff1_r s else mg_diff0_r s)"

section \<open>Reset, clear and start\<close>

definition no_merge_counts :: mg_counts where
  "no_merge_counts = \<lparr>mc_decoded = 0, mc_merged = 0, mc_dropped = 0, mc_values = 0, mc_deletes = 0,
     mc_ukey_total = 0, mc_value_total = 0, mc_last_ukey_len = 0, mc_last_sequence = 0, mc_last_type = 0,
     mc_last_keep = False\<rparr>"

definition empty_side :: "byte list \<Rightarrow> mg_side" where
  "empty_side m = \<lparr>sd_buf = False, sd_done = False, sd_pre = False, sd_key_len = 0, sd_value_len = 0,
     sd_ukey_len = 0, sd_total = 0, sd_tag = 0, sd_mem = m\<rparr>"

definition zero_mem :: "byte list" where
  "zero_mem = replicate MAX_USER_KEY_BYTES 0"

text \<open>What start, clear and reset have in common.\<close>

definition mg_zeroed :: "merger \<Rightarrow> merger" where
  "mg_zeroed s = s\<lparr>mg_done := False, mg_error := False, mg_counts := no_merge_counts, mg_sel := False,
     mg_keep := False, mg_cmp_index := 0, mg_emit_index := 0, mg_cap_index := 0, mg_out_bytes := 0\<rparr>"

definition mg_cleared :: "merger \<Rightarrow> merger" where
  "mg_cleared s = (mg_zeroed s)\<lparr>mg_state := Mg_Idle, mg_busy := False,
     mg_side0 := empty_side zero_mem, mg_side1 := empty_side zero_mem,
     mg_have_prev := False, mg_prev_len := 0, mg_prev_mem := zero_mem,
     mg_found_r := False, mg_lt_r := False, mg_all_done_r := False, mg_diff0_r := False, mg_diff1_r := False,
     mg_prev_state := Mg_Idle\<rparr>"

definition mg_reset :: "merger \<Rightarrow> merger" where
  "mg_reset s = (mg_cleared s)\<lparr>mg_sel_ukey_len := 0, mg_sel_key_len := 0, mg_sel_value_len := 0\<rparr>"

definition seed_mem :: "prev_key \<Rightarrow> byte list" where
  "seed_mem k = map (\<lambda>j. if pk_valid k \<and> j < unat (pk_len k) then byte_of (pk_bytes k) j else 0) [0..<MAX_USER_KEY_BYTES]"

definition mg_begin :: "mg_in \<Rightarrow> merger \<Rightarrow> merger" where
  "mg_begin i t = (mg_zeroed t)\<lparr>mg_state := Mg_Wait False, mg_busy := True,
     mg_side0 := empty_side (sd_mem (mg_side0 t)), mg_side1 := empty_side (sd_mem (mg_side1 t)),
     mg_have_prev := pk_valid (g_seed i), mg_prev_len := (if pk_valid (g_seed i) then pk_len (g_seed i) else 0),
     mg_prev_mem := seed_mem (g_seed i)\<rparr>"

section \<open>One clock edge\<close>

definition latch_done :: "bool \<Rightarrow> mg_in \<Rightarrow> merger \<Rightarrow> merger" where
  "latch_done b i t = put_side b ((side b t)\<lparr>sd_done := (sd_done (side b t) \<or> pt_done (port b i))\<rparr>) t"

text \<open>What every edge assigns: the pulse falls, the sources' ends and the comparators are sampled, output bytes counted.\<close>

definition mg_defaults :: "mg_in \<Rightarrow> merger \<Rightarrow> merger" where
  "mg_defaults i s = latch_done True i (latch_done False i
     (s\<lparr>mg_done := False, mg_prev_state := mg_state s,
        mg_found_r := fst (first_difference s), mg_lt_r := snd (first_difference s),
        mg_all_done_r := cmp01_all_done s,
        mg_diff0_r := differs_from_prev False s, mg_diff1_r := differs_from_prev True s,
        mg_out_bytes := (if m_valid i s \<and> g_axis_ready i then mg_out_bytes s + beat_len (m_beat i s)
          else mg_out_bytes s)\<rparr>))"

definition mg_fail :: "merger \<Rightarrow> merger" where
  "mg_fail t = t\<lparr>mg_busy := False, mg_error := True, mg_state := Mg_Idle\<rparr>"

definition mg_finish :: "merger \<Rightarrow> merger" where
  "mg_finish t = t\<lparr>mg_busy := False, mg_done := True, mg_state := Mg_Idle\<rparr>"

definition mg_compare :: "merger \<Rightarrow> merger" where
  "mg_compare t = t\<lparr>mg_cmp_index := 0, mg_state := Mg_Cmp_Setup\<rparr>"

definition bad_header :: "u16 \<Rightarrow> u16 \<Rightarrow> bool" where
  "bad_header kl vl \<longleftrightarrow> kl < 8 \<or> MAX_KEY_BYTES < kl \<or> MAX_VALUE_BYTES < vl \<or>
     MAX_RECORD_BYTES < ucast kl + ucast vl \<or> of_nat MAX_USER_KEY_BYTES < kl - 8"

definition load_header :: "mg_port \<Rightarrow> mg_side \<Rightarrow> mg_side" where
  "load_header p d = d\<lparr>sd_key_len := pt_key_len p, sd_value_len := pt_value_len p, sd_ukey_len := pt_key_len p - 8,
     sd_total := ucast (pt_key_len p) + ucast (pt_value_len p), sd_tag := 0\<rparr>"

definition mg_wait :: "bool \<Rightarrow> mg_in \<Rightarrow> merger \<Rightarrow> merger \<Rightarrow> merger" where
  "mg_wait b i s t =
     (if sd_pre (side b s)
      then (put_side b ((side b t)\<lparr>sd_pre := False\<rparr>) t)\<lparr>mg_cap_index := 0, mg_state := Mg_Capture b\<rparr>
      else if accept_header b i s then
        (if bad_header (pt_key_len (port b i)) (pt_value_len (port b i)) then mg_fail t
         else (put_side b (load_header (port b i) (side b t)) t)\<lparr>mg_cap_index := 0, mg_state := Mg_Capture b\<rparr>)
      else if sd_done (side b s) then
        (if \<not> sd_buf (side (\<not> b) s) \<and> \<not> sd_done (side (\<not> b) s) then t\<lparr>mg_state := Mg_Wait (\<not> b)\<rparr>
         else if sd_buf (side (\<not> b) s) then mg_compare t
         else mg_finish t)
      else t)"

text \<open>One valid byte of a beat goes to the key memory or, behind the user key, to the tag.\<close>

definition write_byte :: "u32 \<Rightarrow> mg_beat \<Rightarrow> nat \<Rightarrow> mg_side \<Rightarrow> mg_side" where
  "write_byte ci x k d =
     (if \<not> bit (bt_keep x) k then d
      else if ci + of_nat k < ucast (sd_ukey_len d)
      then d\<lparr>sd_mem := (sd_mem d)[unat (ucast ci + of_nat k :: u16) := byte_of (bt_data x) k]\<rparr>
      else d\<lparr>sd_tag := set_tag_byte (min 7 (unat (ucast ci + of_nat k - ucast (sd_ukey_len d) :: 4 word)))
             (byte_of (bt_data x) k) (sd_tag d)\<rparr>)"

definition write_beat :: "u32 \<Rightarrow> mg_beat \<Rightarrow> mg_side \<Rightarrow> mg_side" where
  "write_beat ci x d = fold (write_byte ci x) [0..<8] d"

text \<open>The end of the key: \<^verbatim>\<open>tlast\<close> must agree with the value length, then the record counts as buffered.\<close>

definition capture_last :: "bool \<Rightarrow> mg_beat \<Rightarrow> merger \<Rightarrow> merger \<Rightarrow> merger" where
  "capture_last b x s u =
     (if (sd_value_len (side b s) = 0) \<noteq> bt_last x then mg_fail u
      else if sd_buf (side (\<not> b) s) \<or> sd_done (side (\<not> b) s)
      then mg_compare (put_side b ((side b u)\<lparr>sd_buf := True\<rparr>) u)
      else (put_side b ((side b u)\<lparr>sd_buf := True\<rparr>) u)\<lparr>mg_state := Mg_Wait (\<not> b)\<rparr>)"

definition capture_beat :: "bool \<Rightarrow> mg_beat \<Rightarrow> merger \<Rightarrow> merger \<Rightarrow> merger" where
  "capture_beat b x s u =
     (if mg_cap_index s + beat_len x = ucast (sd_key_len (side b s)) then capture_last b x s u
      else if bt_last x then mg_fail u
      else u\<lparr>mg_cap_index := mg_cap_index s + beat_len x\<rparr>)"

definition mg_capture :: "bool \<Rightarrow> mg_in \<Rightarrow> merger \<Rightarrow> merger \<Rightarrow> merger" where
  "mg_capture b i s t =
     (if \<not> accept_payload b i s then t
      else if ucast (sd_key_len (side b s)) < mg_cap_index s + beat_len (pt_beat (port b i)) then mg_fail t
      else capture_beat b (pt_beat (port b i)) s
        (put_side b (write_beat (mg_cap_index s) (pt_beat (port b i)) (side b t)) t))"

definition count_record :: "mg_side \<Rightarrow> bool \<Rightarrow> mg_counts \<Rightarrow> mg_counts" where
  "count_record d keep c = c\<lparr>mc_decoded := mc_decoded c + 1,
     mc_ukey_total := mc_ukey_total c + ucast (sd_ukey_len d),
     mc_value_total := mc_value_total c + ucast (sd_value_len d),
     mc_last_ukey_len := sd_ukey_len d, mc_last_sequence := ucast (drop_bit 8 (sd_tag d)),
     mc_last_type := ucast (sd_tag d), mc_last_keep := keep,
     mc_deletes := (if (ucast (sd_tag d) :: byte) = 0 then mc_deletes c + 1 else mc_deletes c),
     mc_values := (if (ucast (sd_tag d) :: byte) = 0 then mc_values c else mc_values c + 1),
     mc_merged := (if keep then mc_merged c + 1 else mc_merged c),
     mc_dropped := (if keep then mc_dropped c else mc_dropped c + 1)\<rparr>"

definition route_selected :: "bool \<Rightarrow> mg_side \<Rightarrow> merger \<Rightarrow> merger" where
  "route_selected keep d u =
     (if keep then u\<lparr>mg_emit_index := 0, mg_state := Mg_Emit_Header\<rparr>
      else if sd_value_len d \<noteq> 0 then u\<lparr>mg_emit_index := 0, mg_state := Mg_Drain_Value\<rparr>
      else u\<lparr>mg_state := Mg_Copy_Prev_Key\<rparr>)"

definition take_selected :: "bool \<Rightarrow> bool \<Rightarrow> mg_side \<Rightarrow> merger \<Rightarrow> merger \<Rightarrow> merger" where
  "take_selected b keep d s t = route_selected keep d
     (t\<lparr>mg_sel := b, mg_keep := keep, mg_cmp_index := 0, mg_counts := count_record d keep (mg_counts s),
        mg_sel_ukey_len := sd_ukey_len d, mg_sel_key_len := sd_key_len d, mg_sel_value_len := sd_value_len d,
        mg_have_prev := True, mg_prev_len := sd_ukey_len d\<rparr>)"

definition mg_select :: "merger \<Rightarrow> merger \<Rightarrow> merger" where
  "mg_select s t =
     (if \<not> cmp_pipe_valid s then t
      else if \<not> next_sel_valid s then t\<lparr>mg_cmp_index := mg_cmp_index s + of_nat MAX_USER_KEY_BYTES\<rparr>
      else take_selected (next_sel_src s) (next_keep s) (side (next_sel_src s) s) s t)"

text \<open>The record of the selected source is done with: the choice of what is read next.\<close>

definition refill_route :: "bool \<Rightarrow> merger \<Rightarrow> merger \<Rightarrow> merger" where
  "refill_route b s u =
     (if \<not> sd_done (side b s) then u\<lparr>mg_state := Mg_Wait b\<rparr>
      else if sd_buf (side (\<not> b) s) then mg_compare u
      else if \<not> sd_done (side (\<not> b) s) then u\<lparr>mg_state := Mg_Wait (\<not> b)\<rparr>
      else mg_finish u)"

definition mg_refill :: "merger \<Rightarrow> merger \<Rightarrow> merger" where
  "mg_refill s t = refill_route (mg_sel s) s (put_side (mg_sel s) ((side (mg_sel s) t)\<lparr>sd_buf := False\<rparr>) t)"

definition copy_emitted_byte :: "merger \<Rightarrow> nat \<Rightarrow> byte list \<Rightarrow> byte list" where
  "copy_emitted_byte s k m =
     (if mg_emit_index s + of_nat k < ucast (mg_sel_ukey_len s)
      then m[unat (ucast (mg_emit_index s) + of_nat k :: byte) := emit_byte s k] else m)"

definition copy_emitted :: "merger \<Rightarrow> byte list \<Rightarrow> byte list" where
  "copy_emitted s m = fold (copy_emitted_byte s) [0..<8] m"

definition emitted :: "merger \<Rightarrow> merger \<Rightarrow> merger" where
  "emitted s u =
     (if last_key_word s then
        (if mg_sel_value_len s \<noteq> 0 then u\<lparr>mg_emit_index := 0, mg_state := Mg_Stream_Value\<rparr> else mg_refill s u)
      else u\<lparr>mg_emit_index := mg_emit_index s + emit_word_bytes s\<rparr>)"

definition mg_emit_payload :: "mg_in \<Rightarrow> merger \<Rightarrow> merger \<Rightarrow> merger" where
  "mg_emit_payload i s t =
     (if m_valid i s \<and> g_axis_ready i then emitted s (t\<lparr>mg_prev_mem := copy_emitted s (mg_prev_mem s)\<rparr>) else t)"

definition copy_byte :: "merger \<Rightarrow> nat \<Rightarrow> byte list \<Rightarrow> byte list" where
  "copy_byte s k m =
     (if mg_cmp_index s + of_nat k < mg_sel_ukey_len s
      then m[unat (ucast (mg_cmp_index s) + of_nat k :: byte) :=
             mem_get (sd_mem (side (mg_sel s) s)) (unat (ucast (mg_cmp_index s) + of_nat k :: byte))] else m)"

definition copy_chunk :: "merger \<Rightarrow> byte list \<Rightarrow> byte list" where
  "copy_chunk s m = fold (copy_byte s) [0..<COPY_CHUNK] m"

definition copy_ends :: "merger \<Rightarrow> bool" where
  "copy_ends s \<longleftrightarrow> mg_sel_ukey_len s \<le> mg_cmp_index s + of_nat COPY_CHUNK"

definition mg_copy_step :: "merger \<Rightarrow> merger \<Rightarrow> merger" where
  "mg_copy_step s t =
     t\<lparr>mg_prev_mem := copy_chunk s (mg_prev_mem s),
       mg_cmp_index := (if copy_ends s then mg_sel_ukey_len s else mg_cmp_index s + of_nat COPY_CHUNK)\<rparr>"

definition mg_copy :: "merger \<Rightarrow> merger \<Rightarrow> merger" where
  "mg_copy s t = (if mg_cmp_index s < mg_sel_ukey_len s then mg_copy_step s t else mg_refill s t)"

definition mg_stream :: "mg_in \<Rightarrow> merger \<Rightarrow> merger \<Rightarrow> merger" where
  "mg_stream i s t =
     (if \<not> (pt_valid (port (mg_sel s) i) \<and> g_axis_ready i) then t
      else if last_value_beat i s then mg_refill s t
      else t\<lparr>mg_emit_index := mg_emit_index s + beat_len (sel_beat i s)\<rparr>)"

definition drain_beat :: "mg_in \<Rightarrow> merger \<Rightarrow> merger \<Rightarrow> merger" where
  "drain_beat i s u =
     (if \<not> accept_payload (mg_sel s) i s then u
      else if last_value_beat i s then
        (if mg_cmp_index s < mg_sel_ukey_len s \<and> \<not> copy_ends s then u\<lparr>mg_state := Mg_Copy_Prev_Key\<rparr>
         else mg_refill s u)
      else u\<lparr>mg_emit_index := mg_emit_index s + beat_len (sel_beat i s)\<rparr>)"

definition mg_drain :: "mg_in \<Rightarrow> merger \<Rightarrow> merger \<Rightarrow> merger" where
  "mg_drain i s t = drain_beat i s (if mg_cmp_index s < mg_sel_ukey_len s then mg_copy_step s t else t)"

definition mg_case :: "mg_in \<Rightarrow> merger \<Rightarrow> merger \<Rightarrow> merger" where
  "mg_case i s t =
     (case mg_state s of
        Mg_Wait b \<Rightarrow> mg_wait b i s t
      | Mg_Capture b \<Rightarrow> mg_capture b i s t
      | Mg_Cmp_Setup \<Rightarrow> mg_select s t
      | Mg_Emit_Header \<Rightarrow> if m_rec_valid s \<and> g_rec_ready i then t\<lparr>mg_emit_index := 0, mg_state := Mg_Emit_Payload\<rparr> else t
      | Mg_Emit_Payload \<Rightarrow> mg_emit_payload i s t
      | Mg_Copy_Prev_Key \<Rightarrow> mg_copy s t
      | Mg_Stream_Value \<Rightarrow> mg_stream i s t
      | Mg_Drain_Value \<Rightarrow> mg_drain i s t
      | Mg_Idle \<Rightarrow> mg_fail t
      | Mg_Fetch \<Rightarrow> mg_fail t
      | Mg_Check_Keep \<Rightarrow> mg_fail t
      | Mg_Finalize \<Rightarrow> mg_fail t)"

text \<open>A header that is fetched ahead, assigned behind the \<^verbatim>\<open>case\<close>.\<close>

definition mg_prefetch :: "bool \<Rightarrow> mg_in \<Rightarrow> merger \<Rightarrow> merger \<Rightarrow> merger" where
  "mg_prefetch b i s t =
     (if \<not> (can_prefetch b s \<and> pt_rec_valid (port b i)) then t
      else if bad_header (pt_key_len (port b i)) (pt_value_len (port b i)) then mg_fail t
      else put_side b ((load_header (port b i) (side b t))\<lparr>sd_pre := True\<rparr>) t)"

definition mg_clocked :: "mg_in \<Rightarrow> merger \<Rightarrow> merger \<Rightarrow> merger" where
  "mg_clocked i s t =
     (if g_start i \<and> \<not> mg_busy s then mg_begin i t
      else if mg_busy s \<and> \<not> mg_error s then mg_prefetch True i s (mg_prefetch False i s (mg_case i s t))
      else t)"

definition mg_step :: "mg_in \<Rightarrow> merger \<Rightarrow> merger" where
  "mg_step i s =
     (if \<not> g_rstn i then mg_reset s
      else if g_clear i then mg_cleared s
      else mg_clocked i s (mg_defaults i s))"

end
