(* ===== verification/Merger_System.thy ===== *)
theory Merger_System
  imports Merger_Rtl Sstable_Block
begin

text \<open>
  The merger between its neighbours: two sources that deliver records as a stream of headers and a stream
  of beats, and a sink that takes headers and beats. What \<^verbatim>\<open>cmpct_pair_chain.v\<close> puts between the decoders and
  the merger are FIFOs, so the streams may stall in any cycle, independently of each other. The end of a
  source is signalled when its decoder is done and its header FIFO is empty.
\<close>

section \<open>The neighbours\<close>

record feed =
  fd_hdrs :: "(u16 \<times> u16) list"
  fd_beats :: "mg_beat list"

text \<open>What the neighbours do in one cycle: offer a header, a beat, the end of a source; take a header, a beat.\<close>

record offer =
  of_hdr :: bool
  of_data :: bool
  of_done :: bool

record choice =
  ch_offer0 :: offer
  ch_offer1 :: offer
  ch_rec_ready :: bool
  ch_axis_ready :: bool

text \<open>The sink collects headers and cuts the bytes at \<^verbatim>\<open>tlast\<close>, as the encoder does.\<close>

record mg_sys =
  ms_mg :: merger
  ms_feed0 :: feed
  ms_feed1 :: feed
  ms_hdrs :: "(u16 \<times> u16) list"
  ms_frames :: "byte list list"
  ms_cur :: "byte list"

definition no_beat :: mg_beat where
  "no_beat = \<lparr>bt_data = 0, bt_keep = 0, bt_last = False\<rparr>"

definition beat_bytes :: "mg_beat \<Rightarrow> byte list" where
  "beat_bytes x = map (byte_of (bt_data x)) (filter (bit (bt_keep x)) [0..<8])"

definition port_of :: "offer \<Rightarrow> feed \<Rightarrow> mg_port" where
  "port_of w f = \<lparr>pt_done = (of_done w \<and> fd_hdrs f = []),
     pt_rec_valid = (of_hdr w \<and> fd_hdrs f \<noteq> []),
     pt_key_len = (case fd_hdrs f of [] \<Rightarrow> 0 | h # _ \<Rightarrow> fst h),
     pt_value_len = (case fd_hdrs f of [] \<Rightarrow> 0 | h # _ \<Rightarrow> snd h),
     pt_valid = (of_data w \<and> fd_beats f \<noteq> []),
     pt_beat = (case fd_beats f of [] \<Rightarrow> no_beat | x # _ \<Rightarrow> x)\<rparr>"

definition in_of :: "choice \<Rightarrow> mg_sys \<Rightarrow> mg_in" where
  "in_of c y = \<lparr>g_rstn = True, g_clear = False, g_start = False, g_seed = no_prev_key,
     g_port0 = port_of (ch_offer0 c) (ms_feed0 y), g_port1 = port_of (ch_offer1 c) (ms_feed1 y),
     g_rec_ready = ch_rec_ready c, g_axis_ready = ch_axis_ready c\<rparr>"

definition consume :: "bool \<Rightarrow> mg_in \<Rightarrow> merger \<Rightarrow> feed \<Rightarrow> feed" where
  "consume b i s f =
     \<lparr>fd_hdrs = (if accept_header b i s then tl (fd_hdrs f) else fd_hdrs f),
      fd_beats = (if pt_valid (port b i) \<and> axis_ready b i s then tl (fd_beats f) else fd_beats f)\<rparr>"

definition sink_header :: "mg_in \<Rightarrow> merger \<Rightarrow> (u16 \<times> u16) list" where
  "sink_header i s = (if m_rec_valid s \<and> g_rec_ready i then [(mg_sel_key_len s, mg_sel_value_len s)] else [])"

definition sink_beat :: "mg_in \<Rightarrow> merger \<Rightarrow> mg_beat option" where
  "sink_beat i s = (if m_valid i s \<and> g_axis_ready i then Some (m_beat i s) else None)"

fun collect :: "mg_beat option \<Rightarrow> byte list list \<times> byte list \<Rightarrow> byte list list \<times> byte list" where
  "collect None r = r"
| "collect (Some x) (fs, bs) = (if bt_last x then (fs @ [bs @ beat_bytes x], []) else (fs, bs @ beat_bytes x))"

definition mg_edge :: "mg_in \<Rightarrow> mg_sys \<Rightarrow> mg_sys" where
  "mg_edge i y =
     \<lparr>ms_mg = mg_step i (ms_mg y),
      ms_feed0 = consume False i (ms_mg y) (ms_feed0 y), ms_feed1 = consume True i (ms_mg y) (ms_feed1 y),
      ms_hdrs = ms_hdrs y @ sink_header i (ms_mg y),
      ms_frames = fst (collect (sink_beat i (ms_mg y)) (ms_frames y, ms_cur y)),
      ms_cur = snd (collect (sink_beat i (ms_mg y)) (ms_frames y, ms_cur y))\<rparr>"

definition mg_cycle :: "choice \<Rightarrow> mg_sys \<Rightarrow> mg_sys" where
  "mg_cycle c y = mg_edge (in_of c y) y"

definition mg_cycles :: "choice list \<Rightarrow> mg_sys \<Rightarrow> mg_sys" where
  "mg_cycles cs y = fold mg_cycle cs y"

text \<open>A pair begins with \<^verbatim>\<open>clear\<close> and \<^verbatim>\<open>start\<close>.\<close>

definition start_in :: "prev_key \<Rightarrow> mg_in" where
  "start_in k = \<lparr>g_rstn = True, g_clear = False, g_start = True, g_seed = k,
     g_port0 = port_of \<lparr>of_hdr = False, of_data = False, of_done = False\<rparr> \<lparr>fd_hdrs = [], fd_beats = []\<rparr>,
     g_port1 = port_of \<lparr>of_hdr = False, of_data = False, of_done = False\<rparr> \<lparr>fd_hdrs = [], fd_beats = []\<rparr>,
     g_rec_ready = False, g_axis_ready = False\<rparr>"

definition mg_start_pair :: "merger \<Rightarrow> prev_key \<Rightarrow> feed \<Rightarrow> feed \<Rightarrow> mg_sys" where
  "mg_start_pair s k f0 f1 = \<lparr>ms_mg = mg_step (start_in k) (mg_cleared s), ms_feed0 = f0, ms_feed1 = f1,
     ms_hdrs = [], ms_frames = [], ms_cur = []\<rparr>"

section \<open>Records as streams\<close>

text \<open>The decoder fills a beat from its lowest byte on; a beat never holds bytes of both key and value.\<close>

definition beat_of :: "byte list \<Rightarrow> bool \<Rightarrow> mg_beat" where
  "beat_of bs l = \<lparr>bt_data = pack_bytes bs, bt_keep = mask (length bs), bt_last = l\<rparr>"

function (sequential) cut :: "bool \<Rightarrow> byte list \<Rightarrow> mg_beat list" where
  "cut l [] = []"
| "cut l bs = (if length bs \<le> 8 then [beat_of bs l] else beat_of (take 8 bs) False # cut l (drop 8 bs))"
  by pat_completeness auto
termination by (relation "measure (length \<circ> snd)") auto

definition record_beats :: "entry \<Rightarrow> mg_beat list" where
  "record_beats r = cut (snd r = []) (fst r) @ cut True (snd r)"

definition header_of :: "entry \<Rightarrow> u16 \<times> u16" where
  "header_of r = (of_nat (length (fst r)), of_nat (length (snd r)))"

definition feed_of :: "entry list \<Rightarrow> feed" where
  "feed_of rs = \<lparr>fd_hdrs = map header_of rs, fd_beats = concat (map record_beats rs)\<rparr>"

end
