(* ===== verification/Merger_Bytes.thy ===== *)
theory Merger_Bytes
  imports Merger_System Record_Merge
begin

text \<open>
  Facts about the bytes the merger moves: a dense beat written to the key registers, the words it emits
  from them, and the copy of the emitted user key.
\<close>

section \<open>Bytes of a word\<close>

lemma bit_byte_of: "bit (byte_of (w :: u64) k) j \<longleftrightarrow> j < 8 \<and> bit w (8 * k + j)"
  by (simp add: byte_of_def bit_simps)

lemma bit_set_tag_byte:
  assumes "p < 64"
  shows "bit (set_tag_byte j b w) p \<longleftrightarrow> (if 8 * j \<le> p \<and> p < 8 * j + 8 then bit b (p - 8 * j) else bit w p)"
proof -
  define m :: u64 where "m = mask 8"
  have m: "bit m q \<longleftrightarrow> q < 8" for q unfolding m_def by (simp only: bit_mask_iff) auto
  have b: "bit b q \<Longrightarrow> q < 8" for q using bit_imp_le_length [of b q] by simp
  show ?thesis
    using assms b [of "p - 8 * j"] unfolding set_tag_byte_def m_def [symmetric]
    by (auto simp: bit_or_iff bit_and_iff bit_not_iff bit_push_bit_iff bit_ucast_iff m)
qed

lemma byte_of_set_tag_byte:
  assumes "i < 8" and "j < 8"
  shows "byte_of (set_tag_byte j b w) i = (if i = j then b else byte_of w i)"
proof (rule bit_word_eqI)
  fix n assume "n < LENGTH(8)"
  then have n: "n < 8" by simp
  then have "8 * i + n < 64" using assms by simp
  from bit_set_tag_byte [OF this, of j b w] n
  show "bit (byte_of (set_tag_byte j b w) i) n = bit (if i = j then b else byte_of w i) n"
    by (auto simp: bit_byte_of split: if_splits)
qed

lemma le64_bytes: "le64 w = map (byte_of w) [0..<8]"
proof (rule nth_equalityI)
  fix j assume "j < length (le64 w)"
  then have j: "j < 8" by simp
  have nth: "j < n \<Longrightarrow> le_bytes n v ! j = of_nat (v div 256 ^ j)" for n v j
  proof (induction n arbitrary: v j)
    case (Suc n)
    then show ?case by (cases j) (simp_all add: div_mult2_eq)
  qed simp
  have "byte_of w j = of_nat (unat (drop_bit (8 * j) w))"
    by (simp add: byte_of_def of_nat_unat)
  also have "unat (drop_bit (8 * j) w) = unat w div 2 ^ (8 * j)"
  proof -
    have "unat (drop_bit (8 * j) w) = drop_bit (8 * j) (unat w)" by (rule bit_eqI) (auto simp: bit_simps)
    then show ?thesis by (simp only: drop_bit_eq_div)
  qed
  also have "(2 :: nat) ^ (8 * j) = 256 ^ j" by (simp add: power_mult)
  finally show "le64 w ! j = map (byte_of w) [0..<8] ! j" using j by (simp add: le64_def nth)
qed simp

lemma unat_tag: "unat (w :: u64) = le_nat (map (byte_of w) [0..<8])"
  by (metis le64_bytes le_nat_le64)

section \<open>Beats\<close>

definition dense :: "mg_beat \<Rightarrow> bool" where
  "dense x \<longleftrightarrow> 0 < keep_count (bt_keep x) \<and> (\<forall>k<8. bit (bt_keep x) k \<longleftrightarrow> k < keep_count (bt_keep x))"

lemma keep_count_le: "keep_count m \<le> 8"
  unfolding keep_count_def by (rule order_trans [OF length_filter_le]) simp

lemma length_beat_bytes [simp]: "length (beat_bytes x) = keep_count (bt_keep x)"
  by (simp add: beat_bytes_def keep_count_def)

lemma filter_upt_less: "n \<le> m \<Longrightarrow> filter (\<lambda>k. k < n) [0..<m] = [0..<n]"
proof -
  assume "n \<le> m"
  then have "[0..<m] = [0..<n] @ [n..<m]" by (metis le_add_diff_inverse upt_add_eq_append zero_le)
  then show ?thesis by (simp add: filter_False)
qed

lemma dense_bytes: "dense x \<Longrightarrow> beat_bytes x = map (byte_of (bt_data x)) [0..<keep_count (bt_keep x)]"
proof -
  assume "dense x"
  then have "filter (bit (bt_keep x)) [0..<8] = filter (\<lambda>k. k < keep_count (bt_keep x)) [0..<8]"
    by (intro filter_cong) (auto simp: dense_def)
  then show ?thesis by (simp only: beat_bytes_def filter_upt_less [OF keep_count_le])
qed

lemma dense_nonempty: "dense x \<Longrightarrow> beat_bytes x \<noteq> []"
  by (simp add: dense_def flip: length_greater_0_conv)

lemma unat_beat_len: "unat (beat_len x) = length (beat_bytes x)"
  using keep_count_le [of "bt_keep x"] by (simp add: beat_len_def unat_of_nat)

section \<open>The key registers\<close>

text \<open>\<open>holds n k d\<close>: the first \<open>n\<close> bytes of the key \<open>k\<close> are in the key memory and the tag.\<close>

definition captured :: "nat \<Rightarrow> mg_side \<Rightarrow> nat \<Rightarrow> byte" where
  "captured u d j = (if j < u then sd_mem d ! j else byte_of (sd_tag d) (j - u))"

definition holds :: "nat \<Rightarrow> byte list \<Rightarrow> mg_side \<Rightarrow> bool" where
  "holds n k d \<longleftrightarrow> length (sd_mem d) = MAX_USER_KEY_BYTES \<and>
     (\<forall>j<n. captured (length k - 8) d j = k ! j)"

definition rec_ok :: "entry \<Rightarrow> bool" where
  "rec_ok r \<longleftrightarrow> 8 \<le> length (fst r) \<and> length (fst r) \<le> 72 \<and> length (snd r) \<le> 1024"

definition regs_of :: "entry \<Rightarrow> mg_side \<Rightarrow> bool" where
  "regs_of r d \<longleftrightarrow> unat (sd_key_len d) = length (fst r) \<and> unat (sd_value_len d) = length (snd r) \<and>
     unat (sd_ukey_len d) = length (fst r) - 8"

lemma write_byte_other [simp]:
  "sd_buf (write_byte ci x k d) = sd_buf d" "sd_done (write_byte ci x k d) = sd_done d"
  "sd_pre (write_byte ci x k d) = sd_pre d" "sd_key_len (write_byte ci x k d) = sd_key_len d"
  "sd_value_len (write_byte ci x k d) = sd_value_len d" "sd_ukey_len (write_byte ci x k d) = sd_ukey_len d"
  by (simp_all add: write_byte_def)

lemma fold_keeps: "(\<And>k d. f (g k d) = f d) \<Longrightarrow> f (fold g ks d) = f d"
  by (induction ks arbitrary: d) auto

lemma write_beat_other [simp]:
  "sd_buf (write_beat ci x d) = sd_buf d" "sd_done (write_beat ci x d) = sd_done d"
  "sd_pre (write_beat ci x d) = sd_pre d" "sd_key_len (write_beat ci x d) = sd_key_len d"
  "sd_value_len (write_beat ci x d) = sd_value_len d" "sd_ukey_len (write_beat ci x d) = sd_ukey_len d"
  unfolding write_beat_def by (rule fold_keeps; simp)+

lemma write_byte_captured:
  assumes "n < length k" and "8 \<le> length k" and "length k \<le> 72" and "length (sd_mem d) = MAX_USER_KEY_BYTES"
    and "unat (sd_ukey_len d) = length k - 8" and "unat ci + j = n" and "bit (bt_keep x) j"
  shows "length (sd_mem (write_byte ci x j d)) = MAX_USER_KEY_BYTES \<and>
    (\<forall>m\<le>n. captured (length k - 8) (write_byte ci x j d) m =
       (if m = n then byte_of (bt_data x) j else captured (length k - 8) d m))"
proof -
  let ?u = "length k - 8"
  have small: "unat ci < 72" "j < 72" using assms by simp_all
  have pos: "unat (ci + of_nat j) = n" using assms(6) small by (simp add: unat_of_nat unat_word_ariths)
  have u32: "unat (ucast (sd_ukey_len d) :: u32) = ?u" using assms(3,5) by (simp add: unsigned_ucast_eq take_bit_nat_eq_self)
  have mem: "unat (ucast ci + of_nat j :: u16) = n"
    using assms(6) small by (simp add: unat_word_ariths unat_of_nat unsigned_ucast_eq take_bit_eq_mod)
  show ?thesis
  proof (cases "n < ?u")
    case True
    then have "ci + of_nat j < ucast (sd_ukey_len d)" by (simp add: word_less_nat_alt pos u32)
    then show ?thesis using True assms(3,4,7) mem
      by (auto simp: write_byte_def captured_def nth_list_update MAX_USER_KEY_BYTES_def)
  next
    case False
    have "unat (ucast ci + of_nat j - ucast (sd_ukey_len d) :: 4 word) = n - ?u"
    proof -
      have nat: "ucast v = (of_nat (unat v) :: 4 word)" for v :: "'b::len word" by simp
      have "(ucast ci + of_nat j - ucast (sd_ukey_len d) :: 4 word) = of_nat (unat ci + j) - of_nat (unat (sd_ukey_len d))"
        unfolding nat by simp
      also have "\<dots> = of_nat (n - ?u)" using False assms(5,6) by (simp add: of_nat_diff)
      finally show ?thesis using assms(1-3) by (simp add: unat_of_nat)
    qed
    moreover have "n - ?u \<le> 7" using assms(1,2) by linarith
    moreover have "\<not> ci + of_nat j < ucast (sd_ukey_len d)" using False by (simp add: word_less_nat_alt pos u32)
    ultimately have w: "write_byte ci x j d = d\<lparr>sd_tag := set_tag_byte (n - ?u) (byte_of (bt_data x) j) (sd_tag d)\<rparr>"
      using assms(7) unfolding write_byte_def by (simp only: not_True_eq_False if_False min.absorb2)
    show ?thesis
    proof (intro conjI allI impI)
      fix m assume m: "m \<le> n"
      have idx: "m - ?u < 8" "n - ?u < 8" using m assms(1,2) by linarith+
      show "captured ?u (write_byte ci x j d) m = (if m = n then byte_of (bt_data x) j else captured ?u d m)"
      proof (cases "m < ?u")
        case True
        then show ?thesis using False by (simp add: w captured_def)
      next
        case m': False
        then have "m - ?u = n - ?u \<longleftrightarrow> m = n" using False by linarith
        then show ?thesis using m' by (simp add: w captured_def byte_of_set_tag_byte [OF idx])
      qed
    qed (simp add: w assms(4))
  qed
qed

lemma write_byte_holds:
  assumes "holds n k d" and "n < length k" and "8 \<le> length k" and "length k \<le> 72"
    and "unat (sd_ukey_len d) = length k - 8" and "unat ci + j = n" and "bit (bt_keep x) j"
    and "byte_of (bt_data x) j = k ! n"
  shows "holds (Suc n) k (write_byte ci x j d)"
  using write_byte_captured [OF assms(2-4) _ assms(5-7)] assms(1,8) by (auto simp: holds_def less_Suc_eq)

lemma write_beat_holds:
  assumes "holds n k d" and "8 \<le> length k" and "length k \<le> 72" and "unat (sd_ukey_len d) = length k - 8"
    and "unat ci = n" and "dense x" and "n + length (beat_bytes x) \<le> length k"
    and bytes: "beat_bytes x = take (length (beat_bytes x)) (drop n k)"
  shows "holds (n + length (beat_bytes x)) k (write_beat ci x d)"
proof -
  let ?c = "keep_count (bt_keep x)"
  have c: "?c \<le> 8" by (rule keep_count_le)
  have bit: "j < 8 \<Longrightarrow> bit (bt_keep x) j \<longleftrightarrow> j < ?c" for j using assms(6) by (simp add: dense_def)
  have data: "byte_of (bt_data x) j = k ! (n + j)" if "j < ?c" for j
    using that arg_cong [OF bytes, of "\<lambda>b. b ! j"] assms(7) by (simp add: dense_bytes [OF assms(6)])
  have part: "holds (n + min j ?c) k (fold (write_byte ci x) [0..<j] d) \<and>
      sd_ukey_len (fold (write_byte ci x) [0..<j] d) = sd_ukey_len d" if "j \<le> 8" for j
    using that
  proof (induction j)
    case 0
    then show ?case using assms(1) by simp
  next
    case (Suc j)
    let ?e = "fold (write_byte ci x) [0..<j] d"
    have ih: "holds (n + min j ?c) k ?e" "sd_ukey_len ?e = sd_ukey_len d" using Suc by simp_all
    show ?case
    proof (cases "j < ?c")
      case True
      have "holds (Suc (n + j)) k (write_byte ci x j ?e)"
        by (rule write_byte_holds)
          (use ih True Suc.prems assms(2-5,7) bit data in \<open>simp_all add: min_def split: if_splits\<close>)
      then show ?thesis using True ih by (simp add: min_def)
    next
      case False
      then have "write_byte ci x j ?e = ?e" using bit Suc.prems by (simp add: write_byte_def)
      moreover have "min (Suc j) ?c = min j ?c" using False by simp
      ultimately show ?thesis using ih by simp
    qed
  qed
  from part [of 8] c show ?thesis by (simp add: write_beat_def min_def)
qed

section \<open>What the merger emits\<close>

lemma byte_of_or: "byte_of (v OR w :: u64) k = byte_of v k OR byte_of w k"
  by (rule bit_word_eqI) (auto simp: bit_byte_of bit_simps)

lemma byte_of_push: "k < 8 \<Longrightarrow> j < 8 \<Longrightarrow> byte_of (push_bit (8 * j) (ucast (b :: byte)) :: u64) k = (if k = j then b else 0)"
proof (rule bit_word_eqI)
  fix n assume k: "k < 8" "j < 8" and "n < LENGTH(8)"
  then have n: "n < 8" by simp
  have b: "bit b q \<Longrightarrow> q < 8" for q using bit_imp_le_length [of b q] by simp
  show "bit (byte_of (push_bit (8 * j) (ucast b) :: u64) k) n = bit (if k = j then b else 0) n"
    using k n b [of "8 * k + n - 8 * j"] by (auto simp: bit_byte_of bit_push_bit_iff bit_ucast_iff)
qed

lemma fold_or_bytes:
  assumes "k < 8" and "m \<le> 8"
  shows "byte_of (fold (\<lambda>k w. w OR push_bit (8 * k) (ucast (f k :: byte))) [0..<m] (0 :: u64)) k = (if k < m then f k else 0)"
  using assms(2)
proof (induction m)
  case 0
  show ?case by (simp add: byte_of_def)
next
  case (Suc m)
  then show ?case using assms(1) by (auto simp: byte_of_or byte_of_push)
qed

lemma byte_of_emit_word: "k < 8 \<Longrightarrow> byte_of (emit_word s) k = emit_byte s k"
  using fold_or_bytes [of k 8 "emit_byte s"] by (simp add: emit_word_def)

lemma keep_bits:
  assumes "1 \<le> n" and "n \<le> 8"
  shows "filter (bit (keep_of_count (of_nat n))) [0..<8] = [0..<n]"
proof -
  consider "n = 1" | "n = 2" | "n = 3" | "n = 4" | "n = 5" | "n = 6" | "n = 7" | "n = 8"
    using assms by linarith
  then show ?thesis
    by cases (simp_all add: keep_of_count_def upt_conv_Cons bit_simps word_le_nat_alt)
qed

end
