(* ===== verification/Merger_Emit.thy ===== *)
theory Merger_Emit
  imports Merger_Bytes
begin

text \<open>
  What the merger makes of a loaded record: the words it emits are the bytes of the internal key, and the
  copy of the user key for the next comparison.
\<close>

section \<open>The emitted key\<close>

text \<open>\<open>loaded s r\<close>: the registers of the selected source hold the record \<open>r\<close>.\<close>

definition loaded :: "merger \<Rightarrow> entry \<Rightarrow> bool" where
  "loaded s r \<longleftrightarrow> rec_ok r \<and> holds (length (fst r)) (fst r) (side (mg_sel s) s) \<and> regs_of r (side (mg_sel s) s) \<and>
     mg_sel_ukey_len s = sd_ukey_len (side (mg_sel s) s) \<and> mg_sel_key_len s = sd_key_len (side (mg_sel s) s) \<and>
     mg_sel_value_len s = sd_value_len (side (mg_sel s) s)"

lemma loadedD:
  assumes "loaded s r"
  shows "8 \<le> length (fst r)" "length (fst r) \<le> 72" "length (snd r) \<le> 1024"
    "unat (mg_sel_ukey_len s) = length (fst r) - 8" "unat (mg_sel_key_len s) = length (fst r)"
    "unat (mg_sel_value_len s) = length (snd r)"
    "length (sd_mem (side (mg_sel s) s)) = 64"
    "j < length (fst r) \<Longrightarrow> captured (length (fst r) - 8) (side (mg_sel s) s) j = fst r ! j"
  using assms by (auto simp: loaded_def rec_ok_def regs_of_def holds_def MAX_USER_KEY_BYTES_def)

lemma unat_ucast_16_32 [simp]: "unat (ucast (v :: u16) :: u32) = unat v"
  using unat_below_exp [of v] by (simp add: unsigned_ucast_eq take_bit_nat_eq_self)

lemma unat_ucast_small: "unat (w :: 'a::len word) < 2 ^ LENGTH('b::len) \<Longrightarrow> unat (ucast w :: 'b word) = unat w"
  by (simp only: unsigned_ucast_eq take_bit_nat_eq_self)

lemma unat_plus_small: "unat (a :: u32) + n < 2 ^ 32 \<Longrightarrow> unat (a + of_nat n) = unat a + n"
  by (simp add: unat_word_ariths unat_of_nat)

lemma emit_byte_key:
  assumes ld: "loaded s r" and j: "unat (mg_emit_index s) + k < length (fst r)"
  shows "emit_byte s k = fst r ! (unat (mg_emit_index s) + k)"
proof -
  let ?d = "side (mg_sel s) s" and ?n = "unat (mg_emit_index s) + k" and ?u = "length (fst r) - 8"
  note l = loadedD [OF ld]
  have n: "unat (mg_emit_index s + of_nat k) = ?n" using j l(2) by (intro unat_plus_small) simp
  have idx: "unat (ucast (mg_emit_index s) + of_nat k :: byte) = ?n"
    using j l(2) by (simp add: unat_word_ariths unat_of_nat unsigned_ucast_eq take_bit_eq_mod mod_add_eq)
  show ?thesis
  proof (cases "?n < ?u")
    case True
    then have "?n < 64" using l(2) by linarith
    then show ?thesis using True l(8) [OF j] l(1,2,7) n idx
      by (simp add: emit_byte_def word_less_nat_alt l(4) mem_get_def captured_def)
  next
    case False
    have "unat (mg_emit_index s + of_nat k - ucast (mg_sel_ukey_len s)) = ?n - ?u"
      using False by (subst unat_sub) (simp_all add: word_le_nat_alt n l(4))
    moreover have "min 7 (?n - ?u) = ?n - ?u" using j by linarith
    ultimately show ?thesis using l(8) [OF j] False n
      by (simp add: emit_byte_def word_less_nat_alt l(4) captured_def)
  qed
qed

lemma emit_word_length:
  assumes ld: "loaded s r" and "unat (mg_emit_index s) < length (fst r)"
  shows "unat (emit_word_bytes s) = min 8 (length (fst r) - unat (mg_emit_index s))"
    and "emit_word_bytes s = of_nat (min 8 (length (fst r) - unat (mg_emit_index s)))"
proof -
  note l = loadedD [OF ld]
  have r: "unat (emit_remaining_key s) = length (fst r) - unat (mg_emit_index s)"
    using assms(2) unfolding emit_remaining_key_def by (subst unat_sub) (simp_all add: word_le_nat_alt l(5))
  show one: "unat (emit_word_bytes s) = min 8 (length (fst r) - unat (mg_emit_index s))"
  proof (cases "8 \<le> emit_remaining_key s")
    case True
    then show ?thesis using r by (simp add: emit_word_bytes_def word_le_nat_alt)
  next
    case False
    then have "unat (emit_remaining_key s) < 8" by (simp add: word_le_nat_alt)
    then have "unat (ucast (ucast (emit_remaining_key s) :: 4 word) :: u32) = unat (emit_remaining_key s)"
      by (subst unat_ucast_small; (subst unat_ucast_small)?; simp)
    then show ?thesis using r False \<open>unat (emit_remaining_key s) < 8\<close> by (simp only: emit_word_bytes_def if_False)
  qed
  show "emit_word_bytes s = of_nat (min 8 (length (fst r) - unat (mg_emit_index s)))"
    unfolding one [symmetric] by simp
qed

lemma emitted_bytes:
  assumes ld: "loaded s r" and ei: "unat (mg_emit_index s) < length (fst r)" and st: "mg_state s = Mg_Emit_Payload"
  shows "beat_bytes (m_beat i s) = take 8 (drop (unat (mg_emit_index s)) (fst r))"
proof -
  let ?n = "min 8 (length (fst r) - unat (mg_emit_index s))"
  have n: "1 \<le> ?n" "?n \<le> 8" using ei by simp_all
  have "filter (bit (emit_keep s)) [0..<8] = [0..<?n]"
    unfolding emit_keep_def emit_word_length(2) [OF ld ei] by (rule keep_bits [OF n])
  then have "beat_bytes (m_beat i s) = map (byte_of (emit_word s)) [0..<?n]"
    using st by (simp add: beat_bytes_def m_beat_def)
  also have "\<dots> = map (\<lambda>k. fst r ! (unat (mg_emit_index s) + k)) [0..<?n]"
    by (rule map_cong [OF refl]) (auto simp: byte_of_emit_word intro!: emit_byte_key [OF ld])
  also have "\<dots> = take 8 (drop (unat (mg_emit_index s)) (fst r))"
    using ei by (auto intro!: nth_equalityI)
  finally show ?thesis .
qed

lemma last_key_word_iff:
  assumes ld: "loaded s r" and ei: "unat (mg_emit_index s) < length (fst r)"
  shows "last_key_word s \<longleftrightarrow> length (fst r) \<le> unat (mg_emit_index s) + 8"
    and "unat (mg_emit_index s + emit_word_bytes s) = min (unat (mg_emit_index s) + 8) (length (fst r))"
proof -
  note l = loadedD [OF ld]
  have "unat (mg_emit_index s) + unat (emit_word_bytes s) < 2 ^ 32"
    using ei l(2) by (simp add: emit_word_length(1) [OF ld ei])
  then have sum: "unat (mg_emit_index s + emit_word_bytes s) = unat (mg_emit_index s) + unat (emit_word_bytes s)"
    by (simp add: unat_word_ariths)
  then show "unat (mg_emit_index s + emit_word_bytes s) = min (unat (mg_emit_index s) + 8) (length (fst r))"
    using ei by (simp add: emit_word_length(1) [OF ld ei])
  then show "last_key_word s \<longleftrightarrow> length (fst r) \<le> unat (mg_emit_index s) + 8"
    by (simp add: last_key_word_def word_le_nat_alt l(5))
qed

section \<open>The copy of the user key\<close>

definition starts :: "byte list \<Rightarrow> nat \<Rightarrow> byte list \<Rightarrow> bool" where
  "starts m n k \<longleftrightarrow> length m = MAX_USER_KEY_BYTES \<and> (\<forall>j<n. m ! j = k ! j)"

lemma starts_update: "starts m n k \<Longrightarrow> starts (m[j := k ! j]) n k"
  unfolding starts_def by (cases "j < length m") (auto simp: nth_list_update list_update_beyond)

lemma copy_emitted_starts:
  assumes ld: "loaded s r" and ei: "unat (mg_emit_index s) < length (fst r)"
    and m: "starts m (min (unat (mg_emit_index s)) (length (fst r) - 8)) (fst r)"
  shows "starts (copy_emitted s m) (min (unat (mg_emit_index s) + 8) (length (fst r) - 8)) (fst r)"
proof -
  let ?e = "unat (mg_emit_index s)" and ?u = "length (fst r) - 8"
  note l = loadedD [OF ld]
  have "starts (fold (copy_emitted_byte s) [0..<j] m) (min (?e + j) ?u) (fst r)" if "j \<le> 8" for j
    using that
  proof (induction j)
    case 0
    then show ?case using m by simp
  next
    case (Suc j)
    define w where "w = fold (copy_emitted_byte s) [0..<j] m"
    have ih: "starts w (min (?e + j) ?u) (fst r)" unfolding w_def using Suc by simp
    have n: "unat (mg_emit_index s + of_nat j) = ?e + j" using ei l(2) Suc.prems by (intro unat_plus_small) simp
    have idx: "unat (ucast (mg_emit_index s) + of_nat j :: byte) = ?e + j"
      using ei l(2) Suc.prems by (simp add: unat_word_ariths unat_of_nat unsigned_ucast_eq take_bit_eq_mod mod_add_eq)
    have "starts (copy_emitted_byte s j w) (min (?e + Suc j) ?u) (fst r)"
    proof (cases "?e + j < ?u")
      case True
      then have "emit_byte s j = fst r ! (?e + j)" "?e + j < 64" using emit_byte_key [OF ld, of j] l(2) by simp_all
      then show ?thesis using True ih l(1,2) n
        by (auto simp: copy_emitted_byte_def word_less_nat_alt l(4) idx starts_def nth_list_update less_Suc_eq MAX_USER_KEY_BYTES_def)
    next
      case False
      then show ?thesis using ih n
        by (simp add: copy_emitted_byte_def word_less_nat_alt l(4) min_def starts_def split: if_splits)
    qed
    then show ?case by (simp add: w_def)
  qed
  from this [of 8] show ?thesis by (simp add: copy_emitted_def)
qed

text \<open>On the way of a dropped record the copy changes nothing: the user key is the one before.\<close>

lemma copy_chunk_starts:
  assumes ld: "loaded s r" and m: "starts m (length (fst r) - 8) (fst r)"
  shows "starts (copy_chunk s m) (length (fst r) - 8) (fst r)"
proof -
  let ?u = "length (fst r) - 8"
  note l = loadedD [OF ld]
  have "starts (fold (copy_byte s) ks m) ?u (fst r)" if "set ks \<subseteq> {0..<4}" for ks
    using that m
  proof (induction ks arbitrary: m)
    case (Cons k ks)
    let ?j = "unat (ucast (mg_cmp_index s) + of_nat k :: byte)"
    have "starts (copy_byte s k m) ?u (fst r)"
    proof (cases "mg_cmp_index s + of_nat k < mg_sel_ukey_len s")
      case True
      then have lt: "unat (mg_cmp_index s + of_nat k) < ?u" by (simp add: word_less_nat_alt l(4))
      have "?j = (unat (mg_cmp_index s) + k) mod 65536 mod 256"
        by (simp add: unat_word_ariths unat_of_nat unsigned_ucast_eq take_bit_eq_mod mod_simps mod_mod_cancel)
      also have "(unat (mg_cmp_index s) + k) mod 65536 = unat (mg_cmp_index s + of_nat k)"
        by (simp add: unat_word_ariths unat_of_nat mod_simps)
      finally have j: "?j < ?u" using lt l(2) by simp
      then have j': "?j < 64" "?j < length (fst r)" using l(2) by linarith+
      have "mem_get (sd_mem (side (mg_sel s) s)) ?j = fst r ! ?j"
        using l(7) l(8) [of ?j] j j' by (simp add: mem_get_def captured_def)
      then show ?thesis using Cons.prems(2) True j
        by (simp add: copy_byte_def starts_update)
    next
      case False
      then show ?thesis using Cons.prems(2) by (simp add: copy_byte_def)
    qed
    then show ?case using Cons by simp
  qed simp
  from this [of "[0..<COPY_CHUNK]"] show ?thesis by (simp add: copy_chunk_def COPY_CHUNK_def)
qed

end
