(* ===== verification/Merger_Compare.thy ===== *)
theory Merger_Compare
  imports Merger_Emit
begin

text \<open>
  The comparators of the merger against the order of records: the priority encoder over 64 byte positions
  finds the first difference of the two user keys, so that the registered comparison selects the record
  the merge takes next, and keeps it exactly when its user key is not the one before.
\<close>

section \<open>The first difference of two keys\<close>

fun diff :: "byte list \<Rightarrow> byte list \<Rightarrow> bool \<times> bool" where
  "diff (x # xs) (y # ys) = (if x \<noteq> y then (True, x < y) else diff xs ys)"
| "diff _ _ = (False, False)"

lemma diff_less:
  "xs < ys \<longleftrightarrow> (if fst (diff xs ys) then snd (diff xs ys) else length xs < length ys)"
proof (induction xs arbitrary: ys)
  case Nil
  then show ?case by (cases ys) simp_all
next
  case (Cons x xs)
  then show ?case by (cases ys) auto
qed

lemma diff_equal: "length xs = length ys \<Longrightarrow> \<not> fst (diff xs ys) \<longleftrightarrow> xs = ys"
  by (induction xs ys rule: diff.induct) auto

lemma diff_same [simp]: "diff xs xs = (False, False)"
  by (induction xs) simp_all

lemma foldr_map_Suc: "foldr f (map Suc ks) r = foldr (\<lambda>k. f (Suc k)) ks r"
  by (simp add: foldr_map comp_def)

lemma foldr_diff:
  "foldr (\<lambda>k r. if xs ! k \<noteq> ys ! k then (True, xs ! k < ys ! k) else r) [0..<min (length xs) (length ys)] (False, False) =
    diff xs ys"
proof (induction xs ys rule: diff.induct)
  case (1 x xs y ys)
  have "[0..<min (length (x # xs)) (length (y # ys))] = 0 # map Suc [0..<min (length xs) (length ys)]"
    by (simp add: map_Suc_upt upt_conv_Cons [symmetric] del: upt_Suc upt_conv_Cons)
  then show ?case using 1 by (simp add: foldr_map_Suc)
qed simp_all

section \<open>The comparators compute it\<close>

lemma foldr_skip: "(\<And>k r. k \<in> set ys \<Longrightarrow> f k r = r) \<Longrightarrow> foldr f ys r = r"
  by (induction ys arbitrary: r) auto

lemma upt_split: "m \<le> n \<Longrightarrow> [0..<n] = [0..<m] @ [m..<n]"
  by (metis le_add_diff_inverse upt_add_eq_append zero_le)

definition compared :: "merger \<Rightarrow> nat" where
  "compared s = min MAX_USER_KEY_BYTES (min (unat (sd_ukey_len (mg_side0 s))) (unat (sd_ukey_len (mg_side1 s))))"

lemma first_difference_code [code]:
  "first_difference s =
     (if mg_cmp_index s = 0 then foldr (\<lambda>k. compare_at s (of_nat k)) [0..<compared s] (False, False)
      else foldr (\<lambda>k. compare_at s (cmp_pos s k)) [0..<MAX_USER_KEY_BYTES] (False, False))"
proof (cases "mg_cmp_index s = 0")
  case True
  have "compared s \<le> MAX_USER_KEY_BYTES" by (simp add: compared_def)
  then have split: "[0..<MAX_USER_KEY_BYTES] = [0..<compared s] @ [compared s..<MAX_USER_KEY_BYTES]" by (rule upt_split)
  have "foldr (\<lambda>k. compare_at s (of_nat k)) [compared s..<MAX_USER_KEY_BYTES] r = r" for r
    by (rule foldr_skip) (auto simp: compare_at_def compared_def MAX_USER_KEY_BYTES_def word_less_nat_alt unat_of_nat)
  then show ?thesis using True unfolding first_difference_def split by (simp add: cmp_pos_def)
qed (simp add: first_difference_def)

lemma differs_from_prev_code [code]:
  "differs_from_prev b s =
     (if mg_cmp_index s = 0
      then list_ex (\<lambda>k. differs_at s (side b s) (of_nat k)) [0..<min MAX_USER_KEY_BYTES (unat (sd_ukey_len (side b s)))]
      else list_ex (\<lambda>k. differs_at s (side b s) (cmp_pos s k)) [0..<MAX_USER_KEY_BYTES])"
  by (auto simp: differs_from_prev_def list_ex_iff cmp_pos_def differs_at_def MAX_USER_KEY_BYTES_def word_less_nat_alt unat_of_nat)

text \<open>\<open>keeps d u\<close>: the registers of a source hold the user key \<open>u\<close>.\<close>

definition keeps :: "mg_side \<Rightarrow> byte list \<Rightarrow> bool" where
  "keeps d u \<longleftrightarrow> length u \<le> MAX_USER_KEY_BYTES \<and> unat (sd_ukey_len d) = length u \<and> starts (sd_mem d) (length u) u"

lemma key_at_small:
  assumes "k < 64"
  shows "key_at m (of_nat k) = mem_get m k"
proof -
  have "unat (ucast (of_nat k :: u16) :: byte) = k" using assms by (subst unat_ucast_small) (simp_all add: unat_of_nat)
  then show ?thesis by (simp add: key_at_def)
qed

lemma starts_get: "starts m (length u) u \<Longrightarrow> k < length u \<Longrightarrow> length u \<le> MAX_USER_KEY_BYTES \<Longrightarrow> mem_get m k = u ! k"
  by (simp add: starts_def mem_get_def)

lemma first_difference_keys:
  assumes k0: "keeps (mg_side0 s) u0" and k1: "keeps (mg_side1 s) u1" and ci: "mg_cmp_index s = 0"
  shows "first_difference s = diff u0 u1"
proof -
  have n: "compared s = min (length u0) (length u1)"
    using k0 k1 by (auto simp: compared_def keeps_def)
  have "foldr (\<lambda>k. compare_at s (of_nat k)) [0..<compared s] (False, False) =
      foldr (\<lambda>k r. if u0 ! k \<noteq> u1 ! k then (True, u0 ! k < u1 ! k) else r) [0..<compared s] (False, False)"
  proof (rule foldr_cong [OF refl refl])
    fix k r assume "k \<in> set [0..<compared s]"
    then have k: "k < length u0" "k < length u1" using n by simp_all
    then have "k < 64" using k0 by (simp add: keeps_def MAX_USER_KEY_BYTES_def)
    moreover have "mem_get (sd_mem (mg_side0 s)) k = u0 ! k" "mem_get (sd_mem (mg_side1 s)) k = u1 ! k"
      using k0 k1 k by (auto simp: keeps_def intro: starts_get)
    moreover have "(of_nat k :: u16) < sd_ukey_len (mg_side0 s)" "(of_nat k :: u16) < sd_ukey_len (mg_side1 s)"
      using k0 k1 k \<open>k < 64\<close> by (simp_all add: keeps_def word_less_nat_alt unat_of_nat)
    ultimately show "compare_at s (of_nat k) r = (if u0 ! k \<noteq> u1 ! k then (True, u0 ! k < u1 ! k) else r)"
      by (simp add: compare_at_def key_at_small)
  qed
  then show ?thesis using ci by (simp add: first_difference_code n foldr_diff)
qed

lemma differs_from_prev_keys:
  assumes k: "keeps (side b s) u" and p: "starts (mg_prev_mem s) (length p) p" "length p = length u"
    and ci: "mg_cmp_index s = 0"
  shows "differs_from_prev b s \<longleftrightarrow> u \<noteq> p"
proof -
  have "differs_at s (side b s) (of_nat j) \<longleftrightarrow> u ! j \<noteq> p ! j" if "j < length u" for j
  proof -
    have j: "j < 64" using that k by (simp add: keeps_def MAX_USER_KEY_BYTES_def)
    have "(of_nat j :: u16) < sd_ukey_len (side b s)"
      using k that j by (simp add: keeps_def word_less_nat_alt unat_of_nat)
    moreover have "mem_get (sd_mem (side b s)) j = u ! j" "mem_get (mg_prev_mem s) j = p ! j"
      using k p that by (auto simp: keeps_def intro: starts_get)
    ultimately show ?thesis by (simp add: differs_at_def key_at_small [OF j])
  qed
  moreover have "min MAX_USER_KEY_BYTES (unat (sd_ukey_len (side b s))) = length u"
    using k by (simp add: keeps_def)
  ultimately have "differs_from_prev b s \<longleftrightarrow> (\<exists>j<length u. u ! j \<noteq> p ! j)"
    using ci by (auto simp: differs_from_prev_code list_ex_iff)
  then show ?thesis using p(2) by (auto simp: list_eq_iff_nth_eq)
qed

lemma all_done_keys:
  assumes "keeps (mg_side0 s) u0" and "keeps (mg_side1 s) u1" and "mg_cmp_index s = 0"
  shows "cmp01_all_done s"
proof -
  let ?m = "min (sd_ukey_len (mg_side0 s)) (sd_ukey_len (mg_side1 s))"
  have "unat ?m \<le> 64" using assms by (simp add: keeps_def MAX_USER_KEY_BYTES_def min_def)
  then show ?thesis using assms(3) by (simp add: cmp01_all_done_def word_le_nat_alt MAX_USER_KEY_BYTES_def)
qed

section \<open>The selection\<close>

definition full_key :: "entry \<Rightarrow> mg_side \<Rightarrow> bool" where
  "full_key r d \<longleftrightarrow> rec_ok r \<and> holds (length (fst r)) (fst r) d \<and> regs_of r d"

lemma full_key_keeps:
  assumes "full_key r d"
  shows "keeps d (user_key (fst r))"
proof -
  have "sd_mem d ! j = fst r ! j" if "j < length (fst r) - 8" for j
  proof -
    have "captured (length (fst r) - 8) d j = fst r ! j" using assms that by (simp add: full_key_def holds_def)
    then show ?thesis using that by (simp add: captured_def)
  qed
  then show ?thesis using assms
    by (auto simp: full_key_def keeps_def rec_ok_def regs_of_def holds_def starts_def user_key_def MAX_USER_KEY_BYTES_def)
qed

lemma captured_tag: "captured u d (u + j) = byte_of (sd_tag d) j"
  by (simp add: captured_def)

lemma full_key_tag:
  assumes "full_key r d"
  shows "unat (sd_tag d) = key_tag (fst r)"
proof -
  let ?n = "length (fst r)"
  have n: "8 \<le> ?n" and bytes: "\<forall>j<?n. captured (?n - 8) d j = fst r ! j"
    using assms by (simp_all add: full_key_def rec_ok_def holds_def)
  have "map (byte_of (sd_tag d)) [0..<8] = drop (?n - 8) (fst r)"
  proof (rule nth_equalityI)
    fix j assume "j < length (map (byte_of (sd_tag d)) [0..<8])"
    then have j: "j < 8" by simp
    have "captured (?n - 8) d (?n - 8 + j) = fst r ! (?n - 8 + j)" using bytes n j by simp
    then show "map (byte_of (sd_tag d)) [0..<8] ! j = drop (?n - 8) (fst r) ! j" using j by (simp only: captured_tag) simp
  qed (use n in simp)
  then show ?thesis by (simp add: unat_tag key_tag_def)
qed

definition prev_is :: "merger \<Rightarrow> byte list option \<Rightarrow> bool" where
  "prev_is s prev \<longleftrightarrow> mg_have_prev s = (prev \<noteq> None) \<and>
     (\<forall>p. prev = Some p \<longrightarrow> unat (mg_prev_len s) = length p \<and> starts (mg_prev_mem s) (length p) p)"

definition pipe_ok :: "merger \<Rightarrow> bool" where
  "pipe_ok s \<longleftrightarrow> (mg_found_r s, mg_lt_r s) = first_difference s \<and> mg_all_done_r s = cmp01_all_done s \<and>
     mg_diff0_r s = differs_from_prev False s \<and> mg_diff1_r s = differs_from_prev True s"

text \<open>\<open>picks_second\<close>: the merge takes the head of the second source.\<close>

definition picks_second :: "entry list \<Rightarrow> entry list \<Rightarrow> bool" where
  "picks_second xs ys \<longleftrightarrow> xs = [] \<or> ys \<noteq> [] \<and> \<not> before (hd xs) (hd ys)"

lemma weave_picks:
  "xs \<noteq> [] \<or> ys \<noteq> [] \<Longrightarrow> weave xs ys =
     (if picks_second xs ys then hd ys # weave xs (tl ys) else hd xs # weave (tl xs) ys)"
  by (cases xs; cases ys) (auto simp: picks_second_def)

lemma next_sel_correct:
  assumes pipe: "pipe_ok s" and ci: "mg_cmp_index s = 0"
    and b0: "sd_buf (mg_side0 s) \<longleftrightarrow> xs \<noteq> []" "xs \<noteq> [] \<Longrightarrow> full_key (hd xs) (mg_side0 s)"
    and b1: "sd_buf (mg_side1 s) \<longleftrightarrow> ys \<noteq> []" "ys \<noteq> [] \<Longrightarrow> full_key (hd ys) (mg_side1 s)"
    and ne: "xs \<noteq> [] \<or> ys \<noteq> []"
  shows "next_sel_valid s \<and> next_sel_src s = picks_second xs ys"
proof (cases "xs = [] \<or> ys = []")
  case True
  then show ?thesis using b0(1) b1(1) ne by (auto simp: next_sel_valid_def next_sel_src_def picks_second_def)
next
  case False
  then have f0: "full_key (hd xs) (mg_side0 s)" and f1: "full_key (hd ys) (mg_side1 s)" using b0(2) b1(2) by auto
  let ?u = "user_key (fst (hd xs))" and ?v = "user_key (fst (hd ys))"
  have k: "keeps (mg_side0 s) ?u" "keeps (mg_side1 s) ?v" using f0 f1 by (simp_all add: full_key_keeps)
  have regs: "(mg_found_r s, mg_lt_r s) = diff ?u ?v" "mg_all_done_r s"
    using pipe first_difference_keys [OF k ci] all_done_keys [OF k ci] by (simp_all add: pipe_ok_def)
  have fl: "mg_found_r s = fst (diff ?u ?v)" "mg_lt_r s = snd (diff ?u ?v)" using regs(1) by (metis fst_conv, metis snd_conv)
  have len: "sd_ukey_len (mg_side0 s) = sd_ukey_len (mg_side1 s) \<longleftrightarrow> length ?u = length ?v"
    "sd_ukey_len (mg_side0 s) < sd_ukey_len (mg_side1 s) \<longleftrightarrow> length ?u < length ?v"
    using k by (simp_all add: keeps_def word_unat_eq_iff word_less_nat_alt)
  have tag: "sd_tag (mg_side1 s) \<le> sd_tag (mg_side0 s) \<longleftrightarrow> key_tag (fst (hd ys)) \<le> key_tag (fst (hd xs))"
    using full_key_tag [OF f0] full_key_tag [OF f1] by (simp add: word_le_nat_alt)
  have src: "next_sel_src s \<longleftrightarrow> (if fst (diff ?u ?v) then \<not> snd (diff ?u ?v)
      else if length ?u \<noteq> length ?v then \<not> length ?u < length ?v else \<not> key_tag (fst (hd ys)) \<le> key_tag (fst (hd xs)))"
    using False b0(1) b1(1) regs(2) by (simp add: next_sel_src_def fl len tag)
  have "before (hd xs) (hd ys) \<longleftrightarrow> ?u < ?v \<or> ?u = ?v \<and> key_tag (fst (hd ys)) \<le> key_tag (fst (hd xs))"
    by (simp add: before_def)
  then have "next_sel_src s \<longleftrightarrow> \<not> before (hd xs) (hd ys)"
    unfolding src using diff_less [of ?u ?v] diff_equal [of ?u ?v]
    by (cases "fst (diff ?u ?v)"; cases "?u = ?v"; cases "length ?u = length ?v") simp_all
  then show ?thesis using False regs(2) by (simp add: next_sel_valid_def picks_second_def)
qed

lemma next_keep_correct:
  assumes pipe: "pipe_ok s" and ci: "mg_cmp_index s = 0" and f: "full_key r (side (next_sel_src s) s)"
    and prev: "prev_is s prev"
  shows "next_keep s \<longleftrightarrow> prev \<noteq> Some (user_key (fst r))"
proof -
  let ?b = "next_sel_src s" and ?u = "user_key (fst r)"
  have k: "keeps (side ?b s) ?u" using f by (rule full_key_keeps)
  have d: "(if ?b then mg_diff1_r s else mg_diff0_r s) = differs_from_prev ?b s"
    using pipe by (cases ?b) (simp_all add: pipe_ok_def)
  show ?thesis
  proof (cases prev)
    case None
    then show ?thesis using prev by (simp add: next_keep_def prev_is_def)
  next
    case (Some p)
    then have p: "mg_have_prev s" "unat (mg_prev_len s) = length p" "starts (mg_prev_mem s) (length p) p"
      using prev by (simp_all add: prev_is_def)
    have len: "sd_ukey_len (side ?b s) = mg_prev_len s \<longleftrightarrow> length ?u = length p"
      using k p(2) by (simp add: keeps_def word_unat_eq_iff)
    show ?thesis
    proof (cases "length ?u = length p")
      case True
      then show ?thesis using differs_from_prev_keys [OF k p(3) _ ci] len p(1) Some d by (simp add: next_keep_def) metis
    next
      case False
      then show ?thesis using len p(1) Some by (auto simp: next_keep_def)
    qed
  qed
qed

end
