(* ===== verification/Merger_Streams.thy ===== *)
theory Merger_Streams
  imports Merger_Compare
begin

text \<open>
  The streams between the decoders and the merger: when headers and beats present a list of records, and how
  far a record that is being read has come, in the registers and on the stream.
\<close>

section \<open>Streams of records\<close>

definition chunks :: "mg_beat list \<Rightarrow> byte list \<Rightarrow> bool" where
  "chunks xs bs \<longleftrightarrow> (\<forall>x\<in>set xs. dense x) \<and> concat (map beat_bytes xs) = bs"

definition ends_last :: "mg_beat list \<Rightarrow> bool" where
  "ends_last xs \<longleftrightarrow> (\<forall>x\<in>set (butlast xs). \<not> bt_last x) \<and> (xs \<noteq> [] \<longrightarrow> bt_last (last xs))"

inductive presents :: "mg_beat list \<Rightarrow> entry list \<Rightarrow> bool" where
  nothing: "presents [] []"
| more: "presents xs rs \<Longrightarrow> rec_ok r \<Longrightarrow> chunks kb (fst r) \<Longrightarrow> chunks vb (snd r) \<Longrightarrow> ends_last (kb @ vb) \<Longrightarrow>
    presents (kb @ vb @ xs) (r # rs)"

inductive_cases presents_ConsE: "presents ys (r # rs)"

definition delivers :: "feed \<Rightarrow> entry list \<Rightarrow> bool" where
  "delivers f rs \<longleftrightarrow> fd_hdrs f = map header_of rs \<and> presents (fd_beats f) rs"

text \<open>
  A record that is being read: \<open>n\<close> bytes of its key are in the registers, \<open>m\<close> bytes of its value have
  passed, the rest is what the source delivers next.
\<close>

definition in_flight :: "nat \<Rightarrow> nat \<Rightarrow> mg_side \<Rightarrow> feed \<Rightarrow> entry \<Rightarrow> entry list \<Rightarrow> bool" where
  "in_flight n m d f r rs \<longleftrightarrow> rec_ok r \<and> regs_of r d \<and> holds n (fst r) d \<and> fd_hdrs f = map header_of rs \<and>
     (sd_done d \<longrightarrow> rs = []) \<and>
     (\<exists>kb vb xs. fd_beats f = kb @ vb @ xs \<and> chunks kb (drop n (fst r)) \<and> chunks vb (drop m (snd r)) \<and>
        ends_last (kb @ vb) \<and> presents xs rs)"

lemma chunks_Nil_iff: "chunks xs [] \<longleftrightarrow> xs = []"
  by (cases xs) (auto simp: chunks_def dest: dense_nonempty)

lemma chunks_Cons:
  assumes "chunks (x # xs) bs"
  shows "dense x" "beat_bytes x = take (length (beat_bytes x)) bs" "length (beat_bytes x) \<le> length bs"
    "0 < length (beat_bytes x)" "chunks xs (drop (length (beat_bytes x)) bs)"
  using assms by (auto simp: chunks_def dense_def)

lemma ends_last_Cons: "ends_last (x # xs) \<Longrightarrow> ends_last xs \<and> bt_last x = (xs = [])"
  by (cases xs) (auto simp: ends_last_def)

lemma in_flightI:
  "rec_ok r \<Longrightarrow> regs_of r d \<Longrightarrow> holds n (fst r) d \<Longrightarrow> fd_hdrs f = map header_of rs \<Longrightarrow> (sd_done d \<Longrightarrow> rs = []) \<Longrightarrow>
    fd_beats f = kb @ vb @ xs \<Longrightarrow> chunks kb (drop n (fst r)) \<Longrightarrow> chunks vb (drop m (snd r)) \<Longrightarrow>
    ends_last (kb @ vb) \<Longrightarrow> presents xs rs \<Longrightarrow> in_flight n m d f r rs"
  by (auto simp: in_flight_def)

lemma in_flight_cong:
  assumes "in_flight n m d f r rs" and "regs_of r d' = regs_of r d" and "holds n (fst r) d' = holds n (fst r) d"
    and "sd_done d' \<Longrightarrow> sd_done d \<or> fd_hdrs f = []"
  shows "in_flight n m d' f r rs"
  using assms by (auto simp: in_flight_def)

lemma regs_holds_flags [simp]:
  "regs_of r (d\<lparr>sd_done := a\<rparr>) = regs_of r d" "regs_of r (d\<lparr>sd_buf := a\<rparr>) = regs_of r d" "regs_of r (d\<lparr>sd_pre := a\<rparr>) = regs_of r d"
  "holds n k (d\<lparr>sd_done := a\<rparr>) = holds n k d" "holds n k (d\<lparr>sd_buf := a\<rparr>) = holds n k d" "holds n k (d\<lparr>sd_pre := a\<rparr>) = holds n k d"
  by (simp_all add: regs_of_def holds_def captured_def)

lemma in_flight_flags [simp]:
  "in_flight n m (d\<lparr>sd_buf := a\<rparr>) f r rs = in_flight n m d f r rs"
  "in_flight n m (d\<lparr>sd_pre := a\<rparr>) f r rs = in_flight n m d f r rs"
  by (simp_all add: in_flight_def)

text \<open>Taking the header.\<close>

lemma header_of_ok:
  assumes "rec_ok r"
  shows "unat (fst (header_of r)) = length (fst r)" "unat (snd (header_of r)) = length (snd r)"
    "\<not> bad_header (fst (header_of r)) (snd (header_of r))" "unat (fst (header_of r) - 8) = length (fst r) - 8"
proof -
  show k: "unat (fst (header_of r)) = length (fst r)" and v: "unat (snd (header_of r)) = length (snd r)"
    using assms by (simp_all add: header_of_def rec_ok_def unat_of_nat)
  show s: "unat (fst (header_of r) - 8) = length (fst r) - 8"
    using assms by (subst unat_sub) (simp_all add: word_le_nat_alt k rec_ok_def)
  have "unat (ucast (fst (header_of r)) + ucast (snd (header_of r)) :: u32) = length (fst r) + length (snd r)"
    using assms by (simp add: unat_word_ariths k v rec_ok_def)
  then show "\<not> bad_header (fst (header_of r)) (snd (header_of r))"
    using assms by (auto simp: bad_header_def word_less_nat_alt k v s rec_ok_def mg_param_defs)
qed

lemma in_flight_start:
  assumes f: "delivers f (r # rs)" and d: "length (sd_mem d) = MAX_USER_KEY_BYTES" "sd_done d \<Longrightarrow> rs = []"
    and p: "pt_key_len p = fst (header_of r)" "pt_value_len p = snd (header_of r)"
  shows "in_flight 0 0 (load_header p d) (f\<lparr>fd_hdrs := tl (fd_hdrs f)\<rparr>) r rs"
    and "\<not> bad_header (pt_key_len p) (pt_value_len p)"
proof -
  have "presents (fd_beats f) (r # rs)" using f by (simp add: delivers_def)
  then obtain kb vb xs where b: "fd_beats f = kb @ vb @ xs" "presents xs rs" and r: "rec_ok r"
    and c: "chunks kb (fst r)" "chunks vb (snd r)" "ends_last (kb @ vb)"
    by (elim presents_ConsE) auto
  note h = header_of_ok [OF r]
  show "\<not> bad_header (pt_key_len p) (pt_value_len p)" using h(3) p by simp
  show "in_flight 0 0 (load_header p d) (f\<lparr>fd_hdrs := tl (fd_hdrs f)\<rparr>) r rs"
    using f r b c d h p unfolding in_flight_def
    by (auto simp: load_header_def regs_of_def holds_def delivers_def)
qed

text \<open>Capturing a beat of the key.\<close>

lemma in_flight_key:
  assumes fl: "in_flight n 0 d f r rs" and n: "n < length (fst r)" and ci: "unat ci = n"
  obtains x xs where "fd_beats f = x # xs" "dense x" "n + length (beat_bytes x) \<le> length (fst r)"
    "bt_last x \<longleftrightarrow> n + length (beat_bytes x) = length (fst r) \<and> snd r = []"
    "in_flight (n + length (beat_bytes x)) 0 (write_beat ci x d) (f\<lparr>fd_beats := xs\<rparr>) r rs"
proof -
  from fl obtain kb vb ys where b: "fd_beats f = kb @ vb @ ys" and c: "chunks kb (drop n (fst r))" "chunks vb (snd r)"
    "ends_last (kb @ vb)" "presents ys rs" and r: "rec_ok r" "regs_of r d" "holds n (fst r) d"
    "fd_hdrs f = map header_of rs" "sd_done d \<longrightarrow> rs = []"
    by (auto simp: in_flight_def)
  obtain x ks where kb: "kb = x # ks" using c(1) n by (cases kb) (auto simp: chunks_def)
  note ch = chunks_Cons [OF c(1) [unfolded kb]]
  note el = ends_last_Cons [OF c(3) [unfolded kb append_Cons]]
  let ?l = "length (beat_bytes x)"
  have le: "n + ?l \<le> length (fst r)" using ch(3) n by simp
  have "ks = [] \<longleftrightarrow> n + ?l = length (fst r)"
    using ch(5) le chunks_Nil_iff [of ks] by (auto simp: chunks_def)
  moreover have "vb = [] \<longleftrightarrow> snd r = []" using c(2) chunks_Nil_iff [of vb] by (auto simp: chunks_def)
  ultimately have last: "bt_last x \<longleftrightarrow> n + ?l = length (fst r) \<and> snd r = []" using el by simp
  have "holds (n + ?l) (fst r) (write_beat ci x d)"
    by (rule write_beat_holds [OF r(3) _ _ _ ci ch(1) le ch(2)]) (use r in \<open>auto simp: rec_ok_def regs_of_def\<close>)
  moreover have "regs_of r (write_beat ci x d)" using r(2) by (simp add: regs_of_def)
  moreover have "chunks ks (drop (n + ?l) (fst r))" using ch(5) by (simp add: add.commute)
  ultimately have fl': "in_flight (n + ?l) 0 (write_beat ci x d) (f\<lparr>fd_beats := ks @ vb @ ys\<rparr>) r rs"
    using r c el by (auto simp: in_flight_def)
  have "fd_beats f = x # ks @ vb @ ys" using b kb by simp
  from that [OF this ch(1) le last fl'] show ?thesis .
qed

text \<open>Passing a beat of the value.\<close>

lemma in_flight_value:
  assumes fl: "in_flight (length (fst r)) m d f r rs" and m: "m < length (snd r)"
  obtains x xs where "fd_beats f = x # xs" "dense x" "m + length (beat_bytes x) \<le> length (snd r)"
    "beat_bytes x = take (length (beat_bytes x)) (drop m (snd r))"
    "bt_last x \<longleftrightarrow> m + length (beat_bytes x) = length (snd r)"
    "in_flight (length (fst r)) (m + length (beat_bytes x)) d (f\<lparr>fd_beats := xs\<rparr>) r rs"
proof -
  from fl obtain kb vb ys where b: "fd_beats f = kb @ vb @ ys" and c: "chunks kb []" "chunks vb (drop m (snd r))"
    "ends_last (kb @ vb)" "presents ys rs" and r: "rec_ok r" "regs_of r d" "holds (length (fst r)) (fst r) d"
    "fd_hdrs f = map header_of rs" "sd_done d \<longrightarrow> rs = []"
    by (auto simp: in_flight_def)
  have kb: "kb = []" using c(1) by (simp add: chunks_Nil_iff)
  obtain x vs where vb: "vb = x # vs" using c(2) m by (cases vb) (auto simp: chunks_def)
  note ch = chunks_Cons [OF c(2) [unfolded vb]]
  note el = ends_last_Cons [OF c(3) [unfolded kb vb append_Nil]]
  let ?l = "length (beat_bytes x)"
  have le: "m + ?l \<le> length (snd r)" using ch(3) m by simp
  have v: "chunks vs (drop (m + ?l) (snd r))" using ch(5) by (simp add: add.commute)
  then have "vs = [] \<longleftrightarrow> m + ?l = length (snd r)"
    using le chunks_Nil_iff [of vs] by (auto simp: chunks_def)
  then have last: "bt_last x \<longleftrightarrow> m + ?l = length (snd r)" using el by simp
  have fl': "in_flight (length (fst r)) (m + ?l) d (f\<lparr>fd_beats := vs @ ys\<rparr>) r rs"
    using r c(4) el v by (intro in_flightI [where kb = "[]" and vb = vs and xs = ys]) (auto simp: chunks_Nil_iff)
  have "fd_beats f = x # vs @ ys" using b kb vb by simp
  from that [OF this ch(1) le ch(2) last fl'] show ?thesis .
qed

lemma in_flight_finished:
  assumes "in_flight (length (fst r)) (length (snd r)) d f r rs"
  shows "delivers f rs"
  using assms by (auto simp: in_flight_def delivers_def chunks_Nil_iff)

end
