(* ===== verification/Encoder_Rtl.thy ===== *)
theory Encoder_Rtl
  imports Merger_Streams
begin

text \<open>
  The block encoder \<^verbatim>\<open>organized/rtl_v2/cmpct_block_encoder.v\<close> with the parameters \<^verbatim>\<open>cmpct_pair_chain.v\<close> gives it (256
  restart points, blocks of 4096 bytes, keys of 64 bytes, a restart every 16 entries): all its registers, its wires
  and one rising clock edge, \<open>enc_step\<close>. Right-hand sides read the registers before the edge, a later
  assignment wins. The profiling counters are left out.

  A read outside a memory is undefined in Verilog, and a write outside it has no effect. \<open>ec_undef\<close> is no register: it is
  the arbitrary value that such reads return.
\<close>

section \<open>Parameters, inputs and registers\<close>

definition ENC_MAX_RECORDS :: nat where "ENC_MAX_RECORDS = 256"
definition ENC_MAX_BLOCK_BYTES :: u32 where "ENC_MAX_BLOCK_BYTES = 4096"
definition ENC_MAX_KEY_BYTES :: nat where "ENC_MAX_KEY_BYTES = 64"
definition ENC_RESTART_INTERVAL :: u32 where "ENC_RESTART_INTERVAL = 16"

lemmas enc_param_defs = ENC_MAX_RECORDS_def ENC_MAX_BLOCK_BYTES_def ENC_MAX_KEY_BYTES_def ENC_RESTART_INTERVAL_def

record enc_in =
  e_rstn :: bool
  e_clear :: bool
  e_start :: bool
  e_rec_valid :: bool
  e_key_len :: u16
  e_value_len :: u16
  e_source_done :: bool
  e_valid :: bool
  e_beat :: mg_beat
  e_ready :: bool

datatype enc_state =
    Ec_Idle | Ec_Wait_Record | Ec_Recv_Key | Ec_Write_Varints | Ec_Write_Varints_Ovf | Ec_Write_Value_Len
  | Ec_Write_Key | Ec_Stream_Value | Ec_Append_Restarts | Ec_Append_Rst_Cnt | Ec_Finish

record enc_counts =
  en_input :: u32
  en_encoded :: u32
  en_shared_total :: u32
  en_unshared_total :: u32
  en_value_total :: u32
  en_last_key_len :: u16
  en_last_value_len :: u16
  en_last_shared :: u16
  en_last_non_shared :: u16
  en_block_bytes :: u32

record encoder =
  ec_state :: enc_state
  ec_busy :: bool
  ec_done :: bool
  ec_error :: bool
  ec_counts :: enc_counts
  ec_restart_count :: u32
  ec_buf_a :: "byte list"
  ec_buf_b :: "byte list"
  ec_offsets :: "u32 list"
  ec_prev_sel :: bool
  ec_prev_len :: u16
  ec_key_len :: u16
  ec_value_len :: u16
  ec_shared :: u16
  ec_unshared :: u16
  ec_mismatch :: bool
  ec_restart :: bool
  ec_recv :: u16
  ec_write :: u32
  ec_copy :: u16
  ec_rem :: u32
  ec_emit_idx :: u32
  ec_since :: u32
  ec_done_seen :: bool
  ec_data :: u64
  ec_keep :: byte
  ec_valid :: bool
  ec_last :: bool
  ec_undef :: u64

definition buf_get :: "encoder \<Rightarrow> byte list \<Rightarrow> nat \<Rightarrow> byte" where
  "buf_get s m n = (if n < length m then m ! n else ucast (ec_undef s))"

definition off_get :: "encoder \<Rightarrow> u32 \<Rightarrow> u32" where
  "off_get s n = (if unat n < length (ec_offsets s) then ec_offsets s ! unat n else ucast (ec_undef s))"

text \<open>The buffer of the previous key and the one that is being filled.\<close>

definition prev_buf :: "encoder \<Rightarrow> byte list" where
  "prev_buf s = (if ec_prev_sel s then ec_buf_b s else ec_buf_a s)"

definition cur_buf :: "encoder \<Rightarrow> byte list" where
  "cur_buf s = (if ec_prev_sel s then ec_buf_a s else ec_buf_b s)"

section \<open>Varints\<close>

definition varint32_len :: "u32 \<Rightarrow> nat" where
  "varint32_len v = (if v < 128 then 1 else if v < 16384 then 2 else if v < 2097152 then 3 else if v < 268435456 then 4 else 5)"

text \<open>The bytes of \<^verbatim>\<open>varint32_pack\<close>: never more than four.\<close>

definition varint32_pack :: "u32 \<Rightarrow> byte list" where
  "varint32_pack v =
     (let len = varint32_len v;
          b = (\<lambda>k. ucast (drop_bit (7 * k) v AND 0x7F) :: byte);
          b0 = (if 1 < len then b 0 OR 0x80 else b 0);
          b1 = (if 2 < len then b 1 OR 0x80 else b 1);
          b2 = (if 3 < len then b 2 OR 0x80 else b 2);
          b3 = b 3
      in if len = 1 then [b0] else if len = 2 then [b0, b1] else if len = 3 then [b0, b1, b2] else [b0, b1, b2, b3])"

definition or_slice :: "nat \<Rightarrow> byte list \<Rightarrow> byte list \<Rightarrow> byte list" where
  "or_slice n ys xs = take n xs @ map2 (OR) (take (length ys) (drop n xs)) ys @ drop (n + length ys) xs"

definition pad5 :: "byte list \<Rightarrow> byte list" where
  "pad5 bs = bs @ replicate (5 - length bs) 0"

definition shared_vlen :: "encoder \<Rightarrow> nat" where "shared_vlen s = varint32_len (ucast (ec_shared s))"
definition unshared_vlen :: "encoder \<Rightarrow> nat" where "unshared_vlen s = varint32_len (ucast (ec_unshared s))"
definition value_vlen :: "encoder \<Rightarrow> nat" where "value_vlen s = varint32_len (ucast (ec_value_len s))"

definition p13_offs_v :: "encoder \<Rightarrow> nat" where "p13_offs_v s = shared_vlen s + unshared_vlen s"
definition p13_total :: "encoder \<Rightarrow> nat" where "p13_total s = (p13_offs_v s + value_vlen s) mod 16"

definition p13_combined :: "encoder \<Rightarrow> byte list" where
  "p13_combined s =
     (let c0 = pad5 (varint32_pack (ucast (ec_shared s))) @ replicate 10 0;
          c1 = or_slice (if shared_vlen s \<in> {1, 2, 3, 4} then shared_vlen s else 5) (pad5 (varint32_pack (ucast (ec_unshared s)))) c0
      in or_slice (if p13_offs_v s \<in> {2, 3, 4, 5, 6, 7, 8, 9} then p13_offs_v s else 10)
           (pad5 (varint32_pack (ucast (ec_value_len s)))) c1)"

definition p13_keep_lo :: "nat \<Rightarrow> byte" where
  "p13_keep_lo n =
     (if 8 \<le> n then 0xff else if n = 7 then 0x7f else if n = 6 then 0x3f else if n = 5 then 0x1f
      else if n = 4 then 0x0f else if n = 3 then 0x07 else if n = 2 then 0x03 else 0x01)"

definition p13_hi_len :: "encoder \<Rightarrow> nat" where "p13_hi_len s = (p13_total s + 16 - 8) mod 16"

definition p13_keep_hi :: "nat \<Rightarrow> byte" where
  "p13_keep_hi n =
     (if 7 \<le> n then 0x7f else if n = 6 then 0x3f else if n = 5 then 0x1f
      else if n = 4 then 0x0f else if n = 3 then 0x07 else if n = 2 then 0x03 else 0x01)"

section \<open>Wires\<close>

definition can_emit :: "enc_in \<Rightarrow> encoder \<Rightarrow> bool" where
  "can_emit i s \<longleftrightarrow> \<not> ec_valid s \<or> e_ready i"

definition enc_rec_ready :: "encoder \<Rightarrow> bool" where
  "enc_rec_ready s \<longleftrightarrow> ec_busy s \<and> \<not> ec_error s \<and> ec_state s = Ec_Wait_Record"

definition enc_axis_ready :: "enc_in \<Rightarrow> encoder \<Rightarrow> bool" where
  "enc_axis_ready i s \<longleftrightarrow> ec_busy s \<and> \<not> ec_error s \<and>
     (ec_state s = Ec_Recv_Key \<or> ec_state s = Ec_Stream_Value \<and> ec_rem s \<noteq> 0 \<and> can_emit i s)"

definition enc_offer :: "encoder \<Rightarrow> mg_beat option" where
  "enc_offer s =
     (if ec_valid s then Some \<lparr>bt_data = ec_data s, bt_keep = ec_keep s, bt_last = ec_last s\<rparr> else None)"

definition enc_accept :: "enc_in \<Rightarrow> encoder \<Rightarrow> bool" where
  "enc_accept i s \<longleftrightarrow> e_valid i \<and> enc_axis_ready i s"

definition byte_match :: "enc_in \<Rightarrow> encoder \<Rightarrow> nat \<Rightarrow> bool" where
  "byte_match i s k \<longleftrightarrow> bit (bt_keep (e_beat i)) k \<and> unat (ec_recv s) + k < unat (ec_prev_len s) \<and>
     byte_of (bt_data (e_beat i)) k = buf_get s (prev_buf s) (unat (ec_recv s) + k)"

definition first_mismatch :: "enc_in \<Rightarrow> encoder \<Rightarrow> nat" where
  "first_mismatch i s =
     (case find (\<lambda>k. \<not> byte_match i s k \<and> bit (bt_keep (e_beat i)) k) [0..<8] of Some k \<Rightarrow> k | None \<Rightarrow> 8)"

definition compares :: "enc_in \<Rightarrow> encoder \<Rightarrow> bool" where
  "compares i s \<longleftrightarrow> enc_accept i s \<and> ec_state s = Ec_Recv_Key \<and> \<not> ec_restart s \<and> \<not> ec_mismatch s"

definition new_shared :: "enc_in \<Rightarrow> encoder \<Rightarrow> u16" where
  "new_shared i s =
     (if compares i s
      then if first_mismatch i s < 8 then ec_recv s + of_nat (first_mismatch i s)
           else ec_recv s + of_nat (keep_count (bt_keep (e_beat i)))
      else ec_shared s)"

definition new_mismatch :: "enc_in \<Rightarrow> encoder \<Rightarrow> bool" where
  "new_mismatch i s \<longleftrightarrow> compares i s \<and> first_mismatch i s < 8 \<or> ec_mismatch s"

definition key_rem :: "encoder \<Rightarrow> u16" where "key_rem s = ec_unshared s - ec_copy s"

definition key_emit_bytes :: "encoder \<Rightarrow> nat" where
  "key_emit_bytes s = (if 8 \<le> key_rem s then 8 else unat (key_rem s))"

definition key_emit_keep :: "nat \<Rightarrow> byte" where
  "key_emit_keep n =
     (if n = 1 then 0b00000001 else if n = 2 then 0b00000011 else if n = 3 then 0b00000111 else if n = 4 then 0b00001111
      else if n = 5 then 0b00011111 else if n = 6 then 0b00111111 else if n = 7 then 0b01111111 else 0b11111111)"

definition key_emit_data :: "encoder \<Rightarrow> u64" where
  "key_emit_data s =
     pack_bytes (map (\<lambda>k. buf_get s (cur_buf s) (unat (ec_shared s + ec_copy s) + k)) [0..<8])"

section \<open>The states\<close>

definition no_enc_counts :: enc_counts where
  "no_enc_counts = \<lparr>en_input = 0, en_encoded = 0, en_shared_total = 0, en_unshared_total = 0, en_value_total = 0,
     en_last_key_len = 0, en_last_value_len = 0, en_last_shared = 0, en_last_non_shared = 0, en_block_bytes = 0\<rparr>"

definition enc_reset :: "encoder \<Rightarrow> encoder" where
  "enc_reset s = s\<lparr>ec_busy := False, ec_done := False, ec_error := False, ec_counts := no_enc_counts, ec_restart_count := 0,
     ec_state := Ec_Idle, ec_prev_sel := False, ec_prev_len := 0, ec_key_len := 0, ec_value_len := 0, ec_shared := 0,
     ec_unshared := 0, ec_mismatch := False, ec_restart := False, ec_recv := 0, ec_write := 0, ec_copy := 0, ec_rem := 0,
     ec_emit_idx := 0, ec_since := 0, ec_done_seen := False, ec_data := 0, ec_keep := 0, ec_valid := False, ec_last := False\<rparr>"

definition enc_begin :: "encoder \<Rightarrow> encoder" where
  "enc_begin t = t\<lparr>ec_busy := True, ec_done := False, ec_error := False, ec_counts := no_enc_counts, ec_restart_count := 1,
     ec_prev_sel := False, ec_prev_len := 0, ec_write := 0, ec_since := 0, ec_done_seen := False, ec_valid := False,
     ec_last := False, ec_offsets := (ec_offsets t)[0 := 0], ec_state := Ec_Wait_Record\<rparr>"

definition enc_fail :: "encoder \<Rightarrow> encoder" where
  "enc_fail t = t\<lparr>ec_busy := False, ec_error := True, ec_state := Ec_Idle\<rparr>"

definition enc_emit :: "u64 \<Rightarrow> byte \<Rightarrow> nat \<Rightarrow> encoder \<Rightarrow> encoder \<Rightarrow> encoder" where
  "enc_emit d k n s t = t\<lparr>ec_data := d, ec_keep := k, ec_valid := True, ec_write := ec_write s + of_nat n\<rparr>"

definition enc_record :: "enc_in \<Rightarrow> encoder \<Rightarrow> encoder \<Rightarrow> encoder" where
  "enc_record i s t =
     (let u = t\<lparr>ec_key_len := e_key_len i, ec_value_len := e_value_len i,
                ec_counts := (ec_counts s)\<lparr>en_input := en_input (ec_counts s) + 1\<rparr>\<rparr>;
          v = (if ec_since s = ENC_RESTART_INTERVAL
               then u\<lparr>ec_restart := True,
                      ec_offsets := (if unat (ec_restart_count s) < ENC_MAX_RECORDS
                                     then (ec_offsets s)[unat (ec_restart_count s) := ec_write s] else ec_offsets s),
                      ec_restart_count := ec_restart_count s + 1, ec_since := 0\<rparr>
               else u\<lparr>ec_restart := False\<rparr>);
          w = v\<lparr>ec_recv := 0, ec_shared := 0, ec_mismatch := False\<rparr>
      in if e_key_len i = 0 then w\<lparr>ec_unshared := 0, ec_state := Ec_Write_Varints\<rparr> else w\<lparr>ec_state := Ec_Recv_Key\<rparr>)"

definition enc_wait :: "enc_in \<Rightarrow> encoder \<Rightarrow> encoder \<Rightarrow> encoder" where
  "enc_wait i s t =
     (if e_rec_valid i \<and> enc_rec_ready s then enc_record i s t
      else if (e_source_done i \<or> ec_done_seen s) \<and> \<not> e_rec_valid i
      then t\<lparr>ec_emit_idx := 0, ec_state := Ec_Append_Restarts\<rparr>
      else t)"

definition write_lane :: "nat \<Rightarrow> mg_beat \<Rightarrow> nat \<Rightarrow> byte list \<Rightarrow> byte list" where
  "write_lane n x k m = (if bit (bt_keep x) k then m[n + k := byte_of (bt_data x) k] else m)"

definition write_lanes :: "nat \<Rightarrow> mg_beat \<Rightarrow> byte list \<Rightarrow> byte list" where
  "write_lanes n x m = fold (write_lane n x) [0..<8] m"

definition put_cur :: "byte list \<Rightarrow> encoder \<Rightarrow> encoder" where
  "put_cur m t = (if ec_prev_sel t then t\<lparr>ec_buf_a := m\<rparr> else t\<lparr>ec_buf_b := m\<rparr>)"

definition enc_recv :: "enc_in \<Rightarrow> encoder \<Rightarrow> encoder \<Rightarrow> encoder" where
  "enc_recv i s t =
     (if enc_accept i s
      then
        (let n = ec_recv s + of_nat (keep_count (bt_keep (e_beat i)));
             u = (put_cur (write_lanes (unat (ec_recv s)) (e_beat i) (cur_buf s)) t)
                 \<lparr>ec_shared := new_shared i s, ec_mismatch := new_mismatch i s, ec_recv := n\<rparr>
         in if ec_key_len s \<le> n
            then u\<lparr>ec_unshared := ec_key_len s - new_shared i s, ec_state := Ec_Write_Varints\<rparr>
            else u)
      else t)"

definition after_varints :: "encoder \<Rightarrow> encoder \<Rightarrow> encoder" where
  "after_varints s u =
     (let v = u\<lparr>ec_copy := 0\<rparr>
      in if ec_unshared s = 0 then v\<lparr>ec_rem := ucast (ec_value_len s), ec_state := Ec_Stream_Value\<rparr>
         else v\<lparr>ec_state := Ec_Write_Key\<rparr>)"

definition enc_varints :: "enc_in \<Rightarrow> encoder \<Rightarrow> encoder \<Rightarrow> encoder" where
  "enc_varints i s t =
     (if ENC_MAX_BLOCK_BYTES \<le> ec_write s then enc_fail t
      else if can_emit i s
      then
        (let lo = pack_bytes (take 8 (p13_combined s)); keep = p13_keep_lo (p13_total s)
         in if 8 < p13_total s
            then (enc_emit lo keep 8 s t)\<lparr>ec_state := Ec_Write_Varints_Ovf\<rparr>
            else after_varints s (enc_emit lo keep (p13_total s) s t))
      else t)"

text \<open>\<^verbatim>\<open>p13_data_hi\<close> are the bits 56 to 119 of the combined varints.\<close>

definition enc_varints_ovf :: "enc_in \<Rightarrow> encoder \<Rightarrow> encoder \<Rightarrow> encoder" where
  "enc_varints_ovf i s t =
     (if ENC_MAX_BLOCK_BYTES \<le> ec_write s then enc_fail t
      else if can_emit i s
      then after_varints s (enc_emit (pack_bytes (drop 7 (p13_combined s))) (p13_keep_hi (p13_hi_len s)) (p13_hi_len s) s t)
      else t)"

definition enc_key :: "enc_in \<Rightarrow> encoder \<Rightarrow> encoder \<Rightarrow> encoder" where
  "enc_key i s t =
     (if ec_unshared s \<le> ec_copy s then t\<lparr>ec_rem := ucast (ec_value_len s), ec_state := Ec_Stream_Value\<rparr>
      else if ENC_MAX_BLOCK_BYTES \<le> ec_write s then enc_fail t
      else if can_emit i s
      then (enc_emit (key_emit_data s) (key_emit_keep (key_emit_bytes s)) (key_emit_bytes s) s t)
           \<lparr>ec_copy := ec_copy s + of_nat (key_emit_bytes s)\<rparr>
      else t)"

definition enc_entry :: "encoder \<Rightarrow> encoder \<Rightarrow> encoder" where
  "enc_entry s t =
     (let c = ec_counts s
      in t\<lparr>ec_counts := c\<lparr>en_encoded := en_encoded c + 1, en_shared_total := en_shared_total c + ucast (ec_shared s),
             en_unshared_total := en_unshared_total c + ucast (ec_unshared s), en_value_total := en_value_total c + ucast (ec_value_len s),
             en_last_key_len := ec_key_len s, en_last_value_len := ec_value_len s, en_last_shared := ec_shared s,
             en_last_non_shared := ec_unshared s\<rparr>,
           ec_prev_len := ec_key_len s, ec_prev_sel := \<not> ec_prev_sel s, ec_since := ec_since s + 1,
           ec_state := Ec_Wait_Record\<rparr>)"

definition enc_value :: "enc_in \<Rightarrow> encoder \<Rightarrow> encoder \<Rightarrow> encoder" where
  "enc_value i s t =
     (if ec_rem s = 0 then enc_entry s t
      else if enc_accept i s
      then if ENC_MAX_BLOCK_BYTES \<le> ec_write s then enc_fail t
           else (enc_emit (bt_data (e_beat i)) (bt_keep (e_beat i)) (keep_count (bt_keep (e_beat i))) s t)
                \<lparr>ec_rem := ec_rem s - of_nat (keep_count (bt_keep (e_beat i)))\<rparr>
      else t)"

definition enc_restarts :: "enc_in \<Rightarrow> encoder \<Rightarrow> encoder \<Rightarrow> encoder" where
  "enc_restarts i s t =
     (if ec_restart_count s \<le> ec_emit_idx s then t\<lparr>ec_state := Ec_Append_Rst_Cnt\<rparr>
      else if can_emit i s
      then if ec_restart_count s \<le> ec_emit_idx s + 1
           then (enc_emit (ucast (off_get s (ec_emit_idx s))) 0b00001111 4 s t)\<lparr>ec_emit_idx := ec_emit_idx s + 1\<rparr>
           else (enc_emit (push_bit 32 (ucast (off_get s (ec_emit_idx s + 1))) OR ucast (off_get s (ec_emit_idx s))) 0b11111111 8 s t)
                \<lparr>ec_emit_idx := ec_emit_idx s + 2\<rparr>
      else t)"

definition enc_count :: "enc_in \<Rightarrow> encoder \<Rightarrow> encoder \<Rightarrow> encoder" where
  "enc_count i s t =
     (if can_emit i s
      then t\<lparr>ec_data := ucast (ec_restart_count s), ec_keep := 0b00001111, ec_valid := True, ec_last := True,
             ec_counts := (ec_counts s)\<lparr>en_block_bytes := ec_write s + 4\<rparr>, ec_state := Ec_Finish\<rparr>
      else t)"

definition enc_finish :: "encoder \<Rightarrow> encoder \<Rightarrow> encoder" where
  "enc_finish s t = (if \<not> ec_valid s then t\<lparr>ec_busy := False, ec_done := True, ec_last := False, ec_state := Ec_Idle\<rparr> else t)"

definition enc_defaults :: "enc_in \<Rightarrow> encoder \<Rightarrow> encoder" where
  "enc_defaults i s = s\<lparr>ec_done := False, ec_done_seen := e_source_done i \<or> ec_done_seen s,
     ec_valid := ec_valid s \<and> \<not> e_ready i\<rparr>"

definition enc_case :: "enc_in \<Rightarrow> encoder \<Rightarrow> encoder \<Rightarrow> encoder" where
  "enc_case i s t =
     (case ec_state s of
        Ec_Idle \<Rightarrow> if e_start i \<and> \<not> ec_busy s then enc_begin t else t
      | Ec_Wait_Record \<Rightarrow> enc_wait i s t
      | Ec_Recv_Key \<Rightarrow> enc_recv i s t
      | Ec_Write_Varints \<Rightarrow> enc_varints i s t
      | Ec_Write_Varints_Ovf \<Rightarrow> enc_varints_ovf i s t
      | Ec_Write_Value_Len \<Rightarrow> enc_fail t
      | Ec_Write_Key \<Rightarrow> enc_key i s t
      | Ec_Stream_Value \<Rightarrow> enc_value i s t
      | Ec_Append_Restarts \<Rightarrow> enc_restarts i s t
      | Ec_Append_Rst_Cnt \<Rightarrow> enc_count i s t
      | Ec_Finish \<Rightarrow> enc_finish s t)"

definition enc_step :: "enc_in \<Rightarrow> encoder \<Rightarrow> encoder" where
  "enc_step i s = (if \<not> e_rstn i \<or> e_clear i then enc_reset s else enc_case i s (enc_defaults i s))"

end
