(* ===== verification/Encoder_Bounds.thy ===== *)
theory Encoder_Bounds
  imports Encoder_Rtl
begin

text \<open>
  How large a block the encoder can report, whatever is on its inputs: it tests the write index before every word
  of an entry, so the last of them may pass the limit, and it does not test it at all in the restart array. The number
  of restart points is bounded by the entries, which take at least three bytes each.
\<close>

section \<open>The words of an entry\<close>

lemma vlen_bounds: "1 \<le> varint32_len v" "varint32_len v \<le> 5"
  by (simp_all add: varint32_len_def)

lemma p13_bounds: "3 \<le> p13_total s" "p13_total s \<le> 15" "8 < p13_total s \<Longrightarrow> p13_hi_len s = p13_total s - 8"
proof -
  have "3 \<le> p13_offs_v s + value_vlen s" "p13_offs_v s + value_vlen s \<le> 15"
    using vlen_bounds [of "ucast (ec_shared s)"] vlen_bounds [of "ucast (ec_unshared s)"] vlen_bounds [of "ucast (ec_value_len s)"]
    unfolding p13_offs_v_def shared_vlen_def unshared_vlen_def value_vlen_def by linarith+
  then have "p13_total s = p13_offs_v s + value_vlen s" "3 \<le> p13_offs_v s + value_vlen s" "p13_offs_v s + value_vlen s \<le> 15"
    by (simp_all add: p13_total_def)
  then show t: "3 \<le> p13_total s" "p13_total s \<le> 15" by simp_all
  assume "8 < p13_total s"
  then show "p13_hi_len s = p13_total s - 8"
    using t mod_if [of "p13_total s + 16 - 8" 16] mod_less [of "p13_total s - 8" 16] by (simp add: p13_hi_len_def)
qed

lemma key_emit_le: "key_emit_bytes s \<le> 8"
  by (simp add: key_emit_bytes_def word_le_nat_alt)

lemma keep_le: "keep_count k \<le> 8"
  unfolding keep_count_def by (rule order_trans [OF length_filter_le]) simp

section \<open>The invariant\<close>

text \<open>The limit with the word that passes it, 86 restart points and their count.\<close>

definition ENC_BLOCK_BOUND :: nat where "ENC_BLOCK_BOUND = 4451"

text \<open>
  By state: \<open>e\<close> entries are complete, \<open>z\<close> of them since the last of \<open>r\<close> restart points, \<open>w\<close> bytes are written, \<open>k\<close> restart points
  of them, \<open>n\<close> is the length of the three varints.
\<close>

definition entries_at :: "nat \<Rightarrow> nat \<Rightarrow> nat \<Rightarrow> bool" where
  "entries_at e z r \<longleftrightarrow> 16 * r + z \<le> e + 16 \<and> 3 * e \<le> 4103"

fun size_at :: "enc_state \<Rightarrow> nat \<Rightarrow> nat \<Rightarrow> nat \<Rightarrow> nat \<Rightarrow> nat \<Rightarrow> nat \<Rightarrow> bool" where
  "size_at Ec_Wait_Record e z r w k n \<longleftrightarrow> entries_at e z r \<and> 3 * e \<le> w \<and> w \<le> 4103"
| "size_at Ec_Recv_Key e z r w k n \<longleftrightarrow> entries_at e z r \<and> 3 * e \<le> w \<and> w \<le> 4103"
| "size_at Ec_Write_Varints e z r w k n \<longleftrightarrow> entries_at e z r \<and> 3 * e \<le> w \<and> w \<le> 4103"
| "size_at Ec_Write_Varints_Ovf e z r w k n \<longleftrightarrow> entries_at e z r \<and> 3 * e + 8 \<le> w \<and> w \<le> 4103 \<and> 8 < n"
| "size_at Ec_Write_Key e z r w k n \<longleftrightarrow> entries_at e z r \<and> 3 * e + 3 \<le> w \<and> w \<le> 4103"
| "size_at Ec_Stream_Value e z r w k n \<longleftrightarrow> entries_at e z r \<and> 3 * e + 3 \<le> w \<and> w \<le> 4103"
| "size_at Ec_Append_Restarts e z r w k n \<longleftrightarrow> entries_at e z r \<and> w \<le> 4103 + 4 * k \<and> k \<le> r"
| "size_at Ec_Append_Rst_Cnt e z r w k n \<longleftrightarrow> entries_at e z r \<and> w \<le> 4103 + 4 * r"
| "size_at _ e z r w k n \<longleftrightarrow> True"

definition size_now :: "encoder \<Rightarrow> bool" where
  "size_now s \<longleftrightarrow> size_at (ec_state s) (unat (en_encoded (ec_counts s))) (unat (ec_since s)) (unat (ec_restart_count s))
     (unat (ec_write s)) (unat (ec_emit_idx s)) (p13_total s)"

definition size_ok :: "encoder \<Rightarrow> bool" where
  "size_ok s \<longleftrightarrow> unat (en_block_bytes (ec_counts s)) \<le> ENC_BLOCK_BOUND \<and> size_now s"

lemma restarts_bound: "entries_at e z r \<Longrightarrow> r \<le> 86"
  unfolding entries_at_def by linarith

lemma write_add: "unat (w :: u32) \<le> 5000 \<Longrightarrow> n \<le> 15 \<Longrightarrow> unat (w + of_nat n) = unat w + n"
  by (simp add: unat_word_ariths unat_of_nat)

lemma below_limit: "\<not> ENC_MAX_BLOCK_BYTES \<le> w \<Longrightarrow> unat w < 4096"
  by (simp add: ENC_MAX_BLOCK_BYTES_def word_le_nat_alt)

lemma p13_total_cong:
  "ec_shared t = ec_shared s \<Longrightarrow> ec_unshared t = ec_unshared s \<Longrightarrow> ec_value_len t = ec_value_len s \<Longrightarrow> p13_total t = p13_total s"
  by (simp add: p13_total_def p13_offs_v_def shared_vlen_def unshared_vlen_def value_vlen_def)

section \<open>Every edge keeps it\<close>

lemma defaults_sizes [simp]:
  "ec_counts (enc_defaults i s) = ec_counts s" "ec_state (enc_defaults i s) = ec_state s" "ec_since (enc_defaults i s) = ec_since s"
  "ec_restart_count (enc_defaults i s) = ec_restart_count s" "ec_write (enc_defaults i s) = ec_write s"
  "ec_emit_idx (enc_defaults i s) = ec_emit_idx s" "ec_shared (enc_defaults i s) = ec_shared s"
  "ec_unshared (enc_defaults i s) = ec_unshared s" "ec_value_len (enc_defaults i s) = ec_value_len s"
  by (simp_all add: enc_defaults_def)

lemma size_defaults: "size_now (enc_defaults i s) = size_now s"
  using p13_total_cong [of "enc_defaults i s" s] by (simp add: size_now_def)

lemma size_idle: "ec_state t \<in> {Ec_Idle, Ec_Finish} \<Longrightarrow> size_now t"
  by (auto simp: size_now_def)

lemma size_fail: "size_now (enc_fail t)"
  by (rule size_idle) (simp add: enc_fail_def)

lemma after_varints_sizes [simp]:
  "ec_counts (after_varints s u) = ec_counts u" "ec_since (after_varints s u) = ec_since u"
  "ec_restart_count (after_varints s u) = ec_restart_count u" "ec_write (after_varints s u) = ec_write u"
  "ec_emit_idx (after_varints s u) = ec_emit_idx u" "ec_state (after_varints s u) \<in> {Ec_Stream_Value, Ec_Write_Key}"
  by (simp_all add: after_varints_def Let_def)

lemma size_after_varints:
  assumes "entries_at (unat (en_encoded (ec_counts u))) (unat (ec_since u)) (unat (ec_restart_count u))"
    and "3 * unat (en_encoded (ec_counts u)) + 3 \<le> unat (ec_write u)" and "unat (ec_write u) \<le> 4103"
  shows "size_now (after_varints s u)"
  using assms after_varints_sizes(6) [of s u] by (auto simp: size_now_def)

lemma wait_size:
  assumes st: "ec_state s = Ec_Wait_Record" and inv: "size_now s"
  shows "size_now (enc_wait i s (enc_defaults i s))"
proof -
  let ?e = "unat (en_encoded (ec_counts s))" and ?z = "unat (ec_since s)" and ?r = "unat (ec_restart_count s)" and ?w = "unat (ec_write s)"
  have b: "entries_at ?e ?z ?r" "3 * ?e \<le> ?w" "?w \<le> 4103" using inv st by (simp_all add: size_now_def)
  have r: "?r \<le> 86" by (rule restarts_bound [OF b(1)])
  let ?v = "enc_record i s (enc_defaults i s)"
  have v: "ec_counts ?v = (ec_counts s)\<lparr>en_input := en_input (ec_counts s) + 1\<rparr>" "ec_write ?v = ec_write s"
    "ec_state ?v \<in> {Ec_Write_Varints, Ec_Recv_Key}"
    "ec_since ?v = (if ec_since s = ENC_RESTART_INTERVAL then 0 else ec_since s)"
    "ec_restart_count ?v = (if ec_since s = ENC_RESTART_INTERVAL then ec_restart_count s + 1 else ec_restart_count s)"
    by (simp_all add: enc_record_def Let_def)
  have z: "?z = 16" if "ec_since s = ENC_RESTART_INTERVAL" using that by (simp add: ENC_RESTART_INTERVAL_def)
  have "unat (ec_restart_count s + 1) = ?r + 1" using r by (simp add: unat_word_ariths)
  then have "entries_at ?e (unat (ec_since ?v)) (unat (ec_restart_count ?v))"
    using b(1) z by (auto simp: entries_at_def v)
  then have "size_now ?v" using b v(1-3) by (auto simp: size_now_def)
  moreover have "size_now ((enc_defaults i s)\<lparr>ec_emit_idx := 0, ec_state := Ec_Append_Restarts\<rparr>)"
    using b by (simp add: size_now_def)
  ultimately show ?thesis using inv by (simp add: enc_wait_def size_defaults)
qed

lemma recv_size:
  assumes st: "ec_state s = Ec_Recv_Key" and inv: "size_now s"
  shows "size_now (enc_recv i s (enc_defaults i s))"
proof -
  let ?v = "enc_recv i s (enc_defaults i s)"
  have "ec_counts ?v = ec_counts s" "ec_write ?v = ec_write s" "ec_since ?v = ec_since s" "ec_restart_count ?v = ec_restart_count s"
    "ec_emit_idx ?v = ec_emit_idx s" "ec_state ?v \<in> {Ec_Recv_Key, Ec_Write_Varints}"
    using st by (simp_all add: enc_recv_def Let_def put_cur_def)
  then show ?thesis using inv st by (auto simp: size_now_def)
qed

lemma varints_size:
  assumes st: "ec_state s = Ec_Write_Varints" and inv: "size_now s"
  shows "size_now (enc_varints i s (enc_defaults i s))"
proof (cases "ENC_MAX_BLOCK_BYTES \<le> ec_write s \<or> \<not> can_emit i s")
  case True
  then show ?thesis using inv by (auto simp: enc_varints_def size_fail size_defaults)
next
  case False
  let ?e = "unat (en_encoded (ec_counts s))" and ?w = "unat (ec_write s)"
  let ?d = "pack_bytes (take 8 (p13_combined s))" and ?k = "p13_keep_lo (p13_total s)" and ?t = "enc_defaults i s"
  have b: "entries_at ?e (unat (ec_since s)) (unat (ec_restart_count s))" "3 * ?e \<le> ?w" using inv st by (simp_all add: size_now_def)
  have lt: "?w < 4096" using False below_limit by blast
  show ?thesis
  proof (cases "8 < p13_total s")
    case True
    let ?u = "(enc_emit ?d ?k 8 s ?t)\<lparr>ec_state := Ec_Write_Varints_Ovf\<rparr>"
    have "unat (ec_write s + of_nat 8) = ?w + 8" by (rule write_add) (use lt in simp_all)
    then have "unat (ec_write ?u) = ?w + 8" by (simp add: enc_emit_def)
    moreover have "p13_total ?u = p13_total s" by (rule p13_total_cong) (simp_all add: enc_emit_def)
    ultimately have "size_now ?u" using b lt True by (simp add: size_now_def) (simp add: enc_emit_def)
    then show ?thesis using True False by (simp add: enc_varints_def Let_def)
  next
    case few: False
    let ?u = "enc_emit ?d ?k (p13_total s) s ?t"
    have "unat (ec_write s + of_nat (p13_total s)) = ?w + p13_total s" by (rule write_add) (use lt p13_bounds(2) in simp_all)
    then have w: "unat (ec_write ?u) = ?w + p13_total s" by (simp add: enc_emit_def)
    have "size_now (after_varints s ?u)"
      by (rule size_after_varints) (use b w lt few p13_bounds(1) [of s] in \<open>simp_all only: w\<close>, simp_all add: enc_emit_def)
    then show ?thesis using few False by (simp add: enc_varints_def Let_def)
  qed
qed

lemma ovf_size:
  assumes st: "ec_state s = Ec_Write_Varints_Ovf" and inv: "size_now s"
  shows "size_now (enc_varints_ovf i s (enc_defaults i s))"
proof (cases "ENC_MAX_BLOCK_BYTES \<le> ec_write s \<or> \<not> can_emit i s")
  case True
  then show ?thesis using inv by (auto simp: enc_varints_ovf_def size_fail size_defaults)
next
  case False
  let ?e = "unat (en_encoded (ec_counts s))" and ?w = "unat (ec_write s)"
  have b: "entries_at ?e (unat (ec_since s)) (unat (ec_restart_count s))" "3 * ?e + 8 \<le> ?w" "8 < p13_total s"
    using inv st by (simp_all add: size_now_def)
  have lt: "?w < 4096" using False below_limit by blast
  have n: "p13_hi_len s \<le> 7" using p13_bounds(2) [of s] p13_bounds(3) [OF b(3)] by simp
  let ?u = "enc_emit (pack_bytes (drop 7 (p13_combined s))) (p13_keep_hi (p13_hi_len s)) (p13_hi_len s) s (enc_defaults i s)"
  have "unat (ec_write s + of_nat (p13_hi_len s)) = ?w + p13_hi_len s" by (rule write_add) (use lt n in simp_all)
  then have w: "unat (ec_write ?u) = ?w + p13_hi_len s" by (simp add: enc_emit_def)
  have "size_now (after_varints s ?u)"
    by (rule size_after_varints) (use b w lt n in \<open>simp_all only: w\<close>, simp_all add: enc_emit_def)
  then show ?thesis using False by (simp add: enc_varints_ovf_def)
qed

lemma key_size:
  assumes st: "ec_state s = Ec_Write_Key" and inv: "size_now s"
  shows "size_now (enc_key i s (enc_defaults i s))"
proof -
  let ?e = "unat (en_encoded (ec_counts s))" and ?w = "unat (ec_write s)" and ?n = "key_emit_bytes s"
  have b: "entries_at ?e (unat (ec_since s)) (unat (ec_restart_count s))" "3 * ?e + 3 \<le> ?w" "?w \<le> 4103"
    using inv st by (simp_all add: size_now_def)
  have "size_now ((enc_defaults i s)\<lparr>ec_rem := ucast (ec_value_len s), ec_state := Ec_Stream_Value\<rparr>)"
    using b by (simp add: size_now_def)
  moreover have "size_now ((enc_emit d k ?n s (enc_defaults i s))\<lparr>ec_copy := c\<rparr>)" if "\<not> ENC_MAX_BLOCK_BYTES \<le> ec_write s" for d k c
  proof -
    have lt: "?w < 4096" by (rule below_limit [OF that])
    have "unat (ec_write s + of_nat ?n) = ?w + ?n" by (rule write_add) (use lt key_emit_le [of s] in simp_all)
    then show ?thesis using b lt st key_emit_le [of s] by (simp add: size_now_def enc_emit_def)
  qed
  ultimately show ?thesis using inv by (simp add: enc_key_def size_fail size_defaults)
qed

lemma value_size:
  assumes st: "ec_state s = Ec_Stream_Value" and inv: "size_now s"
  shows "size_now (enc_value i s (enc_defaults i s))"
proof -
  let ?e = "unat (en_encoded (ec_counts s))" and ?w = "unat (ec_write s)" and ?n = "keep_count (bt_keep (e_beat i))"
  have b: "entries_at ?e (unat (ec_since s)) (unat (ec_restart_count s))" "3 * ?e + 3 \<le> ?w" "?w \<le> 4103"
    using inv st by (simp_all add: size_now_def)
  have "unat (en_encoded (ec_counts s) + 1) = ?e + 1" "unat (ec_since s + 1) = unat (ec_since s) + 1"
    using b by (simp_all add: unat_word_ariths entries_at_def)
  then have "size_now (enc_entry s (enc_defaults i s))"
    using b by (simp add: size_now_def enc_entry_def Let_def entries_at_def)
  moreover have "size_now ((enc_emit d k ?n s (enc_defaults i s))\<lparr>ec_rem := c\<rparr>)" if "\<not> ENC_MAX_BLOCK_BYTES \<le> ec_write s" for d k c
  proof -
    have lt: "?w < 4096" by (rule below_limit [OF that])
    have "unat (ec_write s + of_nat ?n) = ?w + ?n" by (rule write_add) (use lt order_trans [OF keep_le, of 15] in simp_all)
    then show ?thesis using b lt st keep_le [of "bt_keep (e_beat i)"] by (simp add: size_now_def enc_emit_def)
  qed
  ultimately show ?thesis using inv by (simp add: enc_value_def size_fail size_defaults)
qed

lemma restarts_size:
  assumes st: "ec_state s = Ec_Append_Restarts" and inv: "size_now s"
  shows "size_now (enc_restarts i s (enc_defaults i s))"
proof -
  let ?e = "unat (en_encoded (ec_counts s))" and ?w = "unat (ec_write s)" and ?r = "unat (ec_restart_count s)" and ?k = "unat (ec_emit_idx s)"
  have b: "entries_at ?e (unat (ec_since s)) ?r" "?w \<le> 4103 + 4 * ?k" "?k \<le> ?r" using inv st by (simp_all add: size_now_def)
  have r: "?r \<le> 86" by (rule restarts_bound [OF b(1)])
  have "size_now ((enc_defaults i s)\<lparr>ec_state := Ec_Append_Rst_Cnt\<rparr>)" using b by (simp add: size_now_def)
  moreover have "size_now ((enc_emit d m (4 * n) s (enc_defaults i s))\<lparr>ec_emit_idx := ec_emit_idx s + of_nat n\<rparr>)"
    if "n \<le> 2" "?k + n \<le> ?r" for d m n
  proof -
    have "unat (ec_write s + of_nat (4 * n)) = ?w + 4 * n" by (rule write_add) (use b r that in simp_all)
    moreover have "unat (ec_emit_idx s + of_nat n) = ?k + n" using b r that by (simp add: unat_word_ariths unat_of_nat)
    ultimately show ?thesis using b that st by (simp add: size_now_def enc_emit_def)
  qed
  note emit = this [of 1, simplified] this [of 2, simplified]
  moreover have "?k + 1 \<le> ?r" if "\<not> ec_restart_count s \<le> ec_emit_idx s" using that by (simp add: word_le_nat_alt)
  moreover have "?k + 2 \<le> ?r" if "\<not> ec_restart_count s \<le> ec_emit_idx s + 1" "\<not> ec_restart_count s \<le> ec_emit_idx s"
  proof -
    have "unat (ec_emit_idx s + 1) = ?k + 1" using b r by (simp add: unat_word_ariths)
    then show ?thesis using that by (simp add: word_le_nat_alt)
  qed
  ultimately show ?thesis using inv by (simp add: enc_restarts_def size_defaults)
qed

lemma count_size:
  assumes st: "ec_state s = Ec_Append_Rst_Cnt" and inv: "size_ok s"
  shows "size_ok (enc_count i s (enc_defaults i s))"
proof -
  let ?w = "unat (ec_write s)" and ?r = "unat (ec_restart_count s)"
  have now: "size_now s" and bytes: "unat (en_block_bytes (ec_counts s)) \<le> ENC_BLOCK_BOUND" using inv by (simp_all add: size_ok_def)
  have b: "entries_at (unat (en_encoded (ec_counts s))) (unat (ec_since s)) ?r" "?w \<le> 4103 + 4 * ?r"
    using now st by (simp_all add: size_now_def)
  have "unat (ec_write s + 4) = ?w + 4" using b(2) restarts_bound [OF b(1)] by (simp add: unat_word_ariths)
  then have "unat (ec_write s + 4) \<le> ENC_BLOCK_BOUND"
    using b(2) restarts_bound [OF b(1)] by (simp add: ENC_BLOCK_BOUND_def)
  then show ?thesis using bytes now by (simp add: size_ok_def enc_count_def size_defaults size_idle)
qed

lemma bytes_kept:
  assumes "ec_state s \<notin> {Ec_Idle, Ec_Append_Rst_Cnt}"
  shows "en_block_bytes (ec_counts (enc_case i s (enc_defaults i s))) = en_block_bytes (ec_counts s)"
  using assms
  by (cases "ec_state s")
    (simp_all add: enc_case_def enc_wait_def enc_record_def enc_recv_def put_cur_def enc_varints_def enc_varints_ovf_def enc_key_def
      enc_value_def enc_entry_def enc_restarts_def enc_finish_def enc_fail_def enc_emit_def Let_def)

lemma idle_begin_size: "size_ok (enc_begin t)"
  by (simp add: size_ok_def size_now_def enc_begin_def no_enc_counts_def entries_at_def)

lemma size_step: "size_ok s \<Longrightarrow> size_ok (enc_step i s)"
proof -
  assume inv: "size_ok s"
  then have now: "size_now s" and bytes: "unat (en_block_bytes (ec_counts s)) \<le> ENC_BLOCK_BOUND" by (simp_all add: size_ok_def)
  let ?t = "enc_defaults i s"
  have def: "size_ok ?t" using inv by (simp add: size_ok_def size_defaults)
  have keep: "size_ok (enc_case i s ?t)" if "ec_state s \<notin> {Ec_Idle, Ec_Append_Rst_Cnt}" "size_now (enc_case i s ?t)"
    using that bytes bytes_kept [OF that(1), of i] by (simp add: size_ok_def)
  have run: "size_ok (enc_case i s ?t)"
  proof (cases "ec_state s")
    case Ec_Idle
    then show ?thesis using def idle_begin_size by (simp add: enc_case_def)
  next
    case Ec_Append_Rst_Cnt
    then show ?thesis using count_size [OF Ec_Append_Rst_Cnt inv] by (simp add: enc_case_def)
  next
    case Ec_Wait_Record
    show ?thesis by (rule keep) (use wait_size [OF Ec_Wait_Record now] in \<open>simp_all add: Ec_Wait_Record enc_case_def\<close>)
  next
    case Ec_Recv_Key
    show ?thesis by (rule keep) (use recv_size [OF Ec_Recv_Key now] in \<open>simp_all add: Ec_Recv_Key enc_case_def\<close>)
  next
    case Ec_Write_Varints
    show ?thesis by (rule keep) (use varints_size [OF Ec_Write_Varints now] in \<open>simp_all add: Ec_Write_Varints enc_case_def\<close>)
  next
    case Ec_Write_Varints_Ovf
    show ?thesis by (rule keep) (use ovf_size [OF Ec_Write_Varints_Ovf now] in \<open>simp_all add: Ec_Write_Varints_Ovf enc_case_def\<close>)
  next
    case Ec_Write_Key
    show ?thesis by (rule keep) (use key_size [OF Ec_Write_Key now] in \<open>simp_all add: Ec_Write_Key enc_case_def\<close>)
  next
    case Ec_Stream_Value
    show ?thesis by (rule keep) (use value_size [OF Ec_Stream_Value now] in \<open>simp_all add: Ec_Stream_Value enc_case_def\<close>)
  next
    case Ec_Append_Restarts
    show ?thesis by (rule keep) (use restarts_size [OF Ec_Append_Restarts now] in \<open>simp_all add: Ec_Append_Restarts enc_case_def\<close>)
  next
    case Ec_Write_Value_Len
    show ?thesis by (rule keep) (simp_all add: Ec_Write_Value_Len enc_case_def size_fail)
  next
    case Ec_Finish
    have "size_now (enc_finish s ?t)" using now by (simp add: enc_finish_def size_defaults size_idle)
    then show ?thesis by (intro keep) (simp_all add: Ec_Finish enc_case_def)
  qed
  have "size_ok (enc_reset s)" by (simp add: size_ok_def enc_reset_def no_enc_counts_def size_now_def)
  then show ?thesis using run by (simp add: enc_step_def)
qed

lemma size_run: "size_ok s \<Longrightarrow> size_ok (fold enc_step is s)"
  by (induction "is" arbitrary: s) (simp_all add: size_step)

text \<open>The size a chain reports: what a run of the encoder from reset can leave in \<^verbatim>\<open>output_block_bytes\<close>.\<close>

definition reported :: "enc_in list \<Rightarrow> encoder \<Rightarrow> u32" where
  "reported is s = en_block_bytes (ec_counts (fold enc_step is (enc_reset s)))"

lemma reported_bound: "unat (reported is s) \<le> ENC_BLOCK_BOUND"
proof -
  have "size_ok (enc_reset s)" by (simp add: size_ok_def enc_reset_def no_enc_counts_def size_now_def)
  from size_run [OF this, of "is"] show ?thesis by (simp add: reported_def size_ok_def)
qed

section \<open>A block that is larger than the limit\<close>

text \<open>One record with an eight byte key and a value of 4088 bytes, in an encoder that nobody stalls.\<close>

definition enc_idle_in :: enc_in where
  "enc_idle_in = \<lparr>e_rstn = True, e_clear = False, e_start = False, e_rec_valid = False, e_key_len = 0, e_value_len = 0,
     e_source_done = False, e_valid = False, e_beat = \<lparr>bt_data = 0, bt_keep = 0xff, bt_last = False\<rparr>, e_ready = True\<rparr>"

definition value_beat :: enc_in where "value_beat = enc_idle_in\<lparr>e_valid := True\<rparr>"

definition big_start :: "enc_in list" where
  "big_start = [enc_idle_in\<lparr>e_start := True\<rparr>, enc_idle_in\<lparr>e_rec_valid := True, e_key_len := 8, e_value_len := 4088\<rparr>,
     value_beat, enc_idle_in, enc_idle_in, enc_idle_in]"

definition big_end :: "enc_in list" where
  "big_end = [enc_idle_in, enc_idle_in\<lparr>e_source_done := True\<rparr>, enc_idle_in, enc_idle_in, enc_idle_in, enc_idle_in, enc_idle_in]"

definition big_block :: "enc_in list" where
  "big_block = big_start @ replicate 511 value_beat @ big_end"

definition blank_encoder :: encoder where
  "blank_encoder = \<lparr>ec_state = Ec_Idle, ec_busy = False, ec_done = False, ec_error = False, ec_counts = no_enc_counts,
     ec_restart_count = 0, ec_buf_a = replicate 64 0, ec_buf_b = replicate 64 0, ec_offsets = replicate 256 0,
     ec_prev_sel = False, ec_prev_len = 0, ec_key_len = 0, ec_value_len = 0, ec_shared = 0, ec_unshared = 0,
     ec_mismatch = False, ec_restart = False, ec_recv = 0, ec_write = 0, ec_copy = 0, ec_rem = 0, ec_emit_idx = 0,
     ec_since = 0, ec_done_seen = False, ec_data = 0, ec_keep = 0, ec_valid = False, ec_last = False, ec_undef = 0\<rparr>"

definition streamed :: "nat \<Rightarrow> encoder \<Rightarrow> encoder" where
  "streamed n s = s\<lparr>ec_done := False, ec_data := 0, ec_keep := 0xff, ec_valid := True, ec_write := ec_write s + of_nat (8 * n),
     ec_rem := ec_rem s - of_nat (8 * n)\<rparr>"

definition streaming :: "encoder \<Rightarrow> bool" where
  "streaming s \<longleftrightarrow> ec_state s = Ec_Stream_Value \<and> ec_busy s \<and> \<not> ec_error s"

lemma stream_beat:
  assumes "streaming s" and "0 < unat (ec_rem s)" and "unat (ec_write s) < 4096"
  shows "enc_step value_beat s = streamed 1 s"
proof -
  have k: "keep_count 0xff = 8" by code_simp
  have w: "\<not> ENC_MAX_BLOCK_BYTES \<le> ec_write s" using assms(3) by (simp add: ENC_MAX_BLOCK_BYTES_def word_le_nat_alt)
  have r: "ec_rem s \<noteq> 0" using assms(2) by auto
  have "enc_accept value_beat s" using assms(1) r
    by (simp add: streaming_def enc_accept_def enc_axis_ready_def can_emit_def value_beat_def enc_idle_in_def)
  then show ?thesis using assms(1) w r k
    by (simp add: streaming_def enc_step_def enc_case_def enc_value_def enc_emit_def enc_defaults_def streamed_def value_beat_def enc_idle_in_def)
qed

lemma stream_beats:
  assumes "streaming s" and "8 * n \<le> unat (ec_rem s)" and "unat (ec_write s) + 8 * n \<le> 4103" and "0 < n"
  shows "fold enc_step (replicate n value_beat) s = streamed n s"
  using assms
proof (induction n arbitrary: s)
  case (Suc n)
  have one: "enc_step value_beat s = streamed 1 s" by (rule stream_beat) (use Suc.prems in simp_all)
  show ?case
  proof (cases "n = 0")
    case True
    then show ?thesis using one by simp
  next
    case False
    have rem: "unat (ec_rem s) < 4294967296" using unat_below_exp [of "ec_rem s"] by simp
    have "unat (ec_rem (streamed 1 s)) = unat (ec_rem s) - 8"
      using Suc.prems(2) by (simp add: streamed_def unat_sub word_le_nat_alt)
    moreover have "unat (ec_write (streamed 1 s)) = unat (ec_write s) + 8"
      using Suc.prems(3) by (simp add: streamed_def unat_word_ariths)
    moreover have "streaming (streamed 1 s)" using Suc.prems(1) by (simp add: streaming_def streamed_def)
    ultimately have "fold enc_step (replicate n value_beat) (streamed 1 s) = streamed n (streamed 1 s)"
      using Suc.prems(2,3) False by (intro Suc.IH) simp_all
    moreover have "streamed n (streamed 1 s) = streamed (Suc n) s" by (simp add: streamed_def algebra_simps)
    ultimately show ?thesis using one by simp
  qed
qed simp

lemma big_run:
  "case fold enc_step big_start (enc_reset blank_encoder) of s \<Rightarrow>
     fold enc_step big_block (enc_reset blank_encoder) = fold enc_step big_end (streamed 511 s) \<and>
     en_block_bytes (ec_counts (fold enc_step big_end (streamed 511 s))) = 4108 \<and>
     ec_done (fold enc_step big_end (streamed 511 s)) \<and> \<not> ec_error (fold enc_step big_end (streamed 511 s))"
proof -
  let ?s = "fold enc_step big_start (enc_reset blank_encoder)"
  have a: "case ?s of s \<Rightarrow> streaming s \<and> unat (ec_rem s) = 4088 \<and> unat (ec_write s) = 12 \<and>
      en_block_bytes (ec_counts (fold enc_step big_end (streamed 511 s))) = 4108 \<and>
      ec_done (fold enc_step big_end (streamed 511 s)) \<and> \<not> ec_error (fold enc_step big_end (streamed 511 s))"
    by code_simp
  have "fold enc_step (replicate 511 value_beat) ?s = streamed 511 ?s"
    by (rule stream_beats) (use a in simp_all)
  then show ?thesis using a by (simp add: big_block_def)
qed

lemma big_reported: "reported big_block blank_encoder = 4108"
  using big_run by (simp add: reported_def)

text \<open>
  Whatever is on its inputs after a reset, the encoder reports no block of more than 4451 bytes; and it finishes
  blocks above its limit of 4096 bytes without an error.
\<close>

theorem encoder_block_bound:
  "(\<forall>is s. unat (reported is s) \<le> 4451) \<and> (\<exists>is s. ENC_MAX_BLOCK_BYTES < reported is s \<and> \<not> ec_error (fold enc_step is (enc_reset s)))"
proof (intro conjI allI)
  show "unat (reported is s) \<le> 4451" for "is" s using reported_bound by (simp add: ENC_BLOCK_BOUND_def)
  have "\<not> ec_error (fold enc_step big_block (enc_reset blank_encoder))" using big_run by simp
  then show "\<exists>is s. ENC_MAX_BLOCK_BYTES < reported is s \<and> \<not> ec_error (fold enc_step is (enc_reset s))"
    using big_reported by (intro exI [of _ big_block] exI [of _ blank_encoder]) (simp add: ENC_MAX_BLOCK_BYTES_def)
qed

end
