(* ===== verification/Nblock_Writes.thy ===== *)
theory Nblock_Writes
  imports Nblock_Tables Offload_Refinement Encoder_Bounds
begin

text \<open>
  What the block-pair scheduler relies on and what it guarantees: open writes when the assembler starts, the
  coincidence it mistakes, that it waits for no write in vain, and the size and number of the tables it makes.
\<close>

section \<open>Writes that are still open\<close>

text \<open>
  A write that completes is that of a block whose encoding ended in an earlier cycle: between the last word of
  the encoder and the completion lie the packer, the FIFO, the trailer appender and the write engine.
\<close>

definition causal :: "nb_in \<Rightarrow> nblock \<Rightarrow> nat \<Rightarrow> bool" where
  "causal i s p \<longleftrightarrow> (done_edge i s \<longrightarrow> 0 < p)"

text \<open>
  What the scheduler relies on: between two pairs of one table, the write of the earlier block is complete before
  the next encoding ends; at the end of a table one earlier write may be open, if its completion does not
  meet the end of the last encoding. (A completion in the cycle in which its own encoding ends is allowed
  here at the end of a table; the theorem holds even so.)
\<close>

definition orderly :: "nb_in \<Rightarrow> nblock \<Rightarrow> nat \<Rightarrow> bool" where
  "orderly i s p \<longleftrightarrow> (done_edge i s \<longrightarrow> 0 < p \<or> encodes i s) \<and>
     (encodes i s \<longrightarrow>
        (if nb_is_last s \<or> split_due s then (if done_edge i s then p = 0 else p \<le> 1)
         else p = 0 \<and> \<not> done_edge i s))"

definition writes_inv :: "nblock \<Rightarrow> nat \<Rightarrow> bool" where
  "writes_inv s p \<longleftrightarrow>
     (if nb_state s = St_Idle then True
      else if encoding s then p = of_bool (nb_wr_pending s)
      else if nb_state s \<in> {St_Wait_Last, St_Wait_Split}
      then (if nb_wr_done_pending s then \<not> nb_wr_pending s \<and> p = 0 else p = Suc (of_bool (nb_wr_pending s)))
      else p = 0 \<and> \<not> nb_wr_pending s)"

lemma writes_inv_edge:
  assumes inv: "writes_inv s p" and ok: "orderly i s p" and busy: "nb_busy s \<longleftrightarrow> nb_state s \<noteq> St_Idle"
  shows "writes_inv (nblock_step i s) (next_writes i s p)"
proof (cases "\<not> i_rstn i \<or> i_clear i")
  case True
  then show ?thesis by (simp add: nblock_step_def writes_inv_def nb_cleared_def)
next
  case run: False
  have cause: "done_edge i s \<longrightarrow> 0 < p \<or> encodes i s" using ok by (simp add: orderly_def)
  show ?thesis
  proof (cases "nb_state s")
    case St_Idle
    then show ?thesis using run busy
      by (simp add: nblock_step_def nb_case_def next_writes_def nb_begin_def nb_zeroed_def writes_inv_def encoding_def)
  next
    case St_Wait
    then show ?thesis using run inv ok cause
      by (auto simp: nblock_step_def nb_case_def next_writes_def nb_wait_def nb_encoded_def nb_book_def nb_fail_def
          take_prefetched_def writes_inv_def encoding_def encodes_def orderly_def Let_def split: if_splits)
  next
    case St_Wait_Last
    then show ?thesis using run inv cause
      by (auto simp: nblock_step_def nb_case_def next_writes_def nb_wait_write_def nb_fail_def writes_inv_def
          encoding_def encodes_def split: if_splits)
  next
    case St_Wait_Split
    then show ?thesis using run inv cause
      by (auto simp: nblock_step_def nb_case_def next_writes_def nb_wait_write_def nb_fail_def writes_inv_def
          encoding_def encodes_def split: if_splits)
  qed (use run inv cause in \<open>auto simp: nblock_step_def nb_case_def next_writes_def nb_pop_def pop_target_def
      take_prefetched_def nb_assemble_def nb_split_asm_def nb_split_reset_def nb_fail_def writes_inv_def encoding_def
      encodes_def\<close>)
qed

lemma writes_inv_run: "nb_run orderly s h p \<Longrightarrow> writes_inv s p"
proof (induction rule: nb_run.induct)
  case (reset s)
  show ?case by (simp add: writes_inv_def nb_cleared_def)
next
  case (edge s h p i)
  then show ?case using tables_inv_run [OF edge(1)] by (intro writes_inv_edge) (simp_all add: tables_inv_def)
qed

text \<open>
  C32. When the completions of the writes come in the order the scheduler relies on, the assembler, which takes
  over the write channel and reads the finished data area, only ever runs when the write of every
  block is complete.
\<close>

theorem assembler_waits_for_writes:
  assumes "nb_run orderly s h p" and "nb_state s \<in> {St_Assemble, St_Split_Asm}"
  shows "p = 0"
  using writes_inv_run [OF assms(1)] assms(2) by (auto simp: writes_inv_def encoding_def)

section \<open>Runs from a list of inputs\<close>

definition quiet :: nb_in where
  "quiet = \<lparr>i_rstn = True, i_clear = False, i_start = False, i_max_file_size = 0, i_desc_valid = False,
     i_desc = \<lparr>d_src0_addr = 0, d_src0_size = 0, d_src1_addr = 0, d_src1_size = 0\<rparr>, i_desc_last = False,
     i_enc_done = False, i_done = False, i_error = False, i_counts = no_counts, i_last_key_len = 0, i_last_key = 0,
     i_prev_key = no_prev_key, i_asm_done = False, i_asm_error = False, i_asm_bytes = 0\<rparr>"

text \<open>Following a list of inputs, as long as they are allowed.\<close>

fun nb_exec ::
  "(nb_in \<Rightarrow> nblock \<Rightarrow> nat \<Rightarrow> bool) \<Rightarrow> nb_in list \<Rightarrow> nblock \<Rightarrow> (u64 \<times> u32) list \<Rightarrow> nat
     \<Rightarrow> (nblock \<times> (u64 \<times> u32) list \<times> nat) option" where
  "nb_exec P [] s h p = Some (s, h, p)"
| "nb_exec P (i # is) s h p =
     (if P i s p then nb_exec P is (nblock_step i s) (next_tables i s h) (next_writes i s p) else None)"

lemma nb_run_exec: "nb_exec P is s h p = Some (s', h', p') \<Longrightarrow> nb_run P s h p \<Longrightarrow> nb_run P s' h' p'"
  by (induction "is" arbitrary: s h p) (auto intro: nb_run.edge split: if_splits)

text \<open>A run stays one under any weaker condition on its edges.\<close>

lemma nb_run_mono:
  assumes "nb_run P s h p" and "\<And>i s p. P i s p \<Longrightarrow> Q i s p"
  shows "nb_run Q s h p"
  using assms(1) by (induction rule: nb_run.induct) (auto intro: nb_run.intros assms(2))

text \<open>Up to the second pair, the last one: start, a descriptor, the first encoding, the last descriptor.\<close>

definition two_pairs :: "nb_in \<Rightarrow> nb_in list" where
  "two_pairs first = [quiet\<lparr>i_start := True\<rparr>, quiet\<lparr>i_desc_valid := True\<rparr>, quiet, quiet, first,
     quiet\<lparr>i_desc_valid := True, i_desc_last := True\<rparr>, quiet]"

definition enc_only :: nb_in where "enc_only = quiet\<lparr>i_enc_done := True\<rparr>"
definition enc_and_done :: nb_in where "enc_and_done = quiet\<lparr>i_enc_done := True, i_done := True\<rparr>"

definition power_on :: nblock where
  "power_on = nb_cleared \<lparr>nb_state = St_Idle, nb_inner_clear = False, nb_inner_start = False, nb_front_clear = False,
     nb_front_start = False, nb_asm_start = False, nb_meta_wr_en = False,
     nb_meta = \<lparr>m_addr = 0, m_offset = 0, m_size = 0, m_keylen = 0, m_keybytes = 0\<rparr>, nb_done_d = False,
     nb_enc_done_d = False, nb_wr_pending = False, nb_pipeline_restart = False, nb_wr_done_pending = False,
     nb_front_start_pending = False, nb_next_desc = i_desc quiet, nb_next_is_last = False, nb_prefetched = False,
     nb_current = i_desc quiet, nb_is_last = False, nb_seed = no_prev_key, nb_block_bytes = [], nb_running = 0,
     nb_assemble_mode = False, nb_max_file_size = 0, nb_split_threshold = 0, nb_split_enabled = False,
     nb_sst_base = 0, nb_blocks_in_sst = 0, nb_first_block = 0, nb_sizes = [], nb_block_pair_count = 0,
     nb_busy = False, nb_done = False, nb_error = False, nb_active_block = 0, nb_blocks_completed = 0,
     nb_total_bytes = 0, nb_count = 0, nb_totals = no_counts\<rparr>"

text \<open>A run from reset, checked by evaluation.\<close>

lemma run_exec:
  assumes "case nb_exec P is power_on [] 0 of None \<Rightarrow> False | Some (s, h, p) \<Rightarrow> Q s h p"
  shows "\<exists>s h p. nb_run P s h p \<and> Q s h p"
proof -
  obtain s h p where e: "nb_exec P is power_on [] 0 = Some (s, h, p)" and q: "Q s h p"
    using assms by (auto split: option.splits)
  have "nb_run P power_on [] 0" unfolding power_on_def by (rule nb_run.reset)
  from nb_run_exec [OF e this] q show ?thesis by blast
qed

section \<open>A completion that meets the end of an encoding\<close>

lemma wait_ends:
  assumes "nb_state s = St_Wait" and "nb_is_last s \<or> split_due s" and "encodes i s" and "i_rstn i" "\<not> i_clear i"
  shows "nb_state (nblock_step i s) = (if nb_is_last s then St_Wait_Last else St_Wait_Split)"
    and "nb_wr_done_pending (nblock_step i s) = done_edge i s"
    and "nb_wr_pending (nblock_step i s) = (nb_wr_pending s \<and> \<not> done_edge i s)"
    and "nb_done_d (nblock_step i s) = i_done i"
  using assms by (auto simp: nblock_step_def nb_case_def nb_wait_def nb_encoded_def nb_book_def encodes_def Let_def nb_defaults_def)

lemma pending_assembles:
  assumes "nb_state s \<in> {St_Wait_Last, St_Wait_Split}" and "done_edge i s \<or> nb_wr_done_pending s" and "\<not> nb_wr_pending s"
    and "i_rstn i" "\<not> i_clear i" "\<not> i_error i"
  shows "nb_state (nblock_step i s) = (if nb_state s = St_Wait_Last then St_Assemble else St_Split_Asm)"
    and "nb_asm_start (nblock_step i s)" and "nb_assemble_mode (nblock_step i s)"
  using assms by (auto simp: nblock_step_def nb_case_def nb_wait_write_def)

text \<open>
  C33. When the write of an earlier block completes in the very cycle in which the encoding of the last block
  of a table ends, the scheduler takes it for the completion of that last block. In every run, with any
  number of open writes: the next edge, with no completion of its own, starts the assembler, which takes over the
  write channel, while as many writes as before are open.
\<close>

theorem assembler_can_start_early:
  assumes "nb_run causal s h p" and "0 < p" and "nb_state s = St_Wait" and "nb_is_last s \<or> split_due s"
    and "encodes i s" and "done_edge i s" and "i_rstn i" and "\<not> i_clear i"
    and "i_rstn j" and "\<not> i_clear j" and "\<not> i_error j"
  shows "nb_run causal (nblock_step j (nblock_step i s)) h p \<and>
    nb_state (nblock_step j (nblock_step i s)) = (if nb_is_last s then St_Assemble else St_Split_Asm) \<and>
    nb_asm_start (nblock_step j (nblock_step i s)) \<and> nb_assemble_mode (nblock_step j (nblock_step i s))"
proof -
  let ?t = "nblock_step i s"
  note t = wait_ends [OF assms(3,4,5,7,8)]
  have st: "nb_state ?t \<in> {St_Wait_Last, St_Wait_Split}" and pend: "nb_wr_done_pending ?t" "\<not> nb_wr_pending ?t"
    using t assms(6) by simp_all
  have no: "\<not> done_edge j ?t" using t(4) assms(6) by (simp add: done_edge_def)
  have "nb_run causal ?t (next_tables i s h) (next_writes i s p)"
    using assms(1,2) by (intro nb_run.edge) (simp_all add: causal_def)
  moreover have "next_tables i s h = h" "next_writes i s p = p"
    using assms by (simp_all add: next_tables_def next_writes_def)
  ultimately have run: "nb_run causal ?t h p" by simp
  have "nb_run causal (nblock_step j ?t) (next_tables j ?t h) (next_writes j ?t p)"
    using run no by (intro nb_run.edge) (simp_all add: causal_def)
  moreover have "next_tables j ?t h = h" "next_writes j ?t p = p"
    using st no assms(9,10) by (auto simp: next_tables_def next_writes_def encodes_def)
  ultimately have "nb_run causal (nblock_step j ?t) h p" by simp
  then show ?thesis
    using pending_assembles [OF st _ pend(2) assms(9-11)] pend(1) t(1) by (simp split: if_splits)
qed

text \<open>The second of two pairs, the last one, ends its encoding when the first block is written.\<close>

theorem assembler_can_start_early_witness:
  "\<exists>s h. nb_run causal s h 1 \<and> nb_state s = St_Assemble \<and> nb_asm_start s \<and> nb_blocks_completed s = 2"
proof -
  have "case nb_exec causal (two_pairs enc_only) power_on [] 0 of None \<Rightarrow> False
    | Some (s, h, p) \<Rightarrow> p = 1 \<and> nb_state s = St_Wait \<and> nb_is_last s \<and> \<not> nb_done_d s \<and> \<not> nb_enc_done_d s \<and>
        nb_blocks_completed (nblock_step quiet (nblock_step enc_and_done s)) = 2"
    by code_simp
  from run_exec [OF this] obtain s h where run: "nb_run causal s h 1" and st: "nb_state s = St_Wait" "nb_is_last s"
    and d: "\<not> nb_done_d s" "\<not> nb_enc_done_d s" and two: "nb_blocks_completed (nblock_step quiet (nblock_step enc_and_done s)) = 2"
    by blast
  have e: "encodes enc_and_done s" "done_edge enc_and_done s"
    using st d by (simp_all add: encodes_def enc_edge_def done_edge_def enc_and_done_def quiet_def)
  have r: "i_rstn enc_and_done" "\<not> i_clear enc_and_done" "i_rstn quiet" "\<not> i_clear quiet" "\<not> i_error quiet"
    by (simp_all add: enc_and_done_def quiet_def)
  from assembler_can_start_early [OF run zero_less_one st(1) disjI1 [OF st(2)] e r] st two show ?thesis by auto
qed

section \<open>No wait in vain\<close>

definition waits_inv :: "nblock \<Rightarrow> nat \<Rightarrow> bool" where
  "waits_inv s p \<longleftrightarrow>
     (if nb_state s = St_Idle then True
      else if nb_state s \<in> {St_Wait_Last, St_Wait_Split}
      then 0 < p \<and> (if nb_wr_done_pending s then \<not> nb_wr_pending s else of_bool (nb_wr_pending s) < p)
      else of_bool (nb_wr_pending s) \<le> p)"

lemma waits_inv_edge:
  assumes inv: "waits_inv s p" and ok: "causal i s p" and busy: "nb_busy s \<longleftrightarrow> nb_state s \<noteq> St_Idle"
  shows "waits_inv (nblock_step i s) (next_writes i s p)"
proof (cases "\<not> i_rstn i \<or> i_clear i")
  case True
  then show ?thesis by (simp add: nblock_step_def waits_inv_def nb_cleared_def)
next
  case run: False
  have cause: "done_edge i s \<longrightarrow> 0 < p" using ok by (simp add: causal_def)
  show ?thesis
  proof (cases "nb_state s")
    case St_Idle
    then show ?thesis using run busy
      by (simp add: nblock_step_def nb_case_def next_writes_def nb_begin_def nb_zeroed_def waits_inv_def)
  next
    case St_Wait
    then show ?thesis using run inv cause
      by (auto simp: nblock_step_def nb_case_def next_writes_def nb_wait_def nb_encoded_def nb_book_def nb_fail_def
          take_prefetched_def waits_inv_def encodes_def Let_def split: if_splits)
  next
    case St_Wait_Last
    then show ?thesis using run inv cause
      by (auto simp: nblock_step_def nb_case_def next_writes_def nb_wait_write_def nb_fail_def waits_inv_def encodes_def split: if_splits)
  next
    case St_Wait_Split
    then show ?thesis using run inv cause
      by (auto simp: nblock_step_def nb_case_def next_writes_def nb_wait_write_def nb_fail_def waits_inv_def encodes_def split: if_splits)
  qed (use run inv cause in \<open>auto simp: nblock_step_def nb_case_def next_writes_def nb_pop_def pop_target_def
      take_prefetched_def nb_assemble_def nb_split_asm_def nb_split_reset_def nb_fail_def waits_inv_def encodes_def\<close>)
qed

lemma waits_inv_run: "nb_run causal s h p \<Longrightarrow> waits_inv s p"
proof (induction rule: nb_run.induct)
  case (reset s)
  show ?case by (simp add: waits_inv_def nb_cleared_def)
next
  case (edge s h p i)
  then show ?case using tables_inv_run [OF edge(1)] by (intro waits_inv_edge) (simp_all add: tables_inv_def)
qed

text \<open>
  C34. The scheduler never waits in vain for a write: in every run in which writes complete after the end of their encoding,
  however many are open and wherever their completions fall, some write is open while it waits at the end of a table,
  and the edge at which the last open write completes starts the assembler.
\<close>

theorem wait_is_never_in_vain:
  assumes "nb_run causal s h p" and "nb_state s \<in> {St_Wait_Last, St_Wait_Split}" and "causal i s p"
    and "i_rstn i" and "\<not> i_clear i" and "\<not> i_error i"
  shows "0 < p \<and> (next_writes i s p = 0 \<longrightarrow>
    nb_state (nblock_step i s) = (if nb_state s = St_Wait_Last then St_Assemble else St_Split_Asm) \<and>
    nb_asm_start (nblock_step i s))"
proof -
  have inv: "0 < p" "if nb_wr_done_pending s then \<not> nb_wr_pending s else of_bool (nb_wr_pending s) < p"
    using waits_inv_run [OF assms(1)] assms(2) by (auto simp: waits_inv_def)
  have "(done_edge i s \<or> nb_wr_done_pending s) \<and> \<not> nb_wr_pending s" if "next_writes i s p = 0"
  proof -
    have "p - of_bool (done_edge i s) = 0" using that assms(2,4,5) by (auto simp: next_writes_def encodes_def)
    then have "done_edge i s \<and> p = 1" using inv(1) by (cases "done_edge i s") simp_all
    then show ?thesis using inv(2) by (auto split: if_splits)
  qed
  then show ?thesis using pending_assembles(1,2) [OF assms(2) _ _ assms(4-6)] inv(1) by blast
qed

theorem wait_is_never_in_vain_witness:
  "\<exists>s h. nb_run causal s h 1 \<and> nb_state s = St_Wait_Last \<and> nb_state (nblock_step (quiet\<lparr>i_done := True\<rparr>) s) = St_Assemble"
proof -
  let ?i = "quiet\<lparr>i_done := True\<rparr>"
  have "case nb_exec causal (two_pairs enc_only @ [?i, enc_only]) power_on [] 0 of None \<Rightarrow> False
    | Some (s, h, p) \<Rightarrow> p = 1 \<and> nb_state s = St_Wait_Last \<and> \<not> nb_done_d s"
    by code_simp
  from run_exec [OF this] obtain s h where run: "nb_run causal s h 1" and st: "nb_state s = St_Wait_Last" and d: "\<not> nb_done_d s"
    by blast
  have i: "i_rstn ?i" "\<not> i_clear ?i" "\<not> i_error ?i" "causal ?i s 1" by (simp_all add: quiet_def causal_def)
  have "next_writes ?i s 1 = 0" using st d by (simp add: next_writes_def encodes_def done_edge_def quiet_def)
  then show ?thesis using wait_is_never_in_vain [OF run _ i(4,1,2,3)] run st by auto
qed

text \<open>An orderly run to the assembler, for the theorem above.\<close>

theorem assembler_waits_for_writes_witness:
  "\<exists>s h p. nb_run orderly s h p \<and> nb_state s = St_Assemble \<and> nb_blocks_completed s = 2 \<and> p = 0"
proof -
  have "case nb_exec orderly (two_pairs enc_only @ [quiet\<lparr>i_done := True\<rparr>, enc_only, quiet\<lparr>i_done := True\<rparr>])
      power_on [] 0 of None \<Rightarrow> False
    | Some (s, h, p) \<Rightarrow> nb_state s = St_Assemble \<and> nb_blocks_completed s = 2"
    by code_simp
  from run_exec [OF this] obtain s h p where
    run: "nb_run orderly s h p" and st: "nb_state s = St_Assemble" "nb_blocks_completed s = 2" by blast
  from assembler_waits_for_writes [OF run] st have "p = 0" by simp
  with run st show ?thesis by blast
qed

text \<open>Two tables, the first closed because the second pair finds the offset at the threshold.\<close>

definition block_of :: "u32 \<Rightarrow> nb_in" where
  "block_of n = enc_only\<lparr>i_counts := no_counts\<lparr>c_stage5_bytes := n\<rparr>\<rparr>"

definition two_tables :: "nb_in list" where
  "two_tables = [quiet\<lparr>i_start := True, i_max_file_size := 5000\<rparr>, quiet\<lparr>i_desc_valid := True\<rparr>, quiet, quiet,
     block_of 1000, quiet\<lparr>i_desc_valid := True, i_done := True\<rparr>, quiet, block_of 900, quiet\<lparr>i_done := True\<rparr>,
     quiet\<lparr>i_asm_done := True, i_asm_bytes := 150\<rparr>, quiet, quiet\<lparr>i_desc_valid := True, i_desc_last := True\<rparr>,
     quiet, quiet, block_of 500, quiet\<lparr>i_done := True\<rparr>, quiet\<lparr>i_asm_done := True, i_asm_bytes := 120\<rparr>]"

theorem scheduler_places_for_driver_witness:
  "\<exists>s p. nb_run orderly s [(0, 2134), (2176, 632)] p \<and> nb_done s \<and> nb_count s = 2 \<and>
    read_layout (\<lambda>_. 0) 0x200000 [2134, 632] = [mem_read (\<lambda>_. 0) 0x200000 2134, mem_read (\<lambda>_. 0) 0x200880 632]"
proof -
  have "case nb_exec orderly two_tables power_on [] 0 of None \<Rightarrow> False
    | Some (s, h, p) \<Rightarrow> nb_done s \<and> h = [(0, 2134), (2176, 632)]"
    by code_simp
  from run_exec [OF this] obtain s p where run: "nb_run orderly s [(0, 2134), (2176, 632)] p" and fin: "nb_done s"
    by blast
  from scheduler_places_for_driver [OF run, where d = "\<lambda>_. 0" and a = "0x200000"] have
    "nb_count s = 2 \<and>
     read_layout (\<lambda>_. 0) 0x200000 [2134, 632] = [mem_read (\<lambda>_. 0) 0x200000 2134, mem_read (\<lambda>_. 0) 0x200880 632]"
    by simp
  with run fin show ?thesis by blast
qed

section \<open>The size of a table\<close>

text \<open>
  The block sizes the scheduler reads are those of the encoder: what some run of the encoder from reset, on any inputs,
  leaves in \<^verbatim>\<open>output_block_bytes\<close>, which the pair chain hands on as \<^verbatim>\<open>stage5_output_block_bytes\<close>.
\<close>

definition encoder_sizes :: "nb_in \<Rightarrow> nblock \<Rightarrow> nat \<Rightarrow> bool" where
  "encoder_sizes i s p \<longleftrightarrow> (\<exists>is e. c_stage5_bytes (i_counts i) = reported is e)"

lemma encoder_sizes_bound: "encoder_sizes i s p \<Longrightarrow> c_stage5_bytes (i_counts i) \<le> 4451"
  using reported_bound by (auto simp: encoder_sizes_def ENC_BLOCK_BOUND_def word_le_nat_alt)

definition split_inv :: "nblock \<Rightarrow> bool" where
  "split_inv s \<longleftrightarrow>
     aligned64 (nb_running s) \<and> unat (nb_blocks_in_sst s) \<le> 32 \<and> (encoding s \<longrightarrow> unat (nb_blocks_in_sst s) < 32) \<and>
     unat (nb_running s) \<le> 4480 * unat (nb_blocks_in_sst s) \<and>
     (nb_split_enabled s \<longrightarrow> 4096 < nb_max_file_size s \<and> nb_split_threshold s = nb_max_file_size s - 4096 \<and>
        unat (nb_running s) < unat (nb_max_file_size s) + (if encoding s then 384 else 4864))"

lemma running_step:
  assumes "aligned64 r" and "n \<le> (4451 :: u32)" and "unat r \<le> 4480 * 32"
  shows "aligned64 (align64_up (r + ucast (n + 5)))" and "unat (align64_up (r + ucast (n + 5))) \<le> unat r + 4480"
proof -
  have "unat (n + 5) \<le> 4456" using assms(2) by (simp add: word_le_nat_alt unat_word_ariths)
  then have "(unat (n + 5) + 63) div 64 \<le> 4519 div 64" by (intro div_le_mono) simp
  then have "(unat (n + 5) + 63) div 64 * 64 \<le> 4480" by simp
  then have a: "unat (align64 (n + 5)) \<le> 4480" by (simp only: unat_align64)
  have "align64_up (r + ucast (n + 5)) = r + align64 (n + 5)" by (simp only: align64_up_add [OF assms(1)] align64_eq)
  moreover have "unat (r + align64 (n + 5)) = unat r + unat (align64 (n + 5))"
    using a assms(3) by (simp add: unat_word_ariths)
  ultimately show "unat (align64_up (r + ucast (n + 5))) \<le> unat r + 4480" using a by simp
qed (rule aligned64_up)

lemma split_due_offset:
  assumes "split_inv s" and "\<not> split_due s" and "nb_split_enabled s"
  shows "unat (nb_running s) + 4096 < unat (nb_max_file_size s)"
proof -
  have r: "unat (nb_running s) < 2 ^ 32" using assms(1) by (simp add: split_inv_def)
  then have u: "unat (ucast (nb_running s) :: u32) = unat (nb_running s)"
    by (simp add: unsigned_ucast_eq take_bit_nat_eq_self)
  have t: "nb_split_threshold s = nb_max_file_size s - 4096" "4096 < nb_max_file_size s"
    using assms(1,3) by (simp_all add: split_inv_def)
  then have "unat (nb_split_threshold s) = unat (nb_max_file_size s) - 4096"
    by (simp add: unat_sub word_le_nat_alt word_less_nat_alt)
  moreover have "unat (nb_running s) < unat (nb_split_threshold s)"
    using assms(2,3) by (simp add: split_due_def word_le_nat_alt u)
  ultimately show ?thesis by linarith
qed

lemma blocks_step:
  assumes "unat (b :: u32) < 32"
  shows "unat (b + 1) = unat b + 1" and "\<not> of_nat MAX_BLOCK_PAIRS \<le> b + 1 \<Longrightarrow> unat b + 1 < 32"
  using assms by (simp_all add: unat_word_ariths word_le_nat_alt MAX_BLOCK_PAIRS_def)

lemma split_inv_encoded:
  assumes inv: "split_inv s" and st: "nb_state s = St_Wait" and small: "c_stage5_bytes (i_counts i) \<le> 4451"
  shows "split_inv (nb_encoded i s (nb_defaults i s))"
proof -
  let ?t = "nb_encoded i s (nb_defaults i s)"
  have enc: "encoding s" using st by (simp add: encoding_def)
  have b: "unat (nb_blocks_in_sst s) < 32" and r: "unat (nb_running s) \<le> 4480 * unat (nb_blocks_in_sst s)"
    and al: "aligned64 (nb_running s)" using inv enc by (simp_all add: split_inv_def)
  have "unat (nb_running s) \<le> 4480 * 32" using b r by linarith
  note step = running_step [OF al small this]
  have t: "nb_running ?t = align64_up (nb_running s + ucast (c_stage5_bytes (i_counts i) + 5))"
    "nb_blocks_in_sst ?t = nb_blocks_in_sst s + 1" "nb_split_enabled ?t = nb_split_enabled s"
    "nb_max_file_size ?t = nb_max_file_size s" "nb_split_threshold ?t = nb_split_threshold s"
    and e: "encoding ?t \<longleftrightarrow> \<not> nb_is_last s \<and> \<not> split_due s"
    by (simp_all add: nb_encoded_def nb_book_def take_prefetched_def encoding_def Let_def)
  have "encoding ?t \<longrightarrow> unat (nb_blocks_in_sst s) + 1 < 32"
    using e blocks_step(2) [OF b] by (auto simp: split_due_def)
  moreover have "unat (nb_running ?t) < unat (nb_max_file_size s) + (if encoding ?t then 384 else 4864)"
    if "nb_split_enabled s"
  proof -
    have "unat (nb_running s) < unat (nb_max_file_size s) + 384" using inv enc that by (simp add: split_inv_def)
    moreover have "encoding ?t \<longrightarrow> unat (nb_running s) + 4096 < unat (nb_max_file_size s)"
      using split_due_offset [OF inv _ that] e by blast
    ultimately show ?thesis using step(2) unfolding t(1) by (auto split: if_split)
  qed
  moreover have "unat (nb_running ?t) \<le> 4480 * (unat (nb_blocks_in_sst s) + 1)" using step(2) r unfolding t(1) add_mult_distrib2 by simp
  ultimately show ?thesis
    using inv step(1) b unfolding split_inv_def t(2-5) blocks_step(1) [OF b] by (simp add: t(1))
qed

lemma split_inv_cong:
  assumes "split_inv s" and "nb_running t = nb_running s" and "nb_blocks_in_sst t = nb_blocks_in_sst s"
    and "nb_split_enabled t = nb_split_enabled s" and "nb_max_file_size t = nb_max_file_size s"
    and "nb_split_threshold t = nb_split_threshold s" and "encoding t \<longrightarrow> encoding s"
  shows "split_inv t"
  using assms by (auto simp: split_inv_def split: if_splits)

lemma split_inv_zero: "nb_running t = 0 \<Longrightarrow> nb_blocks_in_sst t = 0 \<Longrightarrow>
    nb_split_enabled t \<longrightarrow> 4096 < nb_max_file_size t \<and> nb_split_threshold t = nb_max_file_size t - 4096 \<Longrightarrow> split_inv t"
  by (auto simp: split_inv_def aligned64_def word_less_nat_alt)

lemma split_inv_edge:
  assumes inv: "split_inv s" and small: "encoder_sizes i s p"
  shows "split_inv (nblock_step i s)"
proof (cases "\<not> i_rstn i \<or> i_clear i")
  case True
  then show ?thesis by (intro split_inv_zero) (simp_all add: nblock_step_def nb_cleared_def nb_zeroed_def)
next
  case run: False
  have en: "nb_split_enabled s \<longrightarrow> 4096 < nb_max_file_size s \<and> nb_split_threshold s = nb_max_file_size s - 4096"
    using inv by (simp add: split_inv_def)
  show ?thesis
  proof (cases "nb_state s")
    case St_Idle
    show ?thesis
    proof (cases "i_start i \<and> \<not> nb_busy s")
      case True
      then show ?thesis using run St_Idle
        by (intro split_inv_zero) (simp_all add: nblock_step_def nb_case_def nb_begin_def nb_zeroed_def SPLIT_TAIL_MARGIN_def)
    next
      case False
      then show ?thesis using run St_Idle
        by (intro split_inv_cong [OF inv]) (auto simp: nblock_step_def nb_case_def encoding_def)
    qed
  next
    case St_Split_Reset
    then show ?thesis using run en
      by (intro split_inv_zero) (simp_all add: nblock_step_def nb_case_def nb_split_reset_def)
  next
    case St_Wait
    show ?thesis
    proof (cases "\<not> i_error i \<and> enc_edge i s")
      case True
      then show ?thesis using run St_Wait split_inv_encoded [OF inv St_Wait encoder_sizes_bound [OF small]]
        by (simp add: nblock_step_def nb_case_def nb_wait_def)
    next
      case False
      then show ?thesis using run St_Wait
        by (intro split_inv_cong [OF inv]) (auto simp: nblock_step_def nb_case_def nb_wait_def nb_fail_def encoding_def)
    qed
  qed (rule split_inv_cong [OF inv]; use run in \<open>simp add: nblock_step_def nb_case_def nb_pop_def pop_target_def
      take_prefetched_def nb_assemble_def nb_split_asm_def nb_wait_write_def nb_fail_def encoding_def\<close>)+
qed

text \<open>
  C35. In every run in which the block sizes are sizes the encoder can report, and with \<^verbatim>\<open>max_file_size\<close>
  above the margin of 4096, the data area of a table, finished or not, is less than 4864 bytes larger than \<^verbatim>\<open>max_file_size\<close>,
  and no table has more than 32 blocks.
\<close>

theorem split_table_bound:
  assumes "nb_run encoder_sizes s h p" and "nb_split_enabled s"
  shows "unat (nb_running s) < unat (nb_max_file_size s) + 4864 \<and> unat (nb_blocks_in_sst s) \<le> 32"
proof -
  have "split_inv s"
    using assms(1)
  proof (induction rule: nb_run.induct)
    case (reset s)
    show ?case by (rule split_inv_zero) (simp_all add: nb_cleared_def nb_zeroed_def)
  next
    case (edge s h p i)
    then show ?case by (intro split_inv_edge)
  qed
  then show ?thesis using assms(2) by (auto simp: split_inv_def split: if_splits)
qed

text \<open>
  The witness is a table of two blocks of the encoder run \<open>big_block\<close>; it is larger than \<^verbatim>\<open>max_file_size\<close> before its
  index and footer are written.
\<close>

definition overshoot :: "nb_in list" where
  "overshoot = [quiet\<lparr>i_start := True, i_max_file_size := 8192\<rparr>, quiet\<lparr>i_desc_valid := True\<rparr>, quiet, quiet,
     block_of 4108, quiet\<lparr>i_desc_valid := True, i_done := True\<rparr>, quiet, block_of 4108, quiet\<lparr>i_done := True\<rparr>]"

definition two_sizes :: "nb_in \<Rightarrow> nblock \<Rightarrow> nat \<Rightarrow> bool" where
  "two_sizes i s p \<longleftrightarrow> c_stage5_bytes (i_counts i) \<in> {0, 4108}"

lemma blank_reported: "reported [] blank_encoder = 0"
  by (simp add: reported_def enc_reset_def no_enc_counts_def)

lemma two_sizes_encoder: "two_sizes i s p \<Longrightarrow> encoder_sizes i s p"
proof -
  assume "two_sizes i s p"
  then consider "c_stage5_bytes (i_counts i) = reported [] blank_encoder" | "c_stage5_bytes (i_counts i) = reported big_block blank_encoder"
    by (auto simp: two_sizes_def big_reported blank_reported)
  then show ?thesis by cases (auto simp: encoder_sizes_def)
qed

theorem split_table_bound_witness:
  "\<exists>s h p. nb_run encoder_sizes s h p \<and> nb_state s = St_Split_Asm \<and> nb_max_file_size s = 8192 \<and> nb_running s = 8320 \<and>
    unat (nb_running s) < unat (nb_max_file_size s) + 4864 \<and> unat (nb_blocks_in_sst s) \<le> 32"
proof -
  have "case nb_exec two_sizes overshoot power_on [] 0 of None \<Rightarrow> False
    | Some (s, h, p) \<Rightarrow> nb_split_enabled s \<and> nb_state s = St_Split_Asm \<and> nb_max_file_size s = 8192 \<and> nb_running s = 8320"
    by code_simp
  from run_exec [OF this] obtain s h p where two: "nb_run two_sizes s h p" and en: "nb_split_enabled s"
    and st: "nb_state s = St_Split_Asm" "nb_max_file_size s = 8192" "nb_running s = 8320" by blast
  have run: "nb_run encoder_sizes s h p" by (rule nb_run_mono [OF two two_sizes_encoder])
  from split_table_bound [OF run en] run st show ?thesis by blast
qed

section \<open>The number of tables\<close>

text \<open>Two small pairs make one table when the threshold is 1; the last table has one pair.\<close>

definition split_round :: "nb_in list" where
  "split_round = [quiet\<lparr>i_desc_valid := True\<rparr>, quiet, quiet, block_of 1, quiet\<lparr>i_desc_valid := True, i_done := True\<rparr>,
     quiet, block_of 1, quiet\<lparr>i_done := True\<rparr>, quiet\<lparr>i_asm_done := True\<rparr>, quiet]"

definition last_round :: "nb_in list" where
  "last_round = [quiet\<lparr>i_desc_valid := True, i_desc_last := True\<rparr>, quiet, quiet, block_of 1, quiet\<lparr>i_done := True\<rparr>,
     quiet\<lparr>i_asm_done := True\<rparr>]"

definition many_tables :: "nb_in list" where
  "many_tables = quiet\<lparr>i_start := True, i_max_file_size := 4097\<rparr> # concat (replicate 16 split_round) @ last_round"

text \<open>
  C36. The scheduler does not stop at 16 tables: there are orderly runs that finish with \<^verbatim>\<open>done\<close> after 17
  tables. The size of the last one has no register, and the driver refuses a count above
  \<^verbatim>\<open>kMaxSstables\<close>.
\<close>

theorem tables_can_overflow:
  "\<exists>s h p. nb_run orderly s h p \<and> nb_done s \<and> length h = 17 \<and> length (nb_sizes s) = 16 \<and> kMaxSstables < nb_count s"
proof -
  have "case nb_exec orderly many_tables power_on [] 0 of None \<Rightarrow> False
    | Some (s, h, p) \<Rightarrow> nb_done s \<and> length h = 17 \<and> nb_count s = 17"
    by code_simp
  from run_exec [OF this] obtain s h p where
    run: "nb_run orderly s h p" and fin: "nb_done s" "length h = 17" "nb_count s = 17" by blast
  have "length (nb_sizes s) = 16" using tables_inv_run [OF run] by (simp add: tables_inv_def)
  moreover have "kMaxSstables < nb_count s" by (simp add: fin kMaxSstables_def)
  ultimately show ?thesis using run fin by blast
qed

end
