(* ===== verification/Merger_Invariant.thy ===== *)
theory Merger_Invariant
  imports Merger_Streams
begin

text \<open>
  The invariant of the merger: in which phase the two sources are, what the state of the machine says of
  them, and that the records that have left it are the beginning of the merge. The lemma at the end is
  shared by the four states in which a record is finished.
\<close>

section \<open>Reading the registers\<close>

lemma side_put [simp]: "side b (put_side b' d t) = (if b = b' then d else side b t)"
  by (simp add: side_def put_side_def)

lemma side_update [simp]:
  "side b (t\<lparr>mg_state := st\<rparr>) = side b t" "side b (t\<lparr>mg_busy := a\<rparr>) = side b t"
  "side b (t\<lparr>mg_done := a\<rparr>) = side b t" "side b (t\<lparr>mg_error := a\<rparr>) = side b t"
  "side b (t\<lparr>mg_have_prev := a\<rparr>) = side b t" "side b (t\<lparr>mg_prev_len := n\<rparr>) = side b t"
  "side b (t\<lparr>mg_prev_mem := m\<rparr>) = side b t" "side b (t\<lparr>mg_sel := a\<rparr>) = side b t"
  "side b (t\<lparr>mg_keep := a\<rparr>) = side b t" "side b (t\<lparr>mg_cmp_index := n\<rparr>) = side b t"
  "side b (t\<lparr>mg_emit_index := e\<rparr>) = side b t" "side b (t\<lparr>mg_cap_index := e\<rparr>) = side b t"
  "side b (t\<lparr>mg_sel_ukey_len := n\<rparr>) = side b t" "side b (t\<lparr>mg_sel_key_len := n\<rparr>) = side b t"
  "side b (t\<lparr>mg_sel_value_len := n\<rparr>) = side b t" "side b (t\<lparr>mg_counts := c\<rparr>) = side b t"
  "side b (t\<lparr>mg_out_bytes := e\<rparr>) = side b t" "side b (t\<lparr>mg_prev_state := st\<rparr>) = side b t"
  "side b (t\<lparr>mg_found_r := a\<rparr>) = side b t" "side b (t\<lparr>mg_lt_r := a\<rparr>) = side b t"
  "side b (t\<lparr>mg_all_done_r := a\<rparr>) = side b t" "side b (t\<lparr>mg_diff0_r := a\<rparr>) = side b t"
  "side b (t\<lparr>mg_diff1_r := a\<rparr>) = side b t"
  by (simp_all add: side_def)

lemma put_other [simp]:
  "mg_state (put_side b d t) = mg_state t" "mg_busy (put_side b d t) = mg_busy t"
  "mg_done (put_side b d t) = mg_done t" "mg_error (put_side b d t) = mg_error t"
  "mg_have_prev (put_side b d t) = mg_have_prev t" "mg_prev_len (put_side b d t) = mg_prev_len t"
  "mg_prev_mem (put_side b d t) = mg_prev_mem t" "mg_sel (put_side b d t) = mg_sel t"
  "mg_cmp_index (put_side b d t) = mg_cmp_index t" "mg_emit_index (put_side b d t) = mg_emit_index t"
  "mg_cap_index (put_side b d t) = mg_cap_index t" "mg_sel_ukey_len (put_side b d t) = mg_sel_ukey_len t"
  "mg_sel_key_len (put_side b d t) = mg_sel_key_len t" "mg_sel_value_len (put_side b d t) = mg_sel_value_len t"
  "mg_prev_state (put_side b d t) = mg_prev_state t" "mg_counts (put_side b d t) = mg_counts t"
  "mg_found_r (put_side b d t) = mg_found_r t" "mg_lt_r (put_side b d t) = mg_lt_r t"
  "mg_all_done_r (put_side b d t) = mg_all_done_r t" "mg_diff0_r (put_side b d t) = mg_diff0_r t"
  "mg_diff1_r (put_side b d t) = mg_diff1_r t" "mg_out_bytes (put_side b d t) = mg_out_bytes t"
  "mg_keep (put_side b d t) = mg_keep t"
  by (simp_all add: put_side_def)

lemma defaults_side [simp]:
  "side b (mg_defaults i s) = (side b s)\<lparr>sd_done := (sd_done (side b s) \<or> pt_done (port b i))\<rparr>"
  by (cases b) (simp_all add: mg_defaults_def latch_done_def)

lemma defaults_other [simp]:
  "mg_state (mg_defaults i s) = mg_state s" "mg_busy (mg_defaults i s) = mg_busy s"
  "mg_error (mg_defaults i s) = mg_error s" "mg_have_prev (mg_defaults i s) = mg_have_prev s"
  "mg_prev_len (mg_defaults i s) = mg_prev_len s" "mg_prev_mem (mg_defaults i s) = mg_prev_mem s"
  "mg_sel (mg_defaults i s) = mg_sel s" "mg_cmp_index (mg_defaults i s) = mg_cmp_index s"
  "mg_emit_index (mg_defaults i s) = mg_emit_index s" "mg_cap_index (mg_defaults i s) = mg_cap_index s"
  "mg_sel_ukey_len (mg_defaults i s) = mg_sel_ukey_len s" "mg_sel_key_len (mg_defaults i s) = mg_sel_key_len s"
  "mg_sel_value_len (mg_defaults i s) = mg_sel_value_len s" "mg_prev_state (mg_defaults i s) = mg_state s"
  "mg_counts (mg_defaults i s) = mg_counts s" "\<not> mg_done (mg_defaults i s)"
  by (simp_all add: mg_defaults_def latch_done_def)

text \<open>What the neighbours put on the ports.\<close>

definition drives :: "mg_in \<Rightarrow> (bool \<Rightarrow> offer) \<Rightarrow> (bool \<Rightarrow> feed) \<Rightarrow> bool" where
  "drives i w f \<longleftrightarrow> g_rstn i \<and> \<not> g_clear i \<and> \<not> g_start i \<and> (\<forall>b. port b i = port_of (w b) (f b))"

lemma drivesD [simp]:
  assumes "drives i w f"
  shows "g_rstn i" "\<not> g_clear i" "\<not> g_start i" "port b i = port_of (w b) (f b)"
  using assms by (simp_all add: drives_def)

lemma port_of_sel [simp]:
  "pt_done (port_of w f) = (of_done w \<and> fd_hdrs f = [])"
  "pt_rec_valid (port_of w f) = (of_hdr w \<and> fd_hdrs f \<noteq> [])"
  "pt_valid (port_of w f) = (of_data w \<and> fd_beats f \<noteq> [])"
  by (simp_all add: port_of_def)

section \<open>The phases of a source\<close>

datatype phase = Ph_Idle | Ph_Header | Ph_Key nat | Ph_Ready nat

fun side_at :: "phase \<Rightarrow> mg_side \<Rightarrow> feed \<Rightarrow> entry list \<Rightarrow> bool" where
  "side_at Ph_Idle d f R \<longleftrightarrow> length (sd_mem d) = MAX_USER_KEY_BYTES \<and> \<not> sd_buf d \<and> \<not> sd_pre d \<and> delivers f R \<and> (sd_done d \<longrightarrow> R = [])"
| "side_at Ph_Header d f R \<longleftrightarrow> \<not> sd_buf d \<and> sd_pre d \<and> \<not> sd_done d \<and> R \<noteq> [] \<and> in_flight 0 0 d f (hd R) (tl R)"
| "side_at (Ph_Key n) d f R \<longleftrightarrow> \<not> sd_buf d \<and> \<not> sd_pre d \<and> R \<noteq> [] \<and> n < length (fst (hd R)) \<and> in_flight n 0 d f (hd R) (tl R)"
| "side_at (Ph_Ready m) d f R \<longleftrightarrow> sd_buf d \<and> \<not> sd_pre d \<and> R \<noteq> [] \<and> in_flight (length (fst (hd R))) m d f (hd R) (tl R)"

lemma side_at_latch:
  assumes "side_at ph d f R" and "dn \<Longrightarrow> fd_hdrs f = []" and "dn \<Longrightarrow> ph \<noteq> Ph_Header"
  shows "side_at ph (d\<lparr>sd_done := (sd_done d \<or> dn)\<rparr>) f R"
proof -
  have "in_flight n m (d\<lparr>sd_done := (sd_done d \<or> dn)\<rparr>) f r rs" if "in_flight n m d f r rs" for n m r rs
    by (rule in_flight_cong [OF that]) (use assms(2) in auto)
  moreover have "R = []" if "dn" "delivers f R" using assms(2) that by (simp add: delivers_def)
  ultimately show ?thesis using assms by (cases ph) auto
qed

definition parked :: "phase \<Rightarrow> mg_side \<Rightarrow> bool" where
  "parked ph d \<longleftrightarrow> ph = Ph_Ready 0 \<or> ph = Ph_Idle \<and> sd_done d"

section \<open>The invariant\<close>

type_synonym sink = "(u16 \<times> u16) list \<times> byte list list \<times> byte list"

definition sink_next :: "mg_in \<Rightarrow> merger \<Rightarrow> sink \<Rightarrow> sink" where
  "sink_next i s k = (fst k @ sink_header i s, collect (sink_beat i s) (snd k))"

text \<open>The headers of \<open>hs\<close> have been taken, the records \<open>fs\<close> completely, and the bytes \<open>cur\<close> of the next one.\<close>

definition sink_is :: "sink \<Rightarrow> entry list \<Rightarrow> entry list \<Rightarrow> byte list \<Rightarrow> bool" where
  "sink_is k hs fs cur \<longleftrightarrow> k = (map header_of hs, map (\<lambda>r. fst r @ snd r) fs, cur)"

text \<open>What the state of the machine says of the two sources.\<close>

definition ctrl :: "merger \<Rightarrow> (bool \<Rightarrow> phase) \<Rightarrow> (bool \<Rightarrow> entry list) \<Rightarrow> bool" where
  "ctrl s ph R \<longleftrightarrow> (case mg_state s of
       Mg_Idle \<Rightarrow> R False = [] \<and> R True = []
     | Mg_Wait b \<Rightarrow> (ph b = Ph_Idle \<or> b \<and> ph b = Ph_Header) \<and>
         (if b then parked (ph False) (side False s) else ph True \<in> {Ph_Idle, Ph_Ready 0})
     | Mg_Capture b \<Rightarrow> ph b = Ph_Key (unat (mg_cap_index s)) \<and>
         (if b then parked (ph False) (side False s) else ph True \<in> {Ph_Idle, Ph_Header, Ph_Ready 0})
     | Mg_Cmp_Setup \<Rightarrow> (\<forall>b. parked (ph b) (side b s)) \<and> (\<exists>b. ph b = Ph_Ready 0) \<and> mg_cmp_index s = 0 \<and>
         (mg_prev_state s = Mg_Cmp_Setup \<longrightarrow> pipe_ok s)
     | st \<Rightarrow> st \<in> {Mg_Emit_Header, Mg_Emit_Payload, Mg_Copy_Prev_Key, Mg_Stream_Value, Mg_Drain_Value} \<and>
         ph (mg_sel s) = Ph_Ready (if st \<in> {Mg_Stream_Value, Mg_Drain_Value} then unat (mg_emit_index s)
           else if st = Mg_Copy_Prev_Key then length (snd (hd (R (mg_sel s)))) else 0) \<and>
         parked (ph (\<not> mg_sel s)) (side (\<not> mg_sel s) s))"

definition outcome :: "entry list \<Rightarrow> byte list option \<Rightarrow> byte list option \<Rightarrow> entry list \<Rightarrow> entry list \<Rightarrow> bool" where
  "outcome T L prev zs Q \<longleftrightarrow> T = Q @ fresh prev zs \<and> L = last_user_key prev zs"

text \<open>What is left when the selected record is taken away.\<close>

definition others :: "bool \<Rightarrow> (bool \<Rightarrow> entry list) \<Rightarrow> entry list" where
  "others b R = weave (if b then R False else tl (R False)) (if b then tl (R True) else R True)"

definition prev_regs :: "merger \<Rightarrow> entry \<Rightarrow> bool" where
  "prev_regs s r \<longleftrightarrow> mg_have_prev s \<and> unat (mg_prev_len s) = length (fst r) - 8"

definition current :: "merger \<Rightarrow> (bool \<Rightarrow> entry list) \<Rightarrow> entry" where
  "current s R = hd (R (mg_sel s))"

definition chosen :: "entry list \<Rightarrow> byte list option \<Rightarrow> merger \<Rightarrow> (bool \<Rightarrow> entry list) \<Rightarrow> entry list \<Rightarrow> bool" where
  "chosen T L s R Q \<longleftrightarrow> loaded s (current s R) \<and> prev_regs s (current s R) \<and>
     outcome T L (Some (user_key (fst (current s R)))) (others (mg_sel s) R) Q"

text \<open>The records that have left the merger are the beginning of the merge of what the sources had.\<close>

definition progress :: "entry list \<Rightarrow> byte list option \<Rightarrow> merger \<Rightarrow> (bool \<Rightarrow> entry list) \<Rightarrow> entry list \<Rightarrow> sink \<Rightarrow> bool" where
  "progress T L s R Q k \<longleftrightarrow> length (mg_prev_mem s) = MAX_USER_KEY_BYTES \<and>
     (let r = current s R; e = unat (mg_emit_index s); m = mg_prev_mem s; u = length (fst r) - 8
      in case mg_state s of
        Mg_Emit_Header \<Rightarrow> chosen T L s R (Q @ [r]) \<and> sink_is k Q Q []
      | Mg_Emit_Payload \<Rightarrow> chosen T L s R (Q @ [r]) \<and> e < length (fst r) \<and> starts m (min e u) (fst r) \<and>
          sink_is k (Q @ [r]) Q (take e (fst r))
      | Mg_Stream_Value \<Rightarrow> chosen T L s R (Q @ [r]) \<and> e < length (snd r) \<and> starts m u (fst r) \<and>
          sink_is k (Q @ [r]) Q (fst r @ take e (snd r))
      | Mg_Drain_Value \<Rightarrow> chosen T L s R Q \<and> e < length (snd r) \<and> starts m u (fst r) \<and> sink_is k Q Q []
      | Mg_Copy_Prev_Key \<Rightarrow> chosen T L s R Q \<and> starts m u (fst r) \<and> sink_is k Q Q []
      | _ \<Rightarrow> sink_is k Q Q [] \<and> (\<exists>prev. prev_is s prev \<and> outcome T L prev (weave (R False) (R True)) Q))"

definition minv_at :: "entry list \<Rightarrow> byte list option \<Rightarrow> (bool \<Rightarrow> phase) \<Rightarrow> (bool \<Rightarrow> entry list) \<Rightarrow> entry list \<Rightarrow>
    merger \<Rightarrow> (bool \<Rightarrow> feed) \<Rightarrow> sink \<Rightarrow> bool" where
  "minv_at T L ph R Q s f k \<longleftrightarrow> (\<forall>b. side_at (ph b) (side b s) (f b) (R b)) \<and> ctrl s ph R \<and> progress T L s R Q k \<and>
     (mg_busy s \<longleftrightarrow> mg_state s \<noteq> Mg_Idle) \<and> \<not> mg_error s"

definition minv :: "entry list \<Rightarrow> byte list option \<Rightarrow> merger \<Rightarrow> (bool \<Rightarrow> feed) \<Rightarrow> sink \<Rightarrow> bool" where
  "minv T L s f k \<longleftrightarrow> (\<exists>ph R Q. minv_at T L ph R Q s f k)"

lemma minvI:
  "(\<And>b. side_at (ph b) (side b s) (f b) (R b)) \<Longrightarrow> ctrl s ph R \<Longrightarrow> progress T L s R Q k \<Longrightarrow>
    mg_busy s = (mg_state s \<noteq> Mg_Idle) \<Longrightarrow> \<not> mg_error s \<Longrightarrow> minv T L s f k"
  unfolding minv_def minv_at_def by blast

lemma prev_is_cong [simp]:
  "prev_is (v\<lparr>mg_state := st\<rparr>) p = prev_is v p" "prev_is (v\<lparr>mg_done := a\<rparr>) p = prev_is v p"
  "prev_is (v\<lparr>mg_busy := a\<rparr>) p = prev_is v p" "prev_is (v\<lparr>mg_cmp_index := n\<rparr>) p = prev_is v p"
  "prev_is (v\<lparr>mg_cap_index := e\<rparr>) p = prev_is v p" "prev_is (put_side c d v) p = prev_is v p"
  "prev_is (mg_defaults i v) p = prev_is v p"
  by (simp_all add: prev_is_def)

section \<open>The end of a record\<close>

lemma refill_inv:
  assumes b: "mg_sel t = mg_sel s" and other: "side_at (ph (\<not> mg_sel s)) (side (\<not> mg_sel s) t) (f (\<not> mg_sel s)) (R (\<not> mg_sel s))"
    and park: "parked (ph (\<not> mg_sel s)) (side (\<not> mg_sel s) s)"
    and same: "\<And>b. sd_buf (side b t) = sd_buf (side b s)" "\<And>b. sd_done (side b s) \<Longrightarrow> sd_done (side b t)"
    and this_side: "length (sd_mem (side (mg_sel s) t)) = MAX_USER_KEY_BYTES" "\<not> sd_pre (side (mg_sel s) t)"
      "delivers (f (mg_sel s)) (tl (R (mg_sel s)))" "sd_done (side (mg_sel s) t) \<Longrightarrow> tl (R (mg_sel s)) = []"
    and prog: "length (mg_prev_mem t) = MAX_USER_KEY_BYTES" "prev_is t u" "sink_is k Q Q []"
      "outcome T L u (others (mg_sel s) R) Q"
    and flags: "mg_busy t" "\<not> mg_error t" "mg_prev_state t \<noteq> Mg_Cmp_Setup"
  shows "minv T L (mg_refill s t) f k"
proof -
  let ?b = "mg_sel s"
  let ?v = "put_side ?b ((side ?b t)\<lparr>sd_buf := False\<rparr>) t"
  define ph' where "ph' = ph(?b := Ph_Idle)"
  define R' where "R' = R(?b := tl (R ?b))"
  have sides: "side_at (ph' b) (side b ?v) (f b) (R' b)" for b
  proof (cases "b = ?b")
    case True
    then show ?thesis using this_side by (simp add: ph'_def R'_def)
  next
    case False
    then have "b = (\<not> ?b)" by simp
    then show ?thesis using other by (simp add: ph'_def R'_def)
  qed
  have rest: "weave (R' False) (R' True) = others ?b R" by (cases ?b) (simp_all add: R'_def others_def)
  have parked': "parked (ph (\<not> ?b)) (side (\<not> ?b) ?v)" using park same(2) by (auto simp: parked_def)
  have buf: "sd_buf (side (\<not> ?b) s) \<longleftrightarrow> ph (\<not> ?b) = Ph_Ready 0"
  proof (cases "ph (\<not> ?b) = Ph_Ready 0")
    case True
    then show ?thesis using other unfolding same(1) [symmetric] True by simp
  next
    case False
    then have "ph (\<not> ?b) = Ph_Idle" using park by (simp add: parked_def)
    then show ?thesis using other False unfolding same(1) [symmetric] by simp
  qed
  have ex: "\<exists>p. prev_is t p \<and> outcome T L p (others ?b R) Q" using prog by blast
  note simps = progress_def rest ex
  show ?thesis
  proof (cases "sd_done (side ?b s)")
    case False
    have "ctrl (?v\<lparr>mg_state := Mg_Wait ?b\<rparr>) ph' R'"
      using parked' by (cases ?b) (auto simp: ctrl_def ph'_def parked_def)
    moreover have "progress T L (?v\<lparr>mg_state := Mg_Wait ?b\<rparr>) R' Q k" using prog(1,3) by (simp add: simps)
    ultimately show ?thesis using False sides flags
      by (intro minvI [of ph' _ _ R']) (simp_all add: mg_refill_def refill_route_def)
  next
    case True
    then have d: "sd_done (side ?b t)" by (rule same(2))
    show ?thesis
    proof (cases "sd_buf (side (\<not> ?b) s)")
      case True
      have "ctrl (mg_compare ?v) ph' R'"
        using parked' d flags(3) buf True by (auto simp: ctrl_def ph'_def mg_compare_def parked_def)
      moreover have "progress T L (mg_compare ?v) R' Q k" using prog(1,3) by (simp add: simps mg_compare_def)
      ultimately show ?thesis using \<open>sd_done (side ?b s)\<close> True sides flags
        by (intro minvI [of ph' _ _ R']) (simp_all add: mg_refill_def refill_route_def mg_compare_def)
    next
      case False
      then have idle: "ph (\<not> ?b) = Ph_Idle" "sd_done (side (\<not> ?b) s)" using park buf by (auto simp: parked_def)
      then have "R (\<not> ?b) = []" using other same(2) by simp
      moreover have "tl (R ?b) = []" using this_side(4) d by simp
      ultimately have R': "R' False = []" "R' True = []" by (cases ?b; simp add: R'_def)+
      then have "ctrl (mg_finish ?v) ph' R'" by (simp add: ctrl_def mg_finish_def)
      moreover have "progress T L (mg_finish ?v) R' Q k" using prog(1,3) by (simp add: simps mg_finish_def)
      ultimately show ?thesis using \<open>sd_done (side ?b s)\<close> False idle sides flags
        by (intro minvI [of ph' _ _ R']) (simp_all add: mg_refill_def refill_route_def mg_finish_def)
    qed
  qed
qed

end
