(* ===== verification/Merger_Wait.thy ===== *)
theory Merger_Wait
  imports Merger_Invariant
begin

text \<open>The states of the merger in which it takes headers and keys keep the invariant.\<close>

lemma side_at_step:
  assumes "side_at (ph b) (side b s) (f b) (R b)" and "drives i w f" and "\<And>b. ph b = Ph_Header \<Longrightarrow> \<not> of_done (w b)"
  shows "side_at (ph b) (side b (mg_defaults i s)) (f b) (R b)"
  using side_at_latch [OF assms(1), of "pt_done (port b i)"] assms(2,3) by auto

lemma consume_nothing [simp]:
  "\<not> accept_header b i s \<Longrightarrow> \<not> (pt_valid (port b i) \<and> axis_ready b i s) \<Longrightarrow> consume b i s f = f"
  by (auto simp: consume_def)

lemma parked_step: "parked p (side b s) \<Longrightarrow> parked p (side b (mg_defaults i s))"
  by (auto simp: parked_def)

lemma wait_inv:
  assumes st: "mg_state s = Mg_Wait b" and sides: "\<And>b. side_at (ph b) (side b s) (f b) (R b)" and ct: "ctrl s ph R"
    and pr: "progress T L s R Q k" and fl: "mg_busy s" "\<not> mg_error s" and dr: "drives i w f"
    and pt: "\<And>b. ph b = Ph_Header \<Longrightarrow> \<not> of_done (w b)"
  shows "minv T L (mg_wait b i s (mg_defaults i s)) (\<lambda>b. consume b i s (f b)) k"
proof -
  let ?t = "mg_defaults i s"
  have quiet: "\<not> axis_ready c i s" "accept_header c i s \<longleftrightarrow> c = b \<and> pt_rec_valid (port b i) \<and> \<not> sd_pre (side b s)" for c
    using st fl by (auto simp: axis_ready_def accept_header_def rec_ready_def can_prefetch_def)
  have step: "side_at (ph c) (side c ?t) (f c) (R c)" for c
    using side_at_step [OF sides dr pt] .
  have other: "side_at (ph (\<not> b)) (side (\<not> b) ?t) (consume (\<not> b) i s (f (\<not> b))) (R (\<not> b))"
    using step [of "\<not> b"] quiet by simp
  have c: "(ph b = Ph_Idle \<or> b \<and> ph b = Ph_Header) \<and>
      (if b then parked (ph False) (side False s) else ph True \<in> {Ph_Idle, Ph_Ready 0})"
    using ct unfolding ctrl_def st mg_state.case .
  note c0 = c [THEN conjunct1] c [THEN conjunct2]
  have c1: "b \<Longrightarrow> parked (ph False) (side False ?t)" "\<not> b \<Longrightarrow> ph True \<in> {Ph_Idle, Ph_Ready 0}"
    using c0(2) parked_step by auto
  have rest: "length (mg_prev_mem ?t) = MAX_USER_KEY_BYTES" "sink_is k Q Q []"
    "\<exists>p. prev_is ?t p \<and> outcome T L p (weave (R False) (R True)) Q"
    using pr st by (simp_all add: progress_def Let_def)
  show ?thesis
  proof (cases "sd_pre (side b s)")
    case True
    then have ph: "ph b = Ph_Header" "b" using sides [of b] c0(1) by (auto split: phase.splits)
    have "side_at Ph_Header (side b ?t) (f b) (R b)" using step [of b] unfolding ph(1) .
    then have hd: "R b \<noteq> []" "in_flight 0 0 (side b ?t) (f b) (hd (R b)) (tl (R b))" "\<not> sd_buf (side b ?t)"
      unfolding side_at.simps by blast+
    then have "0 < length (fst (hd (R b)))" by (auto simp: in_flight_def rec_ok_def)
    define s' where "s' = (put_side b ((side b ?t)\<lparr>sd_pre := False\<rparr>) ?t)\<lparr>mg_cap_index := 0, mg_state := Mg_Capture b\<rparr>"
    have "mg_wait b i s ?t = s'" using True by (simp add: mg_wait_def s'_def)
    moreover have "minv T L s' (\<lambda>b. consume b i s (f b)) k"
    proof (rule minvI [of "ph(b := Ph_Key 0)" _ _ R])
      fix c show "side_at ((ph(b := Ph_Key 0)) c) (side c s') (consume c i s (f c)) (R c)"
      proof (cases "c = b")
        case c: True
        have "consume b i s (f b) = f b" using True quiet by simp
        then show ?thesis using hd \<open>0 < length (fst (hd (R b)))\<close> c by (simp add: s'_def del: defaults_side)
      next
        case False
        then have "c = (\<not> b)" by simp
        then show ?thesis using other by (simp add: s'_def)
      qed
    qed (use rest c1 ph fl in \<open>simp_all add: s'_def ctrl_def progress_def\<close>)
    ultimately show ?thesis by simp
  next
    case nopre: False
    then have idle: "ph b = Ph_Idle" using c0(1) sides [of b] by auto
    then have src: "delivers (f b) (R b)" "length (sd_mem (side b s)) = MAX_USER_KEY_BYTES" "\<not> sd_buf (side b s)"
      "sd_done (side b s) \<Longrightarrow> R b = []" "sd_done (side b ?t) \<Longrightarrow> R b = []"
      using sides [of b] step [of b] by auto
    show ?thesis
    proof (cases "pt_rec_valid (port b i)")
      case True
      then have hs: "fd_hdrs (f b) \<noteq> []" using dr by simp
      then obtain r rs where R: "R b = r # rs" using src(1) by (cases "R b") (auto simp: delivers_def)
      then have h: "fd_hdrs (f b) = header_of r # map header_of rs" using src(1) by (simp add: delivers_def)
      let ?p = "port b i"
      have p: "pt_key_len ?p = fst (header_of r)" "pt_value_len ?p = snd (header_of r)"
        using dr h by (simp_all add: port_of_def)
      have notdone: "sd_done (side b ?t) \<Longrightarrow> rs = []" using src(5) R by auto
      note start = in_flight_start [OF src(1) [unfolded R], of "side b ?t" ?p, OF _ notdone p]
      have len: "length (sd_mem (side b ?t)) = MAX_USER_KEY_BYTES" using src(2) by simp
      have pos: "0 < length (fst r)" using start(1) [OF len] by (auto simp: in_flight_def rec_ok_def)
      define s' where "s' = (put_side b (load_header ?p (side b ?t)) ?t)\<lparr>mg_cap_index := 0, mg_state := Mg_Capture b\<rparr>"
      have "mg_wait b i s ?t = s'" using True nopre quiet start(2) [OF len] by (simp add: mg_wait_def s'_def)
      moreover have "minv T L s' (\<lambda>b. consume b i s (f b)) k"
      proof (rule minvI [of "ph(b := Ph_Key 0)" _ _ R])
        fix c show "side_at ((ph(b := Ph_Key 0)) c) (side c s') (consume c i s (f c)) (R c)"
        proof (cases "c = b")
          case c: True
          have "consume b i s (f b) = (f b)\<lparr>fd_hdrs := tl (fd_hdrs (f b))\<rparr>"
            using True nopre quiet by (simp add: consume_def)
          moreover have "\<not> sd_buf (load_header ?p (side b ?t))" "\<not> sd_pre (load_header ?p (side b ?t))"
            using src(3) nopre by (simp_all add: load_header_def)
          ultimately show ?thesis using start(1) [OF len] pos c R by (simp add: s'_def)
        next
          case False
          then have "c = (\<not> b)" by simp
          then show ?thesis using other by (simp add: s'_def)
        qed
      qed (use rest c1 fl in \<open>auto simp: s'_def ctrl_def progress_def\<close>)
      ultimately show ?thesis by simp
    next
      case False
      then have none: "consume c i s (f c) = f c" for c using quiet by simp
      have keep: "minv T L s' (\<lambda>b. consume b i s (f b)) k"
        if "ctrl s' ph R" "progress T L s' R Q k" "mg_busy s' = (mg_state s' \<noteq> Mg_Idle)" "\<not> mg_error s'"
          "\<And>c. side c s' = side c ?t" for s'
        using that step none by (intro minvI [of ph _ _ R]) simp_all
      show ?thesis
      proof (cases "sd_done (side b s)")
        case ended: True
        then have R: "R b = []" by (rule src(4))
        consider (turn) "\<not> sd_buf (side (\<not> b) s)" "\<not> sd_done (side (\<not> b) s)"
          | (both) "sd_buf (side (\<not> b) s)" | (fin) "\<not> sd_buf (side (\<not> b) s)" "sd_done (side (\<not> b) s)" by blast
        then show ?thesis
        proof cases
          case turn
          have "\<not> b" using turn c0 sides [of False] by (cases b) (auto simp: parked_def)
          then have ct': "ctrl (?t\<lparr>mg_state := Mg_Wait (\<not> b)\<rparr>) ph R"
            using ended idle c1(2) turn sides [of True] by (auto simp: ctrl_def parked_def)
          have "mg_wait b i s ?t = ?t\<lparr>mg_state := Mg_Wait (\<not> b)\<rparr>" using turn ended False nopre quiet by (simp add: mg_wait_def)
          moreover have "minv T L (?t\<lparr>mg_state := Mg_Wait (\<not> b)\<rparr>) (\<lambda>b. consume b i s (f b)) k"
            by (rule keep [OF ct']) (use rest fl in \<open>simp_all add: progress_def\<close>)
          ultimately show ?thesis by simp
        next
          case both
          have "ph (\<not> b) = Ph_Ready 0" using both c0(2) sides [of "\<not> b"] by (cases b) (auto simp: parked_def)
          then have ct': "ctrl (mg_compare ?t) ph R" using st ended idle by (cases b) (auto simp: ctrl_def parked_def mg_compare_def all_bool_eq)
          have "mg_wait b i s ?t = mg_compare ?t" using both ended False nopre quiet by (simp add: mg_wait_def)
          moreover have "minv T L (mg_compare ?t) (\<lambda>b. consume b i s (f b)) k"
            by (rule keep [OF ct']) (use rest fl in \<open>simp_all add: progress_def mg_compare_def\<close>)
          ultimately show ?thesis by simp
        next
          case fin
          then have "ph (\<not> b) = Ph_Idle" using c0(2) sides [of "\<not> b"] by (cases b) (auto simp: parked_def)
          then have "R (\<not> b) = []" using sides [of "\<not> b"] fin by simp
          then have ct': "ctrl (mg_finish ?t) ph R" using R by (cases b) (simp_all add: ctrl_def mg_finish_def)
          have "mg_wait b i s ?t = mg_finish ?t" using fin ended False nopre quiet by (simp add: mg_wait_def)
          moreover have "minv T L (mg_finish ?t) (\<lambda>b. consume b i s (f b)) k"
            by (rule keep [OF ct']) (use rest fl in \<open>simp_all add: progress_def mg_finish_def\<close>)
          ultimately show ?thesis by simp
        qed
      next
        case notdone: False
        have ct': "ctrl ?t ph R" using st idle c1 by (auto simp: ctrl_def)
        have "mg_wait b i s ?t = ?t" using notdone False nopre quiet by (simp add: mg_wait_def)
        moreover have "minv T L ?t (\<lambda>b. consume b i s (f b)) k"
          by (rule keep [OF ct']) (use rest fl st in \<open>simp_all add: progress_def\<close>)
        ultimately show ?thesis by simp
      qed
    qed
  qed
qed

lemma capture_inv:
  assumes st: "mg_state s = Mg_Capture b" and inv: "minv_at T L ph R Q s f k" and dr: "drives i w f"
    and pt: "\<And>b. ph b = Ph_Header \<Longrightarrow> \<not> of_done (w b)"
  shows "\<exists>ph'. (\<forall>c. c \<noteq> b \<longrightarrow> ph' c = ph c) \<and> minv_at T L ph' R Q (mg_capture b i s (mg_defaults i s)) (f(b := consume b i s (f b))) k"
proof -
  let ?t = "mg_defaults i s" and ?s1 = "mg_capture b i s (mg_defaults i s)"
  have sides: "side_at (ph b) (side b s) (f b) (R b)" for b using inv by (simp add: minv_at_def)
  have fl: "mg_busy s" "\<not> mg_error s" using inv st by (simp_all add: minv_at_def)
  have "ctrl s ph R" using inv by (simp add: minv_at_def)
  from this [unfolded ctrl_def st mg_state.case] have ph: "ph b = Ph_Key (unat (mg_cap_index s))"
    and c0: "if b then parked (ph False) (side False s) else ph True \<in> {Ph_Idle, Ph_Header, Ph_Ready 0}" by blast+
  have c1: "b \<Longrightarrow> parked (ph False) (side False ?t)" "\<not> b \<Longrightarrow> ph True \<in> {Ph_Idle, Ph_Header, Ph_Ready 0}"
    using c0 parked_step by auto
  have step: "side_at (ph c) (side c ?t) (f c) (R c)" for c
    using side_at_step [OF sides dr pt] .
  have rest: "length (mg_prev_mem ?t) = MAX_USER_KEY_BYTES" "sink_is k Q Q []"
    "\<exists>p. prev_is ?t p \<and> outcome T L p (weave (R False) (R True)) Q"
    using inv st by (simp_all add: minv_at_def progress_def Let_def)
  have ready: "axis_ready b i s" "\<not> accept_header b i s"
    using st fl by (auto simp: axis_ready_def accept_header_def rec_ready_def can_prefetch_def)
  have keep: "minv_at T L ph' R Q s' (f(b := consume b i s (f b))) k"
    if "ctrl s' ph' R" "progress T L s' R Q k" "mg_busy s' = (mg_state s' \<noteq> Mg_Idle)" "\<not> mg_error s'"
      "side (\<not> b) s' = side (\<not> b) ?t" "ph' (\<not> b) = ph (\<not> b)"
      "side_at (ph' b) (side b s') (consume b i s (f b)) (R b)" for s' ph'
  proof -
    have "side_at (ph' c) (side c s') ((f(b := consume b i s (f b))) c) (R c)" for c
    proof (cases "c = b")
      case False
      then have "c = (\<not> b)" by simp
      then show ?thesis using that(5,6) step [of "\<not> b"] by simp
    qed (use that(7) in simp)
    then show ?thesis using that(1-4) by (simp add: minv_at_def)
  qed
  let ?d = "side b ?t" and ?n = "unat (mg_cap_index s)"
  have now: "side_at (Ph_Key ?n) ?d (f b) (R b)" using step [of b] unfolding ph .
  then have at: "\<not> sd_buf ?d" "\<not> sd_pre ?d" "R b \<noteq> []" "?n < length (fst (hd (R b)))"
    "in_flight ?n 0 ?d (f b) (hd (R b)) (tl (R b))" unfolding side_at.simps by blast+
  obtain r rs where R: "R b = r # rs" using at(3) by (cases "R b") auto
  show ?thesis
  proof (cases "pt_valid (port b i)")
    case False
    then have "?s1 = ?t" "consume b i s (f b) = f b"
      using ready by (simp_all add: mg_capture_def accept_payload_def)
    moreover have "side_at (ph b) (side b ?t) (consume b i s (f b)) (R b)" using step [of b] unfolding calculation(2) .
    then have "minv_at T L ph R Q ?t (f(b := consume b i s (f b))) k"
      by (rule keep [rotated 6]) (use c1 rest fl st ph in \<open>auto simp: ctrl_def progress_def\<close>)
    ultimately show ?thesis by (intro exI [of _ ph]) simp
  next
    case True
    have n: "?n < length (fst r)" and fly: "in_flight ?n 0 ?d (f b) r rs" using at(4,5) R by simp_all
    from in_flight_key [OF fly n refl] obtain x xs where fb: "fd_beats (f b) = x # xs" and dx: "dense x"
      and le: "?n + length (beat_bytes x) \<le> length (fst r)"
      and lst: "bt_last x \<longleftrightarrow> ?n + length (beat_bytes x) = length (fst r) \<and> snd r = []"
      and nx: "in_flight (?n + length (beat_bytes x)) 0 (write_beat (mg_cap_index s) x ?d) ((f b)\<lparr>fd_beats := xs\<rparr>) r rs"
      by blast
    have beat: "pt_beat (port b i) = x" using dr fb by (simp add: port_of_def)
    have acc: "accept_payload b i s" using True ready dx by (simp add: accept_payload_def beat dense_def)
    have cons: "consume b i s (f b) = (f b)\<lparr>fd_beats := xs\<rparr>" using True ready fb by (simp add: consume_def)
    have rl: "length (fst r) \<le> 72" "unat (sd_key_len (side b s)) = length (fst r)" "unat (sd_value_len (side b s)) = length (snd r)"
      using fly by (simp_all add: in_flight_def rec_ok_def regs_of_def)
    have e: "unat (mg_cap_index s + beat_len x) = ?n + length (beat_bytes x)"
      using le rl(1) keep_count_le [of "bt_keep x"] unfolding beat_len_def length_beat_bytes by (intro unat_plus_small) simp
    have fits: "\<not> ucast (sd_key_len (side b s)) < mg_cap_index s + beat_len x" using le rl by (simp add: word_less_nat_alt e)
    have full: "mg_cap_index s + beat_len x = ucast (sd_key_len (side b s)) \<longleftrightarrow> ?n + length (beat_bytes x) = length (fst r)"
      using rl(2) by (simp add: word_unat_eq_iff e)
    have v0: "sd_value_len (side b s) = 0 \<longleftrightarrow> snd r = []" using rl(3) by (simp add: word_unat_eq_iff)
    define d' where "d' = write_beat (mg_cap_index s) x ?d"
    note nx' = nx [folded d'_def]
    define u where "u = put_side b d' ?t"
    have d': "\<not> sd_buf d'" "\<not> sd_pre d'" using at(1,2) by (simp_all add: d'_def)
    have s1: "?s1 = capture_beat b x s u" using acc fits by (simp add: mg_capture_def beat u_def d'_def)
    show ?thesis
    proof (cases "?n + length (beat_bytes x) = length (fst r)")
      case False
      then have "?s1 = u\<lparr>mg_cap_index := mg_cap_index s + beat_len x\<rparr>"
        unfolding s1 capture_beat_def using full lst by simp
      moreover have "minv_at T L (ph(b := Ph_Key (?n + length (beat_bytes x)))) R Q
          (u\<lparr>mg_cap_index := mg_cap_index s + beat_len x\<rparr>) (f(b := consume b i s (f b))) k"
      proof (rule keep)
        show "side_at ((ph(b := Ph_Key (?n + length (beat_bytes x)))) b) (side b (u\<lparr>mg_cap_index := mg_cap_index s + beat_len x\<rparr>))
            (consume b i s (f b)) (R b)"
          using d' False le nx' by (simp add: u_def cons R)
      qed (use c1 rest fl st e in \<open>auto simp: ctrl_def progress_def u_def\<close>)
      ultimately show ?thesis by (intro exI [of _ "ph(b := Ph_Key (?n + length (beat_bytes x)))"]) simp
    next
      case True
      let ?v = "put_side b (d'\<lparr>sd_buf := True\<rparr>) u"
      have at': "side_at (Ph_Ready 0) (side b ?v) (consume b i s (f b)) (R b)"
        using d' nx' True by (simp add: cons R)
      have go: "?s1 = (if sd_buf (side (\<not> b) s) \<or> sd_done (side (\<not> b) s) then mg_compare ?v else ?v\<lparr>mg_state := Mg_Wait (\<not> b)\<rparr>)"
        unfolding s1 capture_beat_def capture_last_def using full True lst v0 by (simp add: u_def)
      have "minv_at T L (ph(b := Ph_Ready 0)) R Q ?s1 (f(b := consume b i s (f b))) k"
      proof (cases "sd_buf (side (\<not> b) s) \<or> sd_done (side (\<not> b) s)")
        case True
        have "parked (ph (\<not> b)) (side (\<not> b) ?t)"
        proof (cases b)
          case False
          then have "ph (\<not> b) \<noteq> Ph_Header" using True sides [of True] by auto
          then show ?thesis using c1(2) True sides [of True] False by (auto simp: parked_def)
        qed (use c1(1) in simp)
        then have "ctrl (mg_compare ?v) (ph(b := Ph_Ready 0)) R"
          using st by (cases b) (auto simp: ctrl_def mg_compare_def all_bool_eq parked_def u_def)
        then show ?thesis unfolding go using True at' rest fl
          by (simp, intro keep) (simp_all add: mg_compare_def progress_def u_def)
      next
        case False
        have "ctrl (?v\<lparr>mg_state := Mg_Wait (\<not> b)\<rparr>) (ph(b := Ph_Ready 0)) R"
          using c1 False sides [of "\<not> b"] by (cases b) (auto simp: ctrl_def parked_def u_def)
        then show ?thesis unfolding go using False at' rest fl
          by (simp, intro keep) (simp_all add: progress_def u_def)
      qed
      then show ?thesis by (intro exI [of _ "ph(b := Ph_Ready 0)"]) simp
    qed
  qed
qed

end
