(* ===== verification/Merger_Take.thy ===== *)
theory Merger_Take
  imports Merger_Wait
begin

text \<open>One clock edge of the merger in the states in which it takes headers and keys.\<close>

section \<open>Headers fetched ahead\<close>

lemma prefetch_inv:
  assumes inv: "minv_at T L ph R Q s f k" and ph: "ph True = Ph_Idle" and st: "mg_state s \<in> {Mg_Capture False, Mg_Wait True}"
    and p: "p = port_of w (f True)" and v: "pt_rec_valid p"
  shows "\<not> bad_header (pt_key_len p) (pt_value_len p)"
    and "minv T L (put_side True ((load_header p (side True s))\<lparr>sd_pre := True\<rparr>) s)
      (f(True := (f True)\<lparr>fd_hdrs := tl (fd_hdrs (f True))\<rparr>)) k"
proof -
  let ?d = "side True s"
  have sides: "side_at (ph b) (side b s) (f b) (R b)" for b using inv by (simp add: minv_at_def)
  have at: "length (sd_mem ?d) = MAX_USER_KEY_BYTES" "\<not> sd_buf ?d" "\<not> sd_pre ?d" "delivers (f True) (R True)"
    "sd_done ?d \<longrightarrow> R True = []" using sides [of True] unfolding ph by simp_all
  have "fd_hdrs (f True) \<noteq> []" using v p by simp
  then obtain r rs where R: "R True = r # rs" using at(4) by (cases "R True") (auto simp: delivers_def)
  have pl: "pt_key_len p = fst (header_of r)" "pt_value_len p = snd (header_of r)"
    using at(4) p R by (simp_all add: port_of_def delivers_def)
  have nd: "\<not> sd_done ?d" using at(5) R by simp
  note start = in_flight_start [OF at(4) [unfolded R] at(1) _ pl]
  show "\<not> bad_header (pt_key_len p) (pt_value_len p)" using start(2) nd by blast
  let ?s' = "put_side True ((load_header p ?d)\<lparr>sd_pre := True\<rparr>) s" and ?f' = "f(True := (f True)\<lparr>fd_hdrs := tl (fd_hdrs (f True))\<rparr>)"
  have fly: "in_flight 0 0 (load_header p ?d) (?f' True) r rs" using start(1) nd by simp
  have "side_at ((ph(True := Ph_Header)) b) (side b ?s') (?f' b) (R b)" for b
  proof (cases b)
    case True
    then show ?thesis using at nd fly R by (simp add: load_header_def)
  next
    case False
    then show ?thesis using sides [of False] by simp
  qed
  moreover have "ctrl ?s' (ph(True := Ph_Header)) R" using inv st by (auto simp: minv_at_def ctrl_def)
  moreover have "progress T L ?s' R Q k" using inv st by (auto simp: minv_at_def progress_def Let_def)
  moreover have "mg_busy ?s' = (mg_state ?s' \<noteq> Mg_Idle)" "\<not> mg_error ?s'" using inv by (simp_all add: minv_at_def)
  ultimately show "minv T L ?s' ?f' k" by (rule minvI)
qed

lemma capture_result:
  "mg_error (mg_capture b i s t) \<or> sd_buf (side (\<not> b) s) \<or> sd_done (side (\<not> b) s) \<or>
    mg_state (mg_capture b i s t) \<in> {mg_state t, Mg_Wait (\<not> b)}"
  "side (\<not> b) (mg_capture b i s t) = side (\<not> b) t"
  by (auto simp: mg_capture_def capture_beat_def capture_last_def mg_fail_def mg_compare_def)

lemma step_busy:
  assumes "drives i w f" and "mg_busy s" and "\<not> mg_error s"
  shows "mg_step i s = mg_prefetch True i s (mg_prefetch False i s (mg_case i s (mg_defaults i s)))"
  using assms by (simp add: mg_step_def mg_clocked_def)

lemma no_prefetch [simp]: "\<not> can_prefetch b s \<Longrightarrow> mg_prefetch b i s t = t"
  by (simp add: mg_prefetch_def)

lemma quiet_sink:
  "mg_state s \<notin> {Mg_Emit_Header, Mg_Emit_Payload, Mg_Stream_Value} \<Longrightarrow> sink_next i s k = k"
  by (simp add: sink_next_def sink_header_def sink_beat_def m_rec_valid_def m_valid_def)

lemma capture_step:
  assumes st: "mg_state s = Mg_Capture b" and inv: "minv_at T L ph R Q s f k" and dr: "drives i w f"
    and pt: "\<And>b. ph b = Ph_Header \<Longrightarrow> \<not> of_done (w b)"
  shows "minv T L (mg_step i s) (\<lambda>b. consume b i s (f b)) (sink_next i s k)"
proof -
  let ?t = "mg_defaults i s" and ?s1 = "mg_capture b i s (mg_defaults i s)"
  have sides: "side_at (ph b) (side b s) (f b) (R b)" for b using inv by (simp add: minv_at_def)
  have fl: "mg_busy s" "\<not> mg_error s" using inv st by (simp_all add: minv_at_def)
  have "ctrl s ph R" using inv by (simp add: minv_at_def)
  from this [unfolded ctrl_def st mg_state.case]
  have c0: "if b then parked (ph False) (side False s) else ph True \<in> {Ph_Idle, Ph_Header, Ph_Ready 0}" by blast
  have k: "sink_next i s k = k" using st by (simp add: quiet_sink)
  have "\<not> can_prefetch False s"
    using st c0 sides [of False] by (cases b) (auto simp: can_prefetch_def parked_def)
  then have run: "mg_step i s = mg_prefetch True i s ?s1" using st fl by (simp add: step_busy [OF dr] mg_case_def)
  obtain ph' where ph': "\<And>c. c \<noteq> b \<Longrightarrow> ph' c = ph c" and inv1: "minv_at T L ph' R Q ?s1 (f(b := consume b i s (f b))) k"
    using capture_inv [OF st inv dr pt] by blast
  have acc: "accept_header c i s \<longleftrightarrow> can_prefetch c s \<and> pt_rec_valid (port c i)" for c
    using st fl by (auto simp: accept_header_def rec_ready_def)
  have "\<not> can_prefetch b s" using st by (simp add: can_prefetch_def)
  have none: "c \<noteq> b \<Longrightarrow> \<not> axis_ready c i s" for c using st by (auto simp: axis_ready_def)
  show ?thesis
  proof (cases "can_prefetch True s \<and> pt_rec_valid (port True i)")
    case False
    then have "mg_step i s = ?s1" unfolding run by (simp add: mg_prefetch_def)
    moreover have "(\<lambda>c. consume c i s (f c)) = f(b := consume b i s (f b))"
    proof
      fix c
      have "\<not> accept_header c i s" if "c \<noteq> b"
        using False \<open>\<not> can_prefetch False s\<close> unfolding acc by (cases c) auto
      then show "consume c i s (f c) = (f(b := consume b i s (f b))) c" using none [of c] by auto
    qed
    ultimately show ?thesis using inv1 unfolding k minv_def by auto
  next
    case True
    then have b: "\<not> b" using st by (auto simp: can_prefetch_def)
    have cp: "\<not> sd_buf (side True s)" "\<not> sd_done (side True s)" "\<not> sd_pre (side True s)"
      using True by (simp_all add: can_prefetch_def)
    then have "ph True = Ph_Idle" using c0 b sides [of True] by auto
    then have p1: "ph' True = Ph_Idle" using ph' [of True] b by simp
    have st1: "mg_state ?s1 \<in> {Mg_Capture False, Mg_Wait True}"
      using capture_result(1) [of b i s ?t] cp b inv1 st by (auto simp: minv_at_def)
    have side1: "side True ?s1 = side True ?t" using capture_result(2) [of b i s ?t] b by simp
    have port: "port True i = port_of (w True) ((f(b := consume b i s (f b))) True)" using dr b by simp
    note pre = prefetch_inv [OF inv1 p1 st1 port True [THEN conjunct2]]
    have feq: "(f(b := consume b i s (f b))) True = f True" using b by simp
    have e1: "mg_step i s = put_side True ((load_header (port True i) (side True ?s1))\<lparr>sd_pre := True\<rparr>) ?s1"
      unfolding run mg_prefetch_def using True pre(1) by (simp add: side1)
    have e2: "(\<lambda>c. consume c i s (f c)) = (f(b := consume b i s (f b)))
        (True := (f True)\<lparr>fd_hdrs := tl (fd_hdrs (f True))\<rparr>)"
    proof
      fix c
      have "consume True i s (f True) = (f True)\<lparr>fd_hdrs := tl (fd_hdrs (f True))\<rparr>"
        using True acc [of True] none [of True] b by (simp add: consume_def)
      then show "consume c i s (f c) = ((f(b := consume b i s (f b)))(True := (f True)\<lparr>fd_hdrs := tl (fd_hdrs (f True))\<rparr>)) c"
        using b by (cases c) auto
    qed
    show ?thesis using pre(2) unfolding k e1 e2 feq .
  qed
qed

lemma wait_step:
  assumes st: "mg_state s = Mg_Wait b" and inv: "minv_at T L ph R Q s f k" and dr: "drives i w f"
    and pt: "\<And>b. ph b = Ph_Header \<Longrightarrow> \<not> of_done (w b)"
  shows "minv T L (mg_step i s) (\<lambda>b. consume b i s (f b)) (sink_next i s k)"
proof -
  have fl: "mg_busy s" "\<not> mg_error s" using inv st by (simp_all add: minv_at_def)
  have "\<not> can_prefetch c s" for c using st by (simp add: can_prefetch_def)
  then have "mg_step i s = mg_wait b i s (mg_defaults i s)" using st fl by (simp add: step_busy [OF dr] mg_case_def)
  moreover have "sink_next i s k = k" using st by (simp add: quiet_sink)
  moreover have "minv T L (mg_wait b i s (mg_defaults i s)) (\<lambda>b. consume b i s (f b)) k"
    using inv unfolding minv_at_def by (intro wait_inv [OF st _ _ _ fl dr pt]) blast+
  ultimately show ?thesis by simp
qed

lemma idle_step:
  assumes st: "mg_state s = Mg_Idle" and inv: "minv_at T L ph R Q s f k" and dr: "drives i w f"
    and pt: "\<And>b. ph b = Ph_Header \<Longrightarrow> \<not> of_done (w b)"
  shows "minv T L (mg_step i s) (\<lambda>b. consume b i s (f b)) (sink_next i s k)"
proof -
  let ?t = "mg_defaults i s"
  have fl: "\<not> mg_busy s" "\<not> mg_error s" using inv st by (simp_all add: minv_at_def)
  then have run: "mg_step i s = ?t" using dr by (simp add: mg_step_def mg_clocked_def)
  have none: "consume c i s (f c) = f c" for c
    using fl by (simp add: accept_header_def rec_ready_def axis_ready_def)
  have sides: "side_at (ph c) (side c ?t) (f c) (R c)" for c
    using side_at_step [OF _ dr pt, of ph c s R] inv by (simp add: minv_at_def)
  have "progress T L s R Q k" using inv by (simp add: minv_at_def)
  then have pr: "progress T L ?t R Q k" using st by (simp add: progress_def)
  have rest: "ctrl ?t ph R" "mg_busy ?t = (mg_state ?t \<noteq> Mg_Idle)" "\<not> mg_error ?t"
    using inv st by (simp_all add: minv_at_def ctrl_def)
  have "minv T L ?t f k" by (rule minvI [OF sides rest(1) pr rest(2,3)])
  moreover have "sink_next i s k = k" using st by (simp add: quiet_sink)
  ultimately show ?thesis unfolding run none by simp
qed

end
