(* ===== verification/Merger_Emitting.thy ===== *)
theory Merger_Emitting
  imports Merger_Take
begin

text \<open>One clock edge of the merger in the states in which it compares, emits, streams and drains.\<close>

section \<open>What these states share\<close>

lemma chosen_cong [simp]:
  "chosen T L (v\<lparr>mg_state := st\<rparr>) R Q = chosen T L v R Q" "chosen T L (v\<lparr>mg_emit_index := e\<rparr>) R Q = chosen T L v R Q"
  "chosen T L (v\<lparr>mg_prev_mem := m\<rparr>) R Q = chosen T L v R Q" "chosen T L (v\<lparr>mg_cmp_index := n\<rparr>) R Q = chosen T L v R Q"
  "chosen T L (mg_defaults i v) R Q = chosen T L v R Q"
  by (simp_all add: chosen_def loaded_def prev_regs_def current_def)

lemma current_cong [simp]:
  "current (v\<lparr>mg_state := st\<rparr>) R = current v R" "current (v\<lparr>mg_emit_index := e\<rparr>) R = current v R"
  "current (v\<lparr>mg_prev_mem := m\<rparr>) R = current v R" "current (v\<lparr>mg_cmp_index := n\<rparr>) R = current v R"
  "current (mg_defaults i v) R = current v R"
  by (simp_all add: current_def)

lemma full_key_done [simp]: "full_key r (d\<lparr>sd_done := a\<rparr>) = full_key r d"
  by (simp add: full_key_def)

lemma starts_user: "starts m (length k - 8) k \<longleftrightarrow> starts m (length (user_key k)) (user_key k)"
  by (simp add: starts_def user_key_def)

abbreviation both_ready :: "merger \<Rightarrow> (bool \<Rightarrow> phase) \<Rightarrow> bool" where
  "both_ready s ph \<equiv> \<forall>b. parked (ph b) (side b s) \<or> (\<exists>m. ph b = Ph_Ready m)"

lemma late_step:
  assumes inv: "minv_at T L ph R Q s f k" and dr: "drives i w f" and busy: "mg_state s \<noteq> Mg_Idle"
    and late: "both_ready s ph" and st: "\<And>b. mg_state s \<noteq> Mg_Wait b"
  shows "mg_step i s = mg_case i s (mg_defaults i s)" and "\<not> accept_header c i s"
    and "side_at (ph c) (side c (mg_defaults i s)) (f c) (R c)" and "mg_busy s" "\<not> mg_error s"
proof -
  have sides: "side_at (ph b) (side b s) (f b) (R b)" for b using inv by (simp add: minv_at_def)
  show fl: "mg_busy s" "\<not> mg_error s" using inv busy by (simp_all add: minv_at_def)
  have ph: "ph b \<noteq> Ph_Header" for b using late [rule_format, of b] by (auto simp: parked_def)
  have none: "\<not> can_prefetch b s" for b
  proof -
    have "sd_buf (side b s) \<or> sd_done (side b s)" using late [rule_format, of b] sides [of b] by (auto simp: parked_def)
    then show ?thesis by (auto simp: can_prefetch_def)
  qed
  show "mg_step i s = mg_case i s (mg_defaults i s)" using fl none by (simp add: step_busy [OF dr])
  show "\<not> accept_header c i s" using none st by (simp add: accept_header_def rec_ready_def)
  show "side_at (ph c) (side c (mg_defaults i s)) (f c) (R c)"
    by (rule side_at_step [where w = w, OF sides dr]) (use ph in blast)
qed

text \<open>The selected record has been passed on or dropped.\<close>

lemma finish_inv:
  assumes sel: "mg_sel t = mg_sel s" and sides: "\<And>b. side_at (ph b) (side b t) (f b) (R b)"
    and this_ph: "ph (mg_sel s) = Ph_Ready (length (snd (current s R)))"
    and park: "parked (ph (\<not> mg_sel s)) (side (\<not> mg_sel s) s)"
    and same: "\<And>b. sd_buf (side b t) = sd_buf (side b s)" "\<And>b. sd_done (side b s) \<Longrightarrow> sd_done (side b t)"
    and ch: "chosen T L t R Q" and m: "starts (mg_prev_mem t) (length (fst (current s R)) - 8) (fst (current s R))"
    and k: "sink_is k Q Q []" and flags: "mg_busy t" "\<not> mg_error t" "mg_prev_state t \<noteq> Mg_Cmp_Setup"
  shows "minv T L (mg_refill s t) f k"
proof -
  let ?b = "mg_sel s" and ?r = "current s R"
  have r: "current t R = ?r" using sel by (simp add: current_def)
  have at: "\<not> sd_pre (side ?b t)" "in_flight (length (fst ?r)) (length (snd ?r)) (side ?b t) (f ?b) ?r (tl (R ?b))"
    using sides [of ?b] unfolding this_ph by (simp_all add: current_def)
  have "outcome T L (Some (user_key (fst ?r))) (others ?b R) Q" "prev_regs t ?r"
    using ch unfolding chosen_def r sel by blast+
  note c = this
  have "length (user_key (fst ?r)) = length (fst ?r) - 8" by (simp add: user_key_def)
  then have p: "prev_is t (Some (user_key (fst ?r)))" using c(2) m unfolding starts_user by (simp add: prev_is_def prev_regs_def)
  show ?thesis
    by (rule refill_inv [where ph = ph and R = R, OF sel sides park same _ at(1) in_flight_finished [OF at(2)] _ _ p k c(1) flags])
      (use at(2) m in \<open>auto simp: in_flight_def holds_def starts_def\<close>)
qed

section \<open>Comparing\<close>

lemma pipe_ok_defaults: "pipe_ok (mg_defaults i s)"
proof -
  let ?t = "mg_defaults i s"
  have d: "sd_ukey_len (side b ?t) = sd_ukey_len (side b s)" "sd_mem (side b ?t) = sd_mem (side b s)" for b by simp_all
  have e: "sd_ukey_len (mg_side0 ?t) = sd_ukey_len (mg_side0 s)" "sd_mem (mg_side0 ?t) = sd_mem (mg_side0 s)"
    "sd_ukey_len (mg_side1 ?t) = sd_ukey_len (mg_side1 s)" "sd_mem (mg_side1 ?t) = sd_mem (mg_side1 s)"
    using d [of False] d [of True] by (simp_all only: side_def if_True if_False)
  have pos: "cmp_pos ?t = cmp_pos s" by (simp add: cmp_pos_def fun_eq_iff)
  have "compare_at ?t = compare_at s" by (intro ext) (simp only: compare_at_def e)
  then have "first_difference ?t = first_difference s" by (simp add: first_difference_def pos)
  moreover have "cmp01_all_done ?t = cmp01_all_done s" by (simp add: cmp01_all_done_def e)
  moreover have "differs_at ?t (side b ?t) p = differs_at s (side b s) p" for b p
    by (simp only: differs_at_def d defaults_other)
  then have "differs_from_prev b ?t = differs_from_prev b s" for b by (simp add: differs_from_prev_def pos del: defaults_side)
  ultimately show ?thesis by (simp add: pipe_ok_def) (simp add: mg_defaults_def latch_done_def)
qed


lemma select_step:
  assumes st: "mg_state s = Mg_Cmp_Setup" and inv: "minv_at T L ph R Q s f k" and dr: "drives i w f"
  shows "minv T L (mg_step i s) (\<lambda>b. consume b i s (f b)) (sink_next i s k)"
proof -
  let ?t = "mg_defaults i s"
  have sides: "side_at (ph b) (side b s) (f b) (R b)" for b using inv by (simp add: minv_at_def)
  have "ctrl s ph R" using inv by (simp add: minv_at_def)
  from this [unfolded ctrl_def st mg_state.case]
  have park: "parked (ph b) (side b s)" and some: "\<exists>b. ph b = Ph_Ready 0" and ci: "mg_cmp_index s = 0"
    and pipe: "mg_prev_state s = Mg_Cmp_Setup \<longrightarrow> pipe_ok s" for b by blast+
  have ready: "mg_state s \<noteq> Mg_Idle" "both_ready s ph" "mg_state s \<noteq> Mg_Wait b" for b using park st by auto
  note late = late_step [OF inv dr ready]
  have k: "sink_next i s k = k" using st by (simp add: quiet_sink)
  have none: "consume c i s (f c) = f c" for c using late(2) st by (simp add: axis_ready_def)
  obtain p where pr: "length (mg_prev_mem s) = MAX_USER_KEY_BYTES" "sink_is k Q Q []" "prev_is s p"
    "outcome T L p (weave (R False) (R True)) Q"
    using inv st by (auto simp: minv_at_def progress_def Let_def)
  have run: "mg_step i s = mg_select s ?t" using late(1) by (simp add: mg_case_def st)
  show ?thesis
  proof (cases "mg_prev_state s = Mg_Cmp_Setup")
    case False
    then have e: "mg_step i s = ?t" unfolding run by (simp add: mg_select_def cmp_pipe_valid_def st)
    have "ctrl ?t ph R" using park some ci st parked_step pipe_ok_defaults by (simp add: ctrl_def del: defaults_side)
    moreover have "progress T L ?t R Q k" using pr st by (auto simp: progress_def)
    ultimately have "minv T L ?t f k" by (rule minvI [OF late(3)]) (simp_all add: late(4,5) st)
    then show ?thesis unfolding e k none .
  next
    case True
    then have ok: "pipe_ok s" using pipe by blast
    have buf: "sd_buf (side b s) \<longleftrightarrow> R b \<noteq> []" "R b \<noteq> [] \<Longrightarrow> ph b = Ph_Ready 0 \<and> full_key (hd (R b)) (side b s)" for b
      using park [of b] sides [of b] by (auto simp: parked_def full_key_def in_flight_def)
    have ne: "R False \<noteq> [] \<or> R True \<noteq> []" using some sides by (metis (full_types) side_at.simps(4))
    note b01 = buf [of False, unfolded side_def if_False] buf [of True, unfolded side_def if_True]
    have sel: "next_sel_valid s" "next_sel_src s = picks_second (R False) (R True)"
      using next_sel_correct [OF ok ci b01(1) _ b01(3) _ ne] b01(2,4) by (simp_all add: side_def)
    define b where "b = next_sel_src s"
    have Rb: "R b \<noteq> []" using ne sel(2) by (auto simp: b_def picks_second_def)
    define r where "r = hd (R b)"
    have full: "full_key r (side b s)" and phb: "ph b = Ph_Ready 0" using buf(2) [OF Rb] by (simp_all add: r_def)
    have keep: "next_keep s \<longleftrightarrow> p \<noteq> Some (user_key (fst r))"
      by (rule next_keep_correct [OF ok ci full [unfolded b_def] pr(3)])
    have w: "weave (R False) (R True) = r # others b R"
      unfolding weave_picks [OF ne] using sel(2) by (simp add: b_def others_def r_def)
    have regs: "unat (sd_ukey_len (side b s)) = length (fst r) - 8" "unat (sd_value_len (side b s)) = length (snd r)"
      using full by (simp_all add: full_key_def regs_of_def)
    define u where "u = ?t\<lparr>mg_sel := b, mg_keep := next_keep s, mg_cmp_index := 0,
      mg_counts := count_record (side b s) (next_keep s) (mg_counts s), mg_sel_ukey_len := sd_ukey_len (side b s),
      mg_sel_key_len := sd_key_len (side b s), mg_sel_value_len := sd_value_len (side b s),
      mg_have_prev := True, mg_prev_len := sd_ukey_len (side b s)\<rparr>"
    have e: "mg_step i s = route_selected (next_keep s) (side b s) u"
      unfolding run using True st sel(1) by (simp add: mg_select_def cmp_pipe_valid_def take_selected_def b_def u_def)
    have side_u: "side c u = side c ?t" for c by (simp add: u_def del: defaults_side)
    have cur: "current u R = r" by (simp add: current_def u_def r_def)
    have ld: "loaded u r" "prev_regs u r" using full regs by (simp_all add: loaded_def prev_regs_def u_def full_key_def)
    have oth: "parked (ph (\<not> b)) (side (\<not> b) u)" unfolding side_u using park parked_step by blast
    have u: "mg_sel u = b" "mg_prev_mem u = mg_prev_mem s" "mg_busy u" "\<not> mg_error u" using late(4,5) by (simp_all add: u_def)
    show ?thesis
    proof (cases "next_keep s")
      case True
      let ?v = "u\<lparr>mg_emit_index := 0, mg_state := Mg_Emit_Header\<rparr>"
      have "outcome T L (Some (user_key (fst r))) (others b R) (Q @ [r])" using pr(4) keep True by (simp add: w outcome_def)
      then have "chosen T L u R (Q @ [r])" using ld u by (simp add: chosen_def cur)
      then have "progress T L ?v R Q k" using pr u by (simp add: progress_def cur)
      moreover have "ctrl ?v ph R" using phb oth u(1) by (simp add: ctrl_def)
      ultimately have "minv T L ?v f k" using late(3) by (intro minvI [of ph _ _ R]) (simp_all add: u side_u del: defaults_side)
      then show ?thesis unfolding e k none using True by (simp add: route_selected_def)
    next
      case False
      then have drop: "p = Some (user_key (fst r))" using keep by blast
      then have o: "outcome T L (Some (user_key (fst r))) (others b R) Q" using pr(4) by (simp add: w outcome_def)
      have m: "starts (mg_prev_mem u) (length (fst r) - 8) (fst r)" using pr(3) drop unfolding starts_user by (simp add: prev_is_def u)
      let ?v = "if snd r = [] then u\<lparr>mg_state := Mg_Copy_Prev_Key\<rparr> else u\<lparr>mg_emit_index := 0, mg_state := Mg_Drain_Value\<rparr>"
      have "chosen T L u R Q" using o ld u by (simp add: chosen_def cur)
      then have "progress T L ?v R Q k" using pr u m by (simp add: progress_def cur)
      moreover have "ctrl ?v ph R" using phb oth u(1) cur by (simp add: ctrl_def current_def)
      ultimately have "minv T L ?v f k" using late(3) by (intro minvI [of ph _ _ R]) (simp_all add: u side_u del: defaults_side)
      moreover have "sd_value_len (side b s) = 0 \<longleftrightarrow> snd r = []" using regs(2) by (simp add: word_unat_eq_iff)
      ultimately show ?thesis unfolding e k none using False by (cases "snd r = []") (simp_all add: route_selected_def)
    qed
  qed
qed


section \<open>Emitting\<close>

lemma sel_late:
  assumes inv: "minv_at T L ph R Q s f k" and dr: "drives i w f"
    and st: "mg_state s \<in> {Mg_Emit_Header, Mg_Emit_Payload, Mg_Copy_Prev_Key, Mg_Stream_Value, Mg_Drain_Value}"
  shows "mg_step i s = mg_case i s (mg_defaults i s)" and "\<not> accept_header c i s"
    and "side_at (ph c) (side c (mg_defaults i s)) (f c) (R c)" and "mg_busy s" "\<not> mg_error s"
    and "parked (ph (\<not> mg_sel s)) (side (\<not> mg_sel s) s)"
    and "ph (mg_sel s) = Ph_Ready (if mg_state s \<in> {Mg_Stream_Value, Mg_Drain_Value} then unat (mg_emit_index s)
           else if mg_state s = Mg_Copy_Prev_Key then length (snd (current s R)) else 0)"
proof -
  have "ctrl s ph R" using inv by (simp add: minv_at_def)
  then have c: "parked (ph (\<not> mg_sel s)) (side (\<not> mg_sel s) s)"
    "ph (mg_sel s) = Ph_Ready (if mg_state s \<in> {Mg_Stream_Value, Mg_Drain_Value} then unat (mg_emit_index s)
       else if mg_state s = Mg_Copy_Prev_Key then length (snd (current s R)) else 0)"
    using st by (auto simp: ctrl_def current_def)
  show "parked (ph (\<not> mg_sel s)) (side (\<not> mg_sel s) s)"
    "ph (mg_sel s) = Ph_Ready (if mg_state s \<in> {Mg_Stream_Value, Mg_Drain_Value} then unat (mg_emit_index s)
       else if mg_state s = Mg_Copy_Prev_Key then length (snd (current s R)) else 0)" by (fact c)+
  have "parked (ph b) (side b s) \<or> (\<exists>m. ph b = Ph_Ready m)" for b
  proof (cases "b = mg_sel s")
    case False
    then have "b = (\<not> mg_sel s)" by simp
    then show ?thesis using c(1) by simp
  qed (use c(2) in simp)
  then have ready: "mg_state s \<noteq> Mg_Idle" "both_ready s ph" "mg_state s \<noteq> Mg_Wait b" for b using st by auto
  note late = late_step [OF inv dr ready]
  show "mg_step i s = mg_case i s (mg_defaults i s)" "\<not> accept_header c i s"
    "side_at (ph c) (side c (mg_defaults i s)) (f c) (R c)" "mg_busy s" "\<not> mg_error s" by (fact late)+
qed

text \<open>What a state in which a record is selected must satisfy.\<close>

lemma sel_minvI:
  assumes st: "mg_state v \<in> {Mg_Emit_Header, Mg_Emit_Payload, Mg_Copy_Prev_Key, Mg_Stream_Value, Mg_Drain_Value}"
    and sides: "\<And>b. side_at (ph b) (side b v) (f b) (R b)"
    and ph: "ph (mg_sel v) = Ph_Ready (if mg_state v \<in> {Mg_Stream_Value, Mg_Drain_Value} then unat (mg_emit_index v)
           else if mg_state v = Mg_Copy_Prev_Key then length (snd (current v R)) else 0)"
    and park: "parked (ph (\<not> mg_sel v)) (side (\<not> mg_sel v) v)"
    and "progress T L v R Q k" and "mg_busy v" "\<not> mg_error v"
  shows "minv T L v f k"
proof -
  have "ctrl v ph R" using st ph park by (auto simp: ctrl_def current_def)
  then show ?thesis using assms by (intro minvI [of ph _ _ R]) auto
qed

lemma emit_header_step:
  assumes st: "mg_state s = Mg_Emit_Header" and inv: "minv_at T L ph R Q s f k" and dr: "drives i w f"
  shows "minv T L (mg_step i s) (\<lambda>b. consume b i s (f b)) (sink_next i s k)"
proof -
  let ?t = "mg_defaults i s" and ?r = "current s R"
  have "mg_state s \<in> {Mg_Emit_Header, Mg_Emit_Payload, Mg_Copy_Prev_Key, Mg_Stream_Value, Mg_Drain_Value}" using st by simp
  note late = sel_late [OF inv dr this]
  have ph: "ph (mg_sel s) = Ph_Ready 0" using late(7) st by simp
  have park: "parked (ph (\<not> mg_sel s)) (side (\<not> mg_sel s) ?t)" using late(6) by (rule parked_step)
  have none: "consume c i s (f c) = f c" for c using late(2) st by (simp add: axis_ready_def)
  have pr: "length (mg_prev_mem s) = MAX_USER_KEY_BYTES" "chosen T L s R (Q @ [?r])" "sink_is k Q Q []"
    using inv st by (simp_all add: minv_at_def progress_def Let_def)
  have "loaded s ?r" using pr(2) by (simp add: chosen_def)
  note l = loadedD [OF this]
  have nobeat: "sink_beat i s = None" using st by (simp add: sink_beat_def m_valid_def)
  show ?thesis
  proof (cases "g_rec_ready i")
    case False
    then have "mg_step i s = ?t" "sink_next i s k = k"
      using late(1) nobeat by (simp_all add: mg_case_def st sink_next_def sink_header_def)
    moreover have "minv T L ?t f k"
      by (rule sel_minvI [where Q = Q, OF _ late(3)]) (use ph park pr st late(4,5) in \<open>simp_all add: progress_def del: defaults_side\<close>)
    ultimately show ?thesis unfolding none by simp
  next
    case True
    let ?v = "?t\<lparr>mg_emit_index := 0, mg_state := Mg_Emit_Payload\<rparr>"
    have "(mg_sel_key_len s, mg_sel_value_len s) = header_of ?r"
      unfolding header_of_def l(5,6) [symmetric] by simp
    then have k: "sink_is (sink_next i s k) (Q @ [?r]) Q []"
      using pr(3) True late(4,5) nobeat by (simp add: sink_is_def sink_next_def sink_header_def m_rec_valid_def st)
    have "mg_step i s = ?v" using late True by (simp add: mg_case_def st m_rec_valid_def)
    moreover have "minv T L ?v f (sink_next i s k)"
      by (rule sel_minvI [where ph = ph and R = R and Q = Q])
        (use ph park pr k l(1) late in \<open>auto simp: progress_def starts_def simp del: defaults_side\<close>)
    ultimately show ?thesis unfolding none by simp
  qed
qed


lemma collect_some:
  assumes "sink_is k hs fs cur" and "sink_header i s = []" and "sink_beat i s = Some x"
  shows "sink_next i s k = (if bt_last x then (map header_of hs, map (\<lambda>r. fst r @ snd r) fs @ [cur @ beat_bytes x], [])
    else (map header_of hs, map (\<lambda>r. fst r @ snd r) fs, cur @ beat_bytes x))"
  using assms by (simp add: sink_is_def sink_next_def)

lemma emit_payload_step:
  assumes st: "mg_state s = Mg_Emit_Payload" and inv: "minv_at T L ph R Q s f k" and dr: "drives i w f"
  shows "minv T L (mg_step i s) (\<lambda>b. consume b i s (f b)) (sink_next i s k)"
proof -
  let ?t = "mg_defaults i s" and ?r = "current s R" and ?e = "unat (mg_emit_index s)"
  let ?n = "length (fst ?r)"
  have "mg_state s \<in> {Mg_Emit_Header, Mg_Emit_Payload, Mg_Copy_Prev_Key, Mg_Stream_Value, Mg_Drain_Value}" using st by simp
  note late = sel_late [OF inv dr this]
  have ph: "ph (mg_sel s) = Ph_Ready 0" using late(7) st by simp
  have park: "parked (ph (\<not> mg_sel s)) (side (\<not> mg_sel s) ?t)" using late(6) by (rule parked_step)
  have none: "consume c i s (f c) = f c" for c using late(2) st by (simp add: axis_ready_def)
  have pr: "length (mg_prev_mem s) = MAX_USER_KEY_BYTES" "chosen T L s R (Q @ [?r])" "?e < ?n"
    "starts (mg_prev_mem s) (min ?e (?n - 8)) (fst ?r)" "sink_is k (Q @ [?r]) Q (take ?e (fst ?r))"
    using inv st by (simp_all add: minv_at_def progress_def Let_def)
  have ld: "loaded s ?r" using pr(2) by (simp add: chosen_def)
  note l = loadedD [OF ld]
  have nohdr: "sink_header i s = []" using st by (simp add: sink_header_def m_rec_valid_def)
  show ?thesis
  proof (cases "g_axis_ready i")
    case False
    then have "mg_step i s = ?t" "sink_next i s k = k"
      using late(1) nohdr by (simp_all add: mg_case_def st sink_next_def sink_beat_def mg_emit_payload_def)
    moreover have "minv T L ?t f k"
      by (rule sel_minvI [where Q = Q, OF _ late(3)]) (use ph park pr st late(4,5) in \<open>simp_all add: progress_def del: defaults_side\<close>)
    ultimately show ?thesis unfolding none by simp
  next
    case True
    have mv: "m_valid i s" using late(4,5) st by (simp add: m_valid_def)
    define u where "u = ?t\<lparr>mg_prev_mem := copy_emitted s (mg_prev_mem s)\<rparr>"
    have run: "mg_step i s = emitted s u" using late(1) mv True by (simp add: mg_case_def st mg_emit_payload_def u_def)
    have bytes: "beat_bytes (m_beat i s) = take 8 (drop ?e (fst ?r))" by (rule emitted_bytes [OF ld pr(3) st])
    then have cur: "take ?e (fst ?r) @ beat_bytes (m_beat i s) = take (?e + 8) (fst ?r)" by (simp add: take_add)
    have v0: "mg_sel_value_len s = 0 \<longleftrightarrow> snd ?r = []" using l(6) by (simp add: word_unat_eq_iff)
    have last: "bt_last (m_beat i s) \<longleftrightarrow> snd ?r = [] \<and> last_key_word s" using st v0 by (simp add: m_beat_def)
    have "sink_beat i s = Some (m_beat i s)" using mv True by (simp add: sink_beat_def)
    note k = collect_some [OF pr(5) nohdr this, unfolded cur last]
    note lkw = last_key_word_iff [OF ld pr(3)]
    have m: "starts (mg_prev_mem u) (min (?e + 8) (?n - 8)) (fst ?r)"
      using copy_emitted_starts [OF ld pr(3,4)] by (simp add: u_def)
    have u: "side c u = side c ?t" "mg_sel u = mg_sel s" "mg_busy u" "\<not> mg_error u" "current u R = ?r"
      "chosen T L u R (Q @ [?r])" "mg_prev_state u = Mg_Emit_Payload" "mg_state u = Mg_Emit_Payload" for c
      using pr(2) late(4,5) st by (simp_all add: u_def del: defaults_side)
    have len: "length (mg_prev_mem u) = MAX_USER_KEY_BYTES" using m by (simp add: starts_def)
    show ?thesis
    proof (cases "last_key_word s")
      case False
      then have e: "unat (mg_emit_index s + emit_word_bytes s) = ?e + 8" "?e + 8 < ?n" using lkw by simp_all
      let ?v = "u\<lparr>mg_emit_index := mg_emit_index s + emit_word_bytes s\<rparr>"
      have "minv T L ?v f (sink_next i s k)"
      proof (rule sel_minvI [where ph = ph and R = R])
        show "side_at (ph b) (side b ?v) (f b) (R b)" for b using late(3) [of b] by (simp add: u del: defaults_side)
        show "progress T L ?v R Q (sink_next i s k)"
          using e m len False k by (simp add: progress_def u sink_is_def)
      qed (use ph park in \<open>simp_all add: u del: defaults_side\<close>)
      then show ?thesis unfolding run none using False by (simp add: emitted_def)
    next
      case lst: True
      then have e: "?n \<le> ?e + 8" using lkw(1) by simp
      then have m': "starts (mg_prev_mem u) (?n - 8) (fst ?r)" using m by (simp add: min_def split: if_splits)
      show ?thesis
      proof (cases "snd ?r = []")
        case False
        let ?v = "u\<lparr>mg_emit_index := 0, mg_state := Mg_Stream_Value\<rparr>"
        have "minv T L ?v f (sink_next i s k)"
        proof (rule sel_minvI [where ph = ph and R = R])
          show "side_at (ph b) (side b ?v) (f b) (R b)" for b using late(3) [of b] by (simp add: u del: defaults_side)
          show "progress T L ?v R Q (sink_next i s k)"
            using e m' len False k by (simp add: progress_def u sink_is_def)
        qed (use ph park in \<open>simp_all add: u del: defaults_side\<close>)
        then show ?thesis unfolding run none using False lst v0 by (simp add: emitted_def)
      next
        case True
        have k': "sink_is (sink_next i s k) (Q @ [?r]) (Q @ [?r]) []"
          using k True lst e by (simp add: sink_is_def)
        have "minv T L (mg_refill s u) f (sink_next i s k)"
        proof (rule finish_inv [where ph = ph and R = R, OF u(2)])
          show "side_at (ph b) (side b u) (f b) (R b)" for b using late(3) [of b] by (simp add: u del: defaults_side)
        qed (use ph True late(6) m' k' u(3-7) in \<open>simp_all add: u(1)\<close>)
        then show ?thesis unfolding run none using lst True v0 by (simp add: emitted_def)
      qed
    qed
  qed
qed


section \<open>Passing the value on, and dropping it\<close>

lemma last_value_iff:
  assumes fl: "in_flight (length (fst r)) m d (f (mg_sel s)) r rs" and m: "m < length (snd r)" "m = unat (mg_emit_index s)"
    and ld: "loaded s r" and dr: "drives i w f"
  obtains x xs where "fd_beats (f (mg_sel s)) = x # xs" and "sel_beat i s = x" "bit (bt_keep x) 0"
    and "m + length (beat_bytes x) \<le> length (snd r)"
    and "beat_bytes x = take (length (beat_bytes x)) (drop m (snd r))"
    and "last_value_beat i s \<longleftrightarrow> m + length (beat_bytes x) = length (snd r)"
    and "unat (mg_emit_index s + beat_len x) = m + length (beat_bytes x)"
    and "in_flight (length (fst r)) (m + length (beat_bytes x)) d ((f (mg_sel s))\<lparr>fd_beats := xs\<rparr>) r rs"
proof -
  from in_flight_value [OF fl m(1)] obtain x xs where v: "fd_beats (f (mg_sel s)) = x # xs" "dense x"
    "m + length (beat_bytes x) \<le> length (snd r)" "beat_bytes x = take (length (beat_bytes x)) (drop m (snd r))"
    "in_flight (length (fst r)) (m + length (beat_bytes x)) d ((f (mg_sel s))\<lparr>fd_beats := xs\<rparr>) r rs" by blast
  note l = loadedD [OF ld]
  have beat: "sel_beat i s = x" using dr v(1) by (simp add: sel_beat_def port_of_def)
  have e: "unat (mg_emit_index s + beat_len x) = m + length (beat_bytes x)"
    using v(3) l(3) m(2) unfolding beat_len_def length_beat_bytes by (subst unat_plus_small) simp_all
  have "last_value_beat i s \<longleftrightarrow> m + length (beat_bytes x) = length (snd r)"
    using v(3) by (auto simp: last_value_beat_def beat word_le_nat_alt e l(6))
  then show ?thesis using that v beat e by (auto simp: dense_def)
qed

text \<open>The feeds when the selected source hands over a beat of its value.\<close>

lemma value_taken:
  assumes "\<And>c. \<not> accept_header c i s" and "mg_state s \<in> {Mg_Stream_Value, Mg_Drain_Value}"
    and "pt_valid (port (mg_sel s) i)" "axis_ready (mg_sel s) i s" and "fd_beats (f (mg_sel s)) = x # xs"
  shows "(\<lambda>b. consume b i s (f b)) = f(mg_sel s := (f (mg_sel s))\<lparr>fd_beats := xs\<rparr>)"
proof
  fix c
  show "consume c i s (f c) = (f(mg_sel s := (f (mg_sel s))\<lparr>fd_beats := xs\<rparr>)) c"
  proof (cases "c = mg_sel s")
    case True
    then show ?thesis using assms by (simp add: consume_def)
  next
    case False
    then have "\<not> axis_ready c i s" using assms(2) by (auto simp: axis_ready_def)
    then show ?thesis using False assms(1) by simp
  qed
qed

lemma stream_step:
  assumes st: "mg_state s = Mg_Stream_Value" and inv: "minv_at T L ph R Q s f k" and dr: "drives i w f"
  shows "minv T L (mg_step i s) (\<lambda>b. consume b i s (f b)) (sink_next i s k)"
proof -
  let ?t = "mg_defaults i s" and ?r = "current s R" and ?e = "unat (mg_emit_index s)" and ?b = "mg_sel s"
  have "mg_state s \<in> {Mg_Emit_Header, Mg_Emit_Payload, Mg_Copy_Prev_Key, Mg_Stream_Value, Mg_Drain_Value}" using st by simp
  note late = sel_late [OF inv dr this]
  have ph: "ph ?b = Ph_Ready ?e" using late(7) st by simp
  have park: "parked (ph (\<not> ?b)) (side (\<not> ?b) ?t)" using late(6) by (rule parked_step)
  have pr: "length (mg_prev_mem s) = MAX_USER_KEY_BYTES" "chosen T L s R (Q @ [?r])" "?e < length (snd ?r)"
    "starts (mg_prev_mem s) (length (fst ?r) - 8) (fst ?r)" "sink_is k (Q @ [?r]) Q (fst ?r @ take ?e (snd ?r))"
    using inv st by (simp_all add: minv_at_def progress_def Let_def)
  have ld: "loaded s ?r" using pr(2) by (simp add: chosen_def)
  have nohdr: "sink_header i s = []" using st by (simp add: sink_header_def m_rec_valid_def)
  show ?thesis
  proof (cases "pt_valid (port ?b i) \<and> g_axis_ready i")
    case False
    then have "mg_step i s = ?t" "sink_next i s k = k"
      using late(1) nohdr st by (auto simp: mg_case_def sink_next_def sink_beat_def mg_stream_def m_valid_def)
    moreover have "consume c i s (f c) = f c" for c
      using False late(2) st by (auto intro!: consume_nothing simp: axis_ready_def)
    moreover have "minv T L ?t f k"
      by (rule sel_minvI [where Q = Q, OF _ late(3)]) (use ph park pr st late(4,5) in \<open>simp_all add: progress_def del: defaults_side\<close>)
    ultimately show ?thesis by simp
  next
    case True
    have at: "in_flight (length (fst ?r)) ?e (side ?b ?t) (f ?b) ?r (tl (R ?b))" "sd_buf (side ?b ?t)" "\<not> sd_pre (side ?b ?t)" "R ?b \<noteq> []"
      using late(3) [of ?b] unfolding ph side_at.simps current_def by blast+
    from last_value_iff [OF at(1) pr(3) refl ld dr] obtain x xs where x: "fd_beats (f ?b) = x # xs" "sel_beat i s = x"
      "?e + length (beat_bytes x) \<le> length (snd ?r)"
      "beat_bytes x = take (length (beat_bytes x)) (drop ?e (snd ?r))"
      "last_value_beat i s \<longleftrightarrow> ?e + length (beat_bytes x) = length (snd ?r)"
      "unat (mg_emit_index s + beat_len x) = ?e + length (beat_bytes x)"
      "in_flight (length (fst ?r)) (?e + length (beat_bytes x)) (side ?b ?t) ((f ?b)\<lparr>fd_beats := xs\<rparr>) ?r (tl (R ?b))" by blast
    have mv: "m_valid i s" "axis_ready ?b i s" using late(4,5) st True by (simp_all add: m_valid_def axis_ready_def)
    define g where "g = f(?b := (f ?b)\<lparr>fd_beats := xs\<rparr>)"
    have "mg_state s \<in> {Mg_Stream_Value, Mg_Drain_Value}" using st by simp
    note cons = value_taken [of i s f, OF late(2) this True [THEN conjunct1] mv(2) x(1), folded g_def]
    have out: "beat_bytes (m_beat i s) = beat_bytes x" using st x(2) by (simp add: beat_bytes_def m_beat_def)
    have last: "bt_last (m_beat i s) \<longleftrightarrow> last_value_beat i s" using st True by (simp add: m_beat_def)
    have "sink_beat i s = Some (m_beat i s)" using mv True by (simp add: sink_beat_def)
    note k0 = collect_some [OF pr(5) nohdr this, unfolded out last]
    have cur: "(fst ?r @ take ?e (snd ?r)) @ beat_bytes x = fst ?r @ take (?e + length (beat_bytes x)) (snd ?r)"
      by (subst x(4)) (simp add: take_add)
    note k = k0 [unfolded cur]
    define ph' where "ph' = ph(?b := Ph_Ready (?e + length (beat_bytes x)))"
    have sides: "side_at (ph' b) (side b ?t) (g b) (R b)" for b
    proof (cases "b = ?b")
      case True
      then show ?thesis using at x(7) by (simp add: ph'_def g_def current_def del: defaults_side)
    next
      case False
      then show ?thesis using late(3) [of b] by (simp add: ph'_def g_def del: defaults_side)
    qed
    have run: "mg_step i s = (if last_value_beat i s then mg_refill s ?t else ?t\<lparr>mg_emit_index := mg_emit_index s + beat_len x\<rparr>)"
      using late(1) True by (simp add: mg_case_def st mg_stream_def x(2))
    show ?thesis
    proof (cases "last_value_beat i s")
      case False
      let ?v = "?t\<lparr>mg_emit_index := mg_emit_index s + beat_len x\<rparr>"
      have "minv T L ?v g (sink_next i s k)"
      proof (rule sel_minvI [where ph = ph' and R = R])
        show "side_at (ph' b) (side b ?v) (g b) (R b)" for b using sides [of b] by (simp del: defaults_side)
        show "progress T L ?v R Q (sink_next i s k)"
          using x(3,5,6) pr False k st by (simp add: progress_def sink_is_def)
      qed (use park st late(4,5) x(6) in \<open>simp_all add: ph'_def del: defaults_side\<close>)
      then show ?thesis unfolding run cons using False by simp
    next
      case lst: True
      have k': "sink_is (sink_next i s k) (Q @ [?r]) (Q @ [?r]) []"
        using k lst x(5) by (simp add: sink_is_def)
      have "minv T L (mg_refill s ?t) g (sink_next i s k)"
        by (rule finish_inv [where ph = ph' and R = R, OF _ sides])
          (use lst x(5) late(4-6) pr st k' in \<open>simp_all add: ph'_def\<close>)
      then show ?thesis unfolding run cons using lst by simp
    qed
  qed
qed

lemma copy_step_inv:
  assumes ld: "loaded s r" and "starts (mg_prev_mem s) (length (fst r) - 8) (fst r)"
  shows "starts (mg_prev_mem (mg_copy_step s t)) (length (fst r) - 8) (fst r)"
  using copy_chunk_starts [OF assms] by (simp add: mg_copy_step_def)

lemma copy_step_other [simp]:
  "side b (mg_copy_step s t) = side b t" "mg_state (mg_copy_step s t) = mg_state t" "mg_busy (mg_copy_step s t) = mg_busy t"
  "mg_error (mg_copy_step s t) = mg_error t" "mg_sel (mg_copy_step s t) = mg_sel t" "mg_emit_index (mg_copy_step s t) = mg_emit_index t"
  "mg_prev_state (mg_copy_step s t) = mg_prev_state t" "current (mg_copy_step s t) R = current t R"
  "chosen T L (mg_copy_step s t) R Q = chosen T L t R Q"
  by (simp_all add: mg_copy_step_def)

lemma copy_key_step:
  assumes st: "mg_state s = Mg_Copy_Prev_Key" and inv: "minv_at T L ph R Q s f k" and dr: "drives i w f"
  shows "minv T L (mg_step i s) (\<lambda>b. consume b i s (f b)) (sink_next i s k)"
proof -
  let ?t = "mg_defaults i s" and ?r = "current s R"
  have "mg_state s \<in> {Mg_Emit_Header, Mg_Emit_Payload, Mg_Copy_Prev_Key, Mg_Stream_Value, Mg_Drain_Value}" using st by simp
  note late = sel_late [OF inv dr this]
  have ph: "ph (mg_sel s) = Ph_Ready (length (snd ?r))" using late(7) st by simp
  have park: "parked (ph (\<not> mg_sel s)) (side (\<not> mg_sel s) ?t)" using late(6) by (rule parked_step)
  have none: "consume c i s (f c) = f c" for c using late(2) st by (simp add: axis_ready_def)
  have k: "sink_next i s k = k" using st by (simp add: quiet_sink)
  have pr: "chosen T L s R Q" "starts (mg_prev_mem s) (length (fst ?r) - 8) (fst ?r)" "sink_is k Q Q []"
    using inv st by (simp_all add: minv_at_def progress_def Let_def)
  have ld: "loaded s ?r" using pr(1) by (simp add: chosen_def)
  show ?thesis
  proof (cases "mg_cmp_index s < mg_sel_ukey_len s")
    case True
    have m: "starts (mg_prev_mem (mg_copy_step s ?t)) (length (fst ?r) - 8) (fst ?r)" by (rule copy_step_inv [OF ld pr(2)])
    have "minv T L (mg_copy_step s ?t) f k"
    proof (rule sel_minvI [where ph = ph and R = R])
      show "side_at (ph b) (side b (mg_copy_step s ?t)) (f b) (R b)" for b using late(3) [of b] by (simp del: defaults_side)
      show "progress T L (mg_copy_step s ?t) R Q k" using pr m st by (simp add: progress_def starts_def)
    qed (use ph park st late(4,5) in \<open>simp_all del: defaults_side\<close>)
    then show ?thesis unfolding none k using late(1) True by (simp add: mg_case_def st mg_copy_def)
  next
    case False
    have "minv T L (mg_refill s ?t) f k"
      by (rule finish_inv [where ph = ph and R = R, OF _ late(3)]) (use ph late(4-6) pr st in simp_all)
    then show ?thesis unfolding none k using late(1) False by (simp add: mg_case_def st mg_copy_def)
  qed
qed

lemma drain_step:
  assumes st: "mg_state s = Mg_Drain_Value" and inv: "minv_at T L ph R Q s f k" and dr: "drives i w f"
  shows "minv T L (mg_step i s) (\<lambda>b. consume b i s (f b)) (sink_next i s k)"
proof -
  let ?r = "current s R" and ?e = "unat (mg_emit_index s)" and ?b = "mg_sel s"
  define t where "t = (if mg_cmp_index s < mg_sel_ukey_len s then mg_copy_step s (mg_defaults i s) else mg_defaults i s)"
  have "mg_state s \<in> {Mg_Emit_Header, Mg_Emit_Payload, Mg_Copy_Prev_Key, Mg_Stream_Value, Mg_Drain_Value}" using st by simp
  note late = sel_late [OF inv dr this]
  have ph: "ph ?b = Ph_Ready ?e" using late(7) st by simp
  have pr: "chosen T L s R Q" "?e < length (snd ?r)" "starts (mg_prev_mem s) (length (fst ?r) - 8) (fst ?r)" "sink_is k Q Q []"
    using inv st by (simp_all add: minv_at_def progress_def Let_def)
  have ld: "loaded s ?r" using pr(1) by (simp add: chosen_def)
  have k: "sink_next i s k = k" using st by (simp add: quiet_sink)
  have t: "side c t = side c (mg_defaults i s)" "mg_state t = Mg_Drain_Value" "mg_busy t" "\<not> mg_error t" "mg_sel t = ?b"
    "mg_emit_index t = mg_emit_index s" "mg_prev_state t = Mg_Drain_Value" "current t R = ?r" "chosen T L t R Q" for c
    using late(4,5) st pr(1) by (simp_all add: t_def del: defaults_side)
  have m: "starts (mg_prev_mem t) (length (fst ?r) - 8) (fst ?r)"
    using copy_step_inv [OF ld pr(3)] pr(3) by (simp add: t_def)
  then have len: "length (mg_prev_mem t) = MAX_USER_KEY_BYTES" by (simp add: starts_def)
  have park: "parked (ph (\<not> ?b)) (side (\<not> ?b) t)" unfolding t(1) using late(6) by (rule parked_step)
  have step: "side_at (ph c) (side c t) (f c) (R c)" for c unfolding t(1) by (rule late(3))
  have run: "mg_step i s = drain_beat i s t" using late(1) by (simp add: mg_case_def st mg_drain_def t_def)
  have at: "in_flight (length (fst ?r)) ?e (side ?b t) (f ?b) ?r (tl (R ?b))" "sd_buf (side ?b t)" "\<not> sd_pre (side ?b t)" "R ?b \<noteq> []"
    using step [of ?b] unfolding ph side_at.simps current_def by blast+
  from last_value_iff [OF at(1) pr(2) refl ld dr] obtain x xs where x: "fd_beats (f ?b) = x # xs" "sel_beat i s = x"
    "bit (bt_keep x) 0" "?e + length (beat_bytes x) \<le> length (snd ?r)"
    "last_value_beat i s \<longleftrightarrow> ?e + length (beat_bytes x) = length (snd ?r)"
    "unat (mg_emit_index s + beat_len x) = ?e + length (beat_bytes x)"
    "in_flight (length (fst ?r)) (?e + length (beat_bytes x)) (side ?b t) ((f ?b)\<lparr>fd_beats := xs\<rparr>) ?r (tl (R ?b))" by blast
  have ax: "axis_ready ?b i s" using late(4,5) st by (simp add: axis_ready_def)
  have acc: "accept_payload ?b i s \<longleftrightarrow> pt_valid (port ?b i)" using ax x(2,3) by (auto simp: accept_payload_def sel_beat_def)
  show ?thesis
  proof (cases "pt_valid (port ?b i)")
    case False
    then have "consume c i s (f c) = f c" for c
      using late(2) st by (auto intro!: consume_nothing simp: axis_ready_def)
    moreover have "minv T L t f k"
      by (rule sel_minvI [where Q = Q and R = R and ph = ph]) (use step ph park pr t m len in \<open>simp_all add: progress_def del: drivesD\<close>)
    ultimately show ?thesis unfolding run k using False acc by (simp add: drain_beat_def)
  next
    case True
    define g where "g = f(?b := (f ?b)\<lparr>fd_beats := xs\<rparr>)"
    have "mg_state s \<in> {Mg_Stream_Value, Mg_Drain_Value}" using st by simp
    note cons = value_taken [of i s f, OF late(2) this True ax x(1), folded g_def]
    define ph' where "ph' = ph(?b := Ph_Ready (?e + length (beat_bytes x)))"
    have p: "ph' ?b = Ph_Ready (?e + length (beat_bytes x))" "parked (ph' (\<not> ?b)) (side (\<not> ?b) t)"
      "parked (ph' (\<not> ?b)) (side (\<not> ?b) s)" using park late(6) by (simp_all add: ph'_def)
    have sides: "side_at (ph' b) (side b t) (g b) (R b)" for b
    proof (cases "b = ?b")
      case True
      then show ?thesis using at x(7) by (simp add: ph'_def g_def current_def)
    next
      case False
      then show ?thesis using step [of b] by (simp add: ph'_def g_def)
    qed
    show ?thesis
    proof (cases "last_value_beat i s")
      case False
      let ?v = "t\<lparr>mg_emit_index := mg_emit_index s + beat_len x\<rparr>"
      have "minv T L ?v g k"
        by (rule sel_minvI [where ph = ph' and R = R and Q = Q])
          (use sides p t(2-) m len pr x(4-6) False in \<open>simp_all add: progress_def\<close>)
      then show ?thesis unfolding run cons k using False True acc by (simp add: drain_beat_def x(2))
    next
      case lst: True
      show ?thesis
      proof (cases "mg_cmp_index s < mg_sel_ukey_len s \<and> \<not> copy_ends s")
        case True
        let ?v = "t\<lparr>mg_state := Mg_Copy_Prev_Key\<rparr>"
        have "minv T L ?v g k"
          by (rule sel_minvI [where ph = ph' and R = R and Q = Q])
            (use sides p t(2-) m len pr x(5) lst in \<open>simp_all add: progress_def\<close>)
        then show ?thesis unfolding run cons k using lst True \<open>pt_valid _\<close> acc by (simp add: drain_beat_def)
      next
        case False
        have "minv T L (mg_refill s t) g k"
          by (rule finish_inv [where ph = ph' and R = R, OF t(5) sides])
            (use lst x(5) p pr m t(3,4,7-9) in \<open>simp_all add: t(1)\<close>)
        moreover have "mg_step i s = mg_refill s t" using lst False \<open>pt_valid _\<close> acc by (auto simp: run drain_beat_def)
        ultimately show ?thesis unfolding cons k by simp
      qed
    qed
  qed
qed

end
