(* ===== verification/Merger_Refinement.thy ===== *)
theory Merger_Refinement
  imports Merger_Emitting
begin

text \<open>
  The refinement: whatever the neighbours do, the merger is never in error and what has left it is a
  beginning of the merge of the records of its two sources; when it is idle again it is all of it, and the
  key it hands to the next pair is the last user key. The one thing asked of the neighbours is that the end
  of a source is not signalled while a header of it is fetched ahead.
\<close>

section \<open>Every cycle keeps the invariant\<close>

lemma step_inv:
  assumes inv: "minv T L s f k" and dr: "drives i w f" and pt: "\<And>b. sd_pre (side b s) \<Longrightarrow> \<not> of_done (w b)"
  shows "minv T L (mg_step i s) (\<lambda>b. consume b i s (f b)) (sink_next i s k)"
proof -
  obtain ph R Q where at: "minv_at T L ph R Q s f k" using inv by (auto simp: minv_def)
  have "side_at (ph b) (side b s) (f b) (R b)" for b using at by (simp add: minv_at_def)
  then have pt': "ph b = Ph_Header \<Longrightarrow> \<not> of_done (w b)" for b using pt [of b] by (metis side_at.simps(2))
  note step = idle_step [OF _ at dr pt'] wait_step [OF _ at dr pt'] capture_step [OF _ at dr pt'] select_step [OF _ at dr]
    emit_header_step [OF _ at dr] emit_payload_step [OF _ at dr] stream_step [OF _ at dr] copy_key_step [OF _ at dr]
    drain_step [OF _ at dr]
  have "ctrl s ph R" using at by (simp add: minv_at_def)
  then show ?thesis by (cases "mg_state s") (auto simp: ctrl_def intro: step)
qed

definition offered :: "choice \<Rightarrow> bool \<Rightarrow> offer" where
  "offered c b = (if b then ch_offer1 c else ch_offer0 c)"

definition feeds :: "mg_sys \<Rightarrow> bool \<Rightarrow> feed" where
  "feeds y b = (if b then ms_feed1 y else ms_feed0 y)"

definition sink_of :: "mg_sys \<Rightarrow> sink" where
  "sink_of y = (ms_hdrs y, ms_frames y, ms_cur y)"

definition patient :: "choice \<Rightarrow> mg_sys \<Rightarrow> bool" where
  "patient c y \<longleftrightarrow> (sd_pre (mg_side0 (ms_mg y)) \<longrightarrow> \<not> of_done (ch_offer0 c)) \<and> (sd_pre (mg_side1 (ms_mg y)) \<longrightarrow> \<not> of_done (ch_offer1 c))"

fun patient_run :: "choice list \<Rightarrow> mg_sys \<Rightarrow> bool" where
  "patient_run [] y \<longleftrightarrow> True"
| "patient_run (c # cs) y \<longleftrightarrow> patient c y \<and> patient_run cs (mg_cycle c y)"

definition sys_inv :: "entry list \<Rightarrow> byte list option \<Rightarrow> mg_sys \<Rightarrow> bool" where
  "sys_inv T L y \<longleftrightarrow> minv T L (ms_mg y) (feeds y) (sink_of y)"

lemma drives_in_of: "drives (in_of c y) (offered c) (feeds y)"
  by (simp add: drives_def in_of_def port_def offered_def feeds_def)

lemma cycle_inv:
  assumes "sys_inv T L y" and "patient c y"
  shows "sys_inv T L (mg_cycle c y)"
proof -
  let ?i = "in_of c y"
  have "minv T L (mg_step ?i (ms_mg y)) (\<lambda>b. consume b ?i (ms_mg y) (feeds y b)) (sink_next ?i (ms_mg y) (sink_of y))"
    by (rule step_inv [OF assms(1) [unfolded sys_inv_def] drives_in_of])
      (use assms(2) in \<open>simp add: patient_def offered_def side_def split: if_splits\<close>)
  moreover have "(\<lambda>b. consume b ?i (ms_mg y) (feeds y b)) = feeds (mg_cycle c y)"
    by (auto simp: feeds_def mg_cycle_def mg_edge_def)
  moreover have "sink_next ?i (ms_mg y) (sink_of y) = sink_of (mg_cycle c y)"
    by (simp add: sink_next_def sink_of_def mg_cycle_def mg_edge_def)
  ultimately show ?thesis by (simp add: sys_inv_def mg_cycle_def mg_edge_def)
qed

lemma cycles_inv: "sys_inv T L y \<Longrightarrow> patient_run cs y \<Longrightarrow> sys_inv T L (mg_cycles cs y)"
  by (induction cs arbitrary: y) (simp_all add: mg_cycles_def cycle_inv)

section \<open>The key that is handed on\<close>

definition seed_is :: "prev_key \<Rightarrow> byte list option \<Rightarrow> bool" where
  "seed_is k prev \<longleftrightarrow> pk_valid k = (prev \<noteq> None) \<and>
     (\<forall>p. prev = Some p \<longrightarrow> unat (pk_len k) = length p \<and> length p \<le> MAX_USER_KEY_BYTES \<and> (\<forall>j<length p. byte_of (pk_bytes k) j = p ! j))"

lemma bit_pack_bytes:
  "n < LENGTH('a::len) \<Longrightarrow> bit (pack_bytes m :: 'a word) n \<longleftrightarrow> n div 8 < length m \<and> bit (m ! (n div 8)) (n mod 8)"
proof (induction m arbitrary: n)
  case (Cons b m)
  have small: "bit b q \<Longrightarrow> q < 8" for q using bit_imp_le_length [of b q] by simp
  show ?case
  proof (cases "n < 8")
    case True
    then show ?thesis using Cons.prems by (simp add: bit_or_iff bit_push_bit_iff bit_ucast_iff)
  next
    case False
    then have "n div 8 = Suc ((n - 8) div 8)" "n mod 8 = (n - 8) mod 8" by (simp_all add: div_if mod_if)
    then show ?thesis using False Cons small [of n]
      by (auto simp: bit_or_iff bit_push_bit_iff bit_ucast_iff)
  qed
qed simp

lemma byte_of_pack_bytes:
  assumes "j < length m" and "8 * j + 8 \<le> LENGTH('a::len)"
  shows "byte_of (pack_bytes m :: 'a word) j = m ! j"
proof (rule bit_word_eqI)
  fix n assume "n < LENGTH(8)"
  then have n: "n < 8" by simp
  have "(8 * j + n) div 8 = j" "(8 * j + n) mod 8 = n" using n by simp_all
  then show "bit (byte_of (pack_bytes m :: 'a word) j) n = bit (m ! j) n"
    using n assms by (simp add: byte_of_def bit_ucast_iff bit_drop_bit_eq bit_pack_bytes)
qed

lemma seed_final:
  assumes "prev_is s p" and "length (mg_prev_mem s) = MAX_USER_KEY_BYTES" and "\<And>u. p = Some u \<Longrightarrow> length u \<le> MAX_USER_KEY_BYTES"
  shows "seed_is (final_prev_key s) p"
proof -
  have "byte_of (pack_bytes (mg_prev_mem s) :: 512 word) j = u ! j" if "p = Some u" "j < length u" for u j
    using assms that by (subst byte_of_pack_bytes) (auto simp: prev_is_def starts_def MAX_USER_KEY_BYTES_def)
  then show ?thesis using assms by (auto simp: seed_is_def final_prev_key_def prev_is_def)
qed

lemma start_inv:
  assumes f: "delivers f0 xs" "delivers f1 ys" and k: "seed_is k prev"
  shows "sys_inv (merge_records prev xs ys) (last_user_key prev (weave xs ys)) (mg_start_pair s k f0 f1)"
proof -
  define t where "t = mg_defaults (start_in k) (mg_cleared s)"
  define v where "v = mg_begin (start_in k) t"
  have "\<not> mg_busy (mg_cleared s)" by (simp add: mg_cleared_def)
  then have run: "mg_step (start_in k) (mg_cleared s) = v"
    by (simp add: mg_step_def mg_clocked_def start_in_def v_def t_def)
  have "length (sd_mem (side b (mg_cleared s))) = MAX_USER_KEY_BYTES" for b
    by (simp add: side_def mg_cleared_def empty_side_def zero_mem_def)
  then have mem: "length (sd_mem (side b t)) = MAX_USER_KEY_BYTES" for b by (simp add: t_def)
  then have m01: "length (sd_mem (mg_side0 t)) = MAX_USER_KEY_BYTES" "length (sd_mem (mg_side1 t)) = MAX_USER_KEY_BYTES"
    using mem [of False] mem [of True] by (simp_all add: side_def)
  have side: "side b v = empty_side (sd_mem (side b t))" for b by (simp add: v_def mg_begin_def side_def)
  have fl: "mg_state v = Mg_Wait False" "mg_busy v" "\<not> mg_error v" "mg_have_prev v = pk_valid k"
    "mg_prev_len v = (if pk_valid k then pk_len k else 0)" "mg_prev_mem v = seed_mem k"
    by (simp_all add: v_def mg_begin_def mg_zeroed_def start_in_def)
  have len: "length (seed_mem k) = MAX_USER_KEY_BYTES" by (simp add: seed_mem_def)
  have "starts (seed_mem k) (length p) p" if "prev = Some p" for p
    using k that len by (auto simp: starts_def seed_is_def seed_mem_def)
  then have prev: "prev_is v prev" using k fl by (auto simp: prev_is_def seed_is_def)
  let ?R = "\<lambda>b. if b then ys else xs"
  let ?f = "feeds (mg_start_pair s k f0 f1)"
  have feed: "?f = (\<lambda>b. if b then f1 else f0)" by (simp add: feeds_def mg_start_pair_def fun_eq_iff)
  have sink: "sink_of (mg_start_pair s k f0 f1) = ([], [], [])" by (simp add: sink_of_def mg_start_pair_def)
  have mg: "ms_mg (mg_start_pair s k f0 f1) = v" by (simp add: mg_start_pair_def run)
  show ?thesis unfolding sys_inv_def feed sink mg
  proof (rule minvI [where ph = "\<lambda>_. Ph_Idle" and R = ?R and Q = "[]"])
    show "side_at Ph_Idle (side b v) (if b then f1 else f0) (?R b)" for b
      using f mem by (simp add: side empty_side_def)
    show "ctrl v (\<lambda>_. Ph_Idle) ?R" by (simp add: ctrl_def fl)
    show "progress (merge_records prev xs ys) (last_user_key prev (weave xs ys)) v ?R [] ([], [], [])"
      using len prev by (auto simp: progress_def fl sink_is_def outcome_def merge_records_def)
  qed (simp_all add: fl)
qed


section \<open>What the invariant says of the output\<close>

definition frame_of :: "entry \<Rightarrow> byte list" where
  "frame_of r = fst r @ snd r"

lemma presents_ok: "presents ys rs \<Longrightarrow> r \<in> set rs \<Longrightarrow> rec_ok r"
  by (induction rule: presents.induct) auto

lemma user_key_length: "rec_ok r \<Longrightarrow> length (user_key (fst r)) \<le> MAX_USER_KEY_BYTES"
  unfolding rec_ok_def user_key_def MAX_USER_KEY_BYTES_def length_take by linarith

lemma last_user_key_in: "last_user_key prev zs = Some u \<Longrightarrow> prev = Some u \<or> (\<exists>z\<in>set zs. u = user_key (fst z))"
  by (induction zs arbitrary: prev) fastforce+

lemma frames_map: "map (\<lambda>r. fst r @ snd r) rs = map frame_of rs"
  by (simp add: frame_of_def)

text \<open>The headers may be one record ahead of the frames.\<close>

lemma sys_inv_prefix:
  assumes "sys_inv T L y"
  shows "\<not> mg_error (ms_mg y) \<and> (\<exists>n m. n \<le> m \<and> m \<le> Suc n \<and> ms_hdrs y = map header_of (take m T) \<and> ms_frames y = map frame_of (take n T))"
proof -
  obtain ph R Q where at: "minv_at T L ph R Q (ms_mg y) (feeds y) (sink_of y)" using assms by (auto simp: sys_inv_def minv_def)
  have pr: "progress T L (ms_mg y) R Q (sink_of y)" and ct: "ctrl (ms_mg y) ph R" using at by (simp_all add: minv_at_def)
  let ?r = "current (ms_mg y) R"
  have "\<exists>hs zs cur. sink_is (sink_of y) hs Q cur \<and> T = hs @ zs \<and> hs \<in> {Q, Q @ [?r]}"
    using pr ct by (cases "mg_state (ms_mg y)") (auto simp: progress_def Let_def chosen_def outcome_def ctrl_def)
  then obtain hs zs cur where k: "sink_is (sink_of y) hs Q cur" and T: "T = hs @ zs" and hs: "hs \<in> {Q, Q @ [?r]}" by blast
  have "ms_hdrs y = map header_of (take (length hs) T)" "ms_frames y = map frame_of (take (length Q) T)"
    "length Q \<le> length hs" "length hs \<le> Suc (length Q)"
    using k T hs by (auto simp: sink_is_def sink_of_def frames_map)
  then show ?thesis using at by (auto simp: minv_at_def)
qed

lemma sys_inv_idle:
  assumes "sys_inv T L y" and idle: "mg_state (ms_mg y) = Mg_Idle" and len: "\<And>u. L = Some u \<Longrightarrow> length u \<le> MAX_USER_KEY_BYTES"
  shows "\<not> mg_busy (ms_mg y)" "\<not> mg_error (ms_mg y)" "ms_hdrs y = map header_of T" "ms_frames y = map frame_of T" "ms_cur y = []"
    "seed_is (final_prev_key (ms_mg y)) L"
proof -
  obtain ph R Q where at: "minv_at T L ph R Q (ms_mg y) (feeds y) (sink_of y)" using assms(1) by (auto simp: sys_inv_def minv_def)
  then show "\<not> mg_busy (ms_mg y)" "\<not> mg_error (ms_mg y)" using idle by (simp_all add: minv_at_def)
  have R: "R False = []" "R True = []" using at idle by (simp_all add: minv_at_def ctrl_def)
  obtain p where p: "length (mg_prev_mem (ms_mg y)) = MAX_USER_KEY_BYTES" "sink_is (sink_of y) Q Q []" "prev_is (ms_mg y) p"
    "outcome T L p [] Q"
    using at idle R by (auto simp: minv_at_def progress_def Let_def)
  then have T: "T = Q" "L = p" by (simp_all add: outcome_def)
  then show "ms_hdrs y = map header_of T" "ms_frames y = map frame_of T" "ms_cur y = []"
    using p(2) by (simp_all add: sink_is_def sink_of_def frames_map)
  show "seed_is (final_prev_key (ms_mg y)) L" using seed_final [OF p(3,1)] len T by blast
qed

lemma handed_on_length:
  assumes "delivers f0 xs" and "delivers f1 ys" and "seed_is k prev" and "last_user_key prev (weave xs ys) = Some u"
  shows "length u \<le> MAX_USER_KEY_BYTES"
  using last_user_key_in [OF assms(4)] assms(1-3) presents_ok user_key_length
  unfolding delivers_def set_weave by (fastforce simp: seed_is_def)

section \<open>The streams the decoders make\<close>

lemma dense_beat_of: "bs \<noteq> [] \<Longrightarrow> length bs \<le> 8 \<Longrightarrow> dense (beat_of bs l) \<and> beat_bytes (beat_of bs l) = bs"
proof -
  assume bs: "bs \<noteq> []" "length bs \<le> 8"
  have "bit (mask (length bs) :: byte) q \<longleftrightarrow> q < length bs" if "q < 8" for q
    using that bs by (simp only: bit_mask_iff) auto
  then have "filter (bit (mask (length bs) :: byte)) [0..<8] = filter (\<lambda>q. q < length bs) [0..<8]"
    by (intro filter_cong) auto
  then have f: "filter (bit (bt_keep (beat_of bs l))) [0..<8] = [0..<length bs]"
    unfolding filter_upt_less [OF bs(2)] by (simp add: beat_of_def)
  then have c: "keep_count (bt_keep (beat_of bs l)) = length bs" unfolding keep_count_def by simp
  have "map (byte_of (pack_bytes bs :: u64)) [0..<length bs] = bs"
    by (rule nth_equalityI) (use bs in \<open>auto simp: byte_of_pack_bytes\<close>)
  then have "beat_bytes (beat_of bs l) = bs" unfolding beat_bytes_def f by (simp add: beat_of_def)
  moreover have "dense (beat_of bs l)" using bs unfolding dense_def c by (auto simp: beat_of_def bit_mask_iff)
  ultimately show ?thesis by simp
qed

lemma cut_chunks: "chunks (cut l bs) bs \<and> (\<forall>x\<in>set (butlast (cut l bs)). \<not> bt_last x) \<and> (bs \<noteq> [] \<longrightarrow> cut l bs \<noteq> [] \<and> bt_last (last (cut l bs)) = l)"
proof (induction l bs rule: cut.induct)
  case (2 l b bs)
  show ?case
  proof (cases "length (b # bs) \<le> 8")
    case True
    then show ?thesis using dense_beat_of [of "b # bs" l] by (simp add: chunks_def) (simp add: beat_of_def)
  next
    case False
    have d: "dense (beat_of (take 8 (b # bs)) False)" "beat_bytes (beat_of (take 8 (b # bs)) False) = take 8 (b # bs)"
      using dense_beat_of [of "take 8 (b # bs)" False] by simp_all
    have ih: "chunks (cut l (drop 8 (b # bs))) (drop 8 (b # bs))" "cut l (drop 8 (b # bs)) \<noteq> []"
      "\<forall>x\<in>set (butlast (cut l (drop 8 (b # bs)))). \<not> bt_last x" "bt_last (last (cut l (drop 8 (b # bs)))) = l"
      using 2 False by auto
    have e: "cut l (b # bs) = beat_of (take 8 (b # bs)) False # cut l (drop 8 (b # bs))" using False by simp
    have "\<not> bt_last (beat_of (take 8 (b # bs)) False)" by (simp add: beat_of_def)
    then show ?thesis unfolding e using d ih by (simp add: chunks_def)
  qed
qed (simp add: chunks_def)

lemma record_beats_ok:
  assumes "rec_ok r"
  shows "chunks (cut (snd r = []) (fst r)) (fst r)" "chunks (cut True (snd r)) (snd r)"
    "ends_last (cut (snd r = []) (fst r) @ cut True (snd r))"
proof -
  have k: "fst r \<noteq> []" using assms by (auto simp: rec_ok_def)
  note c = cut_chunks [of "snd r = []" "fst r"] cut_chunks [of True "snd r"]
  show "chunks (cut (snd r = []) (fst r)) (fst r)" "chunks (cut True (snd r)) (snd r)" using c by blast+
  show "ends_last (cut (snd r = []) (fst r) @ cut True (snd r))"
  proof (cases "snd r = []")
    case True
    then show ?thesis using c(1) k by (simp add: ends_last_def)
  next
    case False
    let ?x = "cut False (fst r)"
    have c1: "\<forall>x\<in>set (butlast ?x). \<not> bt_last x" "?x \<noteq> []" "\<not> bt_last (last ?x)" using c(1) k False by simp_all
    have "\<forall>x\<in>set (butlast ?x @ [last ?x]). \<not> bt_last x" unfolding set_append list.set using c1 by blast
    then have "\<forall>x\<in>set ?x. \<not> bt_last x" unfolding append_butlast_last_id [OF c1(2)] .
    then show ?thesis using c(2) False by (auto simp: ends_last_def butlast_append)
  qed
qed

lemma feed_of_delivers: "\<forall>r\<in>set rs. rec_ok r \<Longrightarrow> delivers (feed_of rs) rs"
proof -
  assume "\<forall>r\<in>set rs. rec_ok r"
  then have "presents (concat (map record_beats rs)) rs"
  proof (induction rs)
    case (Cons r rs)
    then have "presents (cut (snd r = []) (fst r) @ cut True (snd r) @ concat (map record_beats rs)) (r # rs)"
      by (intro presents.more record_beats_ok) auto
    then show ?case unfolding list.map concat.simps record_beats_def [of r] append_assoc .
  qed (simp add: presents.nothing)
  then show ?thesis by (simp add: delivers_def feed_of_def)
qed

end
