(* ===== verification/Merger_Termination.thy ===== *)
theory Merger_Termination
  imports Merger_Refinement
begin

text \<open>
  The merger ends: with neighbours that never stall, every cycle takes a beat, finishes a record or brings
  the machine closer to one of the two, so that it is idle after a number of cycles that is linear in the
  beats and records of the two sources.
\<close>

section \<open>Neighbours that never stall\<close>

definition eager :: "mg_sys \<Rightarrow> choice" where
  "eager y = \<lparr>ch_offer0 = \<lparr>of_hdr = True, of_data = True, of_done = (\<not> sd_pre (mg_side0 (ms_mg y)))\<rparr>,
     ch_offer1 = \<lparr>of_hdr = True, of_data = True, of_done = (\<not> sd_pre (mg_side1 (ms_mg y)))\<rparr>,
     ch_rec_ready = True, ch_axis_ready = True\<rparr>"

primrec eager_run :: "nat \<Rightarrow> mg_sys \<Rightarrow> choice list" where
  "eager_run 0 y = []"
| "eager_run (Suc n) y = eager y # eager_run n (mg_cycle (eager y) y)"

lemma eager_patient: "patient_run (eager_run n y) y"
  by (induction n arbitrary: y) (simp_all add: patient_def eager_def)

definition willing :: "mg_in \<Rightarrow> (bool \<Rightarrow> offer) \<Rightarrow> merger \<Rightarrow> bool" where
  "willing i w s \<longleftrightarrow> g_rec_ready i \<and> g_axis_ready i \<and> (\<forall>b. of_hdr (w b) \<and> of_data (w b) \<and> of_done (w b) = (\<not> sd_pre (side b s)))"

section \<open>The measure\<close>

definition pending :: "merger \<Rightarrow> (bool \<Rightarrow> feed) \<Rightarrow> bool \<Rightarrow> nat" where
  "pending s f b = length (fd_hdrs (f b)) + length (fd_beats (f b)) +
     (if sd_buf (side b s) \<or> sd_pre (side b s) \<or> mg_state s = Mg_Capture b then 1 else 0)"

definition work :: "merger \<Rightarrow> (bool \<Rightarrow> feed) \<Rightarrow> nat" where
  "work s f = pending s f False + pending s f True"

fun rank :: "merger \<Rightarrow> nat" where
  "rank s = (case mg_state s of
       Mg_Wait b \<Rightarrow> (if b then 180 else 182) + (if sd_done (side b s) then 0 else 1)
     | Mg_Capture b \<Rightarrow> 170
     | Mg_Cmp_Setup \<Rightarrow> (if mg_prev_state s = Mg_Cmp_Setup then 160 else 161)
     | Mg_Emit_Header \<Rightarrow> 150
     | Mg_Emit_Payload \<Rightarrow> 71 + (72 - unat (mg_emit_index s))
     | Mg_Stream_Value \<Rightarrow> 70
     | Mg_Drain_Value \<Rightarrow> 70
     | Mg_Copy_Prev_Key \<Rightarrow> 1 + min 64 (unat (mg_sel_ukey_len s) - unat (mg_cmp_index s))
     | _ \<Rightarrow> 0)"

declare rank.simps [simp del]

definition effort :: "merger \<Rightarrow> (bool \<Rightarrow> feed) \<Rightarrow> nat" where
  "effort s f = 200 * work s f + rank s"

lemma rank_bound: "rank s < 200"
proof -
  have "72 - n < (129 :: nat)" "min 64 n < (199 :: nat)" for n by linarith+
  then show ?thesis by (simp add: rank.simps split: mg_state.splits)
qed

lemma effort_work: "work s' f' < work s f \<Longrightarrow> effort s' f' < effort s f"
  using rank_bound [of s'] by (simp add: effort_def)

lemma effort_rank: "work s' f' \<le> work s f \<Longrightarrow> rank s' < rank s \<Longrightarrow> effort s' f' < effort s f"
  by (simp add: effort_def)

lemma work_less:
  assumes "pending s' f' b < pending s f b" and "pending s' f' (\<not> b) \<le> pending s f (\<not> b)"
  shows "work s' f' < work s f"
  using assms by (cases b) (simp_all add: work_def)

lemma refill_work:
  assumes "sd_buf (side (mg_sel s) s)" and "\<And>b. mg_state s \<noteq> Mg_Capture b" and "\<And>b. mg_state t \<noteq> Mg_Capture b"
    and "\<And>b. sd_buf (side b t) = sd_buf (side b s)" "\<not> sd_pre (side (mg_sel s) t)" "\<And>b. sd_pre (side b t) = sd_pre (side b s)"
    and "\<And>b. length (fd_hdrs (g b)) \<le> length (fd_hdrs (f b))" "\<And>b. length (fd_beats (g b)) \<le> length (fd_beats (f b))"
  shows "effort (mg_refill s t) g < effort s f"
proof (rule effort_work, rule work_less [where b = "mg_sel s"])
  let ?v = "mg_refill s t"
  have st: "mg_state ?v \<noteq> Mg_Capture b" for b
    using assms(3) by (simp add: mg_refill_def refill_route_def mg_compare_def mg_finish_def)
  have side: "side b ?v = (if b = mg_sel s then (side b t)\<lparr>sd_buf := False\<rparr> else side b t)" for b
    by (simp add: mg_refill_def refill_route_def mg_compare_def mg_finish_def)
  show "pending ?v g (mg_sel s) < pending s f (mg_sel s)"
    using assms(1,5) assms(7,8) [of "mg_sel s"] st by (simp add: pending_def side)
  show "pending ?v g (\<not> mg_sel s) \<le> pending s f (\<not> mg_sel s)"
    using assms(2,4,6) assms(7,8) [of "\<not> mg_sel s"] st by (simp add: pending_def side)
qed


section \<open>Every cycle brings the machine closer to the end\<close>

lemma consume_length:
  "length (fd_hdrs (consume b i s f)) \<le> length (fd_hdrs f)" "length (fd_beats (consume b i s f)) \<le> length (fd_beats f)"
  by (simp_all add: consume_def)

lemma wait_effort:
  assumes st: "mg_state s = Mg_Wait b" and at: "minv_at T L ph R Q s f k" and dr: "drives i w f" and wl: "willing i w s"
  shows "effort (mg_step i s) (\<lambda>b. consume b i s (f b)) < effort s f"
proof -
  let ?t = "mg_defaults i s"
  have sides: "side_at (ph b) (side b s) (f b) (R b)" for b using at by (simp add: minv_at_def)
  have "ctrl s ph R" using at by (simp add: minv_at_def)
  from this [unfolded ctrl_def st mg_state.case]
  have c: "ph b = Ph_Idle \<or> b \<and> ph b = Ph_Header" "if b then parked (ph False) (side False s) else ph True \<in> {Ph_Idle, Ph_Ready 0}" by blast+
  have fl: "mg_busy s" "\<not> mg_error s" using at st by (simp_all add: minv_at_def)
  have "\<not> can_prefetch c s" for c using st by (simp add: can_prefetch_def)
  then have run: "mg_step i s = mg_wait b i s ?t" using st fl by (simp add: step_busy [OF dr] mg_case_def)
  have quiet: "\<not> axis_ready c i s" "accept_header c i s \<longleftrightarrow> c = b \<and> fd_hdrs (f b) \<noteq> [] \<and> \<not> sd_pre (side b s)" for c
    using st fl dr wl by (auto simp: axis_ready_def accept_header_def rec_ready_def can_prefetch_def willing_def)
  have buf: "\<not> sd_buf (side b s)" using c(1) sides [of b] by auto
  have other: "\<not> sd_pre (side (\<not> b) s)"
    using c(2) sides [of "\<not> b"] by (cases b) (auto simp: parked_def)
  consider (pre) "sd_pre (side b s)" | (take) "\<not> sd_pre (side b s)" "fd_hdrs (f b) \<noteq> []"
    | (ended) "\<not> sd_pre (side b s)" "fd_hdrs (f b) = []" "sd_done (side b s)"
    | (ending) "\<not> sd_pre (side b s)" "fd_hdrs (f b) = []" "\<not> sd_done (side b s)" by blast
  then show ?thesis
  proof cases
    case pre
    then have none: "consume c i s (f c) = f c" for c using quiet by simp
    show ?thesis unfolding run none mg_wait_def using pre buf st
      by (intro effort_rank) (cases b; simp add: work_def pending_def rank.simps)+
  next
    case take
    show ?thesis
    proof (cases "bad_header (pt_key_len (port b i)) (pt_value_len (port b i))")
      case True
      then have e: "mg_step i s = mg_fail ?t" unfolding run mg_wait_def using take quiet by simp
      show ?thesis unfolding e using st consume_length
        by (intro effort_rank) (auto simp: work_def pending_def rank.simps mg_fail_def intro!: add_mono)
    next
      case False
      then have e: "mg_step i s = (put_side b (load_header (port b i) (side b ?t)) ?t)\<lparr>mg_cap_index := 0, mg_state := Mg_Capture b\<rparr>"
        unfolding run mg_wait_def using take quiet by simp
      have "consume b i s (f b) = (f b)\<lparr>fd_hdrs := tl (fd_hdrs (f b))\<rparr>" "consume (\<not> b) i s (f (\<not> b)) = f (\<not> b)"
        using take quiet by (simp_all add: consume_def)
      then show ?thesis unfolding e using st take buf
        by (intro effort_rank) (cases b; simp add: work_def pending_def rank.simps load_header_def)+
    qed
  next
    case ended
    then have none: "consume c i s (f c) = f c" for c using quiet by simp
    have "sd_buf (side (\<not> b) s) \<or> sd_done (side (\<not> b) s)" if b
      using c(2) sides [of False] that by (auto simp: parked_def)
    then show ?thesis unfolding run none mg_wait_def using ended quiet st
      by (intro effort_rank) (cases b; auto simp: work_def pending_def rank.simps mg_compare_def mg_finish_def)+
  next
    case ending
    then have none: "consume c i s (f c) = f c" for c using quiet by simp
    have "pt_done (port b i)" using ending dr wl by (simp add: willing_def)
    then show ?thesis unfolding run none mg_wait_def using ending quiet st
      by (intro effort_rank) (cases b; simp add: work_def pending_def rank.simps)+
  qed
qed

lemma capture_effort:
  assumes st: "mg_state s = Mg_Capture b" and at: "minv_at T L ph R Q s f k" and dr: "drives i w f" and wl: "willing i w s"
  shows "effort (mg_step i s) (\<lambda>b. consume b i s (f b)) < effort s f"
proof (rule effort_work, rule work_less [where b = b])
  let ?t = "mg_defaults i s" and ?s1 = "mg_capture b i s (mg_defaults i s)"
  have sides: "side_at (ph b) (side b s) (f b) (R b)" for b using at by (simp add: minv_at_def)
  have "ctrl s ph R" using at by (simp add: minv_at_def)
  from this [unfolded ctrl_def st mg_state.case] have ph: "ph b = Ph_Key (unat (mg_cap_index s))" by blast
  have fl: "mg_busy s" "\<not> mg_error s" using at st by (simp_all add: minv_at_def)
  have "in_flight (unat (mg_cap_index s)) 0 (side b s) (f b) (hd (R b)) (tl (R b))" "unat (mg_cap_index s) < length (fst (hd (R b)))"
    using sides [of b] unfolding ph side_at.simps by blast+
  from in_flight_key [OF this refl] obtain x xs where fb: "fd_beats (f b) = x # xs" by blast
  have ready: "axis_ready b i s" "\<not> accept_header b i s" "\<And>c. axis_ready c i s \<Longrightarrow> c = b"
    using st fl by (auto simp: axis_ready_def accept_header_def rec_ready_def can_prefetch_def)
  have "pt_valid (port b i)" using dr wl fb by (simp add: willing_def)
  then have "consume b i s (f b) = (f b)\<lparr>fd_beats := xs\<rparr>" using ready(1,2) fb by (simp add: consume_def)
  then show "pending (mg_step i s) (\<lambda>b. consume b i s (f b)) b < pending s f b" using st fb by (simp add: pending_def)
  have np: "\<not> can_prefetch b s" using st by (simp add: can_prefetch_def)
  then have run: "mg_step i s = mg_prefetch (\<not> b) i s ?s1"
    using st fl by (cases b) (simp_all add: step_busy [OF dr] mg_case_def)
  have s1: "mg_state ?s1 \<noteq> Mg_Capture (\<not> b)"
    using st by (simp add: mg_capture_def capture_beat_def capture_last_def mg_fail_def mg_compare_def)
  have side: "side (\<not> b) ?s1 = side (\<not> b) ?t" by (rule capture_result(2))
  have acc: "accept_header (\<not> b) i s \<longleftrightarrow> can_prefetch (\<not> b) s \<and> pt_rec_valid (port (\<not> b) i)"
    using st fl by (auto simp: accept_header_def rec_ready_def)
  have beats: "fd_beats (consume (\<not> b) i s (f (\<not> b))) = fd_beats (f (\<not> b))" using ready(3) [of "\<not> b"] by (auto simp: consume_def)
  show "pending (mg_step i s) (\<lambda>b. consume b i s (f b)) (\<not> b) \<le> pending s f (\<not> b)"
  proof (cases "can_prefetch (\<not> b) s \<and> pt_rec_valid (port (\<not> b) i)")
    case True
    then have h1: "length (fd_hdrs (f (\<not> b))) = Suc (length (tl (fd_hdrs (f (\<not> b)))))" using dr by (cases "fd_hdrs (f (\<not> b))") simp_all
    have "fd_hdrs (consume (\<not> b) i s (f (\<not> b))) = tl (fd_hdrs (f (\<not> b)))" using True acc by (simp add: consume_def)
    then have h2: "pending v (\<lambda>b. consume b i s (f b)) (\<not> b) \<le> Suc (length (tl (fd_hdrs (f (\<not> b))))) + length (fd_beats (f (\<not> b)))" for v
      by (simp add: pending_def beats)
    have "length (fd_hdrs (f (\<not> b))) + length (fd_beats (f (\<not> b))) \<le> pending s f (\<not> b)" by (simp add: pending_def)
    then show ?thesis using h1 h2 [of "mg_step i s"] by linarith
  next
    case False
    then have "mg_step i s = ?s1" unfolding run mg_prefetch_def by (rule if_P)
    moreover have "fd_hdrs (consume (\<not> b) i s (f (\<not> b))) = fd_hdrs (f (\<not> b))" using False acc by (auto simp: consume_def)
    ultimately show ?thesis using beats s1 by (simp add: pending_def side)
  qed
qed


lemma late_effort:
  assumes at: "minv_at T L ph R Q s f k" and dr: "drives i w f" and wl: "willing i w s" and nx: "minv T L (mg_step i s) g k'"
    and st: "mg_state s \<in> {Mg_Cmp_Setup, Mg_Emit_Header, Mg_Emit_Payload, Mg_Copy_Prev_Key, Mg_Stream_Value, Mg_Drain_Value}"
  shows "effort (mg_step i s) (\<lambda>b. consume b i s (f b)) < effort s f"
proof -
  let ?t = "mg_defaults i s" and ?g = "\<lambda>b. consume b i s (f b)" and ?r = "current s R" and ?b = "mg_sel s"
  have len: "length (fd_hdrs (?g b)) \<le> length (fd_hdrs (f b))" "length (fd_beats (?g b)) \<le> length (fd_beats (f b))" for b
    by (rule consume_length)+
  have same: "work v ?g \<le> work s f"
    if "\<And>b. sd_buf (side b v) = sd_buf (side b s)" "\<And>b. sd_pre (side b v) = sd_pre (side b s)" "\<And>b. mg_state v \<noteq> Mg_Capture b" for v
    using that len [of False] len [of True] by (simp add: work_def pending_def)
  show ?thesis
  proof (cases "mg_state s = Mg_Cmp_Setup")
    case cmp: True
    have "ctrl s ph R" using at by (simp add: minv_at_def)
    from this [unfolded ctrl_def cmp mg_state.case] have park: "parked (ph b) (side b s)" and ci: "mg_cmp_index s = 0" for b by blast+
    then have ready: "mg_state s \<noteq> Mg_Idle" "both_ready s ph" "mg_state s \<noteq> Mg_Wait b" for b using cmp by auto
    note late = late_step [OF at dr ready]
    have run: "mg_step i s = mg_select s ?t" using late(1) by (simp add: mg_case_def cmp)
    show ?thesis
    proof (cases "cmp_pipe_valid s")
      case False
      then have "mg_step i s = ?t" unfolding run mg_select_def by simp
      moreover have "effort ?t ?g < effort s f" using False
        by (intro effort_rank same) (simp_all add: cmp cmp_pipe_valid_def rank.simps)
      ultimately show ?thesis by simp
    next
      case True
      have "next_sel_valid s"
      proof (rule ccontr)
        assume "\<not> next_sel_valid s"
        then have "mg_state (mg_step i s) = Mg_Cmp_Setup" "mg_cmp_index (mg_step i s) = 64"
          unfolding run mg_select_def using True cmp ci by (simp_all add: MAX_USER_KEY_BYTES_def)
        then show False using nx by (auto simp: minv_def minv_at_def ctrl_def)
      qed
      then have "mg_step i s = take_selected (next_sel_src s) (next_keep s) (side (next_sel_src s) s) s ?t"
        unfolding run mg_select_def using True by simp
      moreover have "min 64 n < (159 :: nat)" "min 64 n < (160 :: nat)" for n by linarith+
      then have "effort (take_selected (next_sel_src s) (next_keep s) (side (next_sel_src s) s) s ?t) ?g < effort s f"
        by (intro effort_rank same) (simp_all add: cmp rank.simps take_selected_def route_selected_def)
      ultimately show ?thesis by simp
    qed
  next
    case False
    then have st': "mg_state s \<in> {Mg_Emit_Header, Mg_Emit_Payload, Mg_Copy_Prev_Key, Mg_Stream_Value, Mg_Drain_Value}" using st by blast
    note late = sel_late [OF at dr st']
    have "\<exists>Q. chosen T L s R Q" using at st' by (auto simp: minv_at_def progress_def Let_def)
    then have ld: "loaded s ?r" by (auto simp: chosen_def)
    note l = loadedD [OF ld]
    have buf: "sd_buf (side ?b s)" "\<not> sd_pre (side ?b s)" using late(3) [of ?b] unfolding late(7) side_at.simps by simp_all
    have cap: "mg_state s \<noteq> Mg_Capture b" for b using st' by auto
    have refill: "effort (mg_refill s t) ?g < effort s f"
      if "\<And>b. mg_state t \<noteq> Mg_Capture b" "\<And>b. sd_buf (side b t) = sd_buf (side b s)" "\<And>b. sd_pre (side b t) = sd_pre (side b s)" for t
      by (rule refill_work [OF buf(1) cap that(1,2) _ that(3) len]) (use that(3) buf(2) in simp)
    have taken: "work v ?g < work s f"
      if "pt_valid (port ?b i)" "axis_ready ?b i s" "\<And>b. sd_buf (side b v) = sd_buf (side b s)" "\<And>b. sd_pre (side b v) = sd_pre (side b s)"
        "\<And>b. mg_state v \<noteq> Mg_Capture b" for v
    proof (rule work_less [where b = ?b])
      have "fd_beats (f ?b) \<noteq> []" using that(1) dr by simp
      then show "pending v ?g ?b < pending s f ?b" using that len(1) [of ?b] late(2) by (cases "fd_beats (f ?b)") (simp_all add: pending_def consume_def)
      show "pending v ?g (\<not> ?b) \<le> pending s f (\<not> ?b)" using that(3-5) len [of "\<not> ?b"] by (simp add: pending_def)
    qed
    consider (hdr) "mg_state s = Mg_Emit_Header" | (pay) "mg_state s = Mg_Emit_Payload" | (copy) "mg_state s = Mg_Copy_Prev_Key"
      | (stream) "mg_state s = Mg_Stream_Value" | (drain) "mg_state s = Mg_Drain_Value" using st' by blast
    then show ?thesis
    proof cases
      case hdr
      have "g_rec_ready i" using wl by (simp add: willing_def)
      then have "mg_step i s = ?t\<lparr>mg_emit_index := 0, mg_state := Mg_Emit_Payload\<rparr>" using late hdr by (simp add: mg_case_def m_rec_valid_def)
      moreover have "effort (?t\<lparr>mg_emit_index := 0, mg_state := Mg_Emit_Payload\<rparr>) ?g < effort s f"
        by (intro effort_rank same) (simp_all add: hdr rank.simps)
      ultimately show ?thesis by simp
    next
      case pay
      have e: "unat (mg_emit_index s) < length (fst ?r)" using at pay by (simp add: minv_at_def progress_def Let_def)
      let ?u = "?t\<lparr>mg_prev_mem := copy_emitted s (mg_prev_mem s)\<rparr>"
      have "g_axis_ready i" "m_valid i s" using wl late(4,5) pay by (simp_all add: willing_def m_valid_def)
      then have run: "mg_step i s = emitted s ?u" using late(1) by (simp add: mg_case_def pay mg_emit_payload_def)
      show ?thesis
      proof (cases "last_key_word s")
        case True
        have "effort (?u\<lparr>mg_emit_index := 0, mg_state := Mg_Stream_Value\<rparr>) ?g < effort s f"
          by (intro effort_rank same) (simp_all add: pay rank.simps)
        moreover have "effort (mg_refill s ?u) ?g < effort s f" by (rule refill) (simp_all add: pay)
        ultimately show ?thesis unfolding run emitted_def using True by simp
      next
        case False
        then have "unat (mg_emit_index s + emit_word_bytes s) = unat (mg_emit_index s) + 8" using last_key_word_iff [OF ld e] by simp
        moreover have "unat (mg_emit_index s) < 72" using e l(2) by simp
        ultimately have "effort (?u\<lparr>mg_emit_index := mg_emit_index s + emit_word_bytes s\<rparr>) ?g < effort s f"
          by (intro effort_rank same) (simp_all add: pay rank.simps)
        then show ?thesis unfolding run emitted_def using False by simp
      qed
    next
      case copy
      have run: "mg_step i s = mg_copy s ?t" using late(1) by (simp add: mg_case_def copy)
      show ?thesis
      proof (cases "mg_cmp_index s < mg_sel_ukey_len s")
        case True
        have u: "unat (mg_sel_ukey_len s) \<le> 64" using l(2,4) by simp
        have lt: "unat (mg_cmp_index s) < unat (mg_sel_ukey_len s)" using True by (simp add: word_less_nat_alt)
        have "unat (mg_cmp_index s + 4) = unat (mg_cmp_index s) + 4" using lt u by (simp add: unat_word_ariths)
        then have "unat (mg_cmp_index s) < unat (mg_cmp_index (mg_copy_step s ?t))"
          using lt by (simp add: mg_copy_step_def COPY_CHUNK_def)
        moreover have "mg_sel_ukey_len (mg_copy_step s ?t) = mg_sel_ukey_len s" by (simp add: mg_copy_step_def)
        ultimately have "rank (mg_copy_step s ?t) < rank s" using lt u by (simp add: copy rank.simps)
        then have "effort (mg_copy_step s ?t) ?g < effort s f" by (intro effort_rank same) (simp_all add: copy)
        then show ?thesis unfolding run mg_copy_def using True by simp
      next
        case False
        have "effort (mg_refill s ?t) ?g < effort s f" by (rule refill) (simp_all add: copy)
        then show ?thesis unfolding run mg_copy_def using False by simp
      qed
    next
      case stream
      have ph: "ph ?b = Ph_Ready (unat (mg_emit_index s))" using late(7) stream by simp
      have e: "unat (mg_emit_index s) < length (snd ?r)" using at stream by (simp add: minv_at_def progress_def Let_def)
      have "in_flight (length (fst ?r)) (unat (mg_emit_index s)) (side ?b ?t) (f ?b) ?r (tl (R ?b))"
        using late(3) [of ?b] unfolding ph side_at.simps current_def by blast
      from last_value_iff [OF this e refl ld dr] obtain x xs where "fd_beats (f ?b) = x # xs" by blast
      then have v: "pt_valid (port ?b i)" "axis_ready ?b i s" "g_axis_ready i"
        using wl dr late(4,5) stream by (simp_all add: willing_def axis_ready_def)
      then have run: "mg_step i s = (if last_value_beat i s then mg_refill s ?t else ?t\<lparr>mg_emit_index := mg_emit_index s + beat_len (sel_beat i s)\<rparr>)"
        using late(1) by (simp add: mg_case_def stream mg_stream_def)
      have "effort (?t\<lparr>mg_emit_index := mg_emit_index s + beat_len (sel_beat i s)\<rparr>) ?g < effort s f"
        by (intro effort_work taken) (use v in \<open>simp_all add: stream\<close>)
      moreover have "effort (mg_refill s ?t) ?g < effort s f" by (rule refill) (simp_all add: stream)
      ultimately show ?thesis unfolding run by simp
    next
      case drain
      have ph: "ph ?b = Ph_Ready (unat (mg_emit_index s))" using late(7) drain by simp
      have e: "unat (mg_emit_index s) < length (snd ?r)" using at drain by (simp add: minv_at_def progress_def Let_def)
      have fl: "in_flight (length (fst ?r)) (unat (mg_emit_index s)) (side ?b ?t) (f ?b) ?r (tl (R ?b))"
        using late(3) [of ?b] unfolding ph side_at.simps current_def by blast
      from last_value_iff [OF fl e refl ld dr] obtain y ys where x: "fd_beats (f ?b) = y # ys" "bit (bt_keep (sel_beat i s)) 0" by blast
      then have v: "pt_valid (port ?b i)" "axis_ready ?b i s" using wl dr late(4,5) drain by (simp_all add: willing_def axis_ready_def)
      then have acc: "accept_payload ?b i s" using x(2) by (simp add: accept_payload_def sel_beat_def)
      define u where "u = (if mg_cmp_index s < mg_sel_ukey_len s then mg_copy_step s ?t else ?t)"
      have u: "side c u = side c ?t" "mg_state u = Mg_Drain_Value" for c using drain by (simp_all add: u_def del: defaults_side)
      have run: "mg_step i s = drain_beat i s u" using late(1) by (simp add: mg_case_def drain mg_drain_def u_def)
      have "effort (u\<lparr>mg_emit_index := mg_emit_index s + beat_len (sel_beat i s)\<rparr>) ?g < effort s f"
        "effort (u\<lparr>mg_state := Mg_Copy_Prev_Key\<rparr>) ?g < effort s f"
        by (intro effort_work taken; use v in \<open>simp add: u\<close>)+
      moreover have "effort (mg_refill s u) ?g < effort s f" by (rule refill) (simp_all add: u)
      ultimately show ?thesis unfolding run drain_beat_def using acc by simp
    qed
  qed
qed


section \<open>The machine becomes idle, and stays so\<close>

definition sys_effort :: "mg_sys \<Rightarrow> nat" where
  "sys_effort y = effort (ms_mg y) (feeds y)"

lemma willing_eager: "willing (in_of (eager y) y) (offered (eager y)) (ms_mg y)"
  by (simp add: willing_def in_of_def eager_def offered_def side_def)

lemma eager_effort:
  assumes inv: "sys_inv T L y" and busy: "mg_state (ms_mg y) \<noteq> Mg_Idle"
  shows "sys_effort (mg_cycle (eager y) y) < sys_effort y"
proof -
  let ?i = "in_of (eager y) y" and ?s = "ms_mg y" and ?f = "feeds y"
  obtain ph R Q where at: "minv_at T L ph R Q ?s ?f (sink_of y)" using inv by (auto simp: sys_inv_def minv_def)
  have "patient (eager y) y" by (simp add: patient_def eager_def)
  then have "minv T L (ms_mg (mg_cycle (eager y) y)) (feeds (mg_cycle (eager y) y)) (sink_of (mg_cycle (eager y) y))"
    using cycle_inv [OF inv] by (simp add: sys_inv_def)
  moreover have m: "ms_mg (mg_cycle (eager y) y) = mg_step ?i ?s" by (simp add: mg_cycle_def mg_edge_def)
  ultimately have nx: "minv T L (mg_step ?i ?s) (feeds (mg_cycle (eager y) y)) (sink_of (mg_cycle (eager y) y))" by simp
  have g: "feeds (mg_cycle (eager y) y) = (\<lambda>b. consume b ?i ?s (?f b))" by (auto simp: feeds_def mg_cycle_def mg_edge_def)
  note dr = drives_in_of [of "eager y" y] and wl = willing_eager [of y]
  have ct: "ctrl ?s ph R" using at by (simp add: minv_at_def)
  have "effort (mg_step ?i ?s) (\<lambda>b. consume b ?i ?s (?f b)) < effort ?s ?f"
  proof (cases "mg_state ?s \<in> {Mg_Cmp_Setup, Mg_Emit_Header, Mg_Emit_Payload, Mg_Copy_Prev_Key, Mg_Stream_Value, Mg_Drain_Value}")
    case True
    then show ?thesis by (rule late_effort [OF at dr wl nx])
  next
    case False
    then consider b where "mg_state ?s = Mg_Wait b" | b where "mg_state ?s = Mg_Capture b"
      using busy ct by (cases "mg_state ?s") (auto simp: ctrl_def)
    then show ?thesis using wait_effort [OF _ at dr wl] capture_effort [OF _ at dr wl] by cases blast+
  qed
  then show ?thesis unfolding sys_effort_def g m .
qed

lemma idle_stays:
  assumes "sys_inv T L y" and "mg_state (ms_mg y) = Mg_Idle"
  shows "mg_state (ms_mg (mg_cycle c y)) = Mg_Idle"
proof -
  have "\<not> mg_busy (ms_mg y)" using assms by (auto simp: sys_inv_def minv_def minv_at_def)
  then show ?thesis using assms(2) by (simp add: mg_cycle_def mg_edge_def mg_step_def mg_clocked_def in_of_def)
qed

lemma eager_idle:
  assumes "sys_inv T L y" and "mg_state (ms_mg y) = Mg_Idle \<or> sys_effort y \<le> n"
  shows "mg_state (ms_mg (mg_cycles (eager_run n y) y)) = Mg_Idle"
  using assms
proof (induction n arbitrary: y)
  case 0
  then show ?case using eager_effort [OF 0(1)] by (cases "mg_state (ms_mg y) = Mg_Idle") (auto simp: mg_cycles_def)
next
  case (Suc n)
  let ?z = "mg_cycle (eager y) y"
  have "sys_inv T L ?z" by (rule cycle_inv [OF Suc.prems(1)]) (simp add: patient_def eager_def)
  moreover have "mg_state (ms_mg ?z) = Mg_Idle \<or> sys_effort ?z \<le> n"
    using idle_stays [OF Suc.prems(1)] eager_effort [OF Suc.prems(1)] Suc.prems(2) by fastforce
  ultimately have "mg_state (ms_mg (mg_cycles (eager_run n ?z) ?z)) = Mg_Idle" by (rule Suc.IH)
  then show ?case by (simp add: mg_cycles_def)
qed

text \<open>A number of cycles that is enough for a pair.\<close>

definition pair_cycles :: "feed \<Rightarrow> feed \<Rightarrow> nat" where
  "pair_cycles f0 f1 = 200 * (length (fd_hdrs f0) + length (fd_beats f0) + length (fd_hdrs f1) + length (fd_beats f1)) + 183"

lemma start_effort: "sys_effort (mg_start_pair s k f0 f1) = pair_cycles f0 f1"
proof -
  define t where "t = mg_defaults (start_in k) (mg_cleared s)"
  have "mg_step (start_in k) (mg_cleared s) = mg_begin (start_in k) t"
    by (simp add: mg_step_def mg_clocked_def start_in_def mg_cleared_def t_def)
  then show ?thesis
    by (simp add: sys_effort_def effort_def work_def pending_def rank.simps mg_start_pair_def feeds_def pair_cycles_def
        mg_begin_def side_def empty_side_def)
qed

lemma pair_idle:
  assumes "delivers f0 xs" and "delivers f1 ys" and "seed_is k prev" and "pair_cycles f0 f1 \<le> n"
  shows "mg_state (ms_mg (mg_cycles (eager_run n (mg_start_pair s k f0 f1)) (mg_start_pair s k f0 f1))) = Mg_Idle"
  by (rule eager_idle [OF start_inv [OF assms(1-3)]]) (simp add: start_effort assms(4))

end
