(* ===== verification/Merger_Pairs.thy ===== *)
theory Merger_Pairs
  imports Merger_Termination
begin

text \<open>
  What the merger does for the program: the records of a pair are merged, whatever its neighbours do; with
  neighbours that do not stall it ends; and a chain of pairs, every one seeded with the key the one before
  hands on, computes \<open>merge_pairs\<close>.
\<close>

section \<open>One pair\<close>

definition after_start :: "merger \<Rightarrow> prev_key \<Rightarrow> feed \<Rightarrow> feed \<Rightarrow> choice list \<Rightarrow> mg_sys" where
  "after_start s k f0 f1 cs = mg_cycles cs (mg_start_pair s k f0 f1)"

lemma pair_merged:
  assumes "delivers f0 xs" and "delivers f1 ys" and "seed_is k prev"
    and "patient_run cs (mg_start_pair s k f0 f1)" and "mg_state (ms_mg (after_start s k f0 f1 cs)) = Mg_Idle"
  shows "\<not> mg_error (ms_mg (after_start s k f0 f1 cs))"
    and "ms_hdrs (after_start s k f0 f1 cs) = map header_of (merge_records prev xs ys)"
    and "ms_frames (after_start s k f0 f1 cs) = map frame_of (merge_records prev xs ys)"
    and "ms_cur (after_start s k f0 f1 cs) = []"
    and "seed_is (final_prev_key (ms_mg (after_start s k f0 f1 cs))) (last_user_key prev (weave xs ys))"
  unfolding after_start_def
  by (rule sys_inv_idle [OF cycles_inv [OF start_inv [OF assms(1-3)] assms(4)] assms(5) [unfolded after_start_def]
      handed_on_length [OF assms(1-3)]], assumption)+

definition eager_pair :: "nat \<Rightarrow> merger \<Rightarrow> prev_key \<Rightarrow> feed \<Rightarrow> feed \<Rightarrow> mg_sys" where
  "eager_pair n s k f0 f1 = after_start s k f0 f1 (eager_run n (mg_start_pair s k f0 f1))"

lemma eager_pair_idle:
  assumes "delivers f0 xs" and "delivers f1 ys" and "seed_is k prev" and "pair_cycles f0 f1 \<le> n"
  shows "mg_state (ms_mg (eager_pair n s k f0 f1)) = Mg_Idle"
  using pair_idle [OF assms] by (simp add: eager_pair_def after_start_def)

lemma eager_pair_merged:
  assumes "delivers f0 xs" and "delivers f1 ys" and "seed_is k prev" and "pair_cycles f0 f1 \<le> n"
  shows "\<not> mg_error (ms_mg (eager_pair n s k f0 f1))"
    and "ms_hdrs (eager_pair n s k f0 f1) = map header_of (merge_records prev xs ys)"
    and "ms_frames (eager_pair n s k f0 f1) = map frame_of (merge_records prev xs ys)"
    and "seed_is (final_prev_key (ms_mg (eager_pair n s k f0 f1))) (last_user_key prev (weave xs ys))"
  using pair_merged [OF assms(1-3) eager_patient] eager_pair_idle [OF assms] by (simp_all add: eager_pair_def)

section \<open>The chain of pairs\<close>

fun eager_pairs :: "nat \<Rightarrow> merger \<Rightarrow> prev_key \<Rightarrow> (feed \<times> feed) list \<Rightarrow> byte list list list" where
  "eager_pairs n s k [] = []"
| "eager_pairs n s k ((f0, f1) # ps) =
     (let y = eager_pair n s k f0 f1 in ms_frames y # eager_pairs n (ms_mg y) (final_prev_key (ms_mg y)) ps)"

definition feeds_of :: "entry list \<times> entry list \<Rightarrow> feed \<times> feed" where
  "feeds_of p = (feed_of (fst p), feed_of (snd p))"

lemma feeds_of_pair [simp]: "feeds_of (xs, ys) = (feed_of xs, feed_of ys)"
  by (simp add: feeds_of_def)

lemma eager_pairs_merge:
  assumes "\<forall>p\<in>set ps. \<forall>r\<in>pair_records p. rec_ok r" and "seed_is k prev"
    and "\<forall>p\<in>set ps. pair_cycles (feed_of (fst p)) (feed_of (snd p)) \<le> n"
  shows "eager_pairs n s k (map feeds_of ps) = map (map frame_of) (merge_pairs prev ps)"
  using assms
proof (induction prev ps arbitrary: s k rule: merge_pairs.induct)
  case (2 prev xs ys ps)
  have d: "delivers (feed_of xs) xs" "delivers (feed_of ys) ys"
    using "2.prems"(1) by (auto simp: pair_records_def intro!: feed_of_delivers)
  have n: "pair_cycles (feed_of xs) (feed_of ys) \<le> n" using "2.prems"(3) by simp
  note one = eager_pair_merged [OF d "2.prems"(2) n, of s]
  have "eager_pairs n (ms_mg (eager_pair n s k (feed_of xs) (feed_of ys))) (final_prev_key (ms_mg (eager_pair n s k (feed_of xs) (feed_of ys))))
      (map feeds_of ps) = map (map frame_of) (merge_pairs (last_user_key prev (weave xs ys)) ps)"
    by (rule "2.IH" [OF _ one(4)]) (use "2.prems" in auto)
  then show ?case by (simp add: one(3) Let_def)
qed simp


lemma no_seed: "seed_is no_prev_key None"
  by (simp add: seed_is_def no_prev_key_def)

section \<open>Properties\<close>

text \<open>
  C2. The merger refines the merge of records: whatever the stalls of its neighbours, if it is idle again it
  is not in error and has handed out exactly the headers and the bytes of \<open>merge_records\<close>, in this order,
  and the key it offers to the next pair is the user key of the last record of the two sources. The
  neighbours must not signal the end of a source whose header is fetched ahead.
\<close>

theorem merger_refines_merge:
  assumes "delivers f0 xs" and "delivers f1 ys" and "seed_is k prev"
    and "patient_run cs (mg_start_pair s k f0 f1)" and "mg_state (ms_mg (after_start s k f0 f1 cs)) = Mg_Idle"
  shows "\<not> mg_error (ms_mg (after_start s k f0 f1 cs)) \<and>
    ms_hdrs (after_start s k f0 f1 cs) = map header_of (merge_records prev xs ys) \<and>
    ms_frames (after_start s k f0 f1 cs) = map frame_of (merge_records prev xs ys) \<and>
    seed_is (final_prev_key (ms_mg (after_start s k f0 f1 cs))) (last_user_key prev (weave xs ys))"
  using pair_merged [OF assms] by blast

definition demo_key :: "nat \<Rightarrow> nat \<Rightarrow> byte list" where
  "demo_key u q = replicate 9 (of_nat u) @ [1, of_nat q, 0, 0, 0, 0, 0, 0]"

definition demo0 :: "entry list" where
  "demo0 = [(demo_key 1 2, [7]), (demo_key 2 2, replicate 10 8)]"

definition demo1 :: "entry list" where
  "demo1 = [(demo_key 1 5, [9]), (demo_key 3 4, [])]"

lemma demo_ok: "\<forall>r\<in>set demo0 \<union> set demo1. rec_ok r"
  by (simp add: demo0_def demo1_def demo_key_def rec_ok_def)

lemma demo_delivers: "delivers (feed_of demo0) demo0" "delivers (feed_of demo1) demo1"
  using demo_ok by (auto intro!: feed_of_delivers)

theorem merger_refines_merge_witness:
  "\<forall>s. \<exists>cs. ms_frames (after_start s no_prev_key (feed_of demo0) (feed_of demo1) cs) =
     map frame_of [(demo_key 1 5, [9]), (demo_key 2 2, replicate 10 8), (demo_key 3 4, [])]"
proof
  fix s
  let ?y = "mg_start_pair s no_prev_key (feed_of demo0) (feed_of demo1)"
  let ?cs = "eager_run (pair_cycles (feed_of demo0) (feed_of demo1)) ?y"
  have idle: "mg_state (ms_mg (after_start s no_prev_key (feed_of demo0) (feed_of demo1) ?cs)) = Mg_Idle"
    unfolding after_start_def by (rule pair_idle [OF demo_delivers no_seed order_refl])
  have "merge_records None demo0 demo1 = [(demo_key 1 5, [9]), (demo_key 2 2, replicate 10 8), (demo_key 3 4, [])]"
    by code_simp
  then have "ms_frames (after_start s no_prev_key (feed_of demo0) (feed_of demo1) ?cs) =
      map frame_of [(demo_key 1 5, [9]), (demo_key 2 2, replicate 10 8), (demo_key 3 4, [])]"
    using merger_refines_merge [OF demo_delivers no_seed eager_patient idle] by simp
  then show "\<exists>cs. ms_frames (after_start s no_prev_key (feed_of demo0) (feed_of demo1) cs) =
     map frame_of [(demo_key 1 5, [9]), (demo_key 2 2, replicate 10 8), (demo_key 3 4, [])]" by blast
qed

text \<open>
  C13. At every moment of a pair, whatever the stalls, the merger is not in error and what has left it is a
  beginning of the merge: the completed frames are the first \<open>n\<close> records, and the headers are at most one
  record ahead of them.
\<close>

theorem merger_emits_prefix:
  assumes "delivers f0 xs" and "delivers f1 ys" and "seed_is k prev" and "patient_run cs (mg_start_pair s k f0 f1)"
  shows "\<not> mg_error (ms_mg (after_start s k f0 f1 cs)) \<and>
    (\<exists>n m. n \<le> m \<and> m \<le> Suc n \<and>
       ms_hdrs (after_start s k f0 f1 cs) = map header_of (take m (merge_records prev xs ys)) \<and>
       ms_frames (after_start s k f0 f1 cs) = map frame_of (take n (merge_records prev xs ys)))"
  unfolding after_start_def
  by (rule sys_inv_prefix [OF cycles_inv [OF start_inv [OF assms(1-3)] assms(4)]])

theorem merger_emits_prefix_witness:
  "\<forall>s n. \<not> mg_error (ms_mg (after_start s no_prev_key (feed_of demo0) (feed_of demo1)
     (eager_run n (mg_start_pair s no_prev_key (feed_of demo0) (feed_of demo1)))))"
  using merger_emits_prefix [OF demo_delivers no_seed eager_patient] by blast

text \<open>
  C12. The merger ends: with neighbours that do not stall it is idle again after a number of cycles that is
  linear in the beats and headers of the two sources, and the records it has handed out are all those of
  the merge.
\<close>

theorem merger_finishes:
  assumes "delivers f0 xs" and "delivers f1 ys" and "seed_is k prev"
    and "200 * (length xs + length (fd_beats f0) + length ys + length (fd_beats f1)) + 183 \<le> n"
  shows "mg_state (ms_mg (eager_pair n s k f0 f1)) = Mg_Idle \<and> \<not> mg_error (ms_mg (eager_pair n s k f0 f1)) \<and>
    ms_frames (eager_pair n s k f0 f1) = map frame_of (merge_records prev xs ys)"
proof -
  have "pair_cycles f0 f1 \<le> n" using assms by (simp add: pair_cycles_def delivers_def)
  then show ?thesis using eager_pair_idle [OF assms(1-3)] eager_pair_merged [OF assms(1-3)] by blast
qed

theorem merger_finishes_witness:
  "\<forall>s. \<exists>n. mg_state (ms_mg (eager_pair n s no_prev_key (feed_of demo0) (feed_of demo1))) = Mg_Idle"
  using merger_finishes [OF demo_delivers no_seed order_refl] by blast

text \<open>
  C3. The chain of pairs computes the compaction of two tables: when the blocks of the two tables are
  aligned, the blocks the merger makes of the pairs, every one seeded with the last user key of the pair
  before, contain together exactly the newest record of every user key, in order.
\<close>

theorem merger_chain_compacts:
  assumes "\<forall>r\<in>set (concat b0) \<union> set (concat b1). rec_ok r"
    and "aligned (pair_up b0 b1 [])" and "by_user_key (concat b0)" and "by_user_key (concat b1)"
    and "\<forall>p\<in>set (pair_up b0 b1 []). pair_cycles (feed_of (fst p)) (feed_of (snd p)) \<le> n"
  shows "concat (eager_pairs n s no_prev_key (map feeds_of (pair_up b0 b1 []))) = map frame_of (newest_merge (concat b0) (concat b1))"
proof -
  have "set (concat (map fst (pair_up b0 b1 []))) \<union> set (concat (map snd (pair_up b0 b1 []))) = set (concat b0) \<union> set (concat b1)"
    by (simp only: pair_up_concat)
  then have ok: "\<forall>p\<in>set (pair_up b0 b1 []). \<forall>r\<in>pair_records p. rec_ok r"
    using assms(1) by (fastforce simp: pair_records_def)
  show ?thesis
    unfolding eager_pairs_merge [OF ok no_seed assms(5)] merge_pairs_tables [OF assms(2-4), symmetric]
    by (simp add: map_concat)
qed

theorem merger_chain_compacts_witness:
  "\<forall>s. \<exists>n. concat (eager_pairs n s no_prev_key (map feeds_of (pair_up [demo0, [(demo_key 4 1, [6])]] [demo1] []))) =
     map frame_of [(demo_key 1 5, [9]), (demo_key 2 2, replicate 10 8), (demo_key 3 4, []), (demo_key 4 1, [6])]"
proof
  fix s
  let ?b0 = "[demo0, [(demo_key 4 1, [6])]]" and ?b1 = "[demo1]"
  let ?c = "\<lambda>p. pair_cycles (feed_of (fst p)) (feed_of (snd p))"
  define n where "n = sum_list (map ?c (pair_up ?b0 ?b1 []))"
  have n: "\<forall>p\<in>set (pair_up ?b0 ?b1 []). ?c p \<le> n" unfolding n_def by (auto intro: member_le_sum_list)
  have ok: "\<forall>r\<in>set (concat ?b0) \<union> set (concat ?b1). rec_ok r"
    using demo_ok by (auto simp: demo_key_def rec_ok_def)
  have ord: "aligned (pair_up ?b0 ?b1 [])" "by_user_key (concat ?b0)" "by_user_key (concat ?b1)"
    by (code_simp)+
  have "newest_merge (concat ?b0) (concat ?b1) =
      [(demo_key 1 5, [9]), (demo_key 2 2, replicate 10 8), (demo_key 3 4, []), (demo_key 4 1, [6])]" by code_simp
  then show "\<exists>n. concat (eager_pairs n s no_prev_key (map feeds_of (pair_up [demo0, [(demo_key 4 1, [6])]] [demo1] []))) =
      map frame_of [(demo_key 1 5, [9]), (demo_key 2 2, replicate 10 8), (demo_key 3 4, []), (demo_key 4 1, [6])]"
    using merger_chain_compacts [OF ok ord n, of s] by auto
qed

end
