(* ===== verification/Merger_Loss.thy ===== *)
theory Merger_Loss
  imports Merger_Pairs
begin

text \<open>
  What happens when the end of source 1 is signalled while its header is fetched ahead. The machine is then
  in a trap: source 1 counts as exhausted although its record has not been read, and every later cycle is
  the same as that of a merger without this source.
\<close>

section \<open>The trap\<close>

definition trapped :: "merger \<Rightarrow> bool" where
  "trapped s \<longleftrightarrow> \<not> sd_buf (side True s) \<and> sd_done (side True s) \<and>
     (case mg_state s of
        Mg_Wait b \<Rightarrow> \<not> b
      | Mg_Capture b \<Rightarrow> \<not> b
      | Mg_Cmp_Setup \<Rightarrow> sd_buf (side False s)
      | st \<Rightarrow> st \<in> {Mg_Emit_Header, Mg_Emit_Payload, Mg_Copy_Prev_Key, Mg_Stream_Value, Mg_Drain_Value} \<longrightarrow>
           sd_buf (side False s) \<and> \<not> mg_sel s)"

text \<open>The machine without what only concerns source 1.\<close>

definition blind :: "merger \<Rightarrow> merger" where
  "blind s = s\<lparr>mg_side1 := (empty_side zero_mem)\<lparr>sd_done := True\<rparr>, mg_found_r := False, mg_lt_r := False,
     mg_all_done_r := False, mg_diff1_r := False\<rparr>"

lemma blind_reads [simp]:
  "mg_state (blind s) = mg_state s" "mg_busy (blind s) = mg_busy s" "mg_error (blind s) = mg_error s"
  "mg_have_prev (blind s) = mg_have_prev s" "mg_prev_len (blind s) = mg_prev_len s" "mg_prev_mem (blind s) = mg_prev_mem s"
  "mg_sel (blind s) = mg_sel s" "mg_cmp_index (blind s) = mg_cmp_index s" "mg_emit_index (blind s) = mg_emit_index s"
  "mg_cap_index (blind s) = mg_cap_index s" "mg_sel_ukey_len (blind s) = mg_sel_ukey_len s"
  "mg_sel_key_len (blind s) = mg_sel_key_len s" "mg_sel_value_len (blind s) = mg_sel_value_len s"
  "mg_prev_state (blind s) = mg_prev_state s" "mg_counts (blind s) = mg_counts s" "mg_out_bytes (blind s) = mg_out_bytes s"
  "mg_diff0_r (blind s) = mg_diff0_r s"
  by (simp_all add: blind_def)

lemma blind_sides [simp]:
  "side False (blind s) = side False s" "sd_buf (side True (blind s)) = False" "sd_done (side True (blind s)) = True"
  "mg_side0 (blind s) = mg_side0 s"
  by (simp_all add: blind_def side_def empty_side_def)

lemma blind_pushes [simp]:
  "blind (t\<lparr>mg_state := st\<rparr>) = (blind t)\<lparr>mg_state := st\<rparr>" "blind (t\<lparr>mg_busy := a\<rparr>) = (blind t)\<lparr>mg_busy := a\<rparr>"
  "blind (t\<lparr>mg_done := a\<rparr>) = (blind t)\<lparr>mg_done := a\<rparr>" "blind (t\<lparr>mg_error := a\<rparr>) = (blind t)\<lparr>mg_error := a\<rparr>"
  "blind (t\<lparr>mg_have_prev := a\<rparr>) = (blind t)\<lparr>mg_have_prev := a\<rparr>" "blind (t\<lparr>mg_prev_len := n\<rparr>) = (blind t)\<lparr>mg_prev_len := n\<rparr>"
  "blind (t\<lparr>mg_prev_mem := m\<rparr>) = (blind t)\<lparr>mg_prev_mem := m\<rparr>" "blind (t\<lparr>mg_sel := a\<rparr>) = (blind t)\<lparr>mg_sel := a\<rparr>"
  "blind (t\<lparr>mg_keep := a\<rparr>) = (blind t)\<lparr>mg_keep := a\<rparr>" "blind (t\<lparr>mg_cmp_index := n\<rparr>) = (blind t)\<lparr>mg_cmp_index := n\<rparr>"
  "blind (t\<lparr>mg_emit_index := e\<rparr>) = (blind t)\<lparr>mg_emit_index := e\<rparr>" "blind (t\<lparr>mg_cap_index := e\<rparr>) = (blind t)\<lparr>mg_cap_index := e\<rparr>"
  "blind (t\<lparr>mg_sel_ukey_len := n\<rparr>) = (blind t)\<lparr>mg_sel_ukey_len := n\<rparr>" "blind (t\<lparr>mg_sel_key_len := n\<rparr>) = (blind t)\<lparr>mg_sel_key_len := n\<rparr>"
  "blind (t\<lparr>mg_sel_value_len := n\<rparr>) = (blind t)\<lparr>mg_sel_value_len := n\<rparr>" "blind (t\<lparr>mg_counts := c\<rparr>) = (blind t)\<lparr>mg_counts := c\<rparr>"
  "blind (put_side False d t) = put_side False d (blind t)" "blind (put_side True d t) = blind t" "blind (blind t) = blind t"
  by (simp_all add: blind_def put_side_def)

text \<open>Inputs that agree on all but the port of source 1.\<close>

definition same_inputs :: "mg_in \<Rightarrow> mg_in \<Rightarrow> bool" where
  "same_inputs i j \<longleftrightarrow> g_port0 i = g_port0 j \<and> g_rec_ready i = g_rec_ready j \<and> g_axis_ready i = g_axis_ready j \<and>
     g_rstn i \<and> g_rstn j \<and> \<not> g_clear i \<and> \<not> g_clear j \<and> \<not> g_start i \<and> \<not> g_start j"

lemma same_port: "same_inputs i j \<Longrightarrow> port False i = port False j"
  by (simp add: same_inputs_def port_def)

section \<open>A trapped machine does not look at source 1\<close>

lemma blind_emit:
  assumes "\<not> mg_sel s"
  shows "emit_byte (blind s) = emit_byte s" "emit_word (blind s) = emit_word s" "emit_word_bytes (blind s) = emit_word_bytes s"
    "emit_keep (blind s) = emit_keep s" "last_key_word (blind s) = last_key_word s" "copy_emitted (blind s) = copy_emitted s"
    "copy_chunk (blind s) = copy_chunk s" "copy_ends (blind s) = copy_ends s"
proof -
  show b: "emit_byte (blind s) = emit_byte s" using assms by (simp add: emit_byte_def fun_eq_iff)
  then show "emit_word (blind s) = emit_word s" by (simp add: emit_word_def)
  show w: "emit_word_bytes (blind s) = emit_word_bytes s" by (simp add: emit_word_bytes_def emit_remaining_key_def)
  then show "emit_keep (blind s) = emit_keep s" "last_key_word (blind s) = last_key_word s"
    by (simp_all add: emit_keep_def last_key_word_def)
  have "copy_emitted_byte (blind s) = copy_emitted_byte s" by (intro ext) (simp add: copy_emitted_byte_def b)
  then show "copy_emitted (blind s) = copy_emitted s" by (intro ext) (simp add: copy_emitted_def)
  have "copy_byte (blind s) = copy_byte s" using assms by (intro ext) (simp add: copy_byte_def)
  then show "copy_chunk (blind s) = copy_chunk s" by (intro ext) (simp add: copy_chunk_def)
  show "copy_ends (blind s) = copy_ends s" by (simp add: copy_ends_def)
qed

lemma blind_outputs:
  assumes "trapped s" and "same_inputs i j"
  shows "m_rec_valid (blind s) = m_rec_valid s" "m_valid j (blind s) = m_valid i s"
    "m_valid i s \<Longrightarrow> m_beat j (blind s) = m_beat i s"
    "accept_header False j (blind s) = accept_header False i s" "accept_payload False j (blind s) = accept_payload False i s"
    "axis_ready False j (blind s) = axis_ready False i s"
proof -
  have sel: "mg_state s = Mg_Emit_Payload \<or> mg_state s = Mg_Stream_Value \<Longrightarrow> \<not> mg_sel s"
    using assms(1) by (auto simp: trapped_def)
  show "m_rec_valid (blind s) = m_rec_valid s" by (simp add: m_rec_valid_def)
  show "m_valid j (blind s) = m_valid i s" using sel assms(2) by (auto simp: m_valid_def same_port)
  show "m_beat j (blind s) = m_beat i s" if "m_valid i s"
    using that sel assms(2) by (auto simp: m_valid_def m_beat_def sel_beat_def same_port blind_emit last_value_beat_def)
  have r: "g_axis_ready i = g_axis_ready j" using assms(2) by (simp add: same_inputs_def)
  show a: "axis_ready False j (blind s) = axis_ready False i s" using r by (simp add: axis_ready_def)
  have "can_prefetch False (blind s) = can_prefetch False s" by (simp add: can_prefetch_def)
  then show "accept_header False j (blind s) = accept_header False i s"
    using same_port [OF assms(2)] by (simp add: accept_header_def rec_ready_def)
  show "accept_payload False j (blind s) = accept_payload False i s"
    using a same_port [OF assms(2)] by (simp add: accept_payload_def)
qed

lemma blind_defaults:
  assumes "trapped s" and "same_inputs i j"
  shows "blind (mg_defaults j (blind s)) = blind (mg_defaults i s)"
proof -
  note out = blind_outputs [OF assms]
  have p: "cmp_pos (blind s) = cmp_pos s" by (simp add: cmp_pos_def fun_eq_iff)
  have "differs_at (blind s) d q = differs_at s d q" for d q by (simp add: differs_at_def)
  then have d: "differs_from_prev False (blind s) = differs_from_prev False s" by (simp add: differs_from_prev_def p)
  have l: "blind (latch_done True k t) = blind t" for k t by (simp add: latch_done_def)
  have f: "blind (latch_done False j t) = latch_done False i (blind t)" for t
    using same_port [OF assms(2)] by (simp add: latch_done_def)
  have g: "blind (latch_done False i t) = latch_done False i (blind t)" for t by (simp add: latch_done_def)
  have o: "(if m_valid j (blind s) \<and> g_axis_ready j then mg_out_bytes (blind s) + beat_len (m_beat j (blind s)) else mg_out_bytes (blind s)) =
      (if m_valid i s \<and> g_axis_ready i then mg_out_bytes s + beat_len (m_beat i s) else mg_out_bytes s)"
    using out(2,3) assms(2) by (auto simp: same_inputs_def)
  show ?thesis unfolding mg_defaults_def l f g o d by (simp add: blind_def)
qed


lemma trapped_no_prefetch:
  assumes "trapped s"
  shows "\<not> can_prefetch b s" "\<not> accept_header True i s" "\<not> axis_ready True i s"
proof -
  show n: "\<not> can_prefetch b s" for b
    using assms by (cases b) (auto simp: trapped_def can_prefetch_def split: mg_state.splits)
  show "\<not> accept_header True i s" "\<not> axis_ready True i s"
    using assms n [of True] by (auto simp: trapped_def accept_header_def rec_ready_def axis_ready_def)
qed

lemma trapped_run:
  assumes "trapped s" and "same_inputs i j"
  shows "mg_step i s = (if mg_busy s \<and> \<not> mg_error s then mg_case i s (mg_defaults i s) else mg_defaults i s)"
  using assms trapped_no_prefetch [OF assms(1)] by (simp add: mg_step_def mg_clocked_def same_inputs_def)

lemma blind_eq_side: "blind u = blind t \<Longrightarrow> side False u = side False t"
  using blind_sides(1) by metis

lemma refill_blind:
  assumes "trapped s" and "\<not> mg_sel s" and "blind u = blind t"
  shows "blind (mg_refill (blind s) u) = blind (mg_refill s t)"
proof -
  have "side False u = side False t" using assms(3) by (rule blind_eq_side)
  then show ?thesis using assms
    by (simp add: mg_refill_def refill_route_def mg_finish_def trapped_def)
qed

lemma case_blind:
  assumes tr: "trapped s" and sm: "same_inputs i j" and fl: "mg_busy s" "\<not> mg_error s" and eq: "blind u = blind t"
  shows "blind (mg_case j (blind s) u) = blind (mg_case i s t)"
proof -
  note out = blind_outputs [OF tr sm] and pt = same_port [OF sm] and su = blind_eq_side [OF eq]
  have rdy: "g_rec_ready i = g_rec_ready j" "g_axis_ready i = g_axis_ready j" using sm by (simp_all add: same_inputs_def)
  have one: "\<not> sd_buf (side True s)" "sd_done (side True s)" using tr by (simp_all add: trapped_def)
  have sel: "\<not> mg_sel s" if "mg_state s \<in> {Mg_Emit_Header, Mg_Emit_Payload, Mg_Copy_Prev_Key, Mg_Stream_Value, Mg_Drain_Value}"
    using tr that by (auto simp: trapped_def)
  have fail: "blind (mg_fail u) = blind (mg_fail t)" by (simp add: mg_fail_def eq)
  show ?thesis
  proof (cases "mg_state s")
    case (Mg_Wait b)
    then have b: "\<not> b" using tr by (simp add: trapped_def)
    then show ?thesis using one pt su out(4) fail
      by (simp add: mg_case_def Mg_Wait mg_wait_def mg_compare_def mg_finish_def eq)
  next
    case (Mg_Capture b)
    then have b: "\<not> b" using tr by (simp add: trapped_def)
    then show ?thesis using one pt su out(5) fail
      by (simp add: mg_case_def Mg_Capture mg_capture_def capture_beat_def capture_last_def mg_compare_def mg_fail_def eq)
  next
    case Mg_Cmp_Setup
    then have b0: "sd_buf (side False s)" using tr by (simp add: trapped_def)
    have v: "cmp_pipe_valid (blind s) = cmp_pipe_valid s" "next_sel_valid (blind s)" "next_sel_valid s"
      "\<not> next_sel_src (blind s)" "\<not> next_sel_src s"
      using one b0 by (simp_all add: cmp_pipe_valid_def next_sel_valid_def next_sel_src_def side_def blind_def empty_side_def)
    have "next_keep (blind s) = next_keep s" using v by (simp add: next_keep_def)
    then show ?thesis using v
      by (simp add: mg_case_def Mg_Cmp_Setup mg_select_def take_selected_def route_selected_def eq)
  next
    case Mg_Emit_Header
    then show ?thesis using out(1) rdy by (simp add: mg_case_def eq)
  next
    case Mg_Emit_Payload
    then have ns: "\<not> mg_sel s" using sel by simp
    have "blind (mg_refill (blind s) (u\<lparr>mg_prev_mem := m\<rparr>)) = blind (mg_refill s (t\<lparr>mg_prev_mem := m\<rparr>))" for m
      by (rule refill_blind [OF tr ns]) (simp add: eq)
    then show ?thesis using out(2) rdy blind_emit [OF ns]
      by (simp add: mg_case_def Mg_Emit_Payload mg_emit_payload_def emitted_def eq)
  next
    case Mg_Copy_Prev_Key
    then have ns: "\<not> mg_sel s" using sel by simp
    show ?thesis using refill_blind [OF tr ns eq] blind_emit [OF ns]
      by (simp add: mg_case_def Mg_Copy_Prev_Key mg_copy_def mg_copy_step_def eq)
  next
    case Mg_Stream_Value
    then have ns: "\<not> mg_sel s" using sel by simp
    show ?thesis using refill_blind [OF tr ns eq] pt rdy ns
      by (simp add: mg_case_def Mg_Stream_Value mg_stream_def last_value_beat_def sel_beat_def eq)
  next
    case Mg_Drain_Value
    then have ns: "\<not> mg_sel s" using sel by simp
    have c: "blind (mg_copy_step (blind s) u) = blind (mg_copy_step s t)" by (simp add: mg_copy_step_def blind_emit [OF ns] eq)
    show ?thesis using refill_blind [OF tr ns eq] refill_blind [OF tr ns c] pt ns out(5) c blind_emit [OF ns]
      by (simp add: mg_case_def Mg_Drain_Value mg_drain_def drain_beat_def last_value_beat_def sel_beat_def eq)
  qed (simp_all add: mg_case_def fail)
qed

lemma step_blind:
  assumes tr: "trapped s" and sm: "same_inputs i j"
  shows "blind (mg_step j (blind s)) = blind (mg_step i s)"
proof -
  have tb: "trapped (blind s)" using tr by (cases "mg_state s") (simp_all add: trapped_def)
  have sj: "same_inputs j j" using sm by (simp add: same_inputs_def)
  note d = blind_defaults [OF tr sm]
  show ?thesis unfolding trapped_run [OF tr sm] trapped_run [OF tb sj] using case_blind [OF tr sm _ _ d] d by simp
qed

lemma step_trapped:
  assumes tr: "trapped s" and sm: "same_inputs i j"
  shows "trapped (mg_step i s)"
proof -
  let ?t = "mg_defaults i s"
  have t: "trapped ?t" using tr by (cases "mg_state s") (simp_all add: trapped_def)
  have one: "\<not> sd_buf (side True s)" "sd_done (side True s)" using tr by (simp_all add: trapped_def)
  have fail: "trapped (mg_fail ?t)" using one by (simp add: trapped_def mg_fail_def)
  have refill: "trapped (mg_refill s v)" if "\<not> mg_sel s" "\<not> sd_buf (side True v)" "sd_done (side True v)" for v
    using one that by (simp add: mg_refill_def refill_route_def mg_finish_def trapped_def)
  have sel: "\<not> mg_sel s \<and> sd_buf (side False s)" if "mg_state s \<in> {Mg_Emit_Header, Mg_Emit_Payload, Mg_Copy_Prev_Key, Mg_Stream_Value, Mg_Drain_Value}"
    using tr that by (auto simp: trapped_def)
  have "trapped (mg_case i s ?t)"
  proof (cases "mg_state s")
    case (Mg_Wait b)
    then have "\<not> b" using tr by (simp add: trapped_def)
    then show ?thesis using one t fail
      by (simp add: mg_case_def Mg_Wait mg_wait_def mg_finish_def) (simp add: trapped_def)
  next
    case (Mg_Capture b)
    then have "\<not> b" using tr by (simp add: trapped_def)
    then show ?thesis using one t fail Mg_Capture
      by (simp add: mg_case_def mg_capture_def capture_beat_def capture_last_def mg_compare_def mg_fail_def trapped_def)
  next
    case Mg_Cmp_Setup
    then have b0: "sd_buf (side False s)" using tr by (simp add: trapped_def)
    have v: "next_sel_valid s" "\<not> next_sel_src s"
      using one b0 by (simp_all add: next_sel_valid_def next_sel_src_def side_def)
    then show ?thesis using one b0 t
      by (simp add: mg_case_def Mg_Cmp_Setup mg_select_def take_selected_def route_selected_def) (simp add: trapped_def)
  next
    case Mg_Emit_Header
    then show ?thesis using t one sel by (simp add: mg_case_def) (simp add: trapped_def)
  next
    case Mg_Emit_Payload
    then show ?thesis using t one sel
      by (simp add: mg_case_def mg_emit_payload_def emitted_def refill) (simp add: trapped_def)
  next
    case Mg_Copy_Prev_Key
    then show ?thesis using one sel by (simp add: mg_case_def mg_copy_def refill) (simp add: trapped_def)
  next
    case Mg_Stream_Value
    then show ?thesis using t one sel by (simp add: mg_case_def mg_stream_def refill) (simp add: trapped_def)
  next
    case Mg_Drain_Value
    then show ?thesis using t one sel by (simp add: mg_case_def mg_drain_def drain_beat_def refill) (simp add: trapped_def)
  qed (simp_all add: mg_case_def fail)
  then show ?thesis using t by (simp add: trapped_run [OF tr sm])
qed


section \<open>The run without source 1\<close>

definition alike :: "mg_sys \<Rightarrow> mg_sys \<Rightarrow> bool" where
  "alike y z \<longleftrightarrow> trapped (ms_mg y) \<and> trapped (ms_mg z) \<and> blind (ms_mg y) = blind (ms_mg z) \<and> ms_feed0 y = ms_feed0 z \<and>
     ms_hdrs y = ms_hdrs z \<and> ms_frames y = ms_frames z \<and> ms_cur y = ms_cur z"

lemma outputs_alike:
  assumes tr: "trapped s" "trapped t" and eq: "blind s = blind t" and sm: "same_inputs i j"
  shows "sink_header i s = sink_header j t" "sink_beat i s = sink_beat j t" "consume False i s f = consume False j t f"
proof -
  have jj: "same_inputs j j" using sm by (simp add: same_inputs_def)
  note a = blind_outputs [OF tr(1) sm, unfolded eq] and b = blind_outputs [OF tr(2) jj]
  have rdy: "g_rec_ready i = g_rec_ready j" "g_axis_ready i = g_axis_ready j" using sm by (simp_all add: same_inputs_def)
  have regs: "mg_sel_key_len s = mg_sel_key_len t" "mg_sel_value_len s = mg_sel_value_len t"
    using arg_cong [OF eq, of mg_sel_key_len] arg_cong [OF eq, of mg_sel_value_len] by simp_all
  show "sink_header i s = sink_header j t" using a(1) b(1) rdy regs by (simp add: sink_header_def)
  have "m_valid i s \<Longrightarrow> m_beat i s = m_beat j t" using a(2,3) b(2,3) by simp
  then show "sink_beat i s = sink_beat j t" using a(2) b(2) rdy by (auto simp: sink_beat_def)
  show "consume False i s f = consume False j t f" using a(4,6) b(4,6) same_port [OF sm] by (simp add: consume_def)
qed

lemma cycle_alike:
  assumes al: "alike y z"
  shows "alike (mg_cycle c y) (mg_cycle c z)" and "ms_feed1 (mg_cycle c y) = ms_feed1 y"
proof -
  let ?i = "in_of c y" and ?j = "in_of c z"
  have tr: "trapped (ms_mg y)" "trapped (ms_mg z)" and eq: "blind (ms_mg y) = blind (ms_mg z)" using al by (simp_all add: alike_def)
  have sm: "same_inputs ?i ?j" using al by (simp add: same_inputs_def in_of_def alike_def)
  then have jj: "same_inputs ?j ?j" by (simp add: same_inputs_def)
  have "blind (mg_step ?i (ms_mg y)) = blind (mg_step ?j (ms_mg z))"
    using step_blind [OF tr(1) sm] step_blind [OF tr(2) jj] eq by simp
  moreover have "trapped (mg_step ?i (ms_mg y))" "trapped (mg_step ?j (ms_mg z))"
    using step_trapped [OF tr(1) sm] step_trapped [OF tr(2) jj] by blast+
  ultimately show "alike (mg_cycle c y) (mg_cycle c z)"
    using al outputs_alike [OF tr eq sm] by (simp add: alike_def mg_cycle_def mg_edge_def)
  show "ms_feed1 (mg_cycle c y) = ms_feed1 y"
    using trapped_no_prefetch [OF tr(1)] by (simp add: mg_cycle_def mg_edge_def)
qed

lemma cycles_alike:
  "alike y z \<Longrightarrow> alike (mg_cycles cs y) (mg_cycles cs z) \<and> ms_feed1 (mg_cycles cs y) = ms_feed1 y"
proof (induction cs arbitrary: y z)
  case (Cons c cs)
  from Cons.IH [OF cycle_alike(1) [OF Cons.prems, of c]] cycle_alike(2) [OF Cons.prems, of c]
  show ?case by (simp add: mg_cycles_def)
qed (simp add: mg_cycles_def)

section \<open>The way into the trap\<close>

definition stalled :: offer where
  "stalled = \<lparr>of_hdr = False, of_data = False, of_done = False\<rparr>"

lemma quiet_defaults:
  assumes "mg_state s \<noteq> Mg_Emit_Payload" and "mg_state s \<noteq> Mg_Stream_Value"
  shows "blind (mg_defaults i s) =
    latch_done False i ((blind s)\<lparr>mg_done := False, mg_prev_state := mg_state s, mg_diff0_r := differs_from_prev False (blind s)\<rparr>)"
proof -
  have p: "cmp_pos (blind s) = cmp_pos s" by (simp add: cmp_pos_def fun_eq_iff)
  have "differs_at (blind s) d q = differs_at s d q" for d q by (simp add: differs_at_def)
  then have d: "differs_from_prev False (blind s) = differs_from_prev False s" by (simp add: differs_from_prev_def p)
  have l: "blind (latch_done True k t) = blind t" and g: "blind (latch_done False i t) = latch_done False i (blind t)" for k t
    by (simp_all add: latch_done_def)
  have "\<not> m_valid i s" using assms by (simp add: m_valid_def)
  then have o: "(if m_valid i s \<and> g_axis_ready i then n else mg_out_bytes s) = mg_out_bytes s" for n by simp
  show ?thesis unfolding mg_defaults_def l g d o
    by (intro arg_cong [where f = "latch_done False i"] merger.equality) (simp_all add: blind_def)
qed

lemma defaults_alike:
  assumes "mg_state s \<noteq> Mg_Emit_Payload" "mg_state s \<noteq> Mg_Stream_Value" and eq: "blind s = blind t" and "port False i = port False j"
  shows "blind (mg_defaults i s) = blind (mg_defaults j t)"
proof -
  have "mg_state s = mg_state t" using arg_cong [OF eq, of mg_state] by simp
  then show ?thesis using assms by (simp add: quiet_defaults latch_done_def)
qed

text \<open>Capturing source 0 while it stalls: only a header of source 1 can be fetched.\<close>

lemma stalled_capture:
  assumes s: "mg_state (ms_mg y) = Mg_Capture False" "mg_busy (ms_mg y)" "\<not> mg_error (ms_mg y)" and c: "ch_offer0 c = stalled"
  shows "ms_mg (mg_cycle c y) = mg_prefetch True (in_of c y) (ms_mg y) (mg_defaults (in_of c y) (ms_mg y))"
    and "ms_feed0 (mg_cycle c y) = ms_feed0 y"
    and "ms_hdrs (mg_cycle c y) = ms_hdrs y" "ms_frames (mg_cycle c y) = ms_frames y" "ms_cur (mg_cycle c y) = ms_cur y"
    and "ms_feed1 (mg_cycle c y) = (if can_prefetch True (ms_mg y) \<and> of_hdr (ch_offer1 c)
      then (ms_feed1 y)\<lparr>fd_hdrs := tl (fd_hdrs (ms_feed1 y))\<rparr> else ms_feed1 y)"
proof -
  let ?i = "in_of c y" and ?s = "ms_mg y"
  have p: "\<not> pt_valid (port False ?i)" "\<not> pt_rec_valid (port False ?i)" "port True ?i = port_of (ch_offer1 c) (ms_feed1 y)"
    "g_rstn ?i" "\<not> g_clear ?i" "\<not> g_start ?i"
    using c by (simp_all add: in_of_def port_def stalled_def)
  have a: "\<not> accept_payload False ?i ?s" "\<not> accept_header False ?i ?s" "\<not> axis_ready True ?i ?s" "\<not> can_prefetch False ?s"
    "accept_header True ?i ?s \<longleftrightarrow> can_prefetch True ?s \<and> of_hdr (ch_offer1 c) \<and> fd_hdrs (ms_feed1 y) \<noteq> []"
    using p s by (auto simp: accept_payload_def accept_header_def axis_ready_def can_prefetch_def rec_ready_def)
  show "ms_mg (mg_cycle c y) = mg_prefetch True ?i ?s (mg_defaults ?i ?s)"
    using s p a by (simp add: mg_cycle_def mg_edge_def mg_step_def mg_clocked_def mg_case_def mg_capture_def)
  have "sink_header ?i ?s = []" "sink_beat ?i ?s = None"
    using s by (simp_all add: sink_header_def sink_beat_def m_rec_valid_def m_valid_def)
  then show "ms_hdrs (mg_cycle c y) = ms_hdrs y" "ms_frames (mg_cycle c y) = ms_frames y" "ms_cur (mg_cycle c y) = ms_cur y"
    by (simp_all add: mg_cycle_def mg_edge_def)
  show "ms_feed0 (mg_cycle c y) = ms_feed0 y" using p a by (simp add: mg_cycle_def mg_edge_def)
  show "ms_feed1 (mg_cycle c y) = (if can_prefetch True ?s \<and> of_hdr (ch_offer1 c)
      then (ms_feed1 y)\<lparr>fd_hdrs := tl (fd_hdrs (ms_feed1 y))\<rparr> else ms_feed1 y)"
    using a by (cases "fd_hdrs (ms_feed1 y) = []") (simp_all add: mg_cycle_def mg_edge_def consume_def)
qed

text \<open>The header of source 0 is taken, the one of source 1 is fetched ahead, source 1 signals its end.\<close>

definition trap_choices :: "choice list" where
  "trap_choices =
     [\<lparr>ch_offer0 = stalled\<lparr>of_hdr := True\<rparr>, ch_offer1 = stalled, ch_rec_ready = True, ch_axis_ready = True\<rparr>,
      \<lparr>ch_offer0 = stalled, ch_offer1 = stalled\<lparr>of_hdr := True\<rparr>, ch_rec_ready = True, ch_axis_ready = True\<rparr>,
      \<lparr>ch_offer0 = stalled, ch_offer1 = stalled\<lparr>of_done := True\<rparr>, ch_rec_ready = True, ch_axis_ready = True\<rparr>]"


text \<open>The first cycle of a pair: the header of source 0.\<close>

lemma first_header:
  assumes f: "delivers f0 (r # rs)" and c: "ch_offer0 c = stalled\<lparr>of_hdr := True\<rparr>" "ch_offer1 c = stalled"
    and y: "y = mg_start_pair s k f0 f1"
  shows "mg_state (ms_mg (mg_cycle c y)) = Mg_Capture False" "mg_busy (ms_mg (mg_cycle c y))" "\<not> mg_error (ms_mg (mg_cycle c y))"
    and "\<not> sd_buf (side True (ms_mg (mg_cycle c y)))" "\<not> sd_done (side True (ms_mg (mg_cycle c y)))" "\<not> sd_pre (side True (ms_mg (mg_cycle c y)))"
    and "ms_feed0 (mg_cycle c y) = f0\<lparr>fd_hdrs := tl (fd_hdrs f0)\<rparr>" "ms_feed1 (mg_cycle c y) = f1"
    and "ms_hdrs (mg_cycle c y) = []" "ms_frames (mg_cycle c y) = []" "ms_cur (mg_cycle c y) = []"
    and "ms_mg (mg_cycle c y) = (put_side False (load_header (port False (in_of c y)) (side False (mg_defaults (in_of c y) (ms_mg y))))
      (mg_defaults (in_of c y) (ms_mg y)))\<lparr>mg_cap_index := 0, mg_state := Mg_Capture False\<rparr>"
proof -
  let ?i = "in_of c y" and ?v = "ms_mg y"
  define t where "t = mg_defaults (start_in k) (mg_cleared s)"
  have v: "?v = mg_begin (start_in k) t"
    by (simp add: y mg_start_pair_def mg_step_def mg_clocked_def start_in_def mg_cleared_def t_def)
  have side: "side b ?v = empty_side (sd_mem (side b t))" for b by (simp add: v mg_begin_def side_def)
  have st: "mg_state ?v = Mg_Wait False" "mg_busy ?v" "\<not> mg_error ?v" by (simp_all add: v mg_begin_def mg_zeroed_def)
  have fd: "ms_feed0 y = f0" "ms_feed1 y = f1" "ms_hdrs y = []" "ms_frames y = []" "ms_cur y = []" by (simp_all add: y mg_start_pair_def)
  have hd: "fd_hdrs f0 = header_of r # map header_of rs" and r: "rec_ok r"
    using f presents_ok [of "fd_beats f0" "r # rs" r] by (auto simp: delivers_def)
  have p: "pt_rec_valid (port False ?i)" "pt_key_len (port False ?i) = fst (header_of r)" "pt_value_len (port False ?i) = snd (header_of r)"
    "\<not> pt_valid (port b ?i)" "\<not> pt_rec_valid (port True ?i)" "\<not> pt_done (port b ?i)" "g_rstn ?i" "\<not> g_clear ?i" "\<not> g_start ?i" for b
    using c hd fd by (simp_all add: in_of_def port_def port_of_def stalled_def)
  have a: "accept_header False ?i ?v" "\<not> accept_header True ?i ?v" "\<not> can_prefetch b ?v" for b
    using p st side [of False] by (simp_all add: accept_header_def rec_ready_def can_prefetch_def empty_side_def)
  have nb: "\<not> bad_header (pt_key_len (port False ?i)) (pt_value_len (port False ?i))" using header_of_ok(3) [OF r] p(2,3) by simp
  have run: "ms_mg (mg_cycle c y) = (put_side False (load_header (port False ?i) (side False (mg_defaults ?i ?v))) (mg_defaults ?i ?v))
      \<lparr>mg_cap_index := 0, mg_state := Mg_Capture False\<rparr>"
    using st p a nb side [of False]
    by (simp add: mg_cycle_def mg_edge_def mg_step_def mg_clocked_def mg_case_def mg_wait_def empty_side_def del: defaults_side)
  then show "ms_mg (mg_cycle c y) = (put_side False (load_header (port False ?i) (side False (mg_defaults ?i ?v))) (mg_defaults ?i ?v))
      \<lparr>mg_cap_index := 0, mg_state := Mg_Capture False\<rparr>" .
  show "mg_state (ms_mg (mg_cycle c y)) = Mg_Capture False" "mg_busy (ms_mg (mg_cycle c y))" "\<not> mg_error (ms_mg (mg_cycle c y))"
    "\<not> sd_buf (side True (ms_mg (mg_cycle c y)))" "\<not> sd_done (side True (ms_mg (mg_cycle c y)))" "\<not> sd_pre (side True (ms_mg (mg_cycle c y)))"
    unfolding run using st p(6) [of True] side [of True] by (simp_all add: empty_side_def)
  have "sink_header ?i ?v = []" "sink_beat ?i ?v = None"
    using st by (simp_all add: sink_header_def sink_beat_def m_rec_valid_def m_valid_def)
  then show "ms_hdrs (mg_cycle c y) = []" "ms_frames (mg_cycle c y) = []" "ms_cur (mg_cycle c y) = []"
    by (simp_all add: mg_cycle_def mg_edge_def fd)
  show "ms_feed0 (mg_cycle c y) = f0\<lparr>fd_hdrs := tl (fd_hdrs f0)\<rparr>" "ms_feed1 (mg_cycle c y) = f1"
    using a p(4) by (simp_all add: mg_cycle_def mg_edge_def fd consume_def)
qed


definition no_feed :: feed where
  "no_feed = \<lparr>fd_hdrs = [], fd_beats = []\<rparr>"

lemma no_feed_delivers: "delivers no_feed []"
  by (simp add: delivers_def no_feed_def presents.nothing)

definition choice1 :: choice where
  "choice1 = \<lparr>ch_offer0 = stalled\<lparr>of_hdr := True\<rparr>, ch_offer1 = stalled, ch_rec_ready = True, ch_axis_ready = True\<rparr>"

definition choice2 :: choice where
  "choice2 = \<lparr>ch_offer0 = stalled, ch_offer1 = stalled\<lparr>of_hdr := True\<rparr>, ch_rec_ready = True, ch_axis_ready = True\<rparr>"

definition choice3 :: choice where
  "choice3 = \<lparr>ch_offer0 = stalled, ch_offer1 = stalled\<lparr>of_done := True\<rparr>, ch_rec_ready = True, ch_axis_ready = True\<rparr>"

lemma trap_entered:
  fixes s :: merger and k :: prev_key
  assumes f0: "delivers f0 (r # rs)" and f1: "delivers f1 [q]"
  defines "y \<equiv> mg_cycle choice3 (mg_cycle choice2 (mg_cycle choice1 (mg_start_pair s k f0 f1)))"
    and "z \<equiv> mg_cycle choice3 (mg_cycle choice2 (mg_cycle choice1 (mg_start_pair s k f0 no_feed)))"
  shows "alike y z" and "fd_beats (ms_feed1 y) = fd_beats f1"
    and "patient_run [choice1, choice2, choice3] (mg_start_pair s k f0 no_feed)"
proof -
  define y0 where "y0 = mg_start_pair s k f0 f1"
  define z0 where "z0 = mg_start_pair s k f0 no_feed"
  define y1 where "y1 = mg_cycle choice1 y0"
  define z1 where "z1 = mg_cycle choice1 z0"
  define y2 where "y2 = mg_cycle choice2 y1"
  define z2 where "z2 = mg_cycle choice2 z1"
  have yz: "y = mg_cycle choice3 y2" "z = mg_cycle choice3 z2"
    by (simp_all add: y_def z_def y2_def z2_def y1_def z1_def y0_def z0_def)
  have c: "ch_offer0 choice1 = stalled\<lparr>of_hdr := True\<rparr>" "ch_offer1 choice1 = stalled"
    "ch_offer0 choice2 = stalled" "ch_offer0 choice3 = stalled" "of_hdr (ch_offer1 choice2)" "\<not> of_hdr (ch_offer1 choice3)"
    "\<not> of_done (ch_offer1 choice2)" "of_done (ch_offer1 choice3)"
    by (simp_all add: choice1_def choice2_def choice3_def stalled_def)
  note a = first_header [OF f0 c(1,2) y0_def, folded y1_def]
  note b = first_header [OF f0 c(1,2) z0_def, folded z1_def]
  have mg0: "ms_mg y0 = ms_mg z0" by (simp add: y0_def z0_def mg_start_pair_def)
  have st0: "mg_state (ms_mg y0) = Mg_Wait False"
    by (simp add: y0_def mg_start_pair_def mg_step_def mg_clocked_def start_in_def mg_cleared_def mg_begin_def)
  have p0: "port False (in_of c y0) = port False (in_of c z0)" for c
    by (simp add: in_of_def port_def y0_def z0_def mg_start_pair_def)
  have d1: "blind (mg_defaults (in_of choice1 y0) (ms_mg y0)) = blind (mg_defaults (in_of choice1 z0) (ms_mg z0))"
    by (rule defaults_alike) (use st0 mg0 p0 in simp_all)
  have s1: "blind (ms_mg y1) = blind (ms_mg z1)"
    unfolding a(12) b(12) using d1 blind_eq_side [OF d1] p0 by simp
  have p1: "port False (in_of c y1) = port False (in_of c z1)" for c
    by (simp add: in_of_def port_def a(7) b(7))
  have d2: "blind (mg_defaults (in_of choice2 y1) (ms_mg y1)) = blind (mg_defaults (in_of choice2 z1) (ms_mg z1))"
    by (rule defaults_alike) (use a(1) s1 p1 in simp_all)
  note a2 = stalled_capture [OF a(1-3) c(3), folded y2_def] and b2 = stalled_capture [OF b(1-3) c(3), folded z2_def]
  have hq: "fd_hdrs f1 = [header_of q]" and rq: "rec_ok q" using f1 presents_ok [of "fd_beats f1" "[q]" q] by (auto simp: delivers_def)
  have pre: "can_prefetch True (ms_mg y1)" "can_prefetch True (ms_mg z1)" using a b by (simp_all add: can_prefetch_def)
  have py: "pt_rec_valid (port True (in_of choice2 y1))" "pt_key_len (port True (in_of choice2 y1)) = fst (header_of q)"
    "pt_value_len (port True (in_of choice2 y1)) = snd (header_of q)" "\<not> pt_done (port True (in_of c y1)) \<or> of_done (ch_offer1 c)" for c
    using c hq by (simp_all add: in_of_def port_def port_of_def a(8))
  have pz: "\<not> pt_rec_valid (port True (in_of c z1))" for c by (simp add: in_of_def port_def b(8) no_feed_def)
  have y2: "ms_mg y2 = put_side True ((load_header (port True (in_of choice2 y1)) (side True (mg_defaults (in_of choice2 y1) (ms_mg y1))))
      \<lparr>sd_pre := True\<rparr>) (mg_defaults (in_of choice2 y1) (ms_mg y1))"
    unfolding a2(1) mg_prefetch_def using pre py header_of_ok(3) [OF rq] by simp
  have z2: "ms_mg z2 = mg_defaults (in_of choice2 z1) (ms_mg z1)" unfolding b2(1) mg_prefetch_def using pz by simp
  have s2: "blind (ms_mg y2) = blind (ms_mg z2)" unfolding y2 z2 using d2 by simp
  have fl: "mg_state (ms_mg y2) = Mg_Capture False" "mg_busy (ms_mg y2)" "\<not> mg_error (ms_mg y2)" "\<not> sd_buf (side True (ms_mg y2))" "sd_pre (side True (ms_mg y2))"
    "mg_state (ms_mg z2) = Mg_Capture False" "mg_busy (ms_mg z2)" "\<not> mg_error (ms_mg z2)" "\<not> sd_buf (side True (ms_mg z2))" "\<not> sd_pre (side True (ms_mg z2))"
    unfolding y2 z2 using a b by (simp_all add: load_header_def)
  note a3 = stalled_capture [OF fl(1-3) c(4), folded yz(1)] and b3 = stalled_capture [OF fl(6-8) c(4), folded yz(2)]
  have f2: "ms_feed1 y2 = f1\<lparr>fd_hdrs := []\<rparr>" "ms_feed1 z2 = no_feed" using a2(6) b2(6) pre c hq by (simp_all add: a(8) b(8) no_feed_def)
  have p2: "port False (in_of c y2) = port False (in_of c z2)" for c
    by (simp add: in_of_def port_def a2(2) b2(2) a(7) b(7))
  have p3: "pt_done (port True (in_of choice3 y2))" "pt_done (port True (in_of choice3 z2))" "\<not> pt_rec_valid (port True (in_of choice3 z2))"
    using c by (simp_all add: in_of_def port_def f2 no_feed_def)
  have d3: "blind (mg_defaults (in_of choice3 y2) (ms_mg y2)) = blind (mg_defaults (in_of choice3 z2) (ms_mg z2))"
    by (rule defaults_alike) (use fl(1) s2 p2 in simp_all)
  have "\<not> can_prefetch True (ms_mg y2)" using fl(5) by (simp add: can_prefetch_def)
  then have y3: "ms_mg y = mg_defaults (in_of choice3 y2) (ms_mg y2)" "ms_feed1 y = ms_feed1 y2"
    unfolding a3(1,6) by simp_all
  have z3: "ms_mg z = mg_defaults (in_of choice3 z2) (ms_mg z2)" unfolding b3(1) mg_prefetch_def using p3 by simp
  have "trapped (ms_mg y)" unfolding y3 using fl p3 by (simp add: trapped_def)
  moreover have "trapped (ms_mg z)" unfolding z3 using fl p3 by (simp add: trapped_def)
  moreover have "blind (ms_mg y) = blind (ms_mg z)" unfolding y3 z3 by (rule d3)
  ultimately show "alike y z" unfolding alike_def
    using a3(2-5) b3(2-5) a2(2-5) b2(2-5) a(7,9-11) b(7,9-11) by simp
  show "fd_beats (ms_feed1 y) = fd_beats f1" by (simp add: y3(2) f2)
  show "patient_run [choice1, choice2, choice3] (mg_start_pair s k f0 no_feed)"
    using b(6) fl(10) c by (simp add: patient_def z0_def [symmetric] z1_def [symmetric] z2_def [symmetric] side_def stalled_def)
qed

text \<open>
  C8. A record of source 1 can be lost silently: if source 1 has one record, its header is fetched ahead while
  the key of source 0 is captured, and the end of source 1 is seen before that key is complete, then the
  merger ends without an error, has handed out what it would have without source 1, and the beats of the record
  of source 1 are still waiting. A record of source 0 that stalls for three cycles is enough.
\<close>

theorem prefetched_record_lost:
  assumes "delivers f0 (r # rs)" and "delivers f1 [q]" and "seed_is k prev"
  shows "\<exists>cs. mg_state (ms_mg (after_start s k f0 f1 cs)) = Mg_Idle \<and> \<not> mg_error (ms_mg (after_start s k f0 f1 cs)) \<and>
    ms_frames (after_start s k f0 f1 cs) = map frame_of (merge_records prev (r # rs) []) \<and>
    fd_beats (ms_feed1 (after_start s k f0 f1 cs)) = fd_beats f1"
proof -
  let ?z0 = "mg_start_pair s k f0 no_feed"
  let ?z = "mg_cycles [choice1, choice2, choice3] ?z0" and ?y = "mg_cycles [choice1, choice2, choice3] (mg_start_pair s k f0 f1)"
  note start = start_inv [OF assms(1) no_feed_delivers assms(3)]
  note enter = trap_entered [OF assms(1,2), of s k]
  have al: "alike ?y ?z" "fd_beats (ms_feed1 ?y) = fd_beats f1" using enter(1,2) by (simp_all add: mg_cycles_def)
  let ?T = "merge_records prev (r # rs) []" and ?L = "last_user_key prev (weave (r # rs) [])"
  define es where "es = eager_run (sys_effort ?z) ?z"
  have inv: "sys_inv ?T ?L ?z" by (rule cycles_inv [OF start enter(3)])
  have idle: "mg_state (ms_mg (mg_cycles es ?z)) = Mg_Idle" unfolding es_def by (rule eager_idle [OF inv]) simp
  have "sys_inv ?T ?L (mg_cycles es ?z)" unfolding es_def by (rule cycles_inv [OF inv eager_patient])
  note fine = sys_inv_idle [OF this idle handed_on_length [OF assms(1) no_feed_delivers assms(3)]]
  have fin: "alike (mg_cycles es ?y) (mg_cycles es ?z)" "ms_feed1 (mg_cycles es ?y) = ms_feed1 ?y"
    using cycles_alike [OF al(1)] by blast+
  then have eq: "blind (ms_mg (mg_cycles es ?y)) = blind (ms_mg (mg_cycles es ?z))"
    "ms_frames (mg_cycles es ?y) = ms_frames (mg_cycles es ?z)" by (simp_all add: alike_def)
  have "mg_state (ms_mg (mg_cycles es ?y)) = Mg_Idle" "\<not> mg_error (ms_mg (mg_cycles es ?y))"
    using arg_cong [OF eq(1), of mg_state] arg_cong [OF eq(1), of mg_error] idle fine(2) by simp_all
  moreover have "after_start s k f0 f1 ([choice1, choice2, choice3] @ es) = mg_cycles es ?y"
    by (simp add: after_start_def mg_cycles_def)
  ultimately show ?thesis using eq(2) fine(4) al(2) fin(2) by (intro exI [of _ "[choice1, choice2, choice3] @ es"]) simp
qed

theorem prefetched_record_lost_witness:
  "\<forall>s. \<exists>cs. ms_frames (after_start s no_prev_key (feed_of demo0) (feed_of [(demo_key 3 4, [])]) cs) = map frame_of demo0 \<and>
     merge_records None demo0 [(demo_key 3 4, [])] \<noteq> demo0"
proof -
  have d: "delivers (feed_of demo0) ((demo_key 1 2, [7]) # [(demo_key 2 2, replicate 10 8)])"
    using demo_delivers(1) by (simp add: demo0_def)
  have q: "delivers (feed_of [(demo_key 3 4, [])]) [(demo_key 3 4, [])]"
    by (rule feed_of_delivers) (simp add: rec_ok_def demo_key_def)
  have "merge_records None ((demo_key 1 2, [7]) # [(demo_key 2 2, replicate 10 8)]) [] = demo0"
    "merge_records None demo0 [(demo_key 3 4, [])] \<noteq> demo0" by code_simp+
  then show ?thesis using prefetched_record_lost [OF d q no_seed] by metis
qed

end
