(* ===== verification/Merger_Types.thy ===== *)
theory Merger_Types
  imports Merger_Invariant
begin

text \<open>
  The registers of the merger are well formed in every state it can reach, whatever is on its inputs: the
  lengths are those of an accepted header, so that no key memory is written out of range, the counters
  agree, and the machine is only in the states its code handles.
\<close>

section \<open>Well-formed registers\<close>

definition lens_typed :: "mg_side \<Rightarrow> bool" where
  "lens_typed d \<longleftrightarrow> sd_key_len d = 0 \<and> sd_value_len d = 0 \<and> sd_ukey_len d = 0 \<and> sd_total d = 0 \<or>
     \<not> bad_header (sd_key_len d) (sd_value_len d) \<and> sd_ukey_len d = sd_key_len d - 8 \<and>
     sd_total d = ucast (sd_key_len d) + ucast (sd_value_len d)"

definition side_typed :: "mg_side \<Rightarrow> bool" where
  "side_typed d \<longleftrightarrow> lens_typed d \<and> length (sd_mem d) = MAX_USER_KEY_BYTES"

definition counts_typed :: "mg_counts \<Rightarrow> bool" where
  "counts_typed c \<longleftrightarrow> mc_decoded c = mc_merged c + mc_dropped c \<and> mc_decoded c = mc_values c + mc_deletes c"

definition state_typed :: "merger \<Rightarrow> bool" where
  "state_typed s \<longleftrightarrow> mg_state s \<notin> {Mg_Fetch, Mg_Check_Keep, Mg_Finalize} \<and> (mg_busy s \<longleftrightarrow> mg_state s \<noteq> Mg_Idle) \<and> \<not> (mg_busy s \<and> mg_error s)"

definition sel_typed :: "merger \<Rightarrow> bool" where
  "sel_typed s \<longleftrightarrow> mg_sel_key_len s \<le> MAX_KEY_BYTES \<and> mg_sel_value_len s \<le> MAX_VALUE_BYTES \<and> mg_sel_ukey_len s \<le> of_nat MAX_USER_KEY_BYTES"

definition merger_typed :: "merger \<Rightarrow> bool" where
  "merger_typed s \<longleftrightarrow> (\<forall>b. side_typed (side b s)) \<and> counts_typed (mg_counts s) \<and> state_typed s \<and> sel_typed s \<and>
     mg_prev_len s \<le> of_nat MAX_USER_KEY_BYTES \<and> length (mg_prev_mem s) = MAX_USER_KEY_BYTES"

named_theorems typed




lemma side_typed_flags [typed]:
  "side_typed (d\<lparr>sd_done := a\<rparr>) = side_typed d" "side_typed (d\<lparr>sd_buf := a\<rparr>) = side_typed d" "side_typed (d\<lparr>sd_pre := a\<rparr>) = side_typed d"
  by (simp_all add: side_typed_def lens_typed_def)

lemma load_typed [typed]:
  "side_typed d \<Longrightarrow> \<not> bad_header (pt_key_len p) (pt_value_len p) \<Longrightarrow> side_typed (load_header p d)"
  by (simp add: side_typed_def lens_typed_def load_header_def)

lemma write_beat_typed [typed]: "side_typed d \<Longrightarrow> side_typed (write_beat ci x d)"
proof -
  have b: "side_typed (write_byte ci x k d) = side_typed d" for k d by (simp add: write_byte_def side_typed_def lens_typed_def)
  show "side_typed d \<Longrightarrow> side_typed (write_beat ci x d)" unfolding write_beat_def fold_keeps [where f = side_typed, OF b] .
qed

lemma copy_length [typed, simp]:
  "length (copy_emitted s m) = length m" "length (copy_chunk s m) = length m"
proof -
  have a: "length (copy_emitted_byte s k m) = length m" and b: "length (copy_byte s k m) = length m" for k m
    by (simp_all add: copy_emitted_byte_def copy_byte_def)
  show "length (copy_emitted s m) = length m" unfolding copy_emitted_def by (rule fold_keeps) (rule a)
  show "length (copy_chunk s m) = length m" unfolding copy_chunk_def by (rule fold_keeps) (rule b)
qed


section \<open>Every step keeps them\<close>




lemma typed_index [typed]:
  "merger_typed (t\<lparr>mg_cap_index := e\<rparr>) = merger_typed t" "merger_typed (t\<lparr>mg_emit_index := e\<rparr>) = merger_typed t"
  "merger_typed (t\<lparr>mg_cmp_index := n\<rparr>) = merger_typed t"
  by (simp_all add: merger_typed_def state_typed_def sel_typed_def)



















end
