(* ===== verification/Desc_Matcher.thy ===== *)
theory Desc_Matcher
  imports Record_Merge
begin

text \<open>
  The descriptor matcher \<^verbatim>\<open>organized/rtl_v2/cmpct_desc_matcher.v\<close>: it pairs the block handles that the parsers of
  the two tables find. All its registers are modelled, \<open>dm_step\<close> is one rising clock edge. The two sides
  are written out in the code; here a side is a record. Then the matcher between two parsers, which push one
  handle at a time and report their end only when every handle has been taken, and the block scheduler.
\<close>

section \<open>Registers and inputs\<close>

type_synonym handle = "u64 \<times> u32"

datatype dm_state = Dm_Idle | Dm_Gather | Dm_Emit | Dm_Done

record dm_side =
  dm_ended :: bool
  dm_got :: bool
  dm_addr :: u64
  dm_size :: u32

record matcher =
  dm_state :: dm_state
  dm_busy :: bool
  dm_done :: bool
  dm_side0 :: dm_side
  dm_side1 :: dm_side
  dm_valid :: bool
  dm_last :: bool
  dm_desc :: "handle \<times> handle"
  dm_pairs :: u32

record dm_port =
  hp_valid :: bool
  hp_handle :: handle
  hp_all_done :: bool

record dm_in =
  di_rstn :: bool
  di_clear :: bool
  di_start :: bool
  di_port0 :: dm_port
  di_port1 :: dm_port
  di_ready :: bool

definition dm_cap :: "dm_side \<Rightarrow> handle" where
  "dm_cap d = (dm_addr d, dm_size d)"

definition handle_ready :: "dm_side \<Rightarrow> matcher \<Rightarrow> bool" where
  "handle_ready d s \<longleftrightarrow> dm_state s = Dm_Gather \<and> \<not> dm_got d \<and> \<not> dm_ended d"

section \<open>One clock edge\<close>

text \<open>Reset and \<^verbatim>\<open>clear\<close> leave the captured handles and the descriptor alone.\<close>

definition dm_cleared :: "matcher \<Rightarrow> matcher" where
  "dm_cleared s = s\<lparr>dm_state := Dm_Idle, dm_busy := False, dm_done := False, dm_valid := False, dm_last := False, dm_pairs := 0,
     dm_side0 := (dm_side0 s)\<lparr>dm_ended := False, dm_got := False\<rparr>, dm_side1 := (dm_side1 s)\<lparr>dm_ended := False, dm_got := False\<rparr>\<rparr>"

definition latch_ended :: "dm_port \<Rightarrow> dm_side \<Rightarrow> dm_side" where
  "latch_ended p d = d\<lparr>dm_ended := (dm_ended d \<or> hp_all_done p)\<rparr>"

definition dm_defaults :: "dm_in \<Rightarrow> matcher \<Rightarrow> matcher" where
  "dm_defaults i s = s\<lparr>dm_side0 := latch_ended (di_port0 i) (dm_side0 s), dm_side1 := latch_ended (di_port1 i) (dm_side1 s), dm_done := False\<rparr>"

definition dm_begin :: "matcher \<Rightarrow> matcher" where
  "dm_begin t = t\<lparr>dm_busy := True, dm_pairs := 0, dm_state := Dm_Gather,
     dm_side0 := (dm_side0 t)\<lparr>dm_ended := False, dm_got := False\<rparr>, dm_side1 := (dm_side1 t)\<lparr>dm_ended := False, dm_got := False\<rparr>\<rparr>"

text \<open>A side: \<open>d\<close> before the edge, \<open>e\<close> with the end latched. A valid handle is captured even if \<open>handle_ready\<close> is low.\<close>

definition capture_handle :: "dm_port \<Rightarrow> dm_side \<Rightarrow> dm_side \<Rightarrow> dm_side" where
  "capture_handle p d e =
     (if dm_got d then e
      else if hp_valid p then e\<lparr>dm_addr := fst (hp_handle p), dm_size := snd (hp_handle p), dm_got := True\<rparr>
      else if dm_ended d then e\<lparr>dm_addr := 0, dm_size := 0, dm_got := True\<rparr>
      else e)"

definition side_there :: "dm_port \<Rightarrow> dm_side \<Rightarrow> bool" where
  "side_there p d \<longleftrightarrow> dm_got d \<or> hp_valid p \<or> dm_ended d"

definition nothing_left :: "dm_in \<Rightarrow> matcher \<Rightarrow> bool" where
  "nothing_left i s \<longleftrightarrow> (dm_got (dm_side0 s) \<or> \<not> hp_valid (di_port0 i)) \<and> dm_ended (dm_side0 s) \<and>
     (dm_got (dm_side1 s) \<or> \<not> hp_valid (di_port1 i)) \<and> dm_ended (dm_side1 s) \<and> \<not> dm_got (dm_side0 s) \<and> \<not> dm_got (dm_side1 s)"

definition both_empty :: "matcher \<Rightarrow> bool" where
  "both_empty s \<longleftrightarrow> dm_ended (dm_side0 s) \<and> dm_size (dm_side0 s) = 0 \<and> dm_ended (dm_side1 s) \<and> dm_size (dm_side1 s) = 0"

definition gather_early :: "dm_in \<Rightarrow> matcher \<Rightarrow> matcher \<Rightarrow> matcher" where
  "gather_early i s u =
     (if side_there (di_port0 i) (dm_side0 s) \<and> side_there (di_port1 i) (dm_side1 s) \<and> nothing_left i s
      then u\<lparr>dm_state := Dm_Done\<rparr> else u)"

definition gather_late :: "matcher \<Rightarrow> matcher \<Rightarrow> matcher" where
  "gather_late s u =
     (if dm_got (dm_side0 s) \<and> dm_got (dm_side1 s) then u\<lparr>dm_state := (if both_empty s then Dm_Done else Dm_Emit)\<rparr> else u)"

definition dm_gather :: "dm_in \<Rightarrow> matcher \<Rightarrow> matcher \<Rightarrow> matcher" where
  "dm_gather i s t = gather_late s (gather_early i s
     (t\<lparr>dm_side0 := capture_handle (di_port0 i) (dm_side0 s) (dm_side0 t),
        dm_side1 := capture_handle (di_port1 i) (dm_side1 s) (dm_side1 t)\<rparr>))"

text \<open>The descriptor becomes valid when it is known whether it is the last one.\<close>

definition offer_desc :: "dm_in \<Rightarrow> matcher \<Rightarrow> matcher \<Rightarrow> matcher" where
  "offer_desc i s u =
     (if dm_valid s then u
      else if hp_valid (di_port0 i) \<or> hp_valid (di_port1 i) then u\<lparr>dm_last := False, dm_valid := True\<rparr>
      else if (dm_ended (dm_side0 s) \<or> hp_all_done (di_port0 i)) \<and> (dm_ended (dm_side1 s) \<or> hp_all_done (di_port1 i))
      then u\<lparr>dm_last := True, dm_valid := True\<rparr>
      else u)"

definition take_desc :: "dm_in \<Rightarrow> matcher \<Rightarrow> matcher \<Rightarrow> matcher" where
  "take_desc i s u =
     (if dm_valid s \<and> di_ready i
      then u\<lparr>dm_valid := False, dm_pairs := dm_pairs s + 1,
             dm_side0 := (dm_side0 u)\<lparr>dm_got := False\<rparr>, dm_side1 := (dm_side1 u)\<lparr>dm_got := False\<rparr>,
             dm_state := (if dm_last s then Dm_Done else Dm_Gather)\<rparr>
      else u)"

definition dm_emit :: "dm_in \<Rightarrow> matcher \<Rightarrow> matcher \<Rightarrow> matcher" where
  "dm_emit i s t = take_desc i s (offer_desc i s (t\<lparr>dm_desc := (dm_cap (dm_side0 s), dm_cap (dm_side1 s))\<rparr>))"

definition dm_step :: "dm_in \<Rightarrow> matcher \<Rightarrow> matcher" where
  "dm_step i s =
     (if \<not> di_rstn i \<or> di_clear i then dm_cleared s
      else (case dm_state s of
          Dm_Idle \<Rightarrow> if di_start i \<and> \<not> dm_busy s then dm_begin (dm_defaults i s) else dm_defaults i s
        | Dm_Gather \<Rightarrow> dm_gather i s (dm_defaults i s)
        | Dm_Emit \<Rightarrow> dm_emit i s (dm_defaults i s)
        | Dm_Done \<Rightarrow> (dm_defaults i s)\<lparr>dm_valid := False, dm_busy := False, dm_done := True, dm_state := Dm_Idle\<rparr>))"

section \<open>Between the parsers and the scheduler\<close>

text \<open>What the neighbours do in a cycle: show the next handle, report the end, take a descriptor.\<close>

record dm_choice =
  dc_show0 :: bool
  dc_end0 :: bool
  dc_show1 :: bool
  dc_end1 :: bool
  dc_ready :: bool

record dm_sys =
  dy_m :: matcher
  dy_queue0 :: "handle list"
  dy_queue1 :: "handle list"
  dy_out :: "((handle \<times> handle) \<times> bool) list"

definition parser_port :: "bool \<Rightarrow> bool \<Rightarrow> handle list \<Rightarrow> dm_port" where
  "parser_port sh en q = \<lparr>hp_valid = (sh \<and> q \<noteq> []), hp_handle = (case q of [] \<Rightarrow> (0, 0) | h # _ \<Rightarrow> h), hp_all_done = (en \<and> q = [])\<rparr>"

definition dm_in_of :: "dm_choice \<Rightarrow> dm_sys \<Rightarrow> dm_in" where
  "dm_in_of c y = \<lparr>di_rstn = True, di_clear = False, di_start = False,
     di_port0 = parser_port (dc_show0 c) (dc_end0 c) (dy_queue0 y),
     di_port1 = parser_port (dc_show1 c) (dc_end1 c) (dy_queue1 y), di_ready = dc_ready c\<rparr>"

definition pop_handle :: "dm_port \<Rightarrow> dm_side \<Rightarrow> matcher \<Rightarrow> handle list \<Rightarrow> handle list" where
  "pop_handle p d s q = (if hp_valid p \<and> handle_ready d s then tl q else q)"

definition dm_edge :: "dm_in \<Rightarrow> dm_sys \<Rightarrow> dm_sys" where
  "dm_edge i y =
     \<lparr>dy_m = dm_step i (dy_m y),
      dy_queue0 = pop_handle (di_port0 i) (dm_side0 (dy_m y)) (dy_m y) (dy_queue0 y),
      dy_queue1 = pop_handle (di_port1 i) (dm_side1 (dy_m y)) (dy_m y) (dy_queue1 y),
      dy_out = dy_out y @ (if dm_valid (dy_m y) \<and> di_ready i then [(dm_desc (dy_m y), dm_last (dy_m y))] else [])\<rparr>"

definition dm_cycle :: "dm_choice \<Rightarrow> dm_sys \<Rightarrow> dm_sys" where
  "dm_cycle c y = dm_edge (dm_in_of c y) y"

definition dm_cycles :: "dm_choice list \<Rightarrow> dm_sys \<Rightarrow> dm_sys" where
  "dm_cycles cs y = fold dm_cycle cs y"

text \<open>A run begins with \<^verbatim>\<open>clear\<close> and \<^verbatim>\<open>start\<close>.\<close>

definition dm_start_in :: dm_in where
  "dm_start_in = \<lparr>di_rstn = True, di_clear = False, di_start = True, di_port0 = parser_port False False [],
     di_port1 = parser_port False False [], di_ready = False\<rparr>"

definition dm_started :: "matcher \<Rightarrow> handle list \<Rightarrow> handle list \<Rightarrow> dm_sys" where
  "dm_started s q0 q1 = \<lparr>dy_m = dm_step dm_start_in (dm_cleared s), dy_queue0 = q0, dy_queue1 = q1, dy_out = []\<rparr>"

section \<open>The invariant\<close>

definition restore :: "dm_side \<Rightarrow> handle list \<Rightarrow> handle list" where
  "restore d q = (if dm_got d \<and> dm_size d \<noteq> 0 then dm_cap d # q else q)"

definition side_ok :: "dm_side \<Rightarrow> handle list \<Rightarrow> bool" where
  "side_ok d q \<longleftrightarrow> (dm_ended d \<longrightarrow> q = []) \<and> (dm_got d \<longrightarrow> dm_size d = 0 \<longrightarrow> dm_addr d = 0 \<and> dm_ended d) \<and> (\<forall>h\<in>set q. snd h \<noteq> 0)"

definition rest_of :: "dm_sys \<Rightarrow> (handle \<times> handle) list" where
  "rest_of y = pair_up (restore (dm_side0 (dy_m y)) (dy_queue0 y)) (restore (dm_side1 (dy_m y)) (dy_queue1 y)) (0, 0)"

text \<open>Only the last descriptor carries \<^verbatim>\<open>m_desc_last\<close>.\<close>

definition flagged :: "'a list \<Rightarrow> ('a \<times> bool) list" where
  "flagged ps = map (\<lambda>n. (ps ! n, Suc n = length ps)) [0..<length ps]"

definition dm_inv :: "(handle \<times> handle) list \<Rightarrow> dm_sys \<Rightarrow> bool" where
  "dm_inv P y \<longleftrightarrow> side_ok (dm_side0 (dy_m y)) (dy_queue0 y) \<and> side_ok (dm_side1 (dy_m y)) (dy_queue1 y) \<and>
     (case dm_state (dy_m y) of
        Dm_Gather \<Rightarrow> dm_busy (dy_m y) \<and> \<not> dm_valid (dy_m y) \<and> map fst (dy_out y) @ rest_of y = P \<and> (\<forall>e\<in>set (dy_out y). \<not> snd e) \<and>
          (dy_out y = [] \<or> rest_of y \<noteq> [])
      | Dm_Emit \<Rightarrow> dm_busy (dy_m y) \<and> map fst (dy_out y) @ rest_of y = P \<and> (\<forall>e\<in>set (dy_out y). \<not> snd e) \<and>
          dm_got (dm_side0 (dy_m y)) \<and> dm_got (dm_side1 (dy_m y)) \<and> (dm_size (dm_side0 (dy_m y)) \<noteq> 0 \<or> dm_size (dm_side1 (dy_m y)) \<noteq> 0) \<and>
          (dm_valid (dy_m y) \<longrightarrow> dm_desc (dy_m y) = (dm_cap (dm_side0 (dy_m y)), dm_cap (dm_side1 (dy_m y))) \<and>
             (dm_last (dy_m y) \<longleftrightarrow> dy_queue0 y = [] \<and> dy_queue1 y = []))
      | _ \<Rightarrow> \<not> dm_valid (dy_m y) \<and> dy_out y = flagged P)"

lemma pair_up_Nil_iff [simp]: "pair_up xs ys z = [] \<longleftrightarrow> xs = [] \<and> ys = []"
  by (cases xs; cases ys) simp_all

lemma rest_emit:
  assumes "side_ok d0 q0" "side_ok d1 q1" "dm_got d0" "dm_got d1" "dm_size d0 \<noteq> 0 \<or> dm_size d1 \<noteq> 0"
  shows "pair_up (restore d0 q0) (restore d1 q1) (0, 0) = (dm_cap d0, dm_cap d1) # pair_up q0 q1 (0, 0)"
  using assms by (auto simp: restore_def side_ok_def dm_cap_def)

lemma flagged_snoc: "\<forall>e\<in>set out. \<not> snd e \<Longrightarrow> out @ [(p, True)] = flagged (map fst out @ [p])"
  unfolding flagged_def by (rule nth_equalityI) (auto simp: nth_append prod_eq_iff)


lemma gather_side:
  assumes "side_ok d q" and "dm_state s = Dm_Gather"
  shows "side_ok (capture_handle (parser_port sh en q) d (latch_ended (parser_port sh en q) d)) (pop_handle (parser_port sh en q) d s q)"
    and "restore (capture_handle (parser_port sh en q) d (latch_ended (parser_port sh en q) d)) (pop_handle (parser_port sh en q) d s q) = restore d q"
  using assms
  by (cases q; auto simp: side_ok_def capture_handle_def latch_ended_def pop_handle_def parser_port_def handle_ready_def restore_def dm_cap_def)+

lemma capture_got [simp]: "dm_got d \<Longrightarrow> capture_handle p d e = e"
  by (simp add: capture_handle_def)

lemma latch_side:
  "side_ok d q \<Longrightarrow> side_ok (latch_ended (parser_port sh en q) d) q"
  "dm_got (latch_ended p d) = dm_got d" "dm_size (latch_ended p d) = dm_size d" "dm_cap (latch_ended p d) = dm_cap d"
  "restore (latch_ended p d) q = restore d q"
  by (auto simp: side_ok_def latch_ended_def parser_port_def restore_def dm_cap_def)

lemma dm_step_running:
  "dm_step (dm_in_of c y) s = (case dm_state s of
      Dm_Idle \<Rightarrow> dm_defaults (dm_in_of c y) s
    | Dm_Gather \<Rightarrow> dm_gather (dm_in_of c y) s (dm_defaults (dm_in_of c y) s)
    | Dm_Emit \<Rightarrow> dm_emit (dm_in_of c y) s (dm_defaults (dm_in_of c y) s)
    | Dm_Done \<Rightarrow> (dm_defaults (dm_in_of c y) s)\<lparr>dm_valid := False, dm_busy := False, dm_done := True, dm_state := Dm_Idle\<rparr>)"
  by (simp add: dm_step_def dm_in_of_def split: dm_state.split)

lemma gather_inv:
  assumes inv: "dm_inv P y" and st: "dm_state (dy_m y) = Dm_Gather"
  shows "dm_inv P (dm_cycle c y)"
proof -
  let ?i = "dm_in_of c y" and ?s = "dy_m y" and ?z = "dm_cycle c y"
  let ?d0 = "dm_side0 ?s" and ?d1 = "dm_side1 ?s"
  have ok: "side_ok ?d0 (dy_queue0 y)" "side_ok ?d1 (dy_queue1 y)" and g: "dm_busy ?s" "\<not> dm_valid ?s"
    "map fst (dy_out y) @ rest_of y = P" "\<forall>e\<in>set (dy_out y). \<not> snd e" "dy_out y = [] \<or> rest_of y \<noteq> []"
    using inv st by (simp_all add: dm_inv_def)
  have run: "dy_m ?z = dm_gather ?i ?s (dm_defaults ?i ?s)" using st by (simp add: dm_cycle_def dm_edge_def dm_step_running)
  have sides: "dm_side0 (dy_m ?z) = capture_handle (di_port0 ?i) ?d0 (latch_ended (di_port0 ?i) ?d0)"
    "dm_side1 (dy_m ?z) = capture_handle (di_port1 ?i) ?d1 (latch_ended (di_port1 ?i) ?d1)"
    and reg: "dm_busy (dy_m ?z)" "\<not> dm_valid (dy_m ?z)"
    unfolding run using g by (simp_all add: dm_gather_def gather_late_def gather_early_def dm_defaults_def)
  have qs: "dy_queue0 ?z = pop_handle (di_port0 ?i) ?d0 ?s (dy_queue0 y)" "dy_queue1 ?z = pop_handle (di_port1 ?i) ?d1 ?s (dy_queue1 y)"
    "dy_out ?z = dy_out y" using g by (simp_all add: dm_cycle_def dm_edge_def)
  have p: "di_port0 ?i = parser_port (dc_show0 c) (dc_end0 c) (dy_queue0 y)" "di_port1 ?i = parser_port (dc_show1 c) (dc_end1 c) (dy_queue1 y)"
    by (simp_all add: dm_in_of_def)
  have ok': "side_ok (dm_side0 (dy_m ?z)) (dy_queue0 ?z)" "side_ok (dm_side1 (dy_m ?z)) (dy_queue1 ?z)"
    unfolding sides qs p using ok st by (simp_all add: gather_side(1))
  have rest: "rest_of ?z = rest_of y" unfolding rest_of_def sides qs p using ok st by (simp add: gather_side(2))
  have state: "dm_state (dy_m ?z) = (if dm_got ?d0 \<and> dm_got ?d1 then (if both_empty ?s then Dm_Done else Dm_Emit)
      else if side_there (di_port0 ?i) ?d0 \<and> side_there (di_port1 ?i) ?d1 \<and> nothing_left ?i ?s then Dm_Done else Dm_Gather)"
    unfolding run using st by (simp add: dm_gather_def gather_late_def gather_early_def dm_defaults_def)
  have empty: "dy_out y = flagged P" if "rest_of y = []" using g(3,5) that by (simp add: flagged_def)
  consider (emit) "dm_got ?d0" "dm_got ?d1" "\<not> both_empty ?s" | (none) "dm_got ?d0" "dm_got ?d1" "both_empty ?s"
    | (over) "\<not> (dm_got ?d0 \<and> dm_got ?d1)" "nothing_left ?i ?s" | (stay) "dm_state (dy_m ?z) = Dm_Gather"
    using state by (auto split: if_splits)
  then show ?thesis
  proof cases
    case emit
    have "dm_size ?d0 \<noteq> 0 \<or> dm_size ?d1 \<noteq> 0" using emit ok by (auto simp: both_empty_def side_ok_def)
    then show ?thesis using emit ok' g reg rest state
      by (simp add: dm_inv_def qs(3) sides latch_side)
  next
    case none
    then have "rest_of y = []" using ok by (simp add: rest_of_def both_empty_def side_ok_def restore_def)
    then show ?thesis using none ok' reg state empty by (simp add: dm_inv_def qs(3))
  next
    case over
    then have "rest_of y = []" using ok by (simp add: rest_of_def nothing_left_def side_ok_def restore_def)
    then show ?thesis using over ok' g reg rest empty by (auto simp: dm_inv_def qs(3) state)
  next
    case stay
    then show ?thesis using ok' g reg rest by (simp add: dm_inv_def qs(3))
  qed
qed

lemma emit_inv:
  assumes inv: "dm_inv P y" and st: "dm_state (dy_m y) = Dm_Emit"
  shows "dm_inv P (dm_cycle c y)"
proof -
  let ?i = "dm_in_of c y" and ?s = "dy_m y" and ?z = "dm_cycle c y"
  let ?d0 = "dm_side0 ?s" and ?d1 = "dm_side1 ?s"
  have ok: "side_ok ?d0 (dy_queue0 y)" "side_ok ?d1 (dy_queue1 y)" and g: "dm_busy ?s"
    "map fst (dy_out y) @ rest_of y = P" "\<forall>e\<in>set (dy_out y). \<not> snd e" "dm_got ?d0" "dm_got ?d1" "dm_size ?d0 \<noteq> 0 \<or> dm_size ?d1 \<noteq> 0"
    "dm_valid ?s \<Longrightarrow> dm_desc ?s = (dm_cap ?d0, dm_cap ?d1) \<and> (dm_last ?s \<longleftrightarrow> dy_queue0 y = [] \<and> dy_queue1 y = [])"
    using inv st by (simp_all add: dm_inv_def)
  have p: "di_port0 ?i = parser_port (dc_show0 c) (dc_end0 c) (dy_queue0 y)" "di_port1 ?i = parser_port (dc_show1 c) (dc_end1 c) (dy_queue1 y)"
    by (simp_all add: dm_in_of_def)
  have run: "dy_m ?z = dm_emit ?i ?s (dm_defaults ?i ?s)" using st by (simp add: dm_cycle_def dm_edge_def dm_step_running)
  have qs: "dy_queue0 ?z = dy_queue0 y" "dy_queue1 ?z = dy_queue1 y"
    "dy_out ?z = dy_out y @ (if dm_valid ?s \<and> di_ready ?i then [(dm_desc ?s, dm_last ?s)] else [])"
    using st by (simp_all add: dm_cycle_def dm_edge_def pop_handle_def handle_ready_def)
  have rest: "rest_of y = (dm_cap ?d0, dm_cap ?d1) # pair_up (dy_queue0 y) (dy_queue1 y) (0, 0)"
    unfolding rest_of_def by (rule rest_emit [OF ok g(4-6)])
  have l: "side_ok (latch_ended (di_port0 ?i) ?d0) (dy_queue0 y)" "side_ok (latch_ended (di_port1 ?i) ?d1) (dy_queue1 y)"
    unfolding p using ok by (simp_all add: latch_side)
  show ?thesis
  proof (cases "dm_valid ?s \<and> di_ready ?i")
    case True
    have free: "side_ok (d\<lparr>dm_got := False\<rparr>) q" "restore (d\<lparr>dm_got := False\<rparr>) q = q" if "side_ok d q" for d q
      using that by (auto simp: side_ok_def restore_def)
    have z: "dm_side0 (dy_m ?z) = (latch_ended (di_port0 ?i) ?d0)\<lparr>dm_got := False\<rparr>"
      "dm_side1 (dy_m ?z) = (latch_ended (di_port1 ?i) ?d1)\<lparr>dm_got := False\<rparr>"
      "dm_state (dy_m ?z) = (if dm_last ?s then Dm_Done else Dm_Gather)" "\<not> dm_valid (dy_m ?z)" "dm_busy (dy_m ?z)"
      unfolding run using True st g(1) by (simp_all add: dm_emit_def offer_desc_def take_desc_def dm_defaults_def)
    have r: "rest_of ?z = pair_up (dy_queue0 y) (dy_queue1 y) (0, 0)" unfolding rest_of_def z qs using l by (simp add: free)
    have out: "dy_out ?z = dy_out y @ [((dm_cap ?d0, dm_cap ?d1), dm_last ?s)]" using True g(7) by (simp add: qs)
    show ?thesis
    proof (cases "dm_last ?s")
      case True
      then have "pair_up (dy_queue0 y) (dy_queue1 y) (0, 0) = []" using g(7) \<open>dm_valid ?s \<and> di_ready ?i\<close> by simp
      then have "dy_out ?z = flagged P" using g(2) flagged_snoc [OF g(3)] True out rest by simp
      then show ?thesis using z l True by (simp add: dm_inv_def qs free)
    next
      case False
      then have "dy_queue0 y \<noteq> [] \<or> dy_queue1 y \<noteq> []" using g(7) True by blast
      then show ?thesis using z l False g(2,3) r rest out by (auto simp: dm_inv_def qs(1,2) free)
    qed
  next
    case False
    have z: "dm_side0 (dy_m ?z) = latch_ended (di_port0 ?i) ?d0" "dm_side1 (dy_m ?z) = latch_ended (di_port1 ?i) ?d1"
      "dm_state (dy_m ?z) = Dm_Emit" "dm_busy (dy_m ?z)" "dm_desc (dy_m ?z) = (dm_cap ?d0, dm_cap ?d1)"
      unfolding run using False st g(1) by (auto simp: dm_emit_def offer_desc_def take_desc_def dm_defaults_def)
    have v: "dm_valid (dy_m ?z) \<longrightarrow> (dm_last (dy_m ?z) \<longleftrightarrow> dy_queue0 y = [] \<and> dy_queue1 y = [])"
      unfolding run using False st g(7) ok
      by (auto simp: dm_emit_def offer_desc_def take_desc_def dm_defaults_def p parser_port_def side_ok_def)
    have r: "rest_of ?z = rest_of y" unfolding rest_of_def z qs by (simp add: latch_side)
    have out: "dy_out ?z = dy_out y" using False by (simp add: qs(3))
    show ?thesis using z v l g(2-6) r out by (simp add: dm_inv_def qs(1,2) latch_side)
  qed
qed

lemma quiet_inv:
  assumes inv: "dm_inv P y" and st: "dm_state (dy_m y) \<in> {Dm_Idle, Dm_Done}"
  shows "dm_inv P (dm_cycle c y)" and "dm_state (dy_m (dm_cycle c y)) = Dm_Idle"
proof -
  let ?i = "dm_in_of c y" and ?s = "dy_m y" and ?z = "dm_cycle c y"
  have ok: "side_ok (dm_side0 ?s) (dy_queue0 y)" "side_ok (dm_side1 ?s) (dy_queue1 y)" and g: "\<not> dm_valid ?s" "dy_out y = flagged P"
    using inv st by (auto simp: dm_inv_def)
  have m: "dy_m ?z = dm_step ?i ?s" by (simp add: dm_cycle_def dm_edge_def)
  have z: "dm_side0 (dy_m ?z) = latch_ended (di_port0 ?i) (dm_side0 ?s)" "dm_side1 (dy_m ?z) = latch_ended (di_port1 ?i) (dm_side1 ?s)"
    "dm_state (dy_m ?z) = Dm_Idle" "\<not> dm_valid (dy_m ?z)"
    unfolding m dm_step_running using st g(1) by (auto simp: dm_defaults_def)
  have qs: "dy_queue0 ?z = dy_queue0 y" "dy_queue1 ?z = dy_queue1 y" "dy_out ?z = dy_out y"
    using st g(1) by (auto simp: dm_cycle_def dm_edge_def pop_handle_def handle_ready_def)
  have p: "di_port0 ?i = parser_port (dc_show0 c) (dc_end0 c) (dy_queue0 y)" "di_port1 ?i = parser_port (dc_show1 c) (dc_end1 c) (dy_queue1 y)"
    by (simp_all add: dm_in_of_def)
  show "dm_inv P ?z" using ok g z(3,4) by (simp add: dm_inv_def qs z(1,2) p latch_side)
  show "dm_state (dy_m ?z) = Dm_Idle" by (rule z(3))
qed

lemma dm_cycle_inv: "dm_inv P y \<Longrightarrow> dm_inv P (dm_cycle c y)"
  by (cases "dm_state (dy_m y)") (simp_all add: gather_inv emit_inv quiet_inv)

lemma dm_cycles_inv: "dm_inv P y \<Longrightarrow> dm_inv P (dm_cycles cs y)"
  by (induction cs arbitrary: y) (simp_all add: dm_cycles_def dm_cycle_inv)

definition real_handles :: "handle list \<Rightarrow> bool" where
  "real_handles q \<longleftrightarrow> (\<forall>h\<in>set q. snd h \<noteq> 0)"

lemma dm_started_inv:
  assumes "real_handles q0" and "real_handles q1"
  shows "dm_inv (pair_up q0 q1 (0, 0)) (dm_started s q0 q1)"
  using assms
  by (simp add: dm_inv_def dm_started_def dm_step_def dm_start_in_def dm_cleared_def dm_begin_def dm_defaults_def side_ok_def rest_of_def
      restore_def real_handles_def)


section \<open>The matcher ends\<close>

text \<open>Neighbours that do not stall.\<close>

definition prompt :: dm_choice where
  "prompt = \<lparr>dc_show0 = True, dc_end0 = True, dc_show1 = True, dc_end1 = True, dc_ready = True\<rparr>"

definition side_rank :: "dm_side \<Rightarrow> nat" where
  "side_rank d = (if dm_got d then 0 else if dm_ended d then 1 else 2)"

definition dm_rank :: "matcher \<Rightarrow> nat" where
  "dm_rank s = (case dm_state s of Dm_Gather \<Rightarrow> 4 + side_rank (dm_side0 s) + side_rank (dm_side1 s)
     | Dm_Emit \<Rightarrow> if dm_valid s then 2 else 3 | Dm_Done \<Rightarrow> 1 | Dm_Idle \<Rightarrow> 0)"

definition dm_effort :: "dm_sys \<Rightarrow> nat" where
  "dm_effort y = 10 * length (restore (dm_side0 (dy_m y)) (dy_queue0 y)) + 10 * length (restore (dm_side1 (dy_m y)) (dy_queue1 y)) + dm_rank (dy_m y)"

lemma gather_rank:
  assumes "side_ok d q" "dm_state s = Dm_Gather"
  shows "side_rank (capture_handle (parser_port True True q) d (latch_ended (parser_port True True q) d)) + (if dm_got d then 0 else 1) \<le> side_rank d"
  using assms by (cases q) (auto simp: side_rank_def capture_handle_def latch_ended_def parser_port_def side_ok_def)

lemma prompt_effort:
  assumes inv: "dm_inv P y" and busy: "dm_state (dy_m y) \<noteq> Dm_Idle"
  shows "dm_effort (dm_cycle prompt y) < dm_effort y"
proof -
  let ?i = "dm_in_of prompt y" and ?s = "dy_m y" and ?z = "dm_cycle prompt y"
  let ?d0 = "dm_side0 ?s" and ?d1 = "dm_side1 ?s"
  have ok: "side_ok ?d0 (dy_queue0 y)" "side_ok ?d1 (dy_queue1 y)" using inv by (simp_all add: dm_inv_def)
  have p: "di_port0 ?i = parser_port True True (dy_queue0 y)" "di_port1 ?i = parser_port True True (dy_queue1 y)" "di_ready ?i"
    by (simp_all add: dm_in_of_def prompt_def)
  have m: "dy_m ?z = dm_step ?i ?s" by (simp add: dm_cycle_def dm_edge_def)
  have q: "dy_queue0 ?z = pop_handle (di_port0 ?i) ?d0 ?s (dy_queue0 y)" "dy_queue1 ?z = pop_handle (di_port1 ?i) ?d1 ?s (dy_queue1 y)"
    by (simp_all add: dm_cycle_def dm_edge_def)
  show ?thesis
  proof (cases "dm_state ?s")
    case Dm_Gather
    have sides: "dm_side0 (dy_m ?z) = capture_handle (di_port0 ?i) ?d0 (latch_ended (di_port0 ?i) ?d0)"
      "dm_side1 (dy_m ?z) = capture_handle (di_port1 ?i) ?d1 (latch_ended (di_port1 ?i) ?d1)"
      unfolding m dm_step_running using Dm_Gather by (simp_all add: dm_gather_def gather_late_def gather_early_def dm_defaults_def)
    have len: "restore (dm_side0 (dy_m ?z)) (dy_queue0 ?z) = restore ?d0 (dy_queue0 y)"
      "restore (dm_side1 (dy_m ?z)) (dy_queue1 ?z) = restore ?d1 (dy_queue1 y)"
      unfolding sides q p using ok Dm_Gather by (simp_all add: gather_side(2))
    have r: "side_rank (dm_side0 (dy_m ?z)) + (if dm_got ?d0 then 0 else 1) \<le> side_rank ?d0"
      "side_rank (dm_side1 (dy_m ?z)) + (if dm_got ?d1 then 0 else 1) \<le> side_rank ?d1"
      unfolding sides p using ok Dm_Gather by (simp_all only: gather_rank)
    have "dm_rank (dy_m ?z) < dm_rank ?s"
    proof (cases "dm_got ?d0 \<and> dm_got ?d1")
      case True
      then have "dm_state (dy_m ?z) \<in> {Dm_Done, Dm_Emit}" unfolding m dm_step_running
        using Dm_Gather by (simp add: dm_gather_def gather_late_def)
      then show ?thesis using Dm_Gather by (auto simp: dm_rank_def)
    next
      case False
      then have "dm_state (dy_m ?z) \<in> {Dm_Done, Dm_Gather}" unfolding m dm_step_running
        using Dm_Gather by (auto simp: dm_gather_def gather_late_def gather_early_def dm_defaults_def)
      then show ?thesis using Dm_Gather r False by (auto simp: dm_rank_def split: if_splits)
    qed
    then show ?thesis by (simp add: dm_effort_def len)
  next
    case Dm_Emit
    have g: "dm_got ?d0" "dm_got ?d1" "dm_size ?d0 \<noteq> 0 \<or> dm_size ?d1 \<noteq> 0" using inv Dm_Emit by (simp_all add: dm_inv_def)
    have qs: "dy_queue0 ?z = dy_queue0 y" "dy_queue1 ?z = dy_queue1 y" using Dm_Emit by (simp_all add: q pop_handle_def handle_ready_def)
    show ?thesis
    proof (cases "dm_valid ?s")
      case True
      then have z: "dm_side0 (dy_m ?z) = (latch_ended (di_port0 ?i) ?d0)\<lparr>dm_got := False\<rparr>"
        "dm_side1 (dy_m ?z) = (latch_ended (di_port1 ?i) ?d1)\<lparr>dm_got := False\<rparr>" "dm_state (dy_m ?z) \<noteq> Dm_Emit"
        unfolding m dm_step_running using Dm_Emit p(3) by (simp_all add: dm_emit_def offer_desc_def take_desc_def dm_defaults_def)
      have "dm_rank (dy_m ?z) \<le> 8" using z(3) by (simp add: dm_rank_def side_rank_def split: dm_state.splits)
      moreover have "length (restore (dm_side0 (dy_m ?z)) (dy_queue0 ?z)) + length (restore (dm_side1 (dy_m ?z)) (dy_queue1 ?z)) <
          length (restore ?d0 (dy_queue0 y)) + length (restore ?d1 (dy_queue1 y))"
        using g by (auto simp: z qs restore_def)
      ultimately show ?thesis unfolding dm_effort_def by linarith
    next
      case False
      have "hp_valid (di_port0 ?i) \<or> hp_valid (di_port1 ?i) \<or> hp_all_done (di_port0 ?i) \<and> hp_all_done (di_port1 ?i)"
        by (auto simp: p parser_port_def)
      then have z: "dm_side0 (dy_m ?z) = latch_ended (di_port0 ?i) ?d0" "dm_side1 (dy_m ?z) = latch_ended (di_port1 ?i) ?d1"
        "dm_state (dy_m ?z) = Dm_Emit" "dm_valid (dy_m ?z)"
        unfolding m dm_step_running using Dm_Emit False by (auto simp: dm_emit_def offer_desc_def take_desc_def dm_defaults_def)
      then show ?thesis using Dm_Emit False by (simp add: dm_effort_def qs latch_side dm_rank_def)
    qed
  next
    case Dm_Done
    have qs: "dy_queue0 ?z = dy_queue0 y" "dy_queue1 ?z = dy_queue1 y" using Dm_Done by (simp_all add: q pop_handle_def handle_ready_def)
    have z: "dm_side0 (dy_m ?z) = latch_ended (di_port0 ?i) ?d0" "dm_side1 (dy_m ?z) = latch_ended (di_port1 ?i) ?d1" "dm_state (dy_m ?z) = Dm_Idle"
      unfolding m dm_step_running using Dm_Done by (simp_all add: dm_defaults_def)
    then show ?thesis using Dm_Done by (simp add: dm_effort_def qs latch_side dm_rank_def)
  qed (use busy in simp)
qed

lemma prompt_idle:
  "dm_inv P y \<Longrightarrow> dm_state (dy_m y) = Dm_Idle \<or> dm_effort y \<le> n \<Longrightarrow> dm_state (dy_m (dm_cycles (replicate n prompt) y)) = Dm_Idle"
proof (induction n arbitrary: y)
  case 0
  then show ?case using prompt_effort [OF 0(1)] by (cases "dm_state (dy_m y) = Dm_Idle") (auto simp: dm_cycles_def)
next
  case (Suc n)
  have "dm_state (dy_m (dm_cycle prompt y)) = Dm_Idle \<or> dm_effort (dm_cycle prompt y) \<le> n"
    using quiet_inv(2) [OF Suc.prems(1)] prompt_effort [OF Suc.prems(1)] Suc.prems(2) by fastforce
  then show ?case using Suc.IH [OF dm_cycle_inv [OF Suc.prems(1)]] by (simp add: dm_cycles_def)
qed

lemma dm_started_effort: "dm_effort (dm_started s q0 q1) = 10 * length q0 + 10 * length q1 + 8"
  by (simp add: dm_effort_def dm_started_def dm_step_def dm_start_in_def dm_cleared_def dm_begin_def dm_defaults_def restore_def dm_rank_def
      side_rank_def)

section \<open>Properties\<close>

lemma map_fst_flagged [simp]: "map fst (flagged ps) = ps"
  by (simp add: flagged_def map_nth comp_def)

text \<open>
  C11. The matcher refines the pairing of blocks by position: whatever the stalls of the parsers and of the
  scheduler, when it is idle again it has handed out every pair of \<open>pair_up\<close>, the shorter side filled up with
  empty handles, in this order, and exactly the last one carries \<^verbatim>\<open>m_desc_last\<close>; and with neighbours that do
  not stall it is idle again after at most ten cycles for every handle and eight more. Handles have a size
  that is not 0.
\<close>

theorem matcher_pairs_blocks:
  assumes "real_handles q0" and "real_handles q1" and "10 * (length q0 + length q1) + 8 \<le> n"
  shows "(\<forall>cs. dm_state (dy_m (dm_cycles cs (dm_started s q0 q1))) = Dm_Idle \<longrightarrow>
      dy_out (dm_cycles cs (dm_started s q0 q1)) = flagged (pair_up q0 q1 (0, 0))) \<and>
    dm_state (dy_m (dm_cycles (replicate n prompt) (dm_started s q0 q1))) = Dm_Idle"
proof (intro conjI allI impI)
  show "dy_out (dm_cycles cs (dm_started s q0 q1)) = flagged (pair_up q0 q1 (0, 0))"
    if "dm_state (dy_m (dm_cycles cs (dm_started s q0 q1))) = Dm_Idle" for cs
    using dm_cycles_inv [OF dm_started_inv [OF assms(1,2)], of cs s] that by (simp add: dm_inv_def)
  have "dm_effort (dm_started s q0 q1) \<le> n" using assms(3) by (simp add: dm_started_effort)
  then show "dm_state (dy_m (dm_cycles (replicate n prompt) (dm_started s q0 q1))) = Dm_Idle"
    by (intro prompt_idle [OF dm_started_inv [OF assms(1,2)]]) simp
qed

theorem matcher_pairs_blocks_witness:
  "\<forall>s. dy_out (dm_cycles (replicate 38 prompt) (dm_started s [(0, 300), (320, 200)] [(4096, 100)])) =
     [(((0, 300), (4096, 100)), False), (((320, 200), (0, 0)), True)]"
proof
  fix s
  have "real_handles [(0, 300), (320, 200)]" "real_handles [(4096, 100)]"
    "10 * (length [(0 :: u64, 300 :: u32), (320, 200)] + length [(4096 :: u64, 100 :: u32)]) + 8 \<le> (38 :: nat)"
    by (simp_all add: real_handles_def)
  from matcher_pairs_blocks [OF this, of s]
  show "dy_out (dm_cycles (replicate 38 prompt) (dm_started s [(0, 300), (320, 200)] [(4096, 100)])) =
     [(((0, 300), (4096, 100)), False), (((320, 200), (0, 0)), True)]"
    by (simp add: flagged_def)
qed

end
