(* ===== verification/Fixture_Copies.thy ===== *)
theory Fixture_Copies
  imports Split_Test Gen_Memh
begin

text \<open>
  Code that the repository has in several copies: \<^verbatim>\<open>driver/test_split_board.cc\<close> repeats the table builder
  of \<^verbatim>\<open>driver/test_board_integration.cc\<close> and the register map of the driver, and two generators repeat helpers
  of \<^verbatim>\<open>gen_real_sstable.cc\<close>. The other theories use one definition for all copies. Here the copies are
  transcribed on their own, loop by loop with their buffers, and shown to be the definition in use.
\<close>

section \<open>The table builder of the split test\<close>

text \<open>The \<^verbatim>\<open>do\<close> loop of \<^verbatim>\<open>varint\<close> with its output.\<close>

function varint_loop :: "byte list \<Rightarrow> u64 \<Rightarrow> byte list" where
  "varint_loop out v =
     (let b = ucast (v AND 0x7F); v' = drop_bit 7 v;
          out' = out @ [if v' \<noteq> 0 then b OR 0x80 else b]
      in if v' \<noteq> 0 then varint_loop out' v' else out')"
  by pat_completeness auto

termination
proof (relation "measure (unat \<circ> snd)")
  fix out out' :: "byte list" and v v' :: u64 and b
  assume "v' = drop_bit 7 v" and "v' \<noteq> 0"
  then have "0 < unat v div 128" by (metis unat_drop7 unat_gt_0)
  then show "((out', v'), out, v) \<in> measure (unat \<circ> snd)" by (simp add: \<open>v' = _\<close> unat_drop7)
qed simp

declare varint_loop.simps [simp del]

definition split_varint :: "u64 \<Rightarrow> byte list" where "split_varint v = varint_loop [] v"

lemma varint_loop_eq: "varint_loop out v = out @ varint v"
proof (induction out v rule: varint_loop.induct)
  case (1 out v)
  then show ?case
    by (subst varint_loop.simps, subst varint.simps) (simp add: Let_def)
qed

definition split_block_handle :: "u64 \<Rightarrow> u64 \<Rightarrow> byte list" where
  "split_block_handle off sz = split_varint off @ split_varint sz"

definition split_ikey :: "byte list \<Rightarrow> u64 \<Rightarrow> byte \<Rightarrow> byte list" where
  "split_ikey uk sq vtype =
     fst (fold (\<lambda>i (k, tag). (k @ [ucast (tag AND 0xFF)], drop_bit 8 tag)) [0..<8 :: nat]
            (uk, push_bit 8 sq OR ucast vtype))"

lemma fold_push_tag:
  "fst (fold (\<lambda>i (k, tag). (k @ [ucast (tag AND 0xFF)], drop_bit 8 tag)) xs (k, tag)) = push_tag (length xs) tag k"
  by (induction xs arbitrary: k tag) auto

text \<open>The \<^verbatim>\<open>while\<close> loop over the shared prefix.\<close>

function shared_loop :: "byte list \<Rightarrow> byte list \<Rightarrow> nat \<Rightarrow> nat \<Rightarrow> nat" where
  "shared_loop prev k mn shared =
     (if shared < mn \<and> prev ! shared = k ! shared then shared_loop prev k mn (Suc shared) else shared)"
  by pat_completeness auto

termination by (relation "measure (\<lambda>(prev, k, mn, shared). mn - shared)") auto

declare shared_loop.simps [simp del]

lemma shared_loop_eq:
  "shared \<le> min (length prev) (length k) \<Longrightarrow>
   shared_loop prev k (min (length prev) (length k)) shared = shared + shared_len (drop shared prev) (drop shared k)"
proof (induction "min (length prev) (length k) - shared" arbitrary: shared)
  case 0
  then have "drop shared prev = [] \<or> drop shared k = []" by auto
  then have "shared_len (drop shared prev) (drop shared k) = 0" by (cases "drop shared prev") auto
  then show ?case using 0 by (subst shared_loop.simps) simp
next
  case (Suc n)
  then have "drop shared prev = prev ! shared # drop (Suc shared) prev" "drop shared k = k ! shared # drop (Suc shared) k"
    by (simp_all add: Cons_nth_drop_Suc)
  then show ?case using Suc by (subst shared_loop.simps) simp
qed

text \<open>Four bytes of a 32-bit value, as the code picks them.\<close>

definition rb_bytes :: "u32 \<Rightarrow> byte list" where
  "rb_bytes r = [ucast (r AND 0xFF), ucast (drop_bit 8 r AND 0xFF), ucast (drop_bit 16 r AND 0xFF), ucast (drop_bit 24 r AND 0xFF)]"

lemma low_byte32: "ucast ((v :: u32) AND 0xFF) = (of_nat (unat v) :: byte)"
proof -
  have "v AND 0xFF = take_bit 8 v" by (simp add: take_bit_eq_mask mask_eq_exp_minus_1)
  then have "unat (v AND 0xFF) = unat v mod 256" by (simp add: take_bit_eq_mod unat_mod_distrib)
  then have "unat (ucast (v AND 0xFF) :: byte) = unat v mod 256"
    by (simp add: unsigned_ucast_eq take_bit_eq_mod mod_mod_cancel)
  then show ?thesis by (metis unat_of_nat_byte word_unat_eq_iff)
qed

lemma unat_drop32: "unat (drop_bit n (v :: u32)) = unat v div 2 ^ n"
  by (simp only: unat_drop_bit_eq) (simp add: drop_bit_eq_div)

lemma le_bytes_4: "le_bytes 4 n = [of_nat n, of_nat (n div 256), of_nat (n div 65536), of_nat (n div 16777216)]"
proof -
  have four: "(4 :: nat) = Suc (Suc (Suc (Suc 0)))" by simp
  show ?thesis unfolding four by (simp add: div_mult2_eq [symmetric])
qed

lemma rb_bytes_le32: "rb_bytes r = le32 r"
  by (simp add: rb_bytes_def le32_def low_byte32 unat_drop32 le_bytes_4)

text \<open>One turn of the entry loop: the buffer, the restart points and the previous key.\<close>

definition entry_step :: "entry list \<Rightarrow> nat \<Rightarrow> nat \<Rightarrow> byte list \<times> u32 list \<times> byte list \<Rightarrow> byte list \<times> u32 list \<times> byte list" where
  "entry_step recs ri idx = (\<lambda>(buf, restarts, prev).
     (let k = fst (recs ! idx); v = snd (recs ! idx);
          (restarts, shared) =
            (if idx mod ri = 0 then (restarts @ [of_nat (length buf)], 0)
             else (restarts, shared_loop prev k (min (length prev) (length k)) 0));
          buf = buf @ split_varint (of_nat shared);
          buf = buf @ split_varint (of_nat (length k - shared));
          buf = buf @ split_varint (of_nat (length v));
          buf = buf @ drop shared k;
          buf = buf @ v
      in (buf, restarts, k)))"

definition split_encode_block :: "entry list \<Rightarrow> nat \<Rightarrow> byte list" where
  "split_encode_block recs ri =
     (if recs = [] then [0, 0, 0, 0]
      else (case fold (entry_step recs ri) [0..<length recs] ([], [], []) of
        (buf, restarts, prev) \<Rightarrow>
          fold (\<lambda>r buf. buf @ rb_bytes r) restarts buf @ rb_bytes (of_nat (length restarts))))"

definition split_block_with_trailer :: "byte list \<Rightarrow> byte list" where
  "split_block_with_trailer d = (let out = d; out = out @ [0]; out = out @ [0, 0, 0, 0] in out)"

lemma fold_entry_step:
  "fold (entry_step (before @ rest) ri) [length before..<length (before @ rest)] (buf, restarts, prev) =
   (case encode_entries ri (length before) prev rest buf restarts of
      (b, r) \<Rightarrow> (b, r, if rest = [] then prev else fst (last rest)))"
proof (induction rest arbitrary: before buf restarts prev)
  case Nil
  then show ?case by simp
next
  case (Cons e rest)
  obtain k v where e: "e = (k, v)" by (cases e)
  have upt: "[length before..<length (before @ e # rest)] = length before # [length (before @ [e])..<length ((before @ [e]) @ rest)]"
    by (simp add: upt_conv_Cons del: upt_Suc)
  have IH: "fold (entry_step (before @ e # rest) ri) [length (before @ [e])..<length ((before @ [e]) @ rest)] (b, r, k) =
    (case encode_entries ri (Suc (length before)) k rest b r of
       (b, r) \<Rightarrow> (b, r, if rest = [] then k else fst (last rest)))" for b r
    using Cons.IH [of "before @ [e]" b r k] by simp
  have shared: "shared_loop prev k (min (length prev) (length k)) 0 = shared_len prev k"
    using shared_loop_eq [of 0 prev k] by simp
  have nth: "(before @ e # rest) ! length before = (k, v)" by (simp add: e)
  show ?case
  proof (cases "length before mod ri = 0")
    case True
    have turn: "entry_step (before @ e # rest) ri (length before) (buf, restarts, prev) =
        (buf @ varint 0 @ varint (of_nat (length k)) @ varint (of_nat (length v)) @ k @ v, restarts @ [of_nat (length buf)], k)"
      unfolding entry_step_def prod.case nth by (simp add: True split_varint_def varint_loop_eq)
    then show ?thesis unfolding upt fold.simps comp_apply turn IH using True by (simp add: e split: prod.splits)
  next
    case False
    have turn: "entry_step (before @ e # rest) ri (length before) (buf, restarts, prev) =
        (buf @ varint (of_nat (shared_len prev k)) @ varint (of_nat (length k - shared_len prev k)) @
           varint (of_nat (length v)) @ drop (shared_len prev k) k @ v, restarts, k)"
      unfolding entry_step_def prod.case nth by (simp add: False shared split_varint_def varint_loop_eq)
    then show ?thesis unfolding upt fold.simps comp_apply turn IH using False by (simp add: e split: prod.splits)
  qed
qed

lemma fold_append: "fold (\<lambda>r buf. buf @ f r) rs buf = buf @ concat (map f rs)"
  by (induction rs arbitrary: buf) simp_all

lemma split_encode_block_eq: "split_encode_block recs ri = encode_block recs ri"
  using fold_entry_step [of "[]" recs ri "[]" "[]" "[]"]
  by (simp add: split_encode_block_def encode_block_def fold_append rb_bytes_le32 [abs_def] split: prod.splits)

section \<open>The register map of the split test\<close>

definition split_registers :: "u64 list" where
  "split_registers =
    [0x0000, 0x0004, 0x0008, 0x000C, 0x0010, 0x0014, 0x0018, 0x001C, 0x0020, 0x0024, 0x0028, 0x002C, 0x0030, 0x0034, 0x0038,
     0x003C, 0x0040, 0x0044, 0x0054, 0x0058, 0x005C, 0x0060, 0x0064, 0x006C, 0x0070, 0x0500]"

definition split_status_bits :: "u32 list" where "split_status_bits = [0x1, 0x2, 0x4]"

definition split_magic :: "byte list" where
  "split_magic = [0x57, 0xfb, 0x80, 0x8b, 0x24, 0x75, 0x47, 0xdb]"

text \<open>What its names stand for elsewhere; 0x54 is the merger's count of decoded records, which it never reads.\<close>

lemma split_registers_eq:
  "split_registers =
    [kRegCtrl, kRegStatus, kRegSrc0BaseLo, kRegSrc0BaseHi, kRegSrc0Size, kRegSrc1BaseLo, kRegSrc1BaseHi, kRegSrc1Size,
     kRegDstBaseLo, kRegDstBaseHi, kRegDstStride, kRegMidBaseLo, kRegMidBaseHi, kRegBlockPairOut, kRegMaxFileSize,
     kRegSstableCount, kRegSrc0Decoded, kRegSrc1Decoded, 0x0054, kRegMrgMerged, kRegMrgDropped, kRegS5Input, kRegS5Encoded,
     kRegS5Written, kRegPerfCycles, kRegSstableSizesBase]"
  by (simp add: split_registers_def reg_defs counter_reg_defs)

section \<open>Helpers of the generators\<close>

definition scenario_internal_key :: "'w table_lib \<Rightarrow> string \<Rightarrow> u64 \<Rightarrow> byte \<Rightarrow> byte list" where
  "scenario_internal_key lib uk sq vtype =
     (let result = bytes_of uk
      in result @ tl_put_fixed64 lib (push_bit 8 sq OR ucast vtype))"

definition gb_internal_key :: "'w table_lib \<Rightarrow> string \<Rightarrow> u64 \<Rightarrow> byte \<Rightarrow> byte list" where
  "gb_internal_key lib uk sq vtype =
     (let result = bytes_of uk
      in result @ tl_put_fixed64 lib (push_bit 8 sq OR ucast vtype))"

text \<open>\<^verbatim>\<open>WriteMemH\<close>: the text grows with every output operation.\<close>

definition scenario_write_memh :: "'w table_lib \<Rightarrow> string \<Rightarrow> string \<Rightarrow> u64 \<Rightarrow> 'w \<Rightarrow> 'w" where
  "scenario_write_memh lib sst_path memh_path base_addr w =
     (let fout = ''@'';
          addr_buf = take 15 (hex0 8 (unat base_addr));
          fout = fout @ addr_buf @ [newline];
          fout = fold (\<lambda>buf fout. fout @ (let hex = take 3 (hex0 2 (unat buf)) in hex @ [newline])) (tl_read_file lib sst_path w) fout
      in tl_write_text lib memh_path fout w)"

lemma hex_byte_fits: "take 3 (hex0 2 (unat (b :: byte))) = hex0 2 (unat b)"
proof -
  have "unat b < 16 ^ 2" using unat_below_exp [of b] by simp
  from length_hex_string [OF this] show ?thesis by (simp add: hex0_def Let_def)
qed

lemma scenario_write_memh_eq: "scenario_write_memh = write_memh"
  by (intro ext) (simp add: scenario_write_memh_def write_memh_def memh_text_def Let_def fold_append hex_byte_fits)

section \<open>The copies agree\<close>

text \<open>
  C40. The table builder of the split test writes the same bytes as that of the board test, for every block and
  every restart interval, with the same internal keys, handles and trailers; its registers, status bits and magic number are
  those of the driver; and the generators of the scenarios and of the stress test build the same internal
  keys and images as the first generator.
\<close>

theorem fixture_copies_agree:
  "split_varint v = varint v \<and>
   split_block_handle (of_nat off) (of_nat sz) = block_handle off sz \<and>
   split_ikey uk sq vt = ikey uk sq vt \<and>
   split_encode_block recs ri = encode_block recs ri \<and>
   split_block_with_trailer d = block_with_trailer d \<and>
   split_status_bits = [kStatusBusy, kStatusDone, kStatusError] \<and> split_magic = kMagic \<and> split_registers =
    [kRegCtrl, kRegStatus, kRegSrc0BaseLo, kRegSrc0BaseHi, kRegSrc0Size, kRegSrc1BaseLo, kRegSrc1BaseHi, kRegSrc1Size,
     kRegDstBaseLo, kRegDstBaseHi, kRegDstStride, kRegMidBaseLo, kRegMidBaseHi, kRegBlockPairOut, kRegMaxFileSize,
     kRegSstableCount, kRegSrc0Decoded, kRegSrc1Decoded, 0x0054, kRegMrgMerged, kRegMrgDropped, kRegS5Input, kRegS5Encoded,
     kRegS5Written, kRegPerfCycles, kRegSstableSizesBase] \<and>
   scenario_internal_key lib name q (tl_type_value lib) = make_internal_key lib name q \<and>
   gb_internal_key lib name q (tl_type_value lib) = make_internal_key lib name q \<and>
   scenario_write_memh lib p m base w = write_memh lib p m base w"
  by (simp add: split_varint_def varint_loop_eq split_block_handle_def block_handle_def split_ikey_def fold_push_tag
      ikey_def split_encode_block_eq split_block_with_trailer_def block_with_trailer_def split_status_bits_def
      kStatusBusy_def kStatusDone_def kStatusError_def split_magic_def kMagic_def split_registers_eq
      scenario_internal_key_def gb_internal_key_def make_internal_key_def scenario_write_memh_eq)

end
