(* ===== verification/Driver_Instance.thy ===== *)
theory Driver_Instance
  imports Card_Offload
begin

text \<open>
  The driver object and its clock: the function-local static of \<^verbatim>\<open>Get\<close>, which is constructed on the first
  call and kept afterwards, \<^verbatim>\<open>SetConfig\<close> and \<^verbatim>\<open>GetConfig\<close>, and the milliseconds of \<^verbatim>\<open>NowMs\<close>, which the card's host
  reports to the polling loop.
\<close>

section \<open>The singleton\<close>

record driver = drv_config :: config

definition new_driver :: driver where "new_driver = \<lparr>drv_config = default_config\<rparr>"

definition get_driver :: "driver option \<Rightarrow> driver \<times> driver option" where
  "get_driver inst = (case inst of None \<Rightarrow> (new_driver, Some new_driver) | Some d \<Rightarrow> (d, Some d))"

lemma get_driver_Some [simp]: "get_driver (Some d) = (d, Some d)"
  by (simp add: get_driver_def)

definition set_config :: "config \<Rightarrow> driver \<Rightarrow> driver" where "set_config cfg d = d\<lparr>drv_config := cfg\<rparr>"

definition get_config :: "driver \<Rightarrow> config" where "get_config d = drv_config d"

text \<open>Calls of \<^verbatim>\<open>Get().SetConfig(cfg)\<close> in a program, one after the other; the static outlives them.\<close>

fun configure :: "config list \<Rightarrow> driver option \<Rightarrow> driver option" where
  "configure [] inst = inst"
| "configure (cfg # cfgs) inst =
     (case get_driver inst of (d, _) \<Rightarrow> configure cfgs (Some (set_config cfg d)))"

lemma configure_last:
  "get_config (fst (get_driver (configure cfgs None))) = (if cfgs = [] then default_config else last cfgs)"
proof -
  have "get_config (fst (get_driver (configure cfgs inst))) =
      (if cfgs = [] then get_config (fst (get_driver inst)) else last cfgs)" for inst
    by (induction cfgs arbitrary: inst) (auto simp: get_config_def set_config_def split: prod.splits)
  then show ?thesis by (simp add: get_driver_def get_config_def new_driver_def)
qed

section \<open>The clock\<close>

text \<open>\<^verbatim>\<open>duration_cast\<close> divides towards zero; \<^verbatim>\<open>steady_clock\<close> counts nanoseconds.\<close>

definition now_ms :: "int \<Rightarrow> u64" where
  "now_ms ns = word_of_int (if ns < 0 then - (- ns div 1000000) else ns div 1000000)"

lemma now_ms_mono:
  assumes "0 \<le> a" and "a \<le> b" and "b < 2 ^ 63"
  shows "now_ms a \<le> now_ms b"
proof -
  have le: "a div 1000000 \<le> b div 1000000" using assms by (simp add: zdiv_mono1)
  have "b div 1000000 \<le> b div 1" by (rule zdiv_mono2) (use assms in simp_all)
  then have lt: "b div 1000000 < 2 ^ 64" using assms by simp
  have "0 \<le> a div 1000000" using assms by simp
  then show ?thesis
    using assms le lt by (simp add: now_ms_def word_le_def uint_word_of_int take_bit_int_eq_self)
qed

lemma card_clock_now:
  assumes "c_clock w < 2 ^ 64"
  shows "card_now_ms w = (now_ms (1000 * int (c_clock w)), w)"
proof -
  have "int (c_clock w) * 1000 div (1000 * 1000) = int (c_clock w) div 1000"
    by (rule div_mult_mult2) simp
  then have "1000 * int (c_clock w) div 1000000 = int (c_clock w div 1000)"
    by (simp add: zdiv_int mult.commute)
  moreover have "c_clock w div 1000 \<le> 2 ^ 64 - 1" using assms by linarith
  ultimately show ?thesis by (simp add: card_now_ms_def now_ms_def min_def)
qed

end
