(* ===== verification/Stream_Stage.thy ===== *)
theory Stream_Stage
  imports Main
begin

text \<open>
  Clocked modules with one AXI stream in and one out, as the interface between the stages of a data path:
  the output wires as functions of the registers and the other side's wires, one definition step per
  rising edge, two stages wired together, and a stage between a source and a sink with arbitrary hand-shakes. The
  contract of a stage is a locale; wiring two stages together keeps it.
\<close>

section \<open>Stages\<close>

text \<open>
  \<^verbatim>\<open>s_ready\<close> depends on the registers and \<^verbatim>\<open>m_ready\<close>; what is offered (\<^verbatim>\<open>m_valid\<close> with the data, or nothing) depends on
  the registers and, for a stage that passes a beat through, on what is offered to it.
\<close>

record ('s, 'a, 'b) stage =
  st_init :: 's
  st_ready :: "'s \<Rightarrow> bool \<Rightarrow> bool"
  st_offer :: "'s \<Rightarrow> 'a option \<Rightarrow> 'b option"
  st_step :: "'s \<Rightarrow> 'a option \<Rightarrow> bool \<Rightarrow> 's"

definition takes :: "('s, 'a, 'b) stage \<Rightarrow> 's \<Rightarrow> 'a option \<Rightarrow> bool \<Rightarrow> bool" where
  "takes M s off r \<longleftrightarrow> off \<noteq> None \<and> st_ready M s r"

definition handed :: "('s, 'a, 'b) stage \<Rightarrow> 's \<Rightarrow> 'a option \<Rightarrow> bool \<Rightarrow> 'a list" where
  "handed M s off r = (case off of None \<Rightarrow> [] | Some x \<Rightarrow> if st_ready M s r then [x] else [])"

definition sent :: "('s, 'a, 'b) stage \<Rightarrow> 's \<Rightarrow> 'a option \<Rightarrow> bool \<Rightarrow> 'b list" where
  "sent M s off r = (case st_offer M s off of None \<Rightarrow> [] | Some y \<Rightarrow> if r then [y] else [])"

text \<open>The output of the first stage is the input of the second.\<close>

definition wire :: "('s, 'a, 'b) stage \<Rightarrow> ('t, 'b, 'c) stage \<Rightarrow> ('s \<times> 't, 'a, 'c) stage" where
  "wire A B = \<lparr>
     st_init = (st_init A, st_init B),
     st_ready = (\<lambda>(s, t) r. st_ready A s (st_ready B t r)),
     st_offer = (\<lambda>(s, t) off. st_offer B t (st_offer A s off)),
     st_step = (\<lambda>(s, t) off r. (st_step A s off (st_ready B t r), st_step B t (st_offer A s off) r))\<rparr>"

lemma wire_simps [simp]:
  "st_init (wire A B) = (st_init A, st_init B)"
  "st_ready (wire A B) (s, t) r = st_ready A s (st_ready B t r)"
  "st_offer (wire A B) (s, t) off = st_offer B t (st_offer A s off)"
  "st_step (wire A B) (s, t) off r = (st_step A s off (st_ready B t r), st_step B t (st_offer A s off) r)"
  by (simp_all add: wire_def)

lemma wire_handed: "handed (wire A B) (s, t) off r = handed A s off (st_ready B t r)"
  by (cases off) (simp_all add: handed_def)

lemma wire_sent: "sent (wire A B) (s, t) off r = sent B t (st_offer A s off) r"
  by (simp add: sent_def)

text \<open>What the first stage sends is what the second one is handed.\<close>

lemma wire_middle: "sent A s off (st_ready B t r) = handed B t (st_offer A s off) r"
  by (simp add: sent_def handed_def)

section \<open>A stage between a source and a sink\<close>

text \<open>
  A turn of the environment: whether the source offers its next beat, and whether the sink is ready. The state of
  a run: the beats of the source, the stage and the beats the sink has.
\<close>

type_synonym turn = "bool \<times> bool"

definition offered :: "bool \<Rightarrow> 'a list \<Rightarrow> 'a option" where
  "offered v xs = (if v \<and> xs \<noteq> [] then Some (hd xs) else None)"

definition stage_turn :: "('s, 'a, 'b) stage \<Rightarrow> turn \<Rightarrow> 'a list \<times> 's \<times> 'b list \<Rightarrow> 'a list \<times> 's \<times> 'b list" where
  "stage_turn M = (\<lambda>(v, r) (xs, s, ys).
     (let off = offered v xs
      in (if takes M s off r then tl xs else xs, st_step M s off r, ys @ sent M s off r)))"

definition stage_run :: "('s, 'a, 'b) stage \<Rightarrow> turn list \<Rightarrow> 'a list \<Rightarrow> 'a list \<times> 's \<times> 'b list" where
  "stage_run M es xs = fold (stage_turn M) es (xs, st_init M, [])"

definition received :: "'a list \<times> 's \<times> 'b list \<Rightarrow> 'b list" where
  "received z = snd (snd z)"

section \<open>The contract\<close>

text \<open>
  The contents of a stream: its bytes, and None for the end of a frame. The contract describes a stage by its
  invariant, by what it is going to send when a given rest of the stream still enters it, by when it has nothing to
  send, and by an upper bound of the edges it still needs, which a beat taken raises by at most a weight.
\<close>

type_synonym 'c token = "'c option"

record ('s, 'c) contract =
  ct_inv :: "'s \<Rightarrow> bool"
  ct_pending :: "'s \<Rightarrow> 'c token list \<Rightarrow> 'c token list"
  ct_quiet :: "'s \<Rightarrow> bool"
  ct_effort :: "'s \<Rightarrow> nat"
  ct_weight :: nat

locale stream_stage =
  fixes M :: "('s, 'a, 'b) stage" and C :: "('s, 'c) contract"
    and okA :: "'a \<Rightarrow> bool" and tokA :: "'a \<Rightarrow> 'c token list"
    and okB :: "'b \<Rightarrow> bool" and tokB :: "'b \<Rightarrow> 'c token list"
  assumes inv_init: "ct_inv C (st_init M)"
    and inv_step: "ct_inv C s \<Longrightarrow> pred_option okA off \<Longrightarrow> ct_inv C (st_step M s off r)"
    and offer_ok: "ct_inv C s \<Longrightarrow> pred_option okA off \<Longrightarrow> pred_option okB (st_offer M s off)"
    and conserves: "ct_inv C s \<Longrightarrow> pred_option okA off \<Longrightarrow>
      ct_pending C s (concat (map tokA (handed M s off r)) @ X) =
      concat (map tokB (sent M s off r)) @ ct_pending C (st_step M s off r) X"
    and quiet_offer: "ct_inv C s \<Longrightarrow> ct_quiet C s \<Longrightarrow> st_offer M s None = None"
    and quiet_step: "ct_inv C s \<Longrightarrow> ct_quiet C s \<Longrightarrow> ct_quiet C (st_step M s None r)"
    and quiet_pending: "ct_inv C s \<Longrightarrow> ct_quiet C s \<Longrightarrow> None \<notin> set X \<Longrightarrow> None \<notin> set (ct_pending C s X)"
    and effort_keeps: "ct_inv C s \<Longrightarrow> pred_option okA off \<Longrightarrow> \<not> takes M s off r \<Longrightarrow>
      ct_effort C (st_step M s off r) \<le> ct_effort C s"
    and effort_falls: "ct_inv C s \<Longrightarrow> pred_option okA off \<Longrightarrow> \<not> takes M s off r \<Longrightarrow> r \<or> st_offer M s off = None \<Longrightarrow>
      ct_effort C (st_step M s off r) < ct_effort C s \<or> off = None \<and> ct_quiet C s"
    and effort_rises: "ct_inv C s \<Longrightarrow> pred_option okA off \<Longrightarrow> takes M s off r \<Longrightarrow>
      ct_effort C (st_step M s off r) \<le> ct_effort C s + ct_weight C"
begin

definition run_ok :: "'a list \<times> 's \<times> 'b list \<Rightarrow> bool" where
  "run_ok z \<longleftrightarrow> list_all okA (fst z) \<and> ct_inv C (fst (snd z)) \<and> list_all okB (received z)"

definition promised :: "'a list \<times> 's \<times> 'b list \<Rightarrow> 'c token list" where
  "promised z = concat (map tokB (received z)) @ ct_pending C (fst (snd z)) (concat (map tokA (fst z)))"

definition remaining :: "'a list \<times> 's \<times> 'b list \<Rightarrow> nat" where
  "remaining z = Suc (ct_weight C) * length (fst z) + ct_effort C (fst (snd z))"

lemma offered_ok: "list_all okA xs \<Longrightarrow> pred_option okA (offered v xs)"
  by (cases xs) (auto simp: offered_def)

lemma turn_ok: "run_ok z \<Longrightarrow> run_ok (stage_turn M e z)"
proof -
  assume ok: "run_ok z"
  obtain v r xs s ys where e: "e = (v, r)" and z: "z = (xs, s, ys)" by (cases e, cases z)
  have xs: "list_all okA xs" "list_all okA (tl xs)" using ok z by (cases xs; simp add: run_ok_def)+
  have s: "ct_inv C s" and ys: "list_all okB ys" using ok z by (simp_all add: run_ok_def received_def)
  have "pred_option okB (st_offer M s (offered v xs))" by (rule offer_ok [OF s offered_ok [OF xs(1)]])
  then have "list_all okB (sent M s (offered v xs) r)" by (auto simp: sent_def split: option.splits)
  then show ?thesis
    using xs ys inv_step [OF s offered_ok [OF xs(1)]] by (simp add: run_ok_def stage_turn_def e z received_def Let_def)
qed

lemma takes_handed: "handed M s off r = (if takes M s off r then [the off] else [])"
  by (cases off) (auto simp: handed_def takes_def)

lemma handed_rest:
  "concat (map tokA xs) = concat (map tokA (handed M s (offered v xs) r)) @
     concat (map tokA (if takes M s (offered v xs) r then tl xs else xs))"
  by (cases xs) (auto simp: takes_handed takes_def offered_def)

lemma turn_promised: "run_ok z \<Longrightarrow> promised (stage_turn M e z) = promised z"
proof -
  assume ok: "run_ok z"
  obtain v r xs s ys where e: "e = (v, r)" and z: "z = (xs, s, ys)" by (cases e, cases z)
  let ?off = "offered v xs"
  let ?rest = "concat (map tokA (if takes M s ?off r then tl xs else xs))"
  have s: "ct_inv C s" "list_all okA xs" using ok z by (simp_all add: run_ok_def)
  have "ct_pending C s (concat (map tokA xs)) = ct_pending C s (concat (map tokA (handed M s ?off r)) @ ?rest)"
    by (rule arg_cong [OF handed_rest])
  also have "\<dots> = concat (map tokB (sent M s ?off r)) @ ct_pending C (st_step M s ?off r) ?rest"
    by (rule conserves [OF s(1) offered_ok [OF s(2)]])
  finally show ?thesis by (simp add: promised_def received_def stage_turn_def e z Let_def)
qed

lemma run_promised: "run_ok z \<Longrightarrow> run_ok (fold (stage_turn M) es z) \<and> promised (fold (stage_turn M) es z) = promised z"
  by (induction es arbitrary: z) (simp_all add: turn_ok turn_promised)

text \<open>With a source that offers and a sink that takes, the work ends.\<close>

lemma turn_remaining:
  assumes "run_ok z"
  shows "remaining (stage_turn M (True, True) z) < remaining z \<or> fst z = [] \<and> ct_quiet C (fst (snd z))"
proof -
  obtain xs s ys where z: "z = (xs, s, ys)" by (cases z)
  have s: "ct_inv C s" "list_all okA xs" using assms z by (simp_all add: run_ok_def)
  let ?off = "offered True xs"
  have off: "pred_option okA ?off" by (rule offered_ok [OF s(2)])
  show ?thesis
  proof (cases "takes M s ?off True")
    case True
    then have "xs \<noteq> []" by (auto simp: takes_def offered_def)
    then obtain x xs' where "xs = x # xs'" by (cases xs) auto
    then show ?thesis using effort_rises [OF s(1) off True] True by (simp add: remaining_def stage_turn_def z Let_def)
  next
    case False
    then show ?thesis
      using effort_falls [OF s(1) off False] by (auto simp: remaining_def stage_turn_def z Let_def offered_def split: if_splits)
  qed
qed

lemma quiet_turn:
  assumes "run_ok z" and "fst z = []" and "ct_quiet C (fst (snd z))"
  shows "fst (stage_turn M e z) = [] \<and> ct_quiet C (fst (snd (stage_turn M e z)))"
proof -
  obtain v r s ys where e: "e = (v, r)" and z: "z = ([], s, ys)" using assms(2) by (cases e, cases z) auto
  show ?thesis
    using assms quiet_step [of s r] by (simp add: e z stage_turn_def offered_def run_ok_def takes_def)
qed

lemma quiet_run:
  assumes "run_ok z" and "remaining z \<le> n"
  shows "fst (fold (stage_turn M) (replicate n (True, True)) z) = [] \<and>
    ct_quiet C (fst (snd (fold (stage_turn M) (replicate n (True, True)) z)))"
  using assms
proof (induction n arbitrary: z)
  case 0
  then show ?case using turn_remaining [of z] by simp
next
  case (Suc n)
  let ?z = "stage_turn M (True, True) z"
  show ?case
  proof (cases "fst z = [] \<and> ct_quiet C (fst (snd z))")
    case True
    have "fst (fold (stage_turn M) es y) = [] \<and> ct_quiet C (fst (snd (fold (stage_turn M) es y)))"
      if "run_ok y" "fst y = [] \<and> ct_quiet C (fst (snd y))" for es y
      using that by (induction es arbitrary: y) (simp_all add: quiet_turn turn_ok)
    from this [OF Suc.prems(1) True] show ?thesis .
  next
    case False
    then have "remaining ?z \<le> n" using turn_remaining [OF Suc.prems(1)] Suc.prems(2) by auto
    from Suc.IH [OF turn_ok [OF Suc.prems(1)] this] show ?thesis by simp
  qed
qed

definition target :: "'a list \<Rightarrow> 'c token list" where
  "target xs = ct_pending C (st_init M) (concat (map tokA xs))"

lemma start_ok: "list_all okA xs \<Longrightarrow> run_ok (xs, st_init M, [])"
  by (simp add: run_ok_def received_def inv_init)

lemma run_safe:
  assumes "list_all okA xs"
  shows "\<exists>Y. target xs = concat (map tokB (received (stage_run M es xs))) @ Y"
    and "list_all okB (received (stage_run M es xs))"
proof -
  let ?z = "stage_run M es xs"
  have ok: "run_ok ?z" and "promised ?z = target xs"
    using run_promised [OF start_ok [OF assms], of es] by (simp_all add: promised_def target_def stage_run_def received_def)
  then have split: "target xs = concat (map tokB (received ?z)) @ ct_pending C (fst (snd ?z)) (concat (map tokA (fst ?z)))"
    by (simp only: promised_def)
  show "\<exists>Y. target xs = concat (map tokB (received ?z)) @ Y" using split by blast
  show "list_all okB (received ?z)" using ok by (simp only: run_ok_def)
qed

text \<open>All of it arrives if the input is made of whole frames.\<close>

lemma run_complete:
  assumes "list_all okA xs" and "Suc (ct_weight C) * length xs + ct_effort C (st_init M) \<le> n"
    and "target xs = [] \<or> last (target xs) = None"
  shows "concat (map tokB (received (stage_run M (replicate n (True, True)) xs))) = target xs"
proof -
  let ?z = "fold (stage_turn M) (replicate n (True, True)) (xs, st_init M, [])"
  have ok: "run_ok ?z" and prom: "promised ?z = target xs"
    using run_promised [OF start_ok [OF assms(1)], of "replicate n (True, True)"]
    by (auto simp: promised_def target_def received_def)
  have quiet: "fst ?z = []" "ct_quiet C (fst (snd ?z))"
    using quiet_run [OF start_ok [OF assms(1)], of n] assms(2) by (auto simp: remaining_def)
  have inv: "ct_inv C (fst (snd ?z))" using ok by (simp add: run_ok_def)
  let ?rest = "ct_pending C (fst (snd ?z)) []"
  have "None \<notin> set ?rest" by (rule quiet_pending [OF inv quiet(2)]) simp
  moreover have split: "target xs = concat (map tokB (received ?z)) @ ?rest"
    using prom quiet(1) by (simp add: promised_def)
  ultimately have "?rest = []" using assms(3) by (metis append_is_Nil_conv last_appendR last_in_set)
  with split show ?thesis by (simp add: stage_run_def)
qed

end

section \<open>Two stages wired together\<close>

definition join :: "('s, 'c) contract \<Rightarrow> ('t, 'c) contract \<Rightarrow> ('s \<times> 't, 'c) contract" where
  "join C D = \<lparr>
     ct_inv = (\<lambda>(s, t). ct_inv C s \<and> ct_inv D t),
     ct_pending = (\<lambda>(s, t) X. ct_pending D t (ct_pending C s X)),
     ct_quiet = (\<lambda>(s, t). ct_quiet C s \<and> ct_quiet D t),
     ct_effort = (\<lambda>(s, t). Suc (ct_weight D) * ct_effort C s + ct_effort D t),
     ct_weight = Suc (ct_weight D) * ct_weight C + ct_weight D\<rparr>"

lemma join_simps [simp]:
  "ct_inv (join C D) (s, t) \<longleftrightarrow> ct_inv C s \<and> ct_inv D t"
  "ct_pending (join C D) (s, t) X = ct_pending D t (ct_pending C s X)"
  "ct_quiet (join C D) (s, t) \<longleftrightarrow> ct_quiet C s \<and> ct_quiet D t"
  "ct_effort (join C D) (s, t) = Suc (ct_weight D) * ct_effort C s + ct_effort D t"
  "ct_weight (join C D) = Suc (ct_weight D) * ct_weight C + ct_weight D"
  by (simp_all add: join_def)

locale stage_pair = A: stream_stage A C okA tokA okB tokB + B: stream_stage B D okB tokB okC tokC
  for A :: "('s, 'a, 'b) stage" and C :: "('s, 'c) contract"
    and okA :: "'a \<Rightarrow> bool" and tokA :: "'a \<Rightarrow> 'c token list"
    and okB :: "'b \<Rightarrow> bool" and tokB :: "'b \<Rightarrow> 'c token list"
    and B :: "('t, 'b, 'd) stage" and D :: "('t, 'c) contract"
    and okC :: "'d \<Rightarrow> bool" and tokC :: "'d \<Rightarrow> 'c token list"
begin

lemma first_not_taking:
  assumes "ct_inv C s" and "ct_inv D t" and "pred_option okA off" and "\<not> takes A s off (st_ready B t r)"
  shows "Suc (ct_weight D) * ct_effort C (st_step A s off (st_ready B t r)) +
           ct_effort D (st_step B t (st_offer A s off) r) \<le> Suc (ct_weight D) * ct_effort C s + ct_effort D t"
    and "r \<or> st_offer B t (st_offer A s off) = None \<Longrightarrow>
      Suc (ct_weight D) * ct_effort C (st_step A s off (st_ready B t r)) +
        ct_effort D (st_step B t (st_offer A s off) r) < Suc (ct_weight D) * ct_effort C s + ct_effort D t \<or>
      off = None \<and> ct_quiet C s \<and> ct_quiet D t"
proof -
  let ?m = "st_offer A s off" and ?q = "st_ready B t r"
  let ?s = "st_step A s off ?q" and ?t = "st_step B t ?m r" and ?k = "Suc (ct_weight D)"
  have m: "pred_option okB ?m" by (rule A.offer_ok [OF assms(1,3)])
  have s: "ct_effort C ?s \<le> ct_effort C s" by (rule A.effort_keeps [OF assms(1,3,4)])
  have mono: "?k * ct_effort C ?s \<le> ?k * ct_effort C s" using s by (rule mult_le_mono2)
  have strict: "?k * ct_effort C ?s + ?k \<le> ?k * ct_effort C s" if "ct_effort C ?s < ct_effort C s"
    using mult_le_mono2 [of "Suc (ct_effort C ?s)" "ct_effort C s" ?k] that by simp
  have busy: "\<not> (off = None \<and> ct_quiet C s)" if "?m \<noteq> None"
    using that A.quiet_offer [OF assms(1)] by auto
  have first: "ct_effort C ?s < ct_effort C s \<or> off = None \<and> ct_quiet C s" if "?q \<or> ?m = None"
    using A.effort_falls [OF assms(1,3,4)] that by simp
  show "?k * ct_effort C ?s + ct_effort D ?t \<le> ?k * ct_effort C s + ct_effort D t"
  proof (cases "takes B t ?m r")
    case True
    then have "?m \<noteq> None" "?q" by (auto simp: takes_def)
    then have "ct_effort C ?s < ct_effort C s" using first busy by auto
    then show ?thesis using strict B.effort_rises [OF assms(2) m True] by simp
  next
    case False
    then show ?thesis using mono B.effort_keeps [OF assms(2) m False] by linarith
  qed
  show "?k * ct_effort C ?s + ct_effort D ?t < ?k * ct_effort C s + ct_effort D t \<or> off = None \<and> ct_quiet C s \<and> ct_quiet D t"
    if r: "r \<or> st_offer B t ?m = None"
  proof (cases "takes B t ?m r")
    case True
    then have "?m \<noteq> None" "?q" by (auto simp: takes_def)
    then have "ct_effort C ?s < ct_effort C s" using first busy by auto
    then show ?thesis using strict B.effort_rises [OF assms(2) m True] by simp
  next
    case False
    note keep = B.effort_keeps [OF assms(2) m False]
    note fall = B.effort_falls [OF assms(2) m False r]
    show ?thesis
    proof (cases "ct_effort D ?t < ct_effort D t")
      case True
      then show ?thesis using mono by linarith
    next
      case no: False
      then have none: "?m = None" and quiet: "ct_quiet D t" using fall by auto
      show ?thesis
      proof (cases "ct_effort C ?s < ct_effort C s")
        case True
        then show ?thesis using strict keep by simp
      next
        case False
        then show ?thesis using first none quiet by auto
      qed
    qed
  qed
qed

lemma first_taking:
  assumes "ct_inv C s" and "ct_inv D t" and "pred_option okA off" and "takes A s off (st_ready B t r)"
  shows "Suc (ct_weight D) * ct_effort C (st_step A s off (st_ready B t r)) + ct_effort D (st_step B t (st_offer A s off) r)
    \<le> (Suc (ct_weight D) * ct_effort C s + ct_effort D t) + (Suc (ct_weight D) * ct_weight C + ct_weight D)"
proof -
  let ?m = "st_offer A s off" and ?k = "Suc (ct_weight D)"
  have m: "pred_option okB ?m" by (rule A.offer_ok [OF assms(1,3)])
  have "ct_effort D (st_step B t ?m r) \<le> ct_effort D t + ct_weight D"
    using B.effort_rises [OF assms(2) m, of r] B.effort_keeps [OF assms(2) m, of r] by (cases "takes B t ?m r") auto
  moreover have "?k * ct_effort C (st_step A s off (st_ready B t r)) \<le> ?k * (ct_effort C s + ct_weight C)"
    by (rule mult_le_mono2 [OF A.effort_rises [OF assms(1,3,4)]])
  ultimately show ?thesis by (simp add: add_mult_distrib2)
qed

sublocale AB: stream_stage "wire A B" "join C D" okA tokA okC tokC
proof unfold_locales
  show "ct_inv (join C D) (st_init (wire A B))" by (simp add: A.inv_init B.inv_init)
next
  fix p :: "'s \<times> 't" and off :: "'a option" and r and X :: "'c token list"
  obtain s t where p: "p = (s, t)" by (cases p)
  assume i: "ct_inv (join C D) p" and off: "pred_option okA off"
  then have s: "ct_inv C s" and t: "ct_inv D t" by (simp_all add: p)
  have m: "pred_option okB (st_offer A s off)" by (rule A.offer_ok [OF s off])
  show "ct_inv (join C D) (st_step (wire A B) p off r)"
    using A.inv_step [OF s off] B.inv_step [OF t m] by (simp add: p)
  show "pred_option okC (st_offer (wire A B) p off)"
    using B.offer_ok [OF t m] by (simp add: p)
  show "ct_pending (join C D) p (concat (map tokA (handed (wire A B) p off r)) @ X) =
      concat (map tokC (sent (wire A B) p off r)) @ ct_pending (join C D) (st_step (wire A B) p off r) X"
    by (simp add: p wire_handed wire_sent A.conserves [OF s off] wire_middle B.conserves [OF t m])
  show "ct_effort (join C D) (st_step (wire A B) p off r) \<le> ct_effort (join C D) p"
    if "\<not> takes (wire A B) p off r"
    using first_not_taking(1) [OF s t off] that by (simp add: p takes_def)
  show "ct_effort (join C D) (st_step (wire A B) p off r) < ct_effort (join C D) p \<or> off = None \<and> ct_quiet (join C D) p"
    if "\<not> takes (wire A B) p off r" "r \<or> st_offer (wire A B) p off = None"
    using first_not_taking(2) [OF s t off] that by (simp add: p takes_def)
  show "ct_effort (join C D) (st_step (wire A B) p off r) \<le> ct_effort (join C D) p + ct_weight (join C D)"
    if "takes (wire A B) p off r"
    using first_taking [OF s t off] that by (simp add: p takes_def)
next
  fix p :: "'s \<times> 't" and r and X :: "'c token list"
  obtain s t where p: "p = (s, t)" by (cases p)
  assume i: "ct_inv (join C D) p" and q: "ct_quiet (join C D) p"
  then have s: "ct_inv C s" "ct_quiet C s" and t: "ct_inv D t" "ct_quiet D t" by (simp_all add: p)
  show "st_offer (wire A B) p None = None"
    by (simp add: p A.quiet_offer [OF s] B.quiet_offer [OF t])
  show "ct_quiet (join C D) (st_step (wire A B) p None r)"
    by (simp add: p A.quiet_offer [OF s] A.quiet_step [OF s] B.quiet_step [OF t])
  show "None \<notin> set (ct_pending (join C D) p X)" if "None \<notin> set X"
    by (simp add: p B.quiet_pending [OF t A.quiet_pending [OF s that]])
qed

end

end
