(* ===== verification/Stream_Packer.thy ===== *)
theory Stream_Packer
  imports Merger_Refinement Stream_Stage
begin

text \<open>
  \<^verbatim>\<open>organized/rtl_v2/stream_byte_packer_64.v\<close>: a 15-byte accumulator that turns 64-bit beats with any number of
  bytes into full ones, but for the last beat of a frame. The accumulator is the list of its bytes, lowest
  first; the code selects nothing but whole bytes of it.
\<close>

section \<open>Registers, wires and the clock edge\<close>

record packer =
  sp_acc :: "byte list"
  sp_cnt :: nat
  sp_last :: bool

definition packer_reset :: packer where
  "packer_reset = \<lparr>sp_acc = replicate 15 0, sp_cnt = 0, sp_last = False\<rparr>"

definition packer_valid :: "packer \<Rightarrow> bool" where
  "packer_valid s \<longleftrightarrow> 8 \<le> sp_cnt s \<or> sp_last s \<and> 0 < sp_cnt s"

definition packer_keep :: "nat \<Rightarrow> byte" where
  "packer_keep n =
     (if 8 \<le> n then 0xff else if 7 \<le> n then 0x7f else if 6 \<le> n then 0x3f else if 5 \<le> n then 0x1f
      else if 4 \<le> n then 0x0f else if 3 \<le> n then 0x07 else if 2 \<le> n then 0x03 else if 1 \<le> n then 0x01 else 0x00)"

definition packer_offer :: "packer \<Rightarrow> mg_beat option" where
  "packer_offer s =
     (if packer_valid s
      then Some \<lparr>bt_data = pack_bytes (take 8 (sp_acc s)), bt_keep = packer_keep (sp_cnt s), bt_last = sp_last s \<and> sp_cnt s \<le> 8\<rparr>
      else None)"

definition cnt_after_out :: "packer \<Rightarrow> bool \<Rightarrow> nat" where
  "cnt_after_out s r =
     (if packer_valid s \<and> r then (if 8 \<le> sp_cnt s then sp_cnt s - 8 else 0) else sp_cnt s)"

definition packer_ready :: "packer \<Rightarrow> bool \<Rightarrow> bool" where
  "packer_ready s r \<longleftrightarrow> cnt_after_out s r \<le> 7 \<and> \<not> sp_last s"

text \<open>The bytes of a beat go behind the \<open>n\<close> bytes that are there.\<close>

definition put_bytes :: "nat \<Rightarrow> mg_beat \<Rightarrow> byte list \<Rightarrow> byte list" where
  "put_bytes n x acc =
     (if n \<le> 7 then fold (\<lambda>k a. if bit (bt_keep x) k then a[n + k := byte_of (bt_data x) k] else a) [0..<8] acc else acc)"

definition packer_edge :: "bool \<Rightarrow> mg_beat option \<Rightarrow> bool \<Rightarrow> packer \<Rightarrow> packer" where
  "packer_edge rst off r s =
     (if rst then packer_reset
      else
        (let out = packer_valid s \<and> r;
             acc = (if out then drop 8 (sp_acc s) @ replicate 8 0 else sp_acc s);
             n = cnt_after_out s r;
             accept = off \<noteq> None \<and> packer_ready s r
         in \<lparr>sp_acc = (if accept then put_bytes n (the off) acc else acc),
             sp_cnt = (if accept then (n + keep_count (bt_keep (the off))) mod 16 else n),
             sp_last = (if out \<and> sp_last s \<and> sp_cnt s \<le> 8 then False
                        else if accept \<and> bt_last (the off) then True else sp_last s)\<rparr>))"

definition packer_stage :: "(packer, mg_beat, mg_beat) stage" where
  "packer_stage = \<lparr>st_init = packer_reset, st_ready = packer_ready, st_offer = (\<lambda>s off. packer_offer s),
     st_step = (\<lambda>s off r. packer_edge False off r s)\<rparr>"

lemma packer_stage_simps [simp]:
  "st_init packer_stage = packer_reset" "st_ready packer_stage = packer_ready"
  "st_offer packer_stage s off = packer_offer s" "st_step packer_stage s off r = packer_edge False off r s"
  by (simp_all add: packer_stage_def)

section \<open>What it does to the bytes\<close>

text \<open>Beats filled from the lowest byte, the last one of a frame with at least one byte; and full beats.\<close>

definition packable :: "mg_beat \<Rightarrow> bool" where
  "packable x \<longleftrightarrow> (\<forall>k<8. bit (bt_keep x) k \<longleftrightarrow> k < keep_count (bt_keep x)) \<and> (bt_last x \<longrightarrow> 0 < keep_count (bt_keep x))"

definition full_beat :: "mg_beat \<Rightarrow> bool" where
  "full_beat x \<longleftrightarrow> dense x \<and> (\<not> bt_last x \<longrightarrow> keep_count (bt_keep x) = 8)"

definition beat_tokens :: "mg_beat \<Rightarrow> byte token list" where
  "beat_tokens x = map Some (beat_bytes x) @ (if bt_last x then [None] else [])"

lemma full_packable: "full_beat x \<Longrightarrow> packable x"
  by (simp add: full_beat_def dense_def packable_def)

lemma packable_bytes: "packable x \<Longrightarrow> beat_bytes x = map (byte_of (bt_data x)) [0..<keep_count (bt_keep x)]"
proof -
  assume "packable x"
  then have "filter (bit (bt_keep x)) [0..<8] = filter (\<lambda>k. k < keep_count (bt_keep x)) [0..<8]"
    by (intro filter_cong) (auto simp: packable_def)
  then show ?thesis by (simp only: beat_bytes_def filter_upt_less [OF keep_count_le])
qed

lemma packer_keep_bits: "filter (bit (packer_keep n)) [0..<8] = [0..<min n 8]"
proof -
  consider "n = 0" | "n = 1" | "n = 2" | "n = 3" | "n = 4" | "n = 5" | "n = 6" | "n = 7" | "8 \<le> n"
    by linarith
  then show ?thesis
    by cases (simp_all add: packer_keep_def upt_conv_Cons bit_simps min_def)
qed

lemma keep_count_packer [simp]: "keep_count (packer_keep n) = min n 8"
  by (simp add: keep_count_def packer_keep_bits)

lemma bit_packer_keep: "k < 8 \<Longrightarrow> bit (packer_keep n) k \<longleftrightarrow> k < n"
proof -
  assume "k < 8"
  then have "bit (packer_keep n) k \<longleftrightarrow> k \<in> set (filter (bit (packer_keep n)) [0..<8])" by simp
  also have "\<dots> \<longleftrightarrow> k < n" unfolding packer_keep_bits using \<open>k < 8\<close> by simp
  finally show ?thesis .
qed

lemma put_part:
  "m \<le> 8 \<Longrightarrow> length (fold (\<lambda>k a. if bit (bt_keep x) k then a[n + k := byte_of (bt_data x) k] else a) [0..<m] acc) = length acc \<and>
   (\<forall>j < length acc. fold (\<lambda>k a. if bit (bt_keep x) k then a[n + k := byte_of (bt_data x) k] else a) [0..<m] acc ! j =
      (if n \<le> j \<and> j < n + m \<and> bit (bt_keep x) (j - n) then byte_of (bt_data x) (j - n) else acc ! j))"
proof (induction m)
  case (Suc m)
  let ?e = "fold (\<lambda>k a. if bit (bt_keep x) k then a[n + k := byte_of (bt_data x) k] else a) [0..<m] acc"
  have e: "length ?e = length acc" "\<And>j. j < length acc \<Longrightarrow> ?e ! j =
      (if n \<le> j \<and> j < n + m \<and> bit (bt_keep x) (j - n) then byte_of (bt_data x) (j - n) else acc ! j)"
    using Suc by auto
  have "(if bit (bt_keep x) m then ?e[n + m := byte_of (bt_data x) m] else ?e) ! j =
      (if n \<le> j \<and> j < n + Suc m \<and> bit (bt_keep x) (j - n) then byte_of (bt_data x) (j - n) else acc ! j)"
    if "j < length acc" for j
    using that e by (cases "j = n + m") (auto simp: less_Suc_eq)
  then show ?case using e(1) by simp
qed auto

lemma put_bytes_take:
  assumes "packable x" and "n \<le> 7" and "length acc = 15"
  shows "take (n + keep_count (bt_keep x)) (put_bytes n x acc) = take n acc @ beat_bytes x" and "length (put_bytes n x acc) = 15"
proof -
  let ?c = "keep_count (bt_keep x)"
  have len: "length (put_bytes n x acc) = 15"
    and nth: "j < 15 \<Longrightarrow> put_bytes n x acc ! j =
      (if n \<le> j \<and> j < n + 8 \<and> bit (bt_keep x) (j - n) then byte_of (bt_data x) (j - n) else acc ! j)" for j
    using put_part [of 8 x n acc] assms by (simp_all add: put_bytes_def)
  show "length (put_bytes n x acc) = 15" by (rule len)
  have c: "?c \<le> 8" by (rule keep_count_le)
  show "take (n + ?c) (put_bytes n x acc) = take n acc @ beat_bytes x"
  proof (rule nth_equalityI)
    show "length (take (n + ?c) (put_bytes n x acc)) = length (take n acc @ beat_bytes x)"
      using len assms c by simp
    fix j assume "j < length (take (n + ?c) (put_bytes n x acc))"
    then have j: "j < n + ?c" "j < 15" using len by simp_all
    have "bit (bt_keep x) (j - n) \<longleftrightarrow> j - n < ?c" if "n \<le> j"
      using assms(1) c j that by (simp add: packable_def)
    then show "take (n + ?c) (put_bytes n x acc) ! j = (take n acc @ beat_bytes x) ! j"
      using j nth [OF j(2)] assms(2,3) c packable_bytes [OF assms(1)] by (auto simp: nth_append)
  qed
qed

section \<open>As a stage\<close>

definition packer_ok :: "packer \<Rightarrow> bool" where
  "packer_ok s \<longleftrightarrow> length (sp_acc s) = 15 \<and> sp_cnt s \<le> 15 \<and> (sp_last s \<longrightarrow> 0 < sp_cnt s)"

definition packer_held :: "packer \<Rightarrow> byte token list" where
  "packer_held s = map Some (take (sp_cnt s) (sp_acc s)) @ (if sp_last s then [None] else [])"

definition packer_contract :: "(packer, byte) contract" where
  "packer_contract = \<lparr>
     ct_inv = packer_ok,
     ct_pending = (\<lambda>s X. packer_held s @ X),
     ct_quiet = (\<lambda>s. \<not> packer_valid s),
     ct_effort = (\<lambda>s. if packer_valid s then if sp_last s \<and> 8 < sp_cnt s then 2 else 1 else 0),
     ct_weight = 2\<rparr>"

lemma packer_contract_simps [simp]:
  "ct_inv packer_contract = packer_ok" "ct_pending packer_contract s X = packer_held s @ X"
  "ct_quiet packer_contract s \<longleftrightarrow> \<not> packer_valid s" "ct_weight packer_contract = 2"
  "ct_effort packer_contract s = (if packer_valid s then if sp_last s \<and> 8 < sp_cnt s then 2 else 1 else 0)"
  by (simp_all add: packer_contract_def)

text \<open>A beat sent takes the first bytes of the accumulator, and the end of the frame with the last of them.\<close>

definition after_out :: "packer \<Rightarrow> bool \<Rightarrow> packer" where
  "after_out s r =
     (if packer_valid s \<and> r
      then \<lparr>sp_acc = drop 8 (sp_acc s) @ replicate 8 0, sp_cnt = sp_cnt s - 8, sp_last = sp_last s \<and> 8 < sp_cnt s\<rparr> else s)"

lemma after_out_ok: "packer_ok s \<Longrightarrow> packer_ok (after_out s r)"
  by (auto simp: packer_ok_def after_out_def)

lemma cnt_after_out: "cnt_after_out s r = sp_cnt (after_out s r)"
  by (auto simp: cnt_after_out_def after_out_def)

lemma offer_bytes:
  assumes "packer_ok s" and "packer_offer s = Some y"
  shows "beat_bytes y = take 8 (take (sp_cnt s) (sp_acc s))" and "full_beat y" and "bt_last y \<longleftrightarrow> sp_last s \<and> sp_cnt s \<le> 8"
proof -
  let ?n = "min (sp_cnt s) 8"
  have v: "packer_valid s" and y: "bt_data y = pack_bytes (take 8 (sp_acc s))" "bt_keep y = packer_keep (sp_cnt s)"
    and last: "bt_last y \<longleftrightarrow> sp_last s \<and> sp_cnt s \<le> 8"
    using assms(2) by (auto simp: packer_offer_def split: if_splits)
  have len: "length (take 8 (sp_acc s)) = 8" using assms(1) by (simp add: packer_ok_def)
  have "beat_bytes y = map (byte_of (pack_bytes (take 8 (sp_acc s)) :: u64)) [0..<?n]"
    by (simp add: beat_bytes_def y packer_keep_bits)
  also have "\<dots> = take ?n (sp_acc s)"
    by (rule nth_equalityI) (use len assms(1) in \<open>simp_all add: packer_ok_def byte_of_pack_bytes\<close>)
  also have "\<dots> = take 8 (take (sp_cnt s) (sp_acc s))" by (simp add: min.commute)
  finally show "beat_bytes y = take 8 (take (sp_cnt s) (sp_acc s))" .
  show "full_beat y"
    using v last by (auto simp: full_beat_def dense_def y packer_valid_def bit_packer_keep)
  show "bt_last y \<longleftrightarrow> sp_last s \<and> sp_cnt s \<le> 8" by (rule last)
qed

lemma held_after_out:
  assumes "packer_ok s"
  shows "packer_held s = concat (map beat_tokens (sent packer_stage s off r)) @ packer_held (after_out s r)"
proof (cases "packer_valid s \<and> r")
  case True
  then obtain y where y: "packer_offer s = Some y" by (auto simp: packer_offer_def)
  note b = offer_bytes [OF assms y]
  have "take (sp_cnt s - 8) (drop 8 (sp_acc s) @ replicate 8 0) = drop 8 (take (sp_cnt s) (sp_acc s))"
    using assms by (simp add: packer_ok_def drop_take)
  then have held: "packer_held (after_out s r) =
      map Some (drop 8 (take (sp_cnt s) (sp_acc s))) @ (if sp_last s \<and> 8 < sp_cnt s then [None] else [])"
    using True by (simp add: packer_held_def after_out_def)
  have sent: "concat (map beat_tokens (sent packer_stage s off r)) = beat_tokens y"
    using True y by (simp add: sent_def)
  have hs: "packer_held s = map Some (take (sp_cnt s) (sp_acc s)) @ (if sp_last s then [None] else [])"
    by (simp add: packer_held_def)
  have parts: "map Some (take (sp_cnt s) (sp_acc s)) =
      map Some (take 8 (take (sp_cnt s) (sp_acc s))) @ map Some (drop 8 (take (sp_cnt s) (sp_acc s)))"
    by (simp only: map_append [symmetric] append_take_drop_id)
  show ?thesis
  proof (cases "sp_last s \<and> sp_cnt s \<le> 8")
    case True
    then have "drop 8 (take (sp_cnt s) (sp_acc s)) = []" using assms by (simp add: packer_ok_def)
    then show ?thesis unfolding sent held beat_tokens_def b(1,3) hs parts using True by simp
  next
    case False
    then show ?thesis unfolding sent held beat_tokens_def b(1,3) hs parts by auto
  qed
next
  case False
  then show ?thesis by (auto simp: sent_def after_out_def packer_offer_def)
qed

lemma packer_edge_after:
  assumes "packer_ok s" and "pred_option packable off"
  shows "\<not> takes packer_stage s off r \<Longrightarrow> packer_edge False off r s = after_out s r"
    and "takes packer_stage s off r \<Longrightarrow> packer_ok (packer_edge False off r s) \<and>
      packer_held (packer_edge False off r s) = packer_held (after_out s r) @ beat_tokens (the off) \<and>
      sp_cnt (packer_edge False off r s) = sp_cnt (after_out s r) + keep_count (bt_keep (the off))"
proof -
  show "packer_edge False off r s = after_out s r" if "\<not> takes packer_stage s off r"
  proof -
    have "\<not> (off \<noteq> None \<and> packer_ready s r)" using that by (simp add: takes_def)
    then have e: "packer_edge False off r s =
        \<lparr>sp_acc = (if packer_valid s \<and> r then drop 8 (sp_acc s) @ replicate 8 0 else sp_acc s), sp_cnt = cnt_after_out s r,
         sp_last = (if (packer_valid s \<and> r) \<and> sp_last s \<and> sp_cnt s \<le> 8 then False else sp_last s)\<rparr>"
      by (simp only: packer_edge_def Let_def if_False if_cancel HOL.simp_thms)
    show ?thesis
      unfolding e cnt_after_out by (cases "packer_valid s \<and> r") (auto simp: after_out_def)
  qed
  assume t: "takes packer_stage s off r"
  then obtain x where x: "off = Some x" and ready: "packer_ready s r" by (auto simp: takes_def)
  let ?a = "after_out s r"
  have a: "packer_ok ?a" by (rule after_out_ok [OF assms(1)])
  have n: "sp_cnt ?a \<le> 7" "\<not> sp_last s" using ready by (simp_all add: packer_ready_def cnt_after_out)
  have l: "\<not> sp_last ?a" using n(2) by (simp add: after_out_def)
  have p: "packable x" using assms(2) x by simp
  have c: "keep_count (bt_keep x) \<le> 8" by (rule keep_count_le)
  have e: "packer_edge False off r s =
      \<lparr>sp_acc = put_bytes (sp_cnt ?a) x (sp_acc ?a), sp_cnt = sp_cnt ?a + keep_count (bt_keep x), sp_last = bt_last x\<rparr>"
    using ready n c unfolding x
    by (simp add: packer_edge_def Let_def cnt_after_out) (simp add: after_out_def)
  have len: "length (sp_acc ?a) = 15" using a by (simp add: packer_ok_def)
  show "packer_ok (packer_edge False off r s) \<and>
      packer_held (packer_edge False off r s) = packer_held ?a @ beat_tokens (the off) \<and>
      sp_cnt (packer_edge False off r s) = sp_cnt ?a + keep_count (bt_keep (the off))"
    unfolding e using put_bytes_take [OF p n(1) len] n c p l
    by (simp add: packer_ok_def packer_held_def beat_tokens_def x packable_def)
qed

interpretation packer: stream_stage packer_stage packer_contract packable beat_tokens full_beat beat_tokens
proof
  show "ct_inv packer_contract (st_init packer_stage)" by (simp add: packer_ok_def packer_reset_def)
next
  fix s and off :: "mg_beat option" and r and X :: "byte token list"
  assume "ct_inv packer_contract s" and off: "pred_option packable off"
  then have s: "packer_ok s" by simp
  note no = packer_edge_after(1) [OF s off] and yes = packer_edge_after(2) [OF s off]
  have handed: "handed packer_stage s off r = (if takes packer_stage s off r then [the off] else [])"
    by (cases off) (auto simp: handed_def takes_def)
  show "ct_inv packer_contract (st_step packer_stage s off r)"
    using no [of r] yes [of r] after_out_ok [OF s] by (cases "takes packer_stage s off r") simp_all
  show "pred_option full_beat (st_offer packer_stage s off)"
    using offer_bytes(2) [OF s] by (cases "packer_offer s") simp_all
  show "ct_pending packer_contract s (concat (map beat_tokens (handed packer_stage s off r)) @ X) =
      concat (map beat_tokens (sent packer_stage s off r)) @ ct_pending packer_contract (st_step packer_stage s off r) X"
    using no [of r] yes [of r] held_after_out [OF s, of off r]
    by (cases "takes packer_stage s off r") (simp_all add: handed)
  show "ct_effort packer_contract (st_step packer_stage s off r) \<le> ct_effort packer_contract s" if t: "\<not> takes packer_stage s off r"
    by (simp add: no [OF t]) (auto simp: after_out_def packer_valid_def)
  show "ct_effort packer_contract (st_step packer_stage s off r) < ct_effort packer_contract s \<or> off = None \<and> ct_quiet packer_contract s"
    if t: "\<not> takes packer_stage s off r" and r: "r \<or> st_offer packer_stage s off = None"
    using t r s unfolding packer_stage_simps no [OF t]
    by (auto simp: after_out_def packer_valid_def packer_offer_def takes_def packer_ready_def cnt_after_out_def packer_ok_def
        split: if_splits)
  show "ct_effort packer_contract (st_step packer_stage s off r) \<le> ct_effort packer_contract s + ct_weight packer_contract"
    by simp
next
  fix s r and X :: "byte token list"
  assume "ct_inv packer_contract s" and "ct_quiet packer_contract s"
  then have s: "packer_ok s" and q: "\<not> packer_valid s" by simp_all
  show "st_offer packer_stage s None = None" using q by (simp add: packer_offer_def)
  show "ct_quiet packer_contract (st_step packer_stage s None r)"
    using q packer_edge_after(1) [OF s, of None r] by (simp add: takes_def after_out_def)
  show "None \<notin> set (ct_pending packer_contract s X)" if "None \<notin> set X"
    using that q s by (auto simp: packer_held_def packer_valid_def packer_ok_def)
qed

end
