(* ===== verification/Block_Trailer.thy ===== *)
theory Block_Trailer
  imports Stream_Packer
begin

text \<open>
  \<^verbatim>\<open>block_trailer_appender_w64\<close> and its \<^verbatim>\<open>crc32c_8byte_streamer\<close> of \<^verbatim>\<open>organized/rtl_v2/cmpct_infra.v\<close>: a block passes
  through while its CRC32C is computed, and the five bytes of LevelDB's block trailer follow it, the
  compression type 0 and the masked checksum of the block with this type.
\<close>

section \<open>The checksum\<close>

definition crc_shift :: "u32 \<Rightarrow> u32" where
  "crc_shift c = (if bit c 0 then drop_bit 1 c XOR 0x82F63B78 else drop_bit 1 c)"

definition crc32c_byte_f :: "u32 \<Rightarrow> byte \<Rightarrow> u32" where
  "crc32c_byte_f crc b = (crc_shift ^^ 8) (crc XOR ucast b)"

text \<open>The chain of eight stages, one for each byte that is kept.\<close>

definition crc_word :: "mg_beat \<Rightarrow> u32 \<Rightarrow> u32" where
  "crc_word x crc =
     fold (\<lambda>k c. if bit (bt_keep x) k then crc32c_byte_f c (byte_of (bt_data x) k) else c) [0..<8] crc"

definition crc_masked :: "u32 \<Rightarrow> u32" where
  "crc_masked crc_r =
     (let crc_raw = crc_r XOR 0xFFFFFFFF in (push_bit 17 crc_raw OR drop_bit 15 crc_raw) + 0xa282ead8)"

text \<open>What LevelDB writes behind a block.\<close>

definition crc_bytes :: "byte list \<Rightarrow> u32 \<Rightarrow> u32" where
  "crc_bytes bs crc = fold (\<lambda>b c. crc32c_byte_f c b) bs crc"

definition trailer_of :: "byte list \<Rightarrow> byte list" where
  "trailer_of d = 0 # le32 (crc_masked (crc_bytes (d @ [0]) 0xFFFFFFFF))"

lemma crc_word_bytes: "crc_word x crc = crc_bytes (beat_bytes x) crc"
proof -
  have "fold (\<lambda>k c. if bit (bt_keep x) k then crc32c_byte_f c (byte_of (bt_data x) k) else c) ks crc =
      crc_bytes (map (byte_of (bt_data x)) (filter (bit (bt_keep x)) ks)) crc" for ks
    by (induction ks arbitrary: crc) (simp_all add: crc_bytes_def)
  then show ?thesis by (simp add: crc_word_def beat_bytes_def)
qed

lemma crc_bytes_append: "crc_bytes (xs @ ys) crc = crc_bytes ys (crc_bytes xs crc)"
  by (simp add: crc_bytes_def)

lemma crc_byte_unfold:
  "crc32c_byte_f crc b =
   crc_shift (crc_shift (crc_shift (crc_shift (crc_shift (crc_shift (crc_shift (crc_shift (crc XOR ucast b))))))))"
proof -
  have eight: "8 = Suc (Suc (Suc (Suc (Suc (Suc (Suc (Suc 0)))))))" by simp
  show ?thesis unfolding crc32c_byte_f_def eight by simp
qed

text \<open>The test vector of the definition of CRC32C: the digits 1 to 9.\<close>

lemma crc_check_bytes:
  "crc32c_byte_f 0xFFFFFFFF 0x31 = 0x6F0A661C"
  "crc32c_byte_f 0x6F0A661C 0x32 = 0x8CAA3B9F"
  "crc32c_byte_f 0x8CAA3B9F 0x33 = 0xEF84D04D"
  "crc32c_byte_f 0xEF84D04D 0x34 = 0x09C50B11"
  "crc32c_byte_f 0x09C50B11 0x35 = 0xE72EDCCA"
  "crc32c_byte_f 0xE72EDCCA 0x36 = 0xBECA8E79"
  "crc32c_byte_f 0xBECA8E79 0x37 = 0xEDBD6815"
  "crc32c_byte_f 0xEDBD6815 0x38 = 0x9F787F65"
  "crc32c_byte_f 0x9F787F65 0x39 = 0x1CF96D7C"
  by (simp_all add: crc_byte_unfold crc_shift_def)

lemma crc32c_check: "crc_bytes [0x31, 0x32, 0x33, 0x34, 0x35, 0x36, 0x37, 0x38, 0x39] 0xFFFFFFFF XOR 0xFFFFFFFF = 0xE3069283"
  by (simp add: crc_bytes_def crc_check_bytes)

section \<open>The appender\<close>

datatype tr_state = Tr_Idle | Tr_Pass | Tr_Crc_Type | Tr_Trail

record trailer =
  tr_state :: tr_state
  tr_crc :: u32

definition trailer_reset :: trailer where
  "trailer_reset = \<lparr>tr_state = Tr_Idle, tr_crc = 0xFFFFFFFF\<rparr>"

definition trailer_ready :: "trailer \<Rightarrow> bool \<Rightarrow> bool" where
  "trailer_ready s r \<longleftrightarrow> tr_state s = Tr_Pass \<and> r"

definition trailer_word :: "trailer \<Rightarrow> mg_beat" where
  "trailer_word s = \<lparr>bt_data = push_bit 8 (ucast (crc_masked (tr_crc s))), bt_keep = 0b00011111, bt_last = True\<rparr>"

definition trailer_offer :: "trailer \<Rightarrow> mg_beat option \<Rightarrow> mg_beat option" where
  "trailer_offer s off =
     (case tr_state s of
        Tr_Pass \<Rightarrow> map_option (\<lambda>x. x\<lparr>bt_last := False\<rparr>) off
      | Tr_Trail \<Rightarrow> Some (trailer_word s)
      | _ \<Rightarrow> None)"

definition type_word :: mg_beat where
  "type_word = \<lparr>bt_data = 0, bt_keep = 0b00000001, bt_last = False\<rparr>"

definition trailer_edge :: "bool \<Rightarrow> mg_beat option \<Rightarrow> bool \<Rightarrow> trailer \<Rightarrow> trailer" where
  "trailer_edge rst off r s =
     (if rst then trailer_reset
      else \<lparr>
        tr_state =
          (case tr_state s of
             Tr_Idle \<Rightarrow> if off \<noteq> None then Tr_Pass else Tr_Idle
           | Tr_Pass \<Rightarrow> if off \<noteq> None \<and> r \<and> bt_last (the off) then Tr_Crc_Type else Tr_Pass
           | Tr_Crc_Type \<Rightarrow> Tr_Trail
           | Tr_Trail \<Rightarrow> if r then Tr_Idle else Tr_Trail),
        tr_crc =
          (if tr_state s = Tr_Idle then 0xFFFFFFFF
           else if tr_state s = Tr_Pass \<and> off \<noteq> None \<and> r \<or> tr_state s = Tr_Crc_Type
           then crc_word (if tr_state s = Tr_Crc_Type then type_word else the off) (tr_crc s)
           else tr_crc s)\<rparr>)"

definition trailer_stage :: "(trailer, mg_beat, mg_beat) stage" where
  "trailer_stage = \<lparr>st_init = trailer_reset, st_ready = trailer_ready, st_offer = trailer_offer,
     st_step = (\<lambda>s off r. trailer_edge False off r s)\<rparr>"

lemma trailer_stage_simps [simp]:
  "st_init trailer_stage = trailer_reset" "st_ready trailer_stage = trailer_ready"
  "st_offer trailer_stage = trailer_offer" "st_step trailer_stage s off r = trailer_edge False off r s"
  by (simp_all add: trailer_stage_def)

section \<open>What it does to a stream\<close>

fun append_trailers :: "u32 \<Rightarrow> byte token list \<Rightarrow> byte token list" where
  "append_trailers c [] = []"
| "append_trailers c (Some b # ts) = Some b # append_trailers (crc32c_byte_f c b) ts"
| "append_trailers c (None # ts) =
     map Some (0 # le32 (crc_masked (crc32c_byte_f c 0))) @ None # append_trailers 0xFFFFFFFF ts"

lemma append_trailers_bytes: "append_trailers c (map Some bs @ ts) = map Some bs @ append_trailers (crc_bytes bs c) ts"
  by (induction bs arbitrary: c) (simp_all add: crc_bytes_def)

lemma append_trailers_open: "None \<notin> set ts \<Longrightarrow> None \<notin> set (append_trailers c ts)"
proof (induction ts arbitrary: c)
  case (Cons t ts)
  then show ?case by (cases t) simp_all
qed simp

text \<open>For whole blocks: each block, its trailer, the end of the frame.\<close>

lemma append_trailers_blocks:
  "append_trailers 0xFFFFFFFF (concat (map (\<lambda>d. map Some d @ [None]) ds)) =
   concat (map (\<lambda>d. map Some (d @ trailer_of d) @ [None]) ds)"
  by (induction ds) (simp_all add: append_trailers_bytes trailer_of_def crc_bytes_append, simp_all add: crc_bytes_def)

definition trailer_contract :: "(trailer, byte) contract" where
  "trailer_contract = \<lparr>
     ct_inv = (\<lambda>s. True),
     ct_pending = (\<lambda>s X.
       case tr_state s of
         Tr_Idle \<Rightarrow> append_trailers 0xFFFFFFFF X
       | Tr_Pass \<Rightarrow> append_trailers (tr_crc s) X
       | Tr_Crc_Type \<Rightarrow> map Some (0 # le32 (crc_masked (crc32c_byte_f (tr_crc s) 0))) @ None # append_trailers 0xFFFFFFFF X
       | Tr_Trail \<Rightarrow> map Some (0 # le32 (crc_masked (tr_crc s))) @ None # append_trailers 0xFFFFFFFF X),
     ct_quiet = (\<lambda>s. tr_state s = Tr_Idle \<or> tr_state s = Tr_Pass),
     ct_effort = (\<lambda>s. case tr_state s of Tr_Idle \<Rightarrow> 1 | Tr_Pass \<Rightarrow> 0 | Tr_Crc_Type \<Rightarrow> 3 | Tr_Trail \<Rightarrow> 2),
     ct_weight = 3\<rparr>"

lemma le32_byte_of: "le32 w = map (byte_of w) [0..<4]"
proof (rule nth_equalityI)
  fix j assume "j < length (le32 w)"
  then have j: "j < 4" by simp
  have nth: "j < n \<Longrightarrow> le_bytes n v ! j = of_nat (v div 256 ^ j)" for n v j
  proof (induction n arbitrary: v j)
    case (Suc n)
    then show ?case by (cases j) (simp_all add: div_mult2_eq)
  qed simp
  have "byte_of w j = of_nat (unat (drop_bit (8 * j) w))" by (simp add: byte_of_def of_nat_unat)
  also have "unat (drop_bit (8 * j) w) = unat w div 2 ^ (8 * j)"
    by (simp only: unat_drop_bit_eq) (simp add: drop_bit_eq_div)
  also have "(2 :: nat) ^ (8 * j) = 256 ^ j" by (simp add: power_mult)
  finally show "le32 w ! j = map (byte_of w) [0..<4] ! j" using j by (simp add: le32_def nth)
qed simp

lemma byte_of_shifted:
  "byte_of (push_bit 8 (ucast (m :: u32)) :: u64) 0 = 0"
  "k < 4 \<Longrightarrow> byte_of (push_bit 8 (ucast (m :: u32)) :: u64) (Suc k) = byte_of m k"
proof -
  show "byte_of (push_bit 8 (ucast m) :: u64) 0 = 0"
    by (rule bit_word_eqI) (simp add: bit_byte_of bit_push_bit_iff)
  assume k: "k < 4"
  show "byte_of (push_bit 8 (ucast m) :: u64) (Suc k) = byte_of m k"
  proof (rule bit_word_eqI)
    fix n assume "n < LENGTH(8)"
    then have n: "n < 8" by simp
    then show "bit (byte_of (push_bit 8 (ucast m) :: u64) (Suc k)) n = bit (byte_of m k) n"
      using k unfolding byte_of_def by (simp add: bit_ucast_iff bit_drop_bit_eq bit_push_bit_iff)
  qed
qed

lemma trailer_word_bytes: "beat_bytes (trailer_word s) = 0 # le32 (crc_masked (tr_crc s))"
proof -
  have keep: "filter (bit (0b00011111 :: byte)) [0..<8] = 0 # map Suc [0..<4]"
    by (simp add: upt_conv_Cons bit_simps)
  show ?thesis
    by (simp only: beat_bytes_def trailer_word_def mg_beat.simps keep le32_byte_of)
      (simp add: byte_of_shifted)
qed

lemma trailer_word_tokens: "beat_tokens (trailer_word s) = map Some (0 # le32 (crc_masked (tr_crc s))) @ [None]"
  by (simp add: beat_tokens_def trailer_word_bytes) (simp add: trailer_word_def)

lemma trailer_word_packable: "packable (trailer_word s)"
proof -
  have keep: "filter (bit (0b00011111 :: byte)) [0..<8] = [0..<5]"
    by (simp add: upt_conv_Cons bit_simps)
  then have c: "keep_count (0b00011111 :: byte) = 5" by (simp add: keep_count_def)
  have "bit (0b00011111 :: byte) k \<longleftrightarrow> k < 5" if "k < 8" for k
  proof -
    have "bit (0b00011111 :: byte) k \<longleftrightarrow> k \<in> set (filter (bit (0b00011111 :: byte)) [0..<8])" using that by simp
    then show ?thesis unfolding keep by simp
  qed
  then show ?thesis using c by (simp add: packable_def trailer_word_def)
qed

lemma type_word_crc: "crc_word type_word c = crc32c_byte_f c 0"
proof -
  have "filter (bit (0b00000001 :: byte)) [0..<8] = [0]" by (simp add: upt_conv_Cons bit_simps)
  then show ?thesis by (simp add: crc_word_bytes beat_bytes_def type_word_def crc_bytes_def byte_of_def)
qed

lemma passed_tokens: "beat_tokens (x\<lparr>bt_last := False\<rparr>) = map Some (beat_bytes x)"
  by (simp add: beat_tokens_def beat_bytes_def)

lemma passed_packable: "packable x \<Longrightarrow> packable (x\<lparr>bt_last := False\<rparr>)"
  by (simp add: packable_def)

interpretation appender: stream_stage trailer_stage trailer_contract full_beat beat_tokens packable beat_tokens
proof
  show "ct_inv trailer_contract (st_init trailer_stage)" by (simp add: trailer_contract_def)
next
  fix s and off :: "mg_beat option" and r and X :: "byte token list"
  assume off: "pred_option full_beat off"
  show "ct_inv trailer_contract (st_step trailer_stage s off r)" by (simp add: trailer_contract_def)
  show "pred_option packable (st_offer trailer_stage s off)"
    using off by (cases "tr_state s"; cases off)
      (simp_all add: trailer_offer_def trailer_word_packable passed_packable full_packable)
  show "ct_pending trailer_contract s (concat (map beat_tokens (handed trailer_stage s off r)) @ X) =
      concat (map beat_tokens (sent trailer_stage s off r)) @ ct_pending trailer_contract (st_step trailer_stage s off r) X"
  proof (cases "tr_state s")
    case Tr_Idle
    then show ?thesis
      by (cases off) (simp_all add: handed_def sent_def trailer_ready_def trailer_offer_def trailer_contract_def trailer_edge_def)
  next
    case Tr_Pass
    show ?thesis
    proof (cases "off \<noteq> None \<and> r")
      case True
      then obtain x where x: "off = Some x" by auto
      have h: "handed trailer_stage s off r = [x]" using True x Tr_Pass by (simp add: handed_def trailer_ready_def)
      have t: "sent trailer_stage s off r = [x\<lparr>bt_last := False\<rparr>]" using True x Tr_Pass by (simp add: sent_def trailer_offer_def)
      have e: "trailer_edge False off r s =
          \<lparr>tr_state = (if bt_last x then Tr_Crc_Type else Tr_Pass), tr_crc = crc_bytes (beat_bytes x) (tr_crc s)\<rparr>"
        using True Tr_Pass x by (simp add: trailer_edge_def crc_word_bytes)
      show ?thesis
        unfolding h t trailer_stage_simps e
        using Tr_Pass by (simp add: trailer_contract_def passed_tokens) (simp add: beat_tokens_def append_trailers_bytes)
    next
      case False
      then show ?thesis
        using Tr_Pass by (cases off)
          (auto simp: handed_def sent_def trailer_ready_def trailer_offer_def trailer_contract_def trailer_edge_def)
    qed
  next
    case Tr_Crc_Type
    then show ?thesis
      by (cases off)
        (simp_all add: handed_def sent_def trailer_ready_def trailer_offer_def trailer_contract_def trailer_edge_def type_word_crc)
  next
    case Tr_Trail
    then show ?thesis
      by (cases off; cases r)
        (simp_all add: handed_def sent_def trailer_ready_def trailer_offer_def trailer_contract_def trailer_edge_def trailer_word_tokens)
  qed
  show "ct_effort trailer_contract (st_step trailer_stage s off r) \<le> ct_effort trailer_contract s" if "\<not> takes trailer_stage s off r"
    using that by (cases "tr_state s") (auto simp: trailer_contract_def trailer_edge_def takes_def trailer_ready_def)
  show "ct_effort trailer_contract (st_step trailer_stage s off r) < ct_effort trailer_contract s \<or>
      off = None \<and> ct_quiet trailer_contract s"
    if "\<not> takes trailer_stage s off r" "r \<or> st_offer trailer_stage s off = None"
    using that by (cases "tr_state s")
      (auto simp: trailer_contract_def trailer_edge_def takes_def trailer_ready_def trailer_offer_def)
  show "ct_effort trailer_contract (st_step trailer_stage s off r) \<le> ct_effort trailer_contract s + ct_weight trailer_contract"
    by (simp add: trailer_contract_def split: tr_state.split)
next
  fix s r and X :: "byte token list"
  assume q: "ct_quiet trailer_contract s"
  show "st_offer trailer_stage s None = None"
    using q by (auto simp: trailer_contract_def trailer_offer_def)
  show "ct_quiet trailer_contract (st_step trailer_stage s None r)"
    using q by (auto simp: trailer_contract_def trailer_edge_def)
  show "None \<notin> set (ct_pending trailer_contract s X)" if "None \<notin> set X"
    using that q by (auto simp: trailer_contract_def append_trailers_open)
qed

end
