(* ===== verification/Encoder_Spec.thy ===== *)
theory Encoder_Spec
  imports Encoder_Rtl Block_Trailer
begin

text \<open>
  What the encoder writes, as a function of its records: the block of the table format with a restart every 16
  entries, in which a key is what the key buffer returns for it. For keys that fit the buffer this is the block the
  fixture builder encodes. Also the bytes of the words it emits.
\<close>

section \<open>The block\<close>

text \<open>A key as it is read from a buffer of 64 bytes; \<open>x\<close> is what a read outside it returns.\<close>

definition seen :: "byte \<Rightarrow> byte list \<Rightarrow> byte list" where
  "seen x k = take 64 k @ replicate (length k - 64) x"

type_synonym block_so_far = "nat \<times> byte list \<times> byte list \<times> u32 list"

definition entry_out :: "byte \<Rightarrow> nat \<Rightarrow> entry \<Rightarrow> byte list" where
  "entry_out x shared r =
     varint (of_nat shared) @ varint (of_nat (length (fst r) - shared)) @ varint (of_nat (length (snd r))) @
     drop shared (seen x (fst r)) @ snd r"

definition shared_of :: "nat \<Rightarrow> byte list \<Rightarrow> byte list \<Rightarrow> nat" where
  "shared_of n prev k = (if n mod 16 = 0 then 0 else shared_len prev k)"

definition block_step :: "byte \<Rightarrow> entry \<Rightarrow> block_so_far \<Rightarrow> block_so_far" where
  "block_step x r = (\<lambda>(n, prev, buf, restarts).
     (Suc n, seen x (fst r), buf @ entry_out x (shared_of n prev (fst r)) r,
      if n mod 16 = 0 then restarts @ [of_nat (length buf)] else restarts))"

definition block_acc :: "byte \<Rightarrow> entry list \<Rightarrow> block_so_far" where
  "block_acc x rs = fold (block_step x) rs (0, [], [], [])"

definition last_seen :: "byte \<Rightarrow> entry list \<Rightarrow> byte list" where
  "last_seen x rs = (if rs = [] then [] else seen x (fst (last rs)))"

definition entries_of :: "byte \<Rightarrow> entry list \<Rightarrow> byte list" where
  "entries_of x rs = fst (snd (snd (block_acc x rs)))"

text \<open>The encoder enters a restart point before it sees the first record.\<close>

definition restarts_of :: "byte \<Rightarrow> entry list \<Rightarrow> u32 list" where
  "restarts_of x rs = (if rs = [] then [0] else snd (snd (snd (block_acc x rs))))"

definition enc_block :: "byte \<Rightarrow> entry list \<Rightarrow> byte list" where
  "enc_block x rs = entries_of x rs @ concat (map le32 (restarts_of x rs)) @ le32 (of_nat (length (restarts_of x rs)))"

lemma block_acc_snoc: "block_acc x (rs @ [r]) = block_step x r (block_acc x rs)"
  by (simp add: block_acc_def)

lemma block_acc_parts: "fst (block_acc x rs) = length rs \<and> fst (snd (block_acc x rs)) = last_seen x rs"
proof (induction rs rule: rev_induct)
  case Nil
  then show ?case by (simp add: block_acc_def last_seen_def)
next
  case (snoc r rs)
  then show ?case by (auto simp: block_acc_snoc block_step_def last_seen_def split: prod.splits)
qed

lemma entries_snoc:
  "entries_of x (rs @ [r]) = entries_of x rs @ entry_out x (shared_of (length rs) (last_seen x rs) (fst r)) r"
  using block_acc_parts [of x rs] by (auto simp: entries_of_def block_acc_snoc block_step_def split: prod.splits)

lemma entries_Nil [simp]: "entries_of x [] = []"
  by (simp add: entries_of_def block_acc_def)

lemma restarts_snoc:
  "restarts_of x (rs @ [r]) =
    (if rs \<noteq> [] \<and> length rs mod 16 = 0 then restarts_of x rs @ [of_nat (length (entries_of x rs))] else restarts_of x rs)"
proof (cases "rs = []")
  case True
  then show ?thesis by (simp add: restarts_of_def block_acc_def block_step_def)
next
  case False
  then show ?thesis
    using block_acc_parts [of x rs] by (auto simp: restarts_of_def entries_of_def block_acc_snoc block_step_def split: prod.splits)
qed

lemma restarts_Nil [simp]: "restarts_of x [] = [0]"
  by (simp add: restarts_of_def)

lemma length_varint_pos: "0 < length (varint v)"
  by simp

lemma entry_length: "3 \<le> length (entry_out x sh r)"
  using length_varint_pos [of "of_nat sh"] length_varint_pos [of "of_nat (length (fst r) - sh)"]
    length_varint_pos [of "of_nat (length (snd r))"]
  unfolding entry_out_def length_append by linarith

lemma entries_length: "3 * length rs \<le> length (entries_of x rs)"
proof (induction rs rule: rev_induct)
  case (snoc r rs)
  then show ?case using entry_length [of x "shared_of (length rs) (last_seen x rs) (fst r)" r] by (simp add: entries_snoc)
qed simp

lemma entries_prefix: "length (entries_of x ds) \<le> length (entries_of x (ds @ es))"
proof (induction es rule: rev_induct)
  case (snoc e es)
  then show ?case unfolding append_assoc [symmetric] entries_snoc by simp
qed simp

lemma restarts_length: "0 < length (restarts_of x rs) \<and> 16 * length (restarts_of x rs) \<le> length rs + 16"
proof -
  have "16 * length (restarts_of x rs) \<le> length rs + 15" if "rs \<noteq> []"
    using that
  proof (induction rs rule: rev_induct)
    case (snoc r rs)
    show ?case
    proof (cases "rs = []")
      case False
      then have ih: "16 * length (restarts_of x rs) \<le> length rs + 15" using snoc.IH by blast
      show ?thesis
      proof (cases "length rs mod 16 = 0")
        case True
        then obtain q where q: "length rs = 16 * q" by (auto simp: dvd_eq_mod_eq_0 [symmetric])
        then have "length (restarts_of x rs) \<le> q" using ih by linarith
        then show ?thesis using False True q by (simp add: restarts_snoc)
      next
        case False
        then show ?thesis using ih by (simp add: restarts_snoc)
      qed
    qed (use restarts_snoc [of x "[]" r] in simp)
  qed simp
  moreover have "0 < length (restarts_of x rs)"
    by (induction rs rule: rev_induct) (simp_all add: restarts_snoc)
  ultimately show ?thesis by (cases "rs = []") force+
qed

text \<open>For keys that fit the buffer.\<close>

lemma seen_short: "length k \<le> 64 \<Longrightarrow> seen x k = k"
  by (simp add: seen_def)

lemma length_seen [simp]: "length (seen x k) = length k"
  by (simp add: seen_def)

lemma block_acc_encode:
  assumes "\<forall>r\<in>set rs. length (fst r) \<le> 64"
  shows "encode_entries 16 n prev rs buf restarts = snd (snd (fold (block_step x) rs (n, prev, buf, restarts)))"
  using assms
proof (induction rs arbitrary: n prev buf restarts)
  case (Cons r rs)
  have k: "seen x (fst r) = fst r" using Cons.prems by (simp add: seen_short)
  have "encode_entries 16 n prev (r # rs) buf restarts = encode_entries 16 (Suc n) (fst r) rs
      (buf @ entry_out x (shared_of n prev (fst r)) r) (if n mod 16 = 0 then restarts @ [of_nat (length buf)] else restarts)"
    by (cases r) (use k in \<open>simp add: entry_out_def shared_of_def\<close>)
  moreover have "block_step x r (n, prev, buf, restarts) = (Suc n, fst r,
      buf @ entry_out x (shared_of n prev (fst r)) r, if n mod 16 = 0 then restarts @ [of_nat (length buf)] else restarts)"
    by (simp only: block_step_def prod.case k)
  ultimately show ?case using Cons.IH Cons.prems by simp
qed simp

theorem enc_block_encode:
  assumes "rs \<noteq> []" and "\<forall>r\<in>set rs. length (fst r) \<le> 64"
  shows "enc_block x rs = encode_block rs 16"
proof -
  have "encode_entries 16 0 [] rs [] [] = snd (snd (block_acc x rs))"
    unfolding block_acc_def by (rule block_acc_encode [OF assms(2)])
  then show ?thesis using assms(1) by (simp add: enc_block_def encode_block_def entries_of_def restarts_of_def case_prod_beta)
qed

section \<open>Varints\<close>

lemma varint_small: "n < 128 \<Longrightarrow> varint (of_nat n) = [of_nat n]"
proof -
  assume n: "n < 128"
  then have u: "unat (of_nat n :: u64) = n" by (simp add: unat_of_nat)
  then have "unat (drop_bit 7 (of_nat n :: u64)) = 0" using n by (simp add: unat_drop7)
  then have d: "drop_bit 7 (of_nat n :: u64) = 0" by (metis unat_eq_zero)
  have "(of_nat n :: u64) AND 0x7F = take_bit 7 (of_nat n)" by (simp add: take_bit_eq_mask mask_eq_exp_minus_1)
  then have "unat ((of_nat n :: u64) AND 0x7F) = n" using u n by (simp add: unsigned_take_bit_eq take_bit_nat_eq_self)
  then have "ucast ((of_nat n :: u64) AND 0x7F) = (of_nat n :: byte)" by (metis of_nat_unat)
  then show ?thesis using d by (subst varint.simps) (simp add: Let_def)
qed

lemma varint32_pack_varint:
  assumes "v < 16384"
  shows "varint32_pack v = varint (ucast v)" and "varint32_len v = length (varint (ucast v))"
proof -
  have low: "ucast (ucast v AND 0x7F :: u64) = (ucast (v AND 0x7F) :: byte)"
    by (rule bit_word_eqI) (auto simp: bit_simps)
  have drop: "drop_bit 7 (ucast v :: u64) = ucast (drop_bit 7 v)"
    by (rule bit_word_eqI) (auto simp: bit_simps dest: bit_imp_le_length)
  have inj: "(ucast (w :: u32) :: u64) = 0 \<longleftrightarrow> w = 0" for w
  proof -
    have "unat w < 2 ^ 64" using unat_below_exp [of w] by simp
    then have "unat (ucast w :: u64) = unat w" by (simp add: unsigned_ucast_eq take_bit_nat_eq_self)
    then show ?thesis by (metis unat_eq_zero)
  qed
  have v: "unat v < 16384" using assms by (simp add: word_less_nat_alt)
  have d: "unat (drop_bit 7 v) = unat v div 128" by (simp only: unat_drop_bit_eq) (simp add: drop_bit_eq_div)
  show "varint32_pack v = varint (ucast v)" "varint32_len v = length (varint (ucast v))"
  proof -
    have "varint32_pack v = varint (ucast v) \<and> varint32_len v = length (varint (ucast v))"
    proof (cases "v < 128")
      case True
      then have "drop_bit 7 v = 0" using d by (simp add: word_less_nat_alt unat_eq_zero [symmetric] del: unat_eq_zero)
      then show ?thesis using True by (subst (1 2) varint.simps) (simp add: Let_def varint32_pack_def varint32_len_def drop low)
    next
      case False
      then have ne: "drop_bit 7 v \<noteq> 0" using d by (auto simp: word_less_nat_alt unat_eq_zero [symmetric] simp del: unat_eq_zero)
      have lt: "unat (drop_bit 7 v) < 128" using d v by simp
      then have and7: "drop_bit 7 v AND 0x7F = drop_bit 7 v"
      proof -
        have "drop_bit 7 v AND 0x7F = take_bit 7 (drop_bit 7 v)" by (simp add: take_bit_eq_mask mask_eq_exp_minus_1)
        moreover have "unat (take_bit 7 (drop_bit 7 v)) = unat (drop_bit 7 v)"
          unfolding unsigned_take_bit_eq by (rule take_bit_nat_eq_self) (use lt in simp)
        ultimately show ?thesis by (simp add: word_unat_eq_iff)
      qed
      have "varint (ucast (drop_bit 7 v)) = [ucast (drop_bit 7 v)]"
        using varint_small [OF lt] by (simp add: of_nat_unat)
      then have "varint (ucast v) = [ucast (v AND 0x7F) OR 0x80, ucast (drop_bit 7 v)]"
        using ne by (subst varint.simps) (simp add: Let_def drop low inj)
      then show ?thesis using False assms and7 by (simp add: varint32_pack_def varint32_len_def Let_def)
    qed
    then show "varint32_pack v = varint (ucast v)" "varint32_len v = length (varint (ucast v))" by blast+
  qed
qed

section \<open>Bytes of the emitted words\<close>

definition beat_with :: "u64 \<Rightarrow> byte \<Rightarrow> bool \<Rightarrow> mg_beat" where
  "beat_with d k l = \<lparr>bt_data = d, bt_keep = k, bt_last = l\<rparr>"

lemma packed_beat:
  assumes "0 < n" and "n \<le> 8" and "n \<le> length xs"
  shows "beat_bytes (beat_with (pack_bytes xs) (packer_keep n) l) = take n xs" and "packable (beat_with (pack_bytes xs) (packer_keep n) l)"
proof -
  have "beat_bytes (beat_with (pack_bytes xs) (packer_keep n) l) = map (byte_of (pack_bytes xs :: u64)) [0..<n]"
    using assms(2) by (simp add: beat_bytes_def beat_with_def packer_keep_bits)
  also have "\<dots> = take n xs"
    by (rule nth_equalityI) (use assms in \<open>simp_all add: byte_of_pack_bytes\<close>)
  finally show "beat_bytes (beat_with (pack_bytes xs) (packer_keep n) l) = take n xs" .
  show "packable (beat_with (pack_bytes xs) (packer_keep n) l)"
    using assms by (simp add: packable_def beat_with_def bit_packer_keep)
qed

lemma p13_keep: "0 < n \<Longrightarrow> p13_keep_lo n = packer_keep n"
  by (auto simp: p13_keep_lo_def packer_keep_def)

lemma key_keep: "0 < n \<Longrightarrow> n \<le> 8 \<Longrightarrow> key_emit_keep n = packer_keep n"
  by (auto simp: key_emit_keep_def packer_keep_def)

lemma byte_of_ucast32: "k < 4 \<Longrightarrow> byte_of (ucast (w :: u32) :: u64) k = byte_of w k"
  by (rule bit_word_eqI) (auto simp: byte_of_def bit_simps)

lemma byte_of_pair:
  "k < 4 \<Longrightarrow> byte_of (push_bit 32 (ucast (b :: u32)) OR ucast (a :: u32) :: u64) k = byte_of a k"
  "k < 4 \<Longrightarrow> byte_of (push_bit 32 (ucast (b :: u32)) OR ucast (a :: u32) :: u64) (4 + k) = byte_of b k"
  by (rule bit_word_eqI; auto simp: byte_of_def bit_simps dest: bit_imp_le_length)+

lemma word_beat:
  "beat_bytes (beat_with (ucast w) 0b00001111 l) = le32 w" "packable (beat_with (ucast w) 0b00001111 l)"
  "beat_bytes (beat_with (push_bit 32 (ucast b) OR ucast a) 0b11111111 l) = le32 a @ le32 b"
  "packable (beat_with (push_bit 32 (ucast b) OR ucast a) 0b11111111 l)"
proof -
  have k4: "0b00001111 = packer_keep 4" and k8: "0b11111111 = packer_keep 8" by (simp_all add: packer_keep_def)
  have u8: "[0..<8] = [0..<4] @ map ((+) 4) [0..<4]" by (simp add: upt_conv_Cons)
  show "beat_bytes (beat_with (ucast w) 0b00001111 l) = le32 w"
    unfolding k4 by (simp add: beat_bytes_def beat_with_def packer_keep_bits le32_byte_of byte_of_ucast32)
  have "map (byte_of (push_bit 32 (ucast b) OR ucast a :: u64)) [0..<8] = map (byte_of a) [0..<4] @ map (byte_of b) [0..<4]"
    unfolding u8 by (simp add: byte_of_pair)
  then show "beat_bytes (beat_with (push_bit 32 (ucast b) OR ucast a) 0b11111111 l) = le32 a @ le32 b"
    unfolding k8 by (simp add: beat_bytes_def beat_with_def packer_keep_bits le32_byte_of)
  show "packable (beat_with (ucast w) 0b00001111 l)" "packable (beat_with (push_bit 32 (ucast b) OR ucast a) 0b11111111 l)"
    unfolding k4 k8 by (simp_all add: packable_def beat_with_def bit_packer_keep)
qed

lemma or_slices:
  "or_slice 2 (pad5 [c]) (or_slice 1 (pad5 [b]) (pad5 [a] @ replicate 10 0)) = [a, b, c] @ replicate 12 0"
  "or_slice 2 (pad5 [c, d]) (or_slice 1 (pad5 [b]) (pad5 [a] @ replicate 10 0)) = [a, b, c, d] @ replicate 11 0"
  by (simp_all add: or_slice_def pad5_def numeral_eq_Suc)

text \<open>The combined varints of lengths that take one byte each, and one or two for the value.\<close>

lemma combined_varints:
  assumes "unat (ec_shared s) < 128" and "unat (ec_unshared s) < 128" and "unat (ec_value_len s) < 16384"
  defines "vs \<equiv> varint (of_nat (unat (ec_shared s))) @ varint (of_nat (unat (ec_unshared s))) @ varint (of_nat (unat (ec_value_len s)))"
  shows "p13_total s = length vs" and "take (length vs) (p13_combined s) = vs" and "length vs \<le> 4" and "3 \<le> length vs"
    and "length (p13_combined s) = 15"
proof -
  have u: "ucast (ucast (w :: u16) :: u32) = (of_nat (unat w) :: u64)" for w
    unfolding of_nat_unat by (rule bit_word_eqI) (auto simp: bit_simps dest: bit_imp_le_length)
  have lt: "unat (w :: u16) < 16384 \<Longrightarrow> (ucast w :: u32) < 16384" for w
    by (simp add: word_less_nat_alt unsigned_ucast_eq take_bit_nat_eq_self)
  have p: "unat (w :: u16) < 16384 \<Longrightarrow> varint32_pack (ucast w) = varint (of_nat (unat w)) \<and> varint32_len (ucast w) = length (varint (of_nat (unat w)))" for w
    using varint32_pack_varint [OF lt] u by metis
  have a: "varint (of_nat (unat (ec_shared s))) = [of_nat (unat (ec_shared s))]" by (rule varint_small [OF assms(1)])
  have b: "varint (of_nat (unat (ec_unshared s))) = [of_nat (unat (ec_unshared s))]" by (rule varint_small [OF assms(2)])
  let ?v = "varint (of_nat (unat (ec_value_len s)))"
  have "unat (of_nat (unat (ec_value_len s)) :: u64) = unat (ec_value_len s)"
    unfolding unat_of_nat using assms(3) by simp
  then have l: "length ?v \<le> 2" using length_varint [of "of_nat (unat (ec_value_len s))" 2] assms(3) by simp
  have "0 < length ?v" by simp
  with l have v: "(\<exists>c. ?v = [c]) \<or> (\<exists>c d. ?v = [c, d])" by (cases ?v; cases "tl ?v"; fastforce)
  have lens: "shared_vlen s = 1" "unshared_vlen s = 1" "value_vlen s = length ?v"
    using p [of "ec_shared s"] p [of "ec_unshared s"] p [OF assms(3)] assms(1,2)
    by (simp_all add: shared_vlen_def unshared_vlen_def value_vlen_def a b del: of_nat_unat)
  have comb: "p13_combined s = or_slice 2 (pad5 ?v)
      (or_slice 1 (pad5 (varint (of_nat (unat (ec_unshared s))))) (pad5 (varint (of_nat (unat (ec_shared s)))) @ replicate 10 0))"
    using p [of "ec_shared s"] p [of "ec_unshared s"] p [OF assms(3)] assms(1,2)
    by (simp add: p13_combined_def p13_offs_v_def lens numeral_2_eq_2 del: of_nat_unat replicate_Suc)
  have total: "p13_total s = 2 + length ?v" using l by (simp add: p13_total_def p13_offs_v_def lens)
  have "p13_total s = length vs \<and> take (length vs) (p13_combined s) = vs \<and> length vs \<le> 4 \<and> 3 \<le> length vs \<and> length (p13_combined s) = 15"
    using v
  proof (elim disjE exE)
    fix c assume c: "?v = [c]"
    show ?thesis unfolding total comb vs_def a b c or_slices by simp
  next
    fix c d assume c: "?v = [c, d]"
    show ?thesis unfolding total comb vs_def a b c or_slices by simp
  qed
  then show "p13_total s = length vs" and "take (length vs) (p13_combined s) = vs" and "length vs \<le> 4" and "3 \<le> length vs"
    and "length (p13_combined s) = 15" by blast+
qed

end
