(* ===== verification/Encoder_System.thy ===== *)
theory Encoder_System
  imports Encoder_Spec
begin

text \<open>
  The encoder between its neighbours: the header and byte FIFOs behind the merger, which deliver records and may stall
  in any cycle, and a sink that may. How far the encoder has come, state by state, in its registers, on its input and
  in what it has written.
\<close>

section \<open>The neighbours\<close>

record enc_choice =
  eh_hdr :: bool
  eh_data :: bool
  eh_done :: bool
  eh_ready :: bool

record enc_sys =
  en_enc :: encoder
  en_feed :: feed
  en_out :: "mg_beat list"

definition enc_in_of :: "enc_choice \<Rightarrow> feed \<Rightarrow> enc_in" where
  "enc_in_of c f = \<lparr>e_rstn = True, e_clear = False, e_start = False,
     e_rec_valid = (eh_hdr c \<and> fd_hdrs f \<noteq> []),
     e_key_len = (case fd_hdrs f of [] \<Rightarrow> 0 | h # _ \<Rightarrow> fst h), e_value_len = (case fd_hdrs f of [] \<Rightarrow> 0 | h # _ \<Rightarrow> snd h),
     e_source_done = eh_done c,
     e_valid = (eh_data c \<and> fd_beats f \<noteq> []), e_beat = (case fd_beats f of [] \<Rightarrow> no_beat | x # _ \<Rightarrow> x),
     e_ready = eh_ready c\<rparr>"

definition enc_consume :: "enc_in \<Rightarrow> encoder \<Rightarrow> feed \<Rightarrow> feed" where
  "enc_consume i s f =
     \<lparr>fd_hdrs = (if e_rec_valid i \<and> enc_rec_ready s then tl (fd_hdrs f) else fd_hdrs f),
      fd_beats = (if enc_accept i s then tl (fd_beats f) else fd_beats f)\<rparr>"

definition opt_list :: "'a option \<Rightarrow> 'a list" where
  "opt_list a = (case a of None \<Rightarrow> [] | Some x \<Rightarrow> [x])"

definition enc_cycle :: "enc_choice \<Rightarrow> enc_sys \<Rightarrow> enc_sys" where
  "enc_cycle c y =
     (let i = enc_in_of c (en_feed y); s = en_enc y
      in \<lparr>en_enc = enc_step i s, en_feed = enc_consume i s (en_feed y),
          en_out = en_out y @ (if eh_ready c then opt_list (enc_offer s) else [])\<rparr>)"

definition enc_start_in :: enc_in where
  "enc_start_in = \<lparr>e_rstn = True, e_clear = False, e_start = True, e_rec_valid = False, e_key_len = 0, e_value_len = 0,
     e_source_done = False, e_valid = False, e_beat = no_beat, e_ready = False\<rparr>"

text \<open>A block begins with \<^verbatim>\<open>clear\<close> and \<^verbatim>\<open>start\<close>.\<close>

definition enc_start_block :: "encoder \<Rightarrow> feed \<Rightarrow> enc_sys" where
  "enc_start_block s f = \<lparr>en_enc = enc_step enc_start_in (enc_reset s), en_feed = f, en_out = []\<rparr>"

text \<open>
  The end of the source is signalled when the merger is done, and its header FIFO shows what it holds: once the end
  has been seen, a header that is left is offered.
\<close>

definition honest :: "enc_choice \<Rightarrow> enc_sys \<Rightarrow> bool" where
  "honest c y \<longleftrightarrow> (eh_done c \<or> ec_done_seen (en_enc y)) \<and> fd_hdrs (en_feed y) \<noteq> [] \<longrightarrow> eh_hdr c"

fun honest_run :: "enc_choice list \<Rightarrow> enc_sys \<Rightarrow> bool" where
  "honest_run [] y \<longleftrightarrow> True"
| "honest_run (c # cs) y \<longleftrightarrow> honest c y \<and> honest_run cs (enc_cycle c y)"

definition enc_cycles :: "enc_choice list \<Rightarrow> enc_sys \<Rightarrow> enc_sys" where
  "enc_cycles cs y = fold enc_cycle cs y"

section \<open>What has been written\<close>

text \<open>The beats the sink has and the one in the output register.\<close>

definition hist :: "enc_sys \<Rightarrow> mg_beat list" where
  "hist y = en_out y @ opt_list (enc_offer (en_enc y))"

definition beats_tokens :: "mg_beat list \<Rightarrow> byte token list" where
  "beats_tokens xs = concat (map beat_tokens xs)"

lemma enc_step_run [simp]: "enc_step (enc_in_of c f) s = enc_case (enc_in_of c f) s (enc_defaults (enc_in_of c f) s)"
  by (simp add: enc_step_def enc_in_of_def)

lemma e_ready_in [simp]: "e_ready (enc_in_of c f) = eh_ready c"
  by (simp add: enc_in_of_def)

lemma hist_keeps:
  assumes "ec_valid (en_enc (enc_cycle c y)) = (ec_valid (en_enc y) \<and> \<not> eh_ready c)"
    and "ec_valid (en_enc y) \<Longrightarrow> \<not> eh_ready c \<Longrightarrow> ec_data (en_enc (enc_cycle c y)) = ec_data (en_enc y) \<and>
      ec_keep (en_enc (enc_cycle c y)) = ec_keep (en_enc y) \<and> ec_last (en_enc (enc_cycle c y)) = ec_last (en_enc y)"
  shows "hist (enc_cycle c y) = hist y"
proof -
  have out: "en_out (enc_cycle c y) = en_out y @ (if eh_ready c then opt_list (enc_offer (en_enc y)) else [])"
    by (simp add: enc_cycle_def Let_def)
  show ?thesis
    using assms unfolding hist_def out by (cases "ec_valid (en_enc y)"; cases "eh_ready c") (simp_all add: enc_offer_def opt_list_def)
qed

lemma hist_emits:
  assumes "can_emit (enc_in_of c (en_feed y)) (en_enc y)" and "ec_valid (en_enc (enc_cycle c y))"
  shows "hist (enc_cycle c y) = hist y @
    [beat_with (ec_data (en_enc (enc_cycle c y))) (ec_keep (en_enc (enc_cycle c y))) (ec_last (en_enc (enc_cycle c y)))]"
proof -
  have out: "en_out (enc_cycle c y) = en_out y @ (if eh_ready c then opt_list (enc_offer (en_enc y)) else [])"
    by (simp add: enc_cycle_def Let_def)
  show ?thesis
    using assms unfolding hist_def out by (auto simp: enc_offer_def opt_list_def can_emit_def beat_with_def)
qed

section \<open>The registers\<close>

definition offsets_hold :: "u32 list \<Rightarrow> encoder \<Rightarrow> bool" where
  "offsets_hold R s \<longleftrightarrow> length (ec_offsets s) = 256 \<and> unat (ec_restart_count s) = length R \<and> 0 < length R \<and> length R \<le> 256 \<and>
     (\<forall>j<length R. ec_offsets s ! j = R ! j)"

definition running :: "byte \<Rightarrow> u32 list \<Rightarrow> byte list \<Rightarrow> encoder \<Rightarrow> bool" where
  "running x R W s \<longleftrightarrow> ec_busy s \<and> \<not> ec_error s \<and> \<not> ec_last s \<and> ucast (ec_undef s) = x \<and> length (ec_buf_a s) = 64 \<and>
     length (ec_buf_b s) = 64 \<and> offsets_hold R s \<and> unat (ec_write s) = length W \<and> length W \<le> 8192"

definition prev_held :: "byte \<Rightarrow> entry list \<Rightarrow> encoder \<Rightarrow> bool" where
  "prev_held x ds s \<longleftrightarrow> unat (ec_prev_len s) = length (last_seen x ds) \<and> length (last_seen x ds) \<le> 72 \<and>
     (\<forall>j<length (last_seen x ds). buf_get s (prev_buf s) j = last_seen x ds ! j)"

definition key_held :: "byte \<Rightarrow> nat \<Rightarrow> byte list \<Rightarrow> encoder \<Rightarrow> bool" where
  "key_held x m k s \<longleftrightarrow> (\<forall>j<m. buf_get s (cur_buf s) j = seen x k ! j)"

definition since_of :: "nat \<Rightarrow> nat" where
  "since_of n = (if n = 0 then 0 else (n - 1) mod 16 + 1)"

text \<open>A record has been begun: its lengths, and whether it is at a restart point.\<close>

definition begun :: "byte \<Rightarrow> entry list \<Rightarrow> entry \<Rightarrow> byte list \<Rightarrow> encoder \<Rightarrow> bool" where
  "begun x ds r W s \<longleftrightarrow> running x (restarts_of x (ds @ [r])) W s \<and> prev_held x ds s \<and> rec_ok r \<and>
     unat (ec_since s) = length ds mod 16 \<and> unat (ec_key_len s) = length (fst r) \<and> unat (ec_value_len s) = length (snd r) \<and>
     (ec_restart s \<longleftrightarrow> ds \<noteq> [] \<and> length ds mod 16 = 0)"

text \<open>What is left of a record on the input: the key from byte \<open>m\<close>, the value from byte \<open>q\<close>, then \<open>todo\<close>.\<close>

definition flowing :: "nat \<Rightarrow> nat \<Rightarrow> entry \<Rightarrow> entry list \<Rightarrow> feed \<Rightarrow> bool" where
  "flowing m q r todo f \<longleftrightarrow> fd_hdrs f = map header_of todo \<and>
     (\<exists>kb vb xs. fd_beats f = kb @ vb @ xs \<and> chunks kb (drop m (fst r)) \<and> chunks vb (drop q (snd r)) \<and> presents xs todo)"

definition key_shared :: "byte \<Rightarrow> entry list \<Rightarrow> byte list \<Rightarrow> nat" where
  "key_shared x ds k = shared_of (length ds) (last_seen x ds) k"

text \<open>The comparison with the previous key after \<open>m\<close> bytes.\<close>

definition key_compared :: "byte \<Rightarrow> entry list \<Rightarrow> byte list \<Rightarrow> nat \<Rightarrow> encoder \<Rightarrow> bool" where
  "key_compared x ds k m s \<longleftrightarrow> unat (ec_shared s) = key_shared x ds (take m k) \<and>
     (\<not> ec_restart s \<longrightarrow> (ec_mismatch s \<longleftrightarrow> key_shared x ds (take m k) < m))"

definition split_key :: "byte \<Rightarrow> entry list \<Rightarrow> byte list \<Rightarrow> encoder \<Rightarrow> bool" where
  "split_key x ds k s \<longleftrightarrow> key_held x (length k) k s \<and> unat (ec_shared s) = key_shared x ds k \<and>
     unat (ec_unshared s) = length k - key_shared x ds k"

definition varints_of :: "nat \<Rightarrow> entry \<Rightarrow> byte list" where
  "varints_of sh r = varint (of_nat sh) @ varint (of_nat (length (fst r) - sh)) @ varint (of_nat (length (snd r)))"

lemma entry_out_parts: "entry_out x sh r = varints_of sh r @ drop sh (seen x (fst r)) @ snd r"
  by (simp add: entry_out_def varints_of_def)

section \<open>The states\<close>

definition at_wait :: "byte \<Rightarrow> entry list \<Rightarrow> entry list \<Rightarrow> byte list \<Rightarrow> encoder \<Rightarrow> feed \<Rightarrow> bool" where
  "at_wait x ds todo W s f \<longleftrightarrow> W = entries_of x ds \<and> running x (restarts_of x ds) W s \<and> prev_held x ds s \<and>
     unat (ec_since s) = since_of (length ds) \<and> delivers f todo"

definition at_recv :: "byte \<Rightarrow> entry list \<Rightarrow> entry \<Rightarrow> entry list \<Rightarrow> byte list \<Rightarrow> encoder \<Rightarrow> feed \<Rightarrow> bool" where
  "at_recv x ds r todo W s f \<longleftrightarrow> W = entries_of x ds \<and> begun x ds r W s \<and> unat (ec_recv s) < length (fst r) \<and>
     key_held x (unat (ec_recv s)) (fst r) s \<and> key_compared x ds (fst r) (unat (ec_recv s)) s \<and>
     flowing (unat (ec_recv s)) 0 r todo f"

definition at_varints :: "byte \<Rightarrow> entry list \<Rightarrow> entry \<Rightarrow> entry list \<Rightarrow> byte list \<Rightarrow> encoder \<Rightarrow> feed \<Rightarrow> bool" where
  "at_varints x ds r todo W s f \<longleftrightarrow> W = entries_of x ds \<and> begun x ds r W s \<and> split_key x ds (fst r) s \<and>
     flowing (length (fst r)) 0 r todo f"

definition at_key :: "byte \<Rightarrow> entry list \<Rightarrow> entry \<Rightarrow> entry list \<Rightarrow> byte list \<Rightarrow> encoder \<Rightarrow> feed \<Rightarrow> bool" where
  "at_key x ds r todo W s f \<longleftrightarrow>
     W = entries_of x ds @ varints_of (key_shared x ds (fst r)) r @
       take (unat (ec_copy s)) (drop (key_shared x ds (fst r)) (seen x (fst r))) \<and>
     unat (ec_copy s) \<le> length (fst r) - key_shared x ds (fst r) \<and>
     begun x ds r W s \<and> split_key x ds (fst r) s \<and> flowing (length (fst r)) 0 r todo f"

definition at_value :: "byte \<Rightarrow> entry list \<Rightarrow> entry \<Rightarrow> entry list \<Rightarrow> byte list \<Rightarrow> encoder \<Rightarrow> feed \<Rightarrow> bool" where
  "at_value x ds r todo W s f \<longleftrightarrow>
     W = entries_of x ds @ varints_of (key_shared x ds (fst r)) r @ drop (key_shared x ds (fst r)) (seen x (fst r)) @
       take (length (snd r) - unat (ec_rem s)) (snd r) \<and>
     unat (ec_rem s) \<le> length (snd r) \<and>
     begun x ds r W s \<and> split_key x ds (fst r) s \<and> flowing (length (fst r)) (length (snd r) - unat (ec_rem s)) r todo f"

definition at_restarts :: "byte \<Rightarrow> entry list \<Rightarrow> byte list \<Rightarrow> encoder \<Rightarrow> bool" where
  "at_restarts x rs W s \<longleftrightarrow> W = entries_of x rs @ concat (map le32 (take (unat (ec_emit_idx s)) (restarts_of x rs))) \<and>
     unat (ec_emit_idx s) \<le> length (restarts_of x rs) \<and> running x (restarts_of x rs) W s"

definition at_count :: "byte \<Rightarrow> entry list \<Rightarrow> byte list \<Rightarrow> encoder \<Rightarrow> bool" where
  "at_count x rs W s \<longleftrightarrow> W = entries_of x rs @ concat (map le32 (restarts_of x rs)) \<and> running x (restarts_of x rs) W s"

text \<open>The encoder is at work: \<open>ds\<close> is written, \<open>todo\<close> is to come.\<close>

definition working :: "byte \<Rightarrow> entry list \<Rightarrow> byte list \<Rightarrow> encoder \<Rightarrow> feed \<Rightarrow> bool" where
  "working x rs W s f \<longleftrightarrow>
     (case ec_state s of
        Ec_Wait_Record \<Rightarrow> \<exists>ds todo. rs = ds @ todo \<and> at_wait x ds todo W s f
      | Ec_Recv_Key \<Rightarrow> \<exists>ds r todo. rs = ds @ r # todo \<and> at_recv x ds r todo W s f
      | Ec_Write_Varints \<Rightarrow> \<exists>ds r todo. rs = ds @ r # todo \<and> at_varints x ds r todo W s f
      | Ec_Write_Key \<Rightarrow> \<exists>ds r todo. rs = ds @ r # todo \<and> at_key x ds r todo W s f
      | Ec_Stream_Value \<Rightarrow> \<exists>ds r todo. rs = ds @ r # todo \<and> at_value x ds r todo W s f
      | Ec_Append_Restarts \<Rightarrow> fd_hdrs f = [] \<and> at_restarts x rs W s
      | Ec_Append_Rst_Cnt \<Rightarrow> fd_hdrs f = [] \<and> at_count x rs W s
      | _ \<Rightarrow> False)"

definition ended :: "encoder \<Rightarrow> bool" where
  "ended s \<longleftrightarrow> \<not> ec_error s \<and> (ec_state s = Ec_Finish \<and> ec_busy s \<and> (ec_valid s \<longrightarrow> ec_last s) \<or>
     ec_state s = Ec_Idle \<and> \<not> ec_busy s \<and> \<not> ec_valid s)"

definition enc_inv :: "byte \<Rightarrow> entry list \<Rightarrow> enc_sys \<Rightarrow> bool" where
  "enc_inv x rs y \<longleftrightarrow> list_all packable (hist y) \<and>
     ((\<exists>W. working x rs W (en_enc y) (en_feed y) \<and> beats_tokens (hist y) = map Some W) \<or>
      ended (en_enc y) \<and> beats_tokens (hist y) = map Some (enc_block x rs) @ [None])"

end
