(* ===== verification/Encoder_Steps.thy ===== *)
theory Encoder_Steps
  imports Encoder_System
begin

text \<open>
  Every state's clock edge keeps the encoder at work on the same block: taking a header, receiving a key while it
  is compared with the one before, the three varints, the rest of the key, the value, the end of an entry.
\<close>

section \<open>An edge\<close>

definition keeps_out :: "enc_in \<Rightarrow> encoder \<Rightarrow> encoder \<Rightarrow> bool" where
  "keeps_out i s t \<longleftrightarrow> ec_valid t = (ec_valid s \<and> \<not> e_ready i) \<and> ec_data t = ec_data s \<and> ec_keep t = ec_keep s \<and> ec_last t = ec_last s"

definition emits :: "enc_in \<Rightarrow> encoder \<Rightarrow> encoder \<Rightarrow> byte list \<Rightarrow> bool" where
  "emits i s t bs \<longleftrightarrow> can_emit i s \<and> ec_valid t \<and> \<not> ec_last t \<and>
     beat_bytes (beat_with (ec_data t) (ec_keep t) False) = bs \<and> packable (beat_with (ec_data t) (ec_keep t) False)"

definition advances :: "byte \<Rightarrow> entry list \<Rightarrow> byte list \<Rightarrow> enc_in \<Rightarrow> encoder \<Rightarrow> encoder \<Rightarrow> feed \<Rightarrow> bool" where
  "advances x rs W i s t f \<longleftrightarrow> keeps_out i s t \<and> working x rs W t f \<or> (\<exists>bs. emits i s t bs \<and> working x rs (W @ bs) t f)"

lemma working_intros:
  "ec_state s = Ec_Wait_Record \<Longrightarrow> at_wait x ds todo W s f \<Longrightarrow> working x (ds @ todo) W s f"
  "ec_state s = Ec_Recv_Key \<Longrightarrow> at_recv x ds r todo W s f \<Longrightarrow> working x (ds @ r # todo) W s f"
  "ec_state s = Ec_Write_Varints \<Longrightarrow> at_varints x ds r todo W s f \<Longrightarrow> working x (ds @ r # todo) W s f"
  "ec_state s = Ec_Write_Key \<Longrightarrow> at_key x ds r todo W s f \<Longrightarrow> working x (ds @ r # todo) W s f"
  "ec_state s = Ec_Stream_Value \<Longrightarrow> at_value x ds r todo W s f \<Longrightarrow> working x (ds @ r # todo) W s f"
  by (simp_all add: working_def del: split_paired_Ex) blast+

lemma advances_quiet: "keeps_out i s t \<Longrightarrow> working x rs W t f \<Longrightarrow> advances x rs W i s t f"
  by (simp add: advances_def)

lemma advances_emit: "emits i s t bs \<Longrightarrow> working x rs (W @ bs) t f \<Longrightarrow> advances x rs W i s t f"
  by (auto simp: advances_def)

text \<open>What the assertions read of the registers.\<close>

lemmas assertion_defs = running_def offsets_hold_def prev_held_def key_held_def key_compared_def split_key_def
  buf_get_def prev_buf_def cur_buf_def

lemma running_cong:
  "ec_busy t = ec_busy s \<Longrightarrow> ec_error t = ec_error s \<Longrightarrow> ec_last t = ec_last s \<Longrightarrow> ec_undef t = ec_undef s \<Longrightarrow>
   ec_buf_a t = ec_buf_a s \<Longrightarrow> ec_buf_b t = ec_buf_b s \<Longrightarrow> ec_offsets t = ec_offsets s \<Longrightarrow>
   ec_restart_count t = ec_restart_count s \<Longrightarrow> ec_write t = ec_write s \<Longrightarrow> running x R W t = running x R W s"
  by (simp add: running_def offsets_hold_def)

lemma held_cong:
  assumes "ec_undef t = ec_undef s" and "ec_buf_a t = ec_buf_a s" and "ec_buf_b t = ec_buf_b s" and "ec_prev_sel t = ec_prev_sel s"
  shows "ec_prev_len t = ec_prev_len s \<Longrightarrow> prev_held x ds t = prev_held x ds s" and "key_held x m k t = key_held x m k s"
  using assms by (simp_all add: prev_held_def key_held_def buf_get_def prev_buf_def cur_buf_def)

lemma running_write:
  assumes "running x R W s" and "ec_write t = ec_write s + of_nat (length bs)" and "length W + length bs \<le> 8192"
    and "ec_busy t = ec_busy s" "ec_error t = ec_error s" "ec_last t = ec_last s" "ec_undef t = ec_undef s"
    "ec_buf_a t = ec_buf_a s" "ec_buf_b t = ec_buf_b s" "ec_offsets t = ec_offsets s" "ec_restart_count t = ec_restart_count s"
  shows "running x R (W @ bs) t"
  using assms by (simp add: assertion_defs unat_word_ariths unat_of_nat)

lemma begun_cong:
  assumes "begun x ds r W s" and "running x (restarts_of x (ds @ [r])) W' t" and "prev_held x ds t = prev_held x ds s"
    and "ec_since t = ec_since s" "ec_key_len t = ec_key_len s" "ec_value_len t = ec_value_len s" "ec_restart t = ec_restart s"
  shows "begun x ds r W' t"
  using assms by (simp add: begun_def)

lemma keeps_defaults:
  "ec_valid t = ec_valid (enc_defaults i s) \<Longrightarrow> ec_data t = ec_data s \<Longrightarrow> ec_keep t = ec_keep s \<Longrightarrow> ec_last t = ec_last s \<Longrightarrow>
   keeps_out i s t"
  by (simp add: keeps_out_def enc_defaults_def)

lemma edge_other [simp]:
  "ec_state (enc_defaults i s) = ec_state s" "ec_busy (enc_defaults i s) = ec_busy s" "ec_error (enc_defaults i s) = ec_error s"
  "ec_counts (enc_defaults i s) = ec_counts s" "ec_restart_count (enc_defaults i s) = ec_restart_count s"
  "ec_buf_a (enc_defaults i s) = ec_buf_a s" "ec_buf_b (enc_defaults i s) = ec_buf_b s" "ec_offsets (enc_defaults i s) = ec_offsets s"
  "ec_prev_sel (enc_defaults i s) = ec_prev_sel s" "ec_prev_len (enc_defaults i s) = ec_prev_len s"
  "ec_key_len (enc_defaults i s) = ec_key_len s" "ec_value_len (enc_defaults i s) = ec_value_len s"
  "ec_shared (enc_defaults i s) = ec_shared s" "ec_unshared (enc_defaults i s) = ec_unshared s"
  "ec_mismatch (enc_defaults i s) = ec_mismatch s" "ec_restart (enc_defaults i s) = ec_restart s" "ec_recv (enc_defaults i s) = ec_recv s"
  "ec_write (enc_defaults i s) = ec_write s" "ec_copy (enc_defaults i s) = ec_copy s" "ec_rem (enc_defaults i s) = ec_rem s"
  "ec_emit_idx (enc_defaults i s) = ec_emit_idx s" "ec_since (enc_defaults i s) = ec_since s" "ec_data (enc_defaults i s) = ec_data s"
  "ec_keep (enc_defaults i s) = ec_keep s" "ec_last (enc_defaults i s) = ec_last s" "ec_undef (enc_defaults i s) = ec_undef s"
  by (simp_all add: enc_defaults_def)

lemma edge_asserts [simp]:
  "running x R W (enc_defaults i s) = running x R W s" "prev_held x ds (enc_defaults i s) = prev_held x ds s"
  "key_held x m k (enc_defaults i s) = key_held x m k s" "begun x ds r W (enc_defaults i s) = begun x ds r W s"
proof -
  show a: "running x R W (enc_defaults i s) = running x R W s" for R W by (rule running_cong) simp_all
  show b: "prev_held x ds (enc_defaults i s) = prev_held x ds s" by (rule held_cong) simp_all
  show "key_held x m k (enc_defaults i s) = key_held x m k s" by (rule held_cong) simp_all
  show "begun x ds r W (enc_defaults i s) = begun x ds r W s" by (simp add: begun_def a b)
qed

lemma put_cur_other [simp]:
  "ec_state (put_cur m t) = ec_state t" "ec_busy (put_cur m t) = ec_busy t" "ec_error (put_cur m t) = ec_error t"
  "ec_restart_count (put_cur m t) = ec_restart_count t" "ec_offsets (put_cur m t) = ec_offsets t"
  "ec_prev_sel (put_cur m t) = ec_prev_sel t" "ec_prev_len (put_cur m t) = ec_prev_len t" "ec_key_len (put_cur m t) = ec_key_len t"
  "ec_value_len (put_cur m t) = ec_value_len t" "ec_restart (put_cur m t) = ec_restart t" "ec_write (put_cur m t) = ec_write t"
  "ec_since (put_cur m t) = ec_since t" "ec_data (put_cur m t) = ec_data t" "ec_keep (put_cur m t) = ec_keep t"
  "ec_last (put_cur m t) = ec_last t" "ec_undef (put_cur m t) = ec_undef t" "ec_valid (put_cur m t) = ec_valid t"
  by (simp_all add: put_cur_def)

section \<open>Taking a header\<close>

lemma since_Suc: "since_of (Suc n) = n mod 16 + 1"
  by (simp add: since_of_def)

lemma since_restart: "since_of n = 16 \<longleftrightarrow> n \<noteq> 0 \<and> n mod 16 = 0"
proof (cases n)
  case (Suc m)
  have "m mod 16 + 1 = 16 \<longleftrightarrow> Suc m mod 16 = 0" by presburger
  then show ?thesis unfolding Suc since_Suc by (simp only: Suc_not_Zero simp_thms not_False_eq_True)
qed (simp add: since_of_def)

lemma since_mod: "since_of n \<noteq> 16 \<Longrightarrow> since_of n = n mod 16"
proof (cases n)
  case (Suc m)
  have "m mod 16 + 1 \<noteq> 16 \<longrightarrow> m mod 16 + 1 = Suc m mod 16" by (simp add: mod_Suc)
  then show "since_of n \<noteq> 16 \<Longrightarrow> since_of n = n mod 16" unfolding Suc since_Suc by blast
qed (simp add: since_of_def)

lemma offsets_append:
  assumes "offsets_hold R s" and "length R < 256" and "ec_offsets t = (ec_offsets s)[unat (ec_restart_count s) := w]"
    and "ec_restart_count t = ec_restart_count s + 1"
  shows "offsets_hold (R @ [w]) t"
proof -
  have "unat (ec_restart_count s + 1) = length R + 1"
    using assms(1,2) by (simp add: offsets_hold_def unat_word_ariths)
  then show ?thesis using assms by (auto simp: offsets_hold_def nth_append nth_list_update less_Suc_eq)
qed

lemma few_restarts:
  assumes "length (entries_of x ds) \<le> 8192"
  shows "length (restarts_of x ds) < 256"
  using assms entries_length [of ds x] restarts_length [of x ds] by linarith

lemma delivers_Cons:
  assumes "delivers f (r # todo)"
  shows "fd_hdrs f = header_of r # map header_of todo" and "rec_ok r" and "flowing 0 0 r todo (f\<lparr>fd_hdrs := map header_of todo\<rparr>)"
proof -
  have p: "presents (fd_beats f) (r # todo)" and h: "fd_hdrs f = map header_of (r # todo)" using assms by (simp_all add: delivers_def)
  show "fd_hdrs f = header_of r # map header_of todo" using h by simp
  from p show "rec_ok r" by (rule presents_ConsE)
  from p show "flowing 0 0 r todo (f\<lparr>fd_hdrs := map header_of todo\<rparr>)"
    by (rule presents_ConsE) (auto simp: flowing_def)
qed

lemma record_begun:
  assumes at: "at_wait x ds (r # todo) W s f" and e: "e_key_len i = fst (header_of r)" "e_value_len i = snd (header_of r)"
  shows "at_recv x ds r todo W (enc_record i s (enc_defaults i s)) (f\<lparr>fd_hdrs := map header_of todo\<rparr>)"
    and "ec_state (enc_record i s (enc_defaults i s)) = Ec_Recv_Key" and "keeps_out i s (enc_record i s (enc_defaults i s))"
proof -
  let ?t = "enc_defaults i s" and ?n = "length ds" and ?R = "restarts_of x ds"
  let ?at = "ds \<noteq> [] \<and> ?n mod 16 = 0"
  have W: "W = entries_of x ds" and run: "running x ?R W s" and prev: "prev_held x ds s" and since: "unat (ec_since s) = since_of ?n"
    and del: "delivers f (r # todo)"
    using at unfolding at_wait_def by blast+
  note d = delivers_Cons [OF del]
  note h = header_of_ok [OF d(2)]
  have ok: "8 \<le> length (fst r)" "length (fst r) \<le> 72" using d(2) by (simp_all add: rec_ok_def)
  have key: "e_key_len i \<noteq> 0" using h(1) ok e(1) by auto
  have r16: "ec_since s = ENC_RESTART_INTERVAL \<longleftrightarrow> ?at"
  proof -
    have "ec_since s = 16 \<longleftrightarrow> unat (ec_since s) = 16" by (simp add: word_unat_eq_iff)
    then show ?thesis using since since_restart [of ?n] by (simp add: enc_param_defs)
  qed
  have count: "unat (ec_restart_count s) = length ?R" "length ?R < 256"
    using run few_restarts [of x ds] W by (simp_all add: running_def offsets_hold_def)
  define u where "u = ?t\<lparr>ec_key_len := e_key_len i, ec_value_len := e_value_len i,
      ec_counts := (ec_counts s)\<lparr>en_input := en_input (ec_counts s) + 1\<rparr>\<rparr>"
  define v where "v = (if ?at
     then u\<lparr>ec_restart := True, ec_offsets := (ec_offsets s)[unat (ec_restart_count s) := ec_write s],
            ec_restart_count := ec_restart_count s + 1, ec_since := 0\<rparr>
     else u\<lparr>ec_restart := False\<rparr>)"
  define w where "w = v\<lparr>ec_recv := 0, ec_shared := 0, ec_mismatch := False, ec_state := Ec_Recv_Key\<rparr>"
  have eq: "enc_record i s ?t = w"
    using key count r16 by (simp add: enc_record_def Let_def w_def v_def u_def ENC_MAX_RECORDS_def)
  have regs: "ec_busy w = ec_busy s" "ec_error w = ec_error s" "ec_last w = ec_last s" "ec_undef w = ec_undef s"
    "ec_buf_a w = ec_buf_a s" "ec_buf_b w = ec_buf_b s" "ec_write w = ec_write s" "ec_prev_sel w = ec_prev_sel s"
    "ec_prev_len w = ec_prev_len s" "ec_key_len w = e_key_len i" "ec_value_len w = e_value_len i" "ec_restart w \<longleftrightarrow> ?at"
    "ec_valid w = ec_valid ?t" "ec_data w = ec_data s" "ec_keep w = ec_keep s" "ec_recv w = 0" "ec_shared w = 0" "\<not> ec_mismatch w"
    "ec_state w = Ec_Recv_Key" "ec_since w = (if ?at then 0 else ec_since s)"
    by (simp_all add: w_def v_def u_def)
  have off: "offsets_hold (restarts_of x (ds @ [r])) w"
  proof (cases ?at)
    case True
    have "of_nat (length W) = ec_write s" using run by (metis running_def of_nat_unat ucast_id)
    then have R: "restarts_of x (ds @ [r]) = ?R @ [ec_write s]" using True W by (simp add: restarts_snoc)
    show ?thesis unfolding R
      by (rule offsets_append [of ?R s]) (use run count True in \<open>simp_all add: running_def w_def v_def u_def\<close>)
  next
    case False
    then have "ec_offsets w = ec_offsets s" "ec_restart_count w = ec_restart_count s" by (auto simp: w_def v_def u_def)
    then show ?thesis using run False by (auto simp: restarts_snoc running_def offsets_hold_def)
  qed
  have "running x (restarts_of x (ds @ [r])) W w" using run off by (simp add: running_def regs)
  moreover have "prev_held x ds w" using prev by (subst held_cong(1) [of _ s]) (simp_all add: regs)
  moreover have "unat (ec_since w) = ?n mod 16"
    using since since_mod [of ?n] since_restart [of ?n] by (auto simp: regs)
  ultimately have b: "begun x ds r W w" using d(2) h e by (simp add: begun_def regs)
  have "shared_len ps [] = 0" for ps by (cases ps) simp_all
  then have "key_compared x ds (fst r) 0 w" by (simp add: key_compared_def regs key_shared_def shared_of_def)
  moreover have "fst r \<noteq> []" using ok by auto
  ultimately show "at_recv x ds r todo W (enc_record i s ?t) (f\<lparr>fd_hdrs := map header_of todo\<rparr>)"
    using b W d(3) unfolding eq at_recv_def by (simp add: regs key_held_def)
  show "ec_state (enc_record i s ?t) = Ec_Recv_Key" by (simp add: eq regs)
  show "keeps_out i s (enc_record i s ?t)" unfolding eq by (rule keeps_defaults) (simp_all add: regs)
qed

lemma in_no_header: "\<not> e_rec_valid (enc_in_of c f) \<Longrightarrow> fd_hdrs (enc_consume (enc_in_of c f) s f) = fd_hdrs f"
  by (simp add: enc_consume_def)

lemma await_step:
  assumes st: "ec_state s = Ec_Wait_Record" and at: "at_wait x ds todo W s f"
    and honest: "(eh_done c \<or> ec_done_seen s) \<and> fd_hdrs f \<noteq> [] \<longrightarrow> eh_hdr c"
  defines "i \<equiv> enc_in_of c f"
  shows "advances x (ds @ todo) W i s (enc_wait i s (enc_defaults i s)) (enc_consume i s f)"
proof -
  let ?t = "enc_defaults i s"
  have run: "running x (restarts_of x ds) W s" and del: "delivers f todo" and W: "W = entries_of x ds"
    using at unfolding at_wait_def by blast+
  have ready: "enc_rec_ready s" using run st by (simp add: enc_rec_ready_def running_def)
  have no: "\<not> enc_accept i s" using st by (simp add: enc_accept_def enc_axis_ready_def)
  show ?thesis
  proof (cases "e_rec_valid i")
    case True
    then have "fd_hdrs f \<noteq> []" by (simp add: i_def enc_in_of_def)
    then obtain r rest where todo: "todo = r # rest" using del by (cases todo) (auto simp: delivers_def)
    note d = delivers_Cons [OF del [unfolded todo]]
    have e: "e_key_len i = fst (header_of r)" "e_value_len i = snd (header_of r)" by (simp_all add: i_def enc_in_of_def d(1))
    note b = record_begun [OF at [unfolded todo] e]
    have f: "enc_consume i s f = f\<lparr>fd_hdrs := map header_of rest\<rparr>"
      using True ready no by (simp add: enc_consume_def d(1))
    have "enc_wait i s ?t = enc_record i s ?t" using True ready by (simp add: enc_wait_def)
    then show ?thesis using advances_quiet [OF b(3) working_intros(2) [OF b(2,1)]] unfolding todo f by simp
  next
    case False
    have f: "enc_consume i s f = f" using False no by (simp add: enc_consume_def)
    show ?thesis
    proof (cases "e_source_done i \<or> ec_done_seen s")
      case True
      then have hdrs: "fd_hdrs f = []" using honest False by (auto simp: i_def enc_in_of_def)
      then have todo: "todo = []" using del by (simp add: delivers_def)
      let ?u = "?t\<lparr>ec_emit_idx := 0, ec_state := Ec_Append_Restarts\<rparr>"
      have eq: "enc_wait i s ?t = ?u" using True False by (simp add: enc_wait_def)
      have "running x (restarts_of x ds) W ?u" using run by (subst running_cong [of _ s]) simp_all
      then have "working x (ds @ todo) W ?u f" using hdrs W by (simp add: working_def at_restarts_def todo)
      moreover have "keeps_out i s ?u" by (rule keeps_defaults) simp_all
      ultimately show ?thesis unfolding eq f advances_def by blast
    next
      case no_end: False
      have eq: "enc_wait i s ?t = ?t" using False no_end by (simp add: enc_wait_def)
      have "at_wait x ds todo W ?t f" using at unfolding at_wait_def edge_asserts edge_other .
      then have "working x (ds @ todo) W ?t f" using st by (auto simp: working_def)
      moreover have "keeps_out i s ?t" by (rule keeps_defaults) simp_all
      ultimately show ?thesis unfolding eq f advances_def by blast
    qed
  qed
qed

end
