(* ===== verification/Encoder_Receive.thy ===== *)
theory Encoder_Receive
  imports Encoder_Steps
begin

text \<open>
  Receiving a key: the bytes go into the buffer, the eight comparators and the priority encoder extend the prefix
  shared with the previous key.
\<close>

section \<open>Shared prefixes\<close>

lemma shared_len_Nil [simp]: "shared_len ps [] = 0"
  by (cases ps) simp_all

lemma shared_len_append:
  "shared_len ps (ks @ ls) =
    (if shared_len ps ks < length ks then shared_len ps ks else length ks + shared_len (drop (length ks) ps) ls)"
proof (induction ps ks rule: shared_len.induct)
  case (1 p ps k ks)
  then show ?case by simp
qed auto

lemma shared_len_first:
  "shared_len ps ks = (case find (\<lambda>j. \<not> (j < length ps \<and> ks ! j = ps ! j)) [0..<length ks] of Some j \<Rightarrow> j | None \<Rightarrow> length ks)"
proof (induction ks arbitrary: ps)
  case (Cons k ks)
  have upt: "[0..<length (k # ks)] = 0 # map Suc [0..<length ks]"
    by (simp add: upt_conv_Cons map_Suc_upt del: upt_Suc)
  have find: "find P (map Suc xs) = map_option Suc (find (P \<circ> Suc) xs)" for P xs
    by (induction xs) simp_all
  show ?case
  proof (cases ps)
    case Nil
    then show ?thesis unfolding upt by simp
  next
    case (Cons p qs)
    then show ?thesis unfolding upt using Cons.IH [of qs] by (auto simp: find o_def split: option.splits)
  qed
qed simp

section \<open>The comparators\<close>

text \<open>Away from a restart point the shared prefix is that of the two keys; before the first key there is none.\<close>

lemma key_shared_plain: "\<not> (ds \<noteq> [] \<and> length ds mod 16 = 0) \<Longrightarrow> key_shared x ds k = shared_len (last_seen x ds) k"
  by (cases k) (auto simp: key_shared_def shared_of_def last_seen_def)

lemma key_shared_restart: "ds \<noteq> [] \<and> length ds mod 16 = 0 \<Longrightarrow> key_shared x ds k = 0"
  by (simp add: key_shared_def shared_of_def)

lemma key_shared_le: "key_shared x ds k \<le> length k"
  using shared_len_le(2) by (simp add: key_shared_def shared_of_def)

lemma find_keep:
  assumes "\<And>k. k < 8 \<Longrightarrow> B k \<longleftrightarrow> k < c" and "c \<le> 8"
  shows "find (\<lambda>k. P k \<and> B k) [0..<8] = find P [0..<c]"
proof -
  have "find (\<lambda>k. P k \<and> B k) ([0..<c] @ [c..<8]) = find P [0..<c]"
  proof -
    have app: "find Q (xs @ ys) = (case find Q xs of None \<Rightarrow> find Q ys | Some z \<Rightarrow> Some z)" for Q and xs ys :: "nat list"
      by (induction xs) auto
    have "find (\<lambda>k. P k \<and> B k) [0..<c] = find P [0..<c]"
      by (rule find_cong) (use assms in auto)
    moreover have "find (\<lambda>k. P k \<and> B k) [c..<8] = None" using assms by (auto simp: find_None_iff)
    ultimately show ?thesis by (auto simp: app split: option.splits)
  qed
  moreover have "[0..<8] = [0..<c] @ [c..<8]" using assms(2) by (metis le_add_diff_inverse upt_add_eq_append zero_le)
  ultimately show ?thesis by simp
qed

lemma first_mismatch_shared:
  assumes prev: "prev_held x ds s" and b: "dense b" "e_beat i = b" and m: "unat (ec_recv s) = m"
  shows "first_mismatch i s =
    (if shared_len (drop m (last_seen x ds)) (beat_bytes b) < length (beat_bytes b)
     then shared_len (drop m (last_seen x ds)) (beat_bytes b) else 8)"
proof -
  let ?p = "last_seen x ds" and ?c = "keep_count (bt_keep b)"
  have bytes: "beat_bytes b = map (byte_of (bt_data b)) [0..<?c]" by (rule dense_bytes [OF b(1)])
  have c: "?c \<le> 8" by (rule keep_count_le)
  have keep: "k < 8 \<Longrightarrow> bit (bt_keep b) k \<longleftrightarrow> k < ?c" for k using b(1) by (simp add: dense_def)
  have match: "byte_match i s k \<longleftrightarrow> k < length (drop m ?p) \<and> beat_bytes b ! k = drop m ?p ! k" if "k < ?c" for k
    using that c prev keep [of k] by (auto simp: byte_match_def b(2) m prev_held_def bytes)
  have "find (\<lambda>k. \<not> byte_match i s k \<and> bit (bt_keep (e_beat i)) k) [0..<8] = find (\<lambda>k. \<not> byte_match i s k) [0..<?c]"
    by (rule find_keep) (use keep c b(2) in simp_all)
  also have "\<dots> = find (\<lambda>k. \<not> (k < length (drop m ?p) \<and> beat_bytes b ! k = drop m ?p ! k)) [0..<length (beat_bytes b)]"
    by (rule find_cong) (use match in simp_all)
  finally have f: "first_mismatch i s =
      (case find (\<lambda>k. \<not> (k < length (drop m ?p) \<and> beat_bytes b ! k = drop m ?p ! k)) [0..<length (beat_bytes b)] of
         Some k \<Rightarrow> k | None \<Rightarrow> 8)"
    by (simp add: first_mismatch_def)
  show ?thesis
  proof (cases "find (\<lambda>k. \<not> (k < length (drop m ?p) \<and> beat_bytes b ! k = drop m ?p ! k)) [0..<length (beat_bytes b)]")
    case None
    then show ?thesis unfolding f shared_len_first None by simp
  next
    case (Some k)
    then have "k < length (beat_bytes b)" by (auto simp: find_Some_iff)
    then show ?thesis unfolding f shared_len_first Some by simp
  qed
qed

text \<open>A beat of the key extends the comparison.\<close>

lemma compare_step:
  assumes bg: "begun x ds r W s" and cmp: "key_compared x ds (fst r) m s" and m: "unat (ec_recv s) = m" "m < length (fst r)"
    and acc: "enc_accept i s" "ec_state s = Ec_Recv_Key" and b: "dense b" "e_beat i = b"
    and bytes: "beat_bytes b = take (length (beat_bytes b)) (drop m (fst r))" and c: "m + length (beat_bytes b) \<le> length (fst r)"
  shows "unat (new_shared i s) = key_shared x ds (take (m + length (beat_bytes b)) (fst r))"
    and "\<not> ec_restart s \<Longrightarrow>
      new_mismatch i s \<longleftrightarrow> key_shared x ds (take (m + length (beat_bytes b)) (fst r)) < m + length (beat_bytes b)"
proof -
  let ?c = "length (beat_bytes b)" and ?k = "fst r" and ?p = "last_seen x ds"
  have prev: "prev_held x ds s" and restart: "ec_restart s \<longleftrightarrow> ds \<noteq> [] \<and> length ds mod 16 = 0" and k72: "length ?k \<le> 72"
    using bg by (simp_all add: begun_def rec_ok_def)
  have taken: "take (m + ?c) ?k = take m ?k @ beat_bytes b" by (simp only: take_add bytes [symmetric])
  have lm: "length (take m ?k) = m" using m(2) by simp
  have sh: "unat (ec_shared s) = key_shared x ds (take m ?k)" using cmp by (simp add: key_compared_def)
  have both: "unat (new_shared i s) = key_shared x ds (take (m + ?c) ?k) \<and>
      (\<not> ec_restart s \<longrightarrow> (new_mismatch i s \<longleftrightarrow> key_shared x ds (take (m + ?c) ?k) < m + ?c))"
  proof (cases "ec_restart s")
    case True
    then have "\<not> compares i s" by (simp add: compares_def)
    then show ?thesis
      using True restart sh by (simp add: new_shared_def key_shared_restart)
  next
    case False
    then have plain: "key_shared x ds l = shared_len ?p l" for l using restart key_shared_plain by blast
    have mis: "ec_mismatch s \<longleftrightarrow> shared_len ?p (take m ?k) < m" using cmp False by (simp add: key_compared_def plain)
    note app = shared_len_append [of ?p "take m ?k" "beat_bytes b", unfolded lm, folded taken]
    show ?thesis
    proof (cases "ec_mismatch s")
      case True
      then have "\<not> compares i s" by (simp add: compares_def)
      then show ?thesis using True mis sh app by (simp add: new_shared_def new_mismatch_def plain)
    next
      case ok: False
      have cmps: "compares i s" using acc False ok by (simp add: compares_def)
      have eqm: "\<not> shared_len ?p (take m ?k) < m" using mis ok by blast
      let ?e = "shared_len (drop m ?p) (beat_bytes b)"
      have new: "shared_len ?p (take (m + ?c) ?k) = m + ?e" using app eqm by simp
      have e: "?e \<le> ?c" by (rule shared_len_le(2))
      have c8: "?c \<le> 8" using keep_count_le by simp
      note f = first_mismatch_shared [OF prev b m(1)]
      have u: "unat (ec_recv s + of_nat n) = m + n" if "n \<le> 8" for n
        using that m k72 by (simp add: unat_word_ariths unat_of_nat)
      show ?thesis
      proof (cases "?e < ?c")
        case True
        then have "first_mismatch i s = ?e" "?e < 8" using f c8 by simp_all
        then show ?thesis using cmps new True u [of ?e] by (simp add: new_shared_def new_mismatch_def plain)
      next
        case False
        then have "first_mismatch i s = 8" "?e = ?c" using f e by simp_all
        then show ?thesis using cmps new ok u [of ?c] c8 b by (simp add: new_shared_def new_mismatch_def plain)
      qed
    qed
  qed
  show "unat (new_shared i s) = key_shared x ds (take (m + ?c) ?k)" using both by blast
  show "\<not> ec_restart s \<Longrightarrow> new_mismatch i s \<longleftrightarrow> key_shared x ds (take (m + ?c) ?k) < m + ?c" using both by blast
qed

section \<open>The edge\<close>

lemma lanes_held:
  assumes held: "key_held x m k s" and buf: "length (cur_buf s) = 64" and undef: "ucast (ec_undef s) = x"
    and b: "dense b" and bytes: "beat_bytes b = take (length (beat_bytes b)) (drop m k)" and c: "m + length (beat_bytes b) \<le> length k"
    and t: "cur_buf t = write_lanes m b (cur_buf s)" "ec_undef t = ec_undef s"
  shows "key_held x (m + length (beat_bytes b)) k t" and "length (cur_buf t) = 64"
proof -
  let ?c = "length (beat_bytes b)"
  have lanes: "write_lanes m b (cur_buf s) =
      fold (\<lambda>k a. if bit (bt_keep b) k then a[m + k := byte_of (bt_data b) k] else a) [0..<8] (cur_buf s)"
    by (simp add: write_lanes_def write_lane_def [abs_def])
  note p = put_part [of 8 b m "cur_buf s", folded lanes, unfolded buf]
  show len: "length (cur_buf t) = 64" using p by (simp add: t)
  have db: "beat_bytes b = map (byte_of (bt_data b)) [0..<?c]" using dense_bytes [OF b] by simp
  have keep: "k < 8 \<Longrightarrow> bit (bt_keep b) k \<longleftrightarrow> k < ?c" for k using b by (simp add: dense_def)
  have c8: "?c \<le> 8" using keep_count_le by simp
  have new: "byte_of (bt_data b) (j - m) = k ! j" if "m \<le> j" "j < m + ?c" for j
  proof -
    have "beat_bytes b ! (j - m) = take ?c (drop m k) ! (j - m)" by (rule arg_cong [OF bytes])
    also have "\<dots> = k ! j" using that c by simp
    finally show ?thesis using that by (subst (asm) db) simp
  qed
  show "key_held x (m + ?c) k t"
    unfolding key_held_def
  proof (intro allI impI)
    fix j assume j: "j < m + ?c"
    then have jk: "j < length k" using c by simp
    show "buf_get t (cur_buf t) j = seen x k ! j"
    proof (cases "j < 64")
      case True
      have seen: "seen x k ! j = k ! j" using True jk by (simp add: seen_def nth_append)
      have "cur_buf t ! j = (if m \<le> j \<and> j < m + 8 \<and> bit (bt_keep b) (j - m) then byte_of (bt_data b) (j - m) else cur_buf s ! j)"
        using p True by (simp add: t)
      moreover have "cur_buf s ! j = k ! j" if "j < m"
      proof -
        have "buf_get s (cur_buf s) j = seen x k ! j" using held that by (simp add: key_held_def)
        then show ?thesis using True buf seen by (simp add: buf_get_def)
      qed
      ultimately have "cur_buf t ! j = k ! j" using new [of j] keep [of "j - m"] j c8 by (cases "m \<le> j") auto
      then show ?thesis using True len seen by (simp add: buf_get_def)
    next
      case False
      then show ?thesis using len undef jk by (simp add: buf_get_def t seen_def nth_append)
    qed
  qed
qed

lemma recv_step:
  fixes c :: enc_choice
  assumes st: "ec_state s = Ec_Recv_Key" and at: "at_recv x ds r todo W s f"
  defines "i \<equiv> enc_in_of c f"
  shows "advances x (ds @ r # todo) W i s (enc_recv i s (enc_defaults i s)) (enc_consume i s f)"
proof -
  let ?t = "enc_defaults i s" and ?k = "fst r" and ?m = "unat (ec_recv s)"
  have W: "W = entries_of x ds" and bg: "begun x ds r W s" and m: "?m < length ?k" and held: "key_held x ?m ?k s"
    and cmp: "key_compared x ds ?k ?m s" and fl: "flowing ?m 0 r todo f"
    using at unfolding at_recv_def by blast+
  have run: "running x (restarts_of x (ds @ [r])) W s" and prev: "prev_held x ds s" and ok: "rec_ok r"
    and key_len: "unat (ec_key_len s) = length ?k"
    using bg unfolding begun_def by blast+
  have k72: "length ?k \<le> 72" using ok by (simp add: rec_ok_def)
  have norec: "\<not> enc_rec_ready s" using st by (simp add: enc_rec_ready_def)
  show ?thesis
  proof (cases "enc_accept i s")
    case False
    have f: "enc_consume i s f = f" using False norec by (simp add: enc_consume_def)
    have eq: "enc_recv i s ?t = ?t" using False by (simp add: enc_recv_def)
    have "at_recv x ds r todo W ?t f"
      using at unfolding at_recv_def key_compared_def edge_asserts edge_other .
    then have "working x (ds @ r # todo) W ?t f" by (intro working_intros(2)) (simp_all add: st)
    then show ?thesis unfolding eq f by (intro advances_quiet keeps_defaults) simp_all
  next
    case True
    then have ev: "e_valid i" by (simp add: enc_accept_def)
    obtain kb vb xs where beats: "fd_beats f = kb @ vb @ xs" and kb: "chunks kb (drop ?m ?k)" and vb: "chunks vb (drop 0 (snd r))"
      and xs: "presents xs todo" and hdrs: "fd_hdrs f = map header_of todo"
      using fl by (auto simp: flowing_def)
    have "kb \<noteq> []" using kb m by (auto simp: chunks_def)
    then obtain b kb' where kbs: "kb = b # kb'" by (cases kb) auto
    note ch = chunks_Cons [OF kb [unfolded kbs]]
    let ?c = "length (beat_bytes b)"
    have eb: "e_beat i = b" by (simp add: i_def enc_in_of_def beats kbs)
    have c: "?m + ?c \<le> length ?k" using ch(3) m by simp
    have cc: "keep_count (bt_keep (e_beat i)) = ?c" by (simp add: eb)
    note new = compare_step [OF bg cmp refl m True st ch(1) eb ch(2) c]
    let ?n = "ec_recv s + of_nat ?c"
    have n: "unat ?n = ?m + ?c" using c k72 by (simp add: unat_word_ariths unat_of_nat)
    define u where "u = (put_cur (write_lanes ?m b (cur_buf s)) ?t)
      \<lparr>ec_shared := new_shared i s, ec_mismatch := new_mismatch i s, ec_recv := ?n\<rparr>"
    have bufs: "length (ec_buf_a s) = 64" "length (ec_buf_b s) = 64" "ucast (ec_undef s) = x" using run by (simp_all add: running_def)
    have cb: "length (cur_buf s) = 64" using bufs by (simp add: cur_buf_def)
    have cu: "cur_buf u = write_lanes ?m b (cur_buf s)" by (simp add: u_def put_cur_def cur_buf_def)
    have pu: "prev_buf u = prev_buf s" by (simp add: u_def put_cur_def prev_buf_def)
    note lanes = lanes_held [OF held cb bufs(3) ch(1,2) c cu]
    have ku: "key_held x (?m + ?c) ?k u" and lu: "length (cur_buf u) = 64" using lanes by (simp_all add: u_def)
    have "length (ec_buf_a u) = 64 \<and> length (ec_buf_b u) = 64"
      using lu bufs by (cases "ec_prev_sel s") (simp_all add: u_def put_cur_def cur_buf_def)
    then have ru: "running x (restarts_of x (ds @ [r])) W u"
      using run by (simp add: running_def offsets_hold_def u_def)
    have un: "ec_undef u = ec_undef s" by (simp add: u_def)
    have "buf_get u = buf_get s" unfolding buf_get_def [abs_def] un ..
    moreover have "ec_prev_len u = ec_prev_len s" by (simp add: u_def)
    ultimately have "prev_held x ds u" using prev by (simp add: prev_held_def pu)
    then have bu: "begun x ds r W u" using bg ru by (simp add: begun_def) (simp add: u_def)
    have f: "enc_consume i s f = f\<lparr>fd_beats := kb' @ vb @ xs\<rparr>"
      using True norec by (simp add: enc_consume_def beats kbs)
    have flow: "flowing (?m + ?c) 0 r todo (f\<lparr>fd_beats := kb' @ vb @ xs\<rparr>)"
      using hdrs ch(5) vb xs by (auto simp: flowing_def add.commute)
    have quiet: "ec_valid u = ec_valid ?t" "ec_data u = ec_data s" "ec_keep u = ec_keep s" "ec_last u = ec_last s"
      by (simp_all add: u_def)
    have le: "ec_key_len s \<le> ?n \<longleftrightarrow> length ?k \<le> ?m + ?c" by (simp only: word_le_nat_alt n key_len)
    show ?thesis
    proof (cases "length ?k \<le> ?m + ?c")
      case fin: True
      then have all: "?m + ?c = length ?k" using c by simp
      let ?v = "u\<lparr>ec_unshared := ec_key_len s - new_shared i s, ec_state := Ec_Write_Varints\<rparr>"
      have eq: "enc_recv i s ?t = ?v"
        using True le fin by (simp add: enc_recv_def Let_def u_def cc eb)
      have sh: "unat (new_shared i s) = key_shared x ds ?k" using new(1) unfolding all by simp
      have "unat (ec_key_len s - new_shared i s) = length ?k - key_shared x ds ?k"
        using sh key_len key_shared_le [of x ds ?k] by (subst unat_sub) (simp_all add: word_le_nat_alt)
      then have "split_key x ds ?k ?v"
        using ku sh held_cong(2) [of ?v u x "length ?k" ?k] unfolding all by (simp add: split_key_def) (simp add: u_def)
      moreover have "begun x ds r W ?v"
        by (rule begun_cong [OF bu]) (use ru in \<open>simp_all add: running_cong [of ?v u] held_cong [of ?v u]\<close>)
      ultimately have "at_varints x ds r todo W ?v (f\<lparr>fd_beats := kb' @ vb @ xs\<rparr>)"
        using W flow unfolding all at_varints_def by blast
      then have "working x (ds @ r # todo) W ?v (f\<lparr>fd_beats := kb' @ vb @ xs\<rparr>)"
        by (intro working_intros(3)) simp_all
      then show ?thesis unfolding eq f by (intro advances_quiet keeps_defaults) (simp_all add: quiet)
    next
      case more: False
      have eq: "enc_recv i s ?t = u"
        using True le more by (simp add: enc_recv_def Let_def u_def cc eb)
      have rn: "unat (ec_recv u) = ?m + ?c" unfolding u_def using n by simp
      have "key_compared x ds ?k (?m + ?c) u"
        using new by (simp add: key_compared_def) (simp add: u_def)
      then have "at_recv x ds r todo W u (f\<lparr>fd_beats := kb' @ vb @ xs\<rparr>)"
        using W bu ku flow more unfolding at_recv_def rn by simp
      then have "working x (ds @ r # todo) W u (f\<lparr>fd_beats := kb' @ vb @ xs\<rparr>)"
        by (intro working_intros(2)) (use st in \<open>simp_all add: u_def\<close>)
      then show ?thesis unfolding eq f by (intro advances_quiet keeps_defaults) (simp_all add: quiet)
    qed
  qed
qed

end
