(* ===== verification/Encoder_Entry.thy ===== *)
theory Encoder_Entry
  imports Encoder_Receive
begin

text \<open>
  Writing an entry: the three varints in a beat, the rest of the key from the buffer, the value as it comes in, the
  end of the entry. No write is refused while the entries fit the block.
\<close>

section \<open>Room\<close>

definition fits :: "byte \<Rightarrow> entry list \<Rightarrow> bool" where
  "fits x rs \<longleftrightarrow> length (entries_of x rs) \<le> 4096"

lemma entries_upto: "length (entries_of x (ds @ [r])) \<le> length (entries_of x (ds @ r # todo))"
  using entries_prefix [of x "ds @ [r]" todo] by simp

lemma entries_of_next: "entries_of x (ds @ [r]) = entries_of x ds @ varints_of (key_shared x ds (fst r)) r @
    drop (key_shared x ds (fst r)) (seen x (fst r)) @ snd r"
  by (simp add: entries_snoc entry_out_parts key_shared_def)

lemma room:
  assumes "fits x (ds @ r # todo)" and "begun x ds r W s" and "length W < length (entries_of x (ds @ [r]))"
  shows "\<not> ENC_MAX_BLOCK_BYTES \<le> ec_write s"
proof -
  have "unat (ec_write s) = length W" using assms(2) by (simp add: begun_def running_def)
  then have "unat (ec_write s) < 4096" using assms(1,3) entries_upto [of x ds r todo] by (simp add: fits_def)
  then show ?thesis by (simp add: ENC_MAX_BLOCK_BYTES_def word_le_nat_alt)
qed

lemma room_append:
  assumes "fits x (ds @ r # todo)" and "length (W @ bs) \<le> length (entries_of x (ds @ [r]))"
  shows "length W + length bs \<le> 8192"
  using assms entries_upto [of x ds r todo] by (simp add: fits_def)

lemma emits_beat:
  assumes "can_emit i s" and "ec_valid t" "\<not> ec_last t" "ec_data t = d" "ec_keep t = k"
    and "beat_bytes (beat_with d k False) = bs" "packable (beat_with d k False)"
  shows "emits i s t bs"
  using assms by (simp add: emits_def)

lemma no_input: "ec_state s \<notin> {Ec_Wait_Record, Ec_Recv_Key, Ec_Stream_Value} \<Longrightarrow> enc_consume i s f = f"
  by (auto simp: enc_consume_def enc_rec_ready_def enc_accept_def enc_axis_ready_def)

lemma begun_cases:
  assumes "begun x ds r W s"
  shows "running x (restarts_of x (ds @ [r])) W s" "prev_held x ds s" "rec_ok r" "unat (ec_key_len s) = length (fst r)"
    "unat (ec_value_len s) = length (snd r)" "unat (ec_since s) = length ds mod 16" "\<not> ec_last s" "unat (ec_write s) = length W"
  using assms unfolding begun_def running_def by blast+

text \<open>A beat that is written: only the output, the write index and what is named change.\<close>

lemma begun_write:
  assumes "begun x ds r W s" and "ec_write t = ec_write s + of_nat (length bs)" and "length W + length bs \<le> 8192"
    and "ec_busy t = ec_busy s" "ec_error t = ec_error s" "ec_last t = ec_last s" "ec_undef t = ec_undef s"
    "ec_buf_a t = ec_buf_a s" "ec_buf_b t = ec_buf_b s" "ec_offsets t = ec_offsets s" "ec_restart_count t = ec_restart_count s"
    "ec_prev_sel t = ec_prev_sel s" "ec_prev_len t = ec_prev_len s"
    "ec_since t = ec_since s" "ec_key_len t = ec_key_len s" "ec_value_len t = ec_value_len s" "ec_restart t = ec_restart s"
  shows "begun x ds r (W @ bs) t"
proof -
  have "running x (restarts_of x (ds @ [r])) (W @ bs) t"
    by (rule running_write [OF begun_cases(1) [OF assms(1)] assms(2-11)])
  moreover have "prev_held x ds t = prev_held x ds s" by (rule held_cong(1)) (fact assms)+
  ultimately show ?thesis by (rule begun_cong [OF assms(1)]) (fact assms)+
qed

lemma split_cong:
  assumes "split_key x ds k s" "ec_undef t = ec_undef s" "ec_buf_a t = ec_buf_a s" "ec_buf_b t = ec_buf_b s"
    "ec_prev_sel t = ec_prev_sel s" "ec_shared t = ec_shared s" "ec_unshared t = ec_unshared s"
  shows "split_key x ds k t"
  using assms held_cong(2) [of t s x "length k" k] by (simp add: split_key_def)

section \<open>The varints\<close>

lemma varints_step:
  fixes c :: enc_choice
  assumes st: "ec_state s = Ec_Write_Varints" and at: "at_varints x ds r todo W s f" and fits: "fits x (ds @ r # todo)"
  defines "i \<equiv> enc_in_of c f"
  shows "advances x (ds @ r # todo) W i s (enc_varints i s (enc_defaults i s)) (enc_consume i s f)"
proof -
  let ?t = "enc_defaults i s" and ?k = "fst r" and ?v = "snd r" and ?sh = "key_shared x ds (fst r)"
  have W: "W = entries_of x ds" and bg: "begun x ds r W s" and sp: "split_key x ds ?k s" and fl: "flowing (length ?k) 0 r todo f"
    using at unfolding at_varints_def by blast+
  note b = begun_cases [OF bg]
  have lens: "length ?k \<le> 72" "length ?v \<le> 1024" "?sh \<le> length ?k" using b(3) key_shared_le by (simp_all add: rec_ok_def)
  have sh: "unat (ec_shared s) = ?sh" and un: "unat (ec_unshared s) = length ?k - ?sh" using sp by (simp_all add: split_key_def)
  let ?vs = "varints_of ?sh r"
  have vs: "varint (of_nat (unat (ec_shared s))) @ varint (of_nat (unat (ec_unshared s))) @ varint (of_nat (unat (ec_value_len s))) = ?vs"
    unfolding sh un b(5) varints_of_def ..
  have "unat (ec_shared s) < 128" "unat (ec_unshared s) < 128" "unat (ec_value_len s) < 16384" using sh un b(5) lens by simp_all
  note comb = combined_varints [OF this, unfolded vs]
  have f: "enc_consume i s f = f" by (rule no_input) (simp add: st)
  have room: "\<not> ENC_MAX_BLOCK_BYTES \<le> ec_write s"
    by (rule room [OF fits bg]) (use comb(4) in \<open>auto simp: W entries_of_next\<close>)
  show ?thesis
  proof (cases "can_emit i s")
    case False
    then have eq: "enc_varints i s ?t = ?t" using room by (simp add: enc_varints_def)
    have "at_varints x ds r todo W ?t f"
      using at unfolding at_varints_def split_key_def edge_asserts edge_other .
    then have "working x (ds @ r # todo) W ?t f" by (intro working_intros(3)) (simp_all add: st)
    then show ?thesis unfolding eq f by (intro advances_quiet keeps_defaults) simp_all
  next
    case True
    define u where "u = (enc_emit (pack_bytes (take 8 (p13_combined s))) (p13_keep_lo (p13_total s)) (p13_total s) s ?t)\<lparr>ec_copy := 0\<rparr>"
    define w where "w = (if ec_unshared s = 0 then u\<lparr>ec_rem := ucast (ec_value_len s), ec_state := Ec_Stream_Value\<rparr>
         else u\<lparr>ec_state := Ec_Write_Key\<rparr>)"
    have eq: "enc_varints i s ?t = w"
      using True room comb by (simp add: enc_varints_def after_varints_def Let_def u_def w_def)
    have regs: "ec_write w = ec_write s + of_nat (length ?vs)" "ec_busy w = ec_busy s" "ec_error w = ec_error s" "ec_last w = ec_last s"
      "ec_undef w = ec_undef s" "ec_buf_a w = ec_buf_a s" "ec_buf_b w = ec_buf_b s" "ec_offsets w = ec_offsets s"
      "ec_restart_count w = ec_restart_count s" "ec_prev_sel w = ec_prev_sel s" "ec_prev_len w = ec_prev_len s"
      "ec_since w = ec_since s" "ec_key_len w = ec_key_len s" "ec_value_len w = ec_value_len s" "ec_restart w = ec_restart s"
      "ec_shared w = ec_shared s" "ec_unshared w = ec_unshared s" "ec_copy w = 0" "ec_valid w"
      "ec_data w = pack_bytes (take 8 (p13_combined s))" "ec_keep w = p13_keep_lo (length ?vs)"
      by (simp_all add: w_def u_def enc_emit_def comb(1))
    have em: "emits i s w ?vs"
    proof (rule emits_beat [OF True])
      have k: "p13_keep_lo (length ?vs) = packer_keep (length ?vs)" using comb by (intro p13_keep) linarith
      have l: "0 < length ?vs" "length ?vs \<le> 8" "length ?vs \<le> length (take 8 (p13_combined s))"
        using comb(3-5) by (linarith, linarith, simp)
      have t: "take (length ?vs) (take 8 (p13_combined s)) = ?vs" using comb by (simp add: min_def)
      show "beat_bytes (beat_with (pack_bytes (take 8 (p13_combined s))) (p13_keep_lo (length ?vs)) False) = ?vs"
        unfolding k packed_beat(1) [OF l] t ..
      show "packable (beat_with (pack_bytes (take 8 (p13_combined s))) (p13_keep_lo (length ?vs)) False)"
        unfolding k by (rule packed_beat(2) [OF l])
    qed (use b(7) in \<open>simp_all add: regs\<close>)
    have bw: "begun x ds r (W @ ?vs) w"
      by (rule begun_write [OF bg regs(1) room_append [OF fits] regs(2-15)]) (simp add: W entries_of_next)
    have sw: "split_key x ds ?k w" by (rule split_cong [OF sp]) (simp_all add: regs)
    have "working x (ds @ r # todo) (W @ ?vs) w f"
    proof (cases "ec_unshared s = 0")
      case True
      then have all: "?sh = length ?k" using un lens(3) by simp
      have "unat (ec_rem w) = length ?v"
        using True b(5) by (simp add: w_def unsigned_ucast_eq take_bit_nat_eq_self)
      then have "at_value x ds r todo (W @ ?vs) w f"
        using bw sw fl W all unfolding at_value_def by simp
      then show ?thesis by (intro working_intros(5)) (use True in \<open>simp_all add: w_def\<close>)
    next
      case False
      have "at_key x ds r todo (W @ ?vs) w f"
        using bw sw fl W unfolding at_key_def by (simp add: regs)
      then show ?thesis by (intro working_intros(4)) (use False in \<open>simp_all add: w_def\<close>)
    qed
    then show ?thesis unfolding eq f by (rule advances_emit [OF em])
  qed
qed

section \<open>The key\<close>

lemma key_word:
  assumes "key_held x (length k) k s" and "unat (ec_shared s) + unat (ec_copy s) + n \<le> length k" and "length k \<le> 72" and "n \<le> 8"
  shows "take n (map (\<lambda>j. buf_get s (cur_buf s) (unat (ec_shared s + ec_copy s) + j)) [0..<8]) =
    take n (drop (unat (ec_shared s) + unat (ec_copy s)) (seen x k))"
proof (rule nth_equalityI)
  have u: "unat (ec_shared s + ec_copy s) = unat (ec_shared s) + unat (ec_copy s)"
    using assms(2,3) by (simp add: unat_word_ariths)
  show "length (take n (map (\<lambda>j. buf_get s (cur_buf s) (unat (ec_shared s + ec_copy s) + j)) [0..<8])) =
    length (take n (drop (unat (ec_shared s) + unat (ec_copy s)) (seen x k)))"
    using assms(2,4) by simp
  fix j assume "j < length (take n (map (\<lambda>j. buf_get s (cur_buf s) (unat (ec_shared s + ec_copy s) + j)) [0..<8]))"
  then have j: "j < n" "j < 8" by simp_all
  have "buf_get s (cur_buf s) (unat (ec_shared s) + unat (ec_copy s) + j) = seen x k ! (unat (ec_shared s) + unat (ec_copy s) + j)"
    using assms(1,2) j by (simp add: key_held_def)
  then show "take n (map (\<lambda>j. buf_get s (cur_buf s) (unat (ec_shared s + ec_copy s) + j)) [0..<8]) ! j =
    take n (drop (unat (ec_shared s) + unat (ec_copy s)) (seen x k)) ! j"
    using j assms(2) by (simp add: u)
qed

lemma key_step:
  fixes c :: enc_choice
  assumes st: "ec_state s = Ec_Write_Key" and at: "at_key x ds r todo W s f" and fits: "fits x (ds @ r # todo)"
  defines "i \<equiv> enc_in_of c f"
  shows "advances x (ds @ r # todo) W i s (enc_key i s (enc_defaults i s)) (enc_consume i s f)"
proof -
  let ?t = "enc_defaults i s" and ?k = "fst r" and ?v = "snd r" and ?sh = "key_shared x ds (fst r)"
  let ?rest = "drop ?sh (seen x ?k)" and ?c = "unat (ec_copy s)" and ?vs = "varints_of ?sh r"
  have W: "W = entries_of x ds @ ?vs @ take ?c ?rest" and le: "?c \<le> length ?k - ?sh" and bg: "begun x ds r W s"
    and sp: "split_key x ds ?k s" and fl: "flowing (length ?k) 0 r todo f"
    using at unfolding at_key_def by blast+
  note b = begun_cases [OF bg]
  have lens: "length ?k \<le> 72" "?sh \<le> length ?k" using b(3) key_shared_le by (simp_all add: rec_ok_def)
  have held: "key_held x (length ?k) ?k s" and sh: "unat (ec_shared s) = ?sh" and un: "unat (ec_unshared s) = length ?k - ?sh"
    using sp by (simp_all add: split_key_def)
  have f: "enc_consume i s f = f" by (rule no_input) (simp add: st)
  show ?thesis
  proof (cases "ec_unshared s \<le> ec_copy s")
    case True
    then have all: "?c = length ?k - ?sh" using un le by (simp add: word_le_nat_alt)
    let ?w = "?t\<lparr>ec_rem := ucast (ec_value_len s), ec_state := Ec_Stream_Value\<rparr>"
    have eq: "enc_key i s ?t = ?w" using True by (simp add: enc_key_def)
    have "unat (ec_rem ?w) = length ?v" using b(5) by (simp add: unsigned_ucast_eq take_bit_nat_eq_self)
    moreover have "begun x ds r W ?w" by (rule begun_cong [OF bg]) (use b(1) in \<open>simp_all add: running_cong [of ?w s] held_cong(1) [of ?w s]\<close>)
    moreover have "split_key x ds ?k ?w" by (rule split_cong [OF sp]) simp_all
    ultimately have "at_value x ds r todo W ?w f" using fl W all by (simp add: at_value_def)
    then have "working x (ds @ r # todo) W ?w f" by (intro working_intros(5)) simp_all
    then show ?thesis unfolding eq f by (intro advances_quiet keeps_defaults) simp_all
  next
    case more: False
    then have lt: "?c < length ?k - ?sh" using un by (simp add: word_le_nat_alt)
    have room: "\<not> ENC_MAX_BLOCK_BYTES \<le> ec_write s"
      by (rule room [OF fits bg]) (use lt in \<open>simp add: W entries_of_next\<close>)
    show ?thesis
    proof (cases "can_emit i s")
      case False
      then have eq: "enc_key i s ?t = ?t" using room more by (simp add: enc_key_def)
      have "at_key x ds r todo W ?t f" using at unfolding at_key_def split_key_def edge_asserts edge_other .
      then have "working x (ds @ r # todo) W ?t f" by (intro working_intros(4)) (simp_all add: st)
      then show ?thesis unfolding eq f by (intro advances_quiet keeps_defaults) simp_all
    next
      case True
      let ?n = "key_emit_bytes s" and ?ks = "map (\<lambda>j. buf_get s (cur_buf s) (unat (ec_shared s + ec_copy s) + j)) [0..<8]"
      have rem: "unat (key_rem s) = length ?k - ?sh - ?c" using un lt by (simp add: key_rem_def unat_sub word_le_nat_alt)
      have n: "?n = min 8 (length ?k - ?sh - ?c)" using rem by (simp add: key_emit_bytes_def word_le_nat_alt)
      then have n8: "0 < ?n" "?n \<le> 8" using lt by simp_all
      let ?bs = "take ?n (drop ?c ?rest)"
      have lb: "length ?bs = ?n" using n by simp
      have "take ?n ?ks = take ?n (drop (?sh + ?c) (seen x ?k))"
        unfolding sh [symmetric] by (rule key_word [OF held]) (use n8 n lens lt sh in simp_all)
      then have word: "take ?n ?ks = ?bs" by (simp add: add.commute)
      define w where "w = (enc_emit (key_emit_data s) (key_emit_keep ?n) ?n s ?t)\<lparr>ec_copy := ec_copy s + of_nat ?n\<rparr>"
      have eq: "enc_key i s ?t = w" using True room more by (simp add: enc_key_def w_def)
      have regs: "ec_write w = ec_write s + of_nat (length ?bs)" "ec_busy w = ec_busy s" "ec_error w = ec_error s" "ec_last w = ec_last s"
        "ec_undef w = ec_undef s" "ec_buf_a w = ec_buf_a s" "ec_buf_b w = ec_buf_b s" "ec_offsets w = ec_offsets s"
        "ec_restart_count w = ec_restart_count s" "ec_prev_sel w = ec_prev_sel s" "ec_prev_len w = ec_prev_len s"
        "ec_since w = ec_since s" "ec_key_len w = ec_key_len s" "ec_value_len w = ec_value_len s" "ec_restart w = ec_restart s"
        "ec_shared w = ec_shared s" "ec_unshared w = ec_unshared s" "ec_valid w" "ec_state w = Ec_Write_Key"
        "ec_data w = pack_bytes ?ks" "ec_keep w = key_emit_keep ?n"
        using st unfolding lb by (simp_all add: w_def enc_emit_def key_emit_data_def)
      have em: "emits i s w ?bs"
      proof (rule emits_beat [OF True])
        have l: "?n \<le> length ?ks" using n8 by simp
        show "beat_bytes (beat_with (pack_bytes ?ks) (key_emit_keep ?n) False) = ?bs"
          unfolding key_keep [OF n8] packed_beat(1) [OF n8 l] word ..
        show "packable (beat_with (pack_bytes ?ks) (key_emit_keep ?n) False)"
          unfolding key_keep [OF n8] by (rule packed_beat(2) [OF n8 l])
      qed (use b(7) in \<open>simp_all add: regs\<close>)
      have copy: "unat (ec_copy w) = ?c + ?n" using n lt lens by (simp add: w_def unat_word_ariths unat_of_nat)
      have W': "W @ ?bs = entries_of x ds @ ?vs @ take (?c + ?n) ?rest" by (simp only: W append_assoc take_add)
      have bw: "begun x ds r (W @ ?bs) w"
      proof (rule begun_write [OF bg regs(1) room_append [OF fits] regs(2-15)])
        have "length (take (?c + ?n) ?rest) \<le> length ?rest" by simp
        then show "length (W @ ?bs) \<le> length (entries_of x (ds @ [r]))"
          unfolding W' entries_of_next length_append by linarith
      qed
      have sw: "split_key x ds ?k w" by (rule split_cong [OF sp]) (simp_all add: regs)
      have "at_key x ds r todo (W @ ?bs) w f"
        using bw sw fl n lt unfolding at_key_def copy W' by simp
      then have "working x (ds @ r # todo) (W @ ?bs) w f" by (rule working_intros(4) [OF regs(19)])
      then show ?thesis unfolding eq f by (rule advances_emit [OF em])
    qed
  qed
qed

section \<open>The value\<close>

lemma chunks_Nil: "chunks xs [] \<Longrightarrow> xs = []"
proof (cases xs)
  case (Cons y ys)
  then show "chunks xs [] \<Longrightarrow> xs = []" using chunks_Cons(3,4) [of y ys "[]"] by auto
qed simp

lemma entry_ends:
  assumes bg: "begun x ds r W s" and sp: "split_key x ds (fst r) s" and W: "W = entries_of x (ds @ [r])"
    and fl: "flowing (length (fst r)) (length (snd r)) r todo f"
  shows "at_wait x (ds @ [r]) todo W (enc_entry s (enc_defaults i s)) f" and "keeps_out i s (enc_entry s (enc_defaults i s))"
proof -
  let ?k = "fst r"
  define w where "w = enc_entry s (enc_defaults i s)"
  note b = begun_cases [OF bg]
  have regs: "ec_busy w = ec_busy s" "ec_error w = ec_error s" "ec_last w = ec_last s" "ec_undef w = ec_undef s"
    "ec_buf_a w = ec_buf_a s" "ec_buf_b w = ec_buf_b s" "ec_offsets w = ec_offsets s" "ec_restart_count w = ec_restart_count s"
    "ec_write w = ec_write s" "ec_prev_sel w = (\<not> ec_prev_sel s)" "ec_prev_len w = ec_key_len s" "ec_since w = ec_since s + 1"
    by (simp_all add: w_def enc_entry_def Let_def)
  have run: "running x (restarts_of x (ds @ [r])) W w" using b(1) running_cong [OF regs(1-9)] by blast
  have buf: "buf_get w (prev_buf w) = buf_get s (cur_buf s)"
    unfolding buf_get_def [abs_def] prev_buf_def cur_buf_def regs by simp
  have seen: "last_seen x (ds @ [r]) = seen x ?k" by (simp add: last_seen_def)
  have prev: "prev_held x (ds @ [r]) w"
    using sp b(3,4) unfolding prev_held_def seen buf split_key_def key_held_def regs by (simp add: rec_ok_def)
  have "unat (ec_since s + 1) = length ds mod 16 + 1" using b(6) by (simp add: unat_word_ariths)
  then have since: "unat (ec_since w) = since_of (length (ds @ [r]))" by (simp add: regs since_Suc)
  have "delivers f todo" using fl by (auto simp: flowing_def delivers_def dest!: chunks_Nil)
  then show "at_wait x (ds @ [r]) todo W (enc_entry s (enc_defaults i s)) f"
    using W run prev since unfolding w_def [symmetric] at_wait_def by blast
  show "keeps_out i s (enc_entry s (enc_defaults i s))" by (rule keeps_defaults) (simp_all add: enc_entry_def Let_def)
qed

lemma value_step:
  fixes c :: enc_choice
  assumes st: "ec_state s = Ec_Stream_Value" and at: "at_value x ds r todo W s f" and fits: "fits x (ds @ r # todo)"
  defines "i \<equiv> enc_in_of c f"
  shows "advances x (ds @ r # todo) W i s (enc_value i s (enc_defaults i s)) (enc_consume i s f)"
proof -
  let ?t = "enc_defaults i s" and ?k = "fst r" and ?v = "snd r" and ?sh = "key_shared x ds (fst r)"
  let ?q = "length (snd r) - unat (ec_rem s)" and ?pre = "entries_of x ds @ varints_of ?sh r @ drop ?sh (seen x ?k)"
  have W: "W = ?pre @ take ?q ?v" and le: "unat (ec_rem s) \<le> length ?v" and bg: "begun x ds r W s"
    and sp: "split_key x ds ?k s" and fl: "flowing (length ?k) ?q r todo f"
    using at unfolding at_value_def append_assoc by blast+
  note b = begun_cases [OF bg]
  have whole: "entries_of x (ds @ [r]) = ?pre @ ?v" by (simp only: entries_of_next append_assoc)
  have norec: "\<not> enc_rec_ready s" using st by (simp add: enc_rec_ready_def)
  show ?thesis
  proof (cases "ec_rem s = 0")
    case True
    then have no: "\<not> enc_accept i s" using st by (simp add: enc_accept_def enc_axis_ready_def)
    have f: "enc_consume i s f = f" using no norec by (simp add: enc_consume_def)
    have eq: "enc_value i s ?t = enc_entry s ?t" using True by (simp add: enc_value_def)
    have "W = entries_of x (ds @ [r])" "flowing (length ?k) (length ?v) r todo f" using W fl True by (simp_all add: whole)
    note ends = entry_ends [OF bg sp this]
    have "ec_state (enc_entry s ?t) = Ec_Wait_Record" by (simp add: enc_entry_def Let_def)
    then have "working x ((ds @ [r]) @ todo) W (enc_entry s ?t) f" by (rule working_intros(1)) (rule ends(1))
    then show ?thesis unfolding eq f using advances_quiet [OF ends(2)] by simp
  next
    case more: False
    then have rem: "0 < unat (ec_rem s)" by (simp add: unat_gt_0)
    have lW: "length W < length (entries_of x (ds @ [r]))" using rem le unfolding whole W length_append by simp
    note room = room [OF fits bg lW]
    show ?thesis
    proof (cases "enc_accept i s")
      case False
      have f: "enc_consume i s f = f" using False norec by (simp add: enc_consume_def)
      have eq: "enc_value i s ?t = ?t" using False more by (simp add: enc_value_def)
      have "at_value x ds r todo W ?t f" using at unfolding at_value_def split_key_def edge_asserts edge_other .
      then have "working x (ds @ r # todo) W ?t f" by (intro working_intros(5)) (simp_all add: st)
      then show ?thesis unfolding eq f by (intro advances_quiet keeps_defaults) simp_all
    next
      case True
      obtain kb vb xs where beats: "fd_beats f = kb @ vb @ xs" and kb: "chunks kb (drop (length ?k) ?k)"
        and vb: "chunks vb (drop ?q ?v)" and xs: "presents xs todo" and hdrs: "fd_hdrs f = map header_of todo"
        using fl by (auto simp: flowing_def)
      have k0: "kb = []" using kb by (intro chunks_Nil) simp
      have "vb \<noteq> []" using vb rem le by (auto simp: chunks_def)
      then obtain y vb' where vbs: "vb = y # vb'" by (cases vb) auto
      note ch = chunks_Cons [OF vb [unfolded vbs]]
      let ?bs = "beat_bytes y"
      have eb: "e_beat i = y" by (simp add: i_def enc_in_of_def beats k0 vbs)
      have n: "length ?bs \<le> unat (ec_rem s)" using ch(3) le by simp
      have can: "can_emit i s" using True st by (simp add: enc_accept_def enc_axis_ready_def)
      define w where "w = (enc_emit (bt_data y) (bt_keep y) (length ?bs) s ?t)\<lparr>ec_rem := ec_rem s - of_nat (length ?bs)\<rparr>"
      have eq: "enc_value i s ?t = w" using True room more by (simp add: enc_value_def w_def eb)
      have f: "enc_consume i s f = f\<lparr>fd_beats := vb' @ xs\<rparr>" using True norec by (simp add: enc_consume_def beats k0 vbs)
      have regs: "ec_write w = ec_write s + of_nat (length ?bs)" "ec_busy w = ec_busy s" "ec_error w = ec_error s" "ec_last w = ec_last s"
        "ec_undef w = ec_undef s" "ec_buf_a w = ec_buf_a s" "ec_buf_b w = ec_buf_b s" "ec_offsets w = ec_offsets s"
        "ec_restart_count w = ec_restart_count s" "ec_prev_sel w = ec_prev_sel s" "ec_prev_len w = ec_prev_len s"
        "ec_since w = ec_since s" "ec_key_len w = ec_key_len s" "ec_value_len w = ec_value_len s" "ec_restart w = ec_restart s"
        "ec_shared w = ec_shared s" "ec_unshared w = ec_unshared s" "ec_valid w" "ec_state w = Ec_Stream_Value"
        "ec_data w = bt_data y" "ec_keep w = bt_keep y"
        using st by (simp_all add: w_def enc_emit_def)
      have same: "beat_bytes (beat_with (bt_data y) (bt_keep y) False) = ?bs" by (simp add: beat_bytes_def beat_with_def)
      have pk: "packable (beat_with (bt_data y) (bt_keep y) False)" using ch(1) by (simp add: packable_def beat_with_def dense_def)
      have em: "emits i s w ?bs" by (rule emits_beat [OF can _ _ _ _ same pk]) (use b(7) in \<open>simp_all add: regs\<close>)
      have "unat (of_nat (length ?bs) :: u32) = length ?bs" using keep_count_le [of "bt_keep y"] by (simp add: unat_of_nat)
      then have rem': "unat (ec_rem w) = unat (ec_rem s) - length ?bs"
        using n unfolding w_def by (simp add: unat_sub word_le_nat_alt)
      have q: "length ?v - unat (ec_rem w) = ?q + length ?bs" using n le unfolding rem' by linarith
      have W': "W @ ?bs = ?pre @ take (?q + length ?bs) ?v"
        unfolding W take_add append_assoc by (simp only: ch(2) [symmetric])
      have bw: "begun x ds r (W @ ?bs) w"
      proof (rule begun_write [OF bg regs(1) room_append [OF fits] regs(2-15)])
        have "length (take (?q + length ?bs) ?v) \<le> length ?v" by simp
        then show "length (W @ ?bs) \<le> length (entries_of x (ds @ [r]))" unfolding W' whole length_append by linarith
      qed
      have sw: "split_key x ds ?k w" by (rule split_cong [OF sp]) (simp_all add: regs)
      have "chunks vb' (drop (?q + length ?bs) ?v)" using ch(5) by (simp add: add.commute)
      moreover have "chunks [] (drop (length ?k) ?k)" by (simp add: chunks_def)
      ultimately have fw: "flowing (length ?k) (?q + length ?bs) r todo (f\<lparr>fd_beats := vb' @ xs\<rparr>)"
        using hdrs xs unfolding flowing_def by (intro conjI exI [of _ "[]"] exI [of _ "vb'"] exI [of _ xs]) simp_all
      have "at_value x ds r todo (W @ ?bs) w (f\<lparr>fd_beats := vb' @ xs\<rparr>)"
        unfolding at_value_def q W' append_assoc using bw sw fw rem' le by (auto simp: W' append_assoc)
      then have "working x (ds @ r # todo) (W @ ?bs) w (f\<lparr>fd_beats := vb' @ xs\<rparr>)" by (rule working_intros(5) [OF regs(19)])
      then show ?thesis unfolding eq f by (rule advances_emit [OF em])
    qed
  qed
qed

end
