(* ===== verification/Encoder_Blocks.thy ===== *)
theory Encoder_Blocks
  imports Encoder_Entry
begin

text \<open>
  The end of a block - the restart array two at a time, the count with the last word - and the whole block: from the
  start on every cycle keeps the invariant, so what the sink has is always a beginning of the block, and all of it
  once the encoder is idle again.
\<close>

section \<open>The restart array\<close>

lemma tail_words: "length (concat (map le32 R)) = 4 * length R"
  by (induction R) simp_all

lemma restarts_room:
  assumes "fits x rs" and "n \<le> length (restarts_of x rs)"
  shows "length (entries_of x rs @ concat (map le32 (take n (restarts_of x rs)))) \<le> 5120"
proof -
  have "length (restarts_of x rs) \<le> 256" using few_restarts [of x rs] assms(1) by (simp add: fits_def)
  then show ?thesis using assms by (simp add: fits_def tail_words)
qed

lemma offset_read:
  assumes "running x R W s" and "unat n < length R"
  shows "off_get s n = R ! unat n"
  using assms by (simp add: running_def offsets_hold_def off_get_def)

lemma restarts_step:
  fixes c :: enc_choice
  assumes st: "ec_state s = Ec_Append_Restarts" and hdrs: "fd_hdrs f = []" and at: "at_restarts x rs W s" and fits: "fits x rs"
  defines "i \<equiv> enc_in_of c f"
  shows "advances x rs W i s (enc_restarts i s (enc_defaults i s)) (enc_consume i s f)"
proof -
  let ?t = "enc_defaults i s" and ?R = "restarts_of x rs" and ?e = "unat (ec_emit_idx s)"
  have W: "W = entries_of x rs @ concat (map le32 (take ?e ?R))" and le: "?e \<le> length ?R" and run: "running x ?R W s"
    using at unfolding at_restarts_def by blast+
  have cnt: "unat (ec_restart_count s) = length ?R" "length ?R \<le> 256" and nl: "\<not> ec_last s"
    using run by (simp_all add: running_def offsets_hold_def)
  have f: "enc_consume i s f = f" by (rule no_input) (simp add: st)
  have quiet: "advances x rs W i s ?t f"
  proof (intro advances_quiet keeps_defaults)
    have "at_restarts x rs W ?t" using at unfolding at_restarts_def edge_asserts edge_other .
    then show "working x rs W ?t f" by (simp add: working_def st hdrs)
  qed simp_all
  have emit: "advances x rs W i s w f"
    if "can_emit i s" and n: "0 < n" "?e + n \<le> length ?R" and bytes: "bs = concat (map le32 (take n (drop ?e ?R)))"
      and w: "w = (enc_emit d k (length bs) s ?t)\<lparr>ec_emit_idx := ec_emit_idx s + of_nat n\<rparr>"
      and beat: "beat_bytes (beat_with d k False) = bs" "packable (beat_with d k False)" for n bs w d k
  proof -
    have W': "W @ bs = entries_of x rs @ concat (map le32 (take (?e + n) ?R))" by (simp add: W bytes take_add)
    have len: "length (W @ bs) \<le> 5120" unfolding W' by (rule restarts_room [OF fits n(2)])
    have "running x ?R (W @ bs) w" by (rule running_write [OF run]) (use len in \<open>simp_all add: w enc_emit_def\<close>)
    moreover have "unat (ec_emit_idx w) = ?e + n" using n(2) cnt(2) by (simp add: w unat_word_ariths unat_of_nat)
    ultimately have "at_restarts x rs (W @ bs) w" using n(2) by (simp add: at_restarts_def W')
    then have "working x rs (W @ bs) w f" using st hdrs by (simp add: working_def w enc_emit_def)
    moreover have "emits i s w bs"
      by (rule emits_beat [OF that(1) _ _ _ _ beat]) (use nl in \<open>simp_all add: w enc_emit_def\<close>)
    ultimately show ?thesis by (intro advances_emit)
  qed
  have get: "off_get s n = ?R ! unat n" if "unat n < length ?R" for n by (rule offset_read [OF run that])
  show ?thesis
  proof (cases "ec_restart_count s \<le> ec_emit_idx s")
    case True
    then have e: "?e = length ?R" using le cnt by (simp add: word_le_nat_alt)
    let ?w = "?t\<lparr>ec_state := Ec_Append_Rst_Cnt\<rparr>"
    have "running x ?R W ?w" using run by (subst running_cong [of _ s]) simp_all
    then have "working x rs W ?w f" using W e hdrs by (simp add: working_def at_count_def)
    moreover have "enc_restarts i s ?t = ?w" using True by (simp add: enc_restarts_def)
    ultimately show ?thesis unfolding f by (auto intro!: advances_quiet keeps_defaults)
  next
    case more: False
    then have lt: "?e < length ?R" using cnt by (simp add: word_le_nat_alt)
    have e1: "unat (ec_emit_idx s + 1) = ?e + 1" using lt cnt by (simp add: unat_word_ariths)
    show ?thesis
    proof (cases "can_emit i s")
      case False
      then show ?thesis using quiet more unfolding f by (simp add: enc_restarts_def)
    next
      case can: True
      show ?thesis
      proof (cases "ec_restart_count s \<le> ec_emit_idx s + 1")
        case True
        have bs: "take (Suc 0) (drop ?e ?R) = [?R ! ?e]" using lt by (simp add: take_Suc_conv_app_nth)
        show ?thesis unfolding f
          by (rule emit [of 1 "le32 (?R ! ?e)" _ "ucast (?R ! ?e)" 15, OF can])
            (use True more can lt in \<open>simp_all add: bs word_beat get enc_restarts_def\<close>)
      next
        case False
        then have lt2: "?e + 1 < length ?R" using cnt e1 by (simp add: word_le_nat_alt)
        have bs: "take 2 (drop ?e ?R) = [?R ! ?e, ?R ! (?e + 1)]"
          using lt2 by (simp add: numeral_2_eq_2 take_Suc_conv_app_nth)
        have g: "off_get s (ec_emit_idx s) = ?R ! ?e" "off_get s (ec_emit_idx s + 1) = ?R ! (?e + 1)"
          using get [of "ec_emit_idx s"] get [of "ec_emit_idx s + 1"] lt lt2 e1 by simp_all
        show ?thesis unfolding f
          by (rule emit [of 2 "le32 (?R ! ?e) @ le32 (?R ! (?e + 1))" _ "push_bit 32 (ucast (?R ! (?e + 1))) OR ucast (?R ! ?e)" 255, OF can])
            (use False more can lt2 in \<open>simp_all add: bs word_beat g enc_restarts_def\<close>)
      qed
    qed
  qed
qed

section \<open>One edge at work\<close>

lemma case_step:
  assumes "ec_state s = S"
  shows "S = Ec_Wait_Record \<Longrightarrow> enc_case i s t = enc_wait i s t" "S = Ec_Recv_Key \<Longrightarrow> enc_case i s t = enc_recv i s t"
    "S = Ec_Write_Varints \<Longrightarrow> enc_case i s t = enc_varints i s t" "S = Ec_Write_Key \<Longrightarrow> enc_case i s t = enc_key i s t"
    "S = Ec_Stream_Value \<Longrightarrow> enc_case i s t = enc_value i s t" "S = Ec_Append_Restarts \<Longrightarrow> enc_case i s t = enc_restarts i s t"
    "S = Ec_Append_Rst_Cnt \<Longrightarrow> enc_case i s t = enc_count i s t" "S = Ec_Finish \<Longrightarrow> enc_case i s t = enc_finish s t"
  using assms by (simp_all add: enc_case_def)

lemma work_step:
  fixes c :: enc_choice
  assumes wk: "working x rs W s f" and fits: "fits x rs" and st: "ec_state s \<noteq> Ec_Append_Rst_Cnt"
    and honest: "(eh_done c \<or> ec_done_seen s) \<and> fd_hdrs f \<noteq> [] \<longrightarrow> eh_hdr c"
  defines "i \<equiv> enc_in_of c f"
  shows "advances x rs W i s (enc_step i s) (enc_consume i s f)"
proof (cases "ec_state s")
  case Ec_Wait_Record
  then obtain ds todo where "rs = ds @ todo" "at_wait x ds todo W s f" using wk by (auto simp: working_def)
  then show ?thesis using await_step [OF Ec_Wait_Record _ honest] by (simp add: i_def case_step(1) [OF Ec_Wait_Record])
next
  case Ec_Recv_Key
  then obtain ds r todo where "rs = ds @ r # todo" "at_recv x ds r todo W s f" using wk by (simp add: working_def del: split_paired_Ex) blast
  then show ?thesis using recv_step [OF Ec_Recv_Key] by (simp add: i_def case_step(2) [OF Ec_Recv_Key])
next
  case Ec_Write_Varints
  then obtain ds r todo where "rs = ds @ r # todo" "at_varints x ds r todo W s f" using wk by (simp add: working_def del: split_paired_Ex) blast
  then show ?thesis using varints_step [OF Ec_Write_Varints] fits by (simp add: i_def case_step(3) [OF Ec_Write_Varints])
next
  case Ec_Write_Key
  then obtain ds r todo where "rs = ds @ r # todo" "at_key x ds r todo W s f" using wk by (simp add: working_def del: split_paired_Ex) blast
  then show ?thesis using key_step [OF Ec_Write_Key] fits by (simp add: i_def case_step(4) [OF Ec_Write_Key])
next
  case Ec_Stream_Value
  then obtain ds r todo where "rs = ds @ r # todo" "at_value x ds r todo W s f" using wk by (simp add: working_def del: split_paired_Ex) blast
  then show ?thesis using value_step [OF Ec_Stream_Value] fits by (simp add: i_def case_step(5) [OF Ec_Stream_Value])
next
  case Ec_Append_Restarts
  then have "fd_hdrs f = []" "at_restarts x rs W s" using wk by (simp_all add: working_def)
  then show ?thesis using restarts_step [OF Ec_Append_Restarts _ _ fits] by (simp add: i_def case_step(6) [OF Ec_Append_Restarts])
qed (use wk st in \<open>simp_all add: working_def\<close>)

section \<open>The last word\<close>

definition closes :: "enc_in \<Rightarrow> encoder \<Rightarrow> encoder \<Rightarrow> byte list \<Rightarrow> bool" where
  "closes i s t bs \<longleftrightarrow> can_emit i s \<and> ec_valid t \<and> ec_last t \<and> beat_bytes (beat_with (ec_data t) (ec_keep t) True) = bs \<and>
     packable (beat_with (ec_data t) (ec_keep t) True)"

lemma count_step:
  fixes c :: enc_choice
  assumes st: "ec_state s = Ec_Append_Rst_Cnt" and wk: "working x rs W s f"
  defines "i \<equiv> enc_in_of c f"
  shows "advances x rs W i s (enc_step i s) (enc_consume i s f) \<or>
    (\<exists>bs. closes i s (enc_step i s) bs \<and> ended (enc_step i s) \<and> W @ bs = enc_block x rs)"
proof -
  let ?t = "enc_defaults i s" and ?R = "restarts_of x rs"
  have hdrs: "fd_hdrs f = []" and at: "at_count x rs W s" using wk st by (simp_all add: working_def)
  have W: "W = entries_of x rs @ concat (map le32 ?R)" and run: "running x ?R W s" using at unfolding at_count_def by blast+
  have f: "enc_consume i s f = f" by (rule no_input) (simp add: st)
  have step: "enc_step i s = enc_count i s ?t" by (simp add: i_def case_step(7) [OF st])
  show ?thesis
  proof (cases "can_emit i s")
    case False
    then have "enc_step i s = ?t" by (simp add: step enc_count_def)
    moreover have "at_count x rs W ?t" using at unfolding at_count_def edge_asserts .
    then have "working x rs W ?t f" using hdrs st by (simp add: working_def)
    ultimately show ?thesis unfolding f by (auto intro!: advances_quiet keeps_defaults)
  next
    case True
    have "unat (ec_restart_count s) = length ?R" using run by (simp add: running_def offsets_hold_def)
    then have cnt: "of_nat (length ?R) = ec_restart_count s" by (metis of_nat_unat ucast_id)
    have blk: "W @ le32 (ec_restart_count s) = enc_block x rs" by (simp only: enc_block_def cnt W append_assoc)
    have eq: "enc_step i s = ?t\<lparr>ec_data := ucast (ec_restart_count s), ec_keep := 0b00001111, ec_valid := True, ec_last := True,
        ec_counts := (ec_counts s)\<lparr>en_block_bytes := ec_write s + 4\<rparr>, ec_state := Ec_Finish\<rparr>"
      using True by (simp add: step enc_count_def)
    have "closes i s (enc_step i s) (le32 (ec_restart_count s))"
      unfolding closes_def eq using True word_beat(1,2) [of "ec_restart_count s" True] by simp
    moreover have "ended (enc_step i s)" using run by (simp add: eq ended_def running_def)
    ultimately show ?thesis using blk by blast
  qed
qed

lemma ended_step:
  fixes c :: enc_choice and f :: feed
  assumes e: "ended s"
  defines "i \<equiv> enc_in_of c f"
  shows "ended (enc_step i s)" and "ec_valid (enc_step i s) = (ec_valid s \<and> \<not> eh_ready c)"
    and "ec_valid s \<Longrightarrow> ec_data (enc_step i s) = ec_data s \<and> ec_keep (enc_step i s) = ec_keep s \<and> ec_last (enc_step i s) = ec_last s"
proof -
  have start: "\<not> e_start i" and ready: "e_ready i = eh_ready c" by (simp_all add: i_def enc_in_of_def)
  have st: "ec_state s = Ec_Finish \<or> ec_state s = Ec_Idle" using e by (auto simp: ended_def)
  have eq: "enc_step i s = (if ec_state s = Ec_Finish then enc_finish s (enc_defaults i s) else enc_defaults i s)"
    using st start by (auto simp: i_def enc_case_def)
  have val: "ec_valid (enc_defaults i s) = (ec_valid s \<and> \<not> eh_ready c)" by (simp add: enc_defaults_def ready)
  show "ended (enc_step i s)" using e val unfolding eq by (auto simp: ended_def enc_finish_def)
  show "ec_valid (enc_step i s) = (ec_valid s \<and> \<not> eh_ready c)" unfolding eq by (simp add: val enc_finish_def)
  show "ec_valid s \<Longrightarrow> ec_data (enc_step i s) = ec_data s \<and> ec_keep (enc_step i s) = ec_keep s \<and> ec_last (enc_step i s) = ec_last s"
    unfolding eq by (simp add: enc_finish_def)
qed

section \<open>The invariant\<close>

lemma beats_tokens_snoc: "beats_tokens (xs @ [b]) = beats_tokens xs @ beat_tokens b"
  by (simp add: beats_tokens_def)

lemma en_after: "en_enc (enc_cycle c y) = enc_step (enc_in_of c (en_feed y)) (en_enc y)"
  "en_feed (enc_cycle c y) = enc_consume (enc_in_of c (en_feed y)) (en_enc y) (en_feed y)"
  by (simp_all add: enc_cycle_def Let_def)

lemma advances_hist:
  assumes "advances x rs W (enc_in_of c (en_feed y)) (en_enc y) (en_enc (enc_cycle c y)) (en_feed (enc_cycle c y))"
    and "list_all packable (hist y)" and "beats_tokens (hist y) = map Some W"
  shows "enc_inv x rs (enc_cycle c y)"
  using assms(1) unfolding advances_def
proof (elim disjE conjE exE)
  assume k: "keeps_out (enc_in_of c (en_feed y)) (en_enc y) (en_enc (enc_cycle c y))"
    and w: "working x rs W (en_enc (enc_cycle c y)) (en_feed (enc_cycle c y))"
  have "hist (enc_cycle c y) = hist y" using k by (intro hist_keeps) (simp_all add: keeps_out_def)
  then show ?thesis using w assms(2,3) unfolding enc_inv_def by metis
next
  fix bs
  assume e: "emits (enc_in_of c (en_feed y)) (en_enc y) (en_enc (enc_cycle c y)) bs"
    and w: "working x rs (W @ bs) (en_enc (enc_cycle c y)) (en_feed (enc_cycle c y))"
  let ?b = "beat_with (ec_data (en_enc (enc_cycle c y))) (ec_keep (en_enc (enc_cycle c y))) False"
  have "hist (enc_cycle c y) = hist y @ [?b]" using e hist_emits [of c y] by (simp add: emits_def)
  moreover have "beat_tokens ?b = map Some bs" using e by (simp add: emits_def beat_tokens_def beat_with_def)
  moreover have "packable ?b" using e by (simp add: emits_def)
  ultimately have "list_all packable (hist (enc_cycle c y))" "beats_tokens (hist (enc_cycle c y)) = map Some (W @ bs)"
    using assms(2,3) by (simp_all add: beats_tokens_snoc)
  then show ?thesis using w unfolding enc_inv_def by blast
qed

lemma enc_inv_cycle:
  assumes inv: "enc_inv x rs y" and fits: "fits x rs" and honest: "honest c y"
  shows "enc_inv x rs (enc_cycle c y)"
proof -
  let ?i = "enc_in_of c (en_feed y)" and ?s = "en_enc y" and ?f = "en_feed y"
  have pk: "list_all packable (hist y)" using inv by (simp add: enc_inv_def)
  from inv consider (work) W where "working x rs W ?s ?f" "beats_tokens (hist y) = map Some W"
    | (over) "ended ?s" "beats_tokens (hist y) = map Some (enc_block x rs) @ [None]"
    unfolding enc_inv_def by blast
  then show ?thesis
  proof cases
    case work
    have h: "(eh_done c \<or> ec_done_seen ?s) \<and> fd_hdrs ?f \<noteq> [] \<longrightarrow> eh_hdr c" using honest by (simp add: honest_def)
    show ?thesis
    proof (cases "ec_state ?s = Ec_Append_Rst_Cnt")
      case False
      from work_step [OF work(1) fits False h] show ?thesis
        unfolding en_after [symmetric] by (rule advances_hist) (fact pk, fact work(2))
    next
      case True
      from count_step [OF True work(1), of c] show ?thesis
        unfolding en_after [symmetric]
      proof (elim disjE exE conjE)
        assume "advances x rs W ?i ?s (en_enc (enc_cycle c y)) (en_feed (enc_cycle c y))"
        then show ?thesis by (rule advances_hist) (fact pk, fact work(2))
      next
        fix bs
        assume cl: "closes ?i ?s (en_enc (enc_cycle c y)) bs" and en: "ended (en_enc (enc_cycle c y))" and blk: "W @ bs = enc_block x rs"
        let ?b = "beat_with (ec_data (en_enc (enc_cycle c y))) (ec_keep (en_enc (enc_cycle c y))) True"
        have "hist (enc_cycle c y) = hist y @ [?b]" using cl hist_emits [of c y] by (simp add: closes_def)
        moreover have "beat_tokens ?b = map Some bs @ [None]" using cl by (simp add: closes_def beat_tokens_def beat_with_def)
        moreover have "packable ?b" using cl by (simp add: closes_def)
        ultimately have "list_all packable (hist (enc_cycle c y))"
          "beats_tokens (hist (enc_cycle c y)) = map Some (enc_block x rs) @ [None]"
          using pk work(2) by (simp_all add: beats_tokens_snoc blk [symmetric])
        then show ?thesis using en unfolding enc_inv_def by blast
      qed
    qed
  next
    case over
    note e = ended_step [OF over(1), of c ?f]
    have "hist (enc_cycle c y) = hist y" by (rule hist_keeps) (use e in \<open>simp_all add: en_after\<close>)
    then show ?thesis using e(1) over(2) pk unfolding enc_inv_def en_after by metis
  qed
qed

end
