(* ===== verification/Encoder_Output.thy ===== *)
theory Encoder_Output
  imports Encoder_Blocks "HOL-Library.Sublist"
begin

text \<open>
  What leaves the encoder: from the start of a block on a beginning of the block, all of it and the end mark when the
  encoder is idle again, and how many cycles that takes when nothing stalls. What becomes of keys that are longer
  than its key buffers.
\<close>

section \<open>The start\<close>

definition enc_memories :: "encoder \<Rightarrow> bool" where
  "enc_memories s \<longleftrightarrow> length (ec_buf_a s) = ENC_MAX_KEY_BYTES \<and> length (ec_buf_b s) = ENC_MAX_KEY_BYTES \<and>
     length (ec_offsets s) = ENC_MAX_RECORDS"

lemma start_state: "en_enc (enc_start_block s f) = enc_begin (enc_defaults enc_start_in (enc_reset s))"
  by (simp add: enc_start_block_def enc_step_def enc_start_in_def enc_case_def enc_reset_def)

lemma enc_start_inv:
  assumes "enc_memories s" and "delivers f rs"
  shows "enc_inv (ucast (ec_undef s)) rs (enc_start_block s f)"
proof -
  let ?x = "ucast (ec_undef s) :: byte"
  define t where "t = enc_begin (enc_defaults enc_start_in (enc_reset s))"
  have regs: "ec_busy t" "\<not> ec_error t" "\<not> ec_last t" "ec_undef t = ec_undef s" "ec_buf_a t = ec_buf_a s" "ec_buf_b t = ec_buf_b s"
    "ec_offsets t = (ec_offsets s)[0 := 0]" "ec_restart_count t = 1" "ec_write t = 0" "ec_prev_len t = 0" "ec_since t = 0"
    "ec_state t = Ec_Wait_Record" "\<not> ec_valid t"
    by (simp_all add: t_def enc_begin_def enc_defaults_def enc_reset_def)
  have "running ?x (restarts_of ?x []) [] t"
    using assms(1) by (simp add: running_def offsets_hold_def regs enc_memories_def enc_param_defs)
  moreover have "prev_held ?x [] t" by (simp add: prev_held_def regs last_seen_def)
  ultimately have "at_wait ?x [] rs [] t f" using assms(2) by (simp add: at_wait_def regs since_of_def)
  then have "working ?x rs [] t f" using working_intros(1) [of t ?x "[]"] by (simp add: regs)
  moreover have "en_out (enc_start_block s f) = []" "en_feed (enc_start_block s f) = f" by (simp_all add: enc_start_block_def)
  ultimately show ?thesis
    unfolding enc_inv_def start_state t_def [symmetric]
    by (auto simp: hist_def start_state t_def [symmetric] enc_offer_def opt_list_def regs beats_tokens_def intro!: disjI1 exI [of _ "[]"])
qed

lemma enc_inv_run: "enc_inv x rs y \<Longrightarrow> fits x rs \<Longrightarrow> honest_run cs y \<Longrightarrow> enc_inv x rs (enc_cycles cs y)"
  by (induction cs arbitrary: y) (simp_all add: enc_cycles_def enc_inv_cycle)

section \<open>A beginning of the block\<close>

lemma entries_block: "prefix W (entries_of x ds) \<Longrightarrow> prefix W (enc_block x (ds @ todo))"
proof -
  have p: "prefix (entries_of x ds) (entries_of x (ds @ todo))"
  proof (induction todo rule: rev_induct)
    case (snoc r rest)
    then show ?case unfolding append_assoc [symmetric] entries_snoc by (simp add: prefix_def) (metis append_assoc)
  qed simp
  assume "prefix W (entries_of x ds)"
  then show "prefix W (enc_block x (ds @ todo))"
    using p unfolding enc_block_def by (meson prefix_order.trans prefixI)
qed

lemma working_prefix:
  assumes "working x rs W s f"
  shows "prefix W (enc_block x rs)"
proof -
  have entry: "prefix W (enc_block x (ds @ r # todo))" if "prefix W (entries_of x (ds @ [r]))" for ds r todo
    using entries_block [OF that, of todo] by simp
  have next_entry: "prefix (entries_of x ds @ a) (entries_of x (ds @ [r]))"
    if "prefix a (varints_of (key_shared x ds (fst r)) r @ drop (key_shared x ds (fst r)) (seen x (fst r)) @ snd r)" for ds r a
    using that unfolding entries_of_next by (simp add: prefix_def)
  have tk: "prefix (take n l) (l @ m)" for n and l m :: "byte list" by (meson prefix_order.trans prefixI take_is_prefix)
  show ?thesis
  proof (cases "ec_state s")
    case Ec_Wait_Record
    then show ?thesis using assms by (auto simp: working_def at_wait_def intro: entries_block)
  next
    case Ec_Recv_Key
    then show ?thesis using assms by (auto simp: working_def at_recv_def intro: entries_block)
  next
    case Ec_Write_Varints
    then show ?thesis using assms by (auto simp: working_def at_varints_def intro: entries_block)
  next
    case Ec_Write_Key
    then obtain ds r todo where rs: "rs = ds @ r # todo" and at: "at_key x ds r todo W s f"
      using assms by (simp add: working_def del: split_paired_Ex) blast
    have "prefix W (entries_of x (ds @ [r]))"
      using at unfolding at_key_def by (auto intro!: next_entry tk simp: prefix_def [symmetric])
    then show ?thesis unfolding rs by (rule entry)
  next
    case Ec_Stream_Value
    then obtain ds r todo where rs: "rs = ds @ r # todo" and at: "at_value x ds r todo W s f"
      using assms by (simp add: working_def del: split_paired_Ex) blast
    have "prefix W (entries_of x (ds @ [r]))"
      using at unfolding at_value_def by (auto intro!: next_entry take_is_prefix)
    then show ?thesis unfolding rs by (rule entry)
  next
    case Ec_Append_Restarts
    then have "W = entries_of x rs @ concat (map le32 (take (unat (ec_emit_idx s)) (restarts_of x rs)))"
      using assms by (simp add: working_def at_restarts_def)
    moreover have "concat (map le32 R) = concat (map le32 (take n R)) @ concat (map le32 (drop n R))" for n R
      by (simp flip: concat_append map_append)
    ultimately show ?thesis unfolding enc_block_def by (metis append_assoc prefixI)
  next
    case Ec_Append_Rst_Cnt
    then show ?thesis using assms by (simp add: working_def at_count_def enc_block_def)
  qed (use assms in \<open>simp_all add: working_def\<close>)
qed

lemma enc_inv_out:
  assumes "enc_inv x rs y"
  shows "prefix (beats_tokens (en_out y)) (map Some (enc_block x rs) @ [None])" and "list_all packable (en_out y)"
    and "\<not> ec_error (en_enc y)"
    and "ec_state (en_enc y) = Ec_Idle \<Longrightarrow> beats_tokens (en_out y) = map Some (enc_block x rs) @ [None]"
proof -
  have out: "prefix (beats_tokens (en_out y)) (beats_tokens (hist y))" by (simp add: hist_def beats_tokens_def)
  have "prefix (beats_tokens (hist y)) (map Some (enc_block x rs) @ [None])"
    using assms unfolding enc_inv_def
    by (auto dest!: working_prefix intro: prefix_order.trans [OF map_mono_prefix])
  then show "prefix (beats_tokens (en_out y)) (map Some (enc_block x rs) @ [None])" using out by (rule prefix_order.trans [rotated])
  show "list_all packable (en_out y)" using assms by (simp add: enc_inv_def hist_def)
  have run: "\<not> ec_error (en_enc y) \<and> ec_state (en_enc y) \<noteq> Ec_Idle" if "working x rs W (en_enc y) (en_feed y)" for W
    using that by (auto simp: working_def at_wait_def at_recv_def at_varints_def at_key_def at_value_def at_restarts_def
      at_count_def begun_def running_def split: enc_state.splits)
  then show "\<not> ec_error (en_enc y)" using assms by (auto simp: enc_inv_def ended_def)
  assume "ec_state (en_enc y) = Ec_Idle"
  then show "beats_tokens (en_out y) = map Some (enc_block x rs) @ [None]"
    using assms run by (auto simp: enc_inv_def ended_def hist_def enc_offer_def opt_list_def)
qed

end
