(* ===== verification/Encoder_Termination.thy ===== *)
theory Encoder_Termination
  imports Encoder_Output
begin

text \<open>
  When no side stalls, every clock edge of the encoder gets on: a header or a beat is taken, or a state with less to
  do is reached. So a block takes at most so many cycles.
\<close>

section \<open>The measure\<close>

definition enc_rank :: "encoder \<Rightarrow> nat" where
  "enc_rank s =
     (case ec_state s of
        Ec_Wait_Record \<Rightarrow> 300
      | Ec_Recv_Key \<Rightarrow> 390
      | Ec_Write_Varints \<Rightarrow> 380
      | Ec_Write_Key \<Rightarrow> 302 + (unat (ec_unshared s) - unat (ec_copy s))
      | Ec_Stream_Value \<Rightarrow> 301
      | Ec_Append_Restarts \<Rightarrow> 10 + (unat (ec_restart_count s) - unat (ec_emit_idx s))
      | Ec_Append_Rst_Cnt \<Rightarrow> 5
      | Ec_Finish \<Rightarrow> (if ec_valid s then 2 else 1)
      | _ \<Rightarrow> 0)"

definition enc_effort :: "encoder \<Rightarrow> feed \<Rightarrow> nat" where
  "enc_effort s f = 100 * length (fd_hdrs f) + length (fd_beats f) + enc_rank s"

definition block_cycles :: "feed \<Rightarrow> nat" where
  "block_cycles f = 100 * length (fd_hdrs f) + length (fd_beats f) + 300"

section \<open>Every edge gets on\<close>

lemma rank_after_varints:
  assumes "unat (ec_unshared s) \<le> 72" and "ec_unshared u = ec_unshared s"
  shows "enc_rank (after_varints s u) < 380"
  using assms by (simp add: after_varints_def Let_def enc_rank_def)

lemma copy_more:
  assumes "\<not> ec_unshared s \<le> ec_copy s"
  shows "unat (ec_unshared s) - unat (ec_copy s + of_nat (key_emit_bytes s)) < unat (ec_unshared s) - unat (ec_copy s)"
proof -
  have lt: "unat (ec_copy s) < unat (ec_unshared s)" using assms by (simp add: word_le_nat_alt)
  have rem: "unat (key_rem s) = unat (ec_unshared s) - unat (ec_copy s)" using lt by (simp add: key_rem_def unat_sub word_le_nat_alt)
  have n: "key_emit_bytes s = min 8 (unat (ec_unshared s) - unat (ec_copy s))" using rem by (simp add: key_emit_bytes_def word_le_nat_alt)
  have "unat (ec_copy s) + key_emit_bytes s \<le> unat (ec_unshared s)" using lt n by simp
  moreover have "unat (ec_unshared s) < 65536" using unat_below_exp [of "ec_unshared s"] by simp
  ultimately have "unat (ec_copy s + of_nat (key_emit_bytes s)) = unat (ec_copy s) + key_emit_bytes s"
    by (simp add: unat_word_ariths unat_of_nat)
  moreover have "0 < key_emit_bytes s" using lt n by simp
  ultimately show ?thesis using lt by linarith
qed

lemma consume_less:
  "length (fd_hdrs (enc_consume i s f)) \<le> length (fd_hdrs f)" "length (fd_beats (enc_consume i s f)) \<le> length (fd_beats f)"
  by (simp_all add: enc_consume_def)

lemma effort_rank_less:
  "enc_rank t < enc_rank s \<Longrightarrow> enc_effort t (enc_consume i s f) < enc_effort s f"
  using consume_less(1) [of i s f] consume_less(2) [of i s f] unfolding enc_effort_def by linarith

lemma effort_beat_less:
  assumes "enc_accept i s" and "fd_beats f \<noteq> []" and "enc_rank t \<le> enc_rank s"
  shows "enc_effort t (enc_consume i s f) < enc_effort s f"
proof -
  have "length (fd_beats (enc_consume i s f)) < length (fd_beats f)" using assms(1,2) by (simp add: enc_consume_def)
  then show ?thesis using assms(3) consume_less(1) [of i s f] unfolding enc_effort_def by linarith
qed

lemma effort_header_less:
  assumes "e_rec_valid i \<and> enc_rec_ready s" and "fd_hdrs f \<noteq> []" and "enc_rank t < enc_rank s + 100"
  shows "enc_effort t (enc_consume i s f) < enc_effort s f"
proof -
  have "length (fd_hdrs (enc_consume i s f)) + 1 = length (fd_hdrs f)" using assms(1,2) by (simp add: enc_consume_def)
  then show ?thesis using assms(3) consume_less(2) [of i s f] unfolding enc_effort_def by linarith
qed

lemma flowing_beats:
  assumes "flowing m q r todo f" and "m < length (fst r) \<or> m = length (fst r) \<and> q < length (snd r)"
  shows "fd_beats f \<noteq> []"
proof -
  obtain kb vb xs where b: "fd_beats f = kb @ vb @ xs" and kb: "chunks kb (drop m (fst r))" and vb: "chunks vb (drop q (snd r))"
    using assms(1) by (auto simp: flowing_def)
  have "\<not> (kb = [] \<and> vb = [])" using kb vb assms(2) by (auto simp: chunks_def)
  then show ?thesis using b by auto
qed

lemma ready_working:
  assumes "working x rs W s f"
  shows "ec_busy s" and "\<not> ec_error s"
proof -
  have "ec_busy s \<and> \<not> ec_error s"
    using assms by (auto simp: working_def at_wait_def at_recv_def at_varints_def at_key_def at_value_def at_restarts_def
      at_count_def begun_def running_def split: enc_state.splits)
  then show "ec_busy s" "\<not> ec_error s" by blast+
qed

lemma wait_less:
  assumes wk: "working x rs W s f" and st: "ec_state s = Ec_Wait_Record"
    and i: "e_rec_valid i \<longleftrightarrow> fd_hdrs f \<noteq> []" "e_source_done i \<longleftrightarrow> fd_hdrs f = []"
  shows "enc_effort (enc_wait i s (enc_defaults i s)) (enc_consume i s f) < enc_effort s f"
proof -
  have ready: "enc_rec_ready s" using ready_working [OF wk] st by (simp add: enc_rec_ready_def)
  have cnt: "unat (ec_restart_count s) \<le> 256"
    using wk st by (auto simp: working_def at_wait_def running_def offsets_hold_def)
  show ?thesis
  proof (cases "fd_hdrs f = []")
    case True
    then have "enc_wait i s (enc_defaults i s) = (enc_defaults i s)\<lparr>ec_emit_idx := 0, ec_state := Ec_Append_Restarts\<rparr>"
      using i by (simp add: enc_wait_def)
    then have "enc_rank (enc_wait i s (enc_defaults i s)) < enc_rank s" using cnt by (simp add: enc_rank_def st)
    then show ?thesis by (rule effort_rank_less)
  next
    case False
    then have "enc_wait i s (enc_defaults i s) = enc_record i s (enc_defaults i s)" using i ready by (simp add: enc_wait_def)
    moreover have "enc_rank (enc_record i s t) < 400" for t by (simp add: enc_record_def Let_def enc_rank_def)
    ultimately have "enc_rank (enc_wait i s (enc_defaults i s)) < enc_rank s + 100" by (simp add: enc_rank_def st)
    then show ?thesis using i ready False by (intro effort_header_less) simp_all
  qed
qed

lemma recv_less:
  assumes wk: "working x rs W s f" and st: "ec_state s = Ec_Recv_Key" and i: "e_valid i \<longleftrightarrow> fd_beats f \<noteq> []"
  shows "enc_effort (enc_recv i s (enc_defaults i s)) (enc_consume i s f) < enc_effort s f"
proof -
  obtain ds r todo where at: "at_recv x ds r todo W s f" using wk st by (simp add: working_def del: split_paired_Ex) blast
  have "fd_beats f \<noteq> []" by (rule flowing_beats) (use at in \<open>auto simp: at_recv_def\<close>)
  moreover have "enc_accept i s" using ready_working [OF wk] st i calculation by (simp add: enc_accept_def enc_axis_ready_def)
  moreover have "enc_rank (enc_recv i s (enc_defaults i s)) \<le> enc_rank s"
    using st by (simp add: enc_recv_def Let_def enc_rank_def)
  ultimately show ?thesis by (intro effort_beat_less)
qed

lemma varints_less:
  assumes wk: "working x rs W s f" and st: "ec_state s = Ec_Write_Varints" and i: "can_emit i s"
  shows "enc_effort (enc_varints i s (enc_defaults i s)) (enc_consume i s f) < enc_effort s f"
proof -
  have un: "unat (ec_unshared s) \<le> 72"
    using wk st by (auto simp: working_def at_varints_def split_key_def begun_def rec_ok_def)
  have "enc_rank (enc_varints i s (enc_defaults i s)) < 380"
  proof (cases "ENC_MAX_BLOCK_BYTES \<le> ec_write s \<or> 8 < p13_total s")
    case True
    then show ?thesis using i by (auto simp: enc_varints_def enc_rank_def enc_fail_def)
  next
    case False
    have "enc_rank (after_varints s (enc_emit d k n s (enc_defaults i s))) < 380" for d k n
      by (rule rank_after_varints [OF un]) (simp add: enc_emit_def)
    then show ?thesis using False i by (simp add: enc_varints_def)
  qed
  then show ?thesis by (intro effort_rank_less) (simp add: enc_rank_def st)
qed

lemma key_less:
  assumes st: "ec_state s = Ec_Write_Key" and i: "can_emit i s"
  shows "enc_effort (enc_key i s (enc_defaults i s)) (enc_consume i s f) < enc_effort s f"
proof (rule effort_rank_less)
  show "enc_rank (enc_key i s (enc_defaults i s)) < enc_rank s"
  proof (cases "ec_unshared s \<le> ec_copy s \<or> ENC_MAX_BLOCK_BYTES \<le> ec_write s")
    case True
    then show ?thesis by (auto simp: enc_key_def enc_rank_def st enc_fail_def)
  next
    case False
    then have c: "\<not> ec_unshared s \<le> ec_copy s" by blast
    show ?thesis using False copy_more [OF c] st i
      by (simp add: enc_key_def enc_rank_def enc_emit_def)
  qed
qed

lemma value_less:
  assumes wk: "working x rs W s f" and st: "ec_state s = Ec_Stream_Value" and i: "e_valid i \<longleftrightarrow> fd_beats f \<noteq> []" "can_emit i s"
  shows "enc_effort (enc_value i s (enc_defaults i s)) (enc_consume i s f) < enc_effort s f"
proof (cases "ec_rem s = 0")
  case True
  then have "enc_value i s (enc_defaults i s) = enc_entry s (enc_defaults i s)" by (simp add: enc_value_def)
  moreover have "enc_rank (enc_entry s t) = 300" for t by (simp add: enc_entry_def Let_def enc_rank_def)
  ultimately show ?thesis by (intro effort_rank_less) (simp add: enc_rank_def st)
next
  case False
  then have rem: "0 < unat (ec_rem s)" by (simp add: unat_gt_0)
  obtain ds r todo where "at_value x ds r todo W s f" using wk st by (auto simp: working_def)
  then have "flowing (length (fst r)) (length (snd r) - unat (ec_rem s)) r todo f" "unat (ec_rem s) \<le> length (snd r)"
    by (simp_all add: at_value_def)
  then have "fd_beats f \<noteq> []" using rem by (intro flowing_beats) auto
  moreover have "enc_accept i s"
    using ready_working [OF wk] st i calculation False by (simp add: enc_accept_def enc_axis_ready_def)
  moreover have "enc_rank (enc_value i s (enc_defaults i s)) \<le> enc_rank s"
    using st False by (simp add: enc_value_def enc_rank_def enc_fail_def enc_emit_def)
  ultimately show ?thesis by (intro effort_beat_less)
qed

lemma restarts_less:
  assumes wk: "working x rs W s f" and st: "ec_state s = Ec_Append_Restarts" and i: "can_emit i s"
  shows "enc_effort (enc_restarts i s (enc_defaults i s)) (enc_consume i s f) < enc_effort s f"
proof (rule effort_rank_less)
  have cnt: "unat (ec_restart_count s) \<le> 256"
    using wk st by (simp add: working_def at_restarts_def running_def offsets_hold_def)
  show "enc_rank (enc_restarts i s (enc_defaults i s)) < enc_rank s"
  proof (cases "ec_restart_count s \<le> ec_emit_idx s")
    case True
    then show ?thesis by (simp add: enc_restarts_def enc_rank_def st)
  next
    case False
    then have lt: "unat (ec_emit_idx s) < unat (ec_restart_count s)" by (simp add: word_le_nat_alt)
    have "unat (ec_emit_idx s + 1) = unat (ec_emit_idx s) + 1" "unat (ec_emit_idx s + 2) = unat (ec_emit_idx s) + 2"
      using lt cnt by (simp_all add: unat_word_ariths)
    then have "enc_rank (enc_restarts i s (enc_defaults i s)) \<le> 10 + (unat (ec_restart_count s) - (unat (ec_emit_idx s) + 1))"
      using False i by (simp add: enc_restarts_def enc_rank_def st enc_emit_def diff_le_mono2)
    moreover have "enc_rank s = 10 + (unat (ec_restart_count s) - unat (ec_emit_idx s))" by (simp add: enc_rank_def st)
    ultimately show ?thesis using lt by linarith
  qed
qed

text \<open>A choice that holds back no input.\<close>

definition supplies :: "enc_choice \<Rightarrow> enc_sys \<Rightarrow> bool" where
  "supplies c y \<longleftrightarrow> eh_hdr c \<and> eh_data c \<and> (eh_done c \<longleftrightarrow> fd_hdrs (en_feed y) = [])"

lemma supplied_less:
  assumes inv: "enc_inv x rs y" and busy: "ec_state (en_enc y) \<noteq> Ec_Idle" and sup: "supplies c y"
    and can: "can_emit (enc_in_of c (en_feed y)) (en_enc y)"
  defines "z \<equiv> enc_cycle c y"
  shows "enc_effort (en_enc z) (en_feed z) < enc_effort (en_enc y) (en_feed y)"
proof -
  let ?s = "en_enc y" and ?f = "en_feed y" and ?i = "enc_in_of c (en_feed y)"
  have i: "e_rec_valid ?i \<longleftrightarrow> fd_hdrs ?f \<noteq> []" "e_source_done ?i \<longleftrightarrow> fd_hdrs ?f = []" "e_valid ?i \<longleftrightarrow> fd_beats ?f \<noteq> []"
    using sup by (simp_all add: enc_in_of_def supplies_def)
  have less: "enc_effort (enc_case ?i ?s (enc_defaults ?i ?s)) (enc_consume ?i ?s ?f) < enc_effort ?s ?f"
  proof (cases "ended ?s")
    case True
    then have st: "ec_state ?s = Ec_Finish" using busy by (auto simp: ended_def)
    show ?thesis
      by (rule effort_rank_less) (use can in \<open>auto simp: case_step(8) [OF st] enc_finish_def enc_rank_def st enc_defaults_def can_emit_def\<close>)
  next
    case False
    then obtain W where wk: "working x rs W ?s ?f" using inv by (auto simp: enc_inv_def)
    show ?thesis
    proof (cases "ec_state ?s")
      case Ec_Wait_Record
      then show ?thesis using wait_less [OF wk Ec_Wait_Record i(1,2)] by (simp add: case_step(1) [OF Ec_Wait_Record])
    next
      case Ec_Recv_Key
      then show ?thesis using recv_less [OF wk Ec_Recv_Key i(3)] by (simp add: case_step(2) [OF Ec_Recv_Key])
    next
      case Ec_Write_Varints
      then show ?thesis using varints_less [OF wk Ec_Write_Varints can] by (simp add: case_step(3) [OF Ec_Write_Varints])
    next
      case Ec_Write_Key
      then show ?thesis using key_less [OF Ec_Write_Key can] by (simp add: case_step(4) [OF Ec_Write_Key])
    next
      case Ec_Stream_Value
      then show ?thesis using value_less [OF wk Ec_Stream_Value i(3) can] by (simp add: case_step(5) [OF Ec_Stream_Value])
    next
      case Ec_Append_Restarts
      then show ?thesis using restarts_less [OF wk Ec_Append_Restarts can] by (simp add: case_step(6) [OF Ec_Append_Restarts])
    next
      case Ec_Append_Rst_Cnt
      show ?thesis
        by (rule effort_rank_less)
          (simp add: case_step(7) [OF Ec_Append_Rst_Cnt] enc_count_def can enc_rank_def Ec_Append_Rst_Cnt)
    qed (use wk in \<open>simp_all add: working_def\<close>)
  qed
  then show ?thesis by (simp add: z_def en_after)
qed

text \<open>A sink that stalls costs nothing.\<close>

lemma stalled_rank:
  assumes "\<not> can_emit i s" and "ec_state s \<notin> {Ec_Wait_Record, Ec_Recv_Key}" and "\<not> e_start i"
  shows "enc_rank (enc_case i s (enc_defaults i s)) \<le> enc_rank s"
proof -
  have no: "\<not> enc_accept i s" using assms(1,2) by (auto simp: enc_accept_def enc_axis_ready_def)
  have v: "ec_valid (enc_defaults i s) = ec_valid s" using assms(1) by (simp add: enc_defaults_def can_emit_def)
  have same: "enc_rank (enc_defaults i s) = enc_rank s" unfolding enc_rank_def edge_other v ..
  have entry: "ec_state (enc_entry s (enc_defaults i s)) = Ec_Wait_Record" by (simp add: enc_entry_def Let_def)
  show ?thesis
    using assms(2,3) same entry no assms(1)
    by (cases "ec_state s")
      (auto simp: enc_case_def enc_varints_def enc_varints_ovf_def enc_key_def enc_value_def enc_restarts_def enc_count_def
        enc_finish_def enc_fail_def enc_rank_def can_emit_def)
qed

lemma supplied_le:
  assumes inv: "enc_inv x rs y" and sup: "supplies c y"
  defines "z \<equiv> enc_cycle c y"
  shows "enc_effort (en_enc z) (en_feed z) \<le> enc_effort (en_enc y) (en_feed y)"
proof (cases "ec_state (en_enc y) \<in> {Ec_Wait_Record, Ec_Recv_Key}")
  case True
  let ?i = "enc_in_of c (en_feed y)"
  have i: "e_rec_valid ?i \<longleftrightarrow> fd_hdrs (en_feed y) \<noteq> []" "e_source_done ?i \<longleftrightarrow> fd_hdrs (en_feed y) = []"
    "e_valid ?i \<longleftrightarrow> fd_beats (en_feed y) \<noteq> []"
    using sup by (simp_all add: enc_in_of_def supplies_def)
  have "\<not> ended (en_enc y)" using True by (auto simp: ended_def)
  then obtain W where wk: "working x rs W (en_enc y) (en_feed y)" using inv by (auto simp: enc_inv_def)
  show ?thesis
  proof (cases "ec_state (en_enc y) = Ec_Wait_Record")
    case w: True
    show ?thesis using wait_less [OF wk w i(1,2)] by (simp add: z_def en_after case_step(1) [OF w])
  next
    case False
    with True have w: "ec_state (en_enc y) = Ec_Recv_Key" by simp
    show ?thesis using recv_less [OF wk w i(3)] by (simp add: z_def en_after case_step(2) [OF w])
  qed
next
  case False
  show ?thesis
  proof (cases "can_emit (enc_in_of c (en_feed y)) (en_enc y)")
    case True
    then show ?thesis
    proof (cases "ec_state (en_enc y) = Ec_Idle")
      case idle: True
      have "\<not> e_start (enc_in_of c (en_feed y))" by (simp add: enc_in_of_def)
      then have "enc_rank (en_enc z) = enc_rank (en_enc y)" using idle by (simp add: z_def en_after enc_case_def enc_rank_def)
      moreover have "en_feed z = enc_consume (enc_in_of c (en_feed y)) (en_enc y) (en_feed y)" by (simp add: z_def en_after)
      ultimately show ?thesis
        using consume_less [of "enc_in_of c (en_feed y)" "en_enc y" "en_feed y"] unfolding enc_effort_def by simp
    qed (use supplied_less [OF inv _ sup True] in \<open>simp add: z_def\<close>)
  next
    case stall: False
    have "\<not> e_start (enc_in_of c (en_feed y))" by (simp add: enc_in_of_def)
    from stalled_rank [OF stall False this] show ?thesis
      using consume_less [of "enc_in_of c (en_feed y)" "en_enc y" "en_feed y"]
      by (simp add: z_def en_after enc_effort_def)
  qed
qed

section \<open>A whole block\<close>

lemma enc_idle_stays:
  assumes "enc_inv x rs y" and "ec_state (en_enc y) = Ec_Idle"
  shows "ec_state (en_enc (enc_cycle c y)) = Ec_Idle"
proof -
  have "\<not> e_start (enc_in_of c (en_feed y))" by (simp add: enc_in_of_def)
  then show ?thesis using assms(2) by (simp add: en_after enc_case_def)
qed

lemma start_block_effort: "enc_effort (en_enc (enc_start_block s f)) f = block_cycles f"
  unfolding start_state by (simp add: enc_effort_def enc_rank_def block_cycles_def enc_begin_def)

end
