(* ===== verification/Stream_Fifo.thy ===== *)
theory Stream_Fifo
  imports Stream_Stage
begin

text \<open>
  \<^verbatim>\<open>stream_fifo\<close> of \<^verbatim>\<open>organized/rtl_v2/cmpct_infra.v\<close> for every \<^verbatim>\<open>DEPTH\<close>: a ring buffer with a count, which also takes
  a word when it is full but read in the same cycle. It is a bounded queue, and a stage of a data path.
\<close>

section \<open>Registers, wires and the clock edge\<close>

fun clog2 :: "nat \<Rightarrow> nat" where
  "clog2 n = (if n \<le> 1 then 0 else Suc (clog2 ((n + 1) div 2)))"

declare clog2.simps [simp del]

definition ptr_w :: "nat \<Rightarrow> nat" where "ptr_w depth = (if depth \<le> 2 then 1 else clog2 depth)"

definition cnt_w :: "nat \<Rightarrow> nat" where "cnt_w depth = clog2 (depth + 1)"

record 'a fifo =
  ff_mem :: "'a list"
  ff_wr :: nat
  ff_rd :: nat
  ff_count :: nat

definition fifo_s_ready :: "nat \<Rightarrow> 'a fifo \<Rightarrow> bool \<Rightarrow> bool" where
  "fifo_s_ready depth f m_ready \<longleftrightarrow> ff_count f < depth \<or> ff_count f \<noteq> 0 \<and> m_ready"

definition fifo_offer :: "'a fifo \<Rightarrow> 'a option" where
  "fifo_offer f = (if ff_count f \<noteq> 0 then Some (ff_mem f ! ff_rd f) else None)"

definition advance_ptr :: "nat \<Rightarrow> nat \<Rightarrow> nat" where
  "advance_ptr depth p = (if p = depth - 1 then 0 else (p + 1) mod 2 ^ ptr_w depth)"

definition fifo_edge :: "nat \<Rightarrow> bool \<Rightarrow> 'a option \<Rightarrow> bool \<Rightarrow> 'a fifo \<Rightarrow> 'a fifo" where
  "fifo_edge depth rst s_data m_ready f =
     (if rst then f\<lparr>ff_wr := 0, ff_rd := 0, ff_count := 0\<rparr>
      else
        (let do_push = s_data \<noteq> None \<and> fifo_s_ready depth f m_ready;
             do_pop = ff_count f \<noteq> 0 \<and> m_ready;
             g = (if do_push then f\<lparr>ff_mem := (ff_mem f)[ff_wr f := the s_data], ff_wr := advance_ptr depth (ff_wr f)\<rparr> else f);
             h = (if do_pop then g\<lparr>ff_rd := advance_ptr depth (ff_rd f)\<rparr> else g)
         in (if do_push \<and> \<not> do_pop then h\<lparr>ff_count := (ff_count f + 1) mod 2 ^ cnt_w depth\<rparr>
             else if do_pop \<and> \<not> do_push then h\<lparr>ff_count := ff_count f - 1\<rparr> else h)))"

section \<open>A bounded queue\<close>

lemma clog2_enough: "n \<le> 2 ^ clog2 n"
proof (induction n rule: clog2.induct)
  case (1 n)
  then show ?case by (subst clog2.simps) auto
qed

lemma ptr_fits: "0 < depth \<Longrightarrow> depth \<le> 2 ^ ptr_w depth"
  using clog2_enough [of depth] by (auto simp: ptr_w_def)

lemma cnt_fits: "depth < 2 ^ cnt_w depth"
  using clog2_enough [of "depth + 1"] by (simp add: cnt_w_def)

lemma advance_ptr_mod: "p < depth \<Longrightarrow> advance_ptr depth p = (p + 1) mod depth"
  using ptr_fits [of depth] by (auto simp: advance_ptr_def)

definition fifo_ok :: "nat \<Rightarrow> 'a fifo \<Rightarrow> bool" where
  "fifo_ok depth f \<longleftrightarrow> length (ff_mem f) = depth \<and> ff_wr f < depth \<and> ff_rd f < depth \<and> ff_count f \<le> depth \<and>
     ff_wr f = (ff_rd f + ff_count f) mod depth"

definition queue_of :: "nat \<Rightarrow> 'a fifo \<Rightarrow> 'a list" where
  "queue_of depth f = map (\<lambda>k. ff_mem f ! ((ff_rd f + k) mod depth)) [0..<ff_count f]"

text \<open>The queue the FIFO stands for.\<close>

definition queue_edge :: "nat \<Rightarrow> bool \<Rightarrow> 'a option \<Rightarrow> bool \<Rightarrow> 'a list \<Rightarrow> 'a list" where
  "queue_edge depth rst s_data m_ready q =
     (if rst then []
      else (if m_ready then tl q else q) @
        (case s_data of None \<Rightarrow> [] | Some x \<Rightarrow> if length q < depth \<or> q \<noteq> [] \<and> m_ready then [x] else []))"

lemma length_queue [simp]: "length (queue_of depth f) = ff_count f"
  by (simp add: queue_of_def)

lemma queue_empty [simp]: "queue_of depth f = [] \<longleftrightarrow> ff_count f = 0"
  by (simp add: queue_of_def)

lemma queue_none: "ff_count f = 0 \<Longrightarrow> queue_of depth f = []"
  by simp

lemma queue_cong:
  assumes "ff_count g = n" and "\<And>k. k < n \<Longrightarrow> ff_mem g ! ((ff_rd g + k) mod depth) = xs ! k" and "length xs = n"
  shows "queue_of depth g = xs"
  by (rule nth_equalityI) (use assms in \<open>simp_all add: queue_of_def\<close>)

lemma queue_nth: "k < ff_count f \<Longrightarrow> queue_of depth f ! k = ff_mem f ! ((ff_rd f + k) mod depth)"
  by (simp add: queue_of_def)

lemma ring_distinct_le:
  assumes "(r + j) mod d = (r + k) mod d" and "j \<le> k" and "k < (d :: nat)"
  shows "j = k"
proof -
  have "d dvd (r + k) - (r + j)" using assms(1,2) by (metis add_le_cancel_left mod_eq_dvd_iff_nat)
  then show ?thesis using assms(2,3) by (auto dest: dvd_imp_le)
qed

lemma ring_distinct: "(r + j) mod d = (r + k) mod d \<Longrightarrow> j < d \<Longrightarrow> k < (d :: nat) \<Longrightarrow> j = k"
  using ring_distinct_le [of r j d k] ring_distinct_le [of r k d j] by (cases "j \<le> k") auto

lemma nth_drop_append:
  assumes "p + k < length q"
  shows "(drop p q @ ys) ! k = q ! (p + k)"
proof -
  have "k < length (drop p q)" using assms by simp
  then have "(drop p q @ ys) ! k = drop p q ! k" by (simp only: nth_append if_True)
  also have "\<dots> = q ! (p + k)" by (rule nth_drop) (use assms in simp)
  finally show ?thesis .
qed

lemma nth_drop_last:
  assumes "p + k = length q"
  shows "(drop p q @ [x]) ! k = x"
proof -
  have "k = length (drop p q)" using assms by simp
  then show ?thesis by (simp only: nth_append_length)
qed

lemma Suc_mod_add: "Suc (Suc a mod d + b) mod d = Suc (Suc (a + b)) mod d"
  by (metis add_Suc add_Suc_right mod_add_left_eq)

lemma fifo_queue_edge:
  assumes "fifo_ok depth f" and "0 < depth"
  shows "queue_of depth (fifo_edge depth rst s_data m_ready f) = queue_edge depth rst s_data m_ready (queue_of depth f)"
    and "fifo_ok depth (fifo_edge depth rst s_data m_ready f)"
proof -
  let ?g = "fifo_edge depth rst s_data m_ready f"
  let ?n = "ff_count f" and ?push = "s_data \<noteq> None \<and> fifo_s_ready depth f m_ready" and ?pop = "ff_count f \<noteq> 0 \<and> m_ready"
  have f: "length (ff_mem f) = depth" "ff_wr f = (ff_rd f + ?n) mod depth" "ff_rd f < depth" "ff_wr f < depth" "?n \<le> depth"
    using assms by (simp_all add: fifo_ok_def)
  have wr: "advance_ptr depth (ff_wr f) = (ff_wr f + 1) mod depth" and rd: "advance_ptr depth (ff_rd f) = (ff_rd f + 1) mod depth"
    using advance_ptr_mod f by blast+
  have cnt: "?push \<Longrightarrow> \<not> ?pop \<Longrightarrow> (?n + 1) mod 2 ^ cnt_w depth = ?n + 1"
  proof -
    assume "?push" and "\<not> ?pop"
    then have "?n + 1 \<le> depth" by (auto simp: fifo_s_ready_def)
    then show ?thesis using cnt_fits [of depth] by (intro mod_less) linarith
  qed
  have count: "ff_count ?g = (if rst then 0 else ?n + (if ?push then 1 else 0) - (if ?pop then 1 else 0))"
    using cnt by (auto simp: fifo_edge_def Let_def)
  have mem: "ff_mem ?g = (if \<not> rst \<and> ?push then (ff_mem f)[ff_wr f := the s_data] else ff_mem f)"
    by (simp add: fifo_edge_def Let_def)
  have read: "ff_rd ?g = (if rst then 0 else if ?pop then (ff_rd f + 1) mod depth else ff_rd f)"
    by (simp add: fifo_edge_def Let_def rd)
  have wrt: "ff_wr ?g = (if rst then 0 else if ?push then (ff_wr f + 1) mod depth else ff_wr f)"
    by (simp add: fifo_edge_def Let_def wr)
  have room: "?push \<Longrightarrow> ?n + 1 \<le> depth + (if ?pop then 1 else 0)"
    using f(5) by (auto simp: fifo_s_ready_def)
  show "fifo_ok depth ?g"
  proof (cases rst)
    case True
    then show ?thesis using assms f by (simp add: fifo_ok_def fifo_edge_def)
  next
    case False
    have "ff_wr ?g = (ff_rd ?g + ff_count ?g) mod depth"
      unfolding count read wrt using False f(2) by (cases "ff_count f") (auto simp: mod_simps Suc_mod_add)
    moreover have "ff_count ?g \<le> depth" unfolding count using room f(5) False by auto
    ultimately show ?thesis unfolding fifo_ok_def mem read wrt using False assms(2) f by auto
  qed
  show "queue_of depth ?g = queue_edge depth rst s_data m_ready (queue_of depth f)"
  proof (cases rst)
    case True
    then show ?thesis by (simp add: queue_edge_def queue_of_def fifo_edge_def)
  next
    case False
    let ?p = "if ?pop then 1 else 0 :: nat"
    have q: "queue_edge depth rst s_data m_ready (queue_of depth f) =
        drop ?p (queue_of depth f) @ (if ?push then [the s_data] else [])"
      using False assms(2) by (cases s_data; cases "ff_count f = 0") (auto simp: queue_edge_def fifo_s_ready_def drop_Suc queue_none)
    show ?thesis unfolding q
    proof (rule queue_cong)
      show "ff_count ?g = ff_count ?g" ..
      show "length (drop ?p (queue_of depth f) @ (if ?push then [the s_data] else [])) = ff_count ?g"
        unfolding count using False by simp
      fix k assume k: "k < ff_count ?g"
      have pos: "(ff_rd ?g + k) mod depth = (ff_rd f + (?p + k)) mod depth"
        unfolding read using False by (simp add: mod_simps ac_simps)
      show "ff_mem ?g ! ((ff_rd ?g + k) mod depth) = (drop ?p (queue_of depth f) @ (if ?push then [the s_data] else [])) ! k"
      proof (cases "?p + k < ?n")
        case True
        have "(ff_rd f + (?p + k)) mod depth \<noteq> ff_wr f" if ?push
        proof
          assume "(ff_rd f + (?p + k)) mod depth = ff_wr f"
          then have eq: "(ff_rd f + (?p + k)) mod depth = (ff_rd f + ?n) mod depth" using f(2) by simp
          show False
          proof (cases "?n = depth")
            case full: True
            then have "?p = 1" using that by (simp add: fifo_s_ready_def split: if_splits)
            have "(ff_rd f + (?p + k)) mod depth = (ff_rd f + 0) mod depth" using eq full by simp
            then have "?p + k = 0" using ring_distinct True full f(5) assms(2) by (metis order_less_le_trans)
            then show False using \<open>?p = 1\<close> by simp
          next
            case False
            then have lt: "?n < depth" using f(5) by linarith
            from ring_distinct [OF eq order_less_trans [OF True lt] lt] show False using True by linarith
          qed
        qed
        note ne0 = this
        define i where "i = (ff_rd f + (?p + k)) mod depth"
        have ne: "?push \<Longrightarrow> i \<noteq> ff_wr f" unfolding i_def by (rule ne0)
        have "ff_mem ?g ! i = ff_mem f ! i" unfolding mem using False ne by auto
        then have "ff_mem ?g ! ((ff_rd f + (?p + k)) mod depth) = ff_mem f ! ((ff_rd f + (?p + k)) mod depth)"
          by (simp only: i_def)
        also have "\<dots> = queue_of depth f ! (?p + k)" by (rule queue_nth [OF True, symmetric])
        finally have "ff_mem ?g ! ((ff_rd f + (?p + k)) mod depth) = queue_of depth f ! (?p + k)" .
        moreover have "(drop ?p (queue_of depth f) @ (if ?push then [the s_data] else [])) ! k = queue_of depth f ! (?p + k)"
          by (rule nth_drop_append) (use True in \<open>simp only: length_queue\<close>)
        ultimately show ?thesis unfolding pos by (rule trans [OF _ sym])
      next
        case last: False
        then have push: ?push and eq: "?p + k = ?n" using k False unfolding count by (auto split: if_splits)
        have "ff_mem ?g ! ff_wr f = the s_data" unfolding mem using push False f(1,4) by simp
        moreover have "(drop ?p (queue_of depth f) @ [the s_data]) ! k = the s_data"
          by (rule nth_drop_last) (use eq in simp)
        ultimately show ?thesis unfolding pos eq if_P [OF push] f(2) [symmetric] by (rule trans [OF _ sym])
      qed
    qed
  qed
qed

section \<open>As a stage\<close>

text \<open>Reset leaves the memory as it is; \<open>mem\<close> is what it holds then.\<close>

definition fifo_stage :: "nat \<Rightarrow> (nat \<Rightarrow> 'a) \<Rightarrow> ('a fifo, 'a, 'a) stage" where
  "fifo_stage depth mem = \<lparr>
     st_init = \<lparr>ff_mem = map mem [0..<depth], ff_wr = 0, ff_rd = 0, ff_count = 0\<rparr>,
     st_ready = fifo_s_ready depth,
     st_offer = (\<lambda>f off. fifo_offer f),
     st_step = (\<lambda>f off r. fifo_edge depth False off r f)\<rparr>"

definition fifo_contract :: "nat \<Rightarrow> ('a \<Rightarrow> bool) \<Rightarrow> ('a \<Rightarrow> 'c token list) \<Rightarrow> ('a fifo, 'c) contract" where
  "fifo_contract depth ok tok = \<lparr>
     ct_inv = (\<lambda>f. fifo_ok depth f \<and> list_all ok (queue_of depth f)),
     ct_pending = (\<lambda>f X. concat (map tok (queue_of depth f)) @ X),
     ct_quiet = (\<lambda>f. ff_count f = 0),
     ct_effort = ff_count,
     ct_weight = 1\<rparr>"

lemma fifo_offer_queue:
  "fifo_ok depth f \<Longrightarrow> fifo_offer f = (if queue_of depth f = [] then None else Some (hd (queue_of depth f)))"
  by (auto simp: fifo_offer_def hd_conv_nth queue_nth fifo_ok_def)

lemma fifo_ready_queue:
  "fifo_s_ready depth f r \<longleftrightarrow> length (queue_of depth f) < depth \<or> queue_of depth f \<noteq> [] \<and> r"
  by (simp add: fifo_s_ready_def)

lemma fifo_is_stage:
  fixes mem :: "nat \<Rightarrow> 'a" and tok :: "'a \<Rightarrow> 'c token list"
  assumes "0 < depth"
  shows "stream_stage (fifo_stage depth mem) (fifo_contract depth ok tok) ok tok ok tok"
proof
  show "ct_inv (fifo_contract depth ok tok) (st_init (fifo_stage depth mem))"
    using assms by (simp add: fifo_contract_def fifo_stage_def fifo_ok_def queue_none)
next
  fix f :: "'a fifo" and off :: "'a option" and r and X :: "'c token list"
  let ?q = "queue_of depth f" and ?g = "fifo_edge depth False off r f"
  assume "ct_inv (fifo_contract depth ok tok) f" and off: "pred_option ok off"
  then have ok: "fifo_ok depth f" and all: "list_all ok ?q" by (simp_all add: fifo_contract_def)
  have q: "queue_of depth ?g = (if r then tl ?q else ?q) @ handed (fifo_stage depth mem) f off r"
    by (cases off) (simp_all add: fifo_queue_edge(1) [OF ok assms] queue_edge_def handed_def fifo_stage_def fifo_ready_queue)
  have sent: "sent (fifo_stage depth mem) f off r = (if r \<and> ?q \<noteq> [] then [hd ?q] else [])"
    by (simp add: sent_def fifo_stage_def fifo_offer_queue [OF ok])
  have "list_all ok (if r then tl ?q else ?q)" using all by (cases ?q) (auto simp del: queue_empty)
  moreover have "list_all ok (handed (fifo_stage depth mem) f off r)" using off by (cases off) (auto simp: handed_def)
  ultimately show "ct_inv (fifo_contract depth ok tok) (st_step (fifo_stage depth mem) f off r)"
    using fifo_queue_edge(2) [OF ok assms] by (simp add: fifo_contract_def q) (simp add: fifo_stage_def q)
  show "pred_option ok (st_offer (fifo_stage depth mem) f off)"
    using all by (cases ?q) (auto simp: fifo_stage_def fifo_offer_queue [OF ok] simp del: queue_empty)
  show "ct_pending (fifo_contract depth ok tok) f (concat (map tok (handed (fifo_stage depth mem) f off r)) @ X) =
      concat (map tok (sent (fifo_stage depth mem) f off r)) @
      ct_pending (fifo_contract depth ok tok) (st_step (fifo_stage depth mem) f off r) X"
    unfolding sent using q by (cases ?q) (auto simp: fifo_contract_def fifo_stage_def simp del: queue_empty)
  have len: "ff_count ?g = ff_count f - (if r \<and> ff_count f \<noteq> 0 then 1 else 0) + length (handed (fifo_stage depth mem) f off r)"
    using arg_cong [OF q, of length] by (auto simp: queue_none)
  have one: "length (handed (fifo_stage depth mem) f off r) = (if takes (fifo_stage depth mem) f off r then 1 else 0)"
    by (cases off) (auto simp: takes_def handed_def)
  have full: "\<not> fifo_s_ready depth f r \<Longrightarrow> ff_count f \<noteq> 0" using assms by (simp add: fifo_s_ready_def)
  show "ct_effort (fifo_contract depth ok tok) (st_step (fifo_stage depth mem) f off r) \<le> ct_effort (fifo_contract depth ok tok) f"
    if "\<not> takes (fifo_stage depth mem) f off r"
    using that len unfolding one by (simp add: fifo_contract_def fifo_stage_def)
  show "ct_effort (fifo_contract depth ok tok) (st_step (fifo_stage depth mem) f off r) < ct_effort (fifo_contract depth ok tok) f \<or>
      off = None \<and> ct_quiet (fifo_contract depth ok tok) f"
    if "\<not> takes (fifo_stage depth mem) f off r" "r \<or> st_offer (fifo_stage depth mem) f off = None"
    using that len full unfolding one
    by (auto simp: fifo_contract_def fifo_stage_def fifo_offer_def takes_def split: if_splits)
  show "ct_effort (fifo_contract depth ok tok) (st_step (fifo_stage depth mem) f off r) \<le>
      ct_effort (fifo_contract depth ok tok) f + ct_weight (fifo_contract depth ok tok)"
    if "takes (fifo_stage depth mem) f off r"
    using that len unfolding one by (simp add: fifo_contract_def fifo_stage_def)
next
  fix f :: "'a fifo" and r and X :: "'c token list"
  assume "ct_inv (fifo_contract depth ok tok) f" and quiet: "ct_quiet (fifo_contract depth ok tok) f"
  then have f: "ff_count f = 0" by (simp add: fifo_contract_def)
  show "st_offer (fifo_stage depth mem) f None = None" by (simp add: fifo_stage_def fifo_offer_def f)
  show "ct_quiet (fifo_contract depth ok tok) (st_step (fifo_stage depth mem) f None r)"
    by (simp add: fifo_contract_def fifo_stage_def fifo_edge_def f)
  show "None \<notin> set X \<Longrightarrow> None \<notin> set (ct_pending (fifo_contract depth ok tok) f X)"
    by (simp add: fifo_contract_def queue_none f)
qed

end
