(* ===== verification/Beat_Pack.thy ===== *)
theory Beat_Pack
  imports Stream_Packer
begin

text \<open>
  \<^verbatim>\<open>stream_pack_adapter\<close> of \<^verbatim>\<open>organized/rtl_v2/cmpct_infra.v\<close> as the output path uses it, 8 bytes wide in and 64
  bytes wide out: eight words, or the words up to the end of a frame, become one beat of the AXI bus. A wide beat is
  the list of its bytes and the list of its keep bits, lowest first.
\<close>

section \<open>Registers, wires and the clock edge\<close>

record wide_beat =
  wb_data :: "byte list"
  wb_keep :: "bool list"
  wb_last :: bool

record pack_adapter =
  pa_data :: "byte list"
  pa_keep :: "bool list"
  pa_count :: nat
  pa_pending :: bool
  pa_valid :: bool
  pa_last :: bool

definition adapter_reset :: pack_adapter where
  "adapter_reset = \<lparr>pa_data = replicate 64 0, pa_keep = replicate 64 False, pa_count = 0, pa_pending = False,
     pa_valid = False, pa_last = False\<rparr>"

definition adapter_offer :: "pack_adapter \<Rightarrow> wide_beat option" where
  "adapter_offer s =
     (if pa_valid s then Some \<lparr>wb_data = pa_data s, wb_keep = pa_keep s, wb_last = pa_last s\<rparr> else None)"

text \<open>A part select \<^verbatim>\<open>[n +: k]\<close> as the target of an assignment.\<close>

definition put_slice :: "nat \<Rightarrow> 'a list \<Rightarrow> 'a list \<Rightarrow> 'a list" where
  "put_slice n ys xs = take n xs @ ys @ drop (n + length ys) xs"

definition adapter_take :: "mg_beat \<Rightarrow> pack_adapter \<Rightarrow> pack_adapter" where
  "adapter_take x s =
     (let next_count = (pa_count s + 8) mod 2 ^ 7;
          fills = next_count = 64 \<or> bt_last x
      in s\<lparr>pa_data := put_slice (pa_count s) (map (byte_of (bt_data x)) [0..<8]) (pa_data s),
           pa_keep := put_slice (pa_count s) (map (bit (bt_keep x)) [0..<8]) (pa_keep s),
           pa_pending := bt_last x,
           pa_valid := fills \<or> pa_valid s,
           pa_last := (if fills then bt_last x else pa_last s),
           pa_count := (if fills then 0 else next_count)\<rparr>)"

definition adapter_edge :: "bool \<Rightarrow> mg_beat option \<Rightarrow> bool \<Rightarrow> pack_adapter \<Rightarrow> pack_adapter" where
  "adapter_edge rst off r s =
     (if rst then adapter_reset
      else
        (let s1 = (if pa_valid s \<and> r
                   then s\<lparr>pa_valid := False, pa_last := False, pa_data := replicate 64 0, pa_keep := replicate 64 False,
                          pa_count := 0, pa_pending := False\<rparr>
                   else s)
         in if off \<noteq> None \<and> \<not> pa_valid s \<and> bit (bt_keep (the off)) 0 then adapter_take (the off) s1 else s1))"

definition adapter_stage :: "(pack_adapter, mg_beat, wide_beat) stage" where
  "adapter_stage = \<lparr>st_init = adapter_reset, st_ready = (\<lambda>s r. \<not> pa_valid s), st_offer = (\<lambda>s off. adapter_offer s),
     st_step = (\<lambda>s off r. adapter_edge False off r s)\<rparr>"

lemma adapter_stage_simps [simp]:
  "st_init adapter_stage = adapter_reset" "st_ready adapter_stage s r \<longleftrightarrow> \<not> pa_valid s"
  "st_offer adapter_stage s off = adapter_offer s" "st_step adapter_stage s off r = adapter_edge False off r s"
  by (simp_all add: adapter_stage_def)

section \<open>What it does to a stream\<close>

definition keeps :: "nat \<Rightarrow> bool list" where
  "keeps n = replicate n True @ replicate (64 - n) False"

definition wide_bytes :: "wide_beat \<Rightarrow> byte list" where
  "wide_bytes y = map fst (filter snd (zip (wb_data y) (wb_keep y)))"

definition wide_tokens :: "wide_beat \<Rightarrow> byte token list" where
  "wide_tokens y = map Some (wide_bytes y) @ (if wb_last y then [None] else [])"

text \<open>All 64 bytes, but for the last beat of a frame.\<close>

definition wide_full :: "wide_beat \<Rightarrow> bool" where
  "wide_full y \<longleftrightarrow> length (wb_data y) = 64 \<and>
     (\<exists>n. 0 < n \<and> n \<le> 64 \<and> wb_keep y = keeps n \<and> (\<not> wb_last y \<longrightarrow> n = 64))"

definition adapter_ok :: "pack_adapter \<Rightarrow> bool" where
  "adapter_ok s \<longleftrightarrow> length (pa_data s) = 64 \<and>
     (if pa_valid s
      then pa_count s = 0 \<and> (\<exists>n. 0 < n \<and> n \<le> 64 \<and> pa_keep s = keeps n \<and> (\<not> pa_last s \<longrightarrow> n = 64))
      else pa_count s < 64 \<and> pa_count s mod 8 = 0 \<and> pa_keep s = keeps (pa_count s) \<and> \<not> pa_last s)"

definition adapter_held :: "pack_adapter \<Rightarrow> byte token list" where
  "adapter_held s = wide_tokens \<lparr>wb_data = pa_data s, wb_keep = pa_keep s, wb_last = pa_last s\<rparr>"

definition adapter_contract :: "(pack_adapter, byte) contract" where
  "adapter_contract = \<lparr>
     ct_inv = adapter_ok,
     ct_pending = (\<lambda>s X. adapter_held s @ X),
     ct_quiet = (\<lambda>s. \<not> pa_valid s),
     ct_effort = (\<lambda>s. if pa_valid s then 1 else 0),
     ct_weight = 1\<rparr>"

lemma adapter_contract_simps [simp]:
  "ct_inv adapter_contract = adapter_ok" "ct_pending adapter_contract s X = adapter_held s @ X"
  "ct_quiet adapter_contract s \<longleftrightarrow> \<not> pa_valid s" "ct_weight adapter_contract = 1"
  "ct_effort adapter_contract s = (if pa_valid s then 1 else 0)"
  by (simp_all add: adapter_contract_def)

lemma zip_keeps: "n \<le> 64 \<Longrightarrow> length xs = 64 \<Longrightarrow> map fst (filter snd (zip xs (keeps n))) = take n xs"
proof -
  assume n: "n \<le> 64" and xs: "length xs = 64"
  have ones: "map fst (filter snd (zip ys (replicate (length ys) True))) = ys" for ys :: "'a list"
    by (induction ys) simp_all
  have zeros: "filter snd (zip ys (replicate k False)) = []" for ys :: "'a list" and k
    by (auto simp: filter_empty_conv dest: set_zip_rightD)
  have len: "length (take n xs) = n" using n xs by simp
  have "zip xs (keeps n) = zip (take n xs @ drop n xs) (replicate n True @ replicate (64 - n) False)"
    by (simp add: keeps_def)
  also have "\<dots> = zip (take n xs) (replicate n True) @ zip (drop n xs) (replicate (64 - n) False)"
    by (rule zip_append) (use len in simp)
  finally show ?thesis using ones [of "take n xs"] zeros unfolding len by simp
qed

lemma length_put_slice: "n + length ys \<le> length xs \<Longrightarrow> length (put_slice n ys xs) = length xs"
  by (simp add: put_slice_def)

lemma keep_bits_list: "packable x \<Longrightarrow> map (bit (bt_keep x)) [0..<8] =
  replicate (keep_count (bt_keep x)) True @ replicate (8 - keep_count (bt_keep x)) False"
  by (rule nth_equalityI) (use keep_count_le [of "bt_keep x"] in \<open>auto simp: packable_def nth_append\<close>)

lemma put_keeps:
  assumes "packable x" and "n + 8 \<le> 64"
  shows "put_slice n (map (bit (bt_keep x)) [0..<8]) (keeps n) = keeps (n + keep_count (bt_keep x))"
proof -
  let ?c = "keep_count (bt_keep x)"
  have c: "?c \<le> 8" by (rule keep_count_le)
  have "put_slice n (map (bit (bt_keep x)) [0..<8]) (keeps n) =
      take n (keeps n) @ map (bit (bt_keep x)) [0..<8] @ drop (n + 8) (keeps n)"
    by (simp add: put_slice_def)
  moreover have "drop (n + 8) (keeps n) = replicate (56 - n) False" "take n (keeps n) = replicate n True"
    using assms(2) by (simp_all add: keeps_def)
  moreover have "replicate (8 - ?c) False @ replicate (56 - n) False = replicate (64 - (n + ?c)) False"
    using assms(2) c by (simp add: replicate_add [symmetric])
  ultimately show ?thesis
    unfolding keep_bits_list [OF assms(1)] by (simp add: keeps_def replicate_add)
qed

lemma put_data:
  assumes "packable x" and "n + 8 \<le> 64" and "length xs = 64"
  shows "take (n + keep_count (bt_keep x)) (put_slice n (map (byte_of (bt_data x)) [0..<8]) xs) = take n xs @ beat_bytes x"
  using assms keep_count_le [of "bt_keep x"] packable_bytes [OF assms(1)]
  by (simp add: put_slice_def take_map take_upt)

lemma adapter_take_ok:
  assumes "adapter_ok s" and "\<not> pa_valid s" and "full_beat x"
  shows "adapter_ok (adapter_take x s)" and "adapter_held (adapter_take x s) = adapter_held s @ beat_tokens x"
proof -
  let ?n = "pa_count s" and ?c = "keep_count (bt_keep x)"
  have n: "?n < 64" "?n mod 8 = 0" and k: "pa_keep s = keeps ?n" and d: "length (pa_data s) = 64" and l: "\<not> pa_last s"
    using assms(1,2) by (simp_all add: adapter_ok_def)
  have room: "?n + 8 \<le> 64" using n by presburger
  have next_mod: "(?n + 8) mod 2 ^ 7 = ?n + 8" using room by simp
  have p: "packable x" using assms(3) by (rule full_packable)
  have c: "0 < ?c" "?c \<le> 8" "\<not> bt_last x \<Longrightarrow> ?c = 8" using assms(3) keep_count_le [of "bt_keep x"] by (auto simp: full_beat_def dense_def)
  have e: "adapter_take x s = s\<lparr>pa_data := put_slice ?n (map (byte_of (bt_data x)) [0..<8]) (pa_data s),
      pa_keep := keeps (?n + ?c), pa_pending := bt_last x, pa_valid := ?n + 8 = 64 \<or> bt_last x, pa_last := bt_last x,
      pa_count := (if ?n + 8 = 64 \<or> bt_last x then 0 else ?n + 8)\<rparr>"
    using assms(2) l put_keeps [OF p room] unfolding adapter_take_def next_mod k by (simp add: Let_def)
  have len: "length (put_slice ?n (map (byte_of (bt_data x)) [0..<8]) (pa_data s)) = 64"
    using room d by (simp add: length_put_slice)
  show "adapter_ok (adapter_take x s)"
  proof (cases "?n + 8 = 64 \<or> bt_last x")
    case True
    then have "\<not> bt_last x \<longrightarrow> ?n + ?c = 64" using c(3) by auto
    then show ?thesis unfolding e adapter_ok_def using True len c room by (auto intro!: exI [of _ "?n + ?c"])
  next
    case False
    then have c8: "?c = 8" and l8: "\<not> bt_last x" "?n + 8 \<noteq> 64" using c(3) by auto
    show ?thesis unfolding e adapter_ok_def c8 using len room n l8 by auto
  qed
  have h0: "adapter_held s = map Some (take ?n (pa_data s))"
    using zip_keeps [of ?n "pa_data s"] n d l by (simp add: adapter_held_def wide_tokens_def wide_bytes_def k)
  have "?n + ?c \<le> 64" using room c(2) by linarith
  from zip_keeps [OF this len] have h1: "adapter_held (adapter_take x s) =
      map Some (take ?n (pa_data s) @ beat_bytes x) @ (if bt_last x then [None] else [])"
    unfolding e put_data [OF p room d] by (simp add: adapter_held_def wide_tokens_def wide_bytes_def)
  show "adapter_held (adapter_take x s) = adapter_held s @ beat_tokens x"
    unfolding h0 h1 by (simp add: beat_tokens_def)
qed

lemma adapter_reset_ok: "adapter_ok adapter_reset" "adapter_held adapter_reset = []"
  using zip_keeps [of 0 "replicate 64 0"]
  by (simp_all add: adapter_ok_def adapter_reset_def adapter_held_def wide_tokens_def wide_bytes_def keeps_def)

lemma adapter_edge_cases:
  assumes "pred_option full_beat off"
  shows "adapter_edge False off r s =
    (if pa_valid s then if r then adapter_reset else s else case off of None \<Rightarrow> s | Some x \<Rightarrow> adapter_take x s)"
proof -
  have bit0: "bit (bt_keep x) 0" if "full_beat x" for x using that by (simp add: full_beat_def dense_def)
  have "s\<lparr>pa_valid := False, pa_last := False, pa_data := replicate 64 0, pa_keep := replicate 64 False, pa_count := 0, pa_pending := False\<rparr>
      = adapter_reset"
    by (rule pack_adapter.equality) (simp_all add: adapter_reset_def)
  then show ?thesis using assms bit0 by (cases off) (auto simp: adapter_edge_def Let_def)
qed

interpretation adapter: stream_stage adapter_stage adapter_contract full_beat beat_tokens wide_full wide_tokens
proof
  show "ct_inv adapter_contract (st_init adapter_stage)" by (simp add: adapter_reset_ok)
next
  fix s and off :: "mg_beat option" and r and X :: "byte token list"
  assume "ct_inv adapter_contract s" and off: "pred_option full_beat off"
  then have s: "adapter_ok s" by simp
  note e = adapter_edge_cases [OF off, of r s]
  have x: "full_beat (the off)" if "off \<noteq> None" using off that by auto
  show "ct_inv adapter_contract (st_step adapter_stage s off r)"
    unfolding adapter_stage_simps e
    using s adapter_reset_ok(1) adapter_take_ok(1) [OF s _ x] by (cases off) auto
  show "pred_option wide_full (st_offer adapter_stage s off)"
    using s by (auto simp: adapter_offer_def adapter_ok_def wide_full_def)
  show "ct_pending adapter_contract s (concat (map beat_tokens (handed adapter_stage s off r)) @ X) =
      concat (map wide_tokens (sent adapter_stage s off r)) @ ct_pending adapter_contract (st_step adapter_stage s off r) X"
  proof (cases "pa_valid s")
    case True
    then have "handed adapter_stage s off r = []" by (cases off) (simp_all add: handed_def)
    moreover have "concat (map wide_tokens (sent adapter_stage s off r)) = (if r then adapter_held s else [])"
      using True by (simp add: sent_def adapter_offer_def adapter_held_def)
    ultimately show ?thesis using True by (simp add: e adapter_reset_ok(2))
  next
    case False
    then have "sent adapter_stage s off r = []" by (simp add: sent_def adapter_offer_def)
    then show ?thesis
      unfolding adapter_stage_simps e
      using False adapter_take_ok(2) [OF s False x] by (cases off) (simp_all add: handed_def)
  qed
  show "ct_effort adapter_contract (st_step adapter_stage s off r) \<le> ct_effort adapter_contract s" if "\<not> takes adapter_stage s off r"
    using that unfolding adapter_stage_simps e by (cases off) (auto simp: takes_def adapter_reset_def)
  show "ct_effort adapter_contract (st_step adapter_stage s off r) < ct_effort adapter_contract s \<or>
      off = None \<and> ct_quiet adapter_contract s"
    if "\<not> takes adapter_stage s off r" "r \<or> st_offer adapter_stage s off = None"
    using that unfolding adapter_stage_simps e
    by (cases off) (auto simp: takes_def adapter_reset_def adapter_offer_def split: if_splits)
  show "ct_effort adapter_contract (st_step adapter_stage s off r) \<le> ct_effort adapter_contract s + ct_weight adapter_contract"
    by simp
next
  fix s r and X :: "byte token list"
  assume "ct_inv adapter_contract s" and "ct_quiet adapter_contract s"
  then have s: "adapter_ok s" and q: "\<not> pa_valid s" by simp_all
  show "st_offer adapter_stage s None = None" using q by (simp add: adapter_offer_def)
  show "ct_quiet adapter_contract (st_step adapter_stage s None r)"
    using q adapter_edge_cases [of None r s] by simp
  show "None \<notin> set (ct_pending adapter_contract s X)" if "None \<notin> set X"
    using that s q by (auto simp: adapter_held_def wide_tokens_def adapter_ok_def)
qed

end
