(* ===== verification/Block_Output.thy ===== *)
theory Block_Output
  imports Stream_Fifo Block_Trailer Beat_Pack
begin

text \<open>
  The output path of the block encoder in \<^verbatim>\<open>organized/rtl_v2/cmpct_pair_chain.v\<close>, from the encoder's stream to the
  beats of the AXI write engine: packer, FIFO, trailer appender, a second packer, pack adapter. Every hand-shake of
  the path is there; the encoder and the write engine are an arbitrary source and sink here.
\<close>

section \<open>The path\<close>

definition packed_fifo :: "(nat \<Rightarrow> mg_beat) \<Rightarrow> (packer \<times> mg_beat fifo, mg_beat, mg_beat) stage" where
  "packed_fifo mem = wire packer_stage (fifo_stage 128 mem)"

definition trailed :: "(nat \<Rightarrow> mg_beat) \<Rightarrow> ((packer \<times> mg_beat fifo) \<times> trailer, mg_beat, mg_beat) stage" where
  "trailed mem = wire (packed_fifo mem) trailer_stage"

definition repacked :: "(nat \<Rightarrow> mg_beat) \<Rightarrow> (((packer \<times> mg_beat fifo) \<times> trailer) \<times> packer, mg_beat, mg_beat) stage" where
  "repacked mem = wire (trailed mem) packer_stage"

definition block_output ::
  "(nat \<Rightarrow> mg_beat) \<Rightarrow> ((((packer \<times> mg_beat fifo) \<times> trailer) \<times> packer) \<times> pack_adapter, mg_beat, wide_beat) stage" where
  "block_output mem = wire (repacked mem) adapter_stage"

text \<open>Beats that carry a block: its bytes in order, the end of the frame on the last beat only.\<close>

definition frame_beats :: "byte list \<Rightarrow> mg_beat list \<Rightarrow> bool" where
  "frame_beats d xs \<longleftrightarrow> xs \<noteq> [] \<and> list_all packable xs \<and> list_all (\<lambda>x. \<not> bt_last x) (butlast xs) \<and> bt_last (last xs) \<and>
     concat (map beat_bytes xs) = d"

text \<open>The stream that LevelDB's format asks for: every block with its trailer.\<close>

definition trailed_blocks :: "byte list list \<Rightarrow> byte token list" where
  "trailed_blocks ds = concat (map (\<lambda>d. map Some (d @ trailer_of d) @ [None]) ds)"

section \<open>Its contract\<close>

definition path1 where "path1 = join packer_contract (fifo_contract 128 full_beat beat_tokens)"
definition path2 where "path2 = join path1 trailer_contract"
definition path3 where "path3 = join path2 packer_contract"
definition path4 where "path4 = join path3 adapter_contract"

lemma fifo128: "stream_stage (fifo_stage 128 mem) (fifo_contract 128 full_beat beat_tokens) full_beat beat_tokens full_beat beat_tokens"
  by (rule fifo_is_stage) simp

interpretation p1: stage_pair packer_stage packer_contract packable beat_tokens full_beat beat_tokens
  "fifo_stage 128 mem" "fifo_contract 128 full_beat beat_tokens" full_beat beat_tokens for mem
  by (rule stage_pair.intro [OF packer.stream_stage_axioms fifo128])

interpretation p2: stage_pair "packed_fifo mem" path1 packable beat_tokens full_beat beat_tokens
  trailer_stage trailer_contract packable beat_tokens for mem
  unfolding packed_fifo_def path1_def
  by (rule stage_pair.intro [OF p1.AB.stream_stage_axioms appender.stream_stage_axioms])

interpretation p3: stage_pair "trailed mem" path2 packable beat_tokens packable beat_tokens
  packer_stage packer_contract full_beat beat_tokens for mem
  unfolding trailed_def path2_def
  by (rule stage_pair.intro [OF p2.AB.stream_stage_axioms packer.stream_stage_axioms])

interpretation p4: stage_pair "repacked mem" path3 packable beat_tokens full_beat beat_tokens
  adapter_stage adapter_contract wide_full wide_tokens for mem
  unfolding repacked_def path3_def
  by (rule stage_pair.intro [OF p3.AB.stream_stage_axioms adapter.stream_stage_axioms])

lemmas path_defs = path1_def path2_def path3_def path4_def
lemmas output_defs = block_output_def repacked_def trailed_def packed_fifo_def

lemma path_stage: "stream_stage (block_output mem) path4 packable beat_tokens wide_full wide_tokens"
  unfolding block_output_def path4_def by (rule p4.AB.stream_stage_axioms)

lemma frame_tokens: "frame_beats d xs \<Longrightarrow> concat (map beat_tokens xs) = map Some d @ [None]"
proof -
  assume f: "frame_beats d xs"
  then obtain ys y where xs: "xs = ys @ [y]" by (cases xs rule: rev_cases) (auto simp: frame_beats_def)
  have open_beats: "concat (map beat_tokens zs) = map Some (concat (map beat_bytes zs))" if "list_all (\<lambda>x. \<not> bt_last x) zs" for zs
    using that by (induction zs) (simp_all add: beat_tokens_def)
  show ?thesis using f open_beats [of ys] by (auto simp: frame_beats_def xs beat_tokens_def)
qed

lemma frames_tokens:
  "list_all2 frame_beats ds xss \<Longrightarrow>
   list_all packable (concat xss) \<and> concat (map beat_tokens (concat xss)) = concat (map (\<lambda>d. map Some d @ [None]) ds)"
  by (induction rule: list_all2_induct) (auto simp: frame_tokens, auto simp: frame_beats_def)

lemma path_pending:
  "ct_pending path4 (st_init (block_output mem)) (concat (map (\<lambda>d. map Some d @ [None]) ds)) = trailed_blocks ds"
proof -
  have "ct_pending (fifo_contract 128 full_beat beat_tokens) (st_init (fifo_stage 128 mem)) X = X" for X
    by (simp add: fifo_contract_def fifo_stage_def queue_none)
  then have "ct_pending path4 (st_init (block_output mem)) X = append_trailers 0xFFFFFFFF X" for X
    by (simp add: path_defs output_defs packer_held_def packer_reset_def adapter_reset_ok(2))
      (simp add: trailer_contract_def trailer_reset_def)
  then show ?thesis by (simp add: trailed_blocks_def append_trailers_blocks)
qed

lemma path_target:
  assumes "list_all2 frame_beats ds xss"
  shows "ct_pending path4 (st_init (block_output mem)) (concat (map beat_tokens (concat xss))) = trailed_blocks ds"
  using frames_tokens [OF assms] path_pending [of mem ds] by simp

lemma path_bound: "ct_weight path4 = 143" "ct_effort path4 (st_init (block_output mem)) = 6"
  by (simp_all add: path_defs output_defs packer_reset_def packer_valid_def adapter_reset_def)
    (simp_all add: fifo_contract_def fifo_stage_def trailer_contract_def trailer_reset_def)

lemma trailed_end: "trailed_blocks ds = [] \<or> last (trailed_blocks ds) = None"
  by (cases ds rule: rev_cases) (simp_all add: trailed_blocks_def)

section \<open>Properties\<close>

text \<open>
  C15. Whatever the hand-shakes of the encoder and of the write engine, what the output path has handed over is at
  every edge a beginning of the blocks followed by their LevelDB trailers, compression type and masked CRC32C, and all
  its beats are full but the last one of a block.
\<close>

theorem block_output_trails:
  assumes "list_all2 frame_beats ds xss"
  shows "(\<exists>Y. trailed_blocks ds = concat (map wide_tokens (received (stage_run (block_output mem) es (concat xss)))) @ Y) \<and>
    list_all wide_full (received (stage_run (block_output mem) es (concat xss)))"
proof -
  have ok: "list_all packable (concat xss)" using frames_tokens [OF assms] by blast
  note safe = stream_stage.run_safe [OF path_stage [of mem] ok, of es]
  show ?thesis
    using safe unfolding stream_stage.target_def [OF path_stage] path_target [OF assms] by (rule conjI)
qed

text \<open>
  All of it arrives: when the encoder offers its beats and the write engine takes them, the blocks and their trailers
  are complete after 144 edges for every beat and six more.
\<close>

theorem block_output_complete:
  assumes "list_all2 frame_beats ds xss" and "144 * length (concat xss) + 6 \<le> n"
  shows "concat (map wide_tokens (received (stage_run (block_output mem) (replicate n (True, True)) (concat xss)))) =
    trailed_blocks ds"
proof -
  have ok: "list_all packable (concat xss)" using frames_tokens [OF assms(1)] by blast
  have t: "stream_stage.target (block_output mem) path4 beat_tokens (concat xss) = trailed_blocks ds"
    unfolding stream_stage.target_def [OF path_stage] by (rule path_target [OF assms(1)])
  show ?thesis
    using stream_stage.run_complete [OF path_stage [of mem] ok, of n] assms(2) trailed_end
    unfolding t path_bound by simp
qed

section \<open>Two blocks\<close>

text \<open>A block of eleven bytes in two beats, the first one with three bytes, and one of two bytes.\<close>

definition demo_frames :: "mg_beat list list" where
  "demo_frames = [[beat_of [1, 2, 3] False, beat_of [4, 5, 6, 7, 8, 9, 10, 11] True], [beat_of [12, 13] True]]"

lemma demo_frames_ok: "list_all2 frame_beats [[1, 2, 3, 4, 5, 6, 7, 8, 9, 10, 11], [12, 13]] demo_frames"
proof -
  have b: "dense (beat_of [1, 2, 3] False)" "dense (beat_of [4, 5, 6, 7, 8, 9, 10, 11] True)" "dense (beat_of [12, 13] True)"
    and c: "beat_bytes (beat_of [1, 2, 3] False) = [1, 2, 3]"
    "beat_bytes (beat_of [4, 5, 6, 7, 8, 9, 10, 11] True) = [4, 5, 6, 7, 8, 9, 10, 11]" "beat_bytes (beat_of [12, 13] True) = [12, 13]"
    using dense_beat_of [of "[1, 2, 3]" False] dense_beat_of [of "[4, 5, 6, 7, 8, 9, 10, 11]" True] dense_beat_of [of "[12, 13]" True]
    by simp_all
  have p: "dense x \<Longrightarrow> packable x" for x by (simp add: dense_def packable_def)
  have l: "bt_last (beat_of bs l) = l" for bs l by (simp add: beat_of_def)
  show ?thesis by (simp add: demo_frames_def frame_beats_def p b c l)
qed

definition demo_mem :: "nat \<Rightarrow> mg_beat" where "demo_mem k = beat_of [] False"

lemma block_output_trails_witness:
  "list_all wide_full (received (stage_run (block_output demo_mem) [(True, False), (True, True)] (concat demo_frames)))"
  using block_output_trails [OF demo_frames_ok, of demo_mem "[(True, False), (True, True)]"] by (rule conjunct2)

lemma block_output_complete_witness:
  "concat (map wide_tokens (received (stage_run (block_output demo_mem) (replicate 438 (True, True)) (concat demo_frames)))) =
   trailed_blocks [[1, 2, 3, 4, 5, 6, 7, 8, 9, 10, 11], [12, 13]]"
  by (rule block_output_complete [OF demo_frames_ok]) (simp add: demo_frames_def)

end
