(* ===== verification/Encoder_Path.thy ===== *)
theory Encoder_Path
  imports Encoder_Termination Block_Output
begin

text \<open>
  The encoder wired to its output path: \<^verbatim>\<open>m_axis_tready\<close> of the encoder is what packer, FIFO, trailer appender and
  pack adapter answer, and the path takes what the encoder offers. The contract of the path, from its locale, says what has
  been handed over at every edge.
\<close>

section \<open>A stage behind a source with registers of its own\<close>

context stream_stage
begin

definition keeps_promise :: "'s \<Rightarrow> 'b list \<Rightarrow> 'c token list \<Rightarrow> bool" where
  "keeps_promise s ys D \<longleftrightarrow> ct_inv C s \<and> list_all okB ys \<and>
     (\<forall>X. concat (map tokB ys) @ ct_pending C s X = ct_pending C (st_init M) (D @ X))"

lemma promise_start: "keeps_promise (st_init M) [] []"
  by (simp add: keeps_promise_def inv_init)

lemma promise_step:
  assumes "keeps_promise s ys D" and off: "pred_option okA off"
  shows "keeps_promise (st_step M s off r) (ys @ sent M s off r) (D @ concat (map tokA (handed M s off r)))"
proof -
  have s: "ct_inv C s" and ys: "list_all okB ys"
    and p: "concat (map tokB ys) @ ct_pending C s X = ct_pending C (st_init M) (D @ X)" for X
    using assms(1) by (simp_all add: keeps_promise_def)
  have "list_all okB (sent M s off r)" using offer_ok [OF s off] by (auto simp: sent_def split: option.splits)
  moreover have "concat (map tokB (ys @ sent M s off r)) @ ct_pending C (st_step M s off r) X =
      ct_pending C (st_init M) ((D @ concat (map tokA (handed M s off r))) @ X)" for X
    using p [of "concat (map tokA (handed M s off r)) @ X"] conserves [OF s off, of r X] by simp
  ultimately show ?thesis using ys inv_step [OF s off] by (simp add: keeps_promise_def)
qed

end

section \<open>The wires\<close>

type_synonym path_regs = "(((packer \<times> mg_beat fifo) \<times> trailer) \<times> packer) \<times> pack_adapter"

record enc_path =
  ep_enc :: enc_sys
  ep_path :: path_regs
  ep_out :: "wide_beat list"

definition path_cycle :: "(nat \<Rightarrow> mg_beat) \<Rightarrow> enc_choice \<Rightarrow> enc_path \<Rightarrow> enc_path" where
  "path_cycle mem c z =
     (let M = block_output mem; off = enc_offer (en_enc (ep_enc z)); r = eh_ready c
      in \<lparr>ep_enc = enc_cycle (c\<lparr>eh_ready := st_ready M (ep_path z) r\<rparr>) (ep_enc z),
          ep_path = st_step M (ep_path z) off r,
          ep_out = ep_out z @ sent M (ep_path z) off r\<rparr>)"

definition path_cycles :: "(nat \<Rightarrow> mg_beat) \<Rightarrow> enc_choice list \<Rightarrow> enc_path \<Rightarrow> enc_path" where
  "path_cycles mem cs z = fold (path_cycle mem) cs z"

definition path_start :: "(nat \<Rightarrow> mg_beat) \<Rightarrow> encoder \<Rightarrow> feed \<Rightarrow> enc_path" where
  "path_start mem s f = \<lparr>ep_enc = enc_start_block s f, ep_path = st_init (block_output mem), ep_out = []\<rparr>"

fun honest_path :: "(nat \<Rightarrow> mg_beat) \<Rightarrow> enc_choice list \<Rightarrow> enc_path \<Rightarrow> bool" where
  "honest_path mem [] z \<longleftrightarrow> True"
| "honest_path mem (c # cs) z \<longleftrightarrow> honest c (ep_enc z) \<and> honest_path mem cs (path_cycle mem c z)"

definition path_inv :: "(nat \<Rightarrow> mg_beat) \<Rightarrow> byte \<Rightarrow> entry list \<Rightarrow> enc_path \<Rightarrow> bool" where
  "path_inv mem x rs z \<longleftrightarrow> enc_inv x rs (ep_enc z) \<and>
     stream_stage.keeps_promise (block_output mem) path4 wide_full wide_tokens (ep_path z) (ep_out z)
       (beats_tokens (en_out (ep_enc z)))"

lemma path_start_inv:
  assumes "enc_memories s" and "delivers f rs"
  shows "path_inv mem (ucast (ec_undef s)) rs (path_start mem s f)"
  using enc_start_inv [OF assms] stream_stage.promise_start [OF path_stage, of mem]
  by (simp add: path_inv_def path_start_def) (simp add: enc_start_block_def beats_tokens_def)

lemma path_inv_cycle:
  assumes inv: "path_inv mem x rs z" and fits: "fits x rs" and honest: "honest c (ep_enc z)"
  shows "path_inv mem x rs (path_cycle mem c z)"
proof -
  let ?M = "block_output mem" and ?off = "enc_offer (en_enc (ep_enc z))" and ?r = "eh_ready c"
  let ?c = "c\<lparr>eh_ready := st_ready ?M (ep_path z) ?r\<rparr>"
  have e: "enc_inv x rs (ep_enc z)" using inv by (simp add: path_inv_def)
  have "honest ?c (ep_enc z)" using honest by (simp add: honest_def)
  then have e': "enc_inv x rs (enc_cycle ?c (ep_enc z))" by (rule enc_inv_cycle [OF e fits])
  have "list_all packable (hist (ep_enc z))" using e by (simp add: enc_inv_def)
  then have off: "pred_option packable ?off" by (auto simp: hist_def opt_list_def split: option.splits)
  have "en_out (enc_cycle ?c (ep_enc z)) = en_out (ep_enc z) @ handed ?M (ep_path z) ?off ?r"
    by (simp add: enc_cycle_def Let_def handed_def opt_list_def split: option.splits)
  then have "beats_tokens (en_out (enc_cycle ?c (ep_enc z))) =
      beats_tokens (en_out (ep_enc z)) @ concat (map beat_tokens (handed ?M (ep_path z) ?off ?r))"
    by (simp add: beats_tokens_def)
  moreover have "stream_stage.keeps_promise ?M path4 wide_full wide_tokens (ep_path z) (ep_out z) (beats_tokens (en_out (ep_enc z)))"
    using inv by (simp add: path_inv_def)
  note stream_stage.promise_step [OF path_stage this off, of ?r]
  ultimately show ?thesis using e' by (simp add: path_inv_def path_cycle_def Let_def)
qed

lemma path_inv_run: "path_inv mem x rs z \<Longrightarrow> fits x rs \<Longrightarrow> honest_path mem cs z \<Longrightarrow> path_inv mem x rs (path_cycles mem cs z)"
  by (induction cs arbitrary: z) (simp_all add: path_cycles_def path_inv_cycle)

lemma path_inv_out:
  assumes "path_inv mem x rs z"
  shows "prefix (concat (map wide_tokens (ep_out z))) (trailed_blocks [enc_block x rs])" and "list_all wide_full (ep_out z)"
    and "ec_state (en_enc (ep_enc z)) = Ec_Idle \<Longrightarrow>
      concat (map wide_tokens (ep_out z)) @ ct_pending path4 (ep_path z) [] = trailed_blocks [enc_block x rs]"
proof -
  note k = assms [unfolded path_inv_def stream_stage.keeps_promise_def [OF path_stage]]
  have block: "ct_pending path4 (st_init (block_output mem)) (map Some (enc_block x rs) @ [None]) = trailed_blocks [enc_block x rs]"
    using path_pending [of mem "[enc_block x rs]"] by simp
  have e: "enc_inv x rs (ep_enc z)" using k by blast
  have p: "concat (map wide_tokens (ep_out z)) @ ct_pending path4 (ep_path z) X =
      ct_pending path4 (st_init (block_output mem)) (beats_tokens (en_out (ep_enc z)) @ X)" for X using k by blast
  show "list_all wide_full (ep_out z)" using k by blast
  obtain X where "map Some (enc_block x rs) @ [None] = beats_tokens (en_out (ep_enc z)) @ X"
    using enc_inv_out(1) [OF e] by (auto simp: prefix_def)
  then have "concat (map wide_tokens (ep_out z)) @ ct_pending path4 (ep_path z) X = trailed_blocks [enc_block x rs]"
    using p [of X] block by simp
  then show "prefix (concat (map wide_tokens (ep_out z))) (trailed_blocks [enc_block x rs])" by (metis prefixI)
  assume "ec_state (en_enc (ep_enc z)) = Ec_Idle"
  then have "beats_tokens (en_out (ep_enc z)) = map Some (enc_block x rs) @ [None]" by (rule enc_inv_out(4) [OF e])
  then show "concat (map wide_tokens (ep_out z)) @ ct_pending path4 (ep_path z) [] = trailed_blocks [enc_block x rs]"
    using p [of "[]"] block by simp
qed

section \<open>It ends\<close>

definition eager_choice :: "enc_path \<Rightarrow> enc_choice" where
  "eager_choice z = \<lparr>eh_hdr = True, eh_data = True, eh_done = (fd_hdrs (en_feed (ep_enc z)) = []), eh_ready = True\<rparr>"

primrec eager_choices :: "(nat \<Rightarrow> mg_beat) \<Rightarrow> nat \<Rightarrow> enc_path \<Rightarrow> enc_choice list" where
  "eager_choices mem 0 z = []"
| "eager_choices mem (Suc n) z = eager_choice z # eager_choices mem n (path_cycle mem (eager_choice z) z)"

lemma eager_honest: "honest_path mem (eager_choices mem n z) z"
  by (induction n arbitrary: z) (simp_all add: honest_def eager_choice_def)

definition path_effort :: "enc_path \<Rightarrow> nat" where
  "path_effort z = 144 * enc_effort (en_enc (ep_enc z)) (en_feed (ep_enc z)) + ct_effort path4 (ep_path z)"

definition path_over :: "enc_path \<Rightarrow> bool" where
  "path_over z \<longleftrightarrow> ec_state (en_enc (ep_enc z)) = Ec_Idle \<and> ct_quiet path4 (ep_path z)"

lemma path_inv_parts:
  assumes "path_inv mem x rs z"
  shows "enc_inv x rs (ep_enc z)" and "ct_inv path4 (ep_path z)" and "pred_option packable (enc_offer (en_enc (ep_enc z)))"
    and "ec_state (en_enc (ep_enc z)) = Ec_Idle \<Longrightarrow> enc_offer (en_enc (ep_enc z)) = None"
proof -
  show e: "enc_inv x rs (ep_enc z)" and "ct_inv path4 (ep_path z)"
    using assms by (simp_all add: path_inv_def stream_stage.keeps_promise_def [OF path_stage])
  have "list_all packable (hist (ep_enc z))" using e by (simp add: enc_inv_def)
  then show "pred_option packable (enc_offer (en_enc (ep_enc z)))" by (auto simp: hist_def opt_list_def split: option.splits)
  assume "ec_state (en_enc (ep_enc z)) = Ec_Idle"
  then show "enc_offer (en_enc (ep_enc z)) = None"
    using e by (auto simp: enc_inv_def working_def ended_def enc_offer_def)
qed

lemma path_less:
  assumes inv: "path_inv mem x rs z"
  shows "path_effort (path_cycle mem (eager_choice z) z) < path_effort z \<or> path_over z"
proof -
  let ?M = "block_output mem" and ?y = "ep_enc z" and ?p = "ep_path z"
  let ?off = "enc_offer (en_enc ?y)" and ?c = "(eager_choice z)\<lparr>eh_ready := st_ready ?M ?p True\<rparr>"
  let ?E = "\<lambda>y. enc_effort (en_enc y) (en_feed y)"
  note e = path_inv_parts [OF inv]
  have sup: "supplies ?c ?y" by (simp add: supplies_def eager_choice_def)
  have cyc: "path_effort (path_cycle mem (eager_choice z) z) = 144 * ?E (enc_cycle ?c ?y) + ct_effort path4 (st_step ?M ?p ?off True)"
    by (simp add: path_effort_def path_cycle_def Let_def eager_choice_def)
  have le: "?E (enc_cycle ?c ?y) \<le> ?E ?y" by (rule supplied_le [OF e(1) sup])
  show ?thesis
  proof (cases "takes ?M ?p ?off True")
    case True
    then have r: "st_ready ?M ?p True" and off: "?off \<noteq> None" by (simp_all add: takes_def)
    have "ec_state (en_enc ?y) \<noteq> Ec_Idle" using e(4) off by blast
    moreover have "can_emit (enc_in_of ?c (en_feed ?y)) (en_enc ?y)" using r by (simp add: can_emit_def)
    ultimately have "?E (enc_cycle ?c ?y) < ?E ?y" by (intro supplied_less [OF e(1) _ sup])
    moreover have "ct_effort path4 (st_step ?M ?p ?off True) \<le> ct_effort path4 ?p + 143"
      using stream_stage.effort_rises [OF path_stage e(2,3) True] by (simp add: path_bound)
    ultimately have "144 * ?E (enc_cycle ?c ?y) + ct_effort path4 (st_step ?M ?p ?off True) < 144 * ?E ?y + ct_effort path4 ?p"
      by linarith
    then show ?thesis unfolding cyc by (simp add: path_effort_def)
  next
    case False
    note falls = stream_stage.effort_falls [OF path_stage e(2,3) False]
    note keeps = stream_stage.effort_keeps [OF path_stage e(2,3) False]
    show ?thesis
    proof (cases "ct_effort path4 (st_step ?M ?p ?off True) < ct_effort path4 ?p")
      case True
      then show ?thesis using le unfolding cyc unfolding path_effort_def [of z] by (intro disjI1) linarith
    next
      case nf: False
      then have off: "?off = None" and quiet: "ct_quiet path4 ?p" using falls by blast+
      show ?thesis
      proof (cases "ec_state (en_enc ?y) = Ec_Idle")
        case True
        then show ?thesis using quiet by (simp add: path_over_def)
      next
        case False
        have "can_emit (enc_in_of ?c (en_feed ?y)) (en_enc ?y)" using off by (simp add: can_emit_def enc_offer_def split: if_splits)
        from supplied_less [OF e(1) False sup this] show ?thesis using keeps unfolding cyc unfolding path_effort_def [of z] by (intro disjI1) linarith
      qed
    qed
  qed
qed

lemma over_stays:
  assumes "path_inv mem x rs z" and "path_over z"
  shows "path_over (path_cycle mem c z)"
proof -
  note e = path_inv_parts [OF assms(1)]
  have idle: "ec_state (en_enc (ep_enc z)) = Ec_Idle" and q: "ct_quiet path4 (ep_path z)" using assms(2) by (simp_all add: path_over_def)
  have "ct_quiet path4 (st_step (block_output mem) (ep_path z) None (eh_ready c))"
    by (rule stream_stage.quiet_step [OF path_stage e(2) q])
  then show ?thesis
    using enc_idle_stays [OF e(1) idle] by (simp add: path_over_def path_cycle_def Let_def e(4) [OF idle])
qed

lemma eager_over:
  assumes "path_inv mem x rs z" and "fits x rs" and "path_over z \<or> path_effort z \<le> n"
  shows "path_over (path_cycles mem (eager_choices mem n z) z)"
  using assms(1,3)
proof (induction n arbitrary: z)
  case 0
  then show ?case using path_less [OF 0(1)] by (auto simp: path_cycles_def)
next
  case (Suc n)
  let ?z = "path_cycle mem (eager_choice z) z"
  have "honest (eager_choice z) (ep_enc z)" by (simp add: honest_def eager_choice_def)
  then have inv: "path_inv mem x rs ?z" by (rule path_inv_cycle [OF Suc.prems(1) assms(2)])
  have "path_over ?z \<or> path_effort ?z \<le> n"
    using Suc.prems(2) path_less [OF Suc.prems(1)] over_stays [OF Suc.prems(1)] by (cases "path_over z") auto
  from Suc.IH [OF inv this] show ?case by (simp add: path_cycles_def)
qed

lemma path_start_effort: "path_effort (path_start mem s f) = 144 * block_cycles f + 6"
  using start_block_effort [of s f] by (simp add: path_effort_def path_start_def path_bound) (simp add: enc_start_block_def)

text \<open>A quiet path holds nothing back.\<close>

lemma over_all:
  assumes "path_inv mem x rs z" and "path_over z"
  shows "concat (map wide_tokens (ep_out z)) = trailed_blocks [enc_block x rs]"
proof -
  note e = path_inv_parts [OF assms(1)]
  have idle: "ec_state (en_enc (ep_enc z)) = Ec_Idle" and q: "ct_quiet path4 (ep_path z)" using assms(2) by (simp_all add: path_over_def)
  have all: "concat (map wide_tokens (ep_out z)) @ ct_pending path4 (ep_path z) [] = trailed_blocks [enc_block x rs]"
    by (rule path_inv_out(3) [OF assms(1) idle])
  have "None \<notin> set (ct_pending path4 (ep_path z) [])"
    by (rule stream_stage.quiet_pending [OF path_stage e(2) q]) simp
  moreover have "trailed_blocks [enc_block x rs] \<noteq> []" "last (trailed_blocks [enc_block x rs]) = None"
    by (simp_all add: trailed_blocks_def)
  ultimately have "ct_pending path4 (ep_path z) [] = []"
    using all by (metis last_appendR last_in_set)
  then show ?thesis using all by simp
qed

end
