(* ===== verification/Block_Encoder.thy ===== *)
theory Block_Encoder
  imports Encoder_Path
begin

text \<open>
  The properties of the block encoder: alone and wired to its output path it writes the block of the fixture builder's
  reference encoder, with its trailer; what happens to keys that its buffers do not hold.
\<close>

section \<open>The reference encoder\<close>

lemma short_entries:
  assumes "\<forall>r\<in>set rs. length (fst r) \<le> 64"
  shows "entries_of x rs = fst (encode_entries 16 0 [] rs [] [])"
  using block_acc_encode [OF assms, of 0 "[]" "[]" "[]" x] by (simp add: entries_of_def block_acc_def)

lemma short_fits:
  "\<forall>r\<in>set rs. length (fst r) \<le> 64 \<Longrightarrow> length (fst (encode_entries 16 0 [] rs [] [])) \<le> 4096 \<Longrightarrow> fits x rs"
  by (simp add: fits_def short_entries)

lemma one_block:
  "enc_block x [(k, v)] = varint 0 @ varint (of_nat (length k)) @ varint (of_nat (length v)) @ seen x k @ v @ le32 0 @ le32 1"
  by (simp add: enc_block_def entries_of_def restarts_of_def block_acc_def block_step_def entry_out_def shared_of_def)

lemma one_reference:
  "encode_block [(k, v)] 16 = varint 0 @ varint (of_nat (length k)) @ varint (of_nat (length v)) @ k @ v @ le32 0 @ le32 1"
  by (simp add: encode_block_def)

lemma trailed_one: "trailed_blocks [d] = trailed_blocks [e] \<longleftrightarrow> d = e"
proof
  assume "trailed_blocks [d] = trailed_blocks [e]"
  then have "map Some (d @ trailer_of d) = map Some (e @ trailer_of e)" by (simp add: trailed_blocks_def)
  then have eq: "d @ trailer_of d = e @ trailer_of e" by (simp only: inj_map_eq_map [OF inj_Some])
  have "length (trailer_of d) = length (trailer_of e)" by (simp add: trailer_of_def)
  then show "d = e" using eq by (simp add: append_eq_append_conv)
qed simp

section \<open>Properties\<close>

text \<open>
  C4. The encoder, however its neighbours hand-shake, reports no error and has at every edge put out a beginning of the block
  the reference encoder builds from its records, with a restart every 16; when it is idle again it is the whole block.
\<close>

theorem encoder_writes_block:
  assumes "enc_memories s" and "delivers f rs" and "rs \<noteq> []" and "\<forall>r\<in>set rs. length (fst r) \<le> 64"
    and "length (fst (encode_entries 16 0 [] rs [] [])) \<le> 4096" and "honest_run cs (enc_start_block s f)"
  shows "\<not> ec_error (en_enc (enc_cycles cs (enc_start_block s f))) \<and>
    prefix (beats_tokens (en_out (enc_cycles cs (enc_start_block s f)))) (map Some (encode_block rs 16) @ [None]) \<and>
    (ec_state (en_enc (enc_cycles cs (enc_start_block s f))) = Ec_Idle \<longrightarrow>
      beats_tokens (en_out (enc_cycles cs (enc_start_block s f))) = map Some (encode_block rs 16) @ [None])"
proof -
  let ?x = "ucast (ec_undef s) :: byte"
  note inv = enc_inv_run [OF enc_start_inv [OF assms(1,2)] short_fits [OF assms(4,5)] assms(6)]
  show ?thesis
    using enc_inv_out [OF inv] unfolding enc_block_encode [OF assms(3,4)] by blast
qed

text \<open>
  C9. Wired to packer, FIFO, trailer appender and pack adapter, the write engine has at every edge a beginning of that block
  with its compression type and masked CRC32C, in beats that are full up to the last.
\<close>

theorem encoded_block_trailed:
  assumes "enc_memories s" and "delivers f rs" and "rs \<noteq> []" and "\<forall>r\<in>set rs. length (fst r) \<le> 64"
    and "length (fst (encode_entries 16 0 [] rs [] [])) \<le> 4096" and "honest_path mem cs (path_start mem s f)"
  shows "prefix (concat (map wide_tokens (ep_out (path_cycles mem cs (path_start mem s f))))) (trailed_blocks [encode_block rs 16]) \<and>
    list_all wide_full (ep_out (path_cycles mem cs (path_start mem s f)))"
proof -
  note inv = path_inv_run [OF path_start_inv [OF assms(1,2), of mem] short_fits [OF assms(4,5)] assms(6)]
  show ?thesis using path_inv_out(1,2) [OF inv] unfolding enc_block_encode [OF assms(3,4)] by blast
qed

text \<open>C5. When nobody stalls, the whole block and its trailer have arrived after a number of cycles the input gives.\<close>

theorem encoded_block_arrives:
  assumes "enc_memories s" and "delivers f rs" and "rs \<noteq> []" and "\<forall>r\<in>set rs. length (fst r) \<le> 64"
    and "length (fst (encode_entries 16 0 [] rs [] [])) \<le> 4096" and "144 * block_cycles f + 6 \<le> n"
  shows "concat (map wide_tokens (ep_out (path_cycles mem (eager_choices mem n (path_start mem s f)) (path_start mem s f)))) =
    trailed_blocks [encode_block rs 16]"
proof -
  note start = path_start_inv [OF assms(1,2), of mem] and fit = short_fits [OF assms(4,5)]
  have "path_effort (path_start mem s f) \<le> n" using assms(6) by (simp add: path_start_effort)
  then have over: "path_over (path_cycles mem (eager_choices mem n (path_start mem s f)) (path_start mem s f))"
    by (intro eager_over [OF start fit] disjI2)
  show ?thesis
    using over_all [OF path_inv_run [OF start fit eager_honest] over] unfolding enc_block_encode [OF assms(3,4)] .
qed

text \<open>
  C10. A key of more than 64 bytes, which the merger passes on, is cut: the encoder writes its length and its first 64
  bytes, and for the rest what a read outside its buffer returns. Unless that happens to be the key, the block is not
  that of the record.
\<close>

theorem long_key_cut:
  assumes "enc_memories s" and "delivers f [(k, v)]" and "64 < length k" and "144 * block_cycles f + 6 \<le> n"
  shows "concat (map wide_tokens (ep_out (path_cycles mem (eager_choices mem n (path_start mem s f)) (path_start mem s f)))) =
      trailed_blocks [encode_block [(take 64 k @ replicate (length k - 64) (ucast (ec_undef s)), v)] 16] \<and>
    (take 64 k @ replicate (length k - 64) (ucast (ec_undef s)) \<noteq> k \<longrightarrow>
      concat (map wide_tokens (ep_out (path_cycles mem (eager_choices mem n (path_start mem s f)) (path_start mem s f)))) \<noteq>
      trailed_blocks [encode_block [(k, v)] 16])"
proof -
  let ?x = "ucast (ec_undef s) :: byte" and ?z = "path_cycles mem (eager_choices mem n (path_start mem s f)) (path_start mem s f)"
  have ok: "rec_ok (k, v)" using assms(2) by (auto simp: delivers_def elim: presents_ConsE)
  have "length (entries_of ?x [(k, v)]) \<le> 4096"
    using ok length_varint_le_10 [of 0] length_varint_le_10 [of "of_nat (length k)"] length_varint_le_10 [of "of_nat (length v)"]
    by (simp add: entries_of_def block_acc_def block_step_def entry_out_def shared_of_def rec_ok_def)
  then have fit: "fits ?x [(k, v)]" by (simp add: fits_def)
  note start = path_start_inv [OF assms(1,2), of mem]
  have "path_effort (path_start mem s f) \<le> n" using assms(4) by (simp add: path_start_effort)
  then have over: "path_over ?z" by (intro eager_over [OF start fit] disjI2)
  have out: "concat (map wide_tokens (ep_out ?z)) = trailed_blocks [enc_block ?x [(k, v)]]"
    by (rule over_all [OF path_inv_run [OF start fit eager_honest] over])
  have cut: "enc_block ?x [(k, v)] = encode_block [(seen ?x k, v)] 16"
    by (simp only: one_block one_reference length_seen)
  have "encode_block [(seen ?x k, v)] 16 = encode_block [(k, v)] 16 \<Longrightarrow> seen ?x k = k"
    unfolding one_reference length_seen by simp
  then show ?thesis unfolding out cut trailed_one seen_def by blast
qed

section \<open>Two records, and one with a key of 70 bytes\<close>

definition idle_encoder :: encoder where
  "idle_encoder = \<lparr>ec_state = Ec_Idle, ec_busy = False, ec_done = False, ec_error = False, ec_counts = no_enc_counts,
     ec_restart_count = 0, ec_buf_a = replicate 64 0, ec_buf_b = replicate 64 0, ec_offsets = replicate 256 0,
     ec_prev_sel = False, ec_prev_len = 0, ec_key_len = 0, ec_value_len = 0, ec_shared = 0, ec_unshared = 0,
     ec_mismatch = False, ec_restart = False, ec_recv = 0, ec_write = 0, ec_copy = 0, ec_rem = 0, ec_emit_idx = 0,
     ec_since = 0, ec_done_seen = False, ec_data = 0, ec_keep = 0, ec_valid = False, ec_last = False, ec_undef = 0\<rparr>"

definition two_records :: "entry list" where
  "two_records = [([1, 2, 3, 4, 5, 6, 7, 8, 9], [10]), ([1, 2, 3, 4, 5, 6, 7, 8, 11], [])]"

definition idle_mem :: "nat \<Rightarrow> mg_beat" where "idle_mem k = beat_of [] False"

lemma idle_encoder_ok: "enc_memories idle_encoder" "ec_undef idle_encoder = 0"
  by (simp_all add: enc_memories_def idle_encoder_def enc_param_defs)

lemma two_records_ok:
  "delivers (feed_of two_records) two_records" "two_records \<noteq> []" "\<forall>r\<in>set two_records. length (fst r) \<le> 64"
  "length (fst (encode_entries 16 0 [] two_records [] [])) \<le> 4096"
proof -
  show "delivers (feed_of two_records) two_records" by (rule feed_of_delivers) (simp add: two_records_def rec_ok_def)
  show "two_records \<noteq> []" "\<forall>r\<in>set two_records. length (fst r) \<le> 64" by (simp_all add: two_records_def)
  have "length (varint n) \<le> 10" for n by (rule length_varint_le_10)
  then have "length (varint 0) \<le> 10" "length (varint 1) \<le> 10" "length (varint 8) \<le> 10" "length (varint 9) \<le> 10" by blast+
  then show "length (fst (encode_entries 16 0 [] two_records [] [])) \<le> 4096" by (simp add: two_records_def)
qed

text \<open>Two edges: the first header is taken, then the first beat of its key while the sink stalls.\<close>

definition two_edges :: "enc_choice list" where
  "two_edges = [\<lparr>eh_hdr = True, eh_data = False, eh_done = False, eh_ready = True\<rparr>,
     \<lparr>eh_hdr = True, eh_data = True, eh_done = False, eh_ready = False\<rparr>]"

lemma encoder_writes_block_witness:
  "prefix (beats_tokens (en_out (enc_cycles two_edges (enc_start_block idle_encoder (feed_of two_records)))))
    (map Some (encode_block two_records 16) @ [None])"
proof -
  have "honest_run two_edges (enc_start_block idle_encoder (feed_of two_records))"
    by (simp add: two_edges_def honest_def)
  from encoder_writes_block [OF idle_encoder_ok(1) two_records_ok this] show ?thesis by blast
qed

lemma encoded_block_trailed_witness:
  "list_all wide_full (ep_out (path_cycles idle_mem two_edges (path_start idle_mem idle_encoder (feed_of two_records))))"
proof -
  have "honest_path idle_mem two_edges (path_start idle_mem idle_encoder (feed_of two_records))"
    by (simp add: two_edges_def honest_def)
  from encoded_block_trailed [OF idle_encoder_ok(1) two_records_ok this] show ?thesis by blast
qed

lemma encoded_block_arrives_witness:
  "concat (map wide_tokens (ep_out (path_cycles idle_mem
      (eager_choices idle_mem (144 * block_cycles (feed_of two_records) + 6) (path_start idle_mem idle_encoder (feed_of two_records)))
      (path_start idle_mem idle_encoder (feed_of two_records))))) = trailed_blocks [encode_block two_records 16]"
  by (rule encoded_block_arrives [OF idle_encoder_ok(1) two_records_ok order.refl])

definition long_record :: entry where "long_record = (replicate 70 7, [1])"

lemma long_key_cut_witness:
  "concat (map wide_tokens (ep_out (path_cycles idle_mem
      (eager_choices idle_mem (144 * block_cycles (feed_of [long_record]) + 6) (path_start idle_mem idle_encoder (feed_of [long_record])))
      (path_start idle_mem idle_encoder (feed_of [long_record]))))) \<noteq> trailed_blocks [encode_block [long_record] 16]"
proof -
  have d: "delivers (feed_of [(replicate 70 7, [1])]) [(replicate 70 7, [1])]"
    by (rule feed_of_delivers) (simp add: rec_ok_def)
  have l: "64 < length (replicate 70 (7 :: byte))" by simp
  have "take 64 (replicate 70 (7 :: byte)) @ replicate (length (replicate 70 (7 :: byte)) - 64) (ucast (ec_undef idle_encoder)) \<noteq>
      replicate 70 7" (is "?l \<noteq> ?r")
  proof
    assume "?l = ?r"
    then have "last ?l = last ?r" by (rule arg_cong)
    then show False by (simp add: idle_encoder_ok(2))
  qed
  then show ?thesis
    unfolding long_record_def by (rule long_key_cut [OF idle_encoder_ok(1) d l order.refl, THEN conjunct2, THEN mp])
qed

end
