(* ===== verification/Pair_Loss.thy ===== *)
theory Pair_Loss
  imports Merger_Pairs Desc_Matcher
begin

text \<open>
  The matcher and the merger together, on two tables whose blocks do not begin at the same keys: the matcher pairs
  blocks by their position only, so that an older record of a key leaves the merger in an earlier pair than a newer one,
  and the seed of the later pair can drop the newer one.
\<close>

section \<open>Records of one user key\<close>

definition of_key :: "byte list \<Rightarrow> entry \<Rightarrow> bool" where
  "of_key u r \<longleftrightarrow> user_key (fst r) = u"

lemma of_key_self [simp]: "of_key (user_key (fst r)) r"
  by (simp add: of_key_def)

lemma by_user_key_append:
  "by_user_key (xs @ ys) \<longleftrightarrow> by_user_key xs \<and> by_user_key ys \<and> (\<forall>x\<in>set xs. \<forall>y\<in>set ys. user_key (fst x) < user_key (fst y))"
  by (auto simp: by_user_key_def sorted_wrt_append)

lemma only_record:
  assumes "by_user_key zs" and "x \<in> set zs"
  shows "filter (of_key (user_key (fst x))) zs = [x]"
proof -
  obtain as bs where z: "zs = as @ x # bs" using split_list [OF assms(2)] by blast
  have "\<forall>a\<in>set as \<union> set bs. \<not> of_key (user_key (fst x)) a"
    using assms(1) by (auto simp: z by_user_key_append by_user_key_Cons of_key_def)
  then have "filter (of_key (user_key (fst x))) as = []" "filter (of_key (user_key (fst x))) bs = []"
    by (auto simp: filter_empty_conv)
  then show ?thesis by (simp add: z)
qed

lemma same_record:
  assumes "by_user_key zs" and "x \<in> set zs" and "w \<in> set zs" and "user_key (fst w) = user_key (fst x)"
  shows "w = x"
proof -
  have "w \<in> set (filter (of_key (user_key (fst x))) zs)" using assms(3,4) by (simp add: of_key_def)
  then show ?thesis using only_record [OF assms(1,2)] by simp
qed

text \<open>In the blocks of a table.\<close>

lemma split_at: "i < length bs \<Longrightarrow> bs = take i bs @ bs ! i # drop (Suc i) bs"
  by (simp add: id_take_nth_drop)

lemma table_keys:
  assumes "by_user_key (concat bs)" and "i < length bs" and "x \<in> set (bs ! i)"
  shows "k < i \<Longrightarrow> y \<in> set (bs ! k) \<Longrightarrow> user_key (fst y) < user_key (fst x)"
    and "i < k \<Longrightarrow> k < length bs \<Longrightarrow> y \<in> set (bs ! k) \<Longrightarrow> user_key (fst x) < user_key (fst y)"
    and "by_user_key (bs ! i)"
proof -
  have "concat bs = concat (take i bs) @ bs ! i @ concat (drop (Suc i) bs)"
    by (subst split_at [OF assms(2)]) (simp only: concat_append concat.simps)
  then have o: "by_user_key (concat (take i bs) @ bs ! i @ concat (drop (Suc i) bs))" using assms(1) by simp
  then show "by_user_key (bs ! i)" by (simp add: by_user_key_append)
  show "user_key (fst y) < user_key (fst x)" if "k < i" "y \<in> set (bs ! k)"
  proof -
    have "bs ! k \<in> set (take i bs)" using that assms(2) by (auto simp: in_set_conv_nth intro: exI [of _ k])
    then show ?thesis using o assms(3) that(2) by (auto simp: by_user_key_append)
  qed
  show "user_key (fst x) < user_key (fst y)" if "i < k" "k < length bs" "y \<in> set (bs ! k)"
  proof -
    have "bs ! k \<in> set (drop (Suc i) bs)"
      using that by (auto simp: in_set_conv_nth intro!: exI [of _ "k - Suc i"])
    then show ?thesis using o assms(3) that(3) by (auto simp: by_user_key_append)
  qed
qed

section \<open>What one pair keeps\<close>

lemma last_user_key_from: "last_user_key prev zs = Some u \<Longrightarrow> prev = Some u \<or> (\<exists>z\<in>set zs. of_key u z)"
  by (induction prev zs rule: last_user_key.induct) (auto simp: of_key_def)

lemma last_user_key_snoc: "last_user_key prev (zs @ [z]) = Some (user_key (fst z))"
  by (induction prev zs rule: last_user_key.induct) auto

lemma none_fresh: "filter (of_key u) zs = [] \<Longrightarrow> filter (of_key u) (fresh prev zs) = []"
  using fresh_subseq [of prev zs] by (auto simp: filter_empty_conv)

lemma one_fresh:
  assumes "filter (of_key u) zs = [x]" and "prev \<noteq> Some u"
  shows "filter (of_key u) (fresh prev zs) = [x]"
proof -
  obtain as bs where z: "zs = as @ x # bs" and n: "\<forall>a\<in>set as. \<not> of_key u a" "of_key u x" "filter (of_key u) bs = []"
    using assms(1) by (auto simp: filter_eq_Cons_iff)
  have "last_user_key prev as \<noteq> Some u" using last_user_key_from [of prev as u] n(1) assms(2) by blast
  then have "fresh prev zs = fresh prev as @ x # fresh (Some u) bs" using n(2) by (simp add: z fresh_append of_key_def)
  moreover have "filter (of_key u) (fresh prev as) = []" using n(1) by (intro none_fresh) (simp add: filter_empty_conv)
  ultimately show ?thesis using n(2) none_fresh [OF n(3)] by simp
qed

lemma filter_weave: "mset (filter P (weave xs ys)) = mset (filter P xs) + mset (filter P ys)"
  by simp

lemma filter_weave_one: "filter P xs = [] \<Longrightarrow> filter P ys = [y] \<Longrightarrow> filter P (weave xs ys) = [y]"
  using filter_weave [of P xs ys] by (simp del: mset_filter)

lemma filter_weave_none: "filter P xs = [] \<Longrightarrow> filter P ys = [] \<Longrightarrow> filter P (weave xs ys) = []"
  by (auto simp: filter_empty_conv)

section \<open>What the pairs keep\<close>

lemma merge_pairs_app:
  "merge_pairs prev (ps @ qs) =
     merge_pairs prev ps @ merge_pairs (last_user_key prev (concat (map (\<lambda>p. weave (fst p) (snd p)) ps))) qs"
proof (induction prev ps rule: merge_pairs.induct)
  case (2 prev xs ys ps)
  have "last_user_key prev (as @ bs) = last_user_key (last_user_key prev as) bs" for as bs
    by (induction prev as rule: last_user_key.induct) simp_all
  then show ?case using 2 by simp
qed simp

lemma merge_pairs_none:
  "\<forall>p\<in>set ps. filter (of_key u) (fst p) = [] \<and> filter (of_key u) (snd p) = [] \<Longrightarrow> filter (of_key u) (concat (merge_pairs prev ps)) = []"
proof (induction prev ps rule: merge_pairs.induct)
  case (2 prev xs ys ps)
  then show ?case using none_fresh [OF filter_weave_none] by (simp add: merge_records_def)
qed simp

text \<open>A pair with the only record of a key so far: it stays.\<close>

lemma merge_pairs_first:
  assumes "\<forall>p\<in>set ps. filter (of_key u) (fst p) = [] \<and> filter (of_key u) (snd p) = []"
    and "filter (of_key u) xs = []" and "filter (of_key u) ys = [y]"
  shows "\<exists>seed. filter (of_key u) (concat (merge_pairs None (ps @ (xs, ys) # qs))) =
      y # filter (of_key u) (concat (merge_pairs (last_user_key seed (weave xs ys)) qs))"
proof -
  let ?seed = "last_user_key None (concat (map (\<lambda>p. weave (fst p) (snd p)) ps))"
  have "\<not> (\<exists>z\<in>set (concat (map (\<lambda>p. weave (fst p) (snd p)) ps)). of_key u z)"
    using assms(1) by (fastforce simp: filter_empty_conv)
  then have "?seed \<noteq> Some u" using last_user_key_from [of None "concat (map (\<lambda>p. weave (fst p) (snd p)) ps)" u] by blast
  then have "filter (of_key u) (merge_records ?seed xs ys) = [y]"
    unfolding merge_records_def by (rule one_fresh [OF filter_weave_one [OF assms(2,3)]])
  then show ?thesis
    using merge_pairs_none [OF assms(1)] by (intro exI [of _ ?seed]) (simp add: merge_pairs_app)
qed

text \<open>The next pair is seeded with this key and begins with it: its record is dropped.\<close>

lemma key_less_strictly: "user_key (fst x) < user_key (fst y) \<Longrightarrow> strictly_before x y"
  by (auto simp: strictly_before_def before_def)

lemma weave_snoc:
  assumes "by_user_key (ys @ [y])" and "\<forall>x\<in>set xs. user_key (fst x) < user_key (fst y)"
  shows "weave xs (ys @ [y]) = weave xs ys @ [y]"
proof -
  have "\<forall>x\<in>set xs \<union> set ys. strictly_before x y"
    using assms by (auto simp: by_user_key_append intro: key_less_strictly)
  then show ?thesis using weave_append [of xs ys "[]" "[y]"] by simp
qed

lemma seed_drops:
  assumes "by_user_key (x # xs)" and "\<forall>y\<in>set ys. user_key (fst x) < user_key (fst y)"
  shows "filter (of_key (user_key (fst x))) (merge_records (Some (user_key (fst x))) (x # xs) ys) = []"
proof -
  have "weave (x # xs) ys = x # weave xs ys" using assms(2) by (cases ys) (auto simp: before_def)
  moreover have "filter (of_key (user_key (fst x))) (weave xs ys) = []"
    using assms by (intro filter_weave_none) (auto simp: filter_empty_conv of_key_def by_user_key_Cons)
  ultimately show ?thesis by (simp add: merge_records_def none_fresh)
qed

lemma newest_only:
  assumes "by_user_key xs" and "by_user_key ys" and "x \<in> set xs" and "y \<in> set ys"
    and "user_key (fst y) = user_key (fst x)" and "key_tag (fst y) < key_tag (fst x)"
  shows "filter (of_key (user_key (fst x))) (newest_merge xs ys) = [x]"
proof -
  have s: "sorted_source (weave xs ys)" using assms(1,2) by (intro sorted_weave by_user_key_sorted)
  have m: "newest_merge xs ys = fresh None (weave xs ys)"
    using merge_records_newest [of xs ys None] assms(1,2) by (simp add: merge_records_def)
  obtain w where w: "w \<in> set (newest_merge xs ys)" "user_key (fst w) = user_key (fst x)" "key_tag (fst x) \<le> key_tag (fst w)"
    using fresh_newest [OF s, of x None] assms(3) unfolding m by auto
  then have "w \<in> set xs \<or> w \<in> set ys" using fresh_subseq [of None "weave xs ys"] unfolding m by auto
  moreover have "w \<noteq> y" using w(3) assms(6) by auto
  ultimately have "w = x" using same_record [OF assms(1,3), of w] same_record [OF assms(2,4), of w] w(2) assms(5) by metis
  then show ?thesis using only_record [OF newest_merge_sorted [OF assms(1,2)] w(1)] by simp
qed

section \<open>Pairs by position\<close>

lemma length_pair_up: "length (pair_up xs ys z) = max (length xs) (length ys)"
  by (induction xs ys z rule: pair_up.induct) auto

lemma pair_up_nth:
  "k < length (pair_up xs ys z) \<Longrightarrow>
     pair_up xs ys z ! k = (if k < length xs then xs ! k else z, if k < length ys then ys ! k else z)"
proof (induction xs ys z arbitrary: k rule: pair_up.induct)
  case (2 x xs z)
  then show ?case by (cases k) simp_all
next
  case (3 y ys z)
  then show ?case by (cases k) simp_all
next
  case (4 x xs y ys z)
  then show ?case by (cases k) simp_all
qed simp

lemma pair_up_map:
  "f z = w \<Longrightarrow> g z = w \<Longrightarrow> map (\<lambda>p. (f (fst p), g (snd p))) (pair_up xs ys z) = pair_up (map f xs) (map g ys) w"
  by (induction xs ys z rule: pair_up.induct) simp_all

text \<open>The records of one key in the pairs: the newer one in block \<open>j\<close> of the one table, the older in block \<open>i\<close> of the other.\<close>

lemma block_only:
  assumes "by_user_key (concat bs)" and "i < length bs" and "x \<in> set (bs ! i)" and "k < length bs"
  shows "filter (of_key (user_key (fst x))) (bs ! k) = (if k = i then [x] else [])"
proof (cases "k = i")
  case True
  then show ?thesis using only_record [OF table_keys(3) [OF assms(1-3)] assms(3)] by simp
next
  case False
  have "user_key (fst y) \<noteq> user_key (fst x)" if "y \<in> set (bs ! k)" for y
    using table_keys(1,2) [OF assms(1-3), of k y] that assms(4) False by (cases "k < i") auto
  then show ?thesis using False by (simp add: filter_empty_conv of_key_def)
qed

lemma older_leaves_first:
  assumes sorted: "by_user_key (concat bs0)" "by_user_key (concat bs1)"
    and pos: "i < j" "j < length bs0" "i < length bs1" "x \<in> set (bs0 ! j)" "y \<in> set (bs1 ! i)"
    and key: "user_key (fst y) = user_key (fst x)"
  shows "\<exists>rest. filter (of_key (user_key (fst x))) (concat (merge_pairs None (pair_up bs0 bs1 []))) = y # rest \<and>
    (j = Suc i \<and> hd (bs0 ! j) = x \<and> last (bs1 ! i) = y \<longrightarrow> rest = [])"
proof -
  let ?u = "user_key (fst x)" and ?ps = "pair_up bs0 bs1 []"
  have len: "i < length ?ps" "j < length ?ps" using pos by (simp_all add: length_pair_up)
  have f0: "filter (of_key ?u) (fst (?ps ! k)) = (if k = j then [x] else [])" if "k < length ?ps" for k
    using block_only [OF sorted(1) pos(2,4)] pos(2) that by (simp add: pair_up_nth)
  have f1: "filter (of_key ?u) (snd (?ps ! k)) = (if k = i then [y] else [])" if "k < length ?ps" for k
    using block_only [OF sorted(2) pos(3,5)] pos(3) that by (simp add: pair_up_nth key)
  have other: "filter (of_key ?u) (fst (?ps ! k)) = [] \<and> filter (of_key ?u) (snd (?ps ! k)) = []"
    if "k < length ?ps" "k \<noteq> i" "k \<noteq> j" for k
    using f0 f1 that by simp
  have none: "\<forall>p\<in>set (take i ?ps). filter (of_key ?u) (fst p) = [] \<and> filter (of_key ?u) (snd p) = []"
    using other pos(1) len(1) unfolding all_set_conv_all_nth by simp
  have at: "?ps ! i = (bs0 ! i, bs1 ! i)" using pos len by (simp add: pair_up_nth)
  have here: "filter (of_key ?u) (bs0 ! i) = []" "filter (of_key ?u) (bs1 ! i) = [y]"
    using f0 [OF len(1)] f1 [OF len(1)] pos(1) by (simp_all add: at)
  obtain seed where out: "filter (of_key ?u) (concat (merge_pairs None ?ps)) =
      y # filter (of_key ?u) (concat (merge_pairs (last_user_key seed (weave (bs0 ! i) (bs1 ! i))) (drop (Suc i) ?ps)))"
    using merge_pairs_first [OF none here, of "drop (Suc i) ?ps"] split_at [OF len(1)] unfolding at by metis
  have "filter (of_key ?u) (concat (merge_pairs (last_user_key seed (weave (bs0 ! i) (bs1 ! i))) (drop (Suc i) ?ps))) = []"
    if adj: "j = Suc i" "hd (bs0 ! j) = x" "last (bs1 ! i) = y"
  proof -
    have "bs1 ! i = butlast (bs1 ! i) @ [y]" using adj(3) pos(5) by (metis append_butlast_last_id empty_iff list.set(1))
    moreover have "\<forall>r\<in>set (bs0 ! i). user_key (fst r) < user_key (fst y)"
      using table_keys(1) [OF sorted(1) pos(2,4,1)] key by simp
    ultimately have seed: "last_user_key seed (weave (bs0 ! i) (bs1 ! i)) = Some ?u"
      using weave_snoc [of "butlast (bs1 ! i)" y "bs0 ! i"] table_keys(3) [OF sorted(2) pos(3,5)] key
      by (simp add: last_user_key_snoc)
    obtain xs where b: "bs0 ! j = x # xs" using adj(2) pos(4) by (cases "bs0 ! j") auto
    define ys where "ys = (if j < length bs1 then bs1 ! j else [])"
    have p: "?ps ! j = (x # xs, ys)" using pair_up_nth [OF len(2)] pos(2) b by (simp add: ys_def)
    have ys: "\<forall>r\<in>set ys. ?u < user_key (fst r)"
      using table_keys(2) [OF sorted(2) pos(3,5,1)] key by (simp add: ys_def)
    have "drop (Suc i) ?ps = (x # xs, ys) # drop (Suc j) ?ps"
      using Cons_nth_drop_Suc [OF len(2)] p adj(1) by simp
    moreover have "filter (of_key ?u) (merge_records (Some ?u) (x # xs) ys) = []"
      using seed_drops [OF _ ys] table_keys(3) [OF sorted(1) pos(2,4)] b by simp
    moreover have "\<forall>p\<in>set (drop (Suc j) ?ps). filter (of_key ?u) (fst p) = [] \<and> filter (of_key ?u) (snd p) = []"
      using other pos(1) unfolding all_set_conv_all_nth by simp
    ultimately show ?thesis using merge_pairs_none by (simp add: seed)
  qed
  then show ?thesis using out by blast
qed

section \<open>The records that leave the merger\<close>

text \<open>A record is cut out of its frame by its header, as the encoder behind the merger does.\<close>

definition split_frame :: "u16 \<times> u16 \<Rightarrow> byte list \<Rightarrow> entry" where
  "split_frame h fr = (take (unat (fst h)) fr, drop (unat (fst h)) fr)"

lemma split_frame_of: "rec_ok r \<Longrightarrow> split_frame (header_of r) (frame_of r) = r"
  by (simp add: split_frame_def header_of_ok frame_of_def)

fun chain_records :: "nat \<Rightarrow> merger \<Rightarrow> prev_key \<Rightarrow> (feed \<times> feed) list \<Rightarrow> entry list" where
  "chain_records n s k [] = []"
| "chain_records n s k ((f0, f1) # ps) =
     (let y = eager_pair n s k f0 f1
      in map2 split_frame (ms_hdrs y) (ms_frames y) @ chain_records n (ms_mg y) (final_prev_key (ms_mg y)) ps)"

lemma split_frames:
  "\<forall>r\<in>set rs. rec_ok r \<Longrightarrow> map2 split_frame (map header_of rs) (map frame_of rs) = rs"
  by (induction rs) (simp_all add: split_frame_of)

lemma chain_records_merge:
  assumes "\<forall>p\<in>set ps. \<forall>r\<in>pair_records p. rec_ok r" and "seed_is k prev"
    and "\<forall>p\<in>set ps. pair_cycles (feed_of (fst p)) (feed_of (snd p)) \<le> n"
  shows "chain_records n s k (map feeds_of ps) = concat (merge_pairs prev ps)"
  using assms
proof (induction prev ps arbitrary: s k rule: merge_pairs.induct)
  case (2 prev xs ys ps)
  have d: "delivers (feed_of xs) xs" "delivers (feed_of ys) ys"
    using "2.prems"(1) by (auto simp: pair_records_def intro!: feed_of_delivers)
  have n: "pair_cycles (feed_of xs) (feed_of ys) \<le> n" using "2.prems"(3) by simp
  note one = eager_pair_merged [OF d "2.prems"(2) n, of s]
  let ?y = "eager_pair n s k (feed_of xs) (feed_of ys)"
  have "chain_records n (ms_mg ?y) (final_prev_key (ms_mg ?y)) (map feeds_of ps) = concat (merge_pairs (last_user_key prev (weave xs ys)) ps)"
    by (rule "2.IH" [OF _ one(4)]) (use "2.prems" in auto)
  moreover have "set (merge_records prev xs ys) \<subseteq> set xs \<union> set ys"
    using fresh_subseq [of prev "weave xs ys"] by (simp add: merge_records_def)
  then have "\<forall>r\<in>set (merge_records prev xs ys). rec_ok r" using "2.prems"(1) by (auto simp: pair_records_def)
  ultimately show ?case by (simp add: one(2,3) split_frames)
qed simp

section \<open>The property\<close>

text \<open>
  C7. An older record replaces a newer one: let the two parsers find the blocks of two tables in key order, and let the older record of
  a user key be in block \<open>i\<close> of table 1, the newer in a later block \<open>j\<close> of table 0. Whatever the stalls of the matcher, the pairs it
  hands out make the merger, every pair seeded as the scheduler does, hand out the older record, which the merge of the two tables
  does not have; and if it is the last record of its block and the newer one the first of the next block, then it
  is the only record of the key that is left: the newer one is gone.
\<close>

theorem older_version_survives:
  assumes "real_handles q0" and "real_handles q1" and "dm_state (dy_m (dm_cycles cs (dm_started m q0 q1))) = Dm_Idle"
    and "blk0 (0, 0) = []" and "blk1 (0, 0) = []"
    and "by_user_key (concat (map blk0 q0))" and "by_user_key (concat (map blk1 q1))"
    and "\<forall>r\<in>set (concat (map blk0 q0)) \<union> set (concat (map blk1 q1)). rec_ok r"
    and "i < j" and "j < length q0" and "i < length q1"
    and "newer \<in> set (blk0 (q0 ! j))" and "older \<in> set (blk1 (q1 ! i))"
    and "user_key (fst older) = user_key (fst newer)" and "key_tag (fst older) < key_tag (fst newer)"
    and "\<forall>p\<in>set (dy_out (dm_cycles cs (dm_started m q0 q1))).
      pair_cycles (feed_of (blk0 (fst (fst p)))) (feed_of (blk1 (snd (fst p)))) \<le> n"
  shows "let out = chain_records n s no_prev_key
        (map (\<lambda>p. feeds_of (blk0 (fst (fst p)), blk1 (snd (fst p)))) (dy_out (dm_cycles cs (dm_started m q0 q1))));
      best = newest_merge (concat (map blk0 q0)) (concat (map blk1 q1));
      same = (\<lambda>r. user_key (fst r) = user_key (fst newer))
    in older \<in> set out \<and> filter same best = [newer] \<and>
      (j = Suc i \<and> last (blk1 (q1 ! i)) = older \<and> hd (blk0 (q0 ! j)) = newer \<longrightarrow> filter same out = [older])"
proof -
  let ?bs0 = "map blk0 q0" and ?bs1 = "map blk1 q1" and ?ps = "pair_up (map blk0 q0) (map blk1 q1) []" and ?u = "user_key (fst newer)"
  let ?out = "dy_out (dm_cycles cs (dm_started m q0 q1))"
  have m: "?out = flagged (pair_up q0 q1 (0, 0))"
    using dm_cycles_inv [OF dm_started_inv [OF assms(1,2)], of cs m] assms(3) by (simp add: dm_inv_def)
  have "map (\<lambda>p. (blk0 (fst (fst p)), blk1 (snd (fst p)))) ?out = map (\<lambda>p. (blk0 (fst p), blk1 (snd p))) (map fst ?out)" by simp
  then have ps: "map (\<lambda>p. (blk0 (fst (fst p)), blk1 (snd (fst p)))) ?out = ?ps"
    using pair_up_map [of blk0 "(0, 0)" "[]" blk1 q0 q1] assms(4,5) by (simp only: m map_fst_flagged)
  have feeds: "map (\<lambda>p. feeds_of (blk0 (fst (fst p)), blk1 (snd (fst p)))) ?out = map feeds_of ?ps"
    unfolding ps [symmetric] by (simp add: comp_def)
  have "set (concat (map fst ?ps)) \<union> set (concat (map snd ?ps)) = set (concat ?bs0) \<union> set (concat ?bs1)"
    by (simp only: pair_up_concat)
  then have ok: "\<forall>p\<in>set ?ps. \<forall>r\<in>pair_records p. rec_ok r" using assms(8) by (fastforce simp: pair_records_def)
  have cyc: "\<forall>p\<in>set ?ps. pair_cycles (feed_of (fst p)) (feed_of (snd p)) \<le> n"
    using assms(16) unfolding ps [symmetric] by auto
  have pos: "j < length ?bs0" "i < length ?bs1" "newer \<in> set (?bs0 ! j)" "older \<in> set (?bs1 ! i)"
    using assms(9-13) by simp_all
  have "newer \<in> set (concat ?bs0)" "older \<in> set (concat ?bs1)" using pos nth_mem by fastforce+
  then have best: "filter (of_key ?u) (newest_merge (concat ?bs0) (concat ?bs1)) = [newer]"
    using newest_only assms(6,7,14,15) by blast
  obtain rest where out: "filter (of_key ?u) (concat (merge_pairs None ?ps)) = older # rest"
    "j = Suc i \<and> hd (?bs0 ! j) = newer \<and> last (?bs1 ! i) = older \<longrightarrow> rest = []"
    using older_leaves_first [OF assms(6,7,9) pos assms(14)] by blast
  have alone: "j = Suc i \<and> last (blk1 (q1 ! i)) = older \<and> hd (blk0 (q0 ! j)) = newer \<longrightarrow> rest = []"
    using out(2) assms(10,11) by auto
  from out(1) have "older \<in> set (concat (merge_pairs None ?ps))" by (metis filter_is_subset list.set_intros(1) subset_iff)
  then show ?thesis
    using out(1) alone best unfolding feeds chain_records_merge [OF ok no_seed cyc] of_key_def [abs_def] by (simp add: Let_def)
qed

definition loss0 :: "handle \<Rightarrow> entry list" where
  "loss0 h = (if h = (0, 60) then [(demo_key 1 2, [7])] else if h = (64, 60) then [(demo_key 3 5, [6])] else [])"

definition loss1 :: "handle \<Rightarrow> entry list" where
  "loss1 h = (if h = (0, 90) then [(demo_key 2 1, [8]), (demo_key 3 4, [9])] else if h = (128, 60) then [(demo_key 4 1, [])] else [])"

theorem older_version_survives_witness:
  "\<forall>m s. \<exists>n. filter (\<lambda>r. user_key (fst r) = replicate 9 3) (chain_records n s no_prev_key
      (map (\<lambda>p. feeds_of (loss0 (fst (fst p)), loss1 (snd (fst p))))
        (dy_out (dm_cycles (replicate 48 prompt) (dm_started m [(0, 60), (64, 60)] [(0, 90), (128, 60)]))))) = [(demo_key 3 4, [9])] \<and>
    newest_merge (concat (map loss0 [(0, 60), (64, 60)])) (concat (map loss1 [(0, 90), (128, 60)])) =
      [(demo_key 1 2, [7]), (demo_key 2 1, [8]), (demo_key 3 5, [6]), (demo_key 4 1, [])]"
proof (intro allI)
  fix m s
  let ?q0 = "[(0, 60), (64, 60)] :: handle list" and ?q1 = "[(0, 90), (128, 60)] :: handle list"
  let ?y = "dm_cycles (replicate 48 prompt) (dm_started m ?q0 ?q1)"
  let ?c = "\<lambda>p. pair_cycles (feed_of (loss0 (fst (fst p)))) (feed_of (loss1 (snd (fst p))))"
  define n where "n = sum_list (map ?c (dy_out ?y))"
  have n: "\<forall>p\<in>set (dy_out ?y). ?c p \<le> n" unfolding n_def using member_le_sum_list [of _ "map ?c (dy_out ?y)"] by force
  have q: "real_handles ?q0" "real_handles ?q1" by (simp_all add: real_handles_def)
  have idle: "dm_state (dy_m ?y) = Dm_Idle" by (rule prompt_idle [OF dm_started_inv [OF q]]) (simp add: dm_started_effort)
  have ord: "by_user_key (concat (map loss0 ?q0))" "by_user_key (concat (map loss1 ?q1))" by code_simp+
  have ok: "\<forall>r\<in>set (concat (map loss0 ?q0)) \<union> set (concat (map loss1 ?q1)). rec_ok r"
    by (simp add: loss0_def loss1_def rec_ok_def demo_key_def)
  have e: "loss0 (0, 0) = []" "loss1 (0, 0) = []" "(0 :: nat) < 1" "1 < length ?q0" "0 < length ?q1"
    "(demo_key 3 5, [6]) \<in> set (loss0 (?q0 ! 1))" "(demo_key 3 4, [9]) \<in> set (loss1 (?q1 ! 0))"
    by (simp_all add: loss0_def loss1_def)
  have k: "user_key (fst (demo_key 3 4, [9 :: byte])) = user_key (fst (demo_key 3 5, [6 :: byte]))"
    "key_tag (fst (demo_key 3 4, [9 :: byte])) < key_tag (fst (demo_key 3 5, [6 :: byte]))"
    "user_key (fst (demo_key 3 5, [6 :: byte])) = replicate 9 3" by code_simp+
  have adj: "last (loss1 (?q1 ! 0)) = (demo_key 3 4, [9])" "hd (loss0 (?q0 ! 1)) = (demo_key 3 5, [6])"
    by (simp_all add: loss0_def loss1_def)
  have best: "newest_merge (concat (map loss0 ?q0)) (concat (map loss1 ?q1)) =
      [(demo_key 1 2, [7]), (demo_key 2 1, [8]), (demo_key 3 5, [6]), (demo_key 4 1, [])]" by code_simp
  from older_version_survives [OF q idle e(1,2) ord ok e(3-7) k(1,2) n, of s] show "\<exists>n. filter (\<lambda>r. user_key (fst r) = replicate 9 3)
      (chain_records n s no_prev_key (map (\<lambda>p. feeds_of (loss0 (fst (fst p)), loss1 (snd (fst p)))) (dy_out ?y))) = [(demo_key 3 4, [9])] \<and>
    newest_merge (concat (map loss0 ?q0)) (concat (map loss1 ?q1)) =
      [(demo_key 1 2, [7]), (demo_key 2 1, [8]), (demo_key 3 5, [6]), (demo_key 4 1, [])]"
    using adj best k(3) by (auto simp: Let_def)
qed

end
