(* ===== verification/Spec2Isabelle.thy ===== *)
theory Spec2Isabelle
  imports Offload_History Gen_Real Gen_Scenarios Gen_Gb Split_Card Pair_Compaction Nblock_Writes Merger_Loss Merger_Types Desc_Matcher Fixture_Copies Driver_Instance Block_Encoder Encoder_Bounds Pair_Loss
begin

text \<open>
  The LevelDB compaction offload: the C++ driver that sends two SSTables to the FPGA card, lets the
  compaction engine merge them and fetches the result, the C++ programs that make the tables the card is
  tested with, and the two test programs of the driver. Of the Verilog, the register file, the block-pair
  scheduler, the descriptor matcher, the record merger, the block encoder and its output path are modelled, all
  but the register file cycle by cycle; the rest of the engine appears as a contract.

  Program parts, and how they interact.
  \<^item> \<^verbatim>\<open>driver/xdma_access.h/.cc\<close> wraps the three XDMA device files: two DMA channels (host to card,
    card to host), moved in chunks of at most 4 MiB and resumed after partial transfers, and the
    AXI-Lite registers as 4-byte accesses.
  \<^item> \<^verbatim>\<open>driver/compaction_offload.h/.cc\<close> is the pipeline: the size gate \<^verbatim>\<open>CanOffload\<close>, \<^verbatim>\<open>ReadFile\<close> of
    both inputs, the DMA of both inputs, clearing, programming and starting the engine, polling
    STATUS against a deadline, reading count and sizes of the outputs, and reading them back
    from consecutive 64-byte aligned places; \<^verbatim>\<open>RunOffload\<close> then writes the first output to a file.
  \<^item> \<^verbatim>\<open>driver/test_board_integration.cc\<close> builds tables itself, byte by byte (\<^verbatim>\<open>namespace fixture\<close>), runs
    unit tests of the driver and, with \<^verbatim>\<open>--board\<close>, two offloads whose output it reads with LevelDB.
    \<^verbatim>\<open>driver/test_split_board.cc\<close> drives the card through \<^verbatim>\<open>XdmaAccess\<close> itself, in four phases with
    different \<^verbatim>\<open>max_file_size\<close>, and checks counters, sizes and footers.
  \<^item> \<^verbatim>\<open>organized/rtl_v2/cmpct_top.v\<close> holds the registers on the other side;
    \<^verbatim>\<open>organized/rtl_v2/cmpct_nblock_engine.v\<close> sequences the block pairs of a run, decides where one output
    table ends and the next begins, and fills the count and size registers the driver reads.
    \<^verbatim>\<open>organized/rtl_v2/cmpct_desc_matcher.v\<close> matches the i-th block handle of one input with the i-th of the
    other and lets two pairs be in flight; \<^verbatim>\<open>organized/rtl_v2/cmpct_merger.v\<close> merges the two record
    streams of a pair and drops repeated user keys. \<^verbatim>\<open>organized/rtl_v2/cmpct_block_encoder.v\<close> compresses the merged
    records into a block with its restart array. Behind it, \<^verbatim>\<open>cmpct_pair_chain.v\<close> packs its bytes,
    buffers them, appends the trailer of the table format and packs them into beats of the bus
    (\<^verbatim>\<open>stream_byte_packer_64.v\<close>, \<^verbatim>\<open>cmpct_infra.v\<close>).
  \<^item> \<^verbatim>\<open>organized/sim/integration/gen_real_sstable*.cc\<close> are three generators that write sources of known
    contents through LevelDB's \<^verbatim>\<open>TableBuilder\<close>, their \<^verbatim>\<open>.memh\<close> images and the counters the engine is
    expected to report.

  Theories, in the order of their dependencies.
  \<^item> Offload\_Prelude: bytes, words, little-endian encodings, \<^verbatim>\<open>std::to_string\<close>, buffers.
  \<^item> Posix\_Interface: the system calls as a record of functions over an arbitrary world, and
    \<^verbatim>\<open>leveldb::Status\<close>.
  \<^item> Xdma\_Access: the class \<^verbatim>\<open>XdmaAccess\<close>, one definition per member function. Xdma\_Transfer:
    the two channels as locales (what \<^verbatim>\<open>pwrite\<close> and \<^verbatim>\<open>pread\<close> promise, partial
    transfers included) and what the DMA loops do over them.
  \<^item> Host\_Files: \<^verbatim>\<open>ReadFile\<close> and \<^verbatim>\<open>WriteFile\<close>, with locales for reading and writing a regular file.
  \<^item> Offload\_Driver: configuration, register map, \<^verbatim>\<open>FindSStableEnd\<close>, \<^verbatim>\<open>CanOffload\<close>, the steps of
    \<^verbatim>\<open>RunOffloadCore\<close> (\<open>launch_engine\<close>, \<open>poll_completion\<close>, \<open>check_status\<close>, \<open>read_results\<close>,
    \<open>read_back\<close>, composed by \<open>collect_outputs\<close> and \<open>run_offload_core\<close>), \<^verbatim>\<open>RunOffloadSplit\<close> and
    \<^verbatim>\<open>RunOffload\<close>.
    Driver\_Instance: the singleton \<^verbatim>\<open>Get()\<close>, its configuration and \<^verbatim>\<open>NowMs\<close>.
  \<^item> Ddr\_Memory, Axil\_Registers, Card\_Model: the card's memory, its registers (write and read decode,
    start and clear pulses), and a host with the card plugged in, as one world on which every system
    call is defined. The compaction engine is a parameter, a function from the registers and the DDR
    at the start pulse to a latency and a result (memory, error bit, count, sizes, counters). All locales
    of the driver are interpreted on this world.
  \<^item> Offload\_Safety: what holds whatever the operating system and the card do. Offload\_Liveness:
    when the pipeline returns (locale \<open>live_os\<close>). Card\_Engine, Card\_Offload, Card\_Files: the steps
    computed on the card. Offload\_Refinement: the contract of the engine and the end-to-end
    theorems. Offload\_Frame: what is left alone (locales \<open>frame_reads\<close> and \<open>frame_os\<close>), descriptors and
    files. Offload\_Outcomes: status codes, termination, and two faults that stay unnoticed.
    Offload\_History: sequences of calls as the inductive relation \<open>host_history\<close>, with what every call
    leaves usable (locale \<open>frame_files\<close>).
  \<^item> Gen\_Common, Gen\_Keys, Gen\_Memh, Gen\_Real, Gen\_Scenarios, Gen\_Gb: the generators.
  \<^item> Sstable\_Block, Sstable\_Table, Sstable\_Roundtrip, Sstable\_Keys: the table format of the fixture
    builder, with a reference reader, internal keys and sizes. Board\_Fixtures: the sources of both tests.
  \<^item> Split\_Test: the program \<^verbatim>\<open>test_split_board.cc\<close> over arbitrary system calls (\<open>run_phase\<close>, \<open>split_main\<close>)
    and its verdicts. Split\_Card: a phase on the card, computed from the engine's result. Fixture\_Copies: code the
    repository has in several copies, transcribed on its own and shown to be the one definition used.
  \<^item> Board\_Test: the program \<^verbatim>\<open>test_board_integration.cc\<close> (\<open>run_unit_tests\<close>, \<open>run_board_test\<close>,
    \<open>run_board_test_multi\<close>, \<open>board_main\<close>) over system calls, C streams and a table reader. Board\_Verdict: what
    \<open>check_leveldb_table\<close> decides. Board\_Card: the program on the card's host. Board\_Compaction: an
    abstract compaction of tables and a reader of tables (locale \<open>table_cursor\<close>) with which its tests pass.
  \<^item> Nblock\_Engine: the block-pair scheduler, one definition step being one rising clock edge of its
    only clocked process. Nblock\_Tables: runs as the inductive relation \<open>nb_run\<close>, with the finished tables
    and the open writes as history, and the invariant that ties them to the driver's read-back.
    Nblock\_Writes: when the assembler runs, which completions the scheduler mistakes, that it never waits in vain, how large a
    table gets with the blocks the encoder can make (Encoder\_Bounds), and how many tables there can be.
  \<^item> Desc\_Matcher: the matcher, one definition step being one rising edge, with the histories of the
    handles it has taken and the pairs it has issued.
  \<^item> Record\_Merge: the abstract merge of two record lists (\<open>merge_records\<close>: smaller user key first, on equal
    keys the larger tag, a record whose user key repeats the last one emitted is dropped), sortedness and the
    newest record of every key. Pair\_Compaction: the same block pair by block pair (\<open>pair_up\<close>,
    \<open>merge_pairs\<close>), with the key last emitted carried from one pair to the next, and when that is the
    merge of the whole tables.
  \<^item> Merger\_Rtl: the merger's registers as the record \<open>merger\<close>, its combinational wires and one clock
    edge (\<open>mg_step\<close>). Merger\_System: the merger between two sources and a sink with arbitrary
    hand-shakes, a run being a list of their choices; what it has put out is a history. Merger\_Bytes,
    Merger\_Emit, Merger\_Compare: bytes of a beat, the beats of a record, the comparators.
    Merger\_Streams, Merger\_Invariant: the history against the record streams, one invariant per state of the
    machine. Merger\_Wait, Merger\_Take, Merger\_Emitting: every state's edge keeps it. Merger\_Refinement: hence
    every run does. Merger\_Termination: the measure of the remaining work. Merger\_Pairs: the properties
    of a pair and of a chain of pairs. Merger\_Loss: a run that loses a record. Pair\_Loss: matcher and merger on tables whose blocks are not aligned. Merger\_Types: the registers stay
    in range in every environment.
  \<^item> Stream\_Stage: clocked modules with a stream in and one out as the record \<open>stage\<close>, two of them wired together
    (\<open>wire\<close>), a run between a source and a sink, and the contract of a stage (locale \<open>stream_stage\<close>), which two
    wired stages keep (locale \<open>stage_pair\<close>). Stream\_Fifo (a bounded queue), Stream\_Packer, Block\_Trailer (with CRC32C) and
    Beat\_Pack: the four modules, with the contract interpreted on each. Block\_Output: the five stages of the path.

  \<^item> Encoder\_Rtl: the block encoder's registers as the record \<open>encoder\<close>, its wires and one clock edge (\<open>enc_step\<close>).
    Encoder\_Spec: the block as a function of the records, equal to the fixture builder's encoder for keys that fit the
    buffers, and the bytes of every word. Encoder\_System: the encoder between the FIFOs of the merger and a sink, and
    one assertion per state. Encoder\_Steps, Encoder\_Receive, Encoder\_Entry, Encoder\_Blocks: every edge keeps them.
    Encoder\_Output: what follows for the output. Encoder\_Termination: the measure. Encoder\_Path: the encoder
    wired to the output path, through the path's contract. Block\_Encoder: the properties. Encoder\_Bounds: the largest block, on
    any inputs.

  State and operations. An \<^verbatim>\<open>XdmaAccess\<close> object is the record \<open>xdma\<close>, the configuration the record
  \<open>config\<close>, the globals of the tests the record \<open>tally\<close>, the registers of the scheduler the record
  \<open>nblock\<close>, those of the matcher, the merger and the encoder the records \<open>matcher\<close>, \<open>merger\<close> and \<open>encoder\<close>; all are passed explicitly, and so is the world. Sizes and addresses are words of
  their C++ or Verilog width and wrap. Errors are values of \<open>status\<close>, each early return a branch. A
  caller's out-parameter that a failing call leaves alone is an argument that is returned unchanged.

  Loops. The DMA loops and the polling loop may run forever, and the other loops contain calls that
  may not return, so they are \<^theory_text>\<open>partial_function (option)\<close>: None is a call that does not
  return. That they do return is proved (\<open>run_offload_terminates\<close>) from progress of the channels and
  of the clock; that they need not is proved too (\<open>dead_channel_hangs\<close>). The scan of a table is such a
  loop as well, since an iterator may never become invalid. No fuel is used in the
  model of the driver. The reference decoder of blocks takes as fuel the length of the block, which
  bounds the number of entries (each has at least three bytes). A run of the matcher, of the merger or of the encoder is a
  number of clock edges: the matcher has issued every pair of a run after ten edges per handle and eight more, the
  output path has delivered after 144 edges per beat and six more, the encoder and the path together after 144 times
  (100 per header, one per beat, 300 more) and six edges, and the merger is idle again after 200 edges per record header and payload beat and 183 more, if every hand-shake is answered
  at once (\<open>eager\<close>, \<open>eager_choices\<close>); without that assumption nothing bounds the time, and the safety half holds for every
  environment.

  What the properties show. The driver: end-to-end refinement of an abstract merge
  (\<open>run_offload_split_computes_merge\<close>), also after any history of failed or successful calls, what success
  implies (\<open>run_offload_core_success\<close>), the state of
  the registers when the engine starts, the DMA round trip, termination, release of descriptors on
  every path, status codes, timeouts and engine errors, the footer scan, the memory layout; and the
  faults found: dropped outputs, a hanging channel, stale results, a truncated output file. The
  tests: exactly when a phase of the split test and the check of an output table pass, the agreement of the
  two footer scans, exit codes, and that the board test accepts a correct engine with all its checks. The
  scheduler: its registers place every table where the driver looks for it, the assembler never overtakes a
  write if the writes complete in the assumed order, the one coincidence outside that order in which it does, in every run
  in which that occurs, that the scheduler never waits in vain for a write as long as no write completes before the end of
  its own encoding (\<open>causal\<close>), how far a table can exceed its limit with any blocks the encoder can report, and that the
  number of tables is not limited. The
  matcher: it issues exactly the pairs of the two index blocks, in order, with at most two in flight. The merger:
  what it puts out is at every edge a prefix of the abstract merge of its inputs, and all of it when it goes idle; that
  it goes idle; a chain of pairs computes the abstract compaction of the blocks; the registers stay well-formed. The
  output path: every block arrives followed by its compression type and masked checksum, in full beats, for all hand-shakes, and
  completely within a number of edges that is linear in its beats. The block encoder: it puts out the block of the reference encoder, and wired to the path that block and its trailer arrive.
  Three faults: a record whose header was taken ahead while the other source ended is lost; pairing blocks
  by position lets an older record of a key out in place of a newer one (\<open>older_version_survives\<close>, for the matcher and the
  merger as modelled, on any such tables); and keys of more than 64 bytes are cut. The encoder's limit of 4096 bytes does not
  bound its blocks; 4451 bytes does (\<open>encoder_block_bound\<close>). The
  generators: sortedness of every source they write, the expected counters as cardinalities of user-key
  sets, the bounds beyond which the stress generator stops being sorted. The format: round trips of
  blocks and tables for every restart interval.

  Parameters. POSIX, the XDMA kernel driver and the clock (\<open>posix\<close>), C streams (\<open>stdio\<close>), LevelDB and the
  file system of the generators (\<open>table_lib\<close>), LevelDB's table reader in the board test (\<open>table_reader\<close>), the
  engine (\<open>engine\<close>, with the contract \<open>engine_implements\<close>). Their
  documented behaviour is assumed by name where a theorem needs it, and witnessed on the concrete
  world. What the pair chain, the assembler and the matcher drive is the input of a scheduler step; whether
  that coincidence can happen depends on them. Which records belong to a block handle is an argument of the theorem on
  unaligned tables. The sources of the merger are record decoders that keep a header
  and its end mark stable until taken; the refinement further assumes that a source announces its end only after its last
  record has been taken (\<open>patient\<close>), which the lost record shows to be needed. The header FIFO in front of the encoder
  shows what it holds once the merger is done (\<open>honest\<close>), and a beat never holds bytes of both key and value, as the merger
  emits them. The blocks are those whose entries take at most 4096 bytes, beyond which the encoder may stop with an error.

  Not modelled: messages on the standard streams; the clock-domain crossings of the
  register file; the rest of the engine's data path (index and data parsers, record decoder, table
  assembler, AXI engines, the narrower variants of the stream modules) and its profiling counters, which remain the contract of the engine, so that merger and encoder are not
  composed with the driver's end-to-end theorem; scripts, simulation output and archived sources.
\<close>

end
